(* ===== verification/Base.thy ===== *)
theory Base
  imports Main "HOL-Library.Word" "HOL-Library.Monad_Syntax"
begin

text \<open>
  Prelude of the development: the return codes of the server, the outcome type of the
  modelled operations, byte memory, and the generic lemmas and collections the component
  theories share.

  Every C++ operation that can stop the process (a failed \<open>ASSERT\<close>, \<open>exit(-1)\<close>), read or
  write outside an array, or loop for ever is a function into \<^typ>\<open>'a option\<close>: \<^const>\<open>None\<close> is
  that outcome. Everything the code reports by a return code is a value \<open>Some (rc, \<dots>)\<close>, so
  that "the operation returns" and "the operation succeeds" are different statements.
\<close>

section \<open>Return codes\<close>

text \<open>\<open>enum class RC\<close> of \<open>src/src/observer/common/rc.h\<close>, in its order.\<close>

datatype (plugins only: code) RC =
    SUCCESS | ERROR | INVALID_ARGUMENT | UNIMPLEMENTED | SQL_SYNTAX | INTERNAL | NOMEM
  | NOTFOUND | EMPTY | FULL | EXIST | NOT_EXIST | BUFFERPOOL_OPEN | BUFFERPOOL_NOBUF
  | BUFFERPOOL_INVALID_PAGE_NUM | RECORD_OPENNED | RECORD_INVALID_RID | RECORD_INVALID_KEY
  | RECORD_DUPLICATE_KEY | RECORD_NOMEM | RECORD_EOF | RECORD_NOT_EXIST | RECORD_INVISIBLE
  | SCHEMA_DB_EXIST | SCHEMA_VIEW_EXIST | SCHEMA_DB_NOT_EXIST | SCHEMA_DB_NOT_OPENED
  | SCHEMA_TABLE_NOT_EXIST | SCHEMA_TABLE_EXIST | SCHEMA_FIELD_NOT_EXIST
  | SCHEMA_FIELD_MISSING | SCHEMA_FIELD_TYPE_MISMATCH | SCHEMA_INDEX_NAME_REPEAT
  | SCHEMA_INDEX_UNIQUE | IOERR_READ | IOERR_WRITE | IOERR_ACCESS | IOERR_OPEN | IOERR_CLOSE
  | IOERR_SEEK | IOERR_TOO_LONG | IOERR_SYNC | LOCKED_UNLOCK | LOCKED_NEED_WAIT
  | LOCKED_CONCURRENCY_CONFLICT | FILE_EXIST | FILE_NOT_EXIST | FILE_NAME | FILE_BOUND
  | FILE_CREATE | FILE_OPEN | FILE_NOT_OPENED | FILE_CLOSE | FILE_REMOVE | GENERIC_ERROR
  | VARIABLE_NOT_EXISTS | VARIABLE_NOT_VALID | LOGBUF_FULL | LOG_FILE_FULL
  | LOG_ENTRY_INVALID | UNSUPPORTED

definition OB_SUCC :: "RC \<Rightarrow> bool" where
  "OB_SUCC rc \<longleftrightarrow> rc = SUCCESS"

definition OB_FAIL :: "RC \<Rightarrow> bool" where
  "OB_FAIL rc \<longleftrightarrow> rc \<noteq> SUCCESS"

lemma OB_SUCC_simps [simp]: "OB_SUCC SUCCESS" "rc \<noteq> SUCCESS \<Longrightarrow> \<not> OB_SUCC rc"
  by (simp_all add: OB_SUCC_def)

lemma OB_FAIL_iff [simp]: "OB_FAIL rc \<longleftrightarrow> rc \<noteq> SUCCESS"
  by (simp add: OB_FAIL_def)

text \<open>\<open>ASSERT(cond, \<dots>)\<close>: the process stops when the condition fails.\<close>

definition assert_that :: "bool \<Rightarrow> unit option" where
  "assert_that b = (if b then Some () else None)"

lemma assert_that_simps [simp]:
  "assert_that True = Some ()" "assert_that False = None"
  "assert_that b = Some u \<longleftrightarrow> b" "assert_that b = None \<longleftrightarrow> \<not> b"
  by (auto simp: assert_that_def)

lemma assert_that_bind [simp]:
  "assert_that b \<bind> f = (if b then f () else None)"
  by (simp add: assert_that_def)

section \<open>Collections shared by the component theories\<close>

named_theorems layout_simps \<open>constants and layout equations of pages and files\<close>
named_theorems inv_intros \<open>preservation of the components' invariants\<close>

lemmas bind_SomeE = bind_eq_Some_conv [THEN iffD1, elim_format]

section \<open>Machine types\<close>

type_synonym byte = "8 word"

type_synonym PageNum = int
type_synonym SlotNum = int
type_synonym LSN = int

definition INT32_MAX :: int where
  "INT32_MAX = 2 ^ 31 - 1"

definition int32_range :: "int \<Rightarrow> bool" where
  "int32_range x \<longleftrightarrow> - (2 ^ 31) \<le> x \<and> x \<le> 2 ^ 31 - 1"

text \<open>Conversion of a wider integer to \<open>int32_t\<close> (two's complement).\<close>

definition to_int32 :: "int \<Rightarrow> int" where
  "to_int32 x = (x + 2 ^ 31) mod 2 ^ 32 - 2 ^ 31"

lemma to_int32_id: "int32_range x \<Longrightarrow> to_int32 x = x"
  by (simp add: to_int32_def int32_range_def)

section \<open>Byte memory\<close>

text \<open>
  An array is a list; a pointer into it is an offset. Reading and writing outside the array
  is the outcome \<^const>\<open>None\<close>.
\<close>

definition mem_get :: "'a list \<Rightarrow> nat \<Rightarrow> 'a option" where
  "mem_get m i = (if i < length m then Some (m ! i) else None)"

definition mem_set :: "'a list \<Rightarrow> nat \<Rightarrow> 'a \<Rightarrow> 'a list option" where
  "mem_set m i v = (if i < length m then Some (m[i := v]) else None)"

definition mem_read :: "'a list \<Rightarrow> nat \<Rightarrow> nat \<Rightarrow> 'a list option" where
  "mem_read m off n = (if off + n \<le> length m then Some (take n (drop off m)) else None)"

definition mem_write :: "'a list \<Rightarrow> nat \<Rightarrow> 'a list \<Rightarrow> 'a list option" where
  "mem_write m off d =
     (if off + length d \<le> length m then Some (take off m @ d @ drop (off + length d) m)
      else None)"

lemma mem_get_Some_iff: "mem_get m i = Some v \<longleftrightarrow> i < length m \<and> v = m ! i"
  by (auto simp: mem_get_def)

lemma mem_get_in [simp]: "i < length m \<Longrightarrow> mem_get m i = Some (m ! i)"
  by (simp add: mem_get_def)

lemma mem_set_in [simp]: "i < length m \<Longrightarrow> mem_set m i v = Some (m[i := v])"
  by (simp add: mem_set_def)

lemma mem_set_Some_iff: "mem_set m i v = Some m' \<longleftrightarrow> i < length m \<and> m' = m[i := v]"
  by (auto simp: mem_set_def)

lemma mem_read_in [simp]:
  "off + n \<le> length m \<Longrightarrow> mem_read m off n = Some (take n (drop off m))"
  by (simp add: mem_read_def)

lemma mem_read_Some_iff:
  "mem_read m off n = Some d \<longleftrightarrow> off + n \<le> length m \<and> d = take n (drop off m)"
  by (auto simp: mem_read_def)

lemma mem_write_Some_iff:
  "mem_write m off d = Some m' \<longleftrightarrow>
     off + length d \<le> length m \<and> m' = take off m @ d @ drop (off + length d) m"
  by (auto simp: mem_write_def)

lemma mem_write_length: "mem_write m off d = Some m' \<Longrightarrow> length m' = length m"
  by (auto simp: mem_write_Some_iff)

lemma mem_write_nth:
  assumes "mem_write m off d = Some m'" and "i < length m"
  shows "m' ! i = (if off \<le> i \<and> i < off + length d then d ! (i - off) else m ! i)"
  using assms by (auto simp: mem_write_Some_iff nth_append)

lemma mem_read_eqI:
  assumes "off + n \<le> length m" "off + n \<le> length m'"
    and "\<And>i. off \<le> i \<Longrightarrow> i < off + n \<Longrightarrow> m ! i = m' ! i"
  shows "mem_read m off n = mem_read m' off n"
proof -
  have "take n (drop off m) = take n (drop off m')"
    by (rule nth_equalityI) (use assms in auto)
  with assms(1,2) show ?thesis by simp
qed

lemma mem_read_mem_write_same:
  "mem_write m off d = Some m' \<Longrightarrow> mem_read m' off (length d) = Some d"
  by (auto simp: mem_write_Some_iff mem_read_def)

lemma mem_read_mem_write_other:
  assumes w: "mem_write m off d = Some m'"
    and disj: "o' + n \<le> off \<or> off + length d \<le> o'"
  shows "mem_read m' o' n = mem_read m o' n"
proof (cases "o' + n \<le> length m")
  case True
  have "m' ! i = m ! i" if "o' \<le> i" "i < o' + n" for i
    using mem_write_nth [OF w, of i] that disj True by auto
  then show ?thesis
    using True mem_write_length [OF w] by (intro mem_read_eqI) auto
next
  case False
  then show ?thesis by (simp add: mem_read_def mem_write_length [OF w])
qed

lemma mem_read_list_update_other:
  "i < off \<or> off + n \<le> i \<Longrightarrow> mem_read (m[i := v]) off n = mem_read m off n"
  by (auto simp: mem_read_def intro: nth_equalityI)

section \<open>State machines\<close>

text \<open>
  The contract every stateful component meets: its operations, run as a sequence, keep an
  invariant of the state. \<open>run_ops step\<close> runs a list of operations; \<^const>\<open>None\<close> is a run in
  which the process stopped.
\<close>

fun run_ops :: "('op \<Rightarrow> 's \<Rightarrow> ('r \<times> 's) option) \<Rightarrow> 'op list \<Rightarrow> 's \<Rightarrow> ('r list \<times> 's) option" where
  "run_ops step [] s = Some ([], s)"
| "run_ops step (x # xs) s = do {
     (r, s') \<leftarrow> step x s;
     (rs, s'') \<leftarrow> run_ops step xs s';
     Some (r # rs, s'')
   }"

text \<open>Every operation of the list is allowed in the state it is run in.\<close>

fun allowed_run ::
    "('op \<Rightarrow> 's \<Rightarrow> ('r \<times> 's) option) \<Rightarrow> ('op \<Rightarrow> 's \<Rightarrow> bool) \<Rightarrow> 'op list \<Rightarrow> 's \<Rightarrow> bool" where
  "allowed_run step allowed [] s \<longleftrightarrow> True"
| "allowed_run step allowed (x # xs) s \<longleftrightarrow> allowed x s \<and>
     (case step x s of None \<Rightarrow> True | Some (r, s') \<Rightarrow> allowed_run step allowed xs s')"

text \<open>A run of an abstract machine given by its step relation.\<close>

fun spec_run :: "('op \<Rightarrow> 'a \<Rightarrow> 'r \<Rightarrow> 'a \<Rightarrow> bool) \<Rightarrow> 'op list \<Rightarrow> 'a \<Rightarrow> 'r list \<Rightarrow> 'a \<Rightarrow> bool" where
  "spec_run spec [] a rs a' \<longleftrightarrow> rs = [] \<and> a' = a"
| "spec_run spec (x # xs) a rs a' \<longleftrightarrow> (\<exists>r rs' b. rs = r # rs' \<and> spec x a r b \<and> spec_run spec xs b rs' a')"

locale safe_machine =
  fixes step :: "'op \<Rightarrow> 's \<Rightarrow> ('r \<times> 's) option"
    and inv :: "'s \<Rightarrow> bool"
    and allowed :: "'op \<Rightarrow> 's \<Rightarrow> bool"
  assumes step_returns: "inv s \<Longrightarrow> allowed x s \<Longrightarrow> \<exists>r s'. step x s = Some (r, s')"
    and step_inv: "inv s \<Longrightarrow> allowed x s \<Longrightarrow> step x s = Some (r, s') \<Longrightarrow> inv s'"
begin

lemma run_safe:
  assumes "inv s" "allowed_run step allowed xs s"
  shows "\<exists>rs s'. run_ops step xs s = Some (rs, s') \<and> inv s' \<and> length rs = length xs"
  using assms
proof (induction xs arbitrary: s)
  case Nil
  then show ?case by simp
next
  case (Cons x xs)
  from Cons.prems have al: "allowed x s" by simp
  from step_returns [OF Cons.prems(1) al] obtain r s1 where s1: "step x s = Some (r, s1)"
    by blast
  with step_inv [OF Cons.prems(1) al] have "inv s1" by blast
  with Cons.IH [of s1] Cons.prems(2) s1 obtain rs s2
    where "run_ops step xs s1 = Some (rs, s2)" "inv s2" "length rs = length xs"
    by auto
  with s1 show ?case by simp
qed

end

text \<open>
  A machine that implements an abstract one: \<open>abs\<close> maps its states and every step is a step of
  the specification. A run then exists and is a run of the specification.
\<close>

locale refining_machine = safe_machine step inv allowed
  for step :: "'op \<Rightarrow> 's \<Rightarrow> ('r \<times> 's) option" and inv :: "'s \<Rightarrow> bool" and allowed :: "'op \<Rightarrow> 's \<Rightarrow> bool" +
  fixes abs :: "'s \<Rightarrow> 'a"
    and spec :: "'op \<Rightarrow> 'a \<Rightarrow> 'r \<Rightarrow> 'a \<Rightarrow> bool"
  assumes step_refines: "inv s \<Longrightarrow> allowed x s \<Longrightarrow> step x s = Some (r, s') \<Longrightarrow> spec x (abs s) r (abs s')"
begin

lemma run_refines:
  assumes "inv s" "allowed_run step allowed xs s"
  shows "\<exists>rs s'. run_ops step xs s = Some (rs, s') \<and> inv s' \<and> spec_run spec xs (abs s) rs (abs s')"
  using assms
proof (induction xs arbitrary: s)
  case Nil
  then show ?case by simp
next
  case (Cons x xs)
  from Cons.prems have al: "allowed x s" by simp
  from step_returns [OF Cons.prems(1) al] obtain r s1 where s1: "step x s = Some (r, s1)"
    by blast
  with step_inv [OF Cons.prems(1) al] have "inv s1" by blast
  with Cons.IH [of s1] Cons.prems(2) s1 obtain rs s2
    where "run_ops step xs s1 = Some (rs, s2)" "inv s2" "spec_run spec xs (abs s1) rs (abs s2)"
    by auto
  with s1 step_refines [OF Cons.prems(1) al s1] show ?case by auto
qed

end

end
