(* ===== verification/Bitmap.thy ===== *)
theory Bitmap
  imports Base
begin

unbundle bit_operations_syntax

text \<open>
  \<open>common::Bitmap\<close> (\<open>src/deps/common/lang/bitmap.cpp\<close>): the slot bitmap of record pages and
  the page bitmap of buffer pool files. The object holds a pointer into a page and the number
  of bits; the model passes the page's bytes along and the pointer is an offset into them.
\<close>

section \<open>The operations\<close>

record bitmap =
  bm_bitmap :: nat  \<comment> \<open>\<open>char *bitmap_\<close>: offset of the first byte\<close>
  bm_size :: nat    \<comment> \<open>\<open>int size_\<close>\<close>

function find_first_zero :: "byte \<Rightarrow> nat \<Rightarrow> int" where
  "find_first_zero b i =
     (if i < 8 then (if b AND push_bit i 1 = 0 then int i else find_first_zero b (Suc i))
      else - 1)"
  by pat_completeness auto
termination
  by (relation "measure (\<lambda>(b, i). 8 - i)") auto

function find_first_setted :: "byte \<Rightarrow> nat \<Rightarrow> int" where
  "find_first_setted b i =
     (if i < 8 then (if b AND push_bit i 1 \<noteq> 0 then int i else find_first_setted b (Suc i))
      else - 1)"
  by pat_completeness auto
termination
  by (relation "measure (\<lambda>(b, i). 8 - i)") auto

declare find_first_zero.simps [simp del] find_first_setted.simps [simp del]

definition bytes :: "nat \<Rightarrow> nat" where
  "bytes n = (if n mod 8 = 0 then n div 8 else n div 8 + 1)"

definition bitmap_init :: "nat \<Rightarrow> nat \<Rightarrow> bitmap" where
  "bitmap_init p n = \<lparr>bm_bitmap = p, bm_size = n\<rparr>"

definition get_bit :: "byte list \<Rightarrow> bitmap \<Rightarrow> nat \<Rightarrow> bool option" where
  "get_bit m bm index = do {
     bits \<leftarrow> mem_get m (bm_bitmap bm + index div 8);
     Some (bits AND push_bit (index mod 8) 1 \<noteq> 0)
   }"

definition set_bit :: "byte list \<Rightarrow> bitmap \<Rightarrow> nat \<Rightarrow> byte list option" where
  "set_bit m bm index = do {
     bits \<leftarrow> mem_get m (bm_bitmap bm + index div 8);
     mem_set m (bm_bitmap bm + index div 8) (bits OR push_bit (index mod 8) 1)
   }"

definition clear_bit :: "byte list \<Rightarrow> bitmap \<Rightarrow> nat \<Rightarrow> byte list option" where
  "clear_bit m bm index = do {
     bits \<leftarrow> mem_get m (bm_bitmap bm + index div 8);
     mem_set m (bm_bitmap bm + index div 8) (bits AND NOT (push_bit (index mod 8) 1))
   }"

text \<open>
  The scanning loop of \<open>next_unsetted_bit\<close>: \<open>iter\<close> runs over the bytes up to \<open>end\<close>, and
  \<open>start_in_byte\<close> is reset to 0 after the first one. \<open>byte != -1\<close> skips a full byte.
\<close>

function unsetted_loop :: "byte list \<Rightarrow> nat \<Rightarrow> nat \<Rightarrow> nat \<Rightarrow> nat \<Rightarrow> int option" where
  "unsetted_loop m base iter end' start_in_byte =
     (if iter < end' then do {
        b \<leftarrow> mem_get m (base + iter);
        if b \<noteq> - 1 \<and> find_first_zero b start_in_byte \<ge> 0
        then Some (int iter * 8 + find_first_zero b start_in_byte)
        else unsetted_loop m base (Suc iter) end' 0
      } else Some (- 1))"
  by pat_completeness auto
termination
  by (relation "measure (\<lambda>(m, base, iter, end', s). end' - iter)") auto

definition next_unsetted_bit :: "byte list \<Rightarrow> bitmap \<Rightarrow> nat \<Rightarrow> int option" where
  "next_unsetted_bit m bm start = do {
     ret \<leftarrow> unsetted_loop m (bm_bitmap bm) (start div 8) (bytes (bm_size bm)) (start mod 8);
     Some (if ret \<ge> int (bm_size bm) then - 1 else ret)
   }"

function setted_loop :: "byte list \<Rightarrow> nat \<Rightarrow> nat \<Rightarrow> nat \<Rightarrow> nat \<Rightarrow> int option" where
  "setted_loop m base iter end' start_in_byte =
     (if iter < end' then do {
        b \<leftarrow> mem_get m (base + iter);
        if b \<noteq> 0 \<and> find_first_setted b start_in_byte \<ge> 0
        then Some (int iter * 8 + find_first_setted b start_in_byte)
        else setted_loop m base (Suc iter) end' 0
      } else Some (- 1))"
  by pat_completeness auto
termination
  by (relation "measure (\<lambda>(m, base, iter, end', s). end' - iter)") auto

definition next_setted_bit :: "byte list \<Rightarrow> bitmap \<Rightarrow> nat \<Rightarrow> int option" where
  "next_setted_bit m bm start = do {
     ret \<leftarrow> setted_loop m (bm_bitmap bm) (start div 8) (bytes (bm_size bm)) (start mod 8);
     Some (if ret \<ge> int (bm_size bm) then - 1 else ret)
   }"

declare unsetted_loop.simps [simp del] setted_loop.simps [simp del]

section \<open>The bits as a predicate on indices\<close>

text \<open>Specification: bit \<open>i\<close> of the bitmap at \<open>base\<close> is bit \<open>i mod 8\<close> of byte \<open>i div 8\<close>.\<close>

definition bit_at :: "byte list \<Rightarrow> nat \<Rightarrow> nat \<Rightarrow> bool" where
  "bit_at m base i \<longleftrightarrow> bit (m ! (base + i div 8)) (i mod 8)"

text \<open>The bitmap's bytes lie inside the memory.\<close>

definition bitmap_valid :: "byte list \<Rightarrow> bitmap \<Rightarrow> bool" where
  "bitmap_valid m bm \<longleftrightarrow> bm_bitmap bm + bytes (bm_size bm) \<le> length m"

lemma and_push_bit_eq_0_iff: "(b :: byte) AND push_bit i 1 = 0 \<longleftrightarrow> \<not> bit b i"
  by (simp add: push_bit_of_1 and_exp_eq_0_iff_not_bit)

lemma bytes_eq: "bytes n = (n + 7) div 8"
proof -
  define q r where "q = n div 8" and "r = n mod 8"
  have n: "n = r + 8 * q" and r: "r < 8" by (simp_all add: q_def r_def)
  have "(n + 7) div 8 = q + (r + 7) div 8" by (simp add: n)
  moreover have "(r + 7) div 8 = (if r = 0 then 0 else 1)" using r by auto
  ultimately show ?thesis by (simp add: bytes_def flip: q_def r_def)
qed

lemma bytes_bound: "i < n \<Longrightarrow> i div 8 < bytes n"
  using div_le_mono [of "i + 8" "n + 7" 8] by (simp add: bytes_eq)

lemma bitmap_index_in:
  "bitmap_valid m bm \<Longrightarrow> i < bm_size bm \<Longrightarrow> bm_bitmap bm + i div 8 < length m"
  using bytes_bound [of i "bm_size bm"] by (auto simp: bitmap_valid_def)

lemma get_bit_eq:
  assumes "bitmap_valid m bm" "i < bm_size bm"
  shows "get_bit m bm i = Some (bit_at m (bm_bitmap bm) i)"
  using bitmap_index_in [OF assms]
  by (simp add: get_bit_def bit_at_def and_exp_eq_0_iff_not_bit)

lemma set_bit_eq:
  assumes "bitmap_valid m bm" "i < bm_size bm"
  shows "set_bit m bm i =
    Some (m[bm_bitmap bm + i div 8 := Bit_Operations.set_bit (i mod 8) (m ! (bm_bitmap bm + i div 8))])"
  using bitmap_index_in [OF assms] by (simp add: set_bit_def set_bit_eq_or)

lemma clear_bit_eq:
  assumes "bitmap_valid m bm" "i < bm_size bm"
  shows "clear_bit m bm i =
    Some (m[bm_bitmap bm + i div 8 := unset_bit (i mod 8) (m ! (bm_bitmap bm + i div 8))])"
  using bitmap_index_in [OF assms] by (simp add: clear_bit_def unset_bit_eq_and_not)

lemma bit_at_update:
  assumes "k < length m" "k = base + j div 8"
  shows "bit_at (m[k := v]) base i =
    (if i div 8 = j div 8 then bit v (i mod 8) else bit_at m base i)"
  using assms by (auto simp: bit_at_def nth_list_update)

lemma div_mod_8_eq_iff: "i div 8 = j div 8 \<and> i mod 8 = j mod 8 \<longleftrightarrow> i = (j :: nat)"
  by (metis mult_div_mod_eq)

lemma bit_at_set_bit:
  assumes "bitmap_valid m bm" "j < bm_size bm" "set_bit m bm j = Some m'"
  shows "bit_at m' (bm_bitmap bm) i \<longleftrightarrow> i = j \<or> bit_at m (bm_bitmap bm) i"
proof -
  let ?k = "bm_bitmap bm + j div 8"
  have k: "?k < length m" using assms(1,2) by (rule bitmap_index_in)
  have m': "m' = m[?k := Bit_Operations.set_bit (j mod 8) (m ! ?k)]"
    using assms by (simp add: set_bit_eq)
  show ?thesis
    unfolding m' bit_at_update [OF k refl] using div_mod_8_eq_iff [of i j]
    by (auto simp: bit_set_bit_iff bit_at_def)
qed

lemma bit_at_clear_bit:
  assumes "bitmap_valid m bm" "j < bm_size bm" "clear_bit m bm j = Some m'"
  shows "bit_at m' (bm_bitmap bm) i \<longleftrightarrow> i \<noteq> j \<and> bit_at m (bm_bitmap bm) i"
proof -
  let ?k = "bm_bitmap bm + j div 8"
  have k: "?k < length m" using assms(1,2) by (rule bitmap_index_in)
  have m': "m' = m[?k := unset_bit (j mod 8) (m ! ?k)]"
    using assms by (simp add: clear_bit_eq)
  show ?thesis
    unfolding m' bit_at_update [OF k refl] using div_mod_8_eq_iff [of i j]
    by (auto simp: bit_unset_bit_iff bit_at_def)
qed

section \<open>Searching for the next bit\<close>

text \<open>
  What a search from \<open>lo\<close> below \<open>hi\<close> returns: \<open>-1\<close> when no index has the property, and the
  least index that has it otherwise.
\<close>

definition first_hit :: "(nat \<Rightarrow> bool) \<Rightarrow> nat \<Rightarrow> nat \<Rightarrow> int \<Rightarrow> bool" where
  "first_hit P lo hi r \<longleftrightarrow>
     (r = - 1 \<and> (\<forall>j. lo \<le> j \<and> j < hi \<longrightarrow> \<not> P j)) \<or>
     (\<exists>j. r = int j \<and> lo \<le> j \<and> j < hi \<and> P j \<and> (\<forall>k. lo \<le> k \<and> k < j \<longrightarrow> \<not> P k))"

lemma first_hit_none: "(\<And>j. lo \<le> j \<Longrightarrow> j < hi \<Longrightarrow> \<not> P j) \<Longrightarrow> first_hit P lo hi (- 1)"
  by (auto simp: first_hit_def)

lemma first_hit_here: "P lo \<Longrightarrow> lo < hi \<Longrightarrow> first_hit P lo hi (int lo)"
  by (auto simp: first_hit_def)

lemma first_hit_step: "\<not> P lo \<Longrightarrow> first_hit P (Suc lo) hi r \<Longrightarrow> first_hit P lo hi r"
  unfolding first_hit_def by (metis Suc_le_eq le_neq_implies_less less_imp_le)

lemma first_hit_shift:
  assumes "first_hit (\<lambda>j. P (a + j)) s n r"
  shows "first_hit P (a + s) (a + n) (if r \<ge> 0 then int a + r else - 1)"
proof -
  have below: "\<not> P j" if "\<And>k. s \<le> k \<Longrightarrow> k < t \<Longrightarrow> \<not> P (a + k)" "a + s \<le> j" "j < a + t" for j t
    using that(1) [of "j - a"] that(2,3) by simp
  from assms show ?thesis
  proof (cases "r = - 1")
    case True
    with assms below [of n] show ?thesis by (auto simp: first_hit_def)
  next
    case False
    with assms obtain j where "r = int j" "s \<le> j" "j < n" "P (a + j)"
      "\<And>k. s \<le> k \<Longrightarrow> k < j \<Longrightarrow> \<not> P (a + k)"
      by (auto simp: first_hit_def)
    with below [of j] show ?thesis
      by (auto simp: first_hit_def intro!: exI [of _ "a + j"])
  qed
qed

lemma first_hit_append:
  assumes "first_hit P lo mid r1" "first_hit P mid hi r2" "lo \<le> mid" "mid \<le> hi"
  shows "first_hit P lo hi (if r1 \<ge> 0 then r1 else r2)"
proof (cases "r1 \<ge> 0")
  case True
  with assms(1,4) show ?thesis unfolding first_hit_def by fastforce
next
  case False
  with assms(1) have lo: "\<not> P j" if "lo \<le> j" "j < mid" for j
    using that unfolding first_hit_def by auto
  show ?thesis
  proof (cases "r2 = - 1")
    case True
    with assms(2) have "\<not> P j" if "mid \<le> j" "j < hi" for j
      using that unfolding first_hit_def by auto
    with lo True False show ?thesis
      by (auto intro!: first_hit_none) (metis not_le)
  next
    case hit: False
    with assms(2) obtain j where j: "r2 = int j" "mid \<le> j" "j < hi" "P j"
      "\<And>k. mid \<le> k \<Longrightarrow> k < j \<Longrightarrow> \<not> P k"
      unfolding first_hit_def by auto
    then have "\<not> P k" if "lo \<le> k" "k < j" for k
      using lo [of k] that by (cases "k < mid") auto
    with j assms(3) False show ?thesis by (auto simp: first_hit_def)
  qed
qed

lemma first_hit_below:
  assumes "first_hit P lo hi' r" "hi \<le> hi'"
  shows "first_hit P lo hi (if r \<ge> int hi then - 1 else r)"
  using assms unfolding first_hit_def by auto

lemma first_hit_cong:
  "(\<And>j. lo \<le> j \<Longrightarrow> j < hi \<Longrightarrow> P j = Q j) \<Longrightarrow> first_hit P lo hi r \<Longrightarrow> first_hit Q lo hi r"
  unfolding first_hit_def by fastforce

lemma first_hit_ge: "first_hit P lo hi r \<Longrightarrow> r \<noteq> - 1 \<Longrightarrow> P (nat r) \<and> int lo \<le> r \<and> r < int hi"
  unfolding first_hit_def by auto

lemma find_first_zero_hit: "first_hit (\<lambda>j. \<not> bit b j) i 8 (find_first_zero b i)"
proof (induction b i rule: find_first_zero.induct)
  case (1 b i)
  then show ?case
    by (subst find_first_zero.simps)
      (auto simp: and_exp_eq_0_iff_not_bit intro: first_hit_none first_hit_here first_hit_step)
qed

lemma find_first_setted_hit: "first_hit (\<lambda>j. bit b j) i 8 (find_first_setted b i)"
proof (induction b i rule: find_first_setted.induct)
  case (1 b i)
  then show ?case
    by (subst find_first_setted.simps)
      (auto simp: and_exp_eq_0_iff_not_bit intro: first_hit_none first_hit_here first_hit_step)
qed

lemma bit_at_in_byte: "j < 8 \<Longrightarrow> bit_at m base (iter * 8 + j) \<longleftrightarrow> bit (m ! (base + iter)) j"
  by (simp add: bit_at_def)

lemma unsetted_loop_hit:
  assumes "base + end' \<le> length m" "s < 8"
  shows "\<exists>r. unsetted_loop m base iter end' s = Some r \<and>
    first_hit (\<lambda>j. \<not> bit_at m base j) (iter * 8 + s) (end' * 8) r"
  using assms
proof (induction m base iter end' s rule: unsetted_loop.induct)
  case (1 m base iter end' s)
  show ?case
  proof (cases "iter < end'")
    case False
    then show ?thesis
      by (subst unsetted_loop.simps) (auto intro!: first_hit_none)
  next
    case True
    let ?b = "m ! (base + iter)" and ?P = "\<lambda>j. \<not> bit_at m base j"
    have b: "mem_get m (base + iter) = Some ?b" using True 1(2) by simp
    have "first_hit (\<lambda>j. ?P (iter * 8 + j)) s 8 (find_first_zero ?b s)"
      by (rule first_hit_cong [OF _ find_first_zero_hit]) (simp add: bit_at_in_byte)
    from first_hit_shift [OF this] have here: "first_hit ?P (iter * 8 + s) (iter * 8 + 8)
        (if find_first_zero ?b s \<ge> 0 then int (iter * 8) + find_first_zero ?b s else - 1)" .
    have full: "find_first_zero ?b s = - 1" if "?b = - 1"
      using find_first_zero_hit [of ?b s] that by (auto simp: first_hit_def)
    show ?thesis
    proof (cases "?b \<noteq> - 1 \<and> find_first_zero ?b s \<ge> 0")
      case hit: True
      then have "first_hit ?P (iter * 8 + s) (end' * 8) (int iter * 8 + find_first_zero ?b s)"
        using here True unfolding first_hit_def by fastforce
      then show ?thesis using hit True b by (subst unsetted_loop.simps) simp
    next
      case nohit: False
      with full have neg: "\<not> find_first_zero ?b s \<ge> 0" by auto
      obtain r where r: "unsetted_loop m base (Suc iter) end' 0 = Some r"
          "first_hit ?P (Suc iter * 8 + 0) (end' * 8) r"
        using 1(1) [OF True b nohit] 1(2) by auto
      have "first_hit ?P (iter * 8 + s) (end' * 8) r"
        using first_hit_append [OF here, of "end' * 8" r] r(2) neg True 1(3)
        by (simp add: add.commute)
      then show ?thesis using r(1) nohit True b by (subst unsetted_loop.simps) auto
    qed
  qed
qed

lemma setted_loop_hit:
  assumes "base + end' \<le> length m" "s < 8"
  shows "\<exists>r. setted_loop m base iter end' s = Some r \<and>
    first_hit (\<lambda>j. bit_at m base j) (iter * 8 + s) (end' * 8) r"
  using assms
proof (induction m base iter end' s rule: setted_loop.induct)
  case (1 m base iter end' s)
  show ?case
  proof (cases "iter < end'")
    case False
    then show ?thesis
      by (subst setted_loop.simps) (auto intro!: first_hit_none)
  next
    case True
    let ?b = "m ! (base + iter)" and ?P = "\<lambda>j. bit_at m base j"
    have b: "mem_get m (base + iter) = Some ?b" using True 1(2) by simp
    have "first_hit (\<lambda>j. ?P (iter * 8 + j)) s 8 (find_first_setted ?b s)"
      by (rule first_hit_cong [OF _ find_first_setted_hit]) (simp add: bit_at_in_byte)
    from first_hit_shift [OF this] have here: "first_hit ?P (iter * 8 + s) (iter * 8 + 8)
        (if find_first_setted ?b s \<ge> 0 then int (iter * 8) + find_first_setted ?b s else - 1)" .
    have zero: "find_first_setted ?b s = - 1" if "?b = 0"
      using find_first_setted_hit [of ?b s] that by (auto simp: first_hit_def)
    show ?thesis
    proof (cases "?b \<noteq> 0 \<and> find_first_setted ?b s \<ge> 0")
      case hit: True
      then have "first_hit ?P (iter * 8 + s) (end' * 8) (int iter * 8 + find_first_setted ?b s)"
        using here True unfolding first_hit_def by fastforce
      then show ?thesis using hit True b by (subst setted_loop.simps) simp
    next
      case nohit: False
      with zero have neg: "\<not> find_first_setted ?b s \<ge> 0" by auto
      obtain r where r: "setted_loop m base (Suc iter) end' 0 = Some r"
          "first_hit ?P (Suc iter * 8 + 0) (end' * 8) r"
        using 1(1) [OF True b nohit] 1(2) by auto
      have "first_hit ?P (iter * 8 + s) (end' * 8) r"
        using first_hit_append [OF here, of "end' * 8" r] r(2) neg True 1(3)
        by (simp add: add.commute)
      then show ?thesis using r(1) nohit True b by (subst setted_loop.simps) auto
    qed
  qed
qed

lemma size_le_bytes: "n \<le> bytes n * 8"
  by (simp add: bytes_eq)

lemma next_unsetted_bit_hit:
  assumes "bitmap_valid m bm"
  shows "\<exists>r. next_unsetted_bit m bm start = Some r \<and>
    first_hit (\<lambda>i. \<not> bit_at m (bm_bitmap bm) i) start (bm_size bm) r"
proof -
  obtain r where r: "unsetted_loop m (bm_bitmap bm) (start div 8) (bytes (bm_size bm)) (start mod 8) = Some r"
    and h: "first_hit (\<lambda>i. \<not> bit_at m (bm_bitmap bm) i) (start div 8 * 8 + start mod 8)
      (bytes (bm_size bm) * 8) r"
    using unsetted_loop_hit [of "bm_bitmap bm" "bytes (bm_size bm)" m "start mod 8" "start div 8"]
      assms by (auto simp: bitmap_valid_def)
  from first_hit_below [OF h size_le_bytes] r show ?thesis
    by (simp add: next_unsetted_bit_def)
qed

lemma next_setted_bit_hit:
  assumes "bitmap_valid m bm"
  shows "\<exists>r. next_setted_bit m bm start = Some r \<and>
    first_hit (\<lambda>i. bit_at m (bm_bitmap bm) i) start (bm_size bm) r"
proof -
  obtain r where r: "setted_loop m (bm_bitmap bm) (start div 8) (bytes (bm_size bm)) (start mod 8) = Some r"
    and h: "first_hit (\<lambda>i. bit_at m (bm_bitmap bm) i) (start div 8 * 8 + start mod 8)
      (bytes (bm_size bm) * 8) r"
    using setted_loop_hit [of "bm_bitmap bm" "bytes (bm_size bm)" m "start mod 8" "start div 8"]
      assms by (auto simp: bitmap_valid_def)
  from first_hit_below [OF h size_le_bytes] r show ?thesis
    by (simp add: next_setted_bit_def)
qed

end
