(* ===== verification/Bytes.thy ===== *)
theory Bytes
  imports Base
begin

text \<open>
  Structures in page and log memory. A C++ struct that the code reads and writes through a
  cast pointer is a run of bytes; its \<open>int32_t\<close> fields are four bytes, least significant first
  (the byte order of the supported platforms). \<open>get32\<close> and \<open>put32\<close> access a field; the lemmas
  say when an access is not affected by a write elsewhere.
\<close>

section \<open>Encoding of 32-bit integers\<close>

definition enc32 :: "int \<Rightarrow> byte list" where
  "enc32 x = [word_of_int x, word_of_int (x div 2 ^ 8), word_of_int (x div 2 ^ 16),
     word_of_int (x div 2 ^ 24)]"

fun le_value :: "byte list \<Rightarrow> int" where
  "le_value [] = 0"
| "le_value (b # bs) = uint b + 256 * le_value bs"

definition dec32 :: "byte list \<Rightarrow> int" where
  "dec32 bs = to_int32 (le_value (take 4 bs))"

lemma length_enc32 [simp]: "length (enc32 x) = 4"
  by (simp add: enc32_def)

lemma to_int32_mod: "to_int32 (x mod 2 ^ 32) = to_int32 x"
  by (simp add: to_int32_def mod_add_left_eq)

lemma to_int32_range: "int32_range (to_int32 x)"
  using pos_mod_bound [of "2 ^ 32" "x + 2 ^ 31"] pos_mod_sign [of "2 ^ 32" "x + 2 ^ 31"]
  by (simp add: to_int32_def int32_range_def)

lemma mod_split: "0 < b \<Longrightarrow> x mod (a * b) = x mod a + a * (x div a mod b)" for a b x :: int
  by (simp add: zmod_zmult2_eq)

lemma le_value_enc32: "le_value (enc32 x) = x mod 2 ^ 32"
proof -
  have byte: "uint (word_of_int y :: byte) = y mod 2 ^ 8" for y
    by (simp add: uint_word_of_int take_bit_eq_mod)
  have "le_value (enc32 x) = x mod 2 ^ 8 + 2 ^ 8 * (x div 2 ^ 8 mod 2 ^ 8 +
      2 ^ 8 * (x div 2 ^ 16 mod 2 ^ 8 + 2 ^ 8 * (x div 2 ^ 24 mod 2 ^ 8)))"
    unfolding enc32_def le_value.simps byte by simp
  also have "x div 2 ^ 24 = x div 2 ^ 16 div 2 ^ 8"
    using zdiv_zmult2_eq [of "2 ^ 8" x "2 ^ 16"] by simp
  also have "x div 2 ^ 16 mod 2 ^ 8 + 2 ^ 8 * (x div 2 ^ 16 div 2 ^ 8 mod 2 ^ 8) = x div 2 ^ 16 mod 2 ^ 16"
    using mod_split [of "2 ^ 8" "x div 2 ^ 16" "2 ^ 8"] by simp
  also have "x div 2 ^ 16 = x div 2 ^ 8 div 2 ^ 8"
    using zdiv_zmult2_eq [of "2 ^ 8" x "2 ^ 8"] by simp
  also have "x div 2 ^ 8 mod 2 ^ 8 + 2 ^ 8 * (x div 2 ^ 8 div 2 ^ 8 mod 2 ^ 16) = x div 2 ^ 8 mod 2 ^ 24"
    using mod_split [of "2 ^ 16" "x div 2 ^ 8" "2 ^ 8"] by simp
  also have "x mod 2 ^ 8 + 2 ^ 8 * (x div 2 ^ 8 mod 2 ^ 24) = x mod 2 ^ 32"
    using mod_split [of "2 ^ 24" x "2 ^ 8"] by simp
  finally show ?thesis .
qed

lemma dec32_enc32: "int32_range x \<Longrightarrow> dec32 (enc32 x) = x"
  using le_value_enc32 [of x] to_int32_mod [of x]
  by (simp add: dec32_def to_int32_id)

lemma dec32_range: "int32_range (dec32 bs)"
  by (simp add: dec32_def to_int32_range)

section \<open>Fields of structures in memory\<close>

text \<open>An \<open>int\<close> used as an index or a number of bytes: a negative one is out of bounds.\<close>

definition as_size :: "int \<Rightarrow> nat option" where
  "as_size x = (if 0 \<le> x then Some (nat x) else None)"

lemma as_size_simps [simp]:
  "0 \<le> x \<Longrightarrow> as_size x = Some (nat x)" "x < 0 \<Longrightarrow> as_size x = None" "as_size (int n) = Some n"
  by (simp_all add: as_size_def)

definition get32 :: "byte list \<Rightarrow> nat \<Rightarrow> int option" where
  "get32 m off = map_option dec32 (mem_read m off 4)"

definition put32 :: "byte list \<Rightarrow> nat \<Rightarrow> int \<Rightarrow> byte list option" where
  "put32 m off x = mem_write m off (enc32 x)"

text \<open>The field at \<open>off\<close> of an array that is long enough.\<close>

definition field32 :: "byte list \<Rightarrow> nat \<Rightarrow> int" where
  "field32 m off = dec32 (take 4 (drop off m))"

lemma get32_in [simp]: "off + 4 \<le> length m \<Longrightarrow> get32 m off = Some (field32 m off)"
  by (simp add: get32_def field32_def)

lemma get32_Some_iff: "get32 m off = Some x \<longleftrightarrow> off + 4 \<le> length m \<and> x = field32 m off"
  by (auto simp: get32_def field32_def mem_read_Some_iff)

lemma field32_range: "int32_range (field32 m off)"
  by (simp add: field32_def dec32_range)

definition upd32 :: "byte list \<Rightarrow> nat \<Rightarrow> int \<Rightarrow> byte list" where
  "upd32 m off x = take off m @ enc32 x @ drop (off + 4) m"

lemma put32_in [simp]: "off + 4 \<le> length m \<Longrightarrow> put32 m off x = Some (upd32 m off x)"
  by (simp add: put32_def upd32_def mem_write_def)

lemma put32_Some_iff: "put32 m off x = Some m' \<longleftrightarrow> off + 4 \<le> length m \<and> m' = upd32 m off x"
  by (auto simp: put32_def upd32_def mem_write_Some_iff)

lemma put32_upd32: "off + 4 \<le> length m \<Longrightarrow> mem_write m off (enc32 x) = Some (upd32 m off x)"
  by (simp add: upd32_def mem_write_def)

lemma length_upd32 [simp]: "off + 4 \<le> length m \<Longrightarrow> length (upd32 m off x) = length m"
  by (simp add: upd32_def)

lemma field32_upd32_same:
  "off + 4 \<le> length m \<Longrightarrow> int32_range x \<Longrightarrow> field32 (upd32 m off x) off = x"
  by (simp add: field32_def upd32_def dec32_enc32)

lemma field32_eqI: "mem_read m o1 4 = mem_read m' o1 4 \<Longrightarrow> o1 + 4 \<le> length m \<Longrightarrow> field32 m o1 = field32 m' o1"
  by (auto simp: field32_def mem_read_def split: if_splits)

lemma field32_mem_write_other:
  assumes "mem_write m off d = Some m'" "o1 + 4 \<le> off \<or> off + length d \<le> o1" "o1 + 4 \<le> length m"
  shows "field32 m' o1 = field32 m o1"
  using mem_read_mem_write_other [OF assms(1,2)] assms(3) mem_write_length [OF assms(1)]
  by (intro field32_eqI) simp_all

lemma field32_upd32_other:
  assumes "off + 4 \<le> length m" "o1 + 4 \<le> length m" "o1 + 4 \<le> off \<or> off + 4 \<le> o1"
  shows "field32 (upd32 m off x) o1 = field32 m o1"
  using field32_mem_write_other [OF put32_upd32 [OF assms(1), of x]] assms(2,3) by simp

lemma field32_list_update_other:
  assumes "i < o1 \<or> o1 + 4 \<le> i" "o1 + 4 \<le> length m"
  shows "field32 (m[i := v]) o1 = field32 m o1"
  using mem_read_list_update_other [OF assms(1), of m v] assms(2)
  by (intro field32_eqI) simp_all

lemma mem_read_upd32_other:
  assumes "off + 4 \<le> length m" "o' + n \<le> off \<or> off + 4 \<le> o'"
  shows "mem_read (upd32 m off x) o' n = mem_read m o' n"
  using mem_read_mem_write_other [OF put32_upd32 [OF assms(1), of x]] assms(2) by simp

lemma upd32_nth:
  assumes "off + 4 \<le> length m" "i < length m" "i < off \<or> off + 4 \<le> i"
  shows "upd32 m off x ! i = m ! i"
  using mem_write_nth [OF put32_upd32 [OF assms(1), of x] assms(2)] assms(3) by auto

section \<open>64-bit integers\<close>

definition enc64 :: "int \<Rightarrow> byte list" where
  "enc64 x = enc32 x @ enc32 (x div 2 ^ 32)"

definition dec64 :: "byte list \<Rightarrow> int" where
  "dec64 bs = (le_value (take 8 bs) + 2 ^ 63) mod 2 ^ 64 - 2 ^ 63"

definition int64_range :: "int \<Rightarrow> bool" where
  "int64_range x \<longleftrightarrow> - (2 ^ 63) \<le> x \<and> x < 2 ^ 63"

lemma length_enc64 [simp]: "length (enc64 x) = 8"
  by (simp add: enc64_def)

lemma le_value_append: "le_value (xs @ ys) = le_value xs + 256 ^ length xs * le_value ys"
  by (induction xs) (simp_all add: algebra_simps)

lemma le_value_enc64: "le_value (enc64 x) = x mod 2 ^ 64"
  using mod_split [of "2 ^ 32" x "2 ^ 32"] by (simp add: enc64_def le_value_append le_value_enc32)

lemma dec64_enc64: "int64_range x \<Longrightarrow> dec64 (enc64 x @ bs) = x"
  using le_value_enc64 [of x] mod_add_left_eq [of x "2 ^ 64" "2 ^ 63"]
  by (simp add: dec64_def int64_range_def)

lemma dec32_enc32_append: "int32_range x \<Longrightarrow> dec32 (enc32 x @ bs) = x"
  using dec32_enc32 [of x] by (simp add: dec32_def)

end
