(* ===== verification/Clog.thy ===== *)
theory Clog
  imports Bytes
begin

text \<open>
  The commit log (\<open>src/src/observer/storage/clog/\<close>): log entries, the in-memory
  \<open>LogEntryBuffer\<close>, log files with \<open>LogFileWriter\<close>, \<open>LogFileReader\<close> and \<open>LogFileManager\<close>, and
  \<open>DiskLogHandler\<close> with its flushing thread, plus \<open>VacuousLogHandler\<close>.

  The payload of an entry is a parameter \<open>'p\<close> up to the log buffer and a list of bytes where
  it reaches a file. A log file is its bytes; the file of key \<open>k\<close> is \<open>clog_k.log\<close>. Whether a call
  to the operating system that opens a log file for writing succeeds is an argument, and so is
  what each of the two calls of \<open>writen\<close> for an entry does: it appends all its bytes, or it
  fails after some of them. What is read are the bytes in the file; the calls that read fail only
  at its end. Sleeping is no step of the model; a wait that only another thread can end is
  \<^const>\<open>None\<close>.
\<close>

section \<open>Log entries\<close>

text \<open>The enumeration has four values; a header read from a file can hold any other number.\<close>

datatype LogModuleId = BUFFER_POOL | BPLUS_TREE | RECORD_MANAGER | TRANSACTION | OTHER_ID int

fun module_index :: "LogModuleId \<Rightarrow> int" where
  "module_index BUFFER_POOL = 0"
| "module_index BPLUS_TREE = 1"
| "module_index RECORD_MANAGER = 2"
| "module_index TRANSACTION = 3"
| "module_index (OTHER_ID i) = i"

definition LogModule_of :: "int \<Rightarrow> LogModuleId" where
  "LogModule_of i = (if i = 0 then BUFFER_POOL else if i = 1 then BPLUS_TREE
     else if i = 2 then RECORD_MANAGER else if i = 3 then TRANSACTION else OTHER_ID i)"

fun module_known :: "LogModuleId \<Rightarrow> bool" where
  "module_known (OTHER_ID i) = False"
| "module_known m = True"

record LogHeader =
  h_lsn :: LSN
  h_size :: int
  h_module_id :: LogModuleId

record 'p LogEntry =
  le_header :: LogHeader
  le_data :: 'p

definition LogHeader_SIZE :: int where "LogHeader_SIZE = 16"

definition LogEntry_max_size :: int where "LogEntry_max_size = 4 * 1024 * 1024"

definition max_payload_size :: int where
  "max_payload_size = LogEntry_max_size - LogHeader_SIZE"

abbreviation entry_lsn :: "'p LogEntry \<Rightarrow> LSN" where
  "entry_lsn e \<equiv> h_lsn (le_header e)"

definition payload_size :: "'p LogEntry \<Rightarrow> int" where
  "payload_size e = h_size (le_header e)"

definition total_size :: "'p LogEntry \<Rightarrow> int" where
  "total_size e = LogHeader_SIZE + h_size (le_header e)"

definition LogEntry_init ::
    "LSN \<Rightarrow> LogModuleId \<Rightarrow> int \<Rightarrow> 'p \<Rightarrow> RC \<times> 'p LogEntry option" where
  "LogEntry_init l m n d =
     (if n > max_payload_size then (INVALID_ARGUMENT, None)
      else (SUCCESS, Some \<lparr>le_header = \<lparr>h_lsn = l, h_size = n, h_module_id = m\<rparr>, le_data = d\<rparr>))"

text \<open>The header in memory: the LSN in eight bytes, the size and the module in four each.\<close>

definition header_bytes :: "LogHeader \<Rightarrow> byte list" where
  "header_bytes header = enc64 (h_lsn header) @ enc32 (h_size header) @
     enc32 (module_index (h_module_id header))"

definition read_header :: "byte list \<Rightarrow> LogHeader" where
  "read_header bs = \<lparr>h_lsn = dec64 bs, h_size = dec32 (drop 8 bs),
     h_module_id = LogModule_of (dec32 (drop 12 bs))\<rparr>"

definition set_lsn :: "LSN \<Rightarrow> 'p LogEntry \<Rightarrow> 'p LogEntry" where
  "set_lsn l e = e\<lparr>le_header := (le_header e)\<lparr>h_lsn := l\<rparr>\<rparr>"

text \<open>
  The move constructor \<open>LogEntry(LogEntry &&other)\<close> gives the new entry the header and data
  and leaves \<open>other\<close> with LSN and size 0.
\<close>

definition moved_from :: "'p LogEntry \<Rightarrow> 'p LogEntry" where
  "moved_from e = e\<lparr>le_header := (le_header e)\<lparr>h_lsn := 0, h_size := 0\<rparr>\<rparr>"

section \<open>The log buffer\<close>

record 'p LogEntryBuffer =
  lb_entries :: "'p LogEntry list"
  lb_bytes :: int
  lb_current_lsn :: LSN
  lb_flushed_lsn :: LSN
  lb_max_bytes :: int

definition LogEntryBuffer_new :: "'p LogEntryBuffer" where
  "LogEntryBuffer_new = \<lparr>lb_entries = [], lb_bytes = 0, lb_current_lsn = 0, lb_flushed_lsn = 0,
     lb_max_bytes = 4 * 1024 * 1024\<rparr>"

definition LogEntryBuffer_init :: "LSN \<Rightarrow> int \<Rightarrow> 'p LogEntryBuffer \<Rightarrow> RC \<times> 'p LogEntryBuffer" where
  "LogEntryBuffer_init l mb b =
     (let b1 = b\<lparr>lb_current_lsn := l, lb_flushed_lsn := l\<rparr>
      in (SUCCESS, if mb > 0 then b1\<lparr>lb_max_bytes := mb\<rparr> else b1))"

text \<open>
  \<open>append\<close> waits while the buffer is full (no outcome without the flushing thread); the size
  added to \<open>bytes_\<close> is read from \<open>entry\<close> after it was moved into the deque.
\<close>

definition LogEntryBuffer_append ::
    "LSN \<Rightarrow> LogModuleId \<Rightarrow> int \<Rightarrow> 'p \<Rightarrow> 'p LogEntryBuffer \<Rightarrow> (RC \<times> LSN \<times> 'p LogEntryBuffer) option" where
  "LogEntryBuffer_append l m n d b =
     (if lb_bytes b \<ge> lb_max_bytes b then None
      else (case LogEntry_init l m n d of
        (rc, None) \<Rightarrow> Some (rc, l, b)
      | (rc, Some entry) \<Rightarrow>
          (let l' = lb_current_lsn b + 1; entry = set_lsn l' entry
           in Some (SUCCESS, l', b\<lparr>lb_current_lsn := l', lb_entries := lb_entries b @ [entry],
                lb_bytes := lb_bytes b + total_size (moved_from entry)\<rparr>))))"

definition entry_number :: "'p LogEntryBuffer \<Rightarrow> nat" where
  "entry_number b = length (lb_entries b)"

section \<open>Log files\<close>

type_synonym log_disk = "LSN \<Rightarrow> byte list"

record LogFileWriter =
  w_file :: "LSN option"  \<comment> \<open>\<open>fd_\<close> and \<open>filename_\<close>: the open file, if any\<close>
  w_last_lsn :: int
  w_end_lsn :: int

definition LogFileWriter_new :: LogFileWriter where
  "LogFileWriter_new = \<lparr>w_file = None, w_last_lsn = 0, w_end_lsn = 0\<rparr>"

definition writer_valid :: "LogFileWriter \<Rightarrow> bool" where
  "writer_valid w \<longleftrightarrow> w_file w \<noteq> None"

definition writer_full :: "LogFileWriter \<Rightarrow> bool" where
  "writer_full w \<longleftrightarrow> w_last_lsn w \<ge> w_end_lsn w"

text \<open>
  \<open>open(const char *filename, int end_lsn)\<close>: the bound is converted to 32 bits; \<open>op\<close> is
  whether \<open>::open\<close> succeeds.
\<close>

definition writer_open :: "bool \<Rightarrow> LSN \<Rightarrow> LSN \<Rightarrow> LogFileWriter \<Rightarrow> RC \<times> LogFileWriter" where
  "writer_open op f endl w =
     (if w_file w \<noteq> None then (FILE_OPEN, w)
      else let w' = w\<lparr>w_end_lsn := to_int32 endl\<rparr>
           in if op then (SUCCESS, w'\<lparr>w_file := Some f\<rparr>) else (FILE_OPEN, w'))"

definition writer_close :: "LogFileWriter \<Rightarrow> RC \<times> LogFileWriter" where
  "writer_close w =
     (if w_file w = None then (FILE_NOT_OPENED, w) else (SUCCESS, w\<lparr>w_file := None\<rparr>))"

text \<open>
  \<open>writen\<close> repeats \<open>::write\<close> until everything is written or a call fails for good; the file is
  open with \<open>O_APPEND\<close>. \<open>Fails_after k\<close>: the operating system takes \<open>k\<close> more bytes, then the error.
\<close>

datatype io_result = Complete | Fails_after nat

definition EIO :: int where "EIO = 5"

fun common_writen :: "io_result \<Rightarrow> byte list \<Rightarrow> byte list \<Rightarrow> int \<times> byte list" where
  "common_writen Complete buf file = (0, file @ buf)"
| "common_writen (Fails_after k) buf file =
     (if k < length buf then (EIO, file @ take k buf) else (0, file @ buf))"

text \<open>\<open>write\<close>: the header, then the payload; \<open>io\<close> is what the two calls of \<open>writen\<close> do.\<close>

definition writer_write ::
    "io_result \<times> io_result \<Rightarrow> byte list LogEntry \<Rightarrow> LogFileWriter \<Rightarrow> log_disk \<Rightarrow>
     RC \<times> LogFileWriter \<times> log_disk" where
  "writer_write io e w disk =
     (if entry_lsn e > w_end_lsn w then (LOG_FILE_FULL, w, disk)
      else (case w_file w of
        None \<Rightarrow> (FILE_NOT_OPENED, w, disk)
      | Some f \<Rightarrow>
          if entry_lsn e \<le> w_last_lsn w then (INVALID_ARGUMENT, w, disk)
          else (case common_writen (fst io) (header_bytes (le_header e)) (disk f) of (ret, bs) \<Rightarrow>
            if ret \<noteq> 0 then (IOERR_WRITE, w, disk(f := bs))
            else (case common_writen (snd io) (take (nat (payload_size e)) (le_data e)) bs of (ret, bs) \<Rightarrow>
              if ret \<noteq> 0 then (IOERR_WRITE, w, disk(f := bs))
              else (SUCCESS, w\<lparr>w_last_lsn := to_int32 (entry_lsn e)\<rparr>, disk(f := bs))))))"

text \<open>
  \<open>LogFileReader\<close> on the bytes from the read position on: \<open>skip_to\<close> leaves the position at the
  first header whose LSN is at least \<open>start_lsn\<close>; \<open>iterate\<close> hands the entries from there on to
  the callback and stops at the first failure. A header cut off by the end of the file ends the
  reading, a payload cut off is an error.
\<close>

definition size_bad :: "int \<Rightarrow> bool" where
  "size_bad n \<longleftrightarrow> n < 0 \<or> n > max_payload_size"

definition size_invalid :: "'p LogEntry \<Rightarrow> bool" where
  "size_invalid e \<longleftrightarrow> size_bad (h_size (le_header e))"

function skip_to :: "LSN \<Rightarrow> byte list \<Rightarrow> RC \<times> byte list" where
  "skip_to start bs =
     (if length bs < nat LogHeader_SIZE then (SUCCESS, [])
      else let header = read_header bs in
        if h_lsn header \<ge> start then (SUCCESS, bs)
        else if size_bad (h_size header) then (IOERR_READ, drop (nat LogHeader_SIZE) bs)
        else skip_to start (drop (nat LogHeader_SIZE + nat (h_size header)) bs))"
  by pat_completeness auto
termination
  by (relation "measure (\<lambda>(start, bs). length bs)") (auto simp: LogHeader_SIZE_def)

function iterate_loop ::
    "(byte list LogEntry \<Rightarrow> 's \<Rightarrow> (RC \<times> 's) option) \<Rightarrow> byte list \<Rightarrow> 's \<Rightarrow> (RC \<times> 's) option" where
  "iterate_loop callback bs s =
     (if length bs < nat LogHeader_SIZE then Some (SUCCESS, s)
      else let header = read_header bs; rest = drop (nat LogHeader_SIZE) bs; n = nat (h_size header) in
        if size_bad (h_size header) then Some (IOERR_READ, s)
        else if length rest < n then Some (IOERR_READ, s)
        else do {
          (rc, s') \<leftarrow> callback \<lparr>le_header = header, le_data = take n rest\<rparr> s;
          if OB_FAIL rc then Some (rc, s') else iterate_loop callback (drop n rest) s'
        })"
  by pat_completeness auto
termination
  by (relation "measure (\<lambda>(callback, bs, s). length bs)") (auto simp: LogHeader_SIZE_def)

declare skip_to.simps [simp del] iterate_loop.simps [simp del]

definition file_iterate ::
    "(byte list LogEntry \<Rightarrow> 's \<Rightarrow> (RC \<times> 's) option) \<Rightarrow> LSN \<Rightarrow> byte list \<Rightarrow> 's \<Rightarrow> (RC \<times> 's) option" where
  "file_iterate callback start bs s =
     (case skip_to start bs of (rc, rest) \<Rightarrow>
        if OB_FAIL rc then Some (rc, s) else iterate_loop callback rest s)"

text \<open>What reading a file amounts to when its bytes are the given entries.\<close>

fun read_entries ::
    "('p LogEntry \<Rightarrow> 's \<Rightarrow> (RC \<times> 's) option) \<Rightarrow> 'p LogEntry list \<Rightarrow> 's \<Rightarrow> (RC \<times> 's) option" where
  "read_entries callback [] s = Some (SUCCESS, s)"
| "read_entries callback (e # es) s =
     (if size_invalid e then Some (IOERR_READ, s)
      else do {
        (rc, s') \<leftarrow> callback e s;
        if OB_FAIL rc then Some (rc, s') else read_entries callback es s'
      })"

record LogFileManager =
  fm_max_entry_number :: int
  fm_log_files :: "LSN list"  \<comment> \<open>the keys of \<open>map<LSN, path>\<close>, ascending\<close>

definition list_files :: "LogFileManager \<Rightarrow> LSN \<Rightarrow> LSN list" where
  "list_files fm start =
     filter (\<lambda>f. f + fm_max_entry_number fm - 1 \<ge> start) (fm_log_files fm)"

definition next_file :: "bool \<Rightarrow> LogFileManager \<Rightarrow> LogFileWriter \<Rightarrow> RC \<times> LogFileManager \<times> LogFileWriter" where
  "next_file op fm w =
     (let w1 = snd (writer_close w);
          l = (if fm_log_files fm = [] then 0
               else last (fm_log_files fm) + fm_max_entry_number fm);
          fm' = fm\<lparr>fm_log_files := fm_log_files fm @ [l]\<rparr>;
          (rc, w2) = writer_open op l (l + fm_max_entry_number fm - 1) w1
      in (rc, fm', w2))"

definition last_file :: "bool \<Rightarrow> LogFileManager \<Rightarrow> LogFileWriter \<Rightarrow> RC \<times> LogFileManager \<times> LogFileWriter" where
  "last_file op fm w =
     (if fm_log_files fm = [] then next_file op fm w
      else let w1 = snd (writer_close w);
               f = last (fm_log_files fm);
               (rc, w2) = writer_open op f (f + fm_max_entry_number fm - 1) w1
           in (rc, fm, w2))"

section \<open>Flushing\<close>

text \<open>
  \<open>LogEntryBuffer::flush\<close>. \<open>io k\<close> is what happens to the \<open>k\<close>-th entry of the call.
  On failure the entry goes back to the front of the buffer.
\<close>

function flush_loop ::
    "(nat \<Rightarrow> io_result \<times> io_result) \<Rightarrow> nat \<Rightarrow> byte list LogEntryBuffer \<Rightarrow> LogFileWriter \<Rightarrow> log_disk \<Rightarrow>
     (RC \<times> nat \<times> byte list LogEntryBuffer \<times> LogFileWriter \<times> log_disk) option" where
  "flush_loop io count b w disk =
     (case lb_entries b of
        [] \<Rightarrow> Some (SUCCESS, count, b, w, disk)
      | entry # rest \<Rightarrow>
          if \<not> (entry_lsn entry > 0 \<and> payload_size entry > 0) then None
          else let b1 = b\<lparr>lb_entries := rest, lb_bytes := lb_bytes b - total_size entry\<rparr>
               in (case writer_write (io count) entry w disk of
                 (rc, w', disk') \<Rightarrow>
                   if OB_FAIL rc then Some (rc, count, b1\<lparr>lb_entries := entry # rest\<rparr>, w', disk')
                   else flush_loop io (count + 1) (b1\<lparr>lb_flushed_lsn := entry_lsn entry\<rparr>) w' disk'))"
  by pat_completeness auto
termination
  by (relation "measure (\<lambda>(io, c, b, w, d). length (lb_entries b))") auto

declare flush_loop.simps [simp del]

definition flush ::
    "(nat \<Rightarrow> io_result \<times> io_result) \<Rightarrow> byte list LogEntryBuffer \<Rightarrow> LogFileWriter \<Rightarrow> log_disk \<Rightarrow>
     (RC \<times> nat \<times> byte list LogEntryBuffer \<times> LogFileWriter \<times> log_disk) option" where
  "flush io b w disk = flush_loop io 0 b w disk"

section \<open>The disk log handler\<close>

record 'p DiskLogHandler =
  lh_thread :: bool   \<comment> \<open>\<open>thread_\<close> exists\<close>
  lh_running :: bool
  lh_file_manager :: LogFileManager
  lh_entry_buffer :: "'p LogEntryBuffer"
  lh_disk :: "log_disk"

definition max_entry_number_default :: int where "max_entry_number_default = 1000"

text \<open>
  \<open>init\<close> on a directory that holds the log files \<open>keys\<close> with the contents \<open>d\<close>: the files are
  listed into the \<open>map\<close>, which keeps them sorted by LSN and once each.
\<close>

definition DiskLogHandler_init :: "LSN list \<Rightarrow> log_disk \<Rightarrow> 'p DiskLogHandler" where
  "DiskLogHandler_init keys d = \<lparr>lh_thread = False, lh_running = False,
     lh_file_manager = \<lparr>fm_max_entry_number = max_entry_number_default,
                     fm_log_files = sort (remdups keys)\<rparr>,
     lh_entry_buffer = LogEntryBuffer_new, lh_disk = d\<rparr>"

definition log_start :: "'p DiskLogHandler \<Rightarrow> RC \<times> 'p DiskLogHandler" where
  "log_start h = (if lh_thread h then (INTERNAL, h)
                  else (SUCCESS, h\<lparr>lh_running := True, lh_thread := True\<rparr>))"

definition log_stop :: "'p DiskLogHandler \<Rightarrow> RC \<times> 'p DiskLogHandler" where
  "log_stop h = (if \<not> lh_thread h then (INTERNAL, h) else (SUCCESS, h\<lparr>lh_running := False\<rparr>))"

fun iterate_files ::
    "(byte list LogEntry \<Rightarrow> 's \<Rightarrow> (RC \<times> 's) option) \<Rightarrow> LSN \<Rightarrow> log_disk \<Rightarrow> LSN list \<Rightarrow> 's \<Rightarrow> (RC \<times> 's) option" where
  "iterate_files consumer start d [] s = Some (SUCCESS, s)"
| "iterate_files consumer start d (f # fs) s = do {
     (rc, s') \<leftarrow> file_iterate consumer start (d f) s;
     if OB_FAIL rc then Some (rc, s') else iterate_files consumer start d fs s'
   }"

definition log_iterate ::
    "(byte list LogEntry \<Rightarrow> 's \<Rightarrow> (RC \<times> 's) option) \<Rightarrow> LSN \<Rightarrow> byte list DiskLogHandler \<Rightarrow> 's \<Rightarrow> (RC \<times> 's) option" where
  "log_iterate consumer start h s =
     iterate_files consumer start (lh_disk h) (list_files (lh_file_manager h) start) s"

definition replay_callback ::
    "(byte list LogEntry \<Rightarrow> 's \<Rightarrow> (RC \<times> 's) option) \<Rightarrow> byte list LogEntry \<Rightarrow> LSN \<times> 's \<Rightarrow> (RC \<times> LSN \<times> 's) option" where
  "replay_callback replayer e ms = (case ms of (max_lsn, s) \<Rightarrow>
     (let max_lsn' = (if entry_lsn e > max_lsn then entry_lsn e else max_lsn)
      in do { (rc, s') \<leftarrow> replayer e s; Some (rc, max_lsn', s') }))"

definition log_replay ::
    "(byte list LogEntry \<Rightarrow> 's \<Rightarrow> (RC \<times> 's) option) \<Rightarrow> LSN \<Rightarrow> byte list DiskLogHandler \<Rightarrow> 's \<Rightarrow>
     (RC \<times> byte list DiskLogHandler \<times> 's) option" where
  "log_replay replayer start h s = do {
     (rc, max_lsn, s') \<leftarrow> log_iterate (replay_callback replayer) start h (0, s);
     if OB_FAIL rc then Some (rc, h, s')
     else (case LogEntryBuffer_init max_lsn 0 (lh_entry_buffer h) of
        (rc2, b) \<Rightarrow> Some (rc2, h\<lparr>lh_entry_buffer := b\<rparr>, s'))
   }"

definition disk_append ::
    "LSN \<Rightarrow> LogModuleId \<Rightarrow> int \<Rightarrow> 'p \<Rightarrow> 'p DiskLogHandler \<Rightarrow> (RC \<times> LSN \<times> 'p DiskLogHandler) option" where
  "disk_append l m n d h = do {
     assert_that (lh_running h);
     (rc, l', b) \<leftarrow> LogEntryBuffer_append l m n d (lh_entry_buffer h);
     Some (rc, l', h\<lparr>lh_entry_buffer := b\<rparr>)
   }"

text \<open>
  \<open>wait_lsn\<close> polls until the log is flushed or the handler is stopped. Alone it makes no
  progress: with the handler running and the LSN not flushed it has no outcome.
\<close>

definition wait_lsn :: "LSN \<Rightarrow> 'p DiskLogHandler \<Rightarrow> RC option" where
  "wait_lsn l h =
     (if lh_running h \<and> lb_flushed_lsn (lh_entry_buffer h) < l then None
      else Some (if lb_flushed_lsn (lh_entry_buffer h) \<ge> l then SUCCESS else INTERNAL))"

text \<open>
  One pass through the body of \<open>thread_func\<close>'s loop; \<open>rc\<close> and the writer are the locals that
  live across passes.
\<close>

definition thread_step ::
    "bool \<Rightarrow> (nat \<Rightarrow> io_result \<times> io_result) \<Rightarrow> RC \<times> LogFileWriter \<times> byte list DiskLogHandler \<Rightarrow>
     (RC \<times> LogFileWriter \<times> byte list DiskLogHandler) option" where
  "thread_step op io st = (case st of (rc, w, h) \<Rightarrow>
     (let (rc1, fm, w1) =
            (if \<not> writer_valid w \<or> rc = LOG_FILE_FULL
             then (if rc = LOG_FILE_FULL then next_file op (lh_file_manager h) w
                   else last_file op (lh_file_manager h) w)
             else (SUCCESS, lh_file_manager h, w));
          h1 = h\<lparr>lh_file_manager := fm\<rparr>
      in if (\<not> writer_valid w \<or> rc = LOG_FILE_FULL) \<and> OB_FAIL rc1 then Some (rc1, w1, h1)
         else do {
           (rc2, count, b, w2, d) \<leftarrow> flush io (lh_entry_buffer h1) w1 (lh_disk h1);
           Some (rc2, w2, h1\<lparr>lh_entry_buffer := b, lh_disk := d\<rparr>)
         }))"

partial_function (option) thread_loop ::
    "bool \<Rightarrow> (nat \<Rightarrow> io_result \<times> io_result) \<Rightarrow> RC \<times> LogFileWriter \<times> byte list DiskLogHandler \<Rightarrow>
     (RC \<times> LogFileWriter \<times> byte list DiskLogHandler) option" where
  "thread_loop op io st =
     (if lh_running (snd (snd st)) \<or> entry_number (lh_entry_buffer (snd (snd st))) > 0
      then Option.bind (thread_step op io st) (thread_loop op io)
      else Some st)"

definition thread_func :: "bool \<Rightarrow> (nat \<Rightarrow> io_result \<times> io_result) \<Rightarrow> byte list DiskLogHandler \<Rightarrow> byte list DiskLogHandler option" where
  "thread_func op io h = do {
     (rc, w, h') \<leftarrow> thread_loop op io (SUCCESS, LogFileWriter_new, h);
     Some h'
   }"

text \<open>\<open>await_termination\<close> joins the thread: the thread's function runs to its end.\<close>

definition await_termination :: "bool \<Rightarrow> (nat \<Rightarrow> io_result \<times> io_result) \<Rightarrow> byte list DiskLogHandler \<Rightarrow> (RC \<times> byte list DiskLogHandler) option" where
  "await_termination op io h =
     (if \<not> lh_thread h then Some (INTERNAL, h)
      else if lh_running h then Some (INTERNAL, h)
      else do { h' \<leftarrow> thread_func op io h; Some (SUCCESS, h'\<lparr>lh_thread := False\<rparr>) })"

section \<open>The log handler the other modules call\<close>

datatype 'p LogHandler = Disk "'p DiskLogHandler" | Vacuous

fun log_append :: "LogModuleId \<Rightarrow> int \<Rightarrow> 'p \<Rightarrow> 'p LogHandler \<Rightarrow> (RC \<times> LSN \<times> 'p LogHandler) option" where
  "log_append m n d (Disk h) = do {
     (rc, l, h') \<leftarrow> disk_append 0 m n d h;
     Some (rc, l, Disk h')
   }"
| "log_append m n d Vacuous = Some (SUCCESS, 0, Vacuous)"

fun log_wait_lsn :: "LSN \<Rightarrow> 'p LogHandler \<Rightarrow> RC option" where
  "log_wait_lsn l (Disk h) = wait_lsn l h"
| "log_wait_lsn l Vacuous = Some SUCCESS"

section \<open>Entries as bytes\<close>

text \<open>An entry as \<open>append\<close> makes it: valid size, the payload of that size, a module of the code.\<close>

definition good_entry :: "byte list LogEntry \<Rightarrow> bool" where
  "good_entry e \<longleftrightarrow> 0 < payload_size e \<and> payload_size e \<le> max_payload_size \<and>
     payload_size e = int (length (le_data e)) \<and> int64_range (entry_lsn e) \<and>
     module_known (h_module_id (le_header e))"

definition entry_bytes :: "byte list LogEntry \<Rightarrow> byte list" where
  "entry_bytes e = header_bytes (le_header e) @ take (nat (payload_size e)) (le_data e)"

lemma length_header_bytes [simp]: "length (header_bytes h) = 16"
  by (simp add: header_bytes_def)

lemma size_limits: "nat LogHeader_SIZE = 16" "max_payload_size = 4194288"
  by (simp_all add: LogHeader_SIZE_def max_payload_size_def LogEntry_max_size_def)

lemma length_entry_bytes: "good_entry e \<Longrightarrow> length (entry_bytes e) = 16 + nat (payload_size e)"
  by (simp add: entry_bytes_def good_entry_def)

lemma LogModule_of_index: "module_known m \<Longrightarrow> LogModule_of (module_index m) = m"
  by (cases m) (simp_all add: LogModule_of_def)

lemma module_index_range: "module_known m \<Longrightarrow> int32_range (module_index m)"
  by (cases m) (simp_all add: int32_range_def)

lemma read_header_bytes:
  assumes "int64_range (h_lsn h)" "int32_range (h_size h)" "module_known (h_module_id h)"
  shows "read_header (header_bytes h @ bs) = h"
proof -
  have "drop 8 (header_bytes h @ bs) = enc32 (h_size h) @ enc32 (module_index (h_module_id h)) @ bs"
    "drop 12 (header_bytes h @ bs) = enc32 (module_index (h_module_id h)) @ bs"
    by (simp_all add: header_bytes_def)
  then show ?thesis
    using assms unfolding read_header_def
    by (simp add: header_bytes_def dec64_enc64 dec32_enc32_append LogModule_of_index module_index_range)
qed

lemma good_entry_header:
  "good_entry e \<Longrightarrow> read_header (entry_bytes e @ bs) = le_header e"
  "good_entry e \<Longrightarrow> read_header (header_bytes (le_header e) @ bs) = le_header e"
  by (auto simp: good_entry_def entry_bytes_def payload_size_def size_limits int32_range_def
      intro!: read_header_bytes)

lemma good_entry_valid: "good_entry e \<Longrightarrow> \<not> size_bad (h_size (le_header e))" "good_entry e \<Longrightarrow> \<not> size_invalid e"
  by (auto simp: good_entry_def size_invalid_def size_bad_def payload_size_def)

lemma entry_bytes_eq:
  "good_entry e \<Longrightarrow> entry_bytes e = header_bytes (le_header e) @ le_data e"
  "good_entry e \<Longrightarrow> h_size (le_header e) = int (length (le_data e))"
  by (simp_all add: entry_bytes_def good_entry_def payload_size_def)

lemma LogEntry_eta: "\<lparr>le_header = le_header e, le_data = le_data e\<rparr> = e"
  by simp

lemma iterate_loop_entry:
  assumes "good_entry e"
  shows "iterate_loop cb (entry_bytes e @ bs) s = do {
    (rc, s') \<leftarrow> cb e s;
    if OB_FAIL rc then Some (rc, s') else iterate_loop cb bs s'
  }"
  using good_entry_header(2) [OF assms] good_entry_valid(1) [OF assms] entry_bytes_eq [OF assms]
  by (subst iterate_loop.simps) (simp add: size_limits Let_def LogEntry_eta cong: if_cong)

lemma iterate_loop_entries:
  assumes "\<forall>e\<in>set es. good_entry e"
  shows "iterate_loop cb (concat (map entry_bytes es) @ bs) s = do {
    (rc, s') \<leftarrow> read_entries cb es s;
    if OB_FAIL rc then Some (rc, s') else iterate_loop cb bs s'
  }"
  using assms
proof (induction es arbitrary: s)
  case (Cons e es)
  then show ?case
    by (auto simp: iterate_loop_entry good_entry_valid split: option.splits bind_splits)
qed simp

lemma skip_to_entry:
  assumes "good_entry e"
  shows "skip_to start (entry_bytes e @ bs) =
    (if start \<le> entry_lsn e then (SUCCESS, entry_bytes e @ bs) else skip_to start bs)"
  using good_entry_header(2) [OF assms] good_entry_valid(1) [OF assms] entry_bytes_eq [OF assms]
  by (subst skip_to.simps) (simp add: size_limits Let_def)

section \<open>Files with the remains of failed writes\<close>

text \<open>
  The bytes of a file that holds the entries \<open>es\<close>: between them, and behind the last one, may
  stand remains of failed writes, each a proper prefix of the entry that comes next. The option
  is the entry the remains at the end of the file are of.
\<close>

inductive file_holds :: "byte list LogEntry list \<Rightarrow> byte list LogEntry option \<Rightarrow> byte list \<Rightarrow> bool" where
  holds_nothing: "file_holds [] None []"
| holds_part: "file_holds es p bs \<Longrightarrow> p = None \<or> p = Some e \<Longrightarrow> k < length (entry_bytes e) \<Longrightarrow>
     file_holds es (Some e) (bs @ take k (entry_bytes e))"
| holds_entry: "file_holds es p bs \<Longrightarrow> p = None \<or> p = Some e \<Longrightarrow>
     file_holds (es @ [e]) None (bs @ entry_bytes e)"

text \<open>A failed write leaves nothing of its entry in the file.\<close>

fun untorn :: "io_result \<times> io_result \<Rightarrow> bool" where
  "untorn (Complete, Complete) = True"
| "untorn (Fails_after k, b) = (k = 0)"
| "untorn (Complete, Fails_after k) = False"

abbreviation io_ok :: "(nat \<Rightarrow> io_result \<times> io_result) \<Rightarrow> bool" where
  "io_ok io \<equiv> \<forall>k. io k = (Complete, Complete)"

lemma writer_write_cases:
  assumes "w_file w = Some f" "good_entry e" "entry_lsn e \<le> w_end_lsn w" "w_last_lsn w < entry_lsn e"
  obtains (ok) "writer_write io e w d =
      (SUCCESS, w\<lparr>w_last_lsn := to_int32 (entry_lsn e)\<rparr>, d(f := d f @ entry_bytes e))"
  | (fail) k where "writer_write io e w d = (IOERR_WRITE, w, d(f := d f @ take k (entry_bytes e)))"
      "k < length (entry_bytes e)" "untorn io \<longrightarrow> k = 0" "io \<noteq> (Complete, Complete)"
proof -
  let ?h = "header_bytes (le_header e)" and ?p = "take (nat (payload_size e)) (le_data e)"
  have e: "entry_bytes e = ?h @ ?p" by (simp add: entry_bytes_def)
  obtain a b where io: "io = (a, b)" by (cases io)
  define pl where "pl = ?p"
  consider (h) k where "a = Fails_after k" "k < 16"
    | (p) k where "a = Complete \<or> (\<exists>j. a = Fails_after j \<and> \<not> j < 16)" "b = Fails_after k" "k < length pl"
    | (o) "common_writen a ?h (d f) = (0, d f @ ?h)" "common_writen b pl (d f @ ?h) = (0, d f @ ?h @ pl)"
    by (cases a; cases b; fastforce split: if_splits)
  then show thesis
  proof cases
    case h
    with assms show thesis
      by (intro fail [of k]) (auto simp: writer_write_def io e EIO_def)
  next
    case p
    with assms show thesis
      by (intro fail [of "16 + k"]) (auto simp: writer_write_def io e EIO_def pl_def [symmetric])
  next
    case o
    with assms show thesis by (intro ok) (auto simp: writer_write_def io e pl_def [symmetric])
  qed
qed

section \<open>Entries in LSN order\<close>

text \<open>Valid entries with the consecutive LSNs \<open>a + 1, a + 2, \<dots>\<close>.\<close>

definition lsn_run :: "LSN \<Rightarrow> byte list LogEntry list \<Rightarrow> bool" where
  "lsn_run a es \<longleftrightarrow> map entry_lsn es = [a + 1..a + int (length es)] \<and> (\<forall>e\<in>set es. good_entry e)"

lemma lsn_run_Nil [simp]: "lsn_run a []"
  by (simp add: lsn_run_def)

lemma lsn_run_Cons [simp]:
  "lsn_run a (e # es) \<longleftrightarrow> entry_lsn e = a + 1 \<and> good_entry e \<and> lsn_run (a + 1) es"
  by (auto simp: lsn_run_def upto_rec1 algebra_simps)

lemma lsn_run_append:
  "lsn_run a (xs @ ys) \<longleftrightarrow> lsn_run a xs \<and> lsn_run (a + int (length xs)) ys"
  by (induction xs arbitrary: a) (auto simp: algebra_simps)

lemma lsn_run_bounds:
  "lsn_run a es \<Longrightarrow> e \<in> set es \<Longrightarrow> a < entry_lsn e \<and> entry_lsn e \<le> a + int (length es)"
  by (induction es arbitrary: a) force+

lemma lsn_run_good: "lsn_run a es \<Longrightarrow> e \<in> set es \<Longrightarrow> good_entry e"
  by (simp add: lsn_run_def)

section \<open>Appending\<close>

lemma LogEntryBuffer_append_eq:
  assumes "lb_bytes b < lb_max_bytes b" "n \<le> max_payload_size"
  shows "LogEntryBuffer_append l m n d b =
    Some (SUCCESS, lb_current_lsn b + 1,
      b\<lparr>lb_current_lsn := lb_current_lsn b + 1,
        lb_entries := lb_entries b @
          [\<lparr>le_header = \<lparr>h_lsn = lb_current_lsn b + 1, h_size = n, h_module_id = m\<rparr>, le_data = d\<rparr>],
        lb_bytes := lb_bytes b + LogHeader_SIZE\<rparr>)"
  using assms
  by (simp add: LogEntryBuffer_append_def LogEntry_init_def set_lsn_def total_size_def
      moved_from_def Let_def)

section \<open>One flush of the buffer\<close>

text \<open>
  What a flush of \<open>b\<close> into the file of \<open>w\<close> achieves: it wrote the prefix \<open>pre\<close> of the buffered
  entries, all of which belong in the file, and left \<open>suf\<close> in the buffer. The bytes at the end of
  the file may be remains of the entry \<open>p\<close>; it is the next to be written and belongs in the file.
\<close>

definition pending :: "LSN \<Rightarrow> byte list LogEntry option \<Rightarrow> byte list LogEntry list \<Rightarrow> bool" where
  "pending lim p es \<longleftrightarrow> (\<forall>e. p = Some e \<longrightarrow> es \<noteq> [] \<and> e = hd es \<and> entry_lsn e \<le> lim)"

definition flushed_file ::
    "bool \<Rightarrow> LSN \<Rightarrow> byte list LogEntry list \<Rightarrow> byte list LogEntry list \<Rightarrow> byte list \<Rightarrow> byte list \<Rightarrow> bool" where
  "flushed_file whole lim pre suf bs bs' \<longleftrightarrow>
     (\<exists>r. bs' = bs @ concat (map entry_bytes pre) @ r \<and>
        (r = [] \<or> \<not> whole \<and> suf \<noteq> [] \<and> entry_lsn (hd suf) \<le> lim \<and>
           (\<exists>k<length (entry_bytes (hd suf)). r = take k (entry_bytes (hd suf)))))"

definition flushed_to ::
    "byte list LogEntryBuffer \<Rightarrow> LogFileWriter \<Rightarrow> LSN \<Rightarrow> byte list LogEntry list \<Rightarrow> byte list LogEntry list \<Rightarrow>
     RC \<Rightarrow> byte list LogEntryBuffer \<Rightarrow> LogFileWriter \<Rightarrow> bool" where
  "flushed_to b w f pre suf rc b' w' \<longleftrightarrow>
     lb_entries b = pre @ suf \<and> lb_entries b' = suf \<and>
     lb_current_lsn b' = lb_current_lsn b \<and> lb_max_bytes b' = lb_max_bytes b \<and>
     lb_flushed_lsn b' = lb_flushed_lsn b + int (length pre) \<and>
     w_file w' = Some f \<and> w_end_lsn w' = w_end_lsn w \<and> w_last_lsn w' \<le> lb_flushed_lsn b' \<and>
     (\<forall>e\<in>set pre. entry_lsn e \<le> w_end_lsn w) \<and>
     (rc = SUCCESS \<longleftrightarrow> suf = []) \<and>
     (rc = LOG_FILE_FULL \<longleftrightarrow> suf \<noteq> [] \<and> w_end_lsn w < lb_flushed_lsn b' + 1)"

lemma pending_Cons: "pending lim p (e # es) \<Longrightarrow> p = None \<or> p = Some e"
  by (cases p) (auto simp: pending_def)

lemma file_holds_entries:
  assumes "file_holds es p bs" "pending lim p (pre @ suf)"
  shows "\<exists>p'. file_holds (es @ pre) p' (bs @ concat (map entry_bytes pre)) \<and> pending lim p' suf"
  using assms
proof (induction pre arbitrary: es p bs)
  case (Cons e pre)
  then have "file_holds (es @ [e]) None (bs @ entry_bytes e)"
    by (intro holds_entry) (auto dest: pending_Cons)
  from Cons.IH [OF this] show ?case by (simp add: pending_def)
qed auto

lemma file_holds_flushed:
  assumes "flushed_file whole lim pre suf bs bs'" "file_holds es p bs" "pending lim p (pre @ suf)"
  shows "\<exists>p'. file_holds (es @ pre) p' bs' \<and> pending lim p' suf"
proof -
  from file_holds_entries [OF assms(2,3)] obtain p1 where
    p1: "file_holds (es @ pre) p1 (bs @ concat (map entry_bytes pre))" "pending lim p1 suf" by blast
  from assms(1) obtain r where r: "bs' = bs @ concat (map entry_bytes pre) @ r"
    "r = [] \<or> suf \<noteq> [] \<and> entry_lsn (hd suf) \<le> lim \<and> (\<exists>k<length (entry_bytes (hd suf)). r = take k (entry_bytes (hd suf)))"
    by (auto simp: flushed_file_def)
  show ?thesis
  proof (cases "r = []")
    case False
    with r(2) obtain k where k: "suf \<noteq> []" "entry_lsn (hd suf) \<le> lim" "k < length (entry_bytes (hd suf))"
      "r = take k (entry_bytes (hd suf))" by blast
    have "file_holds (es @ pre) (Some (hd suf)) ((bs @ concat (map entry_bytes pre)) @ r)"
      unfolding k(4) by (rule holds_part [OF p1(1) _ k(3)]) (use p1(2) in \<open>cases p1; auto simp: pending_def\<close>)
    with k r(1) show ?thesis by (intro exI [of _ "Some (hd suf)"]) (simp add: pending_def)
  qed (use p1 r in auto)
qed

lemma flushed_file_whole: "flushed_file True lim pre suf bs bs' \<Longrightarrow> bs' = bs @ concat (map entry_bytes pre)"
  by (auto simp: flushed_file_def)

lemma flushed_file_full: "flushed_file whole lim [] suf bs bs"
  by (auto simp: flushed_file_def)

lemma flushed_file_fail:
  assumes "k < length (entry_bytes e)" "entry_lsn e \<le> lim" "whole \<longrightarrow> k = 0"
  shows "flushed_file whole lim [] (e # es) bs (bs @ take k (entry_bytes e))"
  using assms by (auto simp: flushed_file_def)

lemma flushed_file_Cons:
  assumes "flushed_file whole lim pre suf (bs @ entry_bytes e) bs'"
  shows "flushed_file whole lim (e # pre) suf bs bs'"
  using assms by (auto simp: flushed_file_def)

lemma flush_loop_spec:
  assumes "w_file w = Some f" "lsn_run (lb_flushed_lsn b) (lb_entries b)"
    and "0 \<le> lb_flushed_lsn b" "w_last_lsn w \<le> lb_flushed_lsn b"
    and "lb_flushed_lsn b + int (length (lb_entries b)) \<le> INT32_MAX"
  shows "\<exists>pre suf rc b' w' bs. flush_loop io c b w d = Some (rc, c + length pre, b', w', d(f := bs)) \<and>
    flushed_to b w f pre suf rc b' w' \<and> flushed_file (\<forall>k. untorn (io k)) (w_end_lsn w) pre suf (d f) bs \<and>
    (io_ok io \<longrightarrow> rc = SUCCESS \<or> rc = LOG_FILE_FULL)"
  using assms
proof (induction "lb_entries b" arbitrary: b w d c)
  case Nil
  then show ?case
    by (subst flush_loop.simps)
      (auto simp: flushed_to_def flushed_file_full intro!: exI [of _ "[]"] exI [of _ "d f"])
next
  case (Cons e es)
  note eq = Cons.hyps(2) [symmetric]
  have e: "entry_lsn e = lb_flushed_lsn b + 1" "good_entry e"
    and es: "lsn_run (lb_flushed_lsn b + 1) es"
    using Cons.prems(2) by (simp_all add: eq)
  have pl: "0 < payload_size e" using e(2) by (auto simp: good_entry_def)
  let ?b1 = "b\<lparr>lb_entries := es, lb_bytes := lb_bytes b - total_size e\<rparr>"
  have step: "flush_loop io c b w d =
      (case writer_write (io c) e w d of (rc, w', d') \<Rightarrow>
         if OB_FAIL rc then Some (rc, c, ?b1\<lparr>lb_entries := e # es\<rparr>, w', d')
         else flush_loop io (c + 1) (?b1\<lparr>lb_flushed_lsn := entry_lsn e\<rparr>) w' d')"
    using e pl Cons.prems(3) by (subst flush_loop.simps) (simp add: eq Let_def)
  show ?case
  proof (cases "entry_lsn e \<le> w_end_lsn w")
    case False
    then have "writer_write (io c) e w d = (LOG_FILE_FULL, w, d)"
      by (simp add: writer_write_def)
    with step False e Cons.prems(1,4) show ?thesis
      by (intro exI [of _ "[]"] exI [of _ "e # es"] exI [of _ "LOG_FILE_FULL"] exI [of _ "?b1\<lparr>lb_entries := e # es\<rparr>"]
           exI [of _ w] exI [of _ "d f"]) (simp add: eq flushed_to_def flushed_file_full)
  next
    case fits: True
    have lt: "w_last_lsn w < entry_lsn e" using Cons.prems(4) e by simp
    show ?thesis
    proof (rule writer_write_cases [OF Cons.prems(1) e(2) fits lt, of "io c" d], goal_cases ok fail)
      case (fail k)
      have "flushed_file (\<forall>k. untorn (io k)) (w_end_lsn w) [] (e # es) (d f) (d f @ take k (entry_bytes e))"
        by (rule flushed_file_fail) (use fail fits in auto)
      moreover have "flushed_to b w f [] (e # es) IOERR_WRITE (?b1\<lparr>lb_entries := e # es\<rparr>) w"
        using fits e Cons.prems(1,4) by (simp add: flushed_to_def eq)
      ultimately show ?thesis using step fail(1,4)
        by (intro exI [of _ "[]"] exI [of _ "e # es"] exI [of _ IOERR_WRITE] exI [of _ "?b1\<lparr>lb_entries := e # es\<rparr>"]
           exI [of _ w] exI [of _ "d f @ take k (entry_bytes e)"]) auto
    next
      case ok
      let ?b2 = "?b1\<lparr>lb_flushed_lsn := entry_lsn e\<rparr>"
      let ?w2 = "w\<lparr>w_last_lsn := entry_lsn e\<rparr>" and ?d2 = "d(f := d f @ entry_bytes e)"
      have i32: "to_int32 (entry_lsn e) = entry_lsn e"
        using Cons.prems(3,5) e by (intro to_int32_id) (simp add: int32_range_def INT32_MAX_def eq)
      have step': "flush_loop io c b w d = flush_loop io (c + 1) ?b2 ?w2 ?d2"
        using step ok i32 by simp
      have "\<exists>pre suf rc b' w' bs. flush_loop io (c + 1) ?b2 ?w2 ?d2 =
            Some (rc, c + 1 + length pre, b', w', d(f := bs)) \<and>
          flushed_to ?b2 ?w2 f pre suf rc b' w' \<and>
          flushed_file (\<forall>k. untorn (io k)) (w_end_lsn w) pre suf (d f @ entry_bytes e) bs \<and>
          (io_ok io \<longrightarrow> rc = SUCCESS \<or> rc = LOG_FILE_FULL)"
        using Cons.hyps(1) [of ?b2 ?w2 "c + 1" ?d2] Cons.prems e es eq by simp
      then obtain pre suf rc b' w' bs where
        r: "flush_loop io (c + 1) ?b2 ?w2 ?d2 = Some (rc, c + 1 + length pre, b', w', d(f := bs))"
        and q: "flushed_to ?b2 ?w2 f pre suf rc b' w'"
        and ff: "flushed_file (\<forall>k. untorn (io k)) (w_end_lsn w) pre suf (d f @ entry_bytes e) bs"
        and o: "io_ok io \<longrightarrow> rc = SUCCESS \<or> rc = LOG_FILE_FULL"
        by blast
      have "flushed_to b w f (e # pre) suf rc b' w'"
        using q fits e by (auto simp: flushed_to_def eq)
      with r o flushed_file_Cons [OF ff] show ?thesis unfolding step'
        by (intro exI [of _ "e # pre"] exI [of _ suf] exI [of _ rc] exI [of _ b'] exI [of _ w'] exI [of _ bs]) simp
    qed
  qed
qed

section \<open>The invariant of the log handler\<close>

text \<open>
  \<open>D\<close> says which entries each file holds; \<open>written\<close> are those entries in the order of the files.
  The invariant: the files' keys are consecutive multiples of the number of entries per file,
  a file holds entries of its own LSN range, the written entries carry the LSNs 1, 2, \dots and
  the buffered ones continue them up to \<open>current_lsn_\<close>. Remains of a failed write may stand
  between the entries and at the end of the last file; without torn writes the files are
  their entries.
\<close>

type_synonym log_view = "LSN \<Rightarrow> byte list LogEntry list"

abbreviation log_keys :: "'p DiskLogHandler \<Rightarrow> LSN list" where
  "log_keys h \<equiv> fm_log_files (lh_file_manager h)"

definition written :: "log_view \<Rightarrow> byte list DiskLogHandler \<Rightarrow> byte list LogEntry list" where
  "written D h = concat (map D (log_keys h))"

abbreviation file_cap :: "'p DiskLogHandler \<Rightarrow> int" where
  "file_cap h \<equiv> fm_max_entry_number (lh_file_manager h)"

abbreviation file_cnt :: "'p DiskLogHandler \<Rightarrow> nat" where
  "file_cnt h \<equiv> length (fm_log_files (lh_file_manager h))"

abbreviation buffered :: "'p DiskLogHandler \<Rightarrow> 'p LogEntry list" where
  "buffered h \<equiv> lb_entries (lh_entry_buffer h)"

abbreviation flushed :: "'p DiskLogHandler \<Rightarrow> LSN" where
  "flushed h \<equiv> lb_flushed_lsn (lh_entry_buffer h)"

definition files_inv :: "log_view \<Rightarrow> byte list DiskLogHandler \<Rightarrow> bool" where
  "files_inv D h \<longleftrightarrow> 0 < file_cap h \<and>
     log_keys h = map (\<lambda>i. int i * file_cap h) [0..<file_cnt h] \<and>
     (\<forall>i < file_cnt h. \<forall>e \<in> set (D (int i * file_cap h)).
        int i * file_cap h \<le> entry_lsn e \<and> entry_lsn e \<le> int i * file_cap h + file_cap h - 1) \<and>
     (0 < file_cnt h \<longrightarrow> (int (file_cnt h) - 1) * file_cap h - 1 \<le> flushed h \<and>
        flushed h \<le> int (file_cnt h) * file_cap h - 1) \<and>
     (\<forall>i \<ge> file_cnt h. D (int i * file_cap h) = [])"

definition disk_ok :: "bool \<Rightarrow> log_view \<Rightarrow> byte list DiskLogHandler \<Rightarrow> bool" where
  "disk_ok torn D h \<longleftrightarrow>
     (\<forall>f\<in>set (log_keys h). \<exists>p. file_holds (D f) p (lh_disk h f) \<and>
        pending (f + file_cap h - 1) p (buffered h) \<and> (p \<noteq> None \<longrightarrow> f = last (log_keys h)) \<and>
        (\<not> torn \<longrightarrow> lh_disk h f = concat (map entry_bytes (D f)))) \<and>
     (\<forall>f. f \<notin> set (log_keys h) \<longrightarrow> D f = [] \<and> lh_disk h f = [])"

definition log_inv :: "bool \<Rightarrow> log_view \<Rightarrow> byte list DiskLogHandler \<Rightarrow> bool" where
  "log_inv torn D h \<longleftrightarrow> files_inv D h \<and> disk_ok torn D h \<and> lsn_run 0 (written D h) \<and>
     flushed h = int (length (written D h)) \<and> lsn_run (flushed h) (buffered h) \<and>
     lb_current_lsn (lh_entry_buffer h) = flushed h + int (length (buffered h))"

text \<open>The LSNs fit the 32-bit fields of \<open>LogFileWriter\<close>.\<close>

definition lsn_fits :: "byte list DiskLogHandler \<Rightarrow> bool" where
  "lsn_fits h \<longleftrightarrow> lb_current_lsn (lh_entry_buffer h) + file_cap h \<le> INT32_MAX"

text \<open>The locals of \<open>thread_func\<close> between two passes.\<close>

definition writer_inv :: "RC \<Rightarrow> LogFileWriter \<Rightarrow> byte list DiskLogHandler \<Rightarrow> bool" where
  "writer_inv rc w h \<longleftrightarrow> w_last_lsn w \<le> flushed h \<and>
     (case w_file w of
        None \<Rightarrow> rc \<noteq> LOG_FILE_FULL
      | Some f \<Rightarrow> 0 < file_cnt h \<and> f = (int (file_cnt h) - 1) * file_cap h \<and>
          w_end_lsn w = int (file_cnt h) * file_cap h - 1 \<and>
          (rc = LOG_FILE_FULL \<longrightarrow> flushed h = int (file_cnt h) * file_cap h - 1 \<and> buffered h \<noteq> []))"

lemma last_log_file:
  "files_inv D h \<Longrightarrow> 0 < file_cnt h \<Longrightarrow>
     last (fm_log_files (lh_file_manager h)) = (int (file_cnt h) - 1) * file_cap h"
  by (cases "file_cnt h") (auto simp: files_inv_def)

lemma log_files_snoc:
  "files_inv D h \<Longrightarrow> 0 < file_cnt h \<Longrightarrow> fm_log_files (lh_file_manager h) =
     map (\<lambda>i. int i * file_cap h) [0..<file_cnt h - 1] @ [(int (file_cnt h) - 1) * file_cap h]"
  by (cases "file_cnt h") (auto simp: files_inv_def)

lemma log_keys_set:
  "files_inv D h \<Longrightarrow> set (log_keys h) = (\<lambda>i. int i * file_cap h) ` {0..<file_cnt h}"
  unfolding files_inv_def by (metis list.set_map set_upt)

text \<open>A full file holds no remains of an entry that belongs in the next one.\<close>

lemma disk_ok_next_file:
  assumes inv: "log_inv torn D h"
    and full: "0 < file_cnt h \<Longrightarrow> flushed h = int (file_cnt h) * file_cap h - 1"
    and h': "log_keys h' = log_keys h @ [int (file_cnt h) * file_cap h]" "lh_disk h' = lh_disk h"
      "buffered h' = buffered h" "file_cap h' = file_cap h"
  shows "disk_ok torn D h'"
proof -
  let ?l = "int (file_cnt h) * file_cap h"
  have fi: "files_inv D h" and dk: "disk_ok torn D h" and run: "lsn_run (flushed h) (buffered h)"
    using inv unfolding log_inv_def by blast+
  have c: "0 < file_cap h" using fi by (simp add: files_inv_def)
  have new: "?l \<notin> set (log_keys h)" using c by (auto simp: log_keys_set [OF fi])
  with dk have l: "D ?l = []" "lh_disk h ?l = []" by (simp_all add: disk_ok_def)
  have old: "file_holds (D f) None (lh_disk h f) \<and> (\<not> torn \<longrightarrow> lh_disk h f = concat (map entry_bytes (D f)))"
    if f: "f \<in> set (log_keys h)" for f
  proof -
    obtain p where p: "file_holds (D f) p (lh_disk h f)" "pending (f + file_cap h - 1) p (buffered h)"
        "p \<noteq> None \<longrightarrow> f = last (log_keys h)" "\<not> torn \<longrightarrow> lh_disk h f = concat (map entry_bytes (D f))"
      using dk f unfolding disk_ok_def by blast
    have "p = None"
    proof (rule ccontr)
      assume "p \<noteq> None"
      moreover have n: "0 < file_cnt h" using f by auto
      ultimately have "f + file_cap h - 1 = flushed h"
        using p(3) last_log_file [OF fi n] full [OF n] by (simp add: left_diff_distrib)
      moreover from \<open>p \<noteq> None\<close> p(2) obtain e es where "buffered h = e # es" "entry_lsn e \<le> f + file_cap h - 1"
        by (cases "buffered h") (auto simp: pending_def)
      ultimately show False using run by simp
    qed
    with p show ?thesis by simp
  qed
  show ?thesis
    unfolding disk_ok_def h' using dk old new l holds_nothing
    by (auto simp: disk_ok_def pending_def intro!: exI [of _ "None"])
qed

lemma next_file_ok:
  assumes "log_inv torn D h" "lsn_fits h" "w_last_lsn w \<le> flushed h"
    and full: "0 < file_cnt h \<Longrightarrow> flushed h = int (file_cnt h) * file_cap h - 1"
    and nx: "next_file op (lh_file_manager h) w = (rc, fm, w1)"
  shows "rc = (if op then SUCCESS else FILE_OPEN) \<and> log_inv torn D (h\<lparr>lh_file_manager := fm\<rparr>) \<and>
    lsn_fits (h\<lparr>lh_file_manager := fm\<rparr>) \<and> writer_inv rc w1 (h\<lparr>lh_file_manager := fm\<rparr>) \<and>
    (op \<longrightarrow> w_file w1 \<noteq> None) \<and>
    written D (h\<lparr>lh_file_manager := fm\<rparr>) = written D h \<and> fm_max_entry_number fm = file_cap h \<and>
    flushed h < w_end_lsn w1 + (if file_cnt h = 0 then 1 else 0)"
proof -
  let ?n = "file_cnt h" and ?mx = "file_cap h" and ?fm = "lh_file_manager h"
  let ?l = "int ?n * ?mx"
  have fi: "files_inv D h" and lr: "flushed h = int (length (written D h))"
    and cur: "lb_current_lsn (lh_entry_buffer h) = flushed h + int (length (buffered h))"
    using assms(1) by (auto simp: log_inv_def)
  have mx: "0 < ?mx" using fi by (simp add: files_inv_def)
  have l: "(if fm_log_files ?fm = [] then 0 else last (fm_log_files ?fm) + ?mx) = ?l"
    using last_log_file [OF fi] by (auto simp: algebra_simps)
  have fl0: "flushed h = 0" if "?n = 0" using that lr by (simp add: written_def)
  have "?l + ?mx - 1 \<le> INT32_MAX"
    using assms(2) full cur fl0 by (cases "?n = 0") (auto simp: lsn_fits_def)
  moreover have "0 \<le> ?l" using mx by simp
  ultimately have e32: "to_int32 (?l + ?mx - 1) = ?l + ?mx - 1"
    using mx by (intro to_int32_id) (unfold int32_range_def INT32_MAX_def, linarith)
  from nx have eqs: "rc = (if op then SUCCESS else FILE_OPEN)" "fm = ?fm\<lparr>fm_log_files := fm_log_files ?fm @ [?l]\<rparr>"
      "w_file w1 = (if op then Some ?l else None)" "w_end_lsn w1 = ?l + ?mx - 1" "w_last_lsn w1 = w_last_lsn w"
    by (auto simp: next_file_def Let_def l writer_open_def writer_close_def e32 split: if_splits)
  let ?h = "h\<lparr>lh_file_manager := fm\<rparr>"
  have empty: "D ?l = []" using fi by (simp add: files_inv_def)
  have w: "written D ?h = written D h" by (simp add: written_def eqs(2) empty)
  have "?l - 1 \<le> flushed h \<and> flushed h \<le> ?l + ?mx - 1"
    using mx full fl0 by (cases "?n = 0") auto
  then have "files_inv D ?h"
    using fi mx empty by (auto simp: files_inv_def eqs(2) less_Suc_eq algebra_simps)
  with assms(1) w disk_ok_next_file [OF assms(1) full, where h' = ?h] have "log_inv torn D ?h"
    by (auto simp: log_inv_def eqs(2))
  moreover have "writer_inv rc w1 ?h"
    using assms(3) by (simp add: writer_inv_def eqs algebra_simps)
  moreover have "flushed h < w_end_lsn w1 + (if ?n = 0 then 1 else 0)"
    using full fl0 mx by (auto simp: eqs)
  ultimately show ?thesis
    using w eqs assms(2) by (simp add: lsn_fits_def)
qed

lemma last_file_ok:
  assumes "log_inv torn D h" "lsn_fits h" "w_last_lsn w \<le> flushed h"
    and ls: "last_file op (lh_file_manager h) w = (rc, fm, w1)"
  shows "rc = (if op then SUCCESS else FILE_OPEN) \<and> log_inv torn D (h\<lparr>lh_file_manager := fm\<rparr>) \<and>
    lsn_fits (h\<lparr>lh_file_manager := fm\<rparr>) \<and> writer_inv rc w1 (h\<lparr>lh_file_manager := fm\<rparr>) \<and>
    (op \<longrightarrow> w_file w1 \<noteq> None) \<and>
    written D (h\<lparr>lh_file_manager := fm\<rparr>) = written D h \<and> fm_max_entry_number fm = file_cap h"
proof (cases "fm_log_files (lh_file_manager h) = []")
  case True
  with next_file_ok [OF assms(1-3)] ls show ?thesis
    by (auto simp: last_file_def)
next
  case False
  let ?n = "file_cnt h" and ?mx = "file_cap h"
  have fi: "files_inv D h" and cur: "flushed h \<le> lb_current_lsn (lh_entry_buffer h)"
    using assms(1) by (auto simp: log_inv_def)
  have f: "last (fm_log_files (lh_file_manager h)) = (int ?n - 1) * ?mx"
    using last_log_file [OF fi] False by simp
  have mx: "0 < ?mx" and n: "0 < ?n" using fi False by (auto simp: files_inv_def)
  have b: "(int ?n - 1) * ?mx - 1 \<le> flushed h" using fi n by (simp add: files_inv_def)
  have "0 \<le> (int ?n - 1) * ?mx" using mx n by simp
  moreover have last: "(int ?n - 1) * ?mx + ?mx - 1 = int ?n * ?mx - 1"
    by (simp add: left_diff_distrib)
  ultimately have e32: "to_int32 (int ?n * ?mx - 1) = int ?n * ?mx - 1"
    using assms(2) b cur mx
    by (intro to_int32_id) (unfold int32_range_def INT32_MAX_def lsn_fits_def, linarith)
  have fls: "fm_log_files (lh_file_manager h) \<noteq> []" by (rule False)
  from ls have "rc = (if op then SUCCESS else FILE_OPEN)" "fm = lh_file_manager h"
      "w_file w1 = (if op then Some ((int ?n - 1) * ?mx) else None)"
      "w_end_lsn w1 = int ?n * ?mx - 1" "w_last_lsn w1 = w_last_lsn w"
    by (auto simp: last_file_def Let_def fls f writer_open_def writer_close_def last e32
        split: if_splits)
  with assms(1-3) n show ?thesis by (simp add: writer_inv_def)
qed


section \<open>One pass of the flushing thread\<close>

lemma written_disk_append:
  assumes "files_inv D h" "0 < file_cnt h" "f = (int (file_cnt h) - 1) * file_cap h"
  shows "written (D(f := D f @ pre)) (h\<lparr>lh_entry_buffer := b, lh_disk := d\<rparr>) = written D h @ pre"
proof -
  have c: "0 < file_cap h" using assms(1) by (simp add: files_inv_def)
  obtain ks where ks: "log_keys h = ks @ [f]" "f \<notin> set ks"
    using log_files_snoc [OF assms(1,2)] c by (fastforce simp: assms(3))
  then have "map (D(f := D f @ pre)) ks = map D ks"
    by auto
  with ks show ?thesis by (simp add: written_def)
qed

lemma files_inv_disk_append:
  assumes fi: "files_inv D h" and n: "0 < file_cnt h"
    and f: "f = (int (file_cnt h) - 1) * file_cap h"
    and pre: "\<forall>e\<in>set pre. f \<le> entry_lsn e \<and> entry_lsn e \<le> int (file_cnt h) * file_cap h - 1"
    and fl: "f - 1 \<le> lb_flushed_lsn b" "lb_flushed_lsn b \<le> int (file_cnt h) * file_cap h - 1"
  shows "files_inv (D(f := D f @ pre)) (h\<lparr>lh_entry_buffer := b, lh_disk := d\<rparr>)"
proof -
  have c: "0 < file_cap h" using fi by (simp add: files_inv_def)
  have f': "f = int (file_cnt h - 1) * file_cap h" using n by (cases "file_cnt h") (simp_all add: f)
  have key: "int i * file_cap h = f \<longleftrightarrow> i = file_cnt h - 1" for i
    using c by (simp add: f')
  have up: "f + file_cap h - 1 = int (file_cnt h) * file_cap h - 1"
    by (simp add: f left_diff_distrib)
  have old: "\<forall>e\<in>set (D f). f \<le> entry_lsn e \<and> entry_lsn e \<le> int (file_cnt h) * file_cap h - 1"
    using fi n unfolding files_inv_def up [symmetric] f' by (metis diff_less zero_less_one)
  have "int i * file_cap h \<le> entry_lsn e \<and> entry_lsn e \<le> int i * file_cap h + file_cap h - 1"
    if "i < file_cnt h" "e \<in> set ((D(f := D f @ pre)) (int i * file_cap h))" for i e
  proof (cases "int i * file_cap h = f")
    case True
    with that(2) have "e \<in> set (D f) \<or> e \<in> set pre" by simp
    with old pre show ?thesis unfolding True up by blast
  next
    case False
    then show ?thesis using that fi by (simp add: files_inv_def)
  qed
  moreover have "(D(f := D f @ pre)) (int i * file_cap h) = []"
    if "file_cnt h \<le> i" for i
  proof -
    have "int i * file_cap h \<noteq> f" unfolding key using that n by linarith
    then show ?thesis using that fi by (simp add: files_inv_def)
  qed
  ultimately show ?thesis
    using fi fl n f unfolding files_inv_def by simp
qed

lemma disk_ok_flush:
  assumes fi: "files_inv D h" and dk: "disk_ok torn D h" and n: "0 < file_cnt h"
    and f: "f = (int (file_cnt h) - 1) * file_cap h"
    and b: "buffered h = pre @ lb_entries b"
    and ff: "flushed_file whole (int (file_cnt h) * file_cap h - 1) pre (lb_entries b) (lh_disk h f) bs"
    and w: "\<not> torn \<longrightarrow> whole"
  shows "disk_ok torn (D(f := D f @ pre)) (h\<lparr>lh_entry_buffer := b, lh_disk := (lh_disk h)(f := bs)\<rparr>)"
proof -
  have lf: "last (log_keys h) = f" using last_log_file [OF fi n] f by simp
  have fs: "f \<in> set (log_keys h)" using lf n by (metis last_in_set length_greater_0_conv)
  have lim: "int (file_cnt h) * file_cap h - 1 = f + file_cap h - 1" by (simp add: f left_diff_distrib)
  obtain p where p: "file_holds (D f) p (lh_disk h f)" "pending (f + file_cap h - 1) p (pre @ lb_entries b)"
    "\<not> torn \<longrightarrow> lh_disk h f = concat (map entry_bytes (D f))"
    using dk fs unfolding disk_ok_def b by blast
  from file_holds_flushed [OF ff [unfolded lim] p(1,2)] obtain p' where
    p': "file_holds (D f @ pre) p' bs" "pending (f + file_cap h - 1) p' (lb_entries b)" by blast
  have whole: "\<not> torn \<longrightarrow> bs = concat (map entry_bytes (D f @ pre))"
    using flushed_file_whole ff w p(3) by (cases whole) fastforce+
  have "\<exists>p. file_holds (D k) p (lh_disk h k) \<and> pending (k + file_cap h - 1) p (lb_entries b) \<and>
      (p \<noteq> None \<longrightarrow> k = f) \<and> (\<not> torn \<longrightarrow> lh_disk h k = concat (map entry_bytes (D k)))"
    if "k \<in> set (log_keys h)" "k \<noteq> f" for k
    using dk that unfolding disk_ok_def lf by (force simp: pending_def)
  with p' whole dk fs show ?thesis
    unfolding disk_ok_def by (auto simp: lf)
qed

lemma lsn_run_last: "lsn_run a es \<Longrightarrow> es \<noteq> [] \<Longrightarrow> entry_lsn (last es) = a + int (length es)"
  by (induction es arbitrary: a) auto

lemma flush_ok:
  assumes inv: "log_inv torn D h" "lsn_fits h" and wi: "writer_inv SUCCESS w h" "w_file w \<noteq> None"
    and io: "torn \<or> (\<forall>k. untorn (io k))"
  shows "\<exists>pre rc b w' d D'. flush io (lh_entry_buffer h) w (lh_disk h) = Some (rc, length pre, b, w', d) \<and>
    log_inv torn D' (h\<lparr>lh_entry_buffer := b, lh_disk := d\<rparr>) \<and> lsn_fits (h\<lparr>lh_entry_buffer := b, lh_disk := d\<rparr>) \<and>
    writer_inv rc w' (h\<lparr>lh_entry_buffer := b, lh_disk := d\<rparr>) \<and>
    buffered h = pre @ lb_entries b \<and>
    written D' (h\<lparr>lh_entry_buffer := b, lh_disk := d\<rparr>) = written D h @ pre \<and>
    (rc = SUCCESS \<longleftrightarrow> lb_entries b = []) \<and>
    (io_ok io \<longrightarrow> rc = SUCCESS \<or> rc = LOG_FILE_FULL) \<and>
    (rc = LOG_FILE_FULL \<longrightarrow> flushed h < w_end_lsn w \<longrightarrow> pre \<noteq> [])"
proof -
  let ?n = "file_cnt h" and ?c = "file_cap h"
  from wi obtain f where f: "w_file w = Some f" "f = (int ?n - 1) * ?c" and n: "0 < ?n"
    and e: "w_end_lsn w = int ?n * ?c - 1" and ll: "w_last_lsn w \<le> flushed h"
    by (auto simp: writer_inv_def split: option.splits)
  have fi: "files_inv D h" and dk: "disk_ok torn D h" and run0: "lsn_run 0 (written D h)"
    and fl: "flushed h = int (length (written D h))" and run: "lsn_run (flushed h) (buffered h)"
    and cur: "lb_current_lsn (lh_entry_buffer h) = flushed h + int (length (buffered h))"
    using inv(1) unfolding log_inv_def by blast+
  have c: "0 < ?c" and lo: "f - 1 \<le> flushed h" and hi: "flushed h \<le> w_end_lsn w"
    using fi n by (auto simp: files_inv_def f e)
  have "flushed h + int (length (buffered h)) \<le> INT32_MAX"
    using inv(2) cur c by (simp add: lsn_fits_def)
  then have "\<exists>pre suf rc b' w' bs. flush io (lh_entry_buffer h) w (lh_disk h) =
        Some (rc, length pre, b', w', (lh_disk h)(f := bs)) \<and>
      flushed_to (lh_entry_buffer h) w f pre suf rc b' w' \<and>
      flushed_file (\<forall>k. untorn (io k)) (w_end_lsn w) pre suf (lh_disk h f) bs \<and>
      (io_ok io \<longrightarrow> rc = SUCCESS \<or> rc = LOG_FILE_FULL)"
    using flush_loop_spec [OF f(1) run _ ll, of io 0 "lh_disk h"] fl by (simp add: flush_def)
  then obtain pre suf rc b w' bs where
    fe: "flush io (lh_entry_buffer h) w (lh_disk h) = Some (rc, length pre, b, w', (lh_disk h)(f := bs))"
    and ft: "flushed_to (lh_entry_buffer h) w f pre suf rc b w'"
    and ff: "flushed_file (\<forall>k. untorn (io k)) (w_end_lsn w) pre suf (lh_disk h f) bs"
    and ok: "io_ok io \<longrightarrow> rc = SUCCESS \<or> rc = LOG_FILE_FULL"
    by blast
  let ?h = "h\<lparr>lh_entry_buffer := b, lh_disk := (lh_disk h)(f := bs)\<rparr>" and ?D = "D(f := D f @ pre)"
  from ft have b: "buffered h = pre @ suf" "lb_entries b = suf" "flushed ?h = flushed h + int (length pre)"
      "lb_current_lsn b = lb_current_lsn (lh_entry_buffer h)"
    and w': "w_file w' = Some f" "w_end_lsn w' = w_end_lsn w" "w_last_lsn w' \<le> flushed ?h"
    and pre: "\<forall>e\<in>set pre. entry_lsn e \<le> w_end_lsn w"
    and rc: "rc = SUCCESS \<longleftrightarrow> suf = []" "rc = LOG_FILE_FULL \<longleftrightarrow> suf \<noteq> [] \<and> w_end_lsn w < flushed ?h + 1"
    by (auto simp: flushed_to_def)
  have runs: "lsn_run (flushed h) pre" "lsn_run (flushed ?h) suf"
    using run b by (auto simp: lsn_run_append)
  have hi': "flushed ?h \<le> w_end_lsn w"
    using lsn_run_last [OF runs(1)] pre b(3) hi last_in_set [of pre] by (cases "pre = []") fastforce+
  have wr: "written ?D ?h = written D h @ pre"
    by (rule written_disk_append [OF fi n f(2)])
  have pre_lo: "\<forall>e\<in>set pre. f \<le> entry_lsn e"
    using lsn_run_bounds [OF runs(1)] lo by fastforce
  have "files_inv ?D ?h"
    by (rule files_inv_disk_append [OF fi n f(2)]) (use pre pre_lo hi' lo b(3) e in auto)
  moreover have "disk_ok torn ?D ?h"
    by (rule disk_ok_flush [OF fi dk n f(2)]) (use b ff e io in auto)
  ultimately have "log_inv torn ?D ?h"
    using runs run0 fl cur b wr by (auto simp: log_inv_def lsn_run_append)
  moreover have "writer_inv rc w' ?h"
    using w' n rc hi' b by (simp add: writer_inv_def f e)
  moreover have "lsn_fits ?h" using inv(2) b by (simp add: lsn_fits_def)
  ultimately show ?thesis
    using fe b wr rc ok hi' by (intro exI [of _ pre] exI [of _ rc] exI [of _ b] exI) auto
qed

lemma thread_step_ok:
  assumes inv: "log_inv torn D h" "lsn_fits h" and wi: "writer_inv rc w h"
    and io: "torn \<or> (\<forall>k. untorn (io k))"
  shows "\<exists>rc' w' h' pre D'. thread_step op io (rc, w, h) = Some (rc', w', h') \<and>
    log_inv torn D' h' \<and> lsn_fits h' \<and> writer_inv rc' w' h' \<and>
    buffered h = pre @ buffered h' \<and> written D' h' = written D h @ pre \<and>
    lh_running h' = lh_running h \<and> lh_thread h' = lh_thread h \<and> file_cap h' = file_cap h \<and>
    (rc' = SUCCESS \<longrightarrow> buffered h' = []) \<and>
    (op \<and> io_ok io \<longrightarrow> rc' = SUCCESS \<or> rc' = LOG_FILE_FULL) \<and>
    (rc = LOG_FILE_FULL \<longrightarrow> rc' = LOG_FILE_FULL \<longrightarrow> pre \<noteq> [])"
proof -
  let ?open = "\<not> writer_valid w \<or> rc = LOG_FILE_FULL"
  obtain rc1 fm w1 where o: "(if ?open
       then (if rc = LOG_FILE_FULL then next_file op (lh_file_manager h) w
             else last_file op (lh_file_manager h) w)
       else (SUCCESS, lh_file_manager h, w)) = (rc1, fm, w1)"
    by (metis prod_cases3)
  let ?h = "h\<lparr>lh_file_manager := fm\<rparr>"
  have ll: "w_last_lsn w \<le> flushed h" using wi by (simp add: writer_inv_def)
  have "(rc1 = SUCCESS \<or> \<not> op \<and> rc1 = FILE_OPEN \<and> ?open) \<and> log_inv torn D ?h \<and> lsn_fits ?h \<and>
      writer_inv rc1 w1 ?h \<and> (rc1 = SUCCESS \<longrightarrow> w_file w1 \<noteq> None) \<and>
      written D ?h = written D h \<and> fm_max_entry_number fm = file_cap h \<and>
      (rc = LOG_FILE_FULL \<longrightarrow> flushed h < w_end_lsn w1)"
  proof (cases "rc = LOG_FILE_FULL")
    case True
    with wi have full: "flushed h = int (file_cnt h) * file_cap h - 1" "0 < file_cnt h"
      by (auto simp: writer_inv_def split: option.splits)
    from o True have "next_file op (lh_file_manager h) w = (rc1, fm, w1)" by simp
    from next_file_ok [OF inv ll full(1) this] full(2) True show ?thesis by auto
  next
    case False
    show ?thesis
    proof (cases "writer_valid w")
      case True
      with o False have "fm = lh_file_manager h" "rc1 = SUCCESS" "w1 = w" by simp_all
      with True False inv wi show ?thesis
        by (auto simp: writer_valid_def writer_inv_def split: option.splits)
    next
      case nv: False
      with o False have "last_file op (lh_file_manager h) w = (rc1, fm, w1)" by simp
      from last_file_ok [OF inv ll this] False nv show ?thesis by auto
    qed
  qed
  then have opened: "rc1 = SUCCESS \<or> \<not> op \<and> rc1 = FILE_OPEN \<and> ?open"
    and ok: "log_inv torn D ?h" "lsn_fits ?h" "writer_inv rc1 w1 ?h" "rc1 = SUCCESS \<longrightarrow> w_file w1 \<noteq> None"
    and same: "written D ?h = written D h" "fm_max_entry_number fm = file_cap h"
    and prog: "rc = LOG_FILE_FULL \<longrightarrow> flushed h < w_end_lsn w1" by auto
  show ?thesis
  proof (cases "rc1 = SUCCESS")
    case False
    then have "thread_step op io (rc, w, h) = Some (rc1, w1, ?h)"
      unfolding thread_step_def prod.case o Let_def using opened by simp
    with False opened ok same show ?thesis
      by (intro exI [of _ rc1] exI [of _ w1] exI [of _ ?h] exI [of _ "[]"] exI [of _ D]) auto
  next
    case True
    from flush_ok [OF ok(1,2) ok(3) [unfolded True] ok(4) [rule_format, OF True] io] obtain pre rc' b w' d D' where
      fl: "flush io (lh_entry_buffer ?h) w1 (lh_disk ?h) = Some (rc', length pre, b, w', d)"
      and q: "log_inv torn D' (?h\<lparr>lh_entry_buffer := b, lh_disk := d\<rparr>)"
        "lsn_fits (?h\<lparr>lh_entry_buffer := b, lh_disk := d\<rparr>)"
        "writer_inv rc' w' (?h\<lparr>lh_entry_buffer := b, lh_disk := d\<rparr>)"
        "buffered ?h = pre @ lb_entries b"
        "written D' (?h\<lparr>lh_entry_buffer := b, lh_disk := d\<rparr>) = written D ?h @ pre"
        "rc' = SUCCESS \<longleftrightarrow> lb_entries b = []"
        "io_ok io \<longrightarrow> rc' = SUCCESS \<or> rc' = LOG_FILE_FULL"
        "rc' = LOG_FILE_FULL \<longrightarrow> flushed ?h < w_end_lsn w1 \<longrightarrow> pre \<noteq> []"
      by blast
    have "thread_step op io (rc, w, h) = Some (rc', w', ?h\<lparr>lh_entry_buffer := b, lh_disk := d\<rparr>)"
      unfolding thread_step_def prod.case o Let_def using fl by (simp add: True)
    with q same prog show ?thesis
      by (intro exI [of _ rc'] exI [of _ w'] exI [of _ "?h\<lparr>lh_entry_buffer := b, lh_disk := d\<rparr>"] exI [of _ pre]
           exI [of _ D']) simp
  qed
qed

section \<open>The flushing thread empties the buffer and ends\<close>

lemma io_ok_untorn: "io_ok io \<Longrightarrow> torn \<or> (\<forall>k. untorn (io k))"
  by simp

lemma thread_loop_drains:
  assumes "log_inv torn D h" "lsn_fits h" "writer_inv rc w h" and io: "io_ok io" and "\<not> lh_running h"
  shows "\<exists>rc' w' h' D'. thread_loop True io (rc, w, h) = Some (rc', w', h') \<and> log_inv torn D' h' \<and> lsn_fits h' \<and>
    buffered h' = [] \<and> written D' h' = written D h @ buffered h \<and> lh_running h' = lh_running h \<and>
    lh_thread h' = lh_thread h \<and> file_cap h' = file_cap h"
  using assms(1-3,5)
proof (induction "2 * length (buffered h) + (if rc = LOG_FILE_FULL then 0 else 1)"
    arbitrary: rc w h D rule: less_induct)
  case less
  show ?case
  proof (cases "buffered h = []")
    case True
    with less.prems show ?thesis
      by (subst thread_loop.simps) (auto simp: entry_number_def)
  next
    case False
    from thread_step_ok [OF less.prems(1-3) io_ok_untorn [OF io], of True] io obtain rc' w' h' pre D' where
      st: "thread_step True io (rc, w, h) = Some (rc', w', h')"
      and i: "log_inv torn D' h'" "lsn_fits h'" "writer_inv rc' w' h'"
      and q: "buffered h = pre @ buffered h'" "written D' h' = written D h @ pre"
      and u: "lh_running h' = lh_running h" "lh_thread h' = lh_thread h" "file_cap h' = file_cap h"
      and r: "rc' = SUCCESS \<longrightarrow> buffered h' = []" "rc' = SUCCESS \<or> rc' = LOG_FILE_FULL"
        "rc = LOG_FILE_FULL \<longrightarrow> rc' = LOG_FILE_FULL \<longrightarrow> pre \<noteq> []"
      by blast
    have "2 * length (buffered h') + (if rc' = LOG_FILE_FULL then 0 else 1) <
        2 * length (buffered h) + (if rc = LOG_FILE_FULL then 0 else 1 :: nat)"
      using r q(1) False by (cases "pre = []") (auto simp: neq_Nil_conv)
    from less.hyps [OF this i] u(1) less.prems(4) obtain rc2 w2 h2 D2 where
      "thread_loop True io (rc', w', h') = Some (rc2, w2, h2)" "log_inv torn D2 h2" "lsn_fits h2" "buffered h2 = []"
      "written D2 h2 = written D' h' @ buffered h'" "lh_running h2 = lh_running h'"
      "lh_thread h2 = lh_thread h'" "file_cap h2 = file_cap h'"
      by auto
    with st q u False show ?thesis
      by (subst thread_loop.simps) (auto simp: entry_number_def)
  qed
qed

section \<open>Reading the log back\<close>

lemma read_entries_append:
  "read_entries cb (xs @ ys) s = do {
     (rc, s') \<leftarrow> read_entries cb xs s;
     if OB_FAIL rc then Some (rc, s') else read_entries cb ys s'
   }"
  by (induction xs arbitrary: s) (auto split: option.splits bind_splits)

text \<open>
  A file of entries in LSN order with other bytes behind them: \<open>skip_to\<close> stops at the first
  entry that counts, or goes on in those bytes.
\<close>

lemma skip_to_entries:
  "\<forall>e\<in>set es. good_entry e \<Longrightarrow> sorted (map entry_lsn es) \<Longrightarrow>
     skip_to start (concat (map entry_bytes es) @ bs) =
       (case filter (\<lambda>e. start \<le> entry_lsn e) es of
          [] \<Rightarrow> skip_to start bs
        | e # rest \<Rightarrow> (SUCCESS, concat (map entry_bytes (e # rest)) @ bs))"
proof (induction es)
  case (Cons e es)
  show ?case
  proof (cases "start \<le> entry_lsn e")
    case True
    with Cons.prems have "filter (\<lambda>e. start \<le> entry_lsn e) es = es"
      by (intro filter_True) force
    with True Cons.prems show ?thesis by (simp add: skip_to_entry)
  next
    case False
    with Cons show ?thesis by (simp add: skip_to_entry split del: list.split)
  qed
qed simp

lemma skip_to_end: "length bs < 16 \<Longrightarrow> skip_to start bs = (SUCCESS, [])"
  by (subst skip_to.simps) (simp add: size_limits)

lemma iterate_loop_end: "length bs < 16 \<Longrightarrow> iterate_loop cb bs s = Some (SUCCESS, s)"
  by (subst iterate_loop.simps) (simp add: size_limits)

lemma file_iterate_entries:
  assumes "\<forall>e\<in>set es. good_entry e" "sorted (map entry_lsn es)"
  shows "file_iterate cb start (concat (map entry_bytes es) @ bs) s =
    (if filter (\<lambda>e. start \<le> entry_lsn e) es = [] then file_iterate cb start bs s
     else do {
       (rc, s') \<leftarrow> read_entries cb (filter (\<lambda>e. start \<le> entry_lsn e) es) s;
       if OB_FAIL rc then Some (rc, s') else iterate_loop cb bs s'
     })"
proof -
  have "\<forall>e\<in>set (filter (\<lambda>e. start \<le> entry_lsn e) es). good_entry e" using assms(1) by simp
  from iterate_loop_entries [OF this, of cb bs s] show ?thesis
    unfolding file_iterate_def skip_to_entries [OF assms] by (auto split: list.split)
qed

text \<open>Behind the entries nothing, or a header cut off by the end of the file.\<close>

lemma file_iterate_sorted:
  assumes "\<forall>e\<in>set es. good_entry e" "sorted (map entry_lsn es)" "length bs < 16"
  shows "file_iterate cb start (concat (map entry_bytes es) @ bs) s =
    read_entries cb (filter (\<lambda>e. start \<le> entry_lsn e) es) s"
proof (cases "filter (\<lambda>e. start \<le> entry_lsn e) es = []")
  case True
  then show ?thesis
    unfolding file_iterate_entries [OF assms(1,2)]
    by (simp add: file_iterate_def skip_to_end [OF assms(3)] iterate_loop_end)
next
  case False
  then show ?thesis
    unfolding file_iterate_entries [OF assms(1,2)]
    by (auto simp: iterate_loop_end [OF assms(3)] split: option.splits bind_splits)
qed

lemma iterate_files_sorted:
  assumes "\<forall>f\<in>set fs. sorted (map entry_lsn (D f)) \<and> (\<forall>e\<in>set (D f). good_entry e) \<and>
      (\<exists>bs. d f = concat (map entry_bytes (D f)) @ bs \<and> length bs < 16)"
  shows "iterate_files cb start d fs s =
    read_entries cb (filter (\<lambda>e. start \<le> entry_lsn e) (concat (map D fs))) s"
  using assms
proof (induction fs arbitrary: s)
  case (Cons f fs)
  then obtain bs where "d f = concat (map entry_bytes (D f)) @ bs" "length bs < 16" by auto
  then have "file_iterate cb start (d f) s = read_entries cb (filter (\<lambda>e. start \<le> entry_lsn e) (D f)) s" for s
    using Cons.prems by (simp add: file_iterate_sorted)
  with Cons show ?case by (auto simp: read_entries_append intro!: bind_option_cong)
qed simp

lemma concat_map_filter_empty:
  "(\<And>x. x \<in> set xs \<Longrightarrow> \<not> P x \<Longrightarrow> f x = []) \<Longrightarrow> concat (map f (filter P xs)) = concat (map f xs)"
  by (induction xs) auto

lemma lsn_run_sorted: "lsn_run a es \<Longrightarrow> sorted (map entry_lsn es)"
  by (simp add: lsn_run_def)

lemma sorted_concat_part:
  "sorted (map g (concat (map d fs))) \<Longrightarrow> f \<in> set fs \<Longrightarrow> sorted (map g (d f))"
  by (induction fs) (auto simp: sorted_append)

lemma written_parts:
  assumes "lsn_run 0 (written D h)" "f \<in> set (log_keys h)"
  shows "sorted (map entry_lsn (D f))" "\<forall>e\<in>set (D f). good_entry e"
  using sorted_concat_part [OF lsn_run_sorted [OF assms(1), unfolded written_def]]
    lsn_run_good [OF assms(1)] assms(2) by (auto simp: written_def)

text \<open>
  Iterating from \<open>start\<close> hands over exactly the written entries with LSN at least \<open>start\<close>, in
  order: skipping whole files by their names loses none.
\<close>

lemma filter_listed:
  assumes "files_inv D h"
  shows "filter (\<lambda>e. start \<le> entry_lsn e) (concat (map D (list_files (lh_file_manager h) start))) =
    filter (\<lambda>e. start \<le> entry_lsn e) (written D h)"
proof -
  let ?fs = "log_keys h"
  let ?P = "\<lambda>f. start \<le> f + file_cap h - 1" and ?Q = "\<lambda>e. start \<le> entry_lsn e"
  have "filter ?Q (D f) = []" if f: "f \<in> set ?fs" "\<not> ?P f" for f
  proof -
    from f(1) obtain i where "i < file_cnt h" "f = int i * file_cap h"
      by (auto simp: log_keys_set [OF assms])
    with assms f(2) show ?thesis by (fastforce simp: files_inv_def filter_empty_conv)
  qed
  then have "concat (map (\<lambda>f. filter ?Q (D f)) (filter ?P ?fs)) = concat (map (\<lambda>f. filter ?Q (D f)) ?fs)"
    by (intro concat_map_filter_empty)
  then show ?thesis
    by (simp add: filter_concat written_def comp_def list_files_def)
qed

lemma log_iterate_written:
  assumes inv: "log_inv False D h"
  shows "log_iterate cb start h s =
    read_entries cb (filter (\<lambda>e. start \<le> entry_lsn e) (written D h)) s"
proof -
  from inv have fi: "files_inv D h" and run: "lsn_run 0 (written D h)" and dk: "disk_ok False D h"
    unfolding log_inv_def by blast+
  have "\<forall>f\<in>set (list_files (lh_file_manager h) start). sorted (map entry_lsn (D f)) \<and> (\<forall>e\<in>set (D f). good_entry e) \<and>
      (\<exists>bs. lh_disk h f = concat (map entry_bytes (D f)) @ bs \<and> length bs < 16)"
    using written_parts [OF run] dk by (auto simp: list_files_def disk_ok_def)
  from iterate_files_sorted [OF this, of cb start s] show ?thesis
    by (simp add: log_iterate_def filter_listed [OF fi])
qed

lemma read_entries_replay_callback:
  assumes "read_entries replayer es s = Some (SUCCESS, s')"
  shows "read_entries (replay_callback replayer) es (m, s) =
    Some (SUCCESS, fold (\<lambda>e m. if entry_lsn e > m then entry_lsn e else m) es m, s')"
  using assms
  by (induction es arbitrary: s m) (auto simp: replay_callback_def Let_def split: if_splits bind_splits)

lemma fold_max_lsn_run:
  "lsn_run a es \<Longrightarrow> fold (\<lambda>e m. if entry_lsn e > m then entry_lsn e else m) es a = a + int (length es)"
  by (induction es arbitrary: a) auto

lemma sort_log_keys:
  assumes "files_inv D h" "set keys = set (log_keys h)"
  shows "sort (remdups keys) = log_keys h"
proof -
  have c: "0 < file_cap h" and fs: "log_keys h = map (\<lambda>i. int i * file_cap h) [0..<file_cnt h]"
    using assms(1) by (simp_all add: files_inv_def)
  have "sorted (log_keys h) \<and> distinct (log_keys h)"
    using c by (subst (1 2) fs) (auto simp: sorted_map sorted_wrt_iff_nth_less distinct_map inj_on_def)
  then show ?thesis
    using assms(2) by (intro sorted_distinct_set_unique) auto
qed

text \<open>
  Restart: a new handler on the same directory that replays from the first LSN hands over
  every written entry once, in order, and continues with the next LSN. The end of the last file
  may be a header cut off.
\<close>

lemma restart_replay:
  assumes fi: "files_inv D h" and run: "lsn_run 0 (written D h)"
    and cap: "file_cap h = max_entry_number_default"
    and keys: "set keys = set (log_keys h)"
    and d: "\<forall>f\<in>set (log_keys h). \<exists>bs. d f = concat (map entry_bytes (D f)) @ bs \<and> length bs < 16"
    and rp: "read_entries replayer (written D h) s = Some (SUCCESS, s')"
  shows "\<exists>h2. log_replay replayer 0 (DiskLogHandler_init keys d) s = Some (SUCCESS, h2, s') \<and>
    lh_disk h2 = d \<and> log_keys h2 = log_keys h \<and> buffered h2 = [] \<and>
    lb_current_lsn (lh_entry_buffer h2) = int (length (written D h)) \<and> flushed h2 = int (length (written D h))"
proof -
  let ?h1 = "DiskLogHandler_init keys d :: byte list DiskLogHandler"
  have fm: "lh_file_manager ?h1 = lh_file_manager h"
    using sort_log_keys [OF fi keys] cap by (simp add: DiskLogHandler_init_def)
  have all: "\<forall>f\<in>set (list_files (lh_file_manager h) 0). sorted (map entry_lsn (D f)) \<and> (\<forall>e\<in>set (D f). good_entry e) \<and>
      (\<exists>bs. d f = concat (map entry_bytes (D f)) @ bs \<and> length bs < 16)"
    using written_parts [OF run] d by (auto simp: list_files_def)
  have "filter (\<lambda>e. 0 \<le> entry_lsn e) (written D h) = written D h"
    using lsn_run_bounds [OF run] by (intro filter_True) fastforce
  then have "log_iterate (replay_callback replayer) 0 ?h1 (0, s) =
      Some (SUCCESS, int (length (written D h)), s')"
    using iterate_files_sorted [OF all, of "replay_callback replayer" 0 "(0, s)"] filter_listed [OF fi, of 0]
      read_entries_replay_callback [OF rp, of 0] fold_max_lsn_run [OF run]
    by (simp add: log_iterate_def fm) (simp add: DiskLogHandler_init_def)
  then show ?thesis
    using fm by (auto simp: log_replay_def LogEntryBuffer_init_def DiskLogHandler_init_def LogEntryBuffer_new_def)
qed

section \<open>Interleaving of appends and the flushing thread\<close>

text \<open>
  Runs of a handler that starts on an empty directory: clients append, the thread makes passes
  in which opening a file and each write succeed or fail as the operating system decides, the
  handler is stopped. The list holds the entries of the successful appends, in their order.
  \<open>torn\<close> is whether a failed write may leave a part of the entry in the file.
\<close>

inductive log_reach ::
    "bool \<Rightarrow> RC \<Rightarrow> LogFileWriter \<Rightarrow> byte list DiskLogHandler \<Rightarrow> byte list LogEntry list \<Rightarrow> bool" where
  reach_start: "log_start (DiskLogHandler_init [] (\<lambda>_. [])) = (SUCCESS, h) \<Longrightarrow>
     log_reach torn SUCCESS LogFileWriter_new h []"
| reach_append: "log_reach torn rc w h es \<Longrightarrow> d \<noteq> [] \<Longrightarrow> module_known m \<Longrightarrow>
     disk_append 0 m (int (length d)) d h = Some (SUCCESS, l, h') \<Longrightarrow> lsn_fits h' \<Longrightarrow>
     log_reach torn rc w h' (es @ [\<lparr>le_header = \<lparr>h_lsn = l, h_size = int (length d), h_module_id = m\<rparr>, le_data = d\<rparr>])"
| reach_pass: "log_reach torn rc w h es \<Longrightarrow> lh_running h \<or> 0 < entry_number (lh_entry_buffer h) \<Longrightarrow>
     torn \<or> (\<forall>k. untorn (io k)) \<Longrightarrow>
     thread_step op io (rc, w, h) = Some (rc', w', h') \<Longrightarrow> log_reach torn rc' w' h' es"
| reach_stop: "log_reach torn rc w h es \<Longrightarrow> log_stop h = (rc', h') \<Longrightarrow> log_reach torn rc w h' es"

lemma disk_append_SuccessD:
  assumes "disk_append l0 m n d h = Some (SUCCESS, l, h')"
  shows "l = lb_current_lsn (lh_entry_buffer h) + 1" "n \<le> max_payload_size"
    "buffered h' = buffered h @ [\<lparr>le_header = \<lparr>h_lsn = l, h_size = n, h_module_id = m\<rparr>, le_data = d\<rparr>]"
    "lb_current_lsn (lh_entry_buffer h') = l" "flushed h' = flushed h"
    "lh_file_manager h' = lh_file_manager h" "lh_disk h' = lh_disk h"
  using assms
  by (auto simp: disk_append_def LogEntryBuffer_append_def LogEntry_init_def set_lsn_def Let_def
      split: if_splits bind_splits)

lemma pending_append: "pending lim p es \<Longrightarrow> pending lim p (es @ es')"
  by (auto simp: pending_def)

lemma disk_append_log_inv:
  assumes inv: "log_inv torn D h" and d: "d \<noteq> []" "module_known m" "lsn_fits h'"
    and ap: "disk_append l0 m (int (length d)) d h = Some (SUCCESS, l, h')"
  shows "log_inv torn D h'" "written D h' = written D h" "writer_inv rc w h \<Longrightarrow> writer_inv rc w h'"
proof -
  note a = disk_append_SuccessD [OF ap]
  let ?e = "\<lparr>le_header = \<lparr>h_lsn = l, h_size = int (length d), h_module_id = m\<rparr>, le_data = d\<rparr>"
  from inv have fi: "files_inv D h" and dk: "disk_ok torn D h"
    and cur: "lb_current_lsn (lh_entry_buffer h) = flushed h + int (length (buffered h))"
    and fl: "flushed h = int (length (written D h))"
    unfolding log_inv_def by blast+
  show w: "written D h' = written D h" by (simp add: written_def a)
  have "l \<le> INT32_MAX" "0 < l" using d(3) fi cur fl a by (simp_all add: lsn_fits_def files_inv_def)
  then have "good_entry ?e"
    using a(2) d by (simp add: good_entry_def payload_size_def int64_range_def INT32_MAX_def)
  moreover have "disk_ok torn D h'"
    unfolding disk_ok_def a using dk pending_append by (fastforce simp: disk_ok_def)
  moreover have "files_inv D h'" using fi by (simp add: files_inv_def a)
  ultimately show "log_inv torn D h'"
    using inv a w cur by (auto simp: log_inv_def lsn_run_append)
  show "writer_inv rc w h \<Longrightarrow> writer_inv rc w h'"
    using a by (auto simp: writer_inv_def split: option.splits)
qed

lemma running_unchanged [simp]:
  "written D (h\<lparr>lh_running := b\<rparr>) = written D h" "files_inv D (h\<lparr>lh_running := b\<rparr>) \<longleftrightarrow> files_inv D h"
  "log_inv torn D (h\<lparr>lh_running := b\<rparr>) \<longleftrightarrow> log_inv torn D h" "lsn_fits (h\<lparr>lh_running := b\<rparr>) \<longleftrightarrow> lsn_fits h"
  "writer_inv rc w (h\<lparr>lh_running := b\<rparr>) \<longleftrightarrow> writer_inv rc w h"
proof -
  show w: "written D (h\<lparr>lh_running := b\<rparr>) = written D h" by (simp add: written_def)
  show f: "files_inv D (h\<lparr>lh_running := b\<rparr>) \<longleftrightarrow> files_inv D h" by (simp add: files_inv_def)
  have "disk_ok torn D (h\<lparr>lh_running := b\<rparr>) \<longleftrightarrow> disk_ok torn D h" by (simp add: disk_ok_def)
  then show "log_inv torn D (h\<lparr>lh_running := b\<rparr>) \<longleftrightarrow> log_inv torn D h" unfolding log_inv_def w f by simp
qed (simp_all add: lsn_fits_def writer_inv_def split: option.splits)

lemma log_reach_inv:
  assumes "log_reach torn rc w h es"
  shows "\<exists>D. log_inv torn D h \<and> lsn_fits h \<and> writer_inv rc w h \<and> written D h @ buffered h = es \<and>
    file_cap h = max_entry_number_default"
  using assms
proof induction
  case (reach_start h torn)
  then have "h = (DiskLogHandler_init [] (\<lambda>_. []))\<lparr>lh_running := True, lh_thread := True\<rparr>"
    by (simp add: log_start_def DiskLogHandler_init_def)
  then show ?case
    by (intro exI [of _ "\<lambda>_. []"])
       (simp add: DiskLogHandler_init_def LogEntryBuffer_new_def log_inv_def files_inv_def disk_ok_def
        lsn_fits_def writer_inv_def LogFileWriter_new_def max_entry_number_default_def INT32_MAX_def
        written_def)
next
  case (reach_append torn rc w h es d m l h')
  then obtain D where D: "log_inv torn D h" "writer_inv rc w h" "written D h @ buffered h = es"
    "file_cap h = max_entry_number_default" by blast
  show ?case
    using disk_append_log_inv [OF D(1) reach_append.hyps(2,3,5,4)] disk_append_SuccessD [OF reach_append.hyps(4)] D
      reach_append.hyps(5) by (intro exI [of _ D]) auto
next
  case (reach_pass torn rc w h es io op rc' w' h')
  then obtain D where D: "log_inv torn D h" "lsn_fits h" "writer_inv rc w h" "written D h @ buffered h = es"
    "file_cap h = max_entry_number_default" by blast
  from thread_step_ok [OF D(1-3) reach_pass.hyps(3), of op] reach_pass.hyps(4) obtain pre D' where
    "log_inv torn D' h'" "lsn_fits h'" "writer_inv rc' w' h'" "buffered h = pre @ buffered h'"
    "written D' h' = written D h @ pre" "file_cap h' = file_cap h" by auto
  with D show ?case by (intro exI [of _ D']) auto
next
  case (reach_stop torn rc w h es rc' h')
  then have "h' = h \<or> h' = h\<lparr>lh_running := False\<rparr>" by (auto simp: log_stop_def split: if_splits)
  with reach_stop.IH show ?case by auto
qed

section \<open>What the files hold\<close>

text \<open>
  The files hold the entries \<open>es\<close>: every one whole, in order; else there are only remains of
  failed writes, each a proper prefix of the entry that comes next, at the end of the last file
  of the first buffered entry.
\<close>

definition log_files_hold :: "byte list DiskLogHandler \<Rightarrow> byte list LogEntry list \<Rightarrow> bool" where
  "log_files_hold h es \<longleftrightarrow> (\<exists>D. es = concat (map D (log_keys h)) \<and>
     (\<forall>f\<in>set (log_keys h). \<exists>p. file_holds (D f) p (lh_disk h f) \<and>
        (p \<noteq> None \<longrightarrow> f = last (log_keys h) \<and> buffered h \<noteq> [] \<and> p = Some (hd (buffered h)))))"

definition log_bytes :: "log_disk \<Rightarrow> LSN list \<Rightarrow> byte list" where
  "log_bytes d keys = concat (map d keys)"

lemma concat_map_concat: "concat (map (\<lambda>x. concat (map g (D x))) xs) = concat (map g (concat (map D xs)))"
  by (induction xs) auto

lemma log_inv_hold: "log_inv torn D h \<Longrightarrow> log_files_hold h (written D h)"
  unfolding log_inv_def log_files_hold_def disk_ok_def written_def pending_def
  by (intro exI [of _ D]) fastforce

lemma log_inv_bytes:
  assumes "log_inv False D h"
  shows "log_bytes (lh_disk h) (log_keys h) = concat (map entry_bytes (written D h))"
proof -
  have "map (lh_disk h) (log_keys h) = map (\<lambda>f. concat (map entry_bytes (D f))) (log_keys h)"
    using assms by (auto simp: log_inv_def disk_ok_def)
  then show ?thesis unfolding log_bytes_def written_def by (simp only: concat_map_concat)
qed

lemma log_reach_hold:
  assumes "log_reach torn rc w h es"
  obtains ws where "es = ws @ buffered h" "log_files_hold h ws" "lsn_run 0 es" "flushed h = int (length ws)"
    "\<not> torn \<Longrightarrow> log_bytes (lh_disk h) (log_keys h) = concat (map entry_bytes ws)"
proof -
  from log_reach_inv [OF assms] obtain D where D: "log_inv torn D h" "written D h @ buffered h = es" by blast
  have "lsn_run 0 es" using D(1) unfolding D(2) [symmetric] by (auto simp: log_inv_def lsn_run_append)
  with D show thesis
    by (intro that [of "written D h"]) (auto simp: log_inv_hold log_inv_def intro: log_inv_bytes)
qed

section \<open>Properties\<close>

abbreviation example_entry :: "byte list LogEntry" where
  "example_entry \<equiv> \<lparr>le_header = \<lparr>h_lsn = 1, h_size = 8, h_module_id = TRANSACTION\<rparr>, le_data = replicate 8 7\<rparr>"

text \<open>A run in which one entry was appended.\<close>

lemma log_reach_appended:
  "\<exists>h. log_reach torn SUCCESS LogFileWriter_new h [example_entry] \<and> lh_running h \<and> lh_thread h \<and>
     buffered h = [example_entry] \<and> log_keys h = [] \<and> file_cap h = max_entry_number_default \<and>
     lb_current_lsn (lh_entry_buffer h) = 1"
proof -
  obtain h0 :: "byte list DiskLogHandler" where h0: "log_start (DiskLogHandler_init [] (\<lambda>_. [])) = (SUCCESS, h0)"
    and r: "lh_running h0" "lh_thread h0" "lh_entry_buffer h0 = LogEntryBuffer_new" "log_keys h0 = []"
      "file_cap h0 = max_entry_number_default"
    by (simp add: log_start_def DiskLogHandler_init_def)
  have d: "(replicate 8 7 :: byte list) \<noteq> []" "module_known TRANSACTION" by simp_all
  obtain h1 where h1: "disk_append 0 TRANSACTION (int (length (replicate 8 7 :: byte list))) (replicate 8 7) h0 = Some (SUCCESS, 1, h1)"
    and h1': "file_cap h1 = max_entry_number_default" "log_keys h1 = []" "lh_running h1" "lh_thread h1"
      "lb_current_lsn (lh_entry_buffer h1) = 1" "buffered h1 = [example_entry]"
    by (simp add: disk_append_def r LogEntryBuffer_append_eq LogEntryBuffer_new_def max_payload_size_def
        LogEntry_max_size_def LogHeader_SIZE_def)
  have fits: "lsn_fits h1" by (simp add: lsn_fits_def h1' max_entry_number_default_def INT32_MAX_def)
  from log_reach.reach_append [OF log_reach.reach_start [OF h0] d h1 fits] h1' show ?thesis by auto
qed

lemma log_reach_stopped:
  "\<exists>h. log_reach torn SUCCESS LogFileWriter_new h [example_entry] \<and> \<not> lh_running h \<and>
     buffered h = [example_entry] \<and> log_keys h = []"
proof -
  from log_reach_appended obtain h where
    h: "log_reach torn SUCCESS LogFileWriter_new h [example_entry]" "lh_thread h" "buffered h = [example_entry]" "log_keys h = []"
    by blast
  from log_reach.reach_stop [OF h(1), of SUCCESS "h\<lparr>lh_running := False\<rparr>"] h(2-4) show ?thesis
    by (intro exI [of _ "h\<lparr>lh_running := False\<rparr>"]) (simp add: log_stop_def)
qed

text \<open>The entry after a pass whose writes succeed.\<close>

lemma log_reach_flushed:
  "\<exists>rc w h. log_reach torn rc w h [example_entry] \<and> lh_running h \<and> buffered h = []"
proof -
  from log_reach_appended obtain h where
    h: "log_reach torn SUCCESS LogFileWriter_new h [example_entry]" "lh_running h" "buffered h = [example_entry]" by blast
  let ?io = "\<lambda>_. (Complete, Complete)"
  have pass: "\<exists>rc' w' h'. log_reach torn rc' w' h' [example_entry] \<and> lh_running h' \<and> (buffered h' = [] \<or>
      buffered h' = [example_entry] \<and> rc' = LOG_FILE_FULL \<and> rc \<noteq> LOG_FILE_FULL)"
    if r: "log_reach torn rc w h [example_entry]" "lh_running h" "buffered h = [example_entry]" for rc w h
  proof -
    from log_reach_inv [OF r(1)] obtain D where D: "log_inv torn D h" "lsn_fits h" "writer_inv rc w h" by blast
    have io: "torn \<or> (\<forall>k::nat. untorn (?io k))" by simp
    from thread_step_ok [OF D io, of True] obtain rc' w' h' pre where
      s: "thread_step True ?io (rc, w, h) = Some (rc', w', h')" "buffered h = pre @ buffered h'"
        "lh_running h' = lh_running h" "rc' = SUCCESS \<longrightarrow> buffered h' = []" "rc' = SUCCESS \<or> rc' = LOG_FILE_FULL"
        "rc = LOG_FILE_FULL \<longrightarrow> rc' = LOG_FILE_FULL \<longrightarrow> pre \<noteq> []" by auto
    have "log_reach torn rc' w' h' [example_entry]" by (rule log_reach.reach_pass [OF r(1) _ io s(1)]) (simp add: r(2))
    with s r show ?thesis by (cases pre) auto
  qed
  from pass [OF h] pass show ?thesis by metis
qed

text \<open>
  C1. Whatever the interleaving of appends and passes of the flushing thread, whichever calls
  of the operating system fail and whatever part of a header or payload a failed write leaves:
  the files hold whole entries \<open>ws\<close>, in order, and the rest of the entries appended are in the
  buffer; between the whole entries stand only proper prefixes of the entry that comes next. The
  LSNs are 1, 2, \<open>\<dots>\<close>, and \<open>flushed_lsn_\<close> is that of the last whole entry. When failed writes leave
  nothing, the bytes of the files are those of the entries.
\<close>

theorem clog_no_loss:
  assumes "log_reach torn rc w h es"
  shows "\<exists>ws. es = ws @ buffered h \<and> log_files_hold h ws \<and> map entry_lsn es = [1..int (length es)] \<and>
    flushed h = int (length ws) \<and>
    (\<not> torn \<longrightarrow> log_bytes (lh_disk h) (log_keys h) = concat (map entry_bytes ws))"
proof -
  from log_reach_hold [OF assms] obtain ws where
    "es = ws @ buffered h" "log_files_hold h ws" "lsn_run 0 es" "flushed h = int (length ws)"
    "\<not> torn \<longrightarrow> log_bytes (lh_disk h) (log_keys h) = concat (map entry_bytes ws)" by blast
  then show ?thesis by (auto simp: lsn_run_def)
qed

text \<open>The payload of the first write fails after five bytes.\<close>

theorem clog_no_loss_witness:
  "\<exists>rc w h. log_reach True rc w h [example_entry] \<and> rc = IOERR_WRITE \<and> length (lh_disk h 0) = 21 \<and>
    log_files_hold h [] \<and> buffered h = [example_entry]"
proof -
  from log_reach_appended obtain h where
    h: "log_reach True SUCCESS LogFileWriter_new h [example_entry]" "lh_running h" "buffered h = [example_entry]"
      "log_keys h = []" "file_cap h = max_entry_number_default" by blast
  from log_reach_inv [OF h(1)] obtain D where D: "log_inv True D h" by blast
  then have z: "lh_disk h 0 = []" "flushed h = 0"
    using h(3,4) by (auto simp: log_inv_def disk_ok_def written_def)
  let ?io = "\<lambda>_. (Complete, Fails_after 5)"
  obtain w' h' where s: "thread_step True ?io (SUCCESS, LogFileWriter_new, h) = Some (IOERR_WRITE, w', h')"
    "length (lh_disk h' 0) = 21" "buffered h' = [example_entry]"
    using h(3-5) z(1)
    by (simp add: thread_step_def writer_valid_def LogFileWriter_new_def last_file_def next_file_def writer_close_def
        writer_open_def Let_def flush_def flush_loop.simps payload_size_def writer_write_def EIO_def
        max_entry_number_default_def to_int32_def)
  have r: "log_reach True IOERR_WRITE w' h' [example_entry]"
    by (rule log_reach.reach_pass [OF h(1) _ _ s(1)]) (simp_all add: h(2))
  from clog_no_loss [OF r] s r show ?thesis by auto
qed

text \<open>
  C10. Once the handler is stopped and writes succeed, the flushing thread ends, and every
  appended entry is then whole in the log files, whatever failed before; nothing else is in
  them when the writes that failed left nothing.
\<close>

theorem clog_drain:
  assumes "log_reach torn rc w h es" "\<not> lh_running h" "\<forall>k. io k = (Complete, Complete)"
  shows "\<exists>rc' w' h'. thread_loop True io (rc, w, h) = Some (rc', w', h') \<and> buffered h' = [] \<and>
    log_files_hold h' es \<and>
    (\<not> torn \<longrightarrow> log_bytes (lh_disk h') (log_keys h') = concat (map entry_bytes es))"
proof -
  from log_reach_inv [OF assms(1)] obtain D where
    D: "log_inv torn D h" "lsn_fits h" "writer_inv rc w h" "written D h @ buffered h = es" by blast
  from thread_loop_drains [OF D(1-3) assms(3,2)] obtain rc' w' h' D' where
    l: "thread_loop True io (rc, w, h) = Some (rc', w', h')" "log_inv torn D' h'" "buffered h' = []" "written D' h' = es"
    using D(4) by auto
  from l(1,3) log_inv_hold [OF l(2)] log_inv_bytes [of D' h'] l(2) show ?thesis unfolding l(4) by auto
qed

theorem clog_drain_witness:
  "\<exists>w h rc' w' h'. thread_loop True (\<lambda>_. (Complete, Complete)) (SUCCESS, w, h) = Some (rc', w', h') \<and>
    log_keys h = [] \<and> log_bytes (lh_disk h') (log_keys h') = entry_bytes example_entry"
proof -
  from log_reach_stopped obtain h where
    h: "log_reach False SUCCESS LogFileWriter_new h [example_entry]" "\<not> lh_running h" "log_keys h = []" by blast
  from clog_drain [OF h(1,2), of "\<lambda>_. (Complete, Complete)"] h(3) show ?thesis by force
qed

text \<open>
  C11. Restart: when failed writes left nothing and a new handler is initialised on the directory
  of a run and replays from LSN 0, the replayer sees exactly the written entries in append
  order, read from the bytes of the files, and the next LSN handed out follows the last written one.
\<close>

theorem clog_restart:
  assumes "log_reach False rc w h es" "set keys = set (log_keys h)" "es = ws @ buffered h"
    and "read_entries replayer ws s = Some (SUCCESS, s')"
  shows "\<exists>h2. log_replay replayer 0 (DiskLogHandler_init keys (lh_disk h)) s = Some (SUCCESS, h2, s') \<and>
    lh_disk h2 = lh_disk h \<and> log_keys h2 = log_keys h \<and> lb_current_lsn (lh_entry_buffer h2) = int (length ws)"
proof -
  from log_reach_inv [OF assms(1)] obtain D where
    D: "log_inv False D h" "written D h = ws" "file_cap h = max_entry_number_default"
    using assms(3) by auto
  then have "files_inv D h" "lsn_run 0 (written D h)" "disk_ok False D h" unfolding log_inv_def by blast+
  moreover from this(3) have "\<forall>f\<in>set (log_keys h). \<exists>bs. lh_disk h f = concat (map entry_bytes (D f)) @ bs \<and> length bs < 16"
    by (auto simp: disk_ok_def)
  ultimately show ?thesis
    using restart_replay [of D h keys "lh_disk h" replayer s s'] D(2,3) assms(2,4) by auto
qed

theorem clog_restart_witness:
  "\<exists>(h :: byte list DiskLogHandler) h2. log_replay (\<lambda>e s. Some (SUCCESS, s @ [e])) 0
      (DiskLogHandler_init (log_keys h) (lh_disk h)) [] = Some (SUCCESS, h2, [example_entry]) \<and>
    lb_current_lsn (lh_entry_buffer h2) = 1"
proof -
  from log_reach_flushed obtain rc w h where
    r: "log_reach False rc w h [example_entry]" and b: "buffered h = []" by blast
  have e: "[example_entry] = [example_entry] @ buffered h" by (simp add: b)
  have "read_entries (\<lambda>e s. Some (SUCCESS, s @ [e])) [example_entry] [] = Some (SUCCESS, [example_entry])"
    by (simp add: size_invalid_def size_bad_def size_limits)
  from clog_restart [OF r refl e this] obtain h2 where
    "log_replay (\<lambda>e s. Some (SUCCESS, s @ [e])) 0 (DiskLogHandler_init (log_keys h) (lh_disk h)) [] =
      Some (SUCCESS, h2, [example_entry])" "lb_current_lsn (lh_entry_buffer h2) = 1" by auto
  then show ?thesis by blast
qed

text \<open>
  C12. Durability: when \<open>wait_lsn(l)\<close> succeeds, the entry with LSN \<open>l\<close> is whole in the log files;
  and when failed writes left nothing, iterating from \<open>l\<close> reads it first and then the later ones.
\<close>

theorem wait_lsn_durable:
  assumes "log_reach torn rc w h es" "wait_lsn l h = Some SUCCESS" "1 \<le> l"
  shows "\<exists>ws pre e rest. es = ws @ buffered h \<and> log_files_hold h ws \<and> ws = pre @ e # rest \<and> entry_lsn e = l \<and>
    (\<not> torn \<longrightarrow> log_iterate cb l h s = read_entries cb (e # rest) s)"
proof -
  from log_reach_inv [OF assms(1)] obtain D where inv: "log_inv torn D h" "written D h @ buffered h = es" by blast
  let ?ws = "written D h"
  from inv(1) have run: "lsn_run 0 ?ws" and fl: "flushed h = int (length ?ws)"
    by (auto simp: log_inv_def)
  define k where "k = nat (l - 1)"
  have "l \<le> flushed h" using assms(2) by (auto simp: wait_lsn_def split: if_splits)
  then have k: "k < length ?ws" using fl assms(3) by (simp add: k_def)
  have split: "?ws = take k ?ws @ (?ws ! k) # drop (Suc k) ?ws"
    by (rule id_take_nth_drop [OF k])
  have runs: "lsn_run 0 (take k ?ws)" "entry_lsn (?ws ! k) = int k + 1" "lsn_run (int k + 1) (drop (Suc k) ?ws)"
    using run k by (subst (asm) (1) split, simp add: lsn_run_append)+
  have l: "l = int k + 1" using assms(3) by (simp add: k_def)
  have "filter (\<lambda>e. l \<le> entry_lsn e) (take k ?ws) = []"
    using lsn_run_bounds [OF runs(1)] k by (fastforce simp: l filter_empty_conv)
  moreover have "filter (\<lambda>e. l \<le> entry_lsn e) (drop (Suc k) ?ws) = drop (Suc k) ?ws"
    using lsn_run_bounds [OF runs(3)] by (intro filter_True) (fastforce simp: l)
  ultimately have "filter (\<lambda>e. l \<le> entry_lsn e) ?ws = (?ws ! k) # drop (Suc k) ?ws"
    using runs(2) l by (subst split) simp
  then have "\<not> torn \<longrightarrow> log_iterate cb l h s = read_entries cb ((?ws ! k) # drop (Suc k) ?ws) s"
    using log_iterate_written [of D h cb l s] inv(1) by (cases torn) simp_all
  with split runs(2) l inv log_inv_hold [OF inv(1)] show ?thesis
    by (intro exI [of _ ?ws] exI [of _ "take k ?ws"] exI [of _ "?ws ! k"] exI [of _ "drop (Suc k) ?ws"]) simp
qed

theorem wait_lsn_durable_witness:
  "\<exists>h. wait_lsn 1 h = Some SUCCESS \<and>
    log_iterate (\<lambda>e s. Some (SUCCESS, s @ [e])) 1 h [] = Some (SUCCESS, [example_entry])"
proof -
  from log_reach_flushed obtain rc w h where
    r: "log_reach False rc w h [example_entry]" and b: "buffered h = []" by blast
  from log_reach_inv [OF r] b have "flushed h = 1" by (auto simp: log_inv_def)
  then have wt: "wait_lsn 1 h = Some SUCCESS" by (simp add: wait_lsn_def)
  from wait_lsn_durable [OF r wt, of "\<lambda>e s. Some (SUCCESS, s @ [e])" "[]"] b obtain pre e rest where
    "[example_entry] = pre @ e # rest"
    "log_iterate (\<lambda>e s. Some (SUCCESS, s @ [e])) 1 h [] = read_entries (\<lambda>e s. Some (SUCCESS, s @ [e])) (e # rest) []"
    by auto
  then have "log_iterate (\<lambda>e s. Some (SUCCESS, s @ [e])) 1 h [] = Some (SUCCESS, [example_entry])"
    by (cases pre) (auto simp: size_invalid_def size_bad_def size_limits)
  with wt show ?thesis by blast
qed

text \<open>
  C31. \<open>append\<close> adds to \<open>bytes_\<close> only the size of a header, because it asks the entry for its size
  after moving it away, while \<open>flush\<close> subtracts the whole size: each entry that goes through
  the buffer lowers \<open>bytes_\<close> by its payload size, so the limit on buffered bytes is lost.
\<close>

theorem log_buffer_bytes_drift:
  assumes "lb_bytes b < lb_max_bytes b" "0 < n" "n \<le> max_payload_size" "lb_entries b = []"
    and "w_file w = Some f" "0 \<le> lb_current_lsn b" "w_last_lsn w \<le> lb_current_lsn b" "lb_current_lsn b < w_end_lsn w"
  shows "\<exists>b1 b2 w2 dk2. LogEntryBuffer_append 0 m n d b = Some (SUCCESS, lb_current_lsn b + 1, b1) \<and>
    flush (\<lambda>_. (Complete, Complete)) b1 w dk = Some (SUCCESS, 1, b2, w2, dk2) \<and> lb_entries b2 = [] \<and>
    lb_bytes b2 = lb_bytes b - n"
  using assms
  by (auto simp: LogEntryBuffer_append_eq flush_def flush_loop.simps writer_write_def payload_size_def
      total_size_def)

theorem log_buffer_bytes_drift_witness:
  "\<exists>b1 b2 w2 dk2. LogEntryBuffer_append 0 TRANSACTION 100 (replicate 100 7) LogEntryBuffer_new = Some (SUCCESS, 1, b1) \<and>
    flush (\<lambda>_. (Complete, Complete)) b1 \<lparr>w_file = Some 0, w_last_lsn = 0, w_end_lsn = 999\<rparr> (\<lambda>_. []) = Some (SUCCESS, 1, b2, w2, dk2) \<and>
    lb_bytes b2 = -100"
  using log_buffer_bytes_drift [of "LogEntryBuffer_new" 100 "\<lparr>w_file = Some 0, w_last_lsn = 0, w_end_lsn = 999\<rparr>" 0 TRANSACTION "replicate 100 7" "\<lambda>_. []"]
  by (auto simp: LogEntryBuffer_new_def max_payload_size_def LogEntry_max_size_def LogHeader_SIZE_def)

section \<open>Torn writes\<close>

text \<open>Reading what a write cut off left at the end of a file.\<close>

lemma read_part:
  assumes "good_entry e" "16 \<le> k" "k < length (entry_bytes e)"
  shows "iterate_loop cb (take k (entry_bytes e)) s = Some (IOERR_READ, s)"
    "start \<le> entry_lsn e \<Longrightarrow> skip_to start (take k (entry_bytes e)) = (SUCCESS, take k (entry_bytes e))"
proof -
  have t: "take k (entry_bytes e) = header_bytes (le_header e) @ take (k - 16) (le_data e)"
    using assms(2) by (simp add: entry_bytes_eq [OF assms(1)])
  have l: "k - 16 < length (le_data e)"
    using assms(2,3) by (simp add: entry_bytes_eq [OF assms(1)])
  show "iterate_loop cb (take k (entry_bytes e)) s = Some (IOERR_READ, s)"
    unfolding t using l good_entry_header(2) [OF assms(1)] good_entry_valid(1) [OF assms(1)] entry_bytes_eq(2) [OF assms(1)]
    by (subst iterate_loop.simps) (simp add: size_limits Let_def)
  show "skip_to start (take k (entry_bytes e)) = (SUCCESS, take k (entry_bytes e))" if "start \<le> entry_lsn e"
    unfolding t using that good_entry_header(2) [OF assms(1)]
    by (subst skip_to.simps) (simp add: size_limits Let_def)
qed

lemma file_iterate_part:
  assumes "\<forall>e\<in>set es. good_entry e" "sorted (map entry_lsn es)" "\<forall>e\<in>set es. start \<le> entry_lsn e"
    and e: "good_entry e" "16 \<le> k" "k < length (entry_bytes e)" "start \<le> entry_lsn e"
    and r: "read_entries cb es s = Some (SUCCESS, s')"
  shows "file_iterate cb start (concat (map entry_bytes es) @ take k (entry_bytes e)) s = Some (IOERR_READ, s')"
proof -
  have f: "filter (\<lambda>e. start \<le> entry_lsn e) es = es" using assms(3) by (intro filter_True) simp
  show ?thesis
    unfolding file_iterate_entries [OF assms(1,2)] f
    using r read_part(1) [OF e(1-3)] read_part(2) [OF e]
    by (cases "es = []") (auto simp: file_iterate_def)
qed

lemma iterate_files_append:
  "iterate_files cb start d (fs @ gs) s = do {
     (rc, s') \<leftarrow> iterate_files cb start d fs s;
     if OB_FAIL rc then Some (rc, s') else iterate_files cb start d gs s'
   }"
  by (induction fs arbitrary: s) (auto split: option.splits bind_splits)

lemma log_keys_distinct: "files_inv D h \<Longrightarrow> distinct (log_keys h)"
proof -
  assume fi: "files_inv D h"
  then have "log_keys h = map (\<lambda>i. int i * file_cap h) [0..<file_cnt h]" "0 < file_cap h" by (simp_all add: files_inv_def)
  then show ?thesis by (metis (no_types, lifting) distinct_map distinct_upt inj_onI mult_cancel_right of_nat_eq_iff less_irrefl)
qed

text \<open>What a flush leaves that stops because a write failed: \<open>k\<close> bytes of the next entry.\<close>

definition torn_disk :: "log_view \<Rightarrow> byte list DiskLogHandler \<Rightarrow> byte list LogEntry \<Rightarrow> nat \<Rightarrow> log_disk \<Rightarrow> bool" where
  "torn_disk D h e k d \<longleftrightarrow> files_inv D h \<and> file_cap h = max_entry_number_default \<and> log_keys h \<noteq> [] \<and>
     k < length (entry_bytes e) \<and>
     (\<forall>f\<in>set (log_keys h). d f = concat (map entry_bytes (D f)) @
        (if f = last (log_keys h) then take k (entry_bytes e) else []))"

lemma flush_torn:
  assumes r: "log_reach False rc w h es"
    and fl: "flush io (lh_entry_buffer h) w (lh_disk h) = Some (IOERR_WRITE, n, b, w', d)"
    and es: "es = ws @ lb_entries b"
  shows "\<exists>D k. torn_disk D h (hd (lb_entries b)) k d \<and> ws = written D h \<and> lsn_run 0 es \<and> lb_entries b \<noteq> [] \<and>
    w_file w' = Some (last (log_keys h)) \<and> w_last_lsn w' < entry_lsn (hd (lb_entries b)) \<and>
    entry_lsn (hd (lb_entries b)) \<le> w_end_lsn w' \<and> entry_lsn (hd (lb_entries b)) = lb_flushed_lsn b + 1 \<and> int (length es) \<le> INT32_MAX"
proof -
  from log_reach_inv [OF r] obtain D where D: "log_inv False D h" "lsn_fits h" "writer_inv rc w h"
    "written D h @ buffered h = es" "file_cap h = max_entry_number_default" by blast
  from D(1) have fi: "files_inv D h" and dk: "disk_ok False D h" and run: "lsn_run (flushed h) (buffered h)"
    and fl0: "flushed h = int (length (written D h))" and run0: "lsn_run 0 (written D h)"
    and cur: "lb_current_lsn (lh_entry_buffer h) = flushed h + int (length (buffered h))"
    unfolding log_inv_def by blast+
  have "w_file w \<noteq> None"
  proof
    assume "w_file w = None"
    then show False
      using fl by (auto simp: flush_def flush_loop.simps writer_write_def Let_def split: list.splits if_splits)
  qed
  with D(3) obtain f where f: "w_file w = Some f" "f = (int (file_cnt h) - 1) * file_cap h" "0 < file_cnt h"
    "w_last_lsn w \<le> flushed h" "w_end_lsn w = int (file_cnt h) * file_cap h - 1"
    by (auto simp: writer_inv_def split: option.splits)
  have lf: "last (log_keys h) = f" using last_log_file [OF fi f(3)] f(2) by simp
  have i32: "flushed h + int (length (buffered h)) \<le> INT32_MAX"
    using D(2) cur fi by (simp add: lsn_fits_def files_inv_def)
  from flush_loop_spec [OF f(1) run _ f(4) i32, of io 0 "lh_disk h"] fl0 fl obtain pre suf bs where
    s: "d = (lh_disk h)(f := bs)" "flushed_to (lh_entry_buffer h) w f pre suf IOERR_WRITE b w'"
      "flushed_file (\<forall>k. untorn (io k)) (w_end_lsn w) pre suf (lh_disk h f) bs"
    by (auto simp: flush_def)
  from s(2) have b: "buffered h = pre @ suf" "lb_entries b = suf" "suf \<noteq> []" "w_file w' = Some f" "w_end_lsn w' = w_end_lsn w"
    "w_last_lsn w' \<le> lb_flushed_lsn b" "lb_flushed_lsn b = flushed h + int (length pre)" "lb_flushed_lsn b + 1 \<le> w_end_lsn w"
    "\<forall>e\<in>set pre. entry_lsn e \<le> w_end_lsn w"
    by (auto simp: flushed_to_def)
  then obtain e suf' where e: "suf = e # suf'" by (cases suf) auto
  have lr: "lsn_run 0 es" using run run0 fl0 by (simp add: D(4) [symmetric] lsn_run_append)
  have le: "entry_lsn e = lb_flushed_lsn b + 1" "good_entry e" "lsn_run (flushed h) pre"
    using run b(1,7) by (auto simp: e lsn_run_append)
  have lo: "f - 1 \<le> flushed h" "flushed h \<le> int (file_cnt h) * file_cap h - 1" using fi f(2,3) by (auto simp: files_inv_def)
  let ?D = "D(f := D f @ pre)"
  have "files_inv ?D (h\<lparr>lh_entry_buffer := lh_entry_buffer h, lh_disk := d\<rparr>)"
    by (rule files_inv_disk_append [OF fi f(3,2)]) (use b(9) f(5) lsn_run_bounds [OF le(3)] lo in force)+
  then have fi': "files_inv ?D h" by (simp add: files_inv_def)
  have w: "ws = written ?D h"
    using written_disk_append [OF fi f(3,2), where pre = pre and b = "lh_entry_buffer h" and d = d] es D(4) b(1,2) by (simp add: written_def)
  have "0 < length (entry_bytes e)" using length_entry_bytes [OF le(2)] by simp
  with s(3) obtain k where k: "bs = lh_disk h f @ concat (map entry_bytes pre) @ take k (entry_bytes e)" "k < length (entry_bytes e)"
    unfolding flushed_file_def e by force
  have "torn_disk ?D h e k d"
    using fi' D(5) f(3) k dk by (auto simp: torn_disk_def lf s(1) disk_ok_def)
  moreover have "int (length es) \<le> INT32_MAX" using i32 fl0 by (simp add: D(4) [symmetric])
  ultimately show ?thesis
    using w lr b le lf by (intro exI [of _ ?D] exI [of _ k]) (auto simp: e)
qed

lemma torn_disk_bytes:
  assumes "torn_disk D h e k d"
  shows "log_bytes d (log_keys h) = concat (map entry_bytes (written D h)) @ take k (entry_bytes e)"
proof -
  let ?fs = "log_keys h"
  have fi: "files_inv D h" and ne: "?fs \<noteq> []" using assms by (auto simp: torn_disk_def)
  have fs: "?fs = butlast ?fs @ [last ?fs]" using ne by simp
  have nf: "last ?fs \<notin> set (butlast ?fs)" using log_keys_distinct [OF fi] fs by (metis distinct_append not_distinct_conv_prefix)
  have "d f = concat (map entry_bytes (D f))" if "f \<in> set (butlast ?fs)" for f
    using assms in_set_butlastD [OF that] nf that by (auto simp: torn_disk_def)
  then have "concat (map d (butlast ?fs)) = concat (map entry_bytes (concat (map D (butlast ?fs))))"
    unfolding concat_map_concat [symmetric] by (intro arg_cong [where f = concat]) simp
  moreover have "d (last ?fs) = concat (map entry_bytes (D (last ?fs))) @ take k (entry_bytes e)"
    using assms ne by (simp add: torn_disk_def)
  ultimately show ?thesis
    unfolding log_bytes_def written_def by (subst (1 2) fs) simp
qed

lemma torn_disk_replay:
  assumes td: "torn_disk D h e k d" and lw: "lsn_run 0 (written D h)" and e: "good_entry e" "0 \<le> entry_lsn e" "16 \<le> k"
    and keys: "set keys = set (log_keys h)" and r: "read_entries replayer (written D h) s = Some (SUCCESS, s')"
  shows "log_replay replayer 0 (DiskLogHandler_init keys d) s = Some (IOERR_READ, DiskLogHandler_init keys d, s')"
proof -
  let ?fs = "log_keys h" and ?cb = "replay_callback replayer"
  have fi: "files_inv D h" and ne: "?fs \<noteq> []" and cap: "file_cap h = max_entry_number_default"
    and k: "k < length (entry_bytes e)" using td by (auto simp: torn_disk_def)
  define f fs where "f = last ?fs" and "fs = butlast ?fs"
  have ks: "?fs = fs @ [f]" using ne by (simp add: f_def fs_def)
  have nf: "f \<notin> set fs" using log_keys_distinct [OF fi] ks by simp
  have w: "written D h = concat (map D fs) @ D f" by (simp add: written_def ks)
  have all: "\<forall>x\<in>set (written D h). 0 \<le> entry_lsn x" using lsn_run_bounds [OF lw] by fastforce
  obtain m where rd: "read_entries ?cb (concat (map D fs) @ D f) (0, s) = Some (SUCCESS, m, s')"
    using read_entries_replay_callback [OF r, of 0] by (auto simp: w)
  obtain t where r1: "read_entries ?cb (concat (map D fs)) (0, s) = Some (SUCCESS, t)"
    and r2: "read_entries ?cb (D f) t = Some (SUCCESS, m, s')"
    using rd by (auto simp: read_entries_append split: if_splits bind_splits)
  have part: "\<forall>g\<in>set fs. sorted (map entry_lsn (D g)) \<and> (\<forall>e\<in>set (D g). good_entry e) \<and>
      (\<exists>bs. d g = concat (map entry_bytes (D g)) @ bs \<and> length bs < 16)"
    using td written_parts [OF lw] nf by (auto simp: torn_disk_def ks)
  have "filter (\<lambda>e. 0 \<le> entry_lsn e) (concat (map D fs)) = concat (map D fs)"
    using all by (intro filter_True) (auto simp: w)
  with iterate_files_sorted [OF part, of ?cb 0 "(0, s)"] r1 have i1: "iterate_files ?cb 0 d fs (0, s) = Some (SUCCESS, t)" by simp
  have df: "d f = concat (map entry_bytes (D f)) @ take k (entry_bytes e)" using td by (simp add: torn_disk_def ks)
  have i2: "file_iterate ?cb 0 (d f) t = Some (IOERR_READ, m, s')"
    unfolding df by (rule file_iterate_part [OF _ _ _ e(1,3) k e(2) r2])
      (use written_parts [OF lw, of f] all in \<open>auto simp: w ks\<close>)
  have fm: "lh_file_manager (DiskLogHandler_init keys d :: byte list DiskLogHandler) = lh_file_manager h"
    using sort_log_keys [OF fi keys] cap by (simp add: DiskLogHandler_init_def)
  have lf: "list_files (lh_file_manager h) 0 = fs @ [f]"
    using fi unfolding list_files_def ks [symmetric]
    by (intro filter_True) (auto simp: log_keys_set [OF fi] files_inv_def max_entry_number_default_def cap)
  show ?thesis
    using i1 i2 by (simp add: log_replay_def log_iterate_def fm lf iterate_files_append) (simp add: DiskLogHandler_init_def)
qed

text \<open>
  C34. A crash in the middle of a write: after a flush that stopped at a failed write, the files
  hold the entries written before and \<open>k\<close> bytes of the next one. When only a part of its
  header is there, a restart replays the whole entries and goes on after them; when the header
  is complete, the replay hands over the whole entries and then fails with \<open>IOERR_READ\<close>, so the
  database does not start.
\<close>

theorem clog_torn_tail:
  assumes "log_reach False rc w h es"
    and "flush io (lh_entry_buffer h) w (lh_disk h) = Some (IOERR_WRITE, n, b, w', d)"
    and "es = ws @ lb_entries b" "set keys = set (log_keys h)"
    and "read_entries replayer ws s = Some (SUCCESS, s')"
  shows "\<exists>k<length (entry_bytes (hd (lb_entries b))).
    log_bytes d (log_keys h) = concat (map entry_bytes ws) @ take k (entry_bytes (hd (lb_entries b))) \<and>
    (if k < 16
     then \<exists>h2. log_replay replayer 0 (DiskLogHandler_init keys d) s = Some (SUCCESS, h2, s') \<and>
       lb_current_lsn (lh_entry_buffer h2) = int (length ws)
     else log_replay replayer 0 (DiskLogHandler_init keys d) s = Some (IOERR_READ, DiskLogHandler_init keys d, s'))"
proof -
  from flush_torn [OF assms(1-3)] obtain D k where
    td: "torn_disk D h (hd (lb_entries b)) k d" and ws: "ws = written D h" and lr: "lsn_run 0 es" and ne: "lb_entries b \<noteq> []"
    by blast
  define e where "e = hd (lb_entries b)"
  note td = td [folded e_def]
  have fi: "files_inv D h" and cap: "file_cap h = max_entry_number_default" and k: "k < length (entry_bytes e)"
    using td by (auto simp: torn_disk_def)
  have lw: "lsn_run 0 ws" and ge: "good_entry e" "0 \<le> entry_lsn e"
    using lr lsn_run_good [OF lr, of e] lsn_run_bounds [OF lr, of e] ne
    by (auto simp: assms(3) lsn_run_append e_def)
  have "log_bytes d (log_keys h) = concat (map entry_bytes ws) @ take k (entry_bytes e)"
    unfolding ws by (rule torn_disk_bytes [OF td])
  moreover have "\<exists>h2. log_replay replayer 0 (DiskLogHandler_init keys d) s = Some (SUCCESS, h2, s') \<and>
       lb_current_lsn (lh_entry_buffer h2) = int (length ws)" if "k < 16"
  proof -
    have "\<forall>f\<in>set (log_keys h). \<exists>bs. d f = concat (map entry_bytes (D f)) @ bs \<and> length bs < 16"
      using td that by (auto simp: torn_disk_def)
    from restart_replay [OF fi lw [unfolded ws] cap assms(4) this assms(5) [unfolded ws]] show ?thesis
      unfolding ws by blast
  qed
  moreover have "log_replay replayer 0 (DiskLogHandler_init keys d) s = Some (IOERR_READ, DiskLogHandler_init keys d, s')"
    if "16 \<le> k"
    by (rule torn_disk_replay [OF td lw [unfolded ws] ge that assms(4) assms(5) [unfolded ws]])
  ultimately show ?thesis using k by (intro exI [of _ k]) (simp add: e_def [symmetric])
qed

text \<open>A run whose only write so far failed with nothing written: the file is open and empty.\<close>

lemma log_reach_opened:
  "\<exists>w h. log_reach False IOERR_WRITE w h [example_entry] \<and> lh_running h \<and> buffered h = [example_entry] \<and>
     log_keys h = [0] \<and> lh_disk h = (\<lambda>_. []) \<and> w = \<lparr>w_file = Some 0, w_last_lsn = 0, w_end_lsn = 999\<rparr>"
proof -
  from log_reach_appended obtain h where
    h: "log_reach False SUCCESS LogFileWriter_new h [example_entry]" "lh_running h" "buffered h = [example_entry]"
      "log_keys h = []" "file_cap h = max_entry_number_default" by blast
  from log_reach_inv [OF h(1)] obtain D where D: "log_inv False D h" by blast
  then have z: "lh_disk h = (\<lambda>_. [])"
    using h(4) by (auto simp: log_inv_def disk_ok_def)
  let ?io = "\<lambda>_::nat. (Fails_after 0, Complete)" and ?w = "\<lparr>w_file = Some 0, w_last_lsn = 0, w_end_lsn = 999\<rparr>"
  obtain h' where s: "thread_step True ?io (SUCCESS, LogFileWriter_new, h) = Some (IOERR_WRITE, ?w, h')"
    "lh_disk h' = (\<lambda>_. [])" "buffered h' = [example_entry]" "log_keys h' = [0]" "lh_running h'"
    using h(2-5) z
    by (simp add: thread_step_def writer_valid_def LogFileWriter_new_def last_file_def next_file_def writer_close_def
        writer_open_def Let_def flush_def flush_loop.simps payload_size_def writer_write_def EIO_def
        max_entry_number_default_def to_int32_def fun_upd_idem)
  have "log_reach False IOERR_WRITE ?w h' [example_entry]"
    by (rule log_reach.reach_pass [OF h(1) _ _ s(1)]) (simp_all add: h(2))
  with s show ?thesis by blast
qed

theorem clog_torn_tail_witness:
  "\<exists>(h :: byte list DiskLogHandler) n b w' d. flush (\<lambda>_. (Complete, Fails_after 5)) (lh_entry_buffer h) \<lparr>w_file = Some 0, w_last_lsn = 0, w_end_lsn = 999\<rparr> (lh_disk h) =
      Some (IOERR_WRITE, n, b, w', d) \<and>
    log_replay (\<lambda>e s. Some (SUCCESS, s @ [e])) 0 (DiskLogHandler_init [0] d) [] = Some (IOERR_READ, DiskLogHandler_init [0] d, [])"
proof -
  let ?w = "\<lparr>w_file = Some 0, w_last_lsn = 0, w_end_lsn = 999\<rparr>" and ?io = "\<lambda>_::nat. (Complete, Fails_after 5)"
  from log_reach_opened obtain h where
    h: "log_reach False IOERR_WRITE ?w h [example_entry]" "buffered h = [example_entry]" "log_keys h = [0]" "lh_disk h = (\<lambda>_. [])"
    by blast
  obtain b d where f: "flush ?io (lh_entry_buffer h) ?w (lh_disk h) = Some (IOERR_WRITE, 0, b, ?w, d)"
    "lb_entries b = [example_entry]" "length (d 0) = 21"
    by (simp add: flush_def flush_loop.simps h(2,4) payload_size_def writer_write_def EIO_def)
  have es: "[example_entry] = [] @ lb_entries b" by (simp add: f(2))
  from clog_torn_tail [OF h(1) f(1) es, of "[0]" "\<lambda>e s. Some (SUCCESS, s @ [e])" "[]" "[]"] obtain k where
    k: "log_bytes d [0] = take k (entry_bytes example_entry)"
      "16 \<le> k \<longrightarrow> log_replay (\<lambda>e s. Some (SUCCESS, s @ [e])) 0 (DiskLogHandler_init [0] d) [] = Some (IOERR_READ, DiskLogHandler_init [0] d, [])"
    by (auto simp: h(3) f(2) split: if_splits)
  have "16 \<le> k" using arg_cong [OF k(1), of length] f(3) by (simp add: log_bytes_def min_def split: if_splits)
  with k(2) f(1) show ?thesis by blast
qed

text \<open>
  C35. The half-written entry the comment in \<open>LogFileWriter::write\<close> warns of: the write of an
  entry's header fails after the LSN, the flushing thread tries again and succeeds. Waiting for the
  entry reports it durable, but whoever reads the log from there gets, in its place, an error or
  an entry that nobody wrote: of the module \<open>BUFFER_POOL\<close>, with the LSN as its size and with the rest
  of the real header in front of its payload.
\<close>

theorem torn_header_misread:
  assumes "log_reach False rc w h es" "buffered h = [e]" "fst (io 0) = Fails_after 8"
    and "flush io (lh_entry_buffer h) w (lh_disk h) = Some (IOERR_WRITE, n, b1, w1, d1)"
  shows "\<exists>b2 w2 d2. flush (\<lambda>_. (Complete, Complete)) b1 w1 d1 = Some (SUCCESS, 1, b2, w2, d2) \<and>
    wait_lsn (entry_lsn e) (h\<lparr>lh_entry_buffer := b2, lh_disk := d2\<rparr>) = Some SUCCESS \<and>
    log_iterate cb (entry_lsn e) (h\<lparr>lh_entry_buffer := b2, lh_disk := d2\<rparr>) s =
      (if size_bad (entry_lsn e) \<or> 8 + payload_size e < entry_lsn e then Some (IOERR_READ, s)
       else do {
         (rc, s') \<leftarrow> cb \<lparr>le_header = \<lparr>h_lsn = entry_lsn e, h_size = entry_lsn e, h_module_id = BUFFER_POOL\<rparr>,
                      le_data = take (nat (entry_lsn e)) (drop 8 (entry_bytes e))\<rparr> s;
         if OB_FAIL rc then Some (rc, s')
         else iterate_loop cb (drop (nat (entry_lsn e)) (drop 8 (entry_bytes e))) s'
       })"
proof -
  let ?l = "entry_lsn e"
  from log_reach_inv [OF assms(1)] obtain D where D: "log_inv False D h" "lsn_fits h" "writer_inv rc w h" by blast
  from D(1) have fi: "files_inv D h" and dk: "disk_ok False D h" and run: "lsn_run (flushed h) (buffered h)"
    and fl: "flushed h = int (length (written D h))" and run0: "lsn_run 0 (written D h)"
    and cur: "lb_current_lsn (lh_entry_buffer h) = flushed h + int (length (buffered h))"
    unfolding log_inv_def by blast+
  have c: "0 < file_cap h" using fi by (simp add: files_inv_def)
  have l: "?l = flushed h + 1" and ge: "good_entry e" using run by (simp_all add: assms(2))
  have i32: "int32_range ?l" "0 < ?l" using D(2) cur fl c by (simp_all add: lsn_fits_def l assms(2) int32_range_def INT32_MAX_def)
  have pl: "0 < payload_size e" "nat (payload_size e) = length (le_data e)" "payload_size e = int (length (le_data e))"
    using ge by (auto simp: good_entry_def)
  have "w_file w \<noteq> None"
  proof
    assume "w_file w = None"
    then show False
      using assms(2,4) by (auto simp: flush_def flush_loop.simps writer_write_def Let_def split: list.splits if_splits)
  qed
  with D(3) obtain f where f: "w_file w = Some f" "f = (int (file_cnt h) - 1) * file_cap h" "0 < file_cnt h"
    "w_last_lsn w \<le> flushed h" "w_end_lsn w = f + file_cap h - 1"
    by (auto simp: writer_inv_def left_diff_distrib split: option.splits)
  have fits: "?l \<le> w_end_lsn w"
    using assms(2,4) i32(2) pl(1) by (auto simp: flush_def flush_loop.simps writer_write_def Let_def split: if_splits)
  have lt: "w_last_lsn w < ?l" using f(4) l by simp
  let ?b0 = "lh_entry_buffer h" and ?d1 = "(lh_disk h)(f := lh_disk h f @ enc64 ?l)"
  have t8: "take 8 (header_bytes (le_header e)) = enc64 ?l" by (simp add: header_bytes_def)
  have 1: "b1 = ?b0\<lparr>lb_bytes := lb_bytes ?b0 - total_size e, lb_entries := [e]\<rparr>" "w1 = w" "d1 = ?d1"
    using assms(2-4) i32(2) pl(1) fits lt f(1)
    by (simp_all add: flush_def flush_loop.simps writer_write_def Let_def EIO_def t8)
  let ?d2 = "(lh_disk h)(f := lh_disk h f @ enc64 ?l @ entry_bytes e)"
  let ?b2 = "b1\<lparr>lb_entries := [], lb_bytes := lb_bytes b1 - total_size e, lb_flushed_lsn := ?l\<rparr>"
  have 2: "flush (\<lambda>_. (Complete, Complete)) b1 w1 d1 = Some (SUCCESS, 1, ?b2, w\<lparr>w_last_lsn := to_int32 ?l\<rparr>, ?d2)"
    using i32(2) pl(1) fits lt f(1)
    by (simp add: 1 flush_def flush_loop.simps writer_write_def Let_def entry_bytes_def)
  let ?h2 = "h\<lparr>lh_entry_buffer := ?b2, lh_disk := ?d2\<rparr>"
  have lf: "list_files (lh_file_manager h) ?l = [f]"
  proof -
    have "\<not> ?l \<le> int i * file_cap h + file_cap h - 1" if "i < file_cnt h - 1" for i
    proof -
      have "int i * file_cap h + file_cap h \<le> f"
        using that c mult_right_mono [of "int i + 1" "int (file_cnt h) - 1" "file_cap h"] by (simp add: f(2) algebra_simps)
      moreover have "f - 1 \<le> flushed h" using fi f(2,3) by (simp add: files_inv_def)
      ultimately show ?thesis using l by linarith
    qed
    then have "filter (\<lambda>f. ?l \<le> f + file_cap h - 1) (map (\<lambda>i. int i * file_cap h) [0..<file_cnt h - 1]) = []"
      by (auto simp: filter_empty_conv)
    then show ?thesis
      using fits f(5) unfolding list_files_def by (subst log_files_snoc [OF fi f(3)]) (simp add: f(2))
  qed
  have fs: "f \<in> set (log_keys h)" by (subst log_files_snoc [OF fi f(3)]) (simp add: f(2))
  have Df: "lh_disk h f = concat (map entry_bytes (D f))" using dk fs by (auto simp: disk_ok_def)
  have "filter (\<lambda>e. ?l \<le> entry_lsn e) (D f) = []"
    using lsn_run_bounds [OF run0] fs fl l by (fastforce simp: filter_empty_conv written_def)
  then have it: "log_iterate cb ?l ?h2 s = file_iterate cb ?l (enc64 ?l @ entry_bytes e) s"
    using file_iterate_entries [OF written_parts(2,1) [OF run0 fs], of cb ?l "enc64 ?l @ entry_bytes e" s]
    by (auto simp: log_iterate_def lf Df split: option.splits bind_splits)
  have e0: "?l div 4294967296 = 0" "int64_range ?l" using i32 by (simp_all add: int32_range_def int64_range_def)
  have eb: "entry_bytes e = enc32 ?l @ enc32 0 @ drop 8 (entry_bytes e)"
    by (simp add: entry_bytes_def header_bytes_def enc64_def e0)
  let ?bs = "enc64 ?l @ entry_bytes e" and ?hd = "\<lparr>h_lsn = ?l, h_size = ?l, h_module_id = BUFFER_POOL\<rparr>"
  have rh: "read_header ?bs = ?hd"
    using i32(1) e0(2) unfolding read_header_def
    by (subst (2 3) eb) (simp add: dec64_enc64 dec32_enc32_append LogModule_of_def int32_range_def)
  have len: "length (entry_bytes e) = 16 + length (le_data e)" using length_entry_bytes [OF ge] pl(2) by simp
  have lt8: "length (le_data e) + 8 < nat ?l \<longleftrightarrow> int (length (le_data e)) + 8 < ?l" using i32(2) by linarith
  have sk: "skip_to ?l ?bs = (SUCCESS, ?bs)"
    by (subst skip_to.simps) (simp add: rh size_limits len Let_def)
  have "file_iterate cb ?l ?bs s =
      (if size_bad ?l \<or> 8 + payload_size e < ?l then Some (IOERR_READ, s)
       else do {
         (rc, s') \<leftarrow> cb \<lparr>le_header = ?hd, le_data = take (nat ?l) (drop 8 (entry_bytes e))\<rparr> s;
         if OB_FAIL rc then Some (rc, s') else iterate_loop cb (drop (nat ?l) (drop 8 (entry_bytes e))) s'
       })"
    unfolding file_iterate_def sk
    by (subst iterate_loop.simps) (simp add: rh size_limits len Let_def pl(3) lt8 add.commute cong: if_cong)
  with 2 it show ?thesis
    by (intro exI [of _ ?b2] exI [of _ "w\<lparr>w_last_lsn := to_int32 ?l\<rparr>"] exI [of _ ?d2]) (simp add: wait_lsn_def)
qed

theorem torn_header_misread_witness:
  "\<exists>(h :: byte list DiskLogHandler) b1 d1 b2 w2 d2.
    flush (\<lambda>_. (Fails_after 8, Complete)) (lh_entry_buffer h) \<lparr>w_file = Some 0, w_last_lsn = 0, w_end_lsn = 999\<rparr> (\<lambda>_. []) =
      Some (IOERR_WRITE, 0, b1, \<lparr>w_file = Some 0, w_last_lsn = 0, w_end_lsn = 999\<rparr>, d1) \<and>
    flush (\<lambda>_. (Complete, Complete)) b1 \<lparr>w_file = Some 0, w_last_lsn = 0, w_end_lsn = 999\<rparr> d1 = Some (SUCCESS, 1, b2, w2, d2) \<and>
    log_iterate (\<lambda>e s. Some (INVALID_ARGUMENT, s @ [le_header e])) 1 (h\<lparr>lh_entry_buffer := b2, lh_disk := d2\<rparr>) [] =
      Some (INVALID_ARGUMENT, [\<lparr>h_lsn = 1, h_size = 1, h_module_id = BUFFER_POOL\<rparr>])"
proof -
  let ?w = "\<lparr>w_file = Some 0, w_last_lsn = 0, w_end_lsn = 999\<rparr>" and ?io = "\<lambda>_::nat. (Fails_after 8, Complete)"
  from log_reach_opened obtain h where
    h: "log_reach False IOERR_WRITE ?w h [example_entry]" "buffered h = [example_entry]" "lh_disk h = (\<lambda>_. [])" by blast
  obtain b d where f: "flush ?io (lh_entry_buffer h) ?w (lh_disk h) = Some (IOERR_WRITE, 0, b, ?w, d)"
    by (simp add: flush_def flush_loop.simps h(2,3) payload_size_def writer_write_def EIO_def)
  have io: "fst (?io 0) = Fails_after 8" by simp
  from torn_header_misread [OF h(1,2) io f, of "\<lambda>e s. Some (INVALID_ARGUMENT, s @ [le_header e])" "[]"] obtain b2 w2 d2 where
    "flush (\<lambda>_. (Complete, Complete)) b ?w d = Some (SUCCESS, 1, b2, w2, d2)"
    "log_iterate (\<lambda>e s. Some (INVALID_ARGUMENT, s @ [le_header e])) 1 (h\<lparr>lh_entry_buffer := b2, lh_disk := d2\<rparr>) [] =
      Some (INVALID_ARGUMENT, [\<lparr>h_lsn = 1, h_size = 1, h_module_id = BUFFER_POOL\<rparr>])"
    by (auto simp: size_bad_def size_limits payload_size_def)
  with f show ?thesis unfolding h(3) by blast
qed

end
