(* ===== verification/Frames.thy ===== *)
theory Frames
  imports Bytes Clog "HOL-Library.AList"
begin

text \<open>
  Pages and the frames that hold them in memory (\<open>storage/buffer/page.h\<close>, \<open>frame.h\<close>,
  \<open>frame.cpp\<close>): pin counts and latches with the assertions the debug build checks. In the
  default build without \<open>CONCURRENCY\<close> the mutex of a frame does nothing, so a latch is its
  debug bookkeeping: the owner of the write latch and the counts of the read latches. The
  access time of a frame is written and never read, and is left out.
\<close>

section \<open>Pages\<close>

definition BP_INVALID_PAGE_NUM :: PageNum where "BP_INVALID_PAGE_NUM = -1"
definition BP_HEADER_PAGE :: PageNum where "BP_HEADER_PAGE = 0"
definition BP_PAGE_SIZE :: nat where "BP_PAGE_SIZE = 2 ^ 15"

text \<open>The page without \<open>sizeof(PageNum)\<close>, \<open>sizeof(LSN)\<close> and \<open>sizeof(CheckSum)\<close>.\<close>

definition BP_PAGE_DATA_SIZE :: nat where "BP_PAGE_DATA_SIZE = BP_PAGE_SIZE - 4 - 8 - 4"

lemma BP_PAGE_DATA_SIZE_value [layout_simps]: "BP_PAGE_DATA_SIZE = 32752"
  by (simp add: BP_PAGE_DATA_SIZE_def BP_PAGE_SIZE_def)

record Page =
  pg_lsn :: LSN
  pg_check_sum :: int
  pg_data :: "byte list"

definition zero_page :: Page where
  "zero_page = \<lparr>pg_lsn = 0, pg_check_sum = 0, pg_data = replicate BP_PAGE_DATA_SIZE 0\<rparr>"

section \<open>Frames\<close>

datatype ReadWriteMode = READ_ONLY | READ_WRITE

type_synonym FrameId = "int \<times> PageNum"

record Frame =
  fr_dirty :: bool
  fr_pin_count :: int
  fr_frame_id :: FrameId
  fr_page :: Page
  fr_write_locker :: int
  fr_write_recursive_count :: int
  fr_read_lockers :: "(int \<times> int) list"

definition Frame_new :: Frame where
  "Frame_new = \<lparr>fr_dirty = False, fr_pin_count = 0, fr_frame_id = (-1, -1), fr_page = zero_page,
     fr_write_locker = 0, fr_write_recursive_count = 0, fr_read_lockers = []\<rparr>"

abbreviation frame_data :: "Frame \<Rightarrow> byte list" where
  "frame_data f \<equiv> pg_data (fr_page f)"

abbreviation frame_lsn :: "Frame \<Rightarrow> LSN" where
  "frame_lsn f \<equiv> pg_lsn (fr_page f)"

definition frame_set_lsn :: "LSN \<Rightarrow> Frame \<Rightarrow> Frame" where
  "frame_set_lsn l f = f\<lparr>fr_page := (fr_page f)\<lparr>pg_lsn := l\<rparr>\<rparr>"

definition frame_set_check_sum :: "int \<Rightarrow> Frame \<Rightarrow> Frame" where
  "frame_set_check_sum c f = f\<lparr>fr_page := (fr_page f)\<lparr>pg_check_sum := c\<rparr>\<rparr>"

definition frame_set_data :: "byte list \<Rightarrow> Frame \<Rightarrow> Frame" where
  "frame_set_data d f = f\<lparr>fr_page := (fr_page f)\<lparr>pg_data := d\<rparr>\<rparr>"

definition clear_page :: "Frame \<Rightarrow> Frame" where
  "clear_page f = f\<lparr>fr_page := zero_page\<rparr>"

definition mark_dirty :: "Frame \<Rightarrow> Frame" where "mark_dirty f = f\<lparr>fr_dirty := True\<rparr>"
definition clear_dirty :: "Frame \<Rightarrow> Frame" where "clear_dirty f = f\<lparr>fr_dirty := False\<rparr>"

definition can_purge :: "Frame \<Rightarrow> bool" where
  "can_purge f \<longleftrightarrow> fr_pin_count f = 0"

definition pin :: "Frame \<Rightarrow> Frame" where
  "pin f = f\<lparr>fr_pin_count := fr_pin_count f + 1\<rparr>"

definition unpin :: "Frame \<Rightarrow> Frame option" where
  "unpin f = do {
     assert_that (fr_pin_count f > 0);
     let f' = f\<lparr>fr_pin_count := fr_pin_count f - 1\<rparr>;
     assert_that (fr_pin_count f' = 0 \<longrightarrow> fr_write_locker f' = 0 \<and> fr_read_lockers f' = []);
     Some f'
   }"

section \<open>Latches\<close>

definition write_latch :: "int \<Rightarrow> Frame \<Rightarrow> Frame option" where
  "write_latch xid f = do {
     assert_that (fr_pin_count f > 0);
     assert_that (map_of (fr_read_lockers f) xid = None);
     Some (f\<lparr>fr_write_locker := xid, fr_write_recursive_count := fr_write_recursive_count f + 1\<rparr>)
   }"

definition write_unlatch :: "int \<Rightarrow> Frame \<Rightarrow> Frame option" where
  "write_unlatch xid f = do {
     assert_that (fr_pin_count f > 0);
     assert_that (fr_write_locker f = xid);
     let c = fr_write_recursive_count f - 1;
     let f' = f\<lparr>fr_write_recursive_count := c\<rparr>;
     Some (if c = 0 then f'\<lparr>fr_write_locker := 0\<rparr> else f')
   }"

definition read_latch :: "int \<Rightarrow> Frame \<Rightarrow> Frame option" where
  "read_latch xid f = do {
     assert_that (fr_pin_count f > 0);
     assert_that (xid \<noteq> fr_write_locker f);
     let n = (case map_of (fr_read_lockers f) xid of None \<Rightarrow> 0 | Some k \<Rightarrow> k);
     Some (f\<lparr>fr_read_lockers := AList.update xid (n + 1) (fr_read_lockers f)\<rparr>)
   }"

definition read_unlatch :: "int \<Rightarrow> Frame \<Rightarrow> Frame option" where
  "read_unlatch xid f = do {
     assert_that (fr_pin_count f > 0);
     let n = (case map_of (fr_read_lockers f) xid of None \<Rightarrow> 0 | Some k \<Rightarrow> k);
     assert_that (n > 0);
     Some (f\<lparr>fr_read_lockers :=
       (if n = 1 then AList.delete xid (fr_read_lockers f)
        else AList.update xid (n - 1) (fr_read_lockers f))\<rparr>)
   }"

text \<open>The latch a page handler takes and releases, by its mode.\<close>

definition latch :: "ReadWriteMode \<Rightarrow> int \<Rightarrow> Frame \<Rightarrow> Frame option" where
  "latch m xid f = (if m = READ_ONLY then read_latch xid f else write_latch xid f)"

definition unlatch :: "ReadWriteMode \<Rightarrow> int \<Rightarrow> Frame \<Rightarrow> Frame option" where
  "unlatch m xid f = (if m = READ_ONLY then read_unlatch xid f else write_unlatch xid f)"

section \<open>Lemmas\<close>

lemmas frame_defs = frame_set_lsn_def frame_set_check_sum_def frame_set_data_def clear_page_def
  mark_dirty_def clear_dirty_def pin_def

text \<open>No latch of a frame is held.\<close>

definition unlatched :: "Frame \<Rightarrow> bool" where
  "unlatched f \<longleftrightarrow> fr_write_locker f = 0 \<and> fr_write_recursive_count f = 0 \<and> fr_read_lockers f = []"

lemma latch_unlatched:
  assumes "unlatched f" "fr_pin_count f > 0" "xid \<noteq> 0"
  shows "\<exists>g. latch m xid f = Some g \<and> fr_page g = fr_page f \<and> fr_pin_count g = fr_pin_count f \<and>
    fr_dirty g = fr_dirty f \<and> fr_frame_id g = fr_frame_id f \<and> unlatch m xid g = Some f"
  using assms
  by (auto simp: latch_def unlatch_def read_latch_def write_latch_def read_unlatch_def
      write_unlatch_def unlatched_def Let_def)

text \<open>A holder of the write latch can change the page before it releases the latch.\<close>

lemma write_latch_change:
  assumes "unlatched f" "fr_pin_count f > 0" "xid \<noteq> 0" "latch READ_WRITE xid f = Some g"
  shows "unlatch READ_WRITE xid (g\<lparr>fr_page := p, fr_dirty := d\<rparr>) = Some (f\<lparr>fr_page := p, fr_dirty := d\<rparr>)"
  using assms
  by (auto simp: latch_def unlatch_def write_latch_def write_unlatch_def unlatched_def Let_def)

lemma unpin_pin:
  "0 \<le> fr_pin_count f \<Longrightarrow> fr_pin_count f = 0 \<longrightarrow> unlatched f \<Longrightarrow> unpin (pin f) = Some f"
  by (simp add: unpin_def pin_def unlatched_def Let_def)

end
