(* ===== verification/RecordLog.thy ===== *)
theory RecordLog
  imports Frames
begin

text \<open>
  The log records of the record manager (\<open>storage/record/record_log.h\<close>, \<open>record_log.cpp\<close>):
  the layout of \<open>RecordLogHeader\<close> and the \<open>RecordLogHandler\<close> that the page handlers call before
  they change a page. The payload of a log entry is the bytes of the header followed by the
  record or the column index.
\<close>

section \<open>Record identifiers and formats\<close>

datatype StorageFormat = UNKNOWN_FORMAT | ROW_FORMAT | PAX_FORMAT

fun format_id :: "StorageFormat \<Rightarrow> int" where
  "format_id UNKNOWN_FORMAT = 0" | "format_id ROW_FORMAT = 1" | "format_id PAX_FORMAT = 2"

record RID =
  page_num :: PageNum
  slot_num :: SlotNum

definition RID :: "PageNum \<Rightarrow> SlotNum \<Rightarrow> RID" where
  "RID p s = \<lparr>page_num = p, slot_num = s\<rparr>"

definition RID_compare :: "RID \<Rightarrow> RID \<Rightarrow> int" where
  "RID_compare r1 r2 =
     (let page_diff = to_int32 (page_num r1 - page_num r2)
      in if page_diff \<noteq> 0 then page_diff else to_int32 (slot_num r1 - slot_num r2))"

section \<open>Payloads\<close>

datatype RecordOperation = INIT_PAGE | INSERT | DELETE | UPDATE

fun operation_id :: "RecordOperation \<Rightarrow> int" where
  "operation_id INIT_PAGE = 0" | "operation_id INSERT = 1" | "operation_id DELETE = 2"
| "operation_id UPDATE = 3"

definition operation_of :: "int \<Rightarrow> RecordOperation option" where
  "operation_of n = (if n = 0 then Some INIT_PAGE else if n = 1 then Some INSERT
     else if n = 2 then Some DELETE else if n = 3 then Some UPDATE else None)"

record RecordLogHeader =
  rh_buffer_pool_id :: int
  rh_operation_type :: int
  rh_page_num :: PageNum
  rh_storage_format :: int
  rh_column_num :: int
  rh_slot_num :: int  \<comment> \<open>the union of \<open>slot_num\<close> and \<open>record_size\<close>\<close>

definition RecordLogHeader_SIZE :: nat where "RecordLogHeader_SIZE = 24"

definition enc_record_log :: "RecordLogHeader \<Rightarrow> byte list \<Rightarrow> byte list" where
  "enc_record_log h d = enc32 (rh_buffer_pool_id h) @ enc32 (rh_operation_type h) @
     enc32 (rh_page_num h) @ enc32 (rh_storage_format h) @ enc32 (rh_column_num h) @
     enc32 (rh_slot_num h) @ d"

definition dec_record_log :: "byte list \<Rightarrow> RecordLogHeader \<times> byte list" where
  "dec_record_log p = (\<lparr>rh_buffer_pool_id = field32 p 0, rh_operation_type = field32 p 4,
     rh_page_num = field32 p 8, rh_storage_format = field32 p 12, rh_column_num = field32 p 16,
     rh_slot_num = field32 p 20\<rparr>, drop RecordLogHeader_SIZE p)"

definition record_log_in_range :: "RecordLogHeader \<Rightarrow> bool" where
  "record_log_in_range h \<longleftrightarrow> int32_range (rh_buffer_pool_id h) \<and> int32_range (rh_operation_type h) \<and>
     int32_range (rh_page_num h) \<and> int32_range (rh_storage_format h) \<and>
     int32_range (rh_column_num h) \<and> int32_range (rh_slot_num h)"

lemma dec_enc_record_log:
  assumes "record_log_in_range h"
  shows "dec_record_log (enc_record_log h d) = (h, d)"
proof -
  have at: "field32 (ys @ enc32 x @ zs) n = x" if "int32_range x" "length ys = n" for x ys zs n
    using that dec32_enc32 [of x] by (simp add: field32_def)
  let ?e = "enc_record_log h d"
  have "field32 ?e 0 = rh_buffer_pool_id h" "field32 ?e 4 = rh_operation_type h"
      "field32 ?e 8 = rh_page_num h" "field32 ?e 12 = rh_storage_format h"
      "field32 ?e 16 = rh_column_num h" "field32 ?e 20 = rh_slot_num h"
    using assms
      at [of "rh_buffer_pool_id h" "[]"]
      at [of "rh_operation_type h" "enc32 (rh_buffer_pool_id h)"]
      at [of "rh_page_num h" "enc32 (rh_buffer_pool_id h) @ enc32 (rh_operation_type h)"]
      at [of "rh_storage_format h" "enc32 (rh_buffer_pool_id h) @ enc32 (rh_operation_type h) @
            enc32 (rh_page_num h)"]
      at [of "rh_column_num h" "enc32 (rh_buffer_pool_id h) @ enc32 (rh_operation_type h) @
            enc32 (rh_page_num h) @ enc32 (rh_storage_format h)"]
      at [of "rh_slot_num h" "enc32 (rh_buffer_pool_id h) @ enc32 (rh_operation_type h) @
            enc32 (rh_page_num h) @ enc32 (rh_storage_format h) @ enc32 (rh_column_num h)"]
    by (simp_all add: enc_record_log_def record_log_in_range_def)
  then show ?thesis
    by (simp add: dec_record_log_def RecordLogHeader_SIZE_def) (simp add: enc_record_log_def)
qed

section \<open>The log handler of a page handler\<close>

record RecordLogHandler =
  rl_buffer_pool_id :: int
  rl_record_size :: int
  rl_storage_format :: StorageFormat

type_synonym DbLog = "byte list LogHandler"

text \<open>Append a payload; a positive LSN becomes the LSN of the frame.\<close>

definition append_and_stamp :: "byte list \<Rightarrow> Frame \<Rightarrow> DbLog \<Rightarrow> (RC \<times> Frame \<times> DbLog) option" where
  "append_and_stamp p f lg = do {
     (rc, l, lg') \<leftarrow> log_append RECORD_MANAGER (int (length p)) p lg;
     Some (rc, (if OB_SUCC rc \<and> l > 0 then frame_set_lsn l f else f), lg')
   }"

definition log_init_new_page ::
    "RecordLogHandler \<Rightarrow> Frame \<Rightarrow> PageNum \<Rightarrow> byte list \<Rightarrow> DbLog \<Rightarrow> (RC \<times> Frame \<times> DbLog) option" where
  "log_init_new_page rl f p d lg =
     append_and_stamp (enc_record_log
       \<lparr>rh_buffer_pool_id = rl_buffer_pool_id rl, rh_operation_type = operation_id INIT_PAGE,
        rh_page_num = p, rh_storage_format = format_id (rl_storage_format rl),
        rh_column_num = int (length d div 4), rh_slot_num = rl_record_size rl\<rparr> d) f lg"

definition log_insert_record ::
    "RecordLogHandler \<Rightarrow> Frame \<Rightarrow> RID \<Rightarrow> byte list \<Rightarrow> DbLog \<Rightarrow> (RC \<times> Frame \<times> DbLog) option" where
  "log_insert_record rl f rid r lg = do {
     d \<leftarrow> mem_read r 0 (nat (rl_record_size rl));
     append_and_stamp (enc_record_log
       \<lparr>rh_buffer_pool_id = rl_buffer_pool_id rl, rh_operation_type = operation_id INSERT,
        rh_page_num = page_num rid, rh_storage_format = format_id (rl_storage_format rl),
        rh_column_num = 0, rh_slot_num = slot_num rid\<rparr> d) f lg
   }"

definition log_update_record ::
    "RecordLogHandler \<Rightarrow> Frame \<Rightarrow> RID \<Rightarrow> byte list \<Rightarrow> DbLog \<Rightarrow> (RC \<times> Frame \<times> DbLog) option" where
  "log_update_record rl f rid r lg = do {
     d \<leftarrow> mem_read r 0 (nat (rl_record_size rl));
     append_and_stamp (enc_record_log
       \<lparr>rh_buffer_pool_id = rl_buffer_pool_id rl, rh_operation_type = operation_id UPDATE,
        rh_page_num = page_num rid, rh_storage_format = format_id (rl_storage_format rl),
        rh_column_num = 0, rh_slot_num = slot_num rid\<rparr> d) f lg
   }"

text \<open>
  \<open>delete_record\<close> fills a header on the stack and leaves \<open>column_num\<close> unset; the replayer does
  not read it there, and the model writes 0.
\<close>

definition log_delete_record ::
    "RecordLogHandler \<Rightarrow> Frame \<Rightarrow> RID \<Rightarrow> DbLog \<Rightarrow> (RC \<times> Frame \<times> DbLog) option" where
  "log_delete_record rl f rid lg =
     append_and_stamp (enc_record_log
       \<lparr>rh_buffer_pool_id = rl_buffer_pool_id rl, rh_operation_type = operation_id DELETE,
        rh_page_num = page_num rid, rh_storage_format = format_id (rl_storage_format rl),
        rh_column_num = 0, rh_slot_num = slot_num rid\<rparr> []) f lg"

section \<open>When appending returns\<close>

text \<open>
  The log takes a payload of \<open>n\<close> bytes now: the handler runs and its buffer is below the limit.
\<close>

fun log_ready :: "'p LogHandler \<Rightarrow> bool" where
  "log_ready (Disk h) \<longleftrightarrow> lh_running h \<and> lb_bytes (lh_entry_buffer h) < lb_max_bytes (lh_entry_buffer h)"
| "log_ready Vacuous \<longleftrightarrow> True"

lemma log_append_returns:
  assumes "log_ready lg"
  shows "\<exists>rc l lg'. log_append m n d lg = Some (rc, l, lg')"
  using assms
  by (cases lg) (auto simp: disk_append_def LogEntryBuffer_append_def LogEntry_init_def Let_def)

lemma append_and_stamp_returns:
  assumes "log_ready lg"
  shows "\<exists>rc l lg'. append_and_stamp p f lg = Some (rc, f\<lparr>fr_page := (fr_page f)\<lparr>pg_lsn := l\<rparr>\<rparr>, lg')"
proof -
  obtain rc l lg' where "log_append RECORD_MANAGER (int (length p)) p lg = Some (rc, l, lg')"
    using log_append_returns [OF assms] by blast
  then show ?thesis
    by (intro exI [of _ rc] exI [of _ "if OB_SUCC rc \<and> l > 0 then l else frame_lsn f"] exI [of _ lg'])
       (simp add: append_and_stamp_def frame_set_lsn_def)
qed

end
