(* ===== verification/RecordPage.thy ===== *)
theory RecordPage
  imports Bitmap RecordLog "HOL-Library.Signed_Division"
begin

text \<open>
  Record pages (\<open>storage/record/record_manager.h\<close>, \<open>record_manager.cpp\<close>, the page handlers): a
  page starts with the seven \<open>int32_t\<close> fields of \<open>PageHeader\<close>, followed by the slot bitmap and,
  from \<open>data_offset\<close> on, the slots. The operations are those of \<open>RowRecordPageHandler\<close> on the
  bytes of the frame, with the calls of \<open>RecordLogHandler\<close>; \<open>PaxRecordPageHandler\<close> implements
  \<open>delete_record\<close> only, its other operations end the process. The specification is the map
  from slots to records, \<open>page_records\<close>.
\<close>

section \<open>Page layout\<close>

definition PAGE_HEADER_SIZE :: nat where "PAGE_HEADER_SIZE = 28"

record PageHeader =
  p_record_num :: int
  p_column_num :: int
  p_record_real_size :: int
  p_record_size :: int
  p_record_capacity :: int
  p_col_idx_offset :: int
  p_data_offset :: int

definition page_header :: "byte list \<Rightarrow> PageHeader option" where
  "page_header d = do {
     a \<leftarrow> get32 d 0; b \<leftarrow> get32 d 4; c \<leftarrow> get32 d 8; s \<leftarrow> get32 d 12; k \<leftarrow> get32 d 16;
     i \<leftarrow> get32 d 20; x \<leftarrow> get32 d 24;
     Some \<lparr>p_record_num = a, p_column_num = b, p_record_real_size = c, p_record_size = s,
       p_record_capacity = k, p_col_idx_offset = i, p_data_offset = x\<rparr>
   }"

definition align8 :: "int \<Rightarrow> int" where
  "align8 n = (n + 7) AND NOT 7"

text \<open>
  \<open>(int)((page_size - PAGE_HEADER_SIZE - fixed_size - 1) / (record_size + 0.125))\<close>: the divisor
  is exact in binary floating point, the quotient of eighths is cut off towards zero.
\<close>

definition page_record_capacity :: "int \<Rightarrow> int \<Rightarrow> int \<Rightarrow> int" where
  "page_record_capacity page_size record_size fixed_size =
     (8 * (page_size - int PAGE_HEADER_SIZE - fixed_size - 1)) sdiv (8 * record_size + 1)"

definition page_bitmap_size :: "int \<Rightarrow> int" where
  "page_bitmap_size record_capacity = (record_capacity + 7) sdiv 8"

partial_function (option) fix_capacity_loop :: "int \<Rightarrow> int \<Rightarrow> int \<Rightarrow> int option" where
  "fix_capacity_loop record_size cap last_record_offset =
     (if last_record_offset > int BP_PAGE_DATA_SIZE
      then fix_capacity_loop record_size (cap - 1) (last_record_offset - record_size)
      else Some cap)"

definition fix_record_capacity :: "byte list \<Rightarrow> byte list option" where
  "fix_record_capacity d = do {
     h \<leftarrow> page_header d;
     cap \<leftarrow> fix_capacity_loop (p_record_size h) (p_record_capacity h)
              (p_data_offset h + p_record_capacity h * p_record_size h);
     put32 d 16 cap
   }"

text \<open>The header and the empty bitmap both versions of \<open>init_empty_page\<close> write.\<close>

definition format_page :: "int \<Rightarrow> int \<Rightarrow> byte list \<Rightarrow> byte list option" where
  "format_page record_size column_num d = do {
     d \<leftarrow> put32 d 0 0;
     d \<leftarrow> put32 d 4 column_num;
     d \<leftarrow> put32 d 8 record_size;
     d \<leftarrow> put32 d 12 (align8 record_size);
     let cap = page_record_capacity (int BP_PAGE_DATA_SIZE) (align8 record_size) (column_num * 4);
     d \<leftarrow> put32 d 16 cap;
     d \<leftarrow> put32 d 20 (align8 (int PAGE_HEADER_SIZE + page_bitmap_size cap));
     d \<leftarrow> put32 d 24 (align8 (int PAGE_HEADER_SIZE + page_bitmap_size cap) + column_num * 4);
     d \<leftarrow> fix_record_capacity d;
     h \<leftarrow> page_header d;
     assert_that (p_data_offset h + p_record_capacity h * p_record_size h \<le> int BP_PAGE_DATA_SIZE);
     n \<leftarrow> as_size (page_bitmap_size (p_record_capacity h));
     mem_write d PAGE_HEADER_SIZE (replicate n 0)
   }"

text \<open>The column index: entry \<open>i\<close> is the end of column \<open>i\<close>, relative to \<open>data_offset\<close>.\<close>

fun column_index :: "int \<Rightarrow> int \<Rightarrow> int list \<Rightarrow> int list" where
  "column_index cap start [] = []"
| "column_index cap start (len # lens) = (len * cap + start) # column_index cap (len * cap + start) lens"

section \<open>The handler and its operations on a page\<close>

record RecordPageHandler =
  ph_rw_mode :: ReadWriteMode
  ph_log :: RecordLogHandler

definition get_page_num :: "Frame \<Rightarrow> PageNum" where
  "get_page_num f = snd (fr_frame_id f)"

text \<open>
  \<open>init_empty_page\<close> of a new page, after \<open>init\<close> took the frame: \<open>lens\<close> are the lengths of the
  table's fields when the format is PAX, and empty otherwise.
\<close>

definition init_empty_page ::
    "RecordPageHandler \<Rightarrow> int \<Rightarrow> int list \<Rightarrow> Frame \<Rightarrow> DbLog \<Rightarrow> (RC \<times> RecordPageHandler \<times> Frame \<times> DbLog) option" where
  "init_empty_page h record_size lens f lg = do {
     let h = h\<lparr>ph_log := (ph_log h)\<lparr>rl_record_size := record_size\<rparr>\<rparr>;
     d \<leftarrow> format_page record_size (int (length lens)) (frame_data f);
     ph \<leftarrow> page_header d;
     off \<leftarrow> as_size (p_col_idx_offset ph);
     let idx = concat (map enc32 (column_index (p_record_capacity ph) 0 lens));
     d \<leftarrow> mem_write d off idx;
     (rc, f', lg') \<leftarrow> log_init_new_page (ph_log h) (frame_set_data d f) (get_page_num f) idx lg;
     Some (if OB_FAIL rc then rc else SUCCESS, h, f', lg')
   }"

text \<open>The version the log replayer calls, with the column index of the log entry.\<close>

definition init_empty_page_redo ::
    "int \<Rightarrow> int \<Rightarrow> byte list \<Rightarrow> Frame \<Rightarrow> (RC \<times> Frame) option" where
  "init_empty_page_redo record_size column_num col_idx_data f = do {
     d \<leftarrow> format_page record_size column_num (frame_data f);
     ph \<leftarrow> page_header d;
     off \<leftarrow> as_size (p_col_idx_offset ph);
     n \<leftarrow> as_size (column_num * 4);
     idx \<leftarrow> mem_read col_idx_data 0 n;
     d \<leftarrow> mem_write d off idx;
     Some (SUCCESS, frame_set_data d f)
   }"

definition slot_bitmap :: "PageHeader \<Rightarrow> bitmap" where
  "slot_bitmap ph = bitmap_init PAGE_HEADER_SIZE (nat (p_record_capacity ph))"

definition get_record_data :: "PageHeader \<Rightarrow> SlotNum \<Rightarrow> nat option" where
  "get_record_data ph slot = as_size (p_data_offset ph + p_record_size ph * slot)"

definition row_insert_record ::
    "RecordPageHandler \<Rightarrow> byte list \<Rightarrow> Frame \<Rightarrow> DbLog \<Rightarrow> (RC \<times> RID option \<times> Frame \<times> DbLog) option" where
  "row_insert_record h data f lg = do {
     assert_that (ph_rw_mode h \<noteq> READ_ONLY);
     let d = frame_data f;
     ph \<leftarrow> page_header d;
     if p_record_num ph = p_record_capacity ph then Some (RECORD_NOMEM, None, f, lg)
     else do {
       index \<leftarrow> next_unsetted_bit d (slot_bitmap ph) 0;
       i \<leftarrow> as_size index;
       d \<leftarrow> set_bit d (slot_bitmap ph) i;
       d \<leftarrow> put32 d 0 (p_record_num ph + 1);
       (rc, f, lg) \<leftarrow> log_insert_record (ph_log h) (frame_set_data d f) (RID (get_page_num f) index) data lg;
       off \<leftarrow> get_record_data ph index;
       n \<leftarrow> as_size (p_record_real_size ph);
       r \<leftarrow> mem_read data 0 n;
       d \<leftarrow> mem_write d off r;
       Some (SUCCESS, Some (RID (get_page_num f) index), mark_dirty (frame_set_data d f), lg)
     }
   }"

definition row_recover_insert_record ::
    "byte list \<Rightarrow> RID \<Rightarrow> Frame \<Rightarrow> (RC \<times> Frame) option" where
  "row_recover_insert_record data rid f = do {
     let d = frame_data f;
     ph \<leftarrow> page_header d;
     if slot_num rid \<ge> p_record_capacity ph then Some (RECORD_INVALID_RID, f)
     else do {
       i \<leftarrow> as_size (slot_num rid);
       b \<leftarrow> get_bit d (slot_bitmap ph) i;
       d \<leftarrow> (if \<not> b then do { d \<leftarrow> set_bit d (slot_bitmap ph) i; put32 d 0 (p_record_num ph + 1) }
             else Some d);
       off \<leftarrow> get_record_data ph (slot_num rid);
       n \<leftarrow> as_size (p_record_real_size ph);
       r \<leftarrow> mem_read data 0 n;
       d \<leftarrow> mem_write d off r;
       Some (SUCCESS, mark_dirty (frame_set_data d f))
     }
   }"

text \<open>\<open>delete_record\<close> is the same code in the row and the PAX handler.\<close>

definition page_delete_record ::
    "RecordPageHandler \<Rightarrow> RID \<Rightarrow> Frame \<Rightarrow> DbLog \<Rightarrow> (RC \<times> Frame \<times> DbLog) option" where
  "page_delete_record h rid f lg = do {
     assert_that (ph_rw_mode h \<noteq> READ_ONLY);
     let d = frame_data f;
     ph \<leftarrow> page_header d;
     i \<leftarrow> as_size (slot_num rid);
     b \<leftarrow> get_bit d (slot_bitmap ph) i;
     if b then do {
       d \<leftarrow> clear_bit d (slot_bitmap ph) i;
       d \<leftarrow> put32 d 0 (p_record_num ph - 1);
       (rc, f, lg) \<leftarrow> log_delete_record (ph_log h) (mark_dirty (frame_set_data d f)) rid lg;
       Some (SUCCESS, f, lg)
     } else Some (RECORD_NOT_EXIST, f, lg)
   }"

text \<open>
  \<open>update_record\<close>: when the new data is the record in the page itself nothing is copied, which
  copying it onto itself equals.
\<close>

definition row_update_record ::
    "RecordPageHandler \<Rightarrow> RID \<Rightarrow> byte list \<Rightarrow> Frame \<Rightarrow> DbLog \<Rightarrow> (RC \<times> Frame \<times> DbLog) option" where
  "row_update_record h rid data f lg = do {
     assert_that (ph_rw_mode h \<noteq> READ_ONLY);
     let d = frame_data f;
     ph \<leftarrow> page_header d;
     if slot_num rid \<ge> p_record_capacity ph then Some (INVALID_ARGUMENT, f, lg)
     else do {
       i \<leftarrow> as_size (slot_num rid);
       b \<leftarrow> get_bit d (slot_bitmap ph) i;
       if b then do {
         off \<leftarrow> get_record_data ph (slot_num rid);
         n \<leftarrow> as_size (p_record_real_size ph);
         r \<leftarrow> mem_read data 0 n;
         d \<leftarrow> mem_write d off r;
         (rc, f, lg) \<leftarrow> log_update_record (ph_log h) (mark_dirty (frame_set_data d f)) rid data lg;
         Some (SUCCESS, f, lg)
       } else Some (RECORD_NOT_EXIST, f, lg)
     }
   }"

definition row_get_record :: "RID \<Rightarrow> Frame \<Rightarrow> (RC \<times> byte list option) option" where
  "row_get_record rid f = do {
     let d = frame_data f;
     ph \<leftarrow> page_header d;
     if slot_num rid \<ge> p_record_capacity ph then Some (RECORD_INVALID_RID, None)
     else do {
       i \<leftarrow> as_size (slot_num rid);
       b \<leftarrow> get_bit d (slot_bitmap ph) i;
       if \<not> b then Some (RECORD_NOT_EXIST, None)
       else do {
         off \<leftarrow> get_record_data ph (slot_num rid);
         n \<leftarrow> as_size (p_record_real_size ph);
         r \<leftarrow> mem_read d off n;
         Some (SUCCESS, Some r)
       }
     }
   }"

definition is_full :: "byte list \<Rightarrow> bool option" where
  "is_full d = do { ph \<leftarrow> page_header d; Some (p_record_num ph \<ge> p_record_capacity ph) }"

section \<open>Iterating over a page\<close>

record RecordPageIterator =
  it_page_num :: PageNum
  it_bitmap :: bitmap
  it_next_slot_num :: SlotNum

definition iterator_init :: "SlotNum \<Rightarrow> Frame \<Rightarrow> RecordPageIterator option" where
  "iterator_init start f = do {
     ph \<leftarrow> page_header (frame_data f);
     s \<leftarrow> as_size start;
     n \<leftarrow> next_setted_bit (frame_data f) (slot_bitmap ph) s;
     Some \<lparr>it_page_num = get_page_num f, it_bitmap = slot_bitmap ph, it_next_slot_num = n\<rparr>
   }"

definition iterator_has_next :: "RecordPageIterator \<Rightarrow> bool" where
  "iterator_has_next it \<longleftrightarrow> it_next_slot_num it \<noteq> -1"

text \<open>
  \<open>next(Record &record)\<close>: the return code of \<open>get_record\<close> is not looked at; a record that could
  not be read keeps its old value.
\<close>

definition iterator_next ::
    "RecordPageIterator \<Rightarrow> RID \<times> byte list \<Rightarrow> Frame \<Rightarrow> (RC \<times> (RID \<times> byte list) \<times> RecordPageIterator) option" where
  "iterator_next it record f = do {
     let rid = RID (it_page_num it) (it_next_slot_num it);
     (rc, r) \<leftarrow> row_get_record rid f;
     let record' = (case r of None \<Rightarrow> record | Some r \<Rightarrow> (rid, r));
     it' \<leftarrow> (if it_next_slot_num it \<ge> 0
             then do {
               n \<leftarrow> next_setted_bit (frame_data f) (it_bitmap it) (nat (it_next_slot_num it) + 1);
               Some (it\<lparr>it_next_slot_num := n\<rparr>)
             } else Some it);
     Some (if slot_num (fst record') \<noteq> -1 then SUCCESS else RECORD_EOF, record', it')
   }"

section \<open>The slots of a page as a map\<close>

abbreviation cap_of :: "PageHeader \<Rightarrow> nat" where "cap_of ph \<equiv> nat (p_record_capacity ph)"
abbreviation real_of :: "PageHeader \<Rightarrow> nat" where "real_of ph \<equiv> nat (p_record_real_size ph)"
abbreviation stride_of :: "PageHeader \<Rightarrow> nat" where "stride_of ph \<equiv> nat (p_record_size ph)"

definition slot_off :: "PageHeader \<Rightarrow> nat \<Rightarrow> nat" where
  "slot_off ph i = nat (p_data_offset ph) + stride_of ph * i"

definition used_slots :: "PageHeader \<Rightarrow> byte list \<Rightarrow> nat set" where
  "used_slots ph d = {i. i < cap_of ph \<and> bit_at d PAGE_HEADER_SIZE i}"

definition slot_bytes :: "PageHeader \<Rightarrow> byte list \<Rightarrow> nat \<Rightarrow> byte list" where
  "slot_bytes ph d i = take (real_of ph) (drop (slot_off ph i) d)"

text \<open>Specification: the record stored in each slot.\<close>

definition page_records :: "PageHeader \<Rightarrow> byte list \<Rightarrow> nat \<Rightarrow> byte list option" where
  "page_records ph d i = (if i \<in> used_slots ph d then Some (slot_bytes ph d i) else None)"

text \<open>
  The layout of a formatted page: bitmap and slots lie behind each other inside the page and
  records fit their slots. In a well-formed page \<open>record_num\<close> counts the used slots.
\<close>

definition page_shape :: "PageHeader \<Rightarrow> byte list \<Rightarrow> bool" where
  "page_shape ph d \<longleftrightarrow> length d = BP_PAGE_DATA_SIZE \<and> page_header d = Some ph \<and>
     0 \<le> p_record_capacity ph \<and> 0 \<le> p_record_real_size ph \<and>
     p_record_real_size ph \<le> p_record_size ph \<and> 0 \<le> p_data_offset ph \<and>
     PAGE_HEADER_SIZE + bytes (cap_of ph) \<le> nat (p_data_offset ph) \<and>
     slot_off ph (cap_of ph) \<le> BP_PAGE_DATA_SIZE"

definition page_wf :: "PageHeader \<Rightarrow> byte list \<Rightarrow> bool" where
  "page_wf ph d \<longleftrightarrow> page_shape ph d \<and> p_record_num ph = int (card (used_slots ph d))"

lemma page_header_Some:
  "28 \<le> length d \<Longrightarrow> page_header d = Some \<lparr>p_record_num = field32 d 0, p_column_num = field32 d 4,
     p_record_real_size = field32 d 8, p_record_size = field32 d 12, p_record_capacity = field32 d 16,
     p_col_idx_offset = field32 d 20, p_data_offset = field32 d 24\<rparr>"
  by (simp add: page_header_def)

lemma page_header_fields:
  assumes "page_header d = Some ph"
  shows "28 \<le> length d" "p_record_num ph = field32 d 0" "p_column_num ph = field32 d 4"
    "p_record_real_size ph = field32 d 8" "p_record_size ph = field32 d 12"
    "p_record_capacity ph = field32 d 16" "p_col_idx_offset ph = field32 d 20" "p_data_offset ph = field32 d 24"
  using assms by (auto simp: page_header_def get32_Some_iff split: bind_splits)

lemma page_header_update_bitmap:
  "page_header d = Some ph \<Longrightarrow> PAGE_HEADER_SIZE \<le> k \<Longrightarrow> page_header (d[k := v]) = Some ph"
  using page_header_fields(1) [of d ph]
  by (auto simp: page_header_Some field32_list_update_other PAGE_HEADER_SIZE_def)

lemma page_header_mem_write:
  "page_header d = Some ph \<Longrightarrow> PAGE_HEADER_SIZE \<le> off \<Longrightarrow> mem_write d off x = Some d' \<Longrightarrow>
     page_header d' = Some ph"
  using page_header_fields(1) [of d ph] mem_write_length [of d off x d']
  by (auto simp: page_header_Some field32_mem_write_other [of d off x d'] PAGE_HEADER_SIZE_def)

lemma page_header_upd_num:
  "page_header d = Some ph \<Longrightarrow> int32_range x \<Longrightarrow> page_header (upd32 d 0 x) = Some (ph\<lparr>p_record_num := x\<rparr>)"
  using page_header_fields(1) [of d ph]
  by (auto simp: page_header_Some field32_upd32_same field32_upd32_other)


lemma slot_off_le: "i \<le> j \<Longrightarrow> slot_off ph i \<le> slot_off ph j"
  by (simp add: slot_off_def)

lemma slot_off_Suc: "slot_off ph (Suc i) = slot_off ph i + stride_of ph"
  by (simp add: slot_off_def)

lemma real_le_stride: "page_shape ph d \<Longrightarrow> real_of ph \<le> stride_of ph"
  by (auto simp: page_shape_def intro: nat_mono)

lemma page_slot:
  assumes "page_shape ph d" "i < cap_of ph"
  shows "slot_off ph i + real_of ph \<le> length d" "PAGE_HEADER_SIZE + bytes (cap_of ph) \<le> slot_off ph i"
    "get_record_data ph (int i) = Some (slot_off ph i)"
proof -
  have "slot_off ph i + stride_of ph \<le> slot_off ph (cap_of ph)"
    using slot_off_le [of "Suc i" "cap_of ph" ph] assms(2) by (simp add: slot_off_Suc)
  with real_le_stride [OF assms(1)] show "slot_off ph i + real_of ph \<le> length d"
    using assms(1) by (simp add: page_shape_def)
  show "PAGE_HEADER_SIZE + bytes (cap_of ph) \<le> slot_off ph i"
    using assms(1) by (auto simp: page_shape_def slot_off_def)
  have "0 \<le> p_data_offset ph" "0 \<le> p_record_size ph" using assms(1) by (auto simp: page_shape_def)
  then show "get_record_data ph (int i) = Some (slot_off ph i)"
    by (simp add: get_record_data_def slot_off_def nat_add_distrib nat_mult_distrib)
qed

lemma page_slots_disjoint:
  assumes "page_shape ph d" "i \<noteq> j"
  shows "slot_off ph i + real_of ph \<le> slot_off ph j \<or> slot_off ph j + real_of ph \<le> slot_off ph i"
proof -
  have "slot_off ph a + stride_of ph \<le> slot_off ph b" if "a < b" for a b
    using slot_off_le [of "Suc a" b ph] that by (simp add: slot_off_Suc)
  from this [of i j] this [of j i] show ?thesis
    using assms(2) real_le_stride [OF assms(1)] by (cases "i < j") auto
qed

lemma slot_bitmap_simps [simp]:
  "bm_bitmap (slot_bitmap ph) = PAGE_HEADER_SIZE" "bm_size (slot_bitmap ph) = cap_of ph"
  by (simp_all add: slot_bitmap_def bitmap_init_def)

lemma page_bitmap_valid: "page_shape ph d \<Longrightarrow> bitmap_valid d (slot_bitmap ph)"
  by (auto simp: page_shape_def bitmap_valid_def slot_off_def)

lemma finite_used [simp]: "finite (used_slots ph d)"
  by (simp add: used_slots_def)

lemma used_slots_le: "card (used_slots ph d) \<le> cap_of ph"
  using card_mono [of "{..<cap_of ph}" "used_slots ph d"] by (auto simp: used_slots_def)

lemma header_num_irrelevant [simp]:
  "slot_off (ph\<lparr>p_record_num := n\<rparr>) = slot_off ph" "used_slots (ph\<lparr>p_record_num := n\<rparr>) = used_slots ph"
  "slot_bytes (ph\<lparr>p_record_num := n\<rparr>) = slot_bytes ph" "page_records (ph\<lparr>p_record_num := n\<rparr>) = page_records ph"
  "slot_bitmap (ph\<lparr>p_record_num := n\<rparr>) = slot_bitmap ph"
  by (auto simp: slot_off_def used_slots_def slot_bytes_def page_records_def slot_bitmap_def fun_eq_iff)

section \<open>The elementary changes of a page\<close>

lemma slot_bytes_eqI:
  assumes "mem_read d' (slot_off ph i) (real_of ph) = mem_read d (slot_off ph i) (real_of ph)"
    and "slot_off ph i + real_of ph \<le> length d"
  shows "slot_bytes ph d' i = slot_bytes ph d i"
  using assms by (auto simp: slot_bytes_def mem_read_def split: if_splits)

lemma page_set_num:
  assumes "page_shape ph d" "int32_range x"
  shows "page_shape (ph\<lparr>p_record_num := x\<rparr>) (upd32 d 0 x)"
    "used_slots ph (upd32 d 0 x) = used_slots ph d"
    "i < cap_of ph \<Longrightarrow> slot_bytes ph (upd32 d 0 x) i = slot_bytes ph d i"
proof -
  have len: "28 \<le> length d" "PAGE_HEADER_SIZE + bytes (cap_of ph) \<le> length d"
    using assms(1) by (auto simp: page_shape_def slot_off_def BP_PAGE_DATA_SIZE_value)
  show "page_shape (ph\<lparr>p_record_num := x\<rparr>) (upd32 d 0 x)"
    using assms len page_header_upd_num [of d ph x] by (simp add: page_shape_def)
  have "bit_at (upd32 d 0 x) PAGE_HEADER_SIZE i = bit_at d PAGE_HEADER_SIZE i" if "i < cap_of ph" for i
    using bytes_bound [OF that] len by (simp add: bit_at_def upd32_nth PAGE_HEADER_SIZE_def)
  then show "used_slots ph (upd32 d 0 x) = used_slots ph d" by (auto simp: used_slots_def)
  show "slot_bytes ph (upd32 d 0 x) i = slot_bytes ph d i" if "i < cap_of ph"
    using page_slot(1,2) [OF assms(1) that] len
    by (intro slot_bytes_eqI mem_read_upd32_other) (auto simp: PAGE_HEADER_SIZE_def)
qed

lemma page_write_slot:
  assumes sh: "page_shape ph d" and i: "i < cap_of ph" and r: "length r = real_of ph"
    and w: "mem_write d (slot_off ph i) r = Some d'"
  shows "page_shape ph d'" "used_slots ph d' = used_slots ph d"
    "j < cap_of ph \<Longrightarrow> slot_bytes ph d' j = (if j = i then r else slot_bytes ph d j)"
proof -
  note s = page_slot [OF sh i]
  show "page_shape ph d'"
    using sh s(2) page_header_mem_write [OF _ _ w] mem_write_length [OF w]
    by (auto simp: page_shape_def PAGE_HEADER_SIZE_def)
  have "bit_at d' PAGE_HEADER_SIZE k = bit_at d PAGE_HEADER_SIZE k" if "k < cap_of ph" for k
  proof -
    have "PAGE_HEADER_SIZE + k div 8 < slot_off ph i" using bytes_bound [OF that] s(2) by simp
    with s(1) mem_write_nth [OF w] show ?thesis by (simp add: bit_at_def)
  qed
  then show "used_slots ph d' = used_slots ph d" by (auto simp: used_slots_def)
  show "slot_bytes ph d' j = (if j = i then r else slot_bytes ph d j)" if j: "j < cap_of ph"
  proof (cases "j = i")
    case True
    then show ?thesis using mem_read_mem_write_same [OF w] r
      by (auto simp: slot_bytes_def mem_read_Some_iff)
  next
    case False
    then show ?thesis
      using page_slots_disjoint [OF sh False] page_slot(1) [OF sh j] r
      by (simp, intro slot_bytes_eqI mem_read_mem_write_other [OF w]) auto
  qed
qed

lemma page_change_bit:
  assumes sh: "page_shape ph d" and i: "i < cap_of ph" and d': "d' = d[PAGE_HEADER_SIZE + i div 8 := v]"
  shows "page_shape ph d'" "j < cap_of ph \<Longrightarrow> slot_bytes ph d' j = slot_bytes ph d j"
proof -
  show "page_shape ph d'"
    using sh page_header_update_bitmap [of d ph "PAGE_HEADER_SIZE + i div 8" v]
    by (auto simp: page_shape_def d')
  show "slot_bytes ph d' j = slot_bytes ph d j" if "j < cap_of ph"
    using page_slot(1,2) [OF sh that] bytes_bound [OF i] unfolding d'
    by (intro slot_bytes_eqI mem_read_list_update_other) auto
qed

lemma page_set_bit:
  assumes sh: "page_shape ph d" and i: "i < cap_of ph"
  shows "\<exists>d'. set_bit d (slot_bitmap ph) i = Some d' \<and> page_shape ph d' \<and>
    used_slots ph d' = insert i (used_slots ph d) \<and> (\<forall>j < cap_of ph. slot_bytes ph d' j = slot_bytes ph d j)"
proof -
  have v: "bitmap_valid d (slot_bitmap ph)" by (rule page_bitmap_valid [OF sh])
  obtain d' where d': "set_bit d (slot_bitmap ph) i = Some d'"
    using set_bit_eq [OF v] i by simp
  moreover have "used_slots ph d' = insert i (used_slots ph d)"
    using bit_at_set_bit [OF v _ d'] i by (auto simp: used_slots_def)
  ultimately show ?thesis
    using page_change_bit [OF sh i] set_bit_eq [OF v] i by auto
qed

lemma page_clear_bit:
  assumes sh: "page_shape ph d" and i: "i < cap_of ph"
  shows "\<exists>d'. clear_bit d (slot_bitmap ph) i = Some d' \<and> page_shape ph d' \<and>
    used_slots ph d' = used_slots ph d - {i} \<and> (\<forall>j < cap_of ph. slot_bytes ph d' j = slot_bytes ph d j)"
proof -
  have v: "bitmap_valid d (slot_bitmap ph)" by (rule page_bitmap_valid [OF sh])
  obtain d' where d': "clear_bit d (slot_bitmap ph) i = Some d'"
    using clear_bit_eq [OF v] i by simp
  moreover have "used_slots ph d' = used_slots ph d - {i}"
    using bit_at_clear_bit [OF v _ d'] i by (auto simp: used_slots_def)
  ultimately show ?thesis
    using page_change_bit [OF sh i] clear_bit_eq [OF v] i by auto
qed

section \<open>The operations on the map of records\<close>

text \<open>The handler's log record size is that of the page, as \<open>init\<close> and \<open>init_empty_page\<close> set it.\<close>

definition handler_for :: "PageHeader \<Rightarrow> RecordPageHandler \<Rightarrow> bool" where
  "handler_for ph h \<longleftrightarrow> ph_rw_mode h = READ_WRITE \<and> rl_record_size (ph_log h) = p_record_real_size ph"

lemma capacity_range: "page_shape ph d \<Longrightarrow> int32_range (p_record_capacity ph)"
  using page_header_fields(6) [of d ph] field32_range [of d 16] by (simp add: page_shape_def)

lemma page_wf_num:
  assumes "page_wf ph d"
  shows "0 \<le> p_record_num ph" "p_record_num ph \<le> p_record_capacity ph"
proof -
  have "p_record_num ph = int (card (used_slots ph d))" "0 \<le> p_record_capacity ph"
    using assms by (auto simp: page_wf_def page_shape_def)
  then show "0 \<le> p_record_num ph" "p_record_num ph \<le> p_record_capacity ph"
    using used_slots_le [of ph d] by linarith+
qed

lemma first_free_slot:
  assumes wf: "page_wf ph d" and nf: "p_record_num ph \<noteq> p_record_capacity ph"
  shows "\<exists>i. next_unsetted_bit d (slot_bitmap ph) 0 = Some (int i) \<and> i < cap_of ph \<and>
    i \<notin> used_slots ph d \<and> (\<forall>j < i. j \<in> used_slots ph d)"
proof -
  have sh: "page_shape ph d" using wf by (simp add: page_wf_def)
  from next_unsetted_bit_hit [OF page_bitmap_valid [OF sh], of 0] obtain r where
    r: "next_unsetted_bit d (slot_bitmap ph) 0 = Some r"
    and hit: "first_hit (\<lambda>i. \<not> bit_at d PAGE_HEADER_SIZE i) 0 (cap_of ph) r" by auto
  have "card (used_slots ph d) < cap_of ph"
    using wf nf page_wf_num [OF wf] by (simp add: page_wf_def)
  then have "used_slots ph d \<noteq> {..<cap_of ph}" by (metis card_lessThan less_irrefl)
  then obtain k where "k < cap_of ph" "\<not> bit_at d PAGE_HEADER_SIZE k"
    by (auto simp: used_slots_def)
  with hit have "r \<noteq> -1" by (auto simp: first_hit_def)
  with hit r show ?thesis
    by (intro exI [of _ "nat r"]) (fastforce simp: first_hit_def used_slots_def)
qed

lemma row_insert_full:
  "page_wf ph (frame_data f) \<Longrightarrow> p_record_num ph = p_record_capacity ph \<Longrightarrow> ph_rw_mode h = READ_WRITE \<Longrightarrow>
     row_insert_record h data f lg = Some (RECORD_NOMEM, None, f, lg)"
  by (simp add: row_insert_record_def page_wf_def page_shape_def)

lemma row_insert_spec:
  assumes wf: "page_wf ph (frame_data f)" and nf: "p_record_num ph \<noteq> p_record_capacity ph"
    and h: "handler_for ph h" and lg: "log_ready lg" and len: "real_of ph \<le> length data"
  shows "\<exists>i l d' lg'. row_insert_record h data f lg = Some (SUCCESS, Some (RID (get_page_num f) (int i)),
      f\<lparr>fr_dirty := True, fr_page := (fr_page f)\<lparr>pg_lsn := l, pg_data := d'\<rparr>\<rparr>, lg') \<and>
    i < cap_of ph \<and> i \<notin> used_slots ph (frame_data f) \<and> (\<forall>j < i. j \<in> used_slots ph (frame_data f)) \<and>
    page_wf (ph\<lparr>p_record_num := p_record_num ph + 1\<rparr>) d' \<and>
    page_records ph d' = (page_records ph (frame_data f))(i \<mapsto> take (real_of ph) data)"
proof -
  let ?d = "frame_data f" and ?n = "p_record_num ph + 1"
  have sh: "page_shape ph ?d" and num: "p_record_num ph = int (card (used_slots ph ?d))"
    using wf by (auto simp: page_wf_def)
  from first_free_slot [OF wf nf] obtain i where
    i: "next_unsetted_bit ?d (slot_bitmap ph) 0 = Some (int i)" "i < cap_of ph"
      "i \<notin> used_slots ph ?d" "\<forall>j < i. j \<in> used_slots ph ?d" by blast
  from page_set_bit [OF sh i(2)] obtain d1 where
    d1: "set_bit ?d (slot_bitmap ph) i = Some d1" "page_shape ph d1"
      "used_slots ph d1 = insert i (used_slots ph ?d)" "\<forall>j < cap_of ph. slot_bytes ph d1 j = slot_bytes ph ?d j"
    by blast
  have n32: "int32_range ?n"
    using capacity_range [OF sh] page_wf_num [OF wf] nf by (simp add: int32_range_def)
  let ?d2 = "upd32 d1 0 ?n"
  note s2 = page_set_num [OF d1(2) n32]
  have p2: "put32 d1 0 ?n = Some ?d2" using d1(2) by (simp add: page_shape_def BP_PAGE_DATA_SIZE_value)
  let ?p = "enc_record_log
      \<lparr>rh_buffer_pool_id = rl_buffer_pool_id (ph_log h), rh_operation_type = operation_id INSERT,
       rh_page_num = get_page_num f, rh_storage_format = format_id (rl_storage_format (ph_log h)),
       rh_column_num = 0, rh_slot_num = int i\<rparr> (take (real_of ph) data)"
  obtain rc l lg' where l: "append_and_stamp ?p (frame_set_data ?d2 f) lg =
      Some (rc, (frame_set_data ?d2 f)\<lparr>fr_page := (fr_page (frame_set_data ?d2 f))\<lparr>pg_lsn := l\<rparr>\<rparr>, lg')"
    using append_and_stamp_returns [OF lg] by blast
  let ?ph = "ph\<lparr>p_record_num := ?n\<rparr>"
  have off: "slot_off ph i + real_of ph \<le> length ?d2" using page_slot(1) [OF s2(1)] i(2) by simp
  then obtain d3 where w: "mem_write ?d2 (slot_off ph i) (take (real_of ph) data) = Some d3"
    using len by (simp add: mem_write_def min_absorb2)
  have "length (take (real_of ph) data) = real_of ?ph" using len by simp
  note s3 = page_write_slot [OF s2(1), of i "take (real_of ph) data" d3, simplified, OF i(2) _ w]
  have fin: "page_wf ?ph d3"
    using s3(1,2) len s2(2) d1(3) i(3) num by (simp add: page_wf_def)
  have rec: "page_records ph d3 = (page_records ph ?d)(i \<mapsto> take (real_of ph) data)"
  proof
    fix j
    show "page_records ph d3 j = ((page_records ph ?d)(i \<mapsto> take (real_of ph) data)) j"
    proof (cases "j < cap_of ph")
      case True
      then show ?thesis
        using s3(2,3) len s2(2,3) d1(3,4) i(2) by (auto simp: page_records_def)
    next
      case False
      then show ?thesis using i(2) by (auto simp: page_records_def used_slots_def)
    qed
  qed
  have "row_insert_record h data f lg = Some (SUCCESS, Some (RID (get_page_num f) (int i)),
      f\<lparr>fr_dirty := True, fr_page := (fr_page f)\<lparr>pg_lsn := l, pg_data := d3\<rparr>\<rparr>, lg')"
    using h sh nf i(1) d1(1) p2 l w len page_slot(3) [OF sh i(2)]
    by (simp add: row_insert_record_def handler_for_def page_shape_def log_insert_record_def RID_def
        frame_set_data_def mark_dirty_def get_page_num_def)
  with i fin rec show ?thesis by blast
qed

lemma get_slot_bit:
  "page_shape ph d \<Longrightarrow> i < cap_of ph \<Longrightarrow> get_bit d (slot_bitmap ph) i = Some (i \<in> used_slots ph d)"
  using get_bit_eq [OF page_bitmap_valid, of ph d i] by (simp add: used_slots_def)

lemma page_records_dom: "dom (page_records ph d) = used_slots ph d"
  by (auto simp: page_records_def split: if_splits)

lemma row_get_spec:
  assumes sh: "page_shape ph (frame_data f)" and i: "0 \<le> slot_num rid" "slot_num rid < p_record_capacity ph"
  shows "row_get_record rid f =
    (case page_records ph (frame_data f) (nat (slot_num rid)) of
       None \<Rightarrow> Some (RECORD_NOT_EXIST, None) | Some r \<Rightarrow> Some (SUCCESS, Some r))"
proof -
  have ic: "nat (slot_num rid) < cap_of ph" using i by simp
  have off: "get_record_data ph (slot_num rid) = Some (slot_off ph (nat (slot_num rid)))"
    using page_slot(3) [OF sh ic] i by simp
  show ?thesis
    using sh i page_slot(1) [OF sh ic] get_slot_bit [OF sh ic] off
    by (simp add: row_get_record_def page_shape_def page_records_def slot_bytes_def)
qed

lemma row_get_bad_slot:
  "page_shape ph (frame_data f) \<Longrightarrow> p_record_capacity ph \<le> slot_num rid \<Longrightarrow>
     row_get_record rid f = Some (RECORD_INVALID_RID, None)"
  by (simp add: row_get_record_def page_shape_def)

lemma page_delete_spec:
  assumes wf: "page_wf ph (frame_data f)" and h: "handler_for ph h" and lg: "log_ready lg"
    and i: "0 \<le> slot_num rid" "slot_num rid < p_record_capacity ph"
    and used: "nat (slot_num rid) \<in> used_slots ph (frame_data f)"
  shows "\<exists>l d' lg'. page_delete_record h rid f lg =
      Some (SUCCESS, f\<lparr>fr_dirty := True, fr_page := (fr_page f)\<lparr>pg_lsn := l, pg_data := d'\<rparr>\<rparr>, lg') \<and>
    page_wf (ph\<lparr>p_record_num := p_record_num ph - 1\<rparr>) d' \<and>
    page_records ph d' = (page_records ph (frame_data f))(nat (slot_num rid) := None)"
proof -
  let ?d = "frame_data f" and ?n = "p_record_num ph - 1" and ?i = "nat (slot_num rid)"
  have sh: "page_shape ph ?d" and num: "p_record_num ph = int (card (used_slots ph ?d))"
    using wf by (auto simp: page_wf_def)
  have ic: "?i < cap_of ph" using i by simp
  from page_clear_bit [OF sh ic] obtain d1 where
    d1: "clear_bit ?d (slot_bitmap ph) ?i = Some d1" "page_shape ph d1"
      "used_slots ph d1 = used_slots ph ?d - {?i}" "\<forall>j < cap_of ph. slot_bytes ph d1 j = slot_bytes ph ?d j"
    by blast
  have pos: "0 < card (used_slots ph ?d)" using used by (auto simp: card_gt_0_iff)
  have n32: "int32_range ?n"
    using capacity_range [OF sh] page_wf_num [OF wf] pos num by (simp add: int32_range_def)
  let ?d2 = "upd32 d1 0 ?n"
  note s2 = page_set_num [OF d1(2) n32]
  have p2: "put32 d1 0 ?n = Some ?d2" using d1(2) by (simp add: page_shape_def BP_PAGE_DATA_SIZE_value)
  have fin: "page_wf (ph\<lparr>p_record_num := ?n\<rparr>) ?d2"
    using s2 d1(3) num used pos by (simp add: page_wf_def of_nat_diff)
  have rec: "page_records ph ?d2 = (page_records ph ?d)(?i := None)"
    using s2(2,3) d1(3,4) by (auto simp: page_records_def used_slots_def fun_eq_iff)
  obtain rc l lg' where l: "log_delete_record (ph_log h) (mark_dirty (frame_set_data ?d2 f)) rid lg =
      Some (rc, (mark_dirty (frame_set_data ?d2 f))\<lparr>fr_page := (fr_page (mark_dirty (frame_set_data ?d2 f)))\<lparr>pg_lsn := l\<rparr>\<rparr>, lg')"
    using append_and_stamp_returns [OF lg] unfolding log_delete_record_def by blast
  have "page_delete_record h rid f lg =
      Some (SUCCESS, f\<lparr>fr_dirty := True, fr_page := (fr_page f)\<lparr>pg_lsn := l, pg_data := ?d2\<rparr>\<rparr>, lg')"
    using h sh i d1(1) p2 l used get_slot_bit [OF sh ic]
    by (simp add: page_delete_record_def handler_for_def page_shape_def frame_set_data_def mark_dirty_def)
  with fin rec show ?thesis by blast
qed

lemma page_delete_missing:
  assumes sh: "page_shape ph (frame_data f)" and h: "handler_for ph h"
    and i: "0 \<le> slot_num rid" "slot_num rid < p_record_capacity ph"
    and unused: "nat (slot_num rid) \<notin> used_slots ph (frame_data f)"
  shows "page_delete_record h rid f lg = Some (RECORD_NOT_EXIST, f, lg)"
  using h sh i unused get_slot_bit [OF sh, of "nat (slot_num rid)"]
  by (simp add: page_delete_record_def handler_for_def page_shape_def)

lemma row_update_spec:
  assumes wf: "page_wf ph (frame_data f)" and h: "handler_for ph h" and lg: "log_ready lg"
    and i: "0 \<le> slot_num rid" "slot_num rid < p_record_capacity ph"
    and used: "nat (slot_num rid) \<in> used_slots ph (frame_data f)" and len: "real_of ph \<le> length data"
  shows "\<exists>l d' lg'. row_update_record h rid data f lg =
      Some (SUCCESS, f\<lparr>fr_dirty := True, fr_page := (fr_page f)\<lparr>pg_lsn := l, pg_data := d'\<rparr>\<rparr>, lg') \<and>
    page_wf ph d' \<and>
    page_records ph d' = (page_records ph (frame_data f))(nat (slot_num rid) \<mapsto> take (real_of ph) data)"
proof -
  let ?d = "frame_data f" and ?i = "nat (slot_num rid)"
  have sh: "page_shape ph ?d" and num: "p_record_num ph = int (card (used_slots ph ?d))"
    using wf by (auto simp: page_wf_def)
  have ic: "?i < cap_of ph" using i by simp
  note s = page_slot [OF sh ic]
  have off: "get_record_data ph (slot_num rid) = Some (slot_off ph ?i)" using s(3) i by simp
  from s(1) len obtain d' where w: "mem_write ?d (slot_off ph ?i) (take (real_of ph) data) = Some d'"
    by (simp add: mem_write_def min_absorb2)
  note s3 = page_write_slot [OF sh ic _ w]
  have fin: "page_wf ph d'" using s3(1,2) len num by (simp add: page_wf_def)
  have rec: "page_records ph d' = (page_records ph ?d)(?i \<mapsto> take (real_of ph) data)"
    using s3(2,3) len used by (auto simp: page_records_def used_slots_def fun_eq_iff)
  let ?p = "enc_record_log
      \<lparr>rh_buffer_pool_id = rl_buffer_pool_id (ph_log h), rh_operation_type = operation_id UPDATE,
       rh_page_num = page_num rid, rh_storage_format = format_id (rl_storage_format (ph_log h)),
       rh_column_num = 0, rh_slot_num = slot_num rid\<rparr> (take (real_of ph) data)"
  let ?f = "mark_dirty (frame_set_data d' f)"
  obtain rc l lg' where l: "append_and_stamp ?p ?f lg = Some (rc, ?f\<lparr>fr_page := (fr_page ?f)\<lparr>pg_lsn := l\<rparr>\<rparr>, lg')"
    using append_and_stamp_returns [OF lg] by blast
  have "row_update_record h rid data f lg =
      Some (SUCCESS, f\<lparr>fr_dirty := True, fr_page := (fr_page f)\<lparr>pg_lsn := l, pg_data := d'\<rparr>\<rparr>, lg')"
    using h sh i w l used len get_slot_bit [OF sh ic] off
    by (simp add: row_update_record_def log_update_record_def handler_for_def page_shape_def
        frame_set_data_def mark_dirty_def)
  with fin rec show ?thesis by blast
qed

lemma row_update_missing:
  assumes sh: "page_shape ph (frame_data f)" and h: "handler_for ph h"
    and i: "0 \<le> slot_num rid" "slot_num rid < p_record_capacity ph"
    and unused: "nat (slot_num rid) \<notin> used_slots ph (frame_data f)"
  shows "row_update_record h rid data f lg = Some (RECORD_NOT_EXIST, f, lg)"
  using h sh i unused get_slot_bit [OF sh, of "nat (slot_num rid)"]
  by (simp add: row_update_record_def handler_for_def page_shape_def)

lemma row_recover_insert_spec:
  assumes wf: "page_wf ph (frame_data f)"
    and i: "0 \<le> slot_num rid" "slot_num rid < p_record_capacity ph" and len: "real_of ph \<le> length data"
  shows "\<exists>n d'. row_recover_insert_record data rid f =
      Some (SUCCESS, f\<lparr>fr_dirty := True, fr_page := (fr_page f)\<lparr>pg_data := d'\<rparr>\<rparr>) \<and>
    page_wf (ph\<lparr>p_record_num := n\<rparr>) d' \<and>
    page_records ph d' = (page_records ph (frame_data f))(nat (slot_num rid) \<mapsto> take (real_of ph) data)"
proof -
  let ?d = "frame_data f" and ?i = "nat (slot_num rid)"
  have sh: "page_shape ph ?d" and num: "p_record_num ph = int (card (used_slots ph ?d))"
    using wf by (auto simp: page_wf_def)
  have ic: "?i < cap_of ph" using i by simp
  have off: "get_record_data ph (slot_num rid) = Some (slot_off ph ?i)" using page_slot(3) [OF sh ic] i by simp
  have "\<exists>n d2. (if ?i \<notin> used_slots ph ?d
        then do { d \<leftarrow> set_bit ?d (slot_bitmap ph) ?i; put32 d 0 (p_record_num ph + 1) } else Some ?d) = Some d2 \<and>
      page_shape (ph\<lparr>p_record_num := n\<rparr>) d2 \<and> used_slots ph d2 = insert ?i (used_slots ph ?d) \<and>
      n = int (card (insert ?i (used_slots ph ?d))) \<and> (\<forall>j < cap_of ph. slot_bytes ph d2 j = slot_bytes ph ?d j)"
  proof (cases "?i \<in> used_slots ph ?d")
    case True
    then show ?thesis using sh
      by (intro exI [of _ "p_record_num ph"] exI [of _ ?d]) (simp add: insert_absorb flip: num)
  next
    case False
    from page_set_bit [OF sh ic] obtain d1 where
      d1: "set_bit ?d (slot_bitmap ph) ?i = Some d1" "page_shape ph d1"
        "used_slots ph d1 = insert ?i (used_slots ph ?d)" "\<forall>j < cap_of ph. slot_bytes ph d1 j = slot_bytes ph ?d j"
      by blast
    have cd: "card (insert ?i (used_slots ph ?d)) = Suc (card (used_slots ph ?d))" using False by simp
    then have "Suc (card (used_slots ph ?d)) \<le> cap_of ph"
      using used_slots_le [of ph d1] d1(3) by simp
    then have "p_record_num ph + 1 \<le> p_record_capacity ph" using num i by linarith
    then have "int32_range (p_record_num ph + 1)"
      using num capacity_range [OF sh] by (simp add: int32_range_def)
    note s2 = page_set_num [OF d1(2) this]
    have "put32 d1 0 (p_record_num ph + 1) = Some (upd32 d1 0 (p_record_num ph + 1))"
      using d1(2) by (simp add: page_shape_def BP_PAGE_DATA_SIZE_value)
    with s2 d1 False cd num show ?thesis
      by (intro exI [of _ "p_record_num ph + 1"] exI [of _ "upd32 d1 0 (p_record_num ph + 1)"]) simp
  qed
  then obtain n d2 where
    st: "(if ?i \<notin> used_slots ph ?d
        then do { d \<leftarrow> set_bit ?d (slot_bitmap ph) ?i; put32 d 0 (p_record_num ph + 1) } else Some ?d) = Some d2"
    and d2: "page_shape (ph\<lparr>p_record_num := n\<rparr>) d2" "used_slots ph d2 = insert ?i (used_slots ph ?d)"
      "n = int (card (insert ?i (used_slots ph ?d)))" "\<forall>j < cap_of ph. slot_bytes ph d2 j = slot_bytes ph ?d j"
    by blast
  have "slot_off ph ?i + real_of ph \<le> length d2" using page_slot(1) [OF d2(1)] ic by simp
  then obtain d' where w: "mem_write d2 (slot_off ph ?i) (take (real_of ph) data) = Some d'"
    using len by (simp add: mem_write_def min_absorb2)
  let ?ph = "ph\<lparr>p_record_num := n\<rparr>"
  have "?i < cap_of ?ph" "length (take (real_of ph) data) = real_of ?ph"
      "mem_write d2 (slot_off ?ph ?i) (take (real_of ph) data) = Some d'"
    using ic len w by simp_all
  note s3 = page_write_slot [OF d2(1) this, simplified]
  have "page_wf (ph\<lparr>p_record_num := n\<rparr>) d'" using s3(1,2) len d2(2,3) by (simp add: page_wf_def)
  moreover have "page_records ph d' = (page_records ph ?d)(?i \<mapsto> take (real_of ph) data)"
    using s3(2,3) len d2(2,4) ic by (auto simp: page_records_def used_slots_def fun_eq_iff)
  moreover have "row_recover_insert_record data rid f =
      Some (SUCCESS, f\<lparr>fr_dirty := True, fr_page := (fr_page f)\<lparr>pg_data := d'\<rparr>\<rparr>)"
    using sh i w len get_slot_bit [OF sh ic] off st
    by (simp add: row_recover_insert_record_def page_shape_def frame_set_data_def mark_dirty_def)
  ultimately show ?thesis by blast
qed

section \<open>Formatting a page\<close>

lemma and_not_7: "(x :: int) AND NOT 7 = 8 * (x div 8)"
proof -
  have "x AND NOT (mask 3) = push_bit 3 (drop_bit 3 x)"
    by (rule bit_eqI) (auto simp: bit_simps)
  then show ?thesis by (simp add: mask_eq_exp_minus_1 push_bit_eq_mult drop_bit_eq_div)
qed

lemma align8_eq: "align8 n = 8 * ((n + 7) div 8)"
  unfolding align8_def by (rule and_not_7)

lemma align8_bounds: "n \<le> align8 n" "align8 n < n + 8"
  by (simp_all add: align8_eq)

lemma sdiv_nonneg: "0 \<le> a \<Longrightarrow> 0 < b \<Longrightarrow> a sdiv b = a div b" for a b :: int
  by (auto simp: signed_divide_int_def sgn_if)

lemma page_bitmap_size_eq: "0 \<le> c \<Longrightarrow> page_bitmap_size c = int (bytes (nat c))"
  by (simp add: page_bitmap_size_def sdiv_nonneg bytes_eq zdiv_int)

text \<open>
  The loop ends with the largest capacity, not above the given one, whose slots fit the page.
\<close>

lemma fix_capacity_loop_fits:
  assumes "0 < rs" "off \<le> int BP_PAGE_DATA_SIZE" "0 \<le> cap"
  shows "\<exists>c. fix_capacity_loop rs cap (off + cap * rs) = Some c \<and> 0 \<le> c \<and> c \<le> cap \<and>
    off + c * rs \<le> int BP_PAGE_DATA_SIZE \<and> (c < cap \<longrightarrow> int BP_PAGE_DATA_SIZE < off + (c + 1) * rs)"
  using assms(3)
proof (induction "nat cap" arbitrary: cap)
  case 0
  then show ?case using assms(2) by (subst fix_capacity_loop.simps) auto
next
  case (Suc n)
  show ?case
  proof (cases "off + cap * rs > int BP_PAGE_DATA_SIZE")
    case True
    have eq: "off + cap * rs - rs = off + (cap - 1) * rs" by (simp add: algebra_simps)
    have "n = nat (cap - 1)" "0 \<le> cap - 1" using Suc.hyps(2) Suc.prems by auto
    from Suc.hyps(1) [OF this] obtain c where
      c: "fix_capacity_loop rs (cap - 1) (off + (cap - 1) * rs) = Some c" "0 \<le> c" "c \<le> cap - 1"
        "off + c * rs \<le> int BP_PAGE_DATA_SIZE" "c < cap - 1 \<longrightarrow> int BP_PAGE_DATA_SIZE < off + (c + 1) * rs"
      by blast
    moreover have "int BP_PAGE_DATA_SIZE < off + (c + 1) * rs"
      using c(3,5) True by (cases "c = cap - 1") auto
    ultimately show ?thesis using True
      by (subst fix_capacity_loop.simps) (auto simp: eq)
  next
    case False
    with Suc.prems show ?thesis by (subst fix_capacity_loop.simps) auto
  qed
qed

definition record_sizes_ok :: "int \<Rightarrow> int \<Rightarrow> bool" where
  "record_sizes_ok record_size column_num \<longleftrightarrow>
     0 < record_size \<and> record_size \<le> 28000 \<and> 0 \<le> column_num \<and> column_num \<le> 100"

lemma capacity_bounds:
  assumes "record_sizes_ok rs c"
  shows "1 \<le> page_record_capacity (int BP_PAGE_DATA_SIZE) (align8 rs) (c * 4)"
    "page_record_capacity (int BP_PAGE_DATA_SIZE) (align8 rs) (c * 4) \<le> 32723"
proof -
  let ?N = "32723 - c * 4" and ?S = "align8 rs"
  have S: "rs \<le> ?S" "?S < rs + 8" by (rule align8_bounds)+
  have N: "32323 \<le> ?N" "?N \<le> 32723" using assms by (auto simp: record_sizes_ok_def)
  have eq: "page_record_capacity (int BP_PAGE_DATA_SIZE) ?S (c * 4) = (8 * ?N) div (8 * ?S + 1)"
    using assms S N by (simp add: page_record_capacity_def PAGE_HEADER_SIZE_def BP_PAGE_DATA_SIZE_value
        sdiv_nonneg record_sizes_ok_def)
  have "8 * ?S + 1 \<le> 8 * ?N" using assms S N by (simp add: record_sizes_ok_def)
  then show "1 \<le> page_record_capacity (int BP_PAGE_DATA_SIZE) ?S (c * 4)"
    unfolding eq using zdiv_mono1 [of "8 * ?S + 1" "8 * ?N" "8 * ?S + 1"] assms S
    by (simp add: record_sizes_ok_def)
  have "(8 * ?N) div (8 * ?S + 1) \<le> (8 * ?N) div 8"
    using assms S N by (intro zdiv_mono2) (auto simp: record_sizes_ok_def)
  also have "\<dots> = ?N" by simp
  finally show "page_record_capacity (int BP_PAGE_DATA_SIZE) ?S (c * 4) \<le> 32723"
    unfolding eq using N by simp
qed

text \<open>A formatted page is well-formed and empty, and has room for at least one record.\<close>

lemma format_page_ok:
  assumes ok: "record_sizes_ok rs c" and len: "length d = BP_PAGE_DATA_SIZE"
  shows "\<exists>ph d'. format_page rs c d = Some d' \<and> page_wf ph d' \<and> used_slots ph d' = {} \<and>
    p_record_num ph = 0 \<and> p_record_real_size ph = rs \<and> 1 \<le> p_record_capacity ph \<and>
    p_col_idx_offset ph + c * 4 = p_data_offset ph \<and>
    int PAGE_HEADER_SIZE + int (bytes (cap_of ph)) \<le> p_col_idx_offset ph"
proof -
  let ?cap = "page_record_capacity (int BP_PAGE_DATA_SIZE) (align8 rs) (c * 4)"
  let ?idx = "align8 (int PAGE_HEADER_SIZE + page_bitmap_size ?cap)"
  let ?off = "?idx + c * 4" and ?S = "align8 rs"
  note cap = capacity_bounds [OF ok]
  have S: "rs \<le> ?S" "?S < rs + 8" by (rule align8_bounds)+
  have pbs: "page_bitmap_size ?cap = int (bytes (nat ?cap))" using cap by (simp add: page_bitmap_size_eq)
  have "bytes (nat ?cap) \<le> 4091" using cap(2) div_le_mono [of "nat ?cap + 7" 32730 8]
    by (simp add: bytes_eq)
  then have idx: "int PAGE_HEADER_SIZE + page_bitmap_size ?cap \<le> ?idx" "?idx \<le> 4126" "0 \<le> ?idx"
    using align8_bounds [of "int PAGE_HEADER_SIZE + page_bitmap_size ?cap"] pbs
    by (auto simp: PAGE_HEADER_SIZE_def)
  have r32: "int32_range 0" "int32_range c" "int32_range rs" "int32_range ?S" "int32_range ?cap"
      "int32_range ?idx" "int32_range ?off"
    using ok S cap idx by (auto simp: int32_range_def record_sizes_ok_def)
  let ?d7 = "upd32 (upd32 (upd32 (upd32 (upd32 (upd32 (upd32 d 0 0) 4 c) 8 rs) 12 ?S) 16 ?cap) 20 ?idx) 24 ?off"
  have l: "length d = 32752" using len by (simp add: BP_PAGE_DATA_SIZE_value)
  have h7: "page_header ?d7 = Some \<lparr>p_record_num = 0, p_column_num = c, p_record_real_size = rs,
      p_record_size = ?S, p_record_capacity = ?cap, p_col_idx_offset = ?idx, p_data_offset = ?off\<rparr>"
    using r32 l by (simp add: page_header_Some field32_upd32_same field32_upd32_other)
  have "0 < ?S" "?off \<le> int BP_PAGE_DATA_SIZE" "0 \<le> ?cap"
    using ok S idx cap by (auto simp: record_sizes_ok_def BP_PAGE_DATA_SIZE_value)
  from fix_capacity_loop_fits [OF this] obtain k where
    k: "fix_capacity_loop ?S ?cap (?off + ?cap * ?S) = Some k" "0 \<le> k" "k \<le> ?cap"
      "?off + k * ?S \<le> int BP_PAGE_DATA_SIZE" "k < ?cap \<longrightarrow> int BP_PAGE_DATA_SIZE < ?off + (k + 1) * ?S" by blast
  have k1: "1 \<le> k"
  proof (rule ccontr)
    assume "\<not> 1 \<le> k"
    then have "k = 0" using k(2) by simp
    with k(5) cap(1) have "int BP_PAGE_DATA_SIZE < ?off + ?S" by simp
    then show False using idx S ok by (simp add: record_sizes_ok_def BP_PAGE_DATA_SIZE_value)
  qed
  let ?ph = "\<lparr>p_record_num = 0, p_column_num = c, p_record_real_size = rs,
      p_record_size = ?S, p_record_capacity = k, p_col_idx_offset = ?idx, p_data_offset = ?off\<rparr>"
  let ?d8 = "upd32 ?d7 16 k" and ?z = "replicate (bytes (nat k)) (0 :: byte)"
  have k32: "int32_range k" using r32(5) k by (simp add: int32_range_def)
  have h8: "page_header ?d8 = Some ?ph"
    using r32 l k32 by (simp add: page_header_Some field32_upd32_same field32_upd32_other)
  have bk: "bytes (nat k) \<le> bytes (nat ?cap)"
    using k(3) by (auto simp: bytes_eq intro!: div_le_mono)
  have fits: "PAGE_HEADER_SIZE + bytes (nat k) \<le> length ?d8"
    using bk idx pbs l by (simp add: PAGE_HEADER_SIZE_def)
  then obtain d' where w: "mem_write ?d8 PAGE_HEADER_SIZE ?z = Some d'"
    by (simp add: mem_write_def)
  have "format_page rs c d = Some d'"
    using l h7 h8 k w by (simp add: format_page_def fix_record_capacity_def page_bitmap_size_eq)
  moreover have "page_header d' = Some ?ph" by (rule page_header_mem_write [OF h8 _ w]) simp
  moreover have used: "used_slots ?ph d' = {}"
  proof -
    have "d' ! (PAGE_HEADER_SIZE + i div 8) = 0" if "i < nat k" for i
      using mem_write_nth [OF w, of "PAGE_HEADER_SIZE + i div 8"] bytes_bound [OF that] fits by simp
    then show ?thesis by (auto simp: used_slots_def bit_at_def)
  qed
  moreover have "int (slot_off ?ph (nat k)) \<le> int BP_PAGE_DATA_SIZE"
    using k(2,4) idx S ok by (simp add: slot_off_def mult.commute record_sizes_ok_def)
  then have so: "slot_off ?ph (nat k) \<le> BP_PAGE_DATA_SIZE" by simp
  have "int (PAGE_HEADER_SIZE + bytes (nat k)) \<le> ?off"
    using idx bk pbs ok unfolding record_sizes_ok_def by linarith
  then have key: "PAGE_HEADER_SIZE + bytes (nat k) \<le> nat ?off" by linarith
  have "page_shape ?ph d'"
    using so key \<open>page_header d' = Some ?ph\<close> mem_write_length [OF w] l k(2) S ok idx
    by (simp add: page_shape_def BP_PAGE_DATA_SIZE_value record_sizes_ok_def)
  ultimately show ?thesis
    using k1 idx bk pbs by (intro exI [of _ ?ph] exI [of _ d']) (simp add: page_wf_def)
qed

lemma init_empty_page_ok:
  assumes ok: "record_sizes_ok rs (int (length lens))" and len: "length (frame_data f) = BP_PAGE_DATA_SIZE"
    and lg: "log_ready lg"
  shows "\<exists>rc ph l d' lg'. init_empty_page h rs lens f lg =
      Some (rc, h\<lparr>ph_log := (ph_log h)\<lparr>rl_record_size := rs\<rparr>\<rparr>,
            f\<lparr>fr_page := (fr_page f)\<lparr>pg_lsn := l, pg_data := d'\<rparr>\<rparr>, lg') \<and>
    page_wf ph d' \<and> used_slots ph d' = {} \<and> p_record_real_size ph = rs \<and> 1 \<le> p_record_capacity ph"
proof -
  from format_page_ok [OF ok len] obtain ph d1 where
    d1: "format_page rs (int (length lens)) (frame_data f) = Some d1" "page_wf ph d1" "used_slots ph d1 = {}"
      "p_record_num ph = 0" "p_record_real_size ph = rs" "1 \<le> p_record_capacity ph"
    and lay: "p_col_idx_offset ph + int (length lens) * 4 = p_data_offset ph"
      "int PAGE_HEADER_SIZE + int (bytes (cap_of ph)) \<le> p_col_idx_offset ph" by blast
  let ?idx = "concat (map enc32 (column_index (p_record_capacity ph) 0 lens))"
  have cil: "length (column_index cap st lens) = length lens" for cap st
    by (induction lens arbitrary: st) simp_all
  have il: "length ?idx = 4 * length lens"
    using cil [of "p_record_capacity ph" 0] by (simp add: length_concat comp_def sum_list_triv)
  have sh: "page_shape ph d1" using d1(2) by (simp add: page_wf_def)
  let ?off = "nat (p_col_idx_offset ph)"
  have off0: "0 \<le> p_col_idx_offset ph" using lay(2) by simp
  have offb: "PAGE_HEADER_SIZE + bytes (cap_of ph) \<le> ?off" "?off + length ?idx \<le> nat (p_data_offset ph)"
    using lay il by (auto simp: le_nat_iff)
  have "nat (p_data_offset ph) \<le> length d1" using sh by (simp add: page_shape_def slot_off_def)
  with offb obtain d2 where w: "mem_write d1 ?off ?idx = Some d2" by (simp add: mem_write_def)
  have h2: "page_header d2 = Some ph"
    using page_header_mem_write [OF _ _ w, of ph] sh offb(1) by (simp add: page_shape_def)
  have "bit_at d2 PAGE_HEADER_SIZE i = bit_at d1 PAGE_HEADER_SIZE i" if "i < cap_of ph" for i
  proof -
    have "PAGE_HEADER_SIZE + i div 8 < ?off" using bytes_bound [OF that] offb(1) by simp
    with w mem_write_nth [OF w] show ?thesis by (simp add: bit_at_def mem_write_Some_iff)
  qed
  then have u2: "used_slots ph d2 = {}" using d1(3) by (auto simp: used_slots_def)
  have wf2: "page_wf ph d2"
    using sh h2 u2 d1(4) mem_write_length [OF w] by (simp add: page_wf_def page_shape_def)
  obtain rc l lg' where l: "log_init_new_page ((ph_log h)\<lparr>rl_record_size := rs\<rparr>) (frame_set_data d2 f) (get_page_num f) ?idx lg =
      Some (rc, (frame_set_data d2 f)\<lparr>fr_page := (fr_page (frame_set_data d2 f))\<lparr>pg_lsn := l\<rparr>\<rparr>, lg')"
    using append_and_stamp_returns [OF lg] unfolding log_init_new_page_def by blast
  have "init_empty_page h rs lens f lg = Some (if OB_FAIL rc then rc else SUCCESS,
      h\<lparr>ph_log := (ph_log h)\<lparr>rl_record_size := rs\<rparr>\<rparr>, f\<lparr>fr_page := (fr_page f)\<lparr>pg_lsn := l, pg_data := d2\<rparr>\<rparr>, lg')"
    using d1(1) sh off0 w l by (simp add: init_empty_page_def page_shape_def frame_set_data_def)
  with wf2 u2 d1(5,6) show ?thesis by blast
qed

section \<open>A page as a machine that implements a map of slots\<close>

datatype page_op =
    PInsert "byte list"
  | PDelete SlotNum
  | PUpdate SlotNum "byte list"
  | PGet SlotNum

fun page_step ::
    "RecordPageHandler \<Rightarrow> page_op \<Rightarrow> Frame \<times> DbLog \<Rightarrow> ((RC \<times> SlotNum option \<times> byte list option) \<times> Frame \<times> DbLog) option" where
  "page_step h (PInsert data) (f, lg) = do {
     (rc, rid, f', lg') \<leftarrow> row_insert_record h data f lg;
     Some ((rc, map_option slot_num rid, None), f', lg')
   }"
| "page_step h (PDelete s) (f, lg) = do {
     (rc, f', lg') \<leftarrow> page_delete_record h (RID (get_page_num f) s) f lg;
     Some ((rc, None, None), f', lg')
   }"
| "page_step h (PUpdate s data) (f, lg) = do {
     (rc, f', lg') \<leftarrow> row_update_record h (RID (get_page_num f) s) data f lg;
     Some ((rc, None, None), f', lg')
   }"
| "page_step h (PGet s) (f, lg) = do {
     (rc, r) \<leftarrow> row_get_record (RID (get_page_num f) s) f;
     Some ((rc, None, r), f, lg)
   }"

text \<open>
  The specification: capacity, record size and the records by slot. An insertion takes the
  first free slot and is refused when there is none; the others report a missing record.
\<close>

type_synonym slot_map = "nat \<times> nat \<times> (nat \<rightharpoonup> byte list)"

fun slot_map_spec ::
    "page_op \<Rightarrow> slot_map \<Rightarrow> RC \<times> SlotNum option \<times> byte list option \<Rightarrow> slot_map \<Rightarrow> bool" where
  "slot_map_spec (PInsert data) (cap, n, m) r s' \<longleftrightarrow>
     (if card (dom m) = cap then r = (RECORD_NOMEM, None, None) \<and> s' = (cap, n, m)
      else \<exists>i < cap. m i = None \<and> (\<forall>j < i. m j \<noteq> None) \<and>
             r = (SUCCESS, Some (int i), None) \<and> s' = (cap, n, m(i \<mapsto> take n data)))"
| "slot_map_spec (PDelete s) (cap, n, m) r s' \<longleftrightarrow>
     (if m (nat s) = None then r = (RECORD_NOT_EXIST, None, None) \<and> s' = (cap, n, m)
      else r = (SUCCESS, None, None) \<and> s' = (cap, n, m(nat s := None)))"
| "slot_map_spec (PUpdate s data) (cap, n, m) r s' \<longleftrightarrow>
     (if m (nat s) = None then r = (RECORD_NOT_EXIST, None, None) \<and> s' = (cap, n, m)
      else r = (SUCCESS, None, None) \<and> s' = (cap, n, m(nat s \<mapsto> take n data)))"
| "slot_map_spec (PGet s) (cap, n, m) r s' \<longleftrightarrow> s' = (cap, n, m) \<and>
     (case m (nat s) of None \<Rightarrow> r = (RECORD_NOT_EXIST, None, None) | Some x \<Rightarrow> r = (SUCCESS, None, Some x))"

definition page_inv :: "RecordPageHandler \<Rightarrow> Frame \<times> DbLog \<Rightarrow> bool" where
  "page_inv h s \<longleftrightarrow> (\<exists>ph. page_wf ph (frame_data (fst s)) \<and> handler_for ph h)"

definition page_abs :: "Frame \<times> DbLog \<Rightarrow> slot_map" where
  "page_abs s = (case page_header (frame_data (fst s)) of
     None \<Rightarrow> (0, 0, Map.empty)
   | Some ph \<Rightarrow> (cap_of ph, real_of ph, page_records ph (frame_data (fst s))))"

text \<open>The slot is one of the page, the data is long enough, and the log can take an entry.\<close>

fun page_allowed :: "page_op \<Rightarrow> Frame \<times> DbLog \<Rightarrow> bool" where
  "page_allowed (PInsert data) s \<longleftrightarrow> log_ready (snd s) \<and> fst (snd (page_abs s)) \<le> length data"
| "page_allowed (PDelete i) s \<longleftrightarrow> log_ready (snd s) \<and> 0 \<le> i \<and> nat i < fst (page_abs s)"
| "page_allowed (PUpdate i data) s \<longleftrightarrow> log_ready (snd s) \<and> 0 \<le> i \<and> nat i < fst (page_abs s) \<and>
     fst (snd (page_abs s)) \<le> length data"
| "page_allowed (PGet i) s \<longleftrightarrow> 0 \<le> i \<and> nat i < fst (page_abs s)"

lemma page_abs_wf:
  "page_wf ph (frame_data f) \<Longrightarrow> page_abs (f, lg) = (cap_of ph, real_of ph, page_records ph (frame_data f))"
  by (simp add: page_abs_def page_wf_def page_shape_def)

lemma page_step_ok:
  assumes inv: "page_inv h (f, lg)" and al: "page_allowed x (f, lg)"
  shows "\<exists>r s'. page_step h x (f, lg) = Some (r, s') \<and> page_inv h s' \<and>
    slot_map_spec x (page_abs (f, lg)) r (page_abs s')"
proof -
  from inv obtain ph where wf: "page_wf ph (frame_data f)" and h: "handler_for ph h"
    by (auto simp: page_inv_def)
  have sh: "page_shape ph (frame_data f)" using wf by (simp add: page_wf_def)
  note abs = page_abs_wf [OF wf]
  have dom: "dom (page_records ph (frame_data f)) = used_slots ph (frame_data f)" by (rule page_records_dom)
  have none: "page_records ph (frame_data f) i = None \<longleftrightarrow> i \<notin> used_slots ph (frame_data f)" for i
    by (simp add: page_records_def)
  have h': "handler_for (ph\<lparr>p_record_num := n\<rparr>) h" for n using h by (simp add: handler_for_def)
  show ?thesis
  proof (cases x)
    case (PInsert data)
    show ?thesis
    proof (cases "p_record_num ph = p_record_capacity ph")
      case True
      then have "card (used_slots ph (frame_data f)) = cap_of ph" using wf by (simp add: page_wf_def)
      with row_insert_full [OF wf True, of h data lg] h wf PInsert show ?thesis
        by (auto simp: handler_for_def abs dom page_inv_def)
    next
      case False
      have "card (used_slots ph (frame_data f)) \<noteq> cap_of ph"
        using False wf sh by (auto simp: page_wf_def page_shape_def)
      moreover have "log_ready lg" "real_of ph \<le> length data" using al by (simp_all add: PInsert abs)
      ultimately show ?thesis
        using row_insert_spec [OF wf False h, of lg data] h'
        by (fastforce simp: PInsert abs dom none RID_def page_inv_def page_abs_wf)
    qed
  next
    case (PDelete i)
    have i: "0 \<le> i" "i < p_record_capacity ph" "log_ready lg" using al by (auto simp: PDelete abs)
    let ?rid = "RID (get_page_num f) i"
    show ?thesis
    proof (cases "nat i \<in> used_slots ph (frame_data f)")
      case True
      from page_delete_spec [OF wf h i(3), of ?rid] i True h' show ?thesis
        by (fastforce simp: PDelete abs none RID_def page_inv_def page_abs_wf)
    next
      case False
      with page_delete_missing [OF sh h, of ?rid lg] i wf h show ?thesis
        by (auto simp: PDelete abs none RID_def page_inv_def)
    qed
  next
    case (PUpdate i data)
    have i: "0 \<le> i" "i < p_record_capacity ph" "log_ready lg" "real_of ph \<le> length data"
      using al by (auto simp: PUpdate abs)
    let ?rid = "RID (get_page_num f) i"
    show ?thesis
    proof (cases "nat i \<in> used_slots ph (frame_data f)")
      case True
      from row_update_spec [OF wf h i(3), of ?rid data] i True h show ?thesis
        by (fastforce simp: PUpdate abs none RID_def page_inv_def page_abs_wf)
    next
      case False
      with row_update_missing [OF sh h, of ?rid data lg] i wf h show ?thesis
        by (auto simp: PUpdate abs none RID_def page_inv_def)
    qed
  next
    case (PGet i)
    have i: "0 \<le> i" "i < p_record_capacity ph" using al by (auto simp: PGet abs)
    from row_get_spec [OF sh, of "RID (get_page_num f) i"] i inv show ?thesis
      by (auto simp: PGet abs RID_def split: option.splits)
  qed
qed

interpretation row_page: refining_machine "page_step h" "page_inv h" page_allowed page_abs slot_map_spec
proof
  fix s x r s'
  assume inv: "page_inv h s" and al: "page_allowed x s"
  obtain f lg where s: "s = (f, lg)" by fastforce
  note ok = page_step_ok [OF inv [unfolded s] al [unfolded s]]
  show "\<exists>r s'. page_step h x s = Some (r, s')" using ok by (auto simp: s)
  show "page_step h x s = Some (r, s') \<Longrightarrow> page_inv h s'" using ok by (auto simp: s)
  show "page_step h x s = Some (r, s') \<Longrightarrow> slot_map_spec x (page_abs s) r (page_abs s')"
    using ok by (auto simp: s)
qed

section \<open>Iterating over a page\<close>

text \<open>The used slots from \<open>s\<close> on, ascending: what an iterator that stands before \<open>s\<close> still returns.\<close>

definition slots_from :: "PageHeader \<Rightarrow> byte list \<Rightarrow> nat \<Rightarrow> nat list" where
  "slots_from ph d s = filter (\<lambda>i. i \<in> used_slots ph d) [s..<cap_of ph]"

lemma slots_from_hit:
  assumes "first_hit (\<lambda>i. bit_at d PAGE_HEADER_SIZE i) s (cap_of ph) r"
  shows "slots_from ph d s = (if r = -1 then [] else nat r # slots_from ph d (nat r + 1))"
proof (cases "r = -1")
  case True
  then show ?thesis using assms by (auto simp: first_hit_def slots_from_def used_slots_def)
next
  case False
  with assms have r: "s \<le> nat r" "nat r < cap_of ph" "bit_at d PAGE_HEADER_SIZE (nat r)"
    and lt: "\<And>j. s \<le> j \<Longrightarrow> j < nat r \<Longrightarrow> \<not> bit_at d PAGE_HEADER_SIZE j"
    by (auto simp: first_hit_def)
  have "[s..<cap_of ph] = [s..<nat r] @ nat r # [nat r + 1..<cap_of ph]"
    using r by (metis Suc_eq_plus1 le_add_diff_inverse less_imp_le_nat upt_add_eq_append upt_conv_Cons)
  moreover have "filter (\<lambda>i. i \<in> used_slots ph d) [s..<nat r] = []"
    using lt by (auto simp: used_slots_def)
  ultimately show ?thesis using r False by (simp add: slots_from_def used_slots_def)
qed

text \<open>The iterator stands before slot \<open>s\<close> of the page.\<close>

definition iterator_at :: "PageHeader \<Rightarrow> Frame \<Rightarrow> RecordPageIterator \<Rightarrow> nat \<Rightarrow> bool" where
  "iterator_at ph f it s \<longleftrightarrow> it_page_num it = get_page_num f \<and> it_bitmap it = slot_bitmap ph \<and>
     first_hit (\<lambda>i. bit_at (frame_data f) PAGE_HEADER_SIZE i) s (cap_of ph) (it_next_slot_num it)"

lemma iterator_init_at:
  assumes sh: "page_shape ph (frame_data f)"
  shows "\<exists>it. iterator_init 0 f = Some it \<and> iterator_at ph f it 0"
  using next_setted_bit_hit [OF page_bitmap_valid [OF sh], of 0] sh
  by (auto simp: iterator_init_def iterator_at_def page_shape_def)

lemma iterator_has_next_at:
  "iterator_at ph f it s \<Longrightarrow> iterator_has_next it \<longleftrightarrow> slots_from ph (frame_data f) s \<noteq> []"
  using slots_from_hit [of "frame_data f" s ph "it_next_slot_num it"]
  by (auto simp: iterator_at_def iterator_has_next_def)

lemma iterator_next_at:
  assumes sh: "page_shape ph (frame_data f)" and it: "iterator_at ph f it s"
    and sl: "slots_from ph (frame_data f) s = i # rest"
  shows "\<exists>it'. iterator_next it record f =
      Some (SUCCESS, (RID (get_page_num f) (int i), slot_bytes ph (frame_data f) i), it') \<and>
    iterator_at ph f it' (i + 1) \<and> slots_from ph (frame_data f) (i + 1) = rest \<and> i \<in> used_slots ph (frame_data f)"
proof -
  let ?r = "it_next_slot_num it"
  have hit: "first_hit (\<lambda>i. bit_at (frame_data f) PAGE_HEADER_SIZE i) s (cap_of ph) ?r"
    and pn: "it_page_num it = get_page_num f" "it_bitmap it = slot_bitmap ph"
    using it by (auto simp: iterator_at_def)
  from slots_from_hit [OF hit] sl have r: "?r \<noteq> -1" "nat ?r = i" "slots_from ph (frame_data f) (i + 1) = rest"
    by (auto split: if_splits)
  from first_hit_ge [OF hit r(1)] have b: "bit_at (frame_data f) PAGE_HEADER_SIZE i" "0 \<le> ?r" "?r < int (cap_of ph)"
    using r(2) by auto
  then have ri: "?r = int i" "i < cap_of ph" using r(2) by linarith+
  have u: "i \<in> used_slots ph (frame_data f)" using b ri by (simp add: used_slots_def)
  have "row_get_record (RID (get_page_num f) (int i)) f = Some (SUCCESS, Some (slot_bytes ph (frame_data f) i))"
    using row_get_spec [OF sh, of "RID (get_page_num f) (int i)"] ri u
    by (simp add: RID_def page_records_def)
  moreover obtain n where "next_setted_bit (frame_data f) (slot_bitmap ph) (i + 1) = Some n"
      "first_hit (\<lambda>i. bit_at (frame_data f) PAGE_HEADER_SIZE i) (i + 1) (cap_of ph) n"
    using next_setted_bit_hit [OF page_bitmap_valid [OF sh], of "i + 1"] by auto
  ultimately show ?thesis
    using r(3) u pn ri by (simp add: iterator_next_def iterator_at_def RID_def)
qed

section \<open>Properties\<close>

text \<open>
  C8. Every sequence of insertions, deletions, updates and lookups on a well-formed row page
  runs without leaving the page's memory, keeps the page well-formed, and returns the codes,
  slots and records of a map from slots to records: an insertion takes the first free slot, a
  full page refuses it, and no operation touches another slot.
\<close>

theorem record_page_refines:
  assumes "page_inv h s" "allowed_run (page_step h) page_allowed ops s"
  shows "\<exists>rs s'. run_ops (page_step h) ops s = Some (rs, s') \<and> page_inv h s' \<and>
    spec_run slot_map_spec ops (page_abs s) rs (page_abs s')"
  by (rule row_page.run_refines [OF assms])

lemma example_page:
  "\<exists>h f. page_inv h (f, Vacuous) \<and> (\<exists>n. 1 \<le> n \<and> page_abs (f, Vacuous) = (n, 8, Map.empty))"
proof -
  let ?h = "\<lparr>ph_rw_mode = READ_WRITE,
      ph_log = \<lparr>rl_buffer_pool_id = 1, rl_record_size = 8, rl_storage_format = ROW_FORMAT\<rparr>\<rparr>"
  have "record_sizes_ok 8 (int (length []))" "length (frame_data Frame_new) = BP_PAGE_DATA_SIZE"
    by (simp_all add: record_sizes_ok_def Frame_new_def zero_page_def)
  from init_empty_page_ok [OF this, of Vacuous ?h] obtain ph d where
    d: "page_wf ph d" "used_slots ph d = {}" "p_record_real_size ph = 8" "1 \<le> p_record_capacity ph" by auto
  let ?f = "frame_set_data d Frame_new"
  have "page_wf ph (frame_data ?f)" "used_slots ph (frame_data ?f) = {}" using d by (simp_all add: frame_set_data_def)
  moreover from this(2) have "page_records ph (frame_data ?f) = Map.empty"
    by (simp add: page_records_def fun_eq_iff)
  ultimately show ?thesis using d(3,4)
    by (intro exI [of _ ?h] exI [of _ ?f]) (auto simp: page_inv_def handler_for_def page_abs_wf)
qed

theorem record_page_refines_witness:
  "\<exists>h s s'. run_ops (page_step h) [PInsert (replicate 8 1)] s = Some ([(SUCCESS, Some 0, None)], s') \<and>
    snd (snd (page_abs s')) 0 = Some (replicate 8 1)"
proof -
  from example_page obtain h f n where inv: "page_inv h (f, Vacuous)"
    and n: "1 \<le> n" "page_abs (f, Vacuous) = (n, 8, Map.empty)" by blast
  from n have "allowed_run (page_step h) page_allowed [PInsert (replicate 8 1)] (f, Vacuous)"
    by (simp split: option.splits)
  from record_page_refines [OF inv this] n obtain s' i where
    "run_ops (page_step h) [PInsert (replicate 8 1)] (f, Vacuous) = Some ([(SUCCESS, Some (int i), None)], s')"
    "\<forall>j < i. (Map.empty :: nat \<Rightarrow> byte list option) j \<noteq> None" "page_abs s' = (n, 8, [i \<mapsto> replicate 8 1])"
    by auto
  moreover then have "i = 0" by auto
  ultimately show ?thesis by (intro exI [of _ h] exI [of _ "(f, Vacuous)"] exI [of _ s']) simp
qed

end
