(* ===== verification/BufferPool.thy ===== *)
theory BufferPool
  imports Bitmap Crc RecordLog
begin

text \<open>
  The buffer pool (\<open>storage/buffer/\<close>): the frame manager with its LRU list and frame allocator,
  the double write buffer, and \<open>DiskBufferPool\<close> and \<open>BufferPoolManager\<close> with page allocation,
  eviction and the redo of the allocation log.

  The state is that of one \<open>BufferPoolManager\<close>: the frames of all pools, the double write
  buffer, the open pools and the files. A frame pointer that a client holds is the frame's id:
  the frame stays in the manager as long as it is pinned. A file is the list of its pages.
  Reads and writes of the files succeed, except for a read behind the end. The lists the model
  keeps for unordered maps give their iteration order.
\<close>

section \<open>The LRU cache of frames\<close>

text \<open>The nodes from \<open>lru_front_\<close> to \<open>lru_tail_\<close>; \<open>get\<close> moves the node it finds to the front.\<close>

definition lru_touch :: "'k \<Rightarrow> ('k \<times> 'v) list \<Rightarrow> ('k \<times> 'v) list" where
  "lru_touch k xs = (case map_of xs k of None \<Rightarrow> xs
     | Some v \<Rightarrow> (k, v) # filter (\<lambda>p. fst p \<noteq> k) xs)"

definition lru_put :: "'k \<Rightarrow> 'v \<Rightarrow> ('k \<times> 'v) list \<Rightarrow> ('k \<times> 'v) list" where
  "lru_put k v xs = (k, v) # filter (\<lambda>p. fst p \<noteq> k) xs"

definition lru_remove :: "'k \<Rightarrow> ('k \<times> 'v) list \<Rightarrow> ('k \<times> 'v) list" where
  "lru_remove k xs = filter (\<lambda>p. fst p \<noteq> k) xs"

section \<open>The frame manager\<close>

record BPFrameManager =
  bf_frames :: "(FrameId \<times> Frame) list"
  bf_frees :: "Frame list"  \<comment> \<open>\<open>frees\<close> of the fixed-size \<open>MemPoolSimple\<close> allocator\<close>

definition frame_of :: "BPFrameManager \<Rightarrow> FrameId \<Rightarrow> Frame option" where
  "frame_of fm i = map_of (bf_frames fm) i"

text \<open>A change of the object behind a frame pointer.\<close>

definition set_frame :: "FrameId \<Rightarrow> Frame \<Rightarrow> BPFrameManager \<Rightarrow> BPFrameManager" where
  "set_frame i f fm = fm\<lparr>bf_frames := map (\<lambda>p. if fst p = i then (i, f) else p) (bf_frames fm)\<rparr>"

definition frames_get :: "FrameId \<Rightarrow> BPFrameManager \<Rightarrow> bool \<times> BPFrameManager" where
  "frames_get i fm = (case frame_of fm i of
     None \<Rightarrow> (False, fm)
   | Some f \<Rightarrow> (True, set_frame i (pin f) (fm\<lparr>bf_frames := lru_touch i (bf_frames fm)\<rparr>)))"

text \<open>\<open>alloc\<close>: the result says whether a frame was found or taken from the allocator.\<close>

definition frames_alloc :: "FrameId \<Rightarrow> BPFrameManager \<Rightarrow> (bool \<times> BPFrameManager) option" where
  "frames_alloc i fm =
     (case frames_get i fm of
        (True, fm') \<Rightarrow> Some (True, fm')
      | (False, _) \<Rightarrow>
          (case bf_frees fm of
             [] \<Rightarrow> Some (False, fm)
           | f # fs \<Rightarrow> do {
               assert_that (fr_pin_count f = 0);
               Some (True, fm\<lparr>bf_frees := fs,
                 bf_frames := lru_put i (pin (f\<lparr>fr_frame_id := i\<rparr>)) (bf_frames fm)\<rparr>)
             }))"

definition frames_free :: "FrameId \<Rightarrow> BPFrameManager \<Rightarrow> BPFrameManager option" where
  "frames_free i fm = do {
     f \<leftarrow> frame_of fm i;
     assert_that (fr_pin_count f = 1);
     f' \<leftarrow> unpin (f\<lparr>fr_frame_id := (fst (fr_frame_id f), -1)\<rparr>);
     Some (fm\<lparr>bf_frames := lru_remove i (bf_frames fm), bf_frees := bf_frees fm @ [f']\<rparr>)
   }"

text \<open>\<open>find_list\<close> pins every frame of a pool.\<close>

definition frames_find_list :: "int \<Rightarrow> BPFrameManager \<Rightarrow> FrameId list \<times> BPFrameManager" where
  "frames_find_list bid fm =
     (map fst (filter (\<lambda>p. fst (fst p) = bid) (bf_frames fm)),
      fm\<lparr>bf_frames := map (\<lambda>p. if fst (fst p) = bid then (fst p, pin (snd p)) else p) (bf_frames fm)\<rparr>)"

text \<open>The frames \<open>purge_frames\<close> picks: the first \<open>count\<close> unpinned ones from the tail.\<close>

definition frames_can_purge :: "nat \<Rightarrow> BPFrameManager \<Rightarrow> FrameId list" where
  "frames_can_purge count fm =
     take count (map fst (filter (\<lambda>p. can_purge (snd p)) (rev (bf_frames fm))))"

section \<open>The double write buffer\<close>

record DoubleWritePage =
  dp_key :: FrameId
  dp_page_index :: nat
  dp_valid :: bool
  dp_page :: Page

record DiskDoubleWriteBuffer =
  dw_max_pages :: nat
  dw_page_cnt :: nat
  dw_pages :: "(FrameId \<times> DoubleWritePage) list"
  dw_file :: "nat \<Rightarrow> DoubleWritePage option"  \<comment> \<open>the slots of the shared file\<close>
  dw_file_cnt :: nat  \<comment> \<open>\<open>page_cnt\<close> in the header of the shared file\<close>

datatype DoubleWriteBuffer = DiskDwb DiskDoubleWriteBuffer | VacuousDwb

section \<open>The manager\<close>

record BufferPoolManager =
  bpm_frames :: BPFrameManager
  bpm_dblwr :: DoubleWriteBuffer
  bpm_pools :: "(int \<times> string) list"  \<comment> \<open>\<open>id_to_buffer_pools_\<close>: the open pools and their files\<close>
  bpm_next_id :: int
  bpm_disk :: "string \<Rightarrow> Page list option"
  bpm_log :: DbLog

definition get_buffer_pool :: "int \<Rightarrow> BufferPoolManager \<Rightarrow> RC \<times> string option" where
  "get_buffer_pool bid st = (case map_of (bpm_pools st) bid of
     None \<Rightarrow> (INTERNAL, None) | Some n \<Rightarrow> (SUCCESS, Some n))"

text \<open>Writing page \<open>pn\<close> of a file; a gap before it reads as zeros.\<close>

definition file_write :: "nat \<Rightarrow> Page \<Rightarrow> Page list \<Rightarrow> Page list" where
  "file_write pn p ps =
     (if pn < length ps then ps[pn := p]
      else ps @ replicate (pn - length ps) zero_page @ [p])"

text \<open>\<open>DiskBufferPool::write_page\<close> of the pool \<open>bid\<close>; a negative offset fails to seek.\<close>

definition write_page :: "int \<Rightarrow> PageNum \<Rightarrow> Page \<Rightarrow> BufferPoolManager \<Rightarrow> (RC \<times> BufferPoolManager) option" where
  "write_page bid pn p st = do {
     name \<leftarrow> map_of (bpm_pools st) bid;
     ps \<leftarrow> bpm_disk st name;
     if pn < 0 then Some (IOERR_SEEK, st)
     else Some (SUCCESS, st\<lparr>bpm_disk := (bpm_disk st)(name \<mapsto> file_write (nat pn) p ps)\<rparr>)
   }"

subsection \<open>Operations of the double write buffer\<close>

definition write_page_internal :: "DoubleWritePage \<Rightarrow> DiskDoubleWriteBuffer \<Rightarrow> DiskDoubleWriteBuffer" where
  "write_page_internal dp dw = dw\<lparr>dw_file := (dw_file dw)(dp_page_index dp \<mapsto> dp)\<rparr>"

text \<open>\<open>DiskDoubleWriteBuffer::write_page\<close>: the pool of a valid page must be open.\<close>

definition dblwr_write_page :: "DoubleWritePage \<Rightarrow> BufferPoolManager \<Rightarrow> (RC \<times> BufferPoolManager) option" where
  "dblwr_write_page dp st =
     (if \<not> dp_valid dp then Some (SUCCESS, st)
      else do {
        assert_that (fst (get_buffer_pool (fst (dp_key dp)) st) = SUCCESS);
        write_page (fst (dp_key dp)) (snd (dp_key dp)) (dp_page dp) st
      })"

text \<open>The loop of \<open>flush_page\<close>; each page written is marked invalid in the shared file.\<close>

fun dblwr_flush_loop ::
    "(FrameId \<times> DoubleWritePage) list \<Rightarrow> DiskDoubleWriteBuffer \<Rightarrow> BufferPoolManager \<Rightarrow>
     (RC \<times> DiskDoubleWriteBuffer \<times> BufferPoolManager) option" where
  "dblwr_flush_loop [] dw st = Some (SUCCESS, dw, st)"
| "dblwr_flush_loop ((k, dp) # ps) dw st = do {
     (rc, st') \<leftarrow> dblwr_write_page dp st;
     if rc \<noteq> SUCCESS then Some (rc, dw, st')
     else dblwr_flush_loop ps (write_page_internal (dp\<lparr>dp_valid := False\<rparr>) dw) st'
   }"

definition dblwr_flush_page ::
    "DiskDoubleWriteBuffer \<Rightarrow> BufferPoolManager \<Rightarrow> (RC \<times> DiskDoubleWriteBuffer \<times> BufferPoolManager) option" where
  "dblwr_flush_page dw st = do {
     (rc, dw', st') \<leftarrow> dblwr_flush_loop (dw_pages dw) dw st;
     Some (if rc \<noteq> SUCCESS then (rc, dw', st')
           else (SUCCESS, dw'\<lparr>dw_pages := [], dw_page_cnt := 0\<rparr>, st'))
   }"

definition dblwr_add_page ::
    "int \<Rightarrow> PageNum \<Rightarrow> Page \<Rightarrow> BufferPoolManager \<Rightarrow> (RC \<times> BufferPoolManager) option" where
  "dblwr_add_page bid pn p st = (case bpm_dblwr st of
     VacuousDwb \<Rightarrow> write_page bid pn p st
   | DiskDwb dw \<Rightarrow>
       (case map_of (dw_pages dw) (bid, pn) of
          Some dp \<Rightarrow>
            (let dp' = dp\<lparr>dp_page := p\<rparr>
             in Some (SUCCESS, st\<lparr>bpm_dblwr := DiskDwb (write_page_internal dp'
                  (dw\<lparr>dw_pages := AList.update (bid, pn) dp' (dw_pages dw)\<rparr>))\<rparr>))
        | None \<Rightarrow>
            (let cnt = length (dw_pages dw);
                 dp = \<lparr>dp_key = (bid, pn), dp_page_index = cnt, dp_valid = True, dp_page = p\<rparr>;
                 dw1 = write_page_internal dp (dw\<lparr>dw_pages := dw_pages dw @ [((bid, pn), dp)]\<rparr>);
                 dw2 = (if cnt + 1 > dw_page_cnt dw1
                        then dw1\<lparr>dw_page_cnt := cnt + 1, dw_file_cnt := cnt + 1\<rparr> else dw1)
             in if length (dw_pages dw2) \<ge> dw_max_pages dw2
                then do {
                  (rc, dw3, st') \<leftarrow> dblwr_flush_page dw2 st;
                  Some (rc, st'\<lparr>bpm_dblwr := DiskDwb dw3\<rparr>)
                } else Some (SUCCESS, st\<lparr>bpm_dblwr := DiskDwb dw2\<rparr>))))"

definition dblwr_read_page :: "int \<Rightarrow> PageNum \<Rightarrow> BufferPoolManager \<Rightarrow> RC \<times> Page option" where
  "dblwr_read_page bid pn st = (case bpm_dblwr st of
     VacuousDwb \<Rightarrow> (BUFFERPOOL_INVALID_PAGE_NUM, None)
   | DiskDwb dw \<Rightarrow>
       (case map_of (dw_pages dw) (bid, pn) of
          Some dp \<Rightarrow> (SUCCESS, Some (dp_page dp))
        | None \<Rightarrow> (BUFFERPOOL_INVALID_PAGE_NUM, None)))"

text \<open>\<open>clear_pages\<close>: the pages of the pool are written in the order of their numbers.\<close>

fun clear_loop ::
    "int \<Rightarrow> DoubleWritePage list \<Rightarrow> DiskDoubleWriteBuffer \<Rightarrow> BufferPoolManager \<Rightarrow>
     (DiskDoubleWriteBuffer \<times> BufferPoolManager) option" where
  "clear_loop bid [] dw st = Some (dw, st)"
| "clear_loop bid (dp # ps) dw st = do {
     (rc, st') \<leftarrow> write_page bid (snd (dp_key dp)) (dp_page dp) st;
     if OB_FAIL rc then Some (dw, st')
     else clear_loop bid ps (write_page_internal (dp\<lparr>dp_valid := False\<rparr>) dw) st'
   }"

definition dblwr_clear_pages :: "int \<Rightarrow> BufferPoolManager \<Rightarrow> (RC \<times> BufferPoolManager) option" where
  "dblwr_clear_pages bid st = (case bpm_dblwr st of
     VacuousDwb \<Rightarrow> Some (SUCCESS, st)
   | DiskDwb dw \<Rightarrow> do {
       let spec_pages = map snd (filter (\<lambda>p. fst (dp_key (snd p)) = bid) (dw_pages dw));
       let dw1 = dw\<lparr>dw_pages := filter (\<lambda>p. fst (dp_key (snd p)) \<noteq> bid) (dw_pages dw)\<rparr>;
       (dw2, st') \<leftarrow> clear_loop bid (sort_key (\<lambda>dp. snd (dp_key dp)) spec_pages) dw1 st;
       Some (SUCCESS, st'\<lparr>bpm_dblwr := DiskDwb dw2\<rparr>)
     })"

text \<open>
  \<open>load_pages\<close> at start: every slot up to the count in the file's header whose checksum is
  right; the flag \<open>valid\<close> is not looked at, and the first of two copies of a page stays.
\<close>

fun load_slots ::
    "nat list \<Rightarrow> (nat \<Rightarrow> DoubleWritePage option) \<Rightarrow> (FrameId \<times> DoubleWritePage) list \<Rightarrow>
     RC \<times> (FrameId \<times> DoubleWritePage) list" where
  "load_slots [] file ps = (SUCCESS, ps)"
| "load_slots (i # is) file ps =
     (case file i of
        None \<Rightarrow> (IOERR_READ, ps)
      | Some dp \<Rightarrow>
          load_slots is file
            (if crc32 (pg_data (dp_page dp)) = pg_check_sum (dp_page dp) \<and> map_of ps (dp_key dp) = None
             then ps @ [(dp_key dp, dp)] else ps))"

definition dblwr_load_pages :: "DiskDoubleWriteBuffer \<Rightarrow> RC \<times> DiskDoubleWriteBuffer" where
  "dblwr_load_pages dw =
     (if dw_pages dw \<noteq> [] then (BUFFERPOOL_OPEN, dw)
      else case load_slots [0..<dw_file_cnt dw] (dw_file dw) [] of
        (rc, ps) \<Rightarrow> (rc, dw\<lparr>dw_page_cnt := dw_file_cnt dw, dw_pages := ps\<rparr>))"

definition dblwr_recover :: "BufferPoolManager \<Rightarrow> (RC \<times> BufferPoolManager) option" where
  "dblwr_recover st = (case bpm_dblwr st of
     VacuousDwb \<Rightarrow> None
   | DiskDwb dw \<Rightarrow> do {
       (rc, dw', st') \<leftarrow> dblwr_flush_page dw st;
       Some (rc, st'\<lparr>bpm_dblwr := DiskDwb dw'\<rparr>)
     })"

section \<open>The allocation log\<close>

definition BP_ALLOCATE :: int where "BP_ALLOCATE = 0"
definition BP_DEALLOCATE :: int where "BP_DEALLOCATE = 1"

definition enc_bp_log :: "int \<Rightarrow> int \<Rightarrow> PageNum \<Rightarrow> byte list" where
  "enc_bp_log bid op pn = enc32 bid @ enc32 op @ enc32 pn"

definition bp_append_log ::
    "int \<Rightarrow> int \<Rightarrow> PageNum \<Rightarrow> BufferPoolManager \<Rightarrow> (RC \<times> LSN \<times> BufferPoolManager) option" where
  "bp_append_log op bid pn st = do {
     (rc, l, lg) \<leftarrow> log_append BUFFER_POOL 12 (enc_bp_log bid op pn) (bpm_log st);
     Some (rc, l, st\<lparr>bpm_log := lg\<rparr>)
   }"

section \<open>Frames of a pool\<close>

definition set_mgr_frame :: "FrameId \<Rightarrow> Frame \<Rightarrow> BufferPoolManager \<Rightarrow> BufferPoolManager" where
  "set_mgr_frame i f st = st\<lparr>bpm_frames := set_frame i f (bpm_frames st)\<rparr>"

definition mgr_frame :: "BufferPoolManager \<Rightarrow> FrameId \<Rightarrow> Frame option" where
  "mgr_frame st i = frame_of (bpm_frames st) i"

text \<open>
  \<open>flush_page_internal\<close>: wait for the log, stamp the checksum, hand the page to the double write
  buffer. The result of waiting is ignored; waiting for a log that makes no progress has no
  outcome.
\<close>

definition flush_page_internal :: "int \<Rightarrow> FrameId \<Rightarrow> BufferPoolManager \<Rightarrow> (RC \<times> BufferPoolManager) option" where
  "flush_page_internal bid i st = do {
     f \<leftarrow> mgr_frame st i;
     _ \<leftarrow> log_wait_lsn (frame_lsn f) (bpm_log st);
     let f1 = frame_set_check_sum (crc32 (frame_data f)) f;
     (rc, st1) \<leftarrow> dblwr_add_page bid (snd (fr_frame_id f1)) (fr_page f1) (set_mgr_frame i f1 st);
     if OB_FAIL rc then Some (rc, st1)
     else Some (SUCCESS, set_mgr_frame i (clear_dirty f1) st1)
   }"

text \<open>\<open>DiskBufferPool::flush_page\<close> returns before the code that would write the page.\<close>

definition pool_flush_page :: "FrameId \<Rightarrow> BufferPoolManager \<Rightarrow> RC \<times> BufferPoolManager" where
  "pool_flush_page i st = (SUCCESS, st)"

definition manager_flush_page :: "FrameId \<Rightarrow> BufferPoolManager \<Rightarrow> (RC \<times> BufferPoolManager) option" where
  "manager_flush_page i st = do {
     f \<leftarrow> mgr_frame st i;
     Some (case get_buffer_pool (fst (fr_frame_id f)) st of
       (rc, None) \<Rightarrow> (INTERNAL, st) | (rc, Some n) \<Rightarrow> pool_flush_page i st)
   }"

definition purger :: "int \<Rightarrow> FrameId \<Rightarrow> BufferPoolManager \<Rightarrow> (RC \<times> BufferPoolManager) option" where
  "purger bid i st = do {
     f \<leftarrow> mgr_frame st i;
     if \<not> fr_dirty f then Some (SUCCESS, st)
     else if fst (fr_frame_id f) = bid then flush_page_internal bid i st
     else manager_flush_page i st
   }"

definition unpin_page :: "FrameId \<Rightarrow> BufferPoolManager \<Rightarrow> BufferPoolManager option" where
  "unpin_page i st = do {
     f \<leftarrow> mgr_frame st i;
     f' \<leftarrow> unpin f;
     Some (set_mgr_frame i f' st)
   }"

definition pin_frame :: "FrameId \<Rightarrow> BufferPoolManager \<Rightarrow> BufferPoolManager" where
  "pin_frame i st = (case mgr_frame st i of None \<Rightarrow> st | Some f \<Rightarrow> set_mgr_frame i (pin f) st)"

definition mgr_free :: "FrameId \<Rightarrow> BufferPoolManager \<Rightarrow> BufferPoolManager option" where
  "mgr_free i st = do { fm \<leftarrow> frames_free i (bpm_frames st); Some (st\<lparr>bpm_frames := fm\<rparr>) }"

fun purge_loop :: "int \<Rightarrow> FrameId list \<Rightarrow> BufferPoolManager \<Rightarrow> (nat \<times> BufferPoolManager) option" where
  "purge_loop bid [] st = Some (0, st)"
| "purge_loop bid (i # is) st = do {
     (rc, st1) \<leftarrow> purger bid i st;
     if rc = SUCCESS then do {
       st2 \<leftarrow> mgr_free i st1;
       (n, st3) \<leftarrow> purge_loop bid is st2;
       Some (n + 1, st3)
     } else do {
       st2 \<leftarrow> unpin_page i st1;
       purge_loop bid is st2
     }
   }"

definition purge_frames :: "int \<Rightarrow> nat \<Rightarrow> BufferPoolManager \<Rightarrow> (nat \<times> BufferPoolManager) option" where
  "purge_frames bid count st =
     (let is = frames_can_purge (max count 1) (bpm_frames st)
      in purge_loop bid is (fold pin_frame is st))"

text \<open>\<open>allocate_frame\<close> tries again until a frame is free: with every frame pinned it does not return.\<close>

partial_function (option) allocate_frame :: "int \<Rightarrow> PageNum \<Rightarrow> BufferPoolManager \<Rightarrow> BufferPoolManager option" where
  "allocate_frame bid pn st =
     Option.bind (frames_alloc (bid, pn) (bpm_frames st)) (\<lambda>(ok, fm).
       if ok then Some (st\<lparr>bpm_frames := fm\<rparr>)
       else Option.bind (purge_frames bid 1 st) (\<lambda>(n, st'). allocate_frame bid pn st'))"

definition load_page :: "int \<Rightarrow> PageNum \<Rightarrow> BufferPoolManager \<Rightarrow> (RC \<times> BufferPoolManager) option" where
  "load_page bid pn st = do {
     f \<leftarrow> mgr_frame st (bid, pn);
     (case dblwr_read_page bid pn st of
        (rc, Some p) \<Rightarrow> Some (SUCCESS, set_mgr_frame (bid, pn) (f\<lparr>fr_page := p\<rparr>) st)
      | (rc, None) \<Rightarrow> do {
          name \<leftarrow> map_of (bpm_pools st) bid;
          ps \<leftarrow> bpm_disk st name;
          Some (if pn < 0 then (IOERR_SEEK, st)
                else if nat pn \<ge> length ps then (IOERR_READ, st)
                else (SUCCESS, set_mgr_frame (bid, pn)
                        (f\<lparr>fr_page := ps ! nat pn, fr_frame_id := (fst (fr_frame_id f), pn)\<rparr>) st))
        })
   }"

definition purge_frame :: "int \<Rightarrow> FrameId \<Rightarrow> BufferPoolManager \<Rightarrow> (RC \<times> BufferPoolManager) option" where
  "purge_frame bid i st = do {
     f \<leftarrow> mgr_frame st i;
     if fr_pin_count f \<noteq> 1 then Some (LOCKED_UNLOCK, st)
     else do {
       (rc, st1) \<leftarrow> (if fr_dirty f then flush_page_internal bid i st else Some (SUCCESS, st));
       if rc \<noteq> SUCCESS then Some (rc, st1)
       else do { st2 \<leftarrow> mgr_free i st1; Some (SUCCESS, st2) }
     }
   }"

definition get_this_page ::
    "int \<Rightarrow> PageNum \<Rightarrow> BufferPoolManager \<Rightarrow> (RC \<times> FrameId option \<times> BufferPoolManager) option" where
  "get_this_page bid pn st =
     (case frames_get (bid, pn) (bpm_frames st) of
        (True, fm) \<Rightarrow> Some (SUCCESS, Some (bid, pn), st\<lparr>bpm_frames := fm\<rparr>)
      | (False, _) \<Rightarrow> do {
          st1 \<leftarrow> allocate_frame bid pn st;
          (rc, st2) \<leftarrow> load_page bid pn st1;
          if rc \<noteq> SUCCESS then do {
            (rc', st3) \<leftarrow> purge_frame bid (bid, pn) st2;
            Some (rc, None, st3)
          } else Some (SUCCESS, Some (bid, pn), st2)
        })"

section \<open>The file header and page allocation\<close>

text \<open>
  \<open>BPFileHeader\<close> lies in the data of page 0, which stays pinned while the pool is open:
  \<open>buffer_pool_id\<close>, \<open>page_count\<close>, \<open>allocated_pages\<close> and the bitmap of allocated pages.
\<close>

definition BP_BITMAP_OFFSET :: nat where "BP_BITMAP_OFFSET = 12"

definition MAX_PAGE_NUM :: int where
  "MAX_PAGE_NUM = (int BP_PAGE_DATA_SIZE - 4 - 4) * 8"

record BPFileHeader =
  fh_buffer_pool_id :: int
  fh_page_count :: int
  fh_allocated_pages :: int

definition file_header :: "byte list \<Rightarrow> BPFileHeader option" where
  "file_header d = do {
     a \<leftarrow> get32 d 0; b \<leftarrow> get32 d 4; c \<leftarrow> get32 d 8;
     Some \<lparr>fh_buffer_pool_id = a, fh_page_count = b, fh_allocated_pages = c\<rparr>
   }"

abbreviation hdr_id :: "int \<Rightarrow> FrameId" where
  "hdr_id bid \<equiv> (bid, BP_HEADER_PAGE)"

text \<open>Change the header page in place; \<open>l\<close> is the LSN to set, if any.\<close>

definition update_header ::
    "int \<Rightarrow> (byte list \<Rightarrow> byte list option) \<Rightarrow> LSN option \<Rightarrow> BufferPoolManager \<Rightarrow> BufferPoolManager option" where
  "update_header bid g l st = do {
     f \<leftarrow> mgr_frame st (hdr_id bid);
     d \<leftarrow> g (frame_data f);
     let f1 = mark_dirty (frame_set_data d f);
     Some (set_mgr_frame (hdr_id bid) (case l of None \<Rightarrow> f1 | Some l \<Rightarrow> frame_set_lsn l f1) st)
   }"

text \<open>The search for a free page below \<open>page_count\<close>.\<close>

function first_free_page :: "byte list \<Rightarrow> int \<Rightarrow> int \<Rightarrow> int option option" where
  "first_free_page d page_count i =
     (if i < page_count then do {
        b \<leftarrow> get_bit d (bitmap_init BP_BITMAP_OFFSET (nat page_count)) (nat i);
        if \<not> b then Some (Some i) else first_free_page d page_count (i + 1)
      } else Some None)"
  by pat_completeness auto
termination
  by (relation "measure (\<lambda>(d, n, i). nat (n - i))") auto

declare first_free_page.simps [simp del]

definition allocate_page :: "int \<Rightarrow> BufferPoolManager \<Rightarrow> (RC \<times> FrameId option \<times> BufferPoolManager) option" where
  "allocate_page bid st = do {
     hf \<leftarrow> mgr_frame st (hdr_id bid);
     fh \<leftarrow> file_header (frame_data hf);
     free \<leftarrow> (if fh_allocated_pages fh < fh_page_count fh
              then first_free_page (frame_data hf) (fh_page_count fh) 0 else Some None);
     (case free of
        Some i \<Rightarrow> do {
          st1 \<leftarrow> update_header bid (\<lambda>d. do {
                   d \<leftarrow> put32 d 8 (fh_allocated_pages fh + 1);
                   set_bit d (bitmap_init BP_BITMAP_OFFSET (nat (fh_page_count fh))) (nat i)
                 }) None st;
          (rc, l, st2) \<leftarrow> bp_append_log BP_ALLOCATE bid i st1;
          st3 \<leftarrow> update_header bid Some (Some l) st2;
          get_this_page bid i st3
        }
      | None \<Rightarrow>
          if fh_page_count fh \<ge> MAX_PAGE_NUM then Some (BUFFERPOOL_NOBUF, None, st)
          else do {
            let page_num = fh_page_count fh;
            (rc, l, st1) \<leftarrow> bp_append_log BP_ALLOCATE bid page_num st;
            hf1 \<leftarrow> mgr_frame st1 (hdr_id bid);
            let st2 = set_mgr_frame (hdr_id bid) (frame_set_lsn l hf1) st1;
            st3 \<leftarrow> allocate_frame bid page_num st2;
            n \<leftarrow> as_size page_num;
            st4 \<leftarrow> update_header bid (\<lambda>d. do {
                     d \<leftarrow> put32 d 8 (fh_allocated_pages fh + 1);
                     d \<leftarrow> put32 d 4 (page_num + 1);
                     set_bit d (bitmap_init BP_BITMAP_OFFSET (n + 1)) n
                   }) None st3;
            f \<leftarrow> mgr_frame st4 (bid, page_num);
            let st5 = set_mgr_frame (bid, page_num) ((clear_page f)\<lparr>fr_frame_id := (bid, page_num)\<rparr>) st4;
            (rc', st6) \<leftarrow> flush_page_internal bid (bid, page_num) st5;
            Some (SUCCESS, Some (bid, page_num), st6)
          })
   }"

definition dispose_page :: "int \<Rightarrow> PageNum \<Rightarrow> BufferPoolManager \<Rightarrow> (RC \<times> BufferPoolManager) option" where
  "dispose_page bid pn st =
     (if pn = 0 then Some (INTERNAL, st)
      else do {
        st1 \<leftarrow> (case frames_get (bid, pn) (bpm_frames st) of
                  (True, fm) \<Rightarrow> mgr_free (bid, pn) (st\<lparr>bpm_frames := fm\<rparr>)
                | (False, _) \<Rightarrow> Some st);
        (rc, l, st2) \<leftarrow> bp_append_log BP_DEALLOCATE bid pn st1;
        hf \<leftarrow> mgr_frame st2 (hdr_id bid);
        fh \<leftarrow> file_header (frame_data hf);
        n \<leftarrow> as_size pn;
        st3 \<leftarrow> update_header bid (\<lambda>d. do {
                 d \<leftarrow> put32 d 8 (fh_allocated_pages fh - 1);
                 clear_bit d (bitmap_init BP_BITMAP_OFFSET (nat (fh_page_count fh))) n
               }) (Some l) st2;
        Some (SUCCESS, st3)
      })"

section \<open>Purging, redo, iteration\<close>

definition purge_page :: "int \<Rightarrow> PageNum \<Rightarrow> BufferPoolManager \<Rightarrow> (RC \<times> BufferPoolManager) option" where
  "purge_page bid pn st = (case frames_get (bid, pn) (bpm_frames st) of
     (True, fm) \<Rightarrow> purge_frame bid (bid, pn) (st\<lparr>bpm_frames := fm\<rparr>)
   | (False, _) \<Rightarrow> Some (SUCCESS, st))"

fun purge_all_loop :: "int \<Rightarrow> FrameId list \<Rightarrow> BufferPoolManager \<Rightarrow> BufferPoolManager option" where
  "purge_all_loop bid [] st = Some st"
| "purge_all_loop bid (i # is) st = do { (rc, st') \<leftarrow> purge_frame bid i st; purge_all_loop bid is st' }"

definition purge_all_pages :: "int \<Rightarrow> BufferPoolManager \<Rightarrow> (RC \<times> BufferPoolManager) option" where
  "purge_all_pages bid st = (case frames_find_list bid (bpm_frames st) of
     (used, fm) \<Rightarrow> do { st' \<leftarrow> purge_all_loop bid used (st\<lparr>bpm_frames := fm\<rparr>); Some (SUCCESS, st') })"

definition redo_allocate_page :: "int \<Rightarrow> LSN \<Rightarrow> PageNum \<Rightarrow> BufferPoolManager \<Rightarrow> (RC \<times> BufferPoolManager) option" where
  "redo_allocate_page bid l pn st = do {
     hf \<leftarrow> mgr_frame st (hdr_id bid);
     fh \<leftarrow> file_header (frame_data hf);
     if frame_lsn hf \<ge> l then Some (SUCCESS, st)
     else if pn < fh_page_count fh then do {
       n \<leftarrow> as_size pn;
       b \<leftarrow> get_bit (frame_data hf) (bitmap_init BP_BITMAP_OFFSET (nat (fh_page_count fh))) n;
       if b then Some (SUCCESS, st)
       else do {
         st' \<leftarrow> update_header bid (\<lambda>d. do {
                  d \<leftarrow> set_bit d (bitmap_init BP_BITMAP_OFFSET (nat (fh_page_count fh))) n;
                  put32 d 8 (fh_allocated_pages fh + 1)
                }) None st;
         Some (SUCCESS, st')
       }
     }
     else if pn > fh_page_count fh then Some (INTERNAL, st)
     else if fh_page_count fh \<ge> MAX_PAGE_NUM then Some (INTERNAL, st)
     else do {
       n \<leftarrow> as_size pn;
       st' \<leftarrow> update_header bid (\<lambda>d. do {
                d \<leftarrow> put32 d 8 (fh_allocated_pages fh + 1);
                d \<leftarrow> put32 d 4 (fh_page_count fh + 1);
                set_bit d (bitmap_init BP_BITMAP_OFFSET (n + 1)) n
              }) (Some l) st;
       Some (SUCCESS, st')
     }
   }"

definition redo_deallocate_page :: "int \<Rightarrow> LSN \<Rightarrow> PageNum \<Rightarrow> BufferPoolManager \<Rightarrow> (RC \<times> BufferPoolManager) option" where
  "redo_deallocate_page bid l pn st = do {
     hf \<leftarrow> mgr_frame st (hdr_id bid);
     fh \<leftarrow> file_header (frame_data hf);
     if frame_lsn hf \<ge> l then Some (SUCCESS, st)
     else if pn \<ge> fh_page_count fh then Some (INTERNAL, st)
     else do {
       n \<leftarrow> as_size pn;
       b \<leftarrow> get_bit (frame_data hf) (bitmap_init BP_BITMAP_OFFSET (nat (fh_page_count fh))) n;
       if \<not> b then Some (INTERNAL, st)
       else do {
         st' \<leftarrow> update_header bid (\<lambda>d. do {
                  d \<leftarrow> clear_bit d (bitmap_init BP_BITMAP_OFFSET (nat (fh_page_count fh))) n;
                  put32 d 8 (fh_allocated_pages fh - 1)
                }) (Some l) st;
         Some (SUCCESS, st')
       }
     }
   }"

text \<open>\<open>BufferPoolLogReplayer::replay\<close>.\<close>

definition bp_replay :: "byte list LogEntry \<Rightarrow> BufferPoolManager \<Rightarrow> (RC \<times> BufferPoolManager) option" where
  "bp_replay e st =
     (if payload_size e \<noteq> 12 then Some (INVALID_ARGUMENT, st)
      else let p = le_data e; bid = field32 p 0; op = field32 p 4; pn = field32 p 8
           in case get_buffer_pool bid st of
                (rc, None) \<Rightarrow> Some (rc, st)
              | (rc, Some n) \<Rightarrow>
                  if op = BP_ALLOCATE then redo_allocate_page bid (entry_lsn e) pn st
                  else if op = BP_DEALLOCATE then redo_deallocate_page bid (entry_lsn e) pn st
                  else Some (INTERNAL, st))"

definition check_page_num :: "int \<Rightarrow> PageNum \<Rightarrow> BufferPoolManager \<Rightarrow> RC option" where
  "check_page_num bid pn st = do {
     hf \<leftarrow> mgr_frame st (hdr_id bid);
     fh \<leftarrow> file_header (frame_data hf);
     if pn \<ge> fh_page_count fh then Some BUFFERPOOL_INVALID_PAGE_NUM
     else do {
       n \<leftarrow> as_size pn;
       b \<leftarrow> get_bit (frame_data hf) (bitmap_init BP_BITMAP_OFFSET (nat (fh_page_count fh))) n;
       Some (if \<not> b then BUFFERPOOL_INVALID_PAGE_NUM else SUCCESS)
     }
   }"

text \<open>
  \<open>BufferPoolIterator\<close> keeps the bitmap and its size as they are at \<open>init\<close> (a pointer into the
  header page and a copy of \<open>page_count\<close>).
\<close>

record BufferPoolIterator =
  bi_pool :: int
  bi_size :: nat
  bi_current_page_num :: PageNum

definition bp_iterator_init :: "int \<Rightarrow> PageNum \<Rightarrow> BufferPoolManager \<Rightarrow> BufferPoolIterator option" where
  "bp_iterator_init bid start st = do {
     hf \<leftarrow> mgr_frame st (hdr_id bid);
     fh \<leftarrow> file_header (frame_data hf);
     Some \<lparr>bi_pool = bid, bi_size = nat (fh_page_count fh),
       bi_current_page_num = (if start \<le> 0 then -1 else start - 1)\<rparr>
   }"

definition bp_iterator_peek :: "BufferPoolIterator \<Rightarrow> BufferPoolManager \<Rightarrow> int option" where
  "bp_iterator_peek it st = do {
     hf \<leftarrow> mgr_frame st (hdr_id (bi_pool it));
     s \<leftarrow> as_size (bi_current_page_num it + 1);
     next_setted_bit (frame_data hf) (bitmap_init BP_BITMAP_OFFSET (bi_size it)) s
   }"

definition bp_iterator_has_next :: "BufferPoolIterator \<Rightarrow> BufferPoolManager \<Rightarrow> bool option" where
  "bp_iterator_has_next it st = do { n \<leftarrow> bp_iterator_peek it st; Some (n \<noteq> -1) }"

definition bp_iterator_next :: "BufferPoolIterator \<Rightarrow> BufferPoolManager \<Rightarrow> (PageNum \<times> BufferPoolIterator) option" where
  "bp_iterator_next it st = do {
     n \<leftarrow> bp_iterator_peek it st;
     Some (n, if n \<noteq> -1 then it\<lparr>bi_current_page_num := n\<rparr> else it)
   }"

section \<open>Creating, opening and closing files\<close>

definition create_file :: "string \<Rightarrow> BufferPoolManager \<Rightarrow> (RC \<times> BufferPoolManager) option" where
  "create_file name st =
     (if bpm_disk st name \<noteq> None then Some (SCHEMA_DB_EXIST, st)
      else do {
        let d = replicate BP_PAGE_DATA_SIZE 0;
        d \<leftarrow> put32 d 8 1;
        d \<leftarrow> put32 d 4 1;
        d \<leftarrow> put32 d 0 (bpm_next_id st);
        d \<leftarrow> set_bit d (bitmap_init BP_BITMAP_OFFSET 1) 0;
        Some (SUCCESS, st\<lparr>bpm_next_id := bpm_next_id st + 1,
          bpm_disk := (bpm_disk st)(name \<mapsto> [zero_page\<lparr>pg_data := d\<rparr>])\<rparr>)
      })"

text \<open>
  \<open>BufferPoolManager::open_file\<close> with \<open>DiskBufferPool::open_file\<close>: the pool's id is read from the
  first page of the file before the page is loaded into a frame. The pool is registered after
  that, so the model lets the pool's own reads see the file by its id from the start.
\<close>

definition open_file :: "string \<Rightarrow> BufferPoolManager \<Rightarrow> (RC \<times> int option \<times> BufferPoolManager) option" where
  "open_file name st =
     (if name \<in> set (map snd (bpm_pools st)) then Some (BUFFERPOOL_OPEN, None, st)
      else case bpm_disk st name of
        None \<Rightarrow> Some (IOERR_ACCESS, None, st)
      | Some [] \<Rightarrow> Some (IOERR_READ, None, st)
      | Some (p # ps) \<Rightarrow> do {
          bid \<leftarrow> get32 (pg_data p) 0;
          st1 \<leftarrow> allocate_frame bid BP_HEADER_PAGE st;
          let st2 = st1\<lparr>bpm_pools := (bid, name) # bpm_pools st1\<rparr>;
          (rc, st3) \<leftarrow> load_page bid BP_HEADER_PAGE st2;
          if rc \<noteq> SUCCESS then do {
            (rc', st4) \<leftarrow> purge_frame bid (hdr_id bid) st3;
            Some (rc, None, st4\<lparr>bpm_pools := bpm_pools st1\<rparr>)
          } else Some (SUCCESS, Some bid,
               st3\<lparr>bpm_next_id := (if bid \<ge> bpm_next_id st3 then bid + 1 else bpm_next_id st3)\<rparr>)
        })"

definition close_file :: "int \<Rightarrow> BufferPoolManager \<Rightarrow> (RC \<times> BufferPoolManager) option" where
  "close_file bid st = do {
     st1 \<leftarrow> unpin_page (hdr_id bid) st;
     (rc, st2) \<leftarrow> purge_all_pages bid st1;
     if rc \<noteq> SUCCESS then Some (rc, st2)
     else do {
       (rc', st3) \<leftarrow> dblwr_clear_pages bid st2;
       if OB_FAIL rc' then Some (rc', st3)
       else Some (SUCCESS, st3\<lparr>bpm_pools := filter (\<lambda>p. fst p \<noteq> bid) (bpm_pools st3)\<rparr>)
     }
   }"

end
