(* ===== verification/BufferPoolInv.thy ===== *)
theory BufferPoolInv
  imports BufferPool
begin

text \<open>
  The invariant of the buffer pool: what a page holds, seen through the frames, the double write
  buffer and the file, and that write-back, eviction and fetching a page keep it. The log must
  not block the write-back, and a pool that evicts must not meet a dirty frame of another pool,
  which the code would drop.
\<close>

section \<open>What a page holds\<close>

definition file_page :: "BufferPoolManager \<Rightarrow> FrameId \<Rightarrow> Page option" where
  "file_page st i = do {
     name \<leftarrow> map_of (bpm_pools st) (fst i);
     ps \<leftarrow> bpm_disk st name;
     if 0 \<le> snd i \<and> nat (snd i) < length ps then Some (ps ! nat (snd i)) else None
   }"

text \<open>The stored page: the copy in the double write buffer, or else in the file.\<close>

definition stored_page :: "BufferPoolManager \<Rightarrow> FrameId \<Rightarrow> Page option" where
  "stored_page st i = (case dblwr_read_page (fst i) (snd i) st of
     (rc, Some p) \<Rightarrow> Some p | (rc, None) \<Rightarrow> file_page st i)"

text \<open>The current contents of a page, without the checksum that is set when it is written.\<close>

definition page_view :: "BufferPoolManager \<Rightarrow> FrameId \<Rightarrow> (LSN \<times> byte list) option" where
  "page_view st i = map_option (\<lambda>p. (pg_lsn p, pg_data p))
     (case mgr_frame st i of Some f \<Rightarrow> Some (fr_page f) | None \<Rightarrow> stored_page st i)"

section \<open>Frames\<close>

lemma map_of_filter_neq: "map_of (filter (\<lambda>p. fst p \<noteq> k) xs) j = (if j = k then None else map_of xs j)"
  by (induction xs) auto

lemma map_of_replace:
  "map_of (map (\<lambda>p. if fst p = i then (i, f) else p) xs) j =
     (if j = i \<and> map_of xs i \<noteq> None then Some f else map_of xs j)"
  by (induction xs) auto

lemma frame_of_set_frame [simp]:
  "frame_of (set_frame i f fm) j = (if j = i \<and> frame_of fm i \<noteq> None then Some f else frame_of fm j)"
  by (simp add: frame_of_def set_frame_def map_of_replace)

lemma map_of_lru_touch [simp]: "map_of (lru_touch k xs) = map_of xs"
  by (auto simp: lru_touch_def map_of_filter_neq fun_eq_iff split: option.splits)

lemma frame_of_touch [simp]: "frame_of (fm\<lparr>bf_frames := lru_touch k (bf_frames fm)\<rparr>) = frame_of fm"
  by (simp add: frame_of_def fun_eq_iff)

lemma map_fst_replace: "map fst (map (\<lambda>p. if fst p = i then (i, f) else p) xs) = map fst xs"
  by auto

lemma keys_set_frame [simp]: "map fst (bf_frames (set_frame i f fm)) = map fst (bf_frames fm)"
  by (simp add: set_frame_def map_fst_replace del: map_map)

lemma bf_frees_set_frame [simp]: "bf_frees (set_frame i f fm) = bf_frees fm"
  by (simp add: set_frame_def)

lemma distinct_lru_touch: "distinct (map fst xs) \<Longrightarrow> distinct (map fst (lru_touch k xs))"
  by (auto simp: lru_touch_def distinct_map_filter split: option.splits)

lemma set_keys_lru_touch: "set (map fst (lru_touch k xs)) = set (map fst xs)"
  by (metis dom_map_of_conv_image_fst list.set_map map_of_lru_touch)

lemma length_lru_touch: "distinct (map fst xs) \<Longrightarrow> length (lru_touch k xs) = length xs"
  by (metis distinct_card distinct_lru_touch length_map set_keys_lru_touch)

lemma map_le_Some: "m k = Some v \<Longrightarrow> m \<subseteq>\<^sub>m m' \<Longrightarrow> m' k = Some v"
  by (auto simp: map_le_def dom_def)

lemma mgr_frame_set [simp]:
  "mgr_frame (set_mgr_frame i f st) j = (if j = i \<and> mgr_frame st i \<noteq> None then Some f else mgr_frame st j)"
  by (simp add: mgr_frame_def set_mgr_frame_def)

lemma mgr_frame_other [simp]:
  "mgr_frame (st\<lparr>bpm_dblwr := x\<rparr>) = mgr_frame st" "mgr_frame (st\<lparr>bpm_disk := y\<rparr>) = mgr_frame st"
  "mgr_frame (st\<lparr>bpm_log := z\<rparr>) = mgr_frame st" "mgr_frame (st\<lparr>bpm_pools := u\<rparr>) = mgr_frame st"
  "mgr_frame (st\<lparr>bpm_next_id := w\<rparr>) = mgr_frame st"
  by (simp_all add: mgr_frame_def fun_eq_iff)

lemma set_mgr_frame_fields [simp]:
  "bpm_dblwr (set_mgr_frame i f st) = bpm_dblwr st" "bpm_disk (set_mgr_frame i f st) = bpm_disk st"
  "bpm_pools (set_mgr_frame i f st) = bpm_pools st" "bpm_log (set_mgr_frame i f st) = bpm_log st"
  "bpm_next_id (set_mgr_frame i f st) = bpm_next_id st"
  by (simp_all add: set_mgr_frame_def)

lemma stored_page_cong:
  "bpm_dblwr st' = bpm_dblwr st \<Longrightarrow> bpm_disk st' = bpm_disk st \<Longrightarrow> bpm_pools st' = bpm_pools st \<Longrightarrow>
     stored_page st' = stored_page st"
  by (simp add: stored_page_def dblwr_read_page_def file_page_def fun_eq_iff)

lemma stored_page_set_frame [simp]: "stored_page (set_mgr_frame i f st) = stored_page st"
  by (rule stored_page_cong) simp_all

lemma stored_page_log [simp]: "stored_page (st\<lparr>bpm_log := l\<rparr>) = stored_page st"
    "stored_page (st\<lparr>bpm_frames := fm\<rparr>) = stored_page st"
  by (rule stored_page_cong; simp)+

section \<open>The files and the double write buffer\<close>

text \<open>The pools' ids and file names are distinct and every open pool has its file.\<close>

definition pools_ok :: "BufferPoolManager \<Rightarrow> bool" where
  "pools_ok st \<longleftrightarrow> distinct (map fst (bpm_pools st)) \<and> distinct (map snd (bpm_pools st)) \<and>
     (\<forall>n \<in> set (map snd (bpm_pools st)). bpm_disk st n \<noteq> None)"

definition is_open :: "BufferPoolManager \<Rightarrow> int \<Rightarrow> bool" where
  "is_open st bid \<longleftrightarrow> map_of (bpm_pools st) bid \<noteq> None"

fun dwb_ok :: "BufferPoolManager \<Rightarrow> DoubleWriteBuffer \<Rightarrow> bool" where
  "dwb_ok st VacuousDwb \<longleftrightarrow> True"
| "dwb_ok st (DiskDwb dw) \<longleftrightarrow> distinct (map fst (dw_pages dw)) \<and>
     (\<forall>(k, dp) \<in> set (dw_pages dw). dp_key dp = k \<and> dp_valid dp \<and> is_open st (fst k) \<and> 0 \<le> snd k)"

lemma pools_ok_inj:
  assumes "pools_ok st" "map_of (bpm_pools st) a = Some n" "map_of (bpm_pools st) b = Some n"
  shows "a = b"
proof -
  have "inj_on snd (set (bpm_pools st))" using assms(1) by (simp add: pools_ok_def distinct_map)
  from inj_onD [OF this, of "(a, n)" "(b, n)"] map_of_SomeD [OF assms(2)] map_of_SomeD [OF assms(3)]
  show ?thesis by simp
qed

text \<open>A write changes the page written, and pages behind the old end may come to read as zeros.\<close>

lemma file_write_nth:
  "nat (snd i) < length ps \<Longrightarrow> file_write pn p ps ! nat (snd i) = (if nat (snd i) = pn then p else ps ! nat (snd i))"
  by (auto simp: file_write_def nth_append nth_list_update)

lemma file_write_self: "file_write pn p ps ! pn = p" "pn < length (file_write pn p ps)"
  by (auto simp: file_write_def nth_append)

lemma file_write_length: "length ps \<le> length (file_write pn p ps)"
  by (simp add: file_write_def)

lemma write_page_ok:
  assumes ok: "pools_ok st" and o: "is_open st bid" and pn: "0 \<le> pn"
  shows "\<exists>st'. write_page bid pn p st = Some (SUCCESS, st') \<and> pools_ok st' \<and>
    bpm_pools st' = bpm_pools st \<and> bpm_dblwr st' = bpm_dblwr st \<and> bpm_log st' = bpm_log st \<and>
    bpm_frames st' = bpm_frames st \<and> bpm_next_id st' = bpm_next_id st \<and>
    file_page st' (bid, pn) = Some p \<and>
    (\<forall>i. i \<noteq> (bid, pn) \<longrightarrow> file_page st i \<noteq> None \<longrightarrow> file_page st' i = file_page st i)"
proof -
  from o obtain n where n: "map_of (bpm_pools st) bid = Some n" by (auto simp: is_open_def)
  have "n \<in> set (map snd (bpm_pools st))" using map_of_SomeD [OF n] by force
  with ok obtain ps where ps: "bpm_disk st n = Some ps" unfolding pools_ok_def by blast
  let ?st = "st\<lparr>bpm_disk := (bpm_disk st)(n \<mapsto> file_write (nat pn) p ps)\<rparr>"
  have "file_page ?st i = file_page st i" if "i \<noteq> (bid, pn)" "file_page st i \<noteq> None" for i
  proof (cases "fst i = bid")
    case True
    with that n ps have "snd i \<noteq> pn" "0 \<le> snd i" "nat (snd i) < length ps"
      by (auto simp: file_page_def prod_eq_iff split: if_splits)
    with True n ps pn file_write_nth [of i ps "nat pn" p] file_write_length [of ps "nat pn" p]
    show ?thesis by (auto simp: file_page_def)
  next
    case False
    then have "map_of (bpm_pools st) (fst i) \<noteq> Some n" using pools_ok_inj [OF ok n] by metis
    then show ?thesis
      by (cases "map_of (bpm_pools st) (fst i)") (auto simp: file_page_def)
  qed
  moreover have "file_page ?st (bid, pn) = Some p"
    using n pn file_write_self [of "nat pn" p ps] by (simp add: file_page_def)
  moreover have "pools_ok ?st" using ok by (simp add: pools_ok_def)
  ultimately show ?thesis using n ps pn by (simp add: write_page_def)
qed


text \<open>Only the disk differs between two states.\<close>

definition same_but_disk :: "BufferPoolManager \<Rightarrow> BufferPoolManager \<Rightarrow> bool" where
  "same_but_disk st' st \<longleftrightarrow> bpm_pools st' = bpm_pools st \<and> bpm_dblwr st' = bpm_dblwr st \<and>
     bpm_log st' = bpm_log st \<and> bpm_frames st' = bpm_frames st \<and> bpm_next_id st' = bpm_next_id st"

lemma dblwr_flush_loop_ok:
  assumes "pools_ok st" "distinct (map fst ps)"
    and "\<forall>(k, dp) \<in> set ps. dp_key dp = k \<and> dp_valid dp \<and> is_open st (fst k) \<and> 0 \<le> snd k"
  shows "\<exists>dw' st'. dblwr_flush_loop ps dw st = Some (SUCCESS, dw', st') \<and> pools_ok st' \<and>
    same_but_disk st' st \<and> dw_max_pages dw' = dw_max_pages dw \<and>
    (\<forall>k dp. map_of ps k = Some dp \<longrightarrow> file_page st' k = Some (dp_page dp)) \<and>
    (\<forall>i. map_of ps i = None \<longrightarrow> file_page st i \<noteq> None \<longrightarrow> file_page st' i = file_page st i)"
  using assms
proof (induction ps arbitrary: dw st)
  case Nil
  then show ?case by (simp add: same_but_disk_def)
next
  case (Cons p ps)
  obtain k dp where p: "p = (k, dp)" by fastforce
  have k: "dp_key dp = k" "dp_valid dp" "is_open st (fst k)" "0 \<le> snd k" "k \<notin> set (map fst ps)"
    using Cons.prems(2,3) by (auto simp: p)
  from write_page_ok [OF Cons.prems(1) k(3,4), of "dp_page dp"] obtain st1 where
    w: "write_page (fst k) (snd k) (dp_page dp) st = Some (SUCCESS, st1)" "pools_ok st1"
      "same_but_disk st1 st" "file_page st1 k = Some (dp_page dp)"
      "\<forall>i. i \<noteq> k \<longrightarrow> file_page st i \<noteq> None \<longrightarrow> file_page st1 i = file_page st i"
    by (auto simp: same_but_disk_def)
  have op: "is_open st1 b = is_open st b" for b using w(3) by (simp add: is_open_def same_but_disk_def)
  let ?dw = "write_page_internal (dp\<lparr>dp_valid := False\<rparr>) dw"
  from Cons.IH [OF w(2), of ?dw] Cons.prems(2,3) op obtain dw' st' where
    r: "dblwr_flush_loop ps ?dw st1 = Some (SUCCESS, dw', st')" "pools_ok st'" "same_but_disk st' st1"
      "dw_max_pages dw' = dw_max_pages ?dw"
      "\<forall>k dp. map_of ps k = Some dp \<longrightarrow> file_page st' k = Some (dp_page dp)"
      "\<forall>i. map_of ps i = None \<longrightarrow> file_page st1 i \<noteq> None \<longrightarrow> file_page st' i = file_page st1 i"
    by (auto simp: p)
  have "map_of ps k = None" using k(5) by (simp add: map_of_eq_None_iff)
  then have "file_page st' k = Some (dp_page dp)" using r(6) [rule_format, of k] w(4) by simp
  moreover have "dblwr_write_page dp st = Some (SUCCESS, st1)"
    using k w(1) by (auto simp: dblwr_write_page_def get_buffer_pool_def is_open_def)
  ultimately show ?case
    using r w k by (auto simp: p same_but_disk_def write_page_internal_def)
qed

lemma stored_page_DiskDwb:
  "bpm_dblwr st = DiskDwb dw \<Longrightarrow> stored_page st i =
     (case map_of (dw_pages dw) i of Some dp \<Rightarrow> Some (dp_page dp) | None \<Rightarrow> file_page st i)"
  by (cases i) (simp add: stored_page_def dblwr_read_page_def split: option.splits)

lemma file_page_same: "bpm_pools st' = bpm_pools st \<Longrightarrow> bpm_disk st' = bpm_disk st \<Longrightarrow> file_page st' = file_page st"
  by (simp add: file_page_def fun_eq_iff)

definition same_pools :: "BufferPoolManager \<Rightarrow> BufferPoolManager \<Rightarrow> bool" where
  "same_pools st' st \<longleftrightarrow> bpm_pools st' = bpm_pools st \<and> bpm_log st' = bpm_log st \<and>
     bpm_frames st' = bpm_frames st \<and> bpm_next_id st' = bpm_next_id st"

text \<open>
  Handing a page to the double write buffer succeeds, the page becomes the stored page, and no
  other stored page changes.
\<close>

lemma dblwr_add_page_ok:
  assumes ok: "pools_ok st" "dwb_ok st (bpm_dblwr st)" and o: "is_open st bid" "0 \<le> pn"
  shows "\<exists>st'. dblwr_add_page bid pn p st = Some (SUCCESS, st') \<and> pools_ok st' \<and>
    dwb_ok st' (bpm_dblwr st') \<and> same_pools st' st \<and> stored_page st' (bid, pn) = Some p \<and>
    (\<forall>i. i \<noteq> (bid, pn) \<longrightarrow> stored_page st i \<noteq> None \<longrightarrow> stored_page st' i = stored_page st i)"
proof (cases "bpm_dblwr st")
  case VacuousDwb
  from write_page_ok [OF ok(1) o, of p] obtain st' where w: "write_page bid pn p st = Some (SUCCESS, st')"
      "pools_ok st'" "bpm_dblwr st' = bpm_dblwr st" "same_pools st' st" "file_page st' (bid, pn) = Some p"
      "\<forall>i. i \<noteq> (bid, pn) \<longrightarrow> file_page st i \<noteq> None \<longrightarrow> file_page st' i = file_page st i"
    by (auto simp: same_pools_def)
  then show ?thesis
    using VacuousDwb by (simp add: dblwr_add_page_def stored_page_def dblwr_read_page_def)
next
  case (DiskDwb dw)
  let ?k = "(bid, pn)"
  note sp = stored_page_DiskDwb
  show ?thesis
  proof (cases "map_of (dw_pages dw) ?k")
    case (Some dp)
    let ?dp = "dp\<lparr>dp_page := p\<rparr>"
    let ?dw = "write_page_internal ?dp (dw\<lparr>dw_pages := AList.update ?k ?dp (dw_pages dw)\<rparr>)"
    let ?st = "st\<lparr>bpm_dblwr := DiskDwb ?dw\<rparr>"
    have add: "dblwr_add_page bid pn p st = Some (SUCCESS, ?st)"
      using DiskDwb Some by (simp add: dblwr_add_page_def Let_def)
    have pg: "dw_pages ?dw = AList.update ?k ?dp (dw_pages dw)" by (simp add: write_page_internal_def)
    have fp: "file_page ?st = file_page st" by (rule file_page_same) simp_all
    have st: "stored_page ?st i = (if i = ?k then Some p else stored_page st i)" for i
      using DiskDwb by (simp add: sp [of ?st ?dw] sp [of st dw] pg update_conv fp split: option.splits)
    have "dwb_ok ?st (DiskDwb ?dw)"
    proof -
      have "(k, d) \<in> set (AList.update ?k ?dp (dw_pages dw)) \<Longrightarrow>
          dp_key d = k \<and> dp_valid d \<and> is_open st (fst k) \<and> 0 \<le> snd k" for k d
      proof -
        assume a: "(k, d) \<in> set (AList.update ?k ?dp (dw_pages dw))"
        have dist: "distinct (map fst (AList.update ?k ?dp (dw_pages dw)))"
          using ok(2) DiskDwb by (simp add: distinct_update)
        have "map_of (AList.update ?k ?dp (dw_pages dw)) k = Some d"
          using a dist by (simp add: map_of_is_SomeI)
        then have "k = ?k \<and> d = ?dp \<or> (k, d) \<in> set (dw_pages dw)"
          by (auto simp: update_conv dest: map_of_SomeD split: if_splits)
        then show ?thesis
          using ok(2) DiskDwb map_of_SomeD [OF Some] by auto
      qed
      then show ?thesis using ok(2) DiskDwb by (auto simp: pg is_open_def distinct_update)
    qed
    then show ?thesis using add ok(1) st by (simp add: same_pools_def pools_ok_def)
  next
    case None
    let ?dp = "\<lparr>dp_key = ?k, dp_page_index = length (dw_pages dw), dp_valid = True, dp_page = p\<rparr>"
    let ?dw1 = "write_page_internal ?dp (dw\<lparr>dw_pages := dw_pages dw @ [(?k, ?dp)]\<rparr>)"
    define dw2 where "dw2 = (if length (dw_pages dw) + 1 > dw_page_cnt ?dw1
        then ?dw1\<lparr>dw_page_cnt := length (dw_pages dw) + 1, dw_file_cnt := length (dw_pages dw) + 1\<rparr> else ?dw1)"
    have pg: "dw_pages dw2 = dw_pages dw @ [(?k, ?dp)]" by (simp add: dw2_def write_page_internal_def)
    have kn: "?k \<notin> set (map fst (dw_pages dw))" using None by (simp add: map_of_eq_None_iff)
    have dok: "distinct (map fst (dw_pages dw2))"
        "\<forall>(k, dp) \<in> set (dw_pages dw2). dp_key dp = k \<and> dp_valid dp \<and> is_open st (fst k) \<and> 0 \<le> snd k"
      using ok(2) DiskDwb o kn by (auto simp: pg)
    have mo: "map_of (dw_pages dw2) i = (if i = ?k then Some ?dp else map_of (dw_pages dw) i)" for i
      using None by (auto simp: pg map_add_def split: option.splits)
    have add: "dblwr_add_page bid pn p st = (if length (dw_pages dw2) \<ge> dw_max_pages dw2
        then do { (rc, dw3, st') \<leftarrow> dblwr_flush_page dw2 st; Some (rc, st'\<lparr>bpm_dblwr := DiskDwb dw3\<rparr>) }
        else Some (SUCCESS, st\<lparr>bpm_dblwr := DiskDwb dw2\<rparr>))"
      unfolding dblwr_add_page_def Let_def dw2_def by (simp add: DiskDwb None)
    show ?thesis
    proof (cases "length (dw_pages dw2) \<ge> dw_max_pages dw2")
      case False
      let ?st = "st\<lparr>bpm_dblwr := DiskDwb dw2\<rparr>"
      have fp: "file_page ?st = file_page st" by (rule file_page_same) simp_all
      have "stored_page ?st i = (if i = ?k then Some p else stored_page st i)" for i
        using DiskDwb by (simp add: sp [of ?st dw2] sp [of st dw] mo fp split: option.splits)
      moreover have "dwb_ok ?st (DiskDwb dw2)" using dok by (simp add: is_open_def)
      ultimately show ?thesis using add False ok(1) by (simp add: same_pools_def pools_ok_def)
    next
      case True
      from dblwr_flush_loop_ok [OF ok(1) dok, of dw2] obtain dw' st1 where
        r: "dblwr_flush_loop (dw_pages dw2) dw2 st = Some (SUCCESS, dw', st1)" "pools_ok st1" "same_but_disk st1 st"
          "\<forall>k dp. map_of (dw_pages dw2) k = Some dp \<longrightarrow> file_page st1 k = Some (dp_page dp)"
          "\<forall>i. map_of (dw_pages dw2) i = None \<longrightarrow> file_page st i \<noteq> None \<longrightarrow> file_page st1 i = file_page st i"
        by blast
      let ?dw3 = "dw'\<lparr>dw_pages := [], dw_page_cnt := 0\<rparr>"
      let ?st = "st1\<lparr>bpm_dblwr := DiskDwb ?dw3\<rparr>"
      have fp: "file_page ?st = file_page st1" by (rule file_page_same) simp_all
      have "stored_page ?st ?k = Some p" using r(4) mo by (simp add: sp [of ?st ?dw3] fp)
      moreover have "stored_page ?st i = stored_page st i" if "i \<noteq> ?k" "stored_page st i \<noteq> None" for i
      proof (cases "map_of (dw_pages dw) i")
        case None
        then show ?thesis using r(5) [rule_format, of i] mo that DiskDwb by (simp add: sp [of ?st ?dw3] sp [of st dw] fp)
      next
        case (Some d)
        then show ?thesis using r(4) [rule_format, of i] mo that DiskDwb by (simp add: sp [of ?st ?dw3] sp [of st dw] fp)
      qed
      ultimately show ?thesis
        using add True r(1-3) by (simp add: dblwr_flush_page_def same_but_disk_def same_pools_def pools_ok_def)
    qed
  qed
qed

section \<open>The invariant of the buffer pool\<close>

text \<open>
  A frame carries the id it is filed under and belongs to an open pool; an unpinned frame is
  not latched. The page of a clean frame is the stored page, except for the frames in \<open>K\<close> that
  an operation is filling.
\<close>

definition frame_ok :: "BufferPoolManager \<Rightarrow> FrameId \<Rightarrow> Frame \<Rightarrow> bool" where
  "frame_ok st i f \<longleftrightarrow> fr_frame_id f = i \<and> 0 \<le> fr_pin_count f \<and> is_open st (fst i) \<and> 0 \<le> snd i \<and>
     (fr_pin_count f = 0 \<longrightarrow> unlatched f)"

definition clean_ok :: "BufferPoolManager \<Rightarrow> FrameId \<Rightarrow> Frame \<Rightarrow> bool" where
  "clean_ok st i f \<longleftrightarrow> (\<not> fr_dirty f \<longrightarrow> stored_page st i = Some (fr_page f))"

definition pool_inv_but :: "FrameId set \<Rightarrow> BufferPoolManager \<Rightarrow> bool" where
  "pool_inv_but K st \<longleftrightarrow> pools_ok st \<and> dwb_ok st (bpm_dblwr st) \<and>
     distinct (map fst (bf_frames (bpm_frames st))) \<and>
     (\<forall>i f. mgr_frame st i = Some f \<longrightarrow> frame_ok st i f \<and> (i \<notin> K \<longrightarrow> clean_ok st i f)) \<and>
     (\<forall>f \<in> set (bf_frees (bpm_frames st)). fr_pin_count f = 0 \<and> unlatched f)"

abbreviation pool_inv :: "BufferPoolManager \<Rightarrow> bool" where
  "pool_inv \<equiv> pool_inv_but {}"

text \<open>No page loses what it holds.\<close>

definition views_kept :: "BufferPoolManager \<Rightarrow> BufferPoolManager \<Rightarrow> bool" where
  "views_kept st st' \<longleftrightarrow> (\<forall>i. page_view st i \<noteq> None \<longrightarrow> page_view st' i = page_view st i) \<and>
     (\<forall>i. stored_page st i \<noteq> None \<longrightarrow> stored_page st' i \<noteq> None)"

lemma views_kept_refl [simp]: "views_kept st st"
  by (simp add: views_kept_def)

lemma views_kept_trans: "views_kept a b \<Longrightarrow> views_kept b c \<Longrightarrow> views_kept a c"
  unfolding views_kept_def by metis

text \<open>The same but for the pages \<open>K\<close>.\<close>

definition views_kept_but :: "FrameId set \<Rightarrow> BufferPoolManager \<Rightarrow> BufferPoolManager \<Rightarrow> bool" where
  "views_kept_but K st st' \<longleftrightarrow> (\<forall>i. i \<notin> K \<longrightarrow> page_view st i \<noteq> None \<longrightarrow> page_view st' i = page_view st i) \<and>
     (\<forall>i. stored_page st i \<noteq> None \<longrightarrow> stored_page st' i \<noteq> None)"

lemma views_kept_butI: "views_kept st st' \<Longrightarrow> views_kept_but K st st'"
  unfolding views_kept_def views_kept_but_def by blast

lemma views_kept_but_trans: "views_kept_but K a b \<Longrightarrow> views_kept_but K b c \<Longrightarrow> views_kept_but K a c"
  unfolding views_kept_but_def by metis

lemma views_kept_but_mono: "views_kept_but K a b \<Longrightarrow> K \<subseteq> L \<Longrightarrow> views_kept_but L a b"
  unfolding views_kept_but_def by blast

lemma views_kept_but_empty [simp]: "views_kept_but {} = views_kept"
  by (simp add: views_kept_but_def views_kept_def fun_eq_iff)

lemma views_kept_but_frames:
  assumes "stored_page st' = stored_page st" "\<And>i. i \<notin> K \<Longrightarrow> mgr_frame st' i = mgr_frame st i"
  shows "views_kept_but K st st'"
  unfolding views_kept_but_def page_view_def using assms by (simp split: option.split)

lemma page_view_frame: "mgr_frame st i = Some f \<Longrightarrow> page_view st i = Some (frame_lsn f, frame_data f)"
  by (simp add: page_view_def)

lemma page_view_stored: "mgr_frame st i = None \<Longrightarrow> page_view st i = map_option (\<lambda>p. (pg_lsn p, pg_data p)) (stored_page st i)"
  by (simp add: page_view_def)

lemma is_open_same: "bpm_pools st' = bpm_pools st \<Longrightarrow> is_open st' = is_open st"
  by (simp add: is_open_def fun_eq_iff)

lemma pools_ok_same: "bpm_pools st' = bpm_pools st \<Longrightarrow> bpm_disk st' = bpm_disk st \<Longrightarrow> pools_ok st' = pools_ok st"
  by (simp add: pools_ok_def)

lemma dwb_ok_same: "bpm_pools st' = bpm_pools st \<Longrightarrow> dwb_ok st' d = dwb_ok st d"
  by (cases d) (simp_all add: is_open_def)

lemma pool_inv_frame: "pool_inv_but K st \<Longrightarrow> mgr_frame st i = Some f \<Longrightarrow> frame_ok st i f"
  unfolding pool_inv_but_def by blast

lemma pool_inv_clean: "pool_inv_but K st \<Longrightarrow> mgr_frame st i = Some f \<Longrightarrow> i \<notin> K \<Longrightarrow> clean_ok st i f"
  unfolding pool_inv_but_def by blast

lemma mgr_frame_same: "bpm_frames st' = bpm_frames st \<Longrightarrow> mgr_frame st' = mgr_frame st"
  by (simp add: mgr_frame_def fun_eq_iff)

section \<open>Writing back a frame\<close>

lemma flush_page_internal_ok:
  assumes inv: "pool_inv_but K st" and f: "mgr_frame st i = Some f"
    and w: "log_wait_lsn (frame_lsn f) (bpm_log st) \<noteq> None"
  shows "\<exists>st' c. flush_page_internal (fst i) i st = Some (SUCCESS, st') \<and> pool_inv_but (K - {i}) st' \<and> views_kept st st' \<and>
    mgr_frame st' = (mgr_frame st)(i \<mapsto> clear_dirty (frame_set_check_sum c f)) \<and>
    stored_page st' i = Some (fr_page (frame_set_check_sum c f)) \<and>
    map fst (bf_frames (bpm_frames st')) = map fst (bf_frames (bpm_frames st)) \<and>
    bf_frees (bpm_frames st') = bf_frees (bpm_frames st) \<and>
    bpm_pools st' = bpm_pools st \<and> bpm_log st' = bpm_log st \<and> bpm_next_id st' = bpm_next_id st"
proof -
  let ?c = "crc32 (frame_data f)"
  let ?f1 = "frame_set_check_sum ?c f"
  let ?st0 = "set_mgr_frame i ?f1 st"
  have fo: "frame_ok st i f" by (rule pool_inv_frame [OF inv f])
  have ok0: "pools_ok ?st0" "dwb_ok ?st0 (bpm_dblwr ?st0)" "is_open ?st0 (fst i)" "0 \<le> snd i"
    using inv fo by (simp_all add: pool_inv_but_def frame_ok_def pools_ok_same [of ?st0 st] dwb_ok_same [of ?st0 st] is_open_same [of ?st0 st])
  from dblwr_add_page_ok [OF ok0, of "fr_page ?f1"] obtain st1 where
    a: "dblwr_add_page (fst i) (snd i) (fr_page ?f1) ?st0 = Some (SUCCESS, st1)" "pools_ok st1"
      "dwb_ok st1 (bpm_dblwr st1)" "same_pools st1 ?st0" "stored_page st1 i = Some (fr_page ?f1)"
      "\<forall>j. j \<noteq> i \<longrightarrow> stored_page st j \<noteq> None \<longrightarrow> stored_page st1 j = stored_page st j"
    by auto
  let ?st2 = "set_mgr_frame i (clear_dirty ?f1) st1"
  have fid: "snd (fr_frame_id ?f1) = snd i" using fo by (simp add: frame_ok_def frame_set_check_sum_def)
  have eq: "flush_page_internal (fst i) i st = Some (SUCCESS, ?st2)"
    using f w a(1) fid by (auto simp: flush_page_internal_def Let_def)
  have m1: "mgr_frame st1 = mgr_frame ?st0" using a(4) by (intro mgr_frame_same) (simp add: same_pools_def)
  have m2: "mgr_frame ?st2 = (mgr_frame st)(i \<mapsto> clear_dirty ?f1)"
    using f m1 by (auto simp: fun_eq_iff)
  have pools: "bpm_pools st1 = bpm_pools st" using a(4) by (simp add: same_pools_def)
  have ok_j: "frame_ok ?st2 j g \<and> (j \<notin> K - {i} \<longrightarrow> clean_ok ?st2 j g)" if "mgr_frame ?st2 j = Some g" for j g
  proof (cases "j = i")
    case True
    with that m2 have "g = clear_dirty ?f1" by simp
    with True fo a(5) pools show ?thesis
      by (simp add: frame_ok_def clean_ok_def frame_set_check_sum_def clear_dirty_def unlatched_def is_open_def)
  next
    case False
    with that m2 have "mgr_frame st j = Some g" by simp
    from pool_inv_frame [OF inv this] pool_inv_clean [OF inv this] False a(6) [rule_format, of j] pools
    show ?thesis by (auto simp: frame_ok_def clean_ok_def is_open_def)
  qed
  have keys: "map fst (bf_frames (bpm_frames ?st2)) = map fst (bf_frames (bpm_frames st))"
      "bf_frees (bpm_frames ?st2) = bf_frees (bpm_frames st)"
    using a(4) by (simp_all add: set_mgr_frame_def same_pools_def del: map_map)
  have inv2: "pool_inv_but (K - {i}) ?st2"
    unfolding pool_inv_but_def
  proof (intro conjI)
    show "pools_ok ?st2" using a(2) by (simp add: pools_ok_same [of ?st2 st1])
    show "dwb_ok ?st2 (bpm_dblwr ?st2)" using a(3) by (simp add: dwb_ok_same [of ?st2 st1])
    show "\<forall>j f. mgr_frame ?st2 j = Some f \<longrightarrow> frame_ok ?st2 j f \<and> (j \<notin> K - {i} \<longrightarrow> clean_ok ?st2 j f)"
      using ok_j by blast
  qed (use inv keys in \<open>auto simp: pool_inv_but_def\<close>)
  have v: "views_kept st ?st2"
    unfolding views_kept_def
  proof (intro conjI allI impI)
    fix j assume v: "page_view st j \<noteq> None"
    show "page_view ?st2 j = page_view st j"
    proof (cases "mgr_frame st j")
      case None
      then have "j \<noteq> i" "stored_page st j \<noteq> None" using f v by (auto simp: page_view_stored)
      with a(6) [rule_format, of j] None m2 show ?thesis by (simp add: page_view_stored)
    next
      case (Some g)
      with m2 f show ?thesis
        by (cases "j = i") (simp_all add: page_view_frame frame_set_check_sum_def clear_dirty_def)
    qed
  next
    fix j assume "stored_page st j \<noteq> None"
    with a(5) a(6) [rule_format, of j] show "stored_page ?st2 j \<noteq> None" by (cases "j = i") simp_all
  qed
  from eq inv2 v m2 a(4,5) keys show ?thesis
    by (intro exI [of _ ?st2] exI [of _ ?c]) (simp add: same_pools_def)
qed

section \<open>Pinning and freeing a frame\<close>

lemma pool_inv_frames:
  assumes inv: "pool_inv_but K st"
    and fr: "\<And>j g. frame_of fm j = Some g \<Longrightarrow> frame_ok st j g \<and> (j \<notin> L \<longrightarrow> clean_ok st j g)"
    and d: "distinct (map fst (bf_frames fm))"
    and fs: "\<And>f. f \<in> set (bf_frees fm) \<Longrightarrow> fr_pin_count f = 0 \<and> unlatched f"
  shows "pool_inv_but L (st\<lparr>bpm_frames := fm\<rparr>)"
  unfolding pool_inv_but_def
proof (intro conjI)
  show "pools_ok (st\<lparr>bpm_frames := fm\<rparr>)" using inv by (simp add: pool_inv_but_def pools_ok_def)
  show "dwb_ok (st\<lparr>bpm_frames := fm\<rparr>) (bpm_dblwr (st\<lparr>bpm_frames := fm\<rparr>))"
    using inv by (simp add: pool_inv_but_def dwb_ok_same [of "st\<lparr>bpm_frames := fm\<rparr>" st])
  show "\<forall>i f. mgr_frame (st\<lparr>bpm_frames := fm\<rparr>) i = Some f \<longrightarrow>
      frame_ok (st\<lparr>bpm_frames := fm\<rparr>) i f \<and> (i \<notin> L \<longrightarrow> clean_ok (st\<lparr>bpm_frames := fm\<rparr>) i f)"
  proof (intro allI impI)
    fix i f assume "mgr_frame (st\<lparr>bpm_frames := fm\<rparr>) i = Some f"
    then have "frame_ok st i f \<and> (i \<notin> L \<longrightarrow> clean_ok st i f)" using fr by (simp add: mgr_frame_def)
    then show "frame_ok (st\<lparr>bpm_frames := fm\<rparr>) i f \<and> (i \<notin> L \<longrightarrow> clean_ok (st\<lparr>bpm_frames := fm\<rparr>) i f)"
      by (simp add: frame_ok_def clean_ok_def is_open_def)
  qed
qed (use d fs in auto)

lemma pool_inv_distinct: "pool_inv_but K st \<Longrightarrow> distinct (map fst (bf_frames (bpm_frames st)))"
  by (simp add: pool_inv_but_def)

lemma pool_inv_frees:
  "pool_inv_but K st \<Longrightarrow> f \<in> set (bf_frees (bpm_frames st)) \<Longrightarrow> fr_pin_count f = 0 \<and> unlatched f"
  by (auto simp: pool_inv_but_def)

lemma set_mgr_frame_inv:
  assumes inv: "pool_inv_but K st" and g: "frame_ok st i g" "i \<notin> L \<Longrightarrow> clean_ok st i g"
    and L: "K - {i} \<subseteq> L"
  shows "pool_inv_but L (set_mgr_frame i g st)"
  unfolding set_mgr_frame_def
proof (rule pool_inv_frames [OF inv])
  fix j h assume h: "frame_of (set_frame i g (bpm_frames st)) j = Some h"
  show "frame_ok st j h \<and> (j \<notin> L \<longrightarrow> clean_ok st j h)"
  proof (cases "j = i")
    case True
    with h have "h = g" by (simp add: mgr_frame_def split: if_splits)
    with g True show ?thesis by simp
  next
    case False
    with h have "mgr_frame st j = Some h" by (simp add: mgr_frame_def)
    with pool_inv_frame [OF inv this] pool_inv_clean [OF inv this] False L show ?thesis by blast
  qed
next
  show "distinct (map fst (bf_frames (set_frame i g (bpm_frames st))))"
    using pool_inv_distinct [OF inv] by (simp del: map_map)
next
  fix f assume "f \<in> set (bf_frees (set_frame i g (bpm_frames st)))"
  then show "fr_pin_count f = 0 \<and> unlatched f" using pool_inv_frees [OF inv] by simp
qed

lemma views_kept_set_frame:
  assumes "mgr_frame st i = Some f" "frame_lsn g = frame_lsn f" "frame_data g = frame_data f"
  shows "views_kept st (set_mgr_frame i g st)"
  unfolding views_kept_def
proof (intro conjI allI impI)
  fix j show "page_view (set_mgr_frame i g st) j = page_view st j"
    using assms by (cases "j = i") (simp_all add: page_view_def split: option.split)
qed simp

text \<open>A frame given back to the allocator.\<close>

definition freed :: "Frame \<Rightarrow> Frame" where
  "freed f = f\<lparr>fr_frame_id := (fst (fr_frame_id f), -1), fr_pin_count := 0\<rparr>"

lemma mgr_free_ok:
  assumes inv: "pool_inv_but K st" and f: "mgr_frame st i = Some f" "fr_pin_count f = 1" "unlatched f"
  shows "\<exists>st'. mgr_free i st = Some st' \<and> pool_inv_but (K - {i}) st' \<and>
    st' = st\<lparr>bpm_frames := \<lparr>bf_frames = lru_remove i (bf_frames (bpm_frames st)),
               bf_frees = bf_frees (bpm_frames st) @ [freed f]\<rparr>\<rparr> \<and>
    mgr_frame st' = (mgr_frame st)(i := None)"
proof -
  let ?fm = "\<lparr>bf_frames = lru_remove i (bf_frames (bpm_frames st)), bf_frees = bf_frees (bpm_frames st) @ [freed f]\<rparr>"
  have fo: "frame_of ?fm j = (if j = i then None else mgr_frame st j)" for j
    by (simp add: frame_of_def mgr_frame_def lru_remove_def map_of_filter_neq)
  have "mgr_free i st = Some (st\<lparr>bpm_frames := ?fm\<rparr>)"
    using f by (simp add: mgr_free_def frames_free_def mgr_frame_def unpin_def unlatched_def freed_def assert_that_def Let_def)
  moreover have "pool_inv_but (K - {i}) (st\<lparr>bpm_frames := ?fm\<rparr>)"
  proof (rule pool_inv_frames [OF inv])
    fix j g assume "frame_of ?fm j = Some g"
    then show "frame_ok st j g \<and> (j \<notin> K - {i} \<longrightarrow> clean_ok st j g)"
      using fo pool_inv_frame [OF inv, of j g] pool_inv_clean [OF inv, of j g] by (simp split: if_splits)
  next
    show "distinct (map fst (bf_frames ?fm))"
      using pool_inv_distinct [OF inv] by (simp add: lru_remove_def distinct_map_filter)
  next
    fix g assume "g \<in> set (bf_frees ?fm)"
    then show "fr_pin_count g = 0 \<and> unlatched g"
      using f(3) pool_inv_frees [OF inv, of g] by (auto simp: freed_def unlatched_def)
  qed
  moreover have "mgr_frame (st\<lparr>bpm_frames := ?fm\<rparr>) = (mgr_frame st)(i := None)"
    using fo by (auto simp: mgr_frame_def)
  ultimately show ?thesis by blast
qed

lemma views_kept_free:
  assumes s: "stored_page st' = stored_page st" and m: "mgr_frame st' = (mgr_frame st)(i := None)"
    and v: "map_option (\<lambda>p. (pg_lsn p, pg_data p)) (stored_page st i) = page_view st i"
  shows "views_kept st st'"
  unfolding views_kept_def
proof (intro conjI allI impI)
  fix j show "page_view st' j = page_view st j"
    using s m v by (cases "j = i") (simp_all add: page_view_def split: option.split)
qed (simp add: s)

section \<open>Eviction\<close>

text \<open>
  Pool \<open>bid\<close> can take the frame: it is not pinned, and if it is a dirty one of its own the wait for
  its log entry returns. \<open>at_risk\<close> are the pages whose change is dropped when their frame is taken:
  the dirty unpinned frames of other pools.
\<close>

definition evictable :: "int \<Rightarrow> BufferPoolManager \<Rightarrow> FrameId \<Rightarrow> Frame \<Rightarrow> bool" where
  "evictable bid st i f \<longleftrightarrow> fr_pin_count f = 0 \<and>
     (fr_dirty f \<longrightarrow> fst i = bid \<longrightarrow> log_wait_lsn (frame_lsn f) (bpm_log st) \<noteq> None)"

definition at_risk :: "int \<Rightarrow> BufferPoolManager \<Rightarrow> FrameId set" where
  "at_risk bid st = {i. fst i \<noteq> bid \<and> (\<exists>f. mgr_frame st i = Some f \<and> fr_dirty f \<and> fr_pin_count f = 0)}"

lemma at_risk_foreign: "at_risk bid st \<subseteq> {i. fst i \<noteq> bid}"
  by (auto simp: at_risk_def)

definition same_world :: "BufferPoolManager \<Rightarrow> BufferPoolManager \<Rightarrow> bool" where
  "same_world st st' \<longleftrightarrow> bpm_pools st' = bpm_pools st \<and> bpm_log st' = bpm_log st \<and> bpm_next_id st' = bpm_next_id st"

lemma same_world_refl [simp]: "same_world st st"
  by (simp add: same_world_def)

lemma same_world_trans: "same_world a b \<Longrightarrow> same_world b c \<Longrightarrow> same_world a c"
  by (simp add: same_world_def)

lemma evict_ok:
  assumes inv: "pool_inv_but K st" and f: "mgr_frame st i = Some f" and e: "evictable bid st i f" and iK: "i \<notin> K"
  shows "\<exists>st' g. purge_loop bid [i] (pin_frame i st) = Some (1, st') \<and> pool_inv_but K st' \<and>
    views_kept_but (at_risk bid st) st st' \<and>
    mgr_frame st' = (mgr_frame st)(i := None) \<and> same_world st st' \<and>
    bf_frees (bpm_frames st') = bf_frees (bpm_frames st) @ [g]"
proof -
  let ?st1 = "set_mgr_frame i (pin f) st"
  have fo: "frame_ok st i f" by (rule pool_inv_frame [OF inv f])
  have p0: "fr_pin_count f = 0" using e by (simp add: evictable_def)
  have u: "unlatched f" using fo p0 by (simp add: frame_ok_def)
  have pf: "pin_frame i st = ?st1" using f by (simp add: pin_frame_def)
  have m1: "mgr_frame ?st1 i = Some (pin f)" using f by simp
  have cl: "clean_ok st i f" by (rule pool_inv_clean [OF inv f iK])
  have K: "K - {i} = K" using iK by simp
  have inv1: "pool_inv_but K ?st1"
    by (rule set_mgr_frame_inv [OF inv]) (use fo cl p0 in \<open>auto simp: frame_ok_def clean_ok_def pin_def\<close>)
  have v1: "views_kept st ?st1" by (rule views_kept_set_frame [OF f]) (simp_all add: pin_def)
  have upd: "(mgr_frame st)(i \<mapsto> x, i := None) = (mgr_frame st)(i := None)" for x by simp
  show ?thesis
  proof (cases "fr_dirty f \<and> fst i = bid")
    case False
    have p: "purger bid i ?st1 = Some (SUCCESS, ?st1)"
    proof (cases "fr_dirty f")
      case True
      with False have ne: "fst i \<noteq> bid" by simp
      have "snd (get_buffer_pool (fst i) ?st1) \<noteq> None"
        using fo by (auto simp: frame_ok_def is_open_def get_buffer_pool_def)
      then show ?thesis
        using m1 True ne fo
        by (cases "get_buffer_pool (fst i) ?st1")
           (auto simp: purger_def manager_flush_page_def pool_flush_page_def pin_def frame_ok_def)
    qed (use m1 in \<open>simp add: purger_def pin_def\<close>)
    from mgr_free_ok [OF inv1 m1, unfolded K] obtain st' where
      s: "mgr_free i ?st1 = Some st'" "pool_inv_but K st'" "mgr_frame st' = (mgr_frame ?st1)(i := None)"
        "st' = ?st1\<lparr>bpm_frames := \<lparr>bf_frames = lru_remove i (bf_frames (bpm_frames ?st1)),
               bf_frees = bf_frees (bpm_frames ?st1) @ [freed (pin f)]\<rparr>\<rparr>"
      using p0 u by (auto simp: pin_def unlatched_def)
    have sp: "stored_page st' = stored_page ?st1" by (simp add: s(4))
    have "views_kept_but (at_risk bid st) ?st1 st'"
    proof (cases "fr_dirty f")
      case True
      then have "i \<in> at_risk bid st" using f False p0 by (auto simp: at_risk_def)
      then show ?thesis by (intro views_kept_but_frames [OF sp]) (use s(3) in auto)
    next
      case False
      then have "stored_page st i = Some (fr_page f)" using cl by (simp add: clean_ok_def)
      then have "map_option (\<lambda>p. (pg_lsn p, pg_data p)) (stored_page ?st1 i) = page_view ?st1 i"
        using m1 by (simp add: page_view_def pin_def)
      from views_kept_free [OF sp s(3) this] show ?thesis by (rule views_kept_butI)
    qed
    then have "views_kept_but (at_risk bid st) st st'" by (rule views_kept_but_trans [OF views_kept_butI [OF v1]])
    moreover have "mgr_frame st' = (mgr_frame st)(i := None)" using s(3) f by (auto simp: fun_eq_iff)
    moreover have "same_world st st'" using s(4) by (simp add: same_world_def)
    moreover have "bf_frees (bpm_frames st') = bf_frees (bpm_frames st) @ [freed (pin f)]"
      using s(4) by (simp add: set_mgr_frame_def)
    ultimately show ?thesis using s(1,2) pf p by auto
  next
    case True
    then have own: "fst i = bid" "log_wait_lsn (frame_lsn (pin f)) (bpm_log ?st1) \<noteq> None"
      using e by (simp_all add: evictable_def pin_def)
    from flush_page_internal_ok [OF inv1 m1 own(2), unfolded K] obtain st2 c where
      w: "flush_page_internal (fst i) i ?st1 = Some (SUCCESS, st2)" "pool_inv_but K st2" "views_kept ?st1 st2"
        "mgr_frame st2 = (mgr_frame ?st1)(i \<mapsto> clear_dirty (frame_set_check_sum c (pin f)))"
        "stored_page st2 i = Some (fr_page (frame_set_check_sum c (pin f)))"
        "bf_frees (bpm_frames st2) = bf_frees (bpm_frames ?st1)"
        "bpm_pools st2 = bpm_pools ?st1" "bpm_log st2 = bpm_log ?st1" "bpm_next_id st2 = bpm_next_id ?st1"
      by blast
    let ?g = "clear_dirty (frame_set_check_sum c (pin f))"
    have m2: "mgr_frame st2 i = Some ?g" using w(4) by simp
    have v: "map_option (\<lambda>p. (pg_lsn p, pg_data p)) (stored_page st2 i) = page_view st2 i"
      using m2 w(5) by (simp add: page_view_def clear_dirty_def)
    have g: "fr_pin_count ?g = 1" "unlatched ?g"
      using p0 u by (simp_all add: pin_def clear_dirty_def frame_set_check_sum_def unlatched_def)
    from mgr_free_ok [OF w(2) m2 g, unfolded K] obtain st' where
      s: "mgr_free i st2 = Some st'" "pool_inv_but K st'" "mgr_frame st' = (mgr_frame st2)(i := None)"
        "st' = st2\<lparr>bpm_frames := \<lparr>bf_frames = lru_remove i (bf_frames (bpm_frames st2)),
               bf_frees = bf_frees (bpm_frames st2) @ [freed ?g]\<rparr>\<rparr>" by blast
    have "views_kept st2 st'" by (rule views_kept_free [OF _ s(3) v]) (simp add: s(4))
    then have "views_kept_but (at_risk bid st) st st'" using v1 w(3) views_kept_trans views_kept_butI by blast
    moreover have "purger bid i ?st1 = Some (SUCCESS, st2)"
      using m1 True own(1) w(1) fo by (simp add: purger_def pin_def frame_ok_def)
    moreover have "mgr_frame st' = (mgr_frame st)(i := None)" using s(3) w(4) f by (auto simp: fun_eq_iff)
    moreover have "same_world st st'" using s(4) w(7-9) by (simp add: same_world_def)
    moreover have "bf_frees (bpm_frames st') = bf_frees (bpm_frames st) @ [freed ?g]"
      using s(4) w(6) by (simp add: set_mgr_frame_def)
    ultimately show ?thesis using s(1,2) pf by auto
  qed
qed

section \<open>Allocating a frame\<close>

definition room :: "BufferPoolManager \<Rightarrow> bool" where
  "room st \<longleftrightarrow> bf_frees (bpm_frames st) \<noteq> [] \<or> (\<exists>i f. mgr_frame st i = Some f \<and> can_purge f)"

text \<open>Whatever frame pool \<open>bid\<close> may evict, it does not hang: the log is written up to its dirty frames.\<close>

definition evict_safe :: "int \<Rightarrow> BufferPoolManager \<Rightarrow> bool" where
  "evict_safe bid st \<longleftrightarrow> (\<forall>i f. mgr_frame st i = Some f \<longrightarrow> can_purge f \<longrightarrow> evictable bid st i f)"

lemma victim_exists:
  assumes d: "distinct (map fst (bf_frames fm))" and f: "frame_of fm i = Some f" "can_purge f"
  shows "\<exists>k g. frames_can_purge 1 fm = [k] \<and> frame_of fm k = Some g \<and> can_purge g"
proof -
  let ?xs = "filter (\<lambda>p. can_purge (snd p)) (rev (bf_frames fm))"
  have "(i, f) \<in> set ?xs" using f map_of_SomeD by (fastforce simp: frame_of_def)
  then obtain p ps where ps: "?xs = p # ps" by (cases ?xs) auto
  then have p: "p \<in> set (bf_frames fm)" "can_purge (snd p)"
    using Cons_eq_filterD [OF ps [symmetric]] by (auto, metis in_set_conv_decomp set_rev)
  then have "frame_of fm (fst p) = Some (snd p)"
    unfolding frame_of_def using d by (metis map_of_is_SomeI prod.collapse)
  moreover have "frames_can_purge 1 fm = [fst p]" by (simp add: frames_can_purge_def ps)
  ultimately show ?thesis using p(2) by blast
qed

lemma allocate_frame_found:
  "bf_frees (bpm_frames st) = f # fs \<Longrightarrow> mgr_frame st (bid, pn) = None \<Longrightarrow> fr_pin_count f = 0 \<Longrightarrow>
   allocate_frame bid pn st = Some (st\<lparr>bpm_frames := (bpm_frames st)\<lparr>bf_frees := fs,
     bf_frames := lru_put (bid, pn) (pin (f\<lparr>fr_frame_id := (bid, pn)\<rparr>)) (bf_frames (bpm_frames st))\<rparr>\<rparr>)"
  by (subst allocate_frame.simps)
     (simp add: frames_alloc_def frames_get_def mgr_frame_def assert_that_def)

lemma allocate_frame_retry:
  "bf_frees (bpm_frames st) = [] \<Longrightarrow> mgr_frame st (bid, pn) = None \<Longrightarrow> purge_frames bid 1 st = Some (n, st1) \<Longrightarrow>
   allocate_frame bid pn st = allocate_frame bid pn st1"
  by (subst allocate_frame.simps) (simp add: frames_alloc_def frames_get_def mgr_frame_def)

text \<open>
  A frame is found after at most one eviction: the state \<open>st1\<close> from which it is taken holds
  every page that \<open>st\<close> holds, those at risk apart.
\<close>

lemma allocate_frame_ok:
  assumes inv: "pool_inv_but K st" and n: "mgr_frame st (bid, pn) = None" and r: "room st" and e: "evict_safe bid st"
    and K: "\<And>i f. i \<in> K \<Longrightarrow> mgr_frame st i = Some f \<Longrightarrow> fr_pin_count f \<noteq> 0"
  shows "\<exists>st1 f fs. pool_inv_but K st1 \<and> views_kept_but (at_risk bid st) st st1 \<and> same_world st st1 \<and>
    mgr_frame st1 \<subseteq>\<^sub>m mgr_frame st \<and> (\<forall>i g. mgr_frame st i = Some g \<longrightarrow> fr_pin_count g \<noteq> 0 \<longrightarrow> mgr_frame st1 i = Some g) \<and>
    bf_frees (bpm_frames st1) = f # fs \<and>
    allocate_frame bid pn st = Some (st1\<lparr>bpm_frames := (bpm_frames st1)\<lparr>bf_frees := fs,
      bf_frames := lru_put (bid, pn) (pin (f\<lparr>fr_frame_id := (bid, pn)\<rparr>)) (bf_frames (bpm_frames st1))\<rparr>\<rparr>)"
proof (cases "bf_frees (bpm_frames st)")
  case (Cons f fs)
  with pool_inv_frees [OF inv, of f] have "fr_pin_count f = 0" by simp
  from allocate_frame_found [OF Cons n this] show ?thesis
    using inv Cons by (intro exI [of _ st] exI [of _ f] exI [of _ fs]) (simp add: views_kept_butI)
next
  case Nil
  with r obtain i f where "mgr_frame st i = Some f" "can_purge f" by (auto simp: room_def)
  with victim_exists [OF pool_inv_distinct [OF inv], of i f] obtain k g where
    k: "frames_can_purge 1 (bpm_frames st) = [k]" "mgr_frame st k = Some g" "can_purge g"
    by (auto simp: mgr_frame_def)
  have ev: "evictable bid st k g" using e k(2,3) unfolding evict_safe_def by blast
  have kK: "k \<notin> K" using K [of k g] k(2,3) unfolding can_purge_def by blast
  from evict_ok [OF inv k(2) ev kK] obtain st1 h where
    s: "purge_loop bid [k] (pin_frame k st) = Some (1, st1)" "pool_inv_but K st1" "views_kept_but (at_risk bid st) st st1"
      "mgr_frame st1 = (mgr_frame st)(k := None)" "same_world st st1"
      "bf_frees (bpm_frames st1) = [h]" using Nil by auto
  have "mgr_frame st1 (bid, pn) = None" using s(4) n by simp
  moreover have "fr_pin_count h = 0" using pool_inv_frees [OF s(2)] s(6) by simp
  ultimately have a: "allocate_frame bid pn st1 = Some (st1\<lparr>bpm_frames := (bpm_frames st1)\<lparr>bf_frees := [],
      bf_frames := lru_put (bid, pn) (pin (h\<lparr>fr_frame_id := (bid, pn)\<rparr>)) (bf_frames (bpm_frames st1))\<rparr>\<rparr>)"
    using allocate_frame_found [OF s(6)] by blast
  have "purge_frames bid 1 st = Some (1, st1)" using k(1) s(1) by (simp add: purge_frames_def)
  then have "allocate_frame bid pn st = allocate_frame bid pn st1" by (rule allocate_frame_retry [OF Nil n])
  moreover have "mgr_frame st1 \<subseteq>\<^sub>m mgr_frame st" using s(4) by (auto simp: map_le_def)
  moreover have "\<forall>i g. mgr_frame st i = Some g \<longrightarrow> fr_pin_count g \<noteq> 0 \<longrightarrow> mgr_frame st1 i = Some g"
    using s(4) k(2,3) by (auto simp: can_purge_def)
  ultimately show ?thesis using s a by (intro exI [of _ st1] exI [of _ h] exI [of _ "[]"]) simp
qed

section \<open>Fetching a page\<close>

text \<open>A frame taken from the allocator and filled with the stored page.\<close>

lemma take_frame:
  assumes inv: "pool_inv_but K st1" and k: "mgr_frame st1 k = None" "is_open st1 (fst k)" "0 \<le> snd k"
    and fs: "bf_frees (bpm_frames st1) = f # fs"
    and st2: "st2 = st1\<lparr>bpm_frames := (bpm_frames st1)\<lparr>bf_frees := fs,
      bf_frames := lru_put k (pin (f\<lparr>fr_frame_id := k\<rparr>)) (bf_frames (bpm_frames st1))\<rparr>\<rparr>"
  shows "pool_inv_but (insert k K) st2" "mgr_frame st2 = (mgr_frame st1)(k \<mapsto> pin (f\<lparr>fr_frame_id := k\<rparr>))"
    "stored_page st2 = stored_page st1" "same_world st1 st2" "fr_pin_count f = 0" "unlatched f"
proof -
  let ?f = "pin (f\<lparr>fr_frame_id := k\<rparr>)"
  let ?fm = "(bpm_frames st1)\<lparr>bf_frees := fs, bf_frames := lru_put k ?f (bf_frames (bpm_frames st1))\<rparr>"
  have f0: "fr_pin_count f = 0 \<and> unlatched f" using pool_inv_frees [OF inv] fs by simp
  then show "fr_pin_count f = 0" "unlatched f" by simp_all
  have fo: "frame_of ?fm j = (if j = k then Some ?f else mgr_frame st1 j)" for j
    by (simp add: frame_of_def mgr_frame_def lru_put_def map_of_filter_neq)
  show "pool_inv_but (insert k K) st2"
    unfolding st2
  proof (rule pool_inv_frames [OF inv])
    fix j g assume a: "frame_of ?fm j = Some g"
    show "frame_ok st1 j g \<and> (j \<notin> insert k K \<longrightarrow> clean_ok st1 j g)"
    proof (cases "j = k")
      case True
      with a fo f0 k(2,3) show ?thesis by (auto simp: frame_ok_def pin_def)
    next
      case False
      with a fo have "mgr_frame st1 j = Some g" by simp
      with pool_inv_frame [OF inv this] pool_inv_clean [OF inv this] show ?thesis by simp
    qed
  next
    show "distinct (map fst (bf_frames ?fm))"
      using pool_inv_distinct [OF inv] by (auto simp: lru_put_def distinct_map_filter)
  qed (use fs pool_inv_frees [OF inv] in auto)
  show "mgr_frame st2 = (mgr_frame st1)(k \<mapsto> ?f)" using fo by (auto simp: st2 mgr_frame_def)
  show "stored_page st2 = stored_page st1" "same_world st1 st2"
    by (simp_all add: st2 same_world_def)
qed

lemma load_page_stored:
  assumes "mgr_frame st (bid, pn) = Some f" "fr_frame_id f = (bid, pn)" "stored_page st (bid, pn) = Some p"
  shows "load_page bid pn st = Some (SUCCESS, set_mgr_frame (bid, pn) (f\<lparr>fr_page := p\<rparr>) st)"
proof (cases "snd (dblwr_read_page bid pn st)")
  case (Some q)
  with assms show ?thesis
    by (cases "dblwr_read_page bid pn st") (simp add: load_page_def stored_page_def)
next
  case None
  have fp: "file_page st (bid, pn) = Some p"
    using None assms(3) by (cases "dblwr_read_page bid pn st") (simp add: stored_page_def)
  have "f\<lparr>fr_page := p, fr_frame_id := (fst (fr_frame_id f), pn)\<rparr> = f\<lparr>fr_page := p\<rparr>"
    using assms(2) by (cases f) simp
  with fp None assms(1) show ?thesis
    by (cases "dblwr_read_page bid pn st")
       (auto simp: load_page_def file_page_def split: if_splits Option.bind_splits)
qed

lemma touch_inv:
  assumes inv: "pool_inv st"
  shows "pool_inv (st\<lparr>bpm_frames := (bpm_frames st)\<lparr>bf_frames := lru_touch k (bf_frames (bpm_frames st))\<rparr>\<rparr>)" (is "pool_inv ?st1")
    and "mgr_frame (st\<lparr>bpm_frames := (bpm_frames st)\<lparr>bf_frames := lru_touch k (bf_frames (bpm_frames st))\<rparr>\<rparr>) = mgr_frame st"
proof -
  let ?fm = "(bpm_frames st)\<lparr>bf_frames := lru_touch k (bf_frames (bpm_frames st))\<rparr>"
  show "mgr_frame (st\<lparr>bpm_frames := ?fm\<rparr>) = mgr_frame st" by (simp add: mgr_frame_def fun_eq_iff)
  show "pool_inv (st\<lparr>bpm_frames := ?fm\<rparr>)"
  proof (rule pool_inv_frames [OF inv])
    fix j g assume "frame_of ?fm j = Some g"
    then have "mgr_frame st j = Some g" by (simp add: mgr_frame_def)
    with pool_inv_frame [OF inv this] pool_inv_clean [OF inv this]
    show "frame_ok st j g \<and> (j \<notin> {} \<longrightarrow> clean_ok st j g)" by simp
  next
    show "distinct (map fst (bf_frames ?fm))"
      using distinct_lru_touch [OF pool_inv_distinct [OF inv]] by simp
  qed (use pool_inv_frees [OF inv] in auto)
qed

lemma get_this_page_ok:
  assumes inv: "pool_inv st" and o: "is_open st bid" "0 \<le> pn" and v: "page_view st (bid, pn) = Some v"
    and re: "mgr_frame st (bid, pn) = None \<Longrightarrow> room st \<and> evict_safe bid st"
  shows "\<exists>st' f. get_this_page bid pn st = Some (SUCCESS, Some (bid, pn), st') \<and> pool_inv st' \<and>
    views_kept_but (at_risk bid st) st st' \<and> same_world st st' \<and> mgr_frame st' (bid, pn) = Some f \<and> 
    v = (frame_lsn f, frame_data f) \<and>
    fr_pin_count f = (case mgr_frame st (bid, pn) of None \<Rightarrow> 0 | Some g \<Rightarrow> fr_pin_count g) + 1 \<and>
    (case mgr_frame st (bid, pn) of None \<Rightarrow> unlatched f | Some g \<Rightarrow> f = pin g) \<and>
    (\<forall>i g. i \<noteq> (bid, pn) \<longrightarrow> mgr_frame st i = Some g \<longrightarrow> fr_pin_count g \<noteq> 0 \<longrightarrow> mgr_frame st' i = Some g) \<and>
    (\<forall>i g. i \<noteq> (bid, pn) \<longrightarrow> mgr_frame st' i = Some g \<longrightarrow> mgr_frame st i = Some g)"
proof (cases "mgr_frame st (bid, pn)")
  case (Some f)
  let ?k = "(bid, pn)"
  let ?fm = "(bpm_frames st)\<lparr>bf_frames := lru_touch ?k (bf_frames (bpm_frames st))\<rparr>"
  let ?st1 = "st\<lparr>bpm_frames := ?fm\<rparr>"
  have inv1: "pool_inv ?st1" and m1: "mgr_frame ?st1 = mgr_frame st" by (rule touch_inv [OF inv])+
  let ?st' = "set_mgr_frame ?k (pin f) ?st1"
  have "frame_ok ?st1 ?k f" "clean_ok ?st1 ?k f"
    using pool_inv_frame [OF inv1] pool_inv_clean [OF inv1] m1 Some by auto
  then have "pool_inv ?st'"
    by (intro set_mgr_frame_inv [OF inv1]) (auto simp: frame_ok_def clean_ok_def pin_def)
  moreover have "views_kept ?st1 ?st'"
    by (rule views_kept_set_frame [of _ _ f]) (use m1 Some in \<open>simp_all add: pin_def\<close>)
  then have "views_kept st ?st'"
    by (rule views_kept_trans [rotated]) (simp add: views_kept_def page_view_def m1 split: option.split)
  moreover have "get_this_page bid pn st = Some (SUCCESS, Some ?k, ?st')"
    using Some by (simp add: get_this_page_def frames_get_def mgr_frame_def set_mgr_frame_def)
  moreover have "mgr_frame ?st' = (mgr_frame st)(?k \<mapsto> pin f)" using m1 Some by (auto simp: fun_eq_iff)
  moreover have "same_world st ?st'" by (simp add: same_world_def)
  ultimately show ?thesis
    using Some v by (intro exI [of _ ?st'] exI [of _ "pin f"]) (auto simp: page_view_def pin_def views_kept_butI)
next
  case None
  let ?k = "(bid, pn)"
  have r: "room st" and e: "evict_safe bid st" using re [OF None] by simp_all
  from allocate_frame_ok [OF inv None r e] empty_iff obtain st1 f fs where
    a: "pool_inv st1" "views_kept_but (at_risk bid st) st st1" "same_world st st1" "mgr_frame st1 \<subseteq>\<^sub>m mgr_frame st"
      "\<forall>i g. mgr_frame st i = Some g \<longrightarrow> fr_pin_count g \<noteq> 0 \<longrightarrow> mgr_frame st1 i = Some g"
      "bf_frees (bpm_frames st1) = f # fs"
      "allocate_frame bid pn st = Some (st1\<lparr>bpm_frames := (bpm_frames st1)\<lparr>bf_frees := fs,
      bf_frames := lru_put (bid, pn) (pin (f\<lparr>fr_frame_id := (bid, pn)\<rparr>)) (bf_frames (bpm_frames st1))\<rparr>\<rparr>)"
    by blast
  define st2 where "st2 = st1\<lparr>bpm_frames := (bpm_frames st1)\<lparr>bf_frees := fs,
      bf_frames := lru_put (bid, pn) (pin (f\<lparr>fr_frame_id := (bid, pn)\<rparr>)) (bf_frames (bpm_frames st1))\<rparr>\<rparr>"
  have k1: "mgr_frame st1 ?k = None" using a(4) None by (metis domIff map_le_implies_dom_le subset_iff)
  have o1: "is_open st1 (fst ?k)" "0 \<le> snd ?k" using o a(3) by (simp_all add: is_open_def same_world_def)
  note t = take_frame [OF a(1) k1 o1 a(6) st2_def]
  let ?f = "pin (f\<lparr>fr_frame_id := ?k\<rparr>)"
  have "?k \<notin> at_risk bid st" by (simp add: at_risk_def)
  then have "page_view st1 ?k = Some v" using a(2) v by (simp add: views_kept_but_def)
  then obtain p where p: "stored_page st1 ?k = Some p" "v = (pg_lsn p, pg_data p)"
    using k1 by (auto simp: page_view_stored)
  have m2: "mgr_frame st2 ?k = Some ?f" using t(2) by simp
  let ?g = "?f\<lparr>fr_page := p\<rparr>"
  let ?st3 = "set_mgr_frame ?k ?g st2"
  have l: "load_page bid pn st2 = Some (SUCCESS, ?st3)"
    by (rule load_page_stored [OF m2]) (use p(1) t(3) in \<open>simp_all add: pin_def\<close>)
  have inv3: "pool_inv ?st3"
  proof (rule set_mgr_frame_inv [OF t(1)])
    show "frame_ok st2 ?k ?g" using pool_inv_frame [OF t(1) m2] by (simp add: frame_ok_def unlatched_def)
    show "clean_ok st2 ?k ?g" using p(1) t(3) by (simp add: clean_ok_def)
  qed simp
  have m3: "mgr_frame ?st3 = (mgr_frame st1)(?k \<mapsto> ?g)" using t(2) by (auto simp: fun_eq_iff)
  have "page_view ?st3 j = page_view st1 j" for j
    using m3 t(3) k1 p by (cases "j = ?k") (simp_all add: page_view_def split: option.split)
  then have "views_kept st1 ?st3" using t(3) by (simp add: views_kept_def)
  then have v3: "views_kept_but (at_risk bid st) st ?st3" by (intro views_kept_but_trans [OF a(2)] views_kept_butI)
  have g: "get_this_page bid pn st = Some (SUCCESS, Some ?k, ?st3)"
    using None a(7) l by (simp add: get_this_page_def frames_get_def mgr_frame_def st2_def [symmetric])
  have w: "same_world st ?st3" using a(3) t(4) by (simp add: same_world_def)
  have pins: "\<forall>i g. i \<noteq> ?k \<longrightarrow> mgr_frame st i = Some g \<longrightarrow> fr_pin_count g \<noteq> 0 \<longrightarrow> mgr_frame ?st3 i = Some g"
    using a(5) m3 by (metis fun_upd_other)
  have sub: "\<forall>i g. i \<noteq> ?k \<longrightarrow> mgr_frame ?st3 i = Some g \<longrightarrow> mgr_frame st i = Some g"
  proof (intro allI impI)
    fix i g assume "i \<noteq> ?k" "mgr_frame ?st3 i = Some g"
    then have "mgr_frame st1 i = Some g" unfolding m3 by simp
    then show "mgr_frame st i = Some g" using a(4) by (rule map_le_Some)
  qed
  have mk: "mgr_frame ?st3 ?k = Some ?g" unfolding m3 by simp
  have vg: "v = (frame_lsn ?g, frame_data ?g)" using p(2) by simp
  have pg: "fr_pin_count ?g = (case mgr_frame st ?k of None \<Rightarrow> 0 | Some g \<Rightarrow> fr_pin_count g) + 1"
    unfolding None using t(5) by (simp add: pin_def)
  have ug: "case mgr_frame st ?k of None \<Rightarrow> unlatched ?g | Some g \<Rightarrow> ?g = pin g"
    unfolding None using t(6) by (simp add: pin_def unlatched_def)
  show ?thesis by (intro exI conjI) (rule g inv3 v3 w mk vg pg ug pins sub)+
qed

section \<open>A client's view of the pool\<close>

text \<open>
  What a client of a pool does: fetch a page, change the page of a frame it has pinned and mark
  it dirty, and give the frame back. To the client the pool is a map from page numbers to
  contents, whatever is written back or evicted behind its back: its own frames, which are
  written, or those of other pools. (What other pools lose is the subject of a property below.)
\<close>

datatype pool_op = PFetch PageNum | PWrite PageNum LSN "byte list" | PRelease PageNum

fun pool_step :: "int \<Rightarrow> pool_op \<Rightarrow> BufferPoolManager \<Rightarrow> ((RC \<times> (LSN \<times> byte list) option) \<times> BufferPoolManager) option" where
  "pool_step bid (PFetch pn) st = do {
     (rc, i, st') \<leftarrow> get_this_page bid pn st;
     Some ((rc, do { i \<leftarrow> i; f \<leftarrow> mgr_frame st' i; Some (frame_lsn f, frame_data f) }), st')
   }"
| "pool_step bid (PWrite pn l d) st = do {
     f \<leftarrow> mgr_frame st (bid, pn);
     Some ((SUCCESS, None), set_mgr_frame (bid, pn) (mark_dirty (frame_set_lsn l (frame_set_data d f))) st)
   }"
| "pool_step bid (PRelease pn) st = do {
     st' \<leftarrow> unpin_page (bid, pn) st;
     Some ((SUCCESS, None), st')
   }"

type_synonym page_map = "PageNum \<rightharpoonup> LSN \<times> byte list"

definition pool_pages :: "int \<Rightarrow> BufferPoolManager \<Rightarrow> page_map" where
  "pool_pages bid st pn = page_view st (bid, pn)"

fun page_map_spec :: "pool_op \<Rightarrow> page_map \<Rightarrow> RC \<times> (LSN \<times> byte list) option \<Rightarrow> page_map \<Rightarrow> bool" where
  "page_map_spec (PFetch pn) m r m' \<longleftrightarrow> r = (SUCCESS, m pn) \<and> m \<subseteq>\<^sub>m m'"
| "page_map_spec (PWrite pn l d) m r m' \<longleftrightarrow> r = (SUCCESS, None) \<and> m(pn \<mapsto> (l, d)) \<subseteq>\<^sub>m m'"
| "page_map_spec (PRelease pn) m r m' \<longleftrightarrow> r = (SUCCESS, None) \<and> m \<subseteq>\<^sub>m m'"

text \<open>
  The page exists; when it has to be read there is a frame for it, free or not pinned, and none
  of the pool's own dirty pages waits for a log that does not get on. Only a pinned page is
  written or released, and it is not latched when it is released.
\<close>

fun pool_allowed :: "int \<Rightarrow> pool_op \<Rightarrow> BufferPoolManager \<Rightarrow> bool" where
  "pool_allowed bid (PFetch pn) st \<longleftrightarrow> is_open st bid \<and> 0 \<le> pn \<and> page_view st (bid, pn) \<noteq> None \<and>
     (mgr_frame st (bid, pn) = None \<longrightarrow> room st \<and> evict_safe bid st)"
| "pool_allowed bid (PWrite pn l d) st \<longleftrightarrow> (\<exists>f. mgr_frame st (bid, pn) = Some f \<and> fr_pin_count f > 0)"
| "pool_allowed bid (PRelease pn) st \<longleftrightarrow> (\<exists>f. mgr_frame st (bid, pn) = Some f \<and> fr_pin_count f > 0 \<and> unlatched f)"

lemma views_kept_pages: "views_kept_but (at_risk bid st) st st' \<Longrightarrow> pool_pages bid st \<subseteq>\<^sub>m pool_pages bid st'"
  unfolding views_kept_but_def map_le_def pool_pages_def using at_risk_foreign [of bid st]
  by (metis (mono_tags, lifting) domIff fst_conv mem_Collect_eq subsetD)

lemma page_view_set_frame:
  "mgr_frame st k = Some f \<Longrightarrow> page_view (set_mgr_frame k g st) = (page_view st)(k \<mapsto> (frame_lsn g, frame_data g))"
  by (auto simp: page_view_def fun_eq_iff split: option.split)

lemma unpin_page_ok:
  assumes inv: "pool_inv st" and f: "mgr_frame st k = Some f" "fr_pin_count f > 0" "unlatched f"
  shows "\<exists>st'. unpin_page k st = Some st' \<and> pool_inv st' \<and> views_kept st st' \<and>
    mgr_frame st' = (mgr_frame st)(k \<mapsto> f\<lparr>fr_pin_count := fr_pin_count f - 1\<rparr>) \<and> same_world st st'"
proof -
  let ?g = "f\<lparr>fr_pin_count := fr_pin_count f - 1\<rparr>"
  let ?st = "set_mgr_frame k ?g st"
  have "unpin_page k st = Some ?st"
    using f by (simp add: unpin_page_def unpin_def unlatched_def Let_def assert_that_def)
  moreover have "pool_inv ?st"
    by (rule set_mgr_frame_inv [OF inv])
       (use pool_inv_frame [OF inv f(1)] pool_inv_clean [OF inv f(1)] f in
         \<open>simp_all add: frame_ok_def clean_ok_def unlatched_def\<close>)
  moreover have "views_kept st ?st" by (rule views_kept_set_frame [OF f(1)]) simp_all
  moreover have "mgr_frame ?st = (mgr_frame st)(k \<mapsto> ?g)" using f(1) by (auto simp: fun_eq_iff)
  moreover have "same_world st ?st" by (simp add: same_world_def)
  ultimately show ?thesis by blast
qed

lemma pool_step_ok:
  assumes inv: "pool_inv st" and al: "pool_allowed bid x st"
  shows "\<exists>r st'. pool_step bid x st = Some (r, st') \<and> pool_inv st' \<and>
    page_map_spec x (pool_pages bid st) r (pool_pages bid st')"
proof (cases x)
  case (PFetch pn)
  with al obtain v where a: "is_open st bid" "0 \<le> pn" "page_view st (bid, pn) = Some v"
      "mgr_frame st (bid, pn) = None \<longrightarrow> room st \<and> evict_safe bid st"
    by auto
  from get_this_page_ok [OF inv a(1-3)] a(4) obtain st' f where
    "get_this_page bid pn st = Some (SUCCESS, Some (bid, pn), st')" "pool_inv st'"
    "views_kept_but (at_risk bid st) st st'"
    "mgr_frame st' (bid, pn) = Some f" "v = (frame_lsn f, frame_data f)" by blast
  then show ?thesis using a(3) PFetch views_kept_pages by (simp add: pool_pages_def)
next
  case (PWrite pn l d)
  with al obtain f where f: "mgr_frame st (bid, pn) = Some f" "fr_pin_count f > 0" by auto
  let ?g = "mark_dirty (frame_set_lsn l (frame_set_data d f))"
  have "pool_inv (set_mgr_frame (bid, pn) ?g st)"
    by (rule set_mgr_frame_inv [OF inv])
       (use pool_inv_frame [OF inv f(1)] f in
         \<open>simp_all add: frame_ok_def clean_ok_def mark_dirty_def frame_set_lsn_def frame_set_data_def\<close>)
  then show ?thesis
    using f PWrite
    by (simp add: pool_pages_def map_le_def page_view_set_frame mark_dirty_def frame_set_lsn_def frame_set_data_def)
next
  case (PRelease pn)
  with al obtain f where f: "mgr_frame st (bid, pn) = Some f" "fr_pin_count f > 0" "unlatched f" by auto
  from unpin_page_ok [OF inv f] PRelease show ?thesis using views_kept_pages views_kept_butI by auto
qed

interpretation pool: refining_machine "pool_step bid" pool_inv "pool_allowed bid" "pool_pages bid" page_map_spec
proof
  fix s x r s'
  assume inv: "pool_inv s" and al: "pool_allowed bid x s"
  note ok = pool_step_ok [OF inv al]
  show "\<exists>r s'. pool_step bid x s = Some (r, s')" using ok by blast
  show "pool_step bid x s = Some (r, s') \<Longrightarrow> pool_inv s'" using ok by auto
  show "pool_step bid x s = Some (r, s') \<Longrightarrow> page_map_spec x (pool_pages bid s) r (pool_pages bid s')" using ok by auto
qed

text \<open>
  C2. To the client of a pool its pages are a map from page numbers to contents: any sequence of
  fetches, writes to pinned frames and releases returns, a fetch gives the contents written last,
  and no other page of the pool changes, however its frames are evicted and written back through
  the double write buffer and whichever frames of other pools, dirty or not, are taken for it.
\<close>

theorem buffer_pool_refines:
  assumes "pool_inv st" "allowed_run (pool_step bid) (pool_allowed bid) ops st"
  shows "\<exists>rs st'. run_ops (pool_step bid) ops st = Some (rs, st') \<and> pool_inv st' \<and>
    spec_run page_map_spec ops (pool_pages bid st) rs (pool_pages bid st')"
  by (rule pool.run_refines [OF assms])

text \<open>One frame, two pools with two pages each, no log, pages written through.\<close>

definition example_pool :: "(FrameId \<times> Frame) list \<Rightarrow> Frame list \<Rightarrow> BufferPoolManager" where
  "example_pool fs frees = \<lparr>bpm_frames = \<lparr>bf_frames = fs, bf_frees = frees\<rparr>, bpm_dblwr = VacuousDwb,
     bpm_pools = [(1, ''t''), (2, ''u'')], bpm_next_id = 3,
     bpm_disk = [''t'' \<mapsto> [zero_page, zero_page], ''u'' \<mapsto> [zero_page, zero_page\<lparr>pg_lsn := 7\<rparr>]],
     bpm_log = Vacuous\<rparr>"

lemma example_pool_ok:
  "pools_ok (example_pool fs frees)" "is_open (example_pool fs frees) b \<longleftrightarrow> b = 1 \<or> b = 2"
  "stored_page (example_pool fs frees) (2, 1) = Some (zero_page\<lparr>pg_lsn := 7\<rparr>)"
  "stored_page (example_pool fs frees) (1, 1) = Some zero_page"
  "stored_page (example_pool fs frees) (2, 0) = Some zero_page"
  "mgr_frame (example_pool fs frees) = map_of fs"
  by (auto simp: example_pool_def pools_ok_def is_open_def stored_page_def dblwr_read_page_def file_page_def
      mgr_frame_def frame_of_def)

lemma example_pool_inv: "pool_inv (example_pool [] [Frame_new])"
proof -
  have "dwb_ok (example_pool [] [Frame_new]) (bpm_dblwr (example_pool [] [Frame_new]))" by (simp add: example_pool_def)
  moreover have "bpm_frames (example_pool [] [Frame_new]) = \<lparr>bf_frames = [], bf_frees = [Frame_new]\<rparr>"
    by (simp add: example_pool_def)
  ultimately show ?thesis
    by (simp add: pool_inv_but_def example_pool_ok) (simp add: Frame_new_def unlatched_def)
qed

text \<open>A frame with a changed page of pool 1.\<close>

definition example_dirty :: Frame where
  "example_dirty = Frame_new\<lparr>fr_dirty := True, fr_frame_id := (1, 1), fr_page := zero_page\<lparr>pg_lsn := 1\<rparr>\<rparr>"

lemma example_dirty_fields [simp]:
  "fr_dirty example_dirty" "fr_pin_count example_dirty = 0" "fr_frame_id example_dirty = (1, 1)"
  "unlatched example_dirty" "fr_page example_dirty = zero_page\<lparr>pg_lsn := 1\<rparr>"
  by (simp_all add: example_dirty_def Frame_new_def unlatched_def)

lemma example_dirty_inv: "pool_inv ((example_pool [((1, 1), example_dirty)] [])\<lparr>bpm_log := lg\<rparr>)"
proof -
  let ?st = "example_pool [((1, 1), example_dirty)] []"
  have fr: "bpm_frames ?st = \<lparr>bf_frames = [((1, 1), example_dirty)], bf_frees = []\<rparr>"
      "bpm_dblwr ?st = VacuousDwb" by (simp_all add: example_pool_def)
  have "pools_ok (?st\<lparr>bpm_log := lg\<rparr>)" "is_open (?st\<lparr>bpm_log := lg\<rparr>) 1"
    using example_pool_ok(1,2) [of "[((1, 1), example_dirty)]" "[]"] by (simp_all add: pools_ok_def is_open_def)
  then show ?thesis
    by (simp add: pool_inv_but_def example_pool_ok fr frame_ok_def clean_ok_def)
qed

text \<open>
  The only frame holds a dirty page of pool 1. Pool 2 fetches its page 1, changes it and gives it
  back, fetches page 0, which evicts and writes page 1, gives it back, and fetches page 1 again.
\<close>

lemma spec_run_Cons: "spec_run spec (x # xs) a rs b \<Longrightarrow> \<exists>r rs' a'. rs = r # rs' \<and> spec x a r a' \<and> spec_run spec xs a' rs' b"
  by (cases rs) auto

lemma evict_safe_vacuous: "bpm_log st = Vacuous \<Longrightarrow> evict_safe bid st"
  by (auto simp: evict_safe_def evictable_def can_purge_def)

definition sole_frame :: "BufferPoolManager \<Rightarrow> PageNum \<Rightarrow> Frame \<Rightarrow> bool" where
  "sole_frame st pn f \<longleftrightarrow> pool_inv st \<and> mgr_frame st (2, pn) = Some f \<and> unlatched f \<and> is_open st 2 \<and> bpm_log st = Vacuous"

lemma example_fetch:
  assumes "pool_inv st" "is_open st 2" "bpm_log st = Vacuous" "0 \<le> pn" "page_view st (2, pn) \<noteq> None" "mgr_frame st (2, pn) = None" "room st"
  shows "pool_allowed 2 (PFetch pn) st \<and> (\<exists>r st' f. pool_step 2 (PFetch pn) st = Some (r, st') \<and> sole_frame st' pn f \<and> fr_pin_count f = 1 \<and>
    (\<forall>q. page_view st (2, q) \<noteq> None \<longrightarrow> page_view st' (2, q) = page_view st (2, q)) \<and>
    (\<forall>i. i \<noteq> (2, pn) \<longrightarrow> mgr_frame st i = None \<longrightarrow> mgr_frame st' i = None))"
proof -
  from assms(5) obtain v where v: "page_view st (2, pn) = Some v" by blast
  have re: "room st \<and> evict_safe 2 st" using assms(3,7) evict_safe_vacuous by blast
  from get_this_page_ok [OF assms(1,2,4) v] re obtain st' f where
    g: "get_this_page 2 pn st = Some (SUCCESS, Some (2, pn), st')" "pool_inv st'" "views_kept_but (at_risk 2 st) st st'"
      "same_world st st'" "mgr_frame st' (2, pn) = Some f" "fr_pin_count f = 1" "unlatched f"
      "\<forall>i g. i \<noteq> (2, pn) \<longrightarrow> mgr_frame st' i = Some g \<longrightarrow> mgr_frame st i = Some g"
    using assms(6) by auto
  have "page_view st' (2, q) = page_view st (2, q)" if "page_view st (2, q) \<noteq> None" for q
    using g(3) that by (simp add: views_kept_but_def at_risk_def)
  moreover have "mgr_frame st' i = None" if "i \<noteq> (2, pn)" "mgr_frame st i = None" for i
    using g(8) that by (metis option.exhaust option.distinct(1))
  moreover have "sole_frame st' pn f" using g assms(2,3) by (simp add: sole_frame_def same_world_def is_open_def)
  ultimately show ?thesis using assms g(1,6) re by auto
qed

lemma example_release:
  assumes "sole_frame st pn f" "fr_pin_count f = 1"
  shows "pool_allowed 2 (PRelease pn) st \<and> (\<exists>r st'. pool_step 2 (PRelease pn) st = Some (r, st') \<and> pool_inv st' \<and> is_open st' 2 \<and>
    bpm_log st' = Vacuous \<and> room st' \<and> (\<forall>q. page_view st (2, q) \<noteq> None \<longrightarrow> page_view st' (2, q) = page_view st (2, q)) \<and>
    (\<forall>i. mgr_frame st i = None \<longrightarrow> mgr_frame st' i = None))"
proof -
  note s = assms(1) [unfolded sole_frame_def]
  from unpin_page_ok [of st "(2, pn)" f] s assms(2) obtain st' where
    u: "unpin_page (2, pn) st = Some st'" "pool_inv st'" "views_kept st st'"
      "mgr_frame st' = (mgr_frame st)((2, pn) \<mapsto> f\<lparr>fr_pin_count := 0\<rparr>)" "same_world st st'" by auto
  have "can_purge (f\<lparr>fr_pin_count := 0\<rparr>)" by (simp add: can_purge_def)
  then have "room st'" using u(4) unfolding room_def by auto
  then show ?thesis using u s assms(2) by (auto simp: same_world_def is_open_def views_kept_def)
qed

lemma example_write:
  assumes "sole_frame st pn f" "fr_pin_count f = 1"
  shows "pool_allowed 2 (PWrite pn l d) st \<and> (\<exists>r st' f'. pool_step 2 (PWrite pn l d) st = Some (r, st') \<and> sole_frame st' pn f' \<and>
    fr_pin_count f' = 1 \<and> page_view st' = (page_view st)((2, pn) \<mapsto> (l, d)) \<and> (\<forall>i. mgr_frame st i = None \<longrightarrow> mgr_frame st' i = None))"
proof -
  note s = assms(1) [unfolded sole_frame_def]
  let ?g = "mark_dirty (frame_set_lsn l (frame_set_data d f))"
  let ?st' = "set_mgr_frame (2, pn) ?g st"
  have al: "pool_allowed 2 (PWrite pn l d) st" using s assms(2) by simp
  have st: "pool_step 2 (PWrite pn l d) st = Some ((SUCCESS, None), ?st')" using s by simp
  from pool_step_ok [OF _ al] s st have "pool_inv ?st'" by auto
  with s assms(2) have "sole_frame ?st' pn ?g" "fr_pin_count ?g = 1"
    by (simp_all add: sole_frame_def is_open_def mark_dirty_def frame_set_lsn_def frame_set_data_def unlatched_def)
  moreover have "page_view ?st' = (page_view st)((2, pn) \<mapsto> (l, d))"
    using s by (simp add: page_view_set_frame mark_dirty_def frame_set_lsn_def frame_set_data_def)
  moreover have "\<forall>i. mgr_frame st i = None \<longrightarrow> mgr_frame ?st' i = None" using s by auto
  ultimately show ?thesis using al st by blast
qed

lemma allowed_run_step:
  "pool_allowed b x st \<Longrightarrow> pool_step b x st = Some (r, st') \<Longrightarrow> allowed_run (pool_step b) (pool_allowed b) xs st' \<Longrightarrow>
     allowed_run (pool_step b) (pool_allowed b) (x # xs) st"
  by simp

theorem buffer_pool_refines_witness:
  "\<exists>r1 r2 r3 r4 r5 st'. run_ops (pool_step 2) [PFetch 1, PWrite 1 9 [], PRelease 1, PFetch 0, PRelease 0, PFetch 1]
       (example_pool [((1, 1), example_dirty)] []) = Some ([r1, r2, r3, r4, r5, (SUCCESS, Some (9, []))], st')"
proof -
  let ?ops = "[PFetch 1, PWrite 1 9 [], PRelease 1, PFetch 0, PRelease 0, PFetch 1]"
  define st where "st = example_pool [((1, 1), example_dirty)] []"
  have "st\<lparr>bpm_log := Vacuous\<rparr> = st" by (simp add: example_pool_def st_def)
  then have inv: "pool_inv st" using example_dirty_inv [of Vacuous] by (simp add: st_def)
  have s: "is_open st 2" "bpm_log st = Vacuous" "mgr_frame st (2, 1) = None" "mgr_frame st (2, 0) = None"
    "page_view st (2, 1) \<noteq> None" "page_view st (2, 0) \<noteq> None" "room st"
  proof -
    show "room st" unfolding room_def st_def by (auto simp: example_pool_ok can_purge_def)
    show "page_view st (2, 1) \<noteq> None" "page_view st (2, 0) \<noteq> None"
      by (simp_all add: st_def page_view_def example_pool_ok)
  qed (simp_all add: st_def example_pool_ok, simp add: example_pool_def)
  from example_fetch [OF inv s(1,2) _ s(5,3,7)] obtain q1 st1 f1 where
    1: "pool_allowed 2 (PFetch 1) st" "pool_step 2 (PFetch 1) st = Some (q1, st1)" "sole_frame st1 1 f1" "fr_pin_count f1 = 1"
      "page_view st1 (2, 0) \<noteq> None" "mgr_frame st1 (2, 0) = None" using s(4,6) by auto
  from example_write [OF 1(3,4), of 9 "[]"] obtain q2 st2 f2 where
    2: "pool_allowed 2 (PWrite 1 9 []) st1" "pool_step 2 (PWrite 1 9 []) st1 = Some (q2, st2)" "sole_frame st2 1 f2" "fr_pin_count f2 = 1"
      "page_view st2 (2, 0) \<noteq> None" "page_view st2 (2, 1) = Some (9, [])" "mgr_frame st2 (2, 0) = None" using 1(5,6) by auto
  from example_release [OF 2(3,4)] obtain q3 st3 where
    3: "pool_allowed 2 (PRelease 1) st2" "pool_step 2 (PRelease 1) st2 = Some (q3, st3)" "pool_inv st3" "is_open st3 2" "bpm_log st3 = Vacuous"
      "room st3" "page_view st3 (2, 0) \<noteq> None" "page_view st3 (2, 1) = Some (9, [])" "mgr_frame st3 (2, 0) = None"
    using 2(5,6,7) by auto
  from example_fetch [OF 3(3,4,5) _ 3(7,9,6)] obtain q4 st4 f4 where
    4: "pool_allowed 2 (PFetch 0) st3" "pool_step 2 (PFetch 0) st3 = Some (q4, st4)" "sole_frame st4 0 f4" "fr_pin_count f4 = 1"
      "page_view st4 (2, 1) = Some (9, [])" using 3(8) by auto
  from example_release [OF 4(3,4)] obtain q5 st5 where
    5: "pool_allowed 2 (PRelease 0) st4" "pool_step 2 (PRelease 0) st4 = Some (q5, st5)" "pool_inv st5" "is_open st5 2" "bpm_log st5 = Vacuous"
      "room st5" "page_view st5 (2, 1) = Some (9, [])" using 4(5) by auto
  have 6: "pool_allowed 2 (PFetch 1) st5" using 5 evict_safe_vacuous by auto
  have al: "allowed_run (pool_step 2) (pool_allowed 2) ?ops st"
    by (rule allowed_run_step [OF 1(1,2)] allowed_run_step [OF 2(1,2)] allowed_run_step [OF 3(1,2)]
        allowed_run_step [OF 4(1,2)] allowed_run_step [OF 5(1,2)])+ (use 6 in \<open>simp split: option.split\<close>)
  from buffer_pool_refines [OF inv al] obtain rs st' where
    r: "run_ops (pool_step 2) ?ops st = Some (rs, st')" "spec_run page_map_spec ?ops (pool_pages 2 st) rs (pool_pages 2 st')" by blast
  from r(2) obtain r1 r2 r3 r4 r5 r6 where rs: "rs = [r1, r2, r3, r4, r5, r6]" by (auto dest!: spec_run_Cons)
  obtain st6 where 7: "pool_step 2 (PFetch 1) st5 = Some ((SUCCESS, Some (9, [])), st6)"
    using pool_step_ok [OF 5(3) 6] 5(7) by (auto simp: pool_pages_def)
  have "run_ops (pool_step 2) ?ops st = Some ([q1, q2, q3, q4, q5, (SUCCESS, Some (9, []))], st6)"
    using 1(2) 2(2) 3(2) 4(2) 5(2) 7 by (simp del: pool_step.simps)
  with r(1) rs show ?thesis by (auto simp: st_def)
qed

section \<open>Write-ahead logging is given up when the log stops\<close>

text \<open>
  C33. A page whose log entry did not reach the log files is written all the same once the log handler is stopped:
  \<open>wait_lsn\<close> then returns an error, which \<open>flush_page_internal\<close> ignores, and the page goes to
  the double write buffer and is marked clean.
\<close>

theorem unlogged_page_written:
  assumes "pool_inv st" "mgr_frame st i = Some f" "bpm_log st = Disk h"
    and "log_reach torn rc w h es" "\<not> lh_running h" "lb_flushed_lsn (lh_entry_buffer h) < frame_lsn f"
  shows "\<exists>st' p g ws. log_wait_lsn (frame_lsn f) (bpm_log st) = Some INTERNAL \<and>
    flush_page_internal (fst i) i st = Some (SUCCESS, st') \<and> mgr_frame st' i = Some g \<and> \<not> fr_dirty g \<and>
    stored_page st' i = Some p \<and> pg_lsn p = frame_lsn f \<and> pg_data p = frame_data f \<and>
    bpm_log st' = Disk h \<and> es = ws @ lb_entries (lh_entry_buffer h) \<and> log_files_hold h ws \<and>
    (\<forall>e\<in>set ws. entry_lsn e < frame_lsn f)"
proof -
  have w: "log_wait_lsn (frame_lsn f) (bpm_log st) = Some INTERNAL"
    using assms(3,5,6) by (simp add: wait_lsn_def)
  then have "log_wait_lsn (frame_lsn f) (bpm_log st) \<noteq> None" by simp
  from flush_page_internal_ok [OF assms(1,2) this] obtain st' c where
    f: "flush_page_internal (fst i) i st = Some (SUCCESS, st')"
      "mgr_frame st' = (mgr_frame st)(i \<mapsto> clear_dirty (frame_set_check_sum c f))"
      "stored_page st' i = Some (fr_page (frame_set_check_sum c f))" "bpm_log st' = bpm_log st" by blast
  from log_reach_hold [OF assms(4)] obtain ws where
    ws: "es = ws @ buffered h" "log_files_hold h ws" "lsn_run 0 es" "flushed h = int (length ws)" by blast
  have "\<forall>e\<in>set ws. entry_lsn e < frame_lsn f"
    using lsn_run_bounds [of 0 ws] ws(3,4) assms(6) unfolding ws(1) lsn_run_append by fastforce
  with w f ws(1,2) assms(3) show ?thesis
    by (intro exI [of _ st'] exI [of _ "fr_page (frame_set_check_sum c f)"] exI [of _ "clear_dirty (frame_set_check_sum c f)"] exI [of _ ws])
       (simp add: clear_dirty_def frame_set_check_sum_def)
qed

theorem unlogged_page_written_witness:
  "\<exists>h st' p. flush_page_internal 1 (1, 1) ((example_pool [((1, 1), example_dirty)] [])\<lparr>bpm_log := Disk h\<rparr>) = Some (SUCCESS, st') \<and>
    stored_page st' (1, 1) = Some p \<and> pg_lsn p = 1 \<and> log_files_hold h [] \<and> lb_entries (lh_entry_buffer h) = [example_entry]"
proof -
  from log_reach_stopped obtain h where
    h: "log_reach False SUCCESS LogFileWriter_new h [example_entry]" "\<not> lh_running h" "buffered h = [example_entry]" by blast
  let ?st = "(example_pool [((1, 1), example_dirty)] [])\<lparr>bpm_log := Disk h\<rparr>"
  have m: "mgr_frame ?st (1, 1) = Some example_dirty" by (simp add: example_pool_ok)
  from log_reach_hold [OF h(1)] h(3) have fl: "flushed h = 0" by auto
  from unlogged_page_written [OF example_dirty_inv m _ h(1,2)] fl h(3) show ?thesis by auto
qed

section \<open>Evicting a frame of another pool\<close>

text \<open>
  C32. With no frame free, pool \<open>bid\<close> takes the least recently used unpinned frame even if it is a
  dirty frame of another pool, and then drops its change: \<open>flush_page\<close> of the manager reaches
  \<open>DiskBufferPool::flush_page\<close>, which reports success without writing.
\<close>

theorem foreign_dirty_frame_dropped:
  assumes "pool_inv st" "bf_frees (bpm_frames st) = []" "frames_can_purge 1 (bpm_frames st) = [k]"
    and "mgr_frame st k = Some f" "fr_dirty f" "fr_pin_count f = 0" "fst k \<noteq> bid" "mgr_frame st (bid, pn) = None"
  shows "\<exists>st'. allocate_frame bid pn st = Some st' \<and> stored_page st' = stored_page st \<and>
    page_view st' k = map_option (\<lambda>p. (pg_lsn p, pg_data p)) (stored_page st k)"
proof -
  let ?st1 = "set_mgr_frame k (pin f) st"
  have fo: "frame_ok st k f" by (rule pool_inv_frame [OF assms(1,4)])
  have u: "unlatched f" using fo assms(6) by (simp add: frame_ok_def)
  have cl: "clean_ok st k f" using pool_inv_clean [OF assms(1,4)] by simp
  have m1: "mgr_frame ?st1 k = Some (pin f)" using assms(4) by simp
  have inv1: "pool_inv ?st1"
    by (rule set_mgr_frame_inv [OF assms(1)]) (use fo cl assms(6) in \<open>simp_all add: frame_ok_def clean_ok_def pin_def\<close>)
  have g: "fr_pin_count (pin f) = 1" "unlatched (pin f)" using assms(6) u by (simp_all add: pin_def unlatched_def)
  from mgr_free_ok [OF inv1 m1 g, unfolded empty_Diff] obtain st2 where
    s: "mgr_free k ?st1 = Some st2" "pool_inv st2" "mgr_frame st2 = (mgr_frame ?st1)(k := None)"
      "st2 = ?st1\<lparr>bpm_frames := \<lparr>bf_frames = lru_remove k (bf_frames (bpm_frames ?st1)),
               bf_frees = bf_frees (bpm_frames ?st1) @ [freed (pin f)]\<rparr>\<rparr>" by blast
  have "get_buffer_pool (fst k) ?st1 \<noteq> (INTERNAL, None)" "snd (get_buffer_pool (fst k) ?st1) \<noteq> None"
    using fo by (auto simp: frame_ok_def is_open_def get_buffer_pool_def)
  then have "purger bid k ?st1 = Some (SUCCESS, ?st1)"
    using m1 assms(5,7) fo
    by (cases "get_buffer_pool (fst k) ?st1")
       (auto simp: purger_def manager_flush_page_def pool_flush_page_def pin_def frame_ok_def)
  then have p: "purge_frames bid 1 st = Some (1, st2)"
    using assms(3,4) s(1) by (simp add: purge_frames_def pin_frame_def)
  have fr: "bf_frees (bpm_frames st2) = [freed (pin f)]"
    using s(4) assms(2) by (simp add: set_mgr_frame_def)
  have n2: "mgr_frame st2 (bid, pn) = None" using s(3) assms(7,8) by auto
  let ?fm = "(bpm_frames st2)\<lparr>bf_frees := [],
     bf_frames := lru_put (bid, pn) (pin ((freed (pin f))\<lparr>fr_frame_id := (bid, pn)\<rparr>)) (bf_frames (bpm_frames st2))\<rparr>"
  have a: "allocate_frame bid pn st = Some (st2\<lparr>bpm_frames := ?fm\<rparr>)"
    using allocate_frame_found [OF fr n2] allocate_frame_retry [OF assms(2,8) p] by (simp add: freed_def)
  have "(bid, pn) \<noteq> k" using assms(7) by auto
  then have "frame_of ?fm k = frame_of (bpm_frames st2) k"
    by (simp add: frame_of_def lru_put_def map_of_filter_neq)
  then have "mgr_frame (st2\<lparr>bpm_frames := ?fm\<rparr>) k = None" using fun_cong [OF s(3), of k] by (simp add: mgr_frame_def)
  moreover have "stored_page (st2\<lparr>bpm_frames := ?fm\<rparr>) = stored_page st" by (simp add: s(4))
  ultimately show ?thesis using a by (auto simp: page_view_def)
qed

theorem foreign_dirty_frame_dropped_witness:
  "\<exists>st'. allocate_frame 2 1 (example_pool [((1, 1), example_dirty)] []) = Some st' \<and>
     map_option fst (page_view (example_pool [((1, 1), example_dirty)] []) (1, 1)) = Some 1 \<and>
     map_option fst (page_view st' (1, 1)) = Some 0"
proof -
  let ?st = "example_pool [((1, 1), example_dirty)] []"
  have fr: "bpm_frames ?st = \<lparr>bf_frames = [((1, 1), example_dirty)], bf_frees = []\<rparr>" by (simp add: example_pool_def)
  have "?st\<lparr>bpm_log := Vacuous\<rparr> = ?st" by (simp add: example_pool_def)
  then have inv: "pool_inv ?st" using example_dirty_inv [of Vacuous] by simp
  have c: "frames_can_purge 1 (bpm_frames ?st) = [(1, 1)]"
    unfolding fr by (simp add: frames_can_purge_def can_purge_def)
  have m: "mgr_frame ?st (1, 1) = Some example_dirty" "mgr_frame ?st (2, 1) = None" by (simp_all add: example_pool_ok)
  from foreign_dirty_frame_dropped [OF inv _ c m(1) _ _ _ m(2)] fr m show ?thesis
    by (auto simp: page_view_def example_pool_ok zero_page_def)
qed

end
