(* ===== verification/PageAlloc.thy ===== *)
theory PageAlloc
  imports BufferPoolInv
begin

text \<open>
  Page allocation: the bitmap in the header page of a file as a set of allocated pages, what
  allocation, disposal and their redo do to it, and that the log rebuilds it.
\<close>

section \<open>The header page\<close>

abbreviation hdr_count :: "byte list \<Rightarrow> nat" where
  "hdr_count d \<equiv> nat (field32 d 4)"

definition pages_used :: "byte list \<Rightarrow> nat set" where
  "pages_used d = {i. i < hdr_count d \<and> bit_at d BP_BITMAP_OFFSET i}"

text \<open>The pages whose bits fit behind the three fields of the header.\<close>

definition bitmap_pages :: nat where
  "bitmap_pages = (BP_PAGE_DATA_SIZE - BP_BITMAP_OFFSET) * 8"

text \<open>
  The header is well formed: the bitmap fits, its bits are the allocated pages, and the header
  page itself is one of them.
\<close>

definition hdr_wf :: "byte list \<Rightarrow> bool" where
  "hdr_wf d \<longleftrightarrow> length d = BP_PAGE_DATA_SIZE \<and> 0 \<le> field32 d 4 \<and> hdr_count d \<le> bitmap_pages \<and>
     field32 d 8 = int (card (pages_used d))"

lemma bitmap_pages_value: "bitmap_pages = 261920"
  by (simp add: bitmap_pages_def layout_simps BP_BITMAP_OFFSET_def)

lemma hdr_length: "hdr_wf d \<Longrightarrow> length d = 32752"
  by (simp add: hdr_wf_def layout_simps)

lemma hdr_bitmap_valid:
  assumes "length d = BP_PAGE_DATA_SIZE" "n \<le> bitmap_pages"
  shows "bitmap_valid d (bitmap_init BP_BITMAP_OFFSET n)"
proof -
  have "(n + 7) div 8 \<le> (261920 + 7) div 8" using assms(2) unfolding bitmap_pages_value by (intro div_le_mono) simp
  then show ?thesis
    using assms(1) by (simp add: bitmap_valid_def bitmap_init_def BP_BITMAP_OFFSET_def bytes_eq layout_simps)
qed

lemma finite_pages_used [simp]: "finite (pages_used d)"
  by (simp add: pages_used_def)

lemma pages_used_below: "pages_used d \<subseteq> {..<hdr_count d}"
  by (auto simp: pages_used_def)

lemma card_pages_used: "card (pages_used d) \<le> hdr_count d"
  using card_mono [OF _ pages_used_below] by (metis card_lessThan finite_lessThan)

lemma bit_at_upd32:
  "off + 4 \<le> BP_BITMAP_OFFSET \<Longrightarrow> off + 4 \<le> length d \<Longrightarrow> BP_BITMAP_OFFSET + i div 8 < length d \<Longrightarrow>
     bit_at (upd32 d off x) BP_BITMAP_OFFSET i = bit_at d BP_BITMAP_OFFSET i"
  by (simp add: bit_at_def upd32_nth)

lemma hdr_index: "n \<le> bitmap_pages \<Longrightarrow> i < n \<Longrightarrow> length (d :: byte list) = BP_PAGE_DATA_SIZE \<Longrightarrow> BP_BITMAP_OFFSET + i div 8 < length d"
  using bitmap_index_in [OF hdr_bitmap_valid, of d n i] by (simp add: bitmap_init_def)

lemma hdr_get_bit:
  assumes "hdr_wf d" "i < hdr_count d"
  shows "get_bit d (bitmap_init BP_BITMAP_OFFSET (hdr_count d)) i = Some (i \<in> pages_used d)"
  using get_bit_eq [OF hdr_bitmap_valid, of d "hdr_count d" i] assms
  by (simp add: hdr_wf_def bitmap_init_def pages_used_def)

lemma file_header_eq:
  "hdr_wf d \<Longrightarrow> file_header d = Some \<lparr>fh_buffer_pool_id = field32 d 0, fh_page_count = field32 d 4, fh_allocated_pages = field32 d 8\<rparr>"
  by (simp add: file_header_def hdr_length)

text \<open>The changes of the header: a bit is set or cleared, and the two counts follow.\<close>

lemma hdr_put_allocated:
  assumes d: "length d = BP_PAGE_DATA_SIZE" "hdr_count d \<le> bitmap_pages" and a: "int32_range a"
  shows "put32 d 8 a = Some (upd32 d 8 a)" "length (upd32 d 8 a) = BP_PAGE_DATA_SIZE"
    "field32 (upd32 d 8 a) 8 = a" "field32 (upd32 d 8 a) 4 = field32 d 4" "field32 (upd32 d 8 a) 0 = field32 d 0"
    "pages_used (upd32 d 8 a) = pages_used d"
proof -
  have len: "length d = 32752" using d by (simp add: layout_simps)
  show f: "field32 (upd32 d 8 a) 4 = field32 d 4" using len by (simp add: field32_upd32_other)
  show "put32 d 8 a = Some (upd32 d 8 a)" "length (upd32 d 8 a) = BP_PAGE_DATA_SIZE"
    "field32 (upd32 d 8 a) 8 = a" "field32 (upd32 d 8 a) 0 = field32 d 0"
    using len d a by (simp_all add: field32_upd32_same field32_upd32_other)
  have "bit_at (upd32 d 8 a) BP_BITMAP_OFFSET i = bit_at d BP_BITMAP_OFFSET i" if "i < hdr_count d" for i
    using bit_at_upd32 [of 8 d i a] hdr_index [OF d(2) that d(1)] len by (simp add: BP_BITMAP_OFFSET_def)
  then show "pages_used (upd32 d 8 a) = pages_used d" by (auto simp: pages_used_def f)
qed

lemma hdr_put_count:
  assumes d: "length d = BP_PAGE_DATA_SIZE" and n: "n \<le> bitmap_pages"
  shows "put32 d 4 (int n) = Some (upd32 d 4 (int n))" "length (upd32 d 4 (int n)) = BP_PAGE_DATA_SIZE"
    "field32 (upd32 d 4 (int n)) 8 = field32 d 8" "field32 (upd32 d 4 (int n)) 4 = int n"
    "field32 (upd32 d 4 (int n)) 0 = field32 d 0"
    "pages_used (upd32 d 4 (int n)) = {i. i < n \<and> bit_at d BP_BITMAP_OFFSET i}"
proof -
  have len: "length d = 32752" using d by (simp add: layout_simps)
  have rng: "int32_range (int n)" using n bitmap_pages_value by (simp add: int32_range_def)
  then show f: "field32 (upd32 d 4 (int n)) 4 = int n" using len by (simp add: field32_upd32_same)
  show "put32 d 4 (int n) = Some (upd32 d 4 (int n))" "length (upd32 d 4 (int n)) = BP_PAGE_DATA_SIZE"
    "field32 (upd32 d 4 (int n)) 8 = field32 d 8" "field32 (upd32 d 4 (int n)) 0 = field32 d 0"
    using len d by (simp_all add: field32_upd32_other)
  have "bit_at (upd32 d 4 (int n)) BP_BITMAP_OFFSET i = bit_at d BP_BITMAP_OFFSET i" if "i < n" for i
    using bit_at_upd32 [of 4 d i "int n"] hdr_index [OF n that d] len by (simp add: BP_BITMAP_OFFSET_def)
  then show "pages_used (upd32 d 4 (int n)) = {i. i < n \<and> bit_at d BP_BITMAP_OFFSET i}"
    by (auto simp: pages_used_def f)
qed

lemma hdr_bit_fields:
  assumes "length d = BP_PAGE_DATA_SIZE" "d' = d[BP_BITMAP_OFFSET + k := v]"
  shows "length d' = BP_PAGE_DATA_SIZE" "field32 d' 8 = field32 d 8" "field32 d' 4 = field32 d 4" "field32 d' 0 = field32 d 0"
  using assms by (simp_all add: BP_BITMAP_OFFSET_def field32_list_update_other layout_simps)

lemma hdr_set_bit:
  assumes d: "length d = BP_PAGE_DATA_SIZE" and n: "n \<le> bitmap_pages" "i < n"
  shows "\<exists>d'. set_bit d (bitmap_init BP_BITMAP_OFFSET n) i = Some d' \<and> length d' = BP_PAGE_DATA_SIZE \<and>
    field32 d' 8 = field32 d 8 \<and> field32 d' 4 = field32 d 4 \<and> field32 d' 0 = field32 d 0 \<and>
    (\<forall>j. bit_at d' BP_BITMAP_OFFSET j \<longleftrightarrow> j = i \<or> bit_at d BP_BITMAP_OFFSET j)"
proof -
  let ?bm = "bitmap_init BP_BITMAP_OFFSET n"
  have v: "bitmap_valid d ?bm" by (rule hdr_bitmap_valid [OF d n(1)])
  have i: "i < bm_size ?bm" "bm_bitmap ?bm = BP_BITMAP_OFFSET" using n by (simp_all add: bitmap_init_def)
  from set_bit_eq [OF v i(1)] obtain w where s: "set_bit d ?bm i = Some (d[BP_BITMAP_OFFSET + i div 8 := w])"
    unfolding i(2) by blast
  show ?thesis
    using bit_at_set_bit [OF v i(1) s, unfolded i(2)] hdr_bit_fields [OF d refl, of "i div 8" w]
    by (simp add: s del: length_list_update)
qed

lemma hdr_clear_bit:
  assumes d: "length d = BP_PAGE_DATA_SIZE" and n: "n \<le> bitmap_pages" "i < n"
  shows "\<exists>d'. clear_bit d (bitmap_init BP_BITMAP_OFFSET n) i = Some d' \<and> length d' = BP_PAGE_DATA_SIZE \<and>
    field32 d' 8 = field32 d 8 \<and> field32 d' 4 = field32 d 4 \<and> field32 d' 0 = field32 d 0 \<and>
    (\<forall>j. bit_at d' BP_BITMAP_OFFSET j \<longleftrightarrow> j \<noteq> i \<and> bit_at d BP_BITMAP_OFFSET j)"
proof -
  let ?bm = "bitmap_init BP_BITMAP_OFFSET n"
  have v: "bitmap_valid d ?bm" by (rule hdr_bitmap_valid [OF d n(1)])
  have i: "i < bm_size ?bm" "bm_bitmap ?bm = BP_BITMAP_OFFSET" using n by (simp_all add: bitmap_init_def)
  from clear_bit_eq [OF v i(1)] obtain w where s: "clear_bit d ?bm i = Some (d[BP_BITMAP_OFFSET + i div 8 := w])"
    unfolding i(2) by blast
  show ?thesis
    using bit_at_clear_bit [OF v i(1) s, unfolded i(2)] hdr_bit_fields [OF d refl, of "i div 8" w]
    by (simp add: s del: length_list_update)
qed

text \<open>What the four header changes of the code do; allocation and its redo differ in their order.\<close>

definition hdr_changed :: "byte list \<Rightarrow> byte list \<Rightarrow> nat \<Rightarrow> nat set \<Rightarrow> bool" where
  "hdr_changed d d' n U \<longleftrightarrow> hdr_wf d' \<and> field32 d' 0 = field32 d 0 \<and> field32 d' 4 = int n \<and> pages_used d' = U"

lemma alloc_count_range:
  assumes "hdr_wf d"
  shows "0 \<le> field32 d 8" "field32 d 8 \<le> 261920" "int32_range (field32 d 8 + 1)" "int32_range (field32 d 8 - 1)"
proof -
  show "0 \<le> field32 d 8" "field32 d 8 \<le> 261920"
    using assms card_pages_used [of d] bitmap_pages_value by (simp_all add: hdr_wf_def)
  then show "int32_range (field32 d 8 + 1)" "int32_range (field32 d 8 - 1)" by (simp_all add: int32_range_def)
qed

lemma hdr_alloc_old:
  assumes wf: "hdr_wf d" and i: "i < hdr_count d" "i \<notin> pages_used d"
  shows "\<exists>d'. do { d \<leftarrow> put32 d 8 (field32 d 8 + 1); set_bit d (bitmap_init BP_BITMAP_OFFSET (hdr_count d)) i } = Some d' \<and>
      hdr_changed d d' (hdr_count d) (insert i (pages_used d))"
    "\<exists>d'. do { d1 \<leftarrow> set_bit d (bitmap_init BP_BITMAP_OFFSET (hdr_count d)) i; put32 d1 8 (field32 d 8 + 1) } = Some d' \<and>
      hdr_changed d d' (hdr_count d) (insert i (pages_used d))"
proof -
  have d: "length d = BP_PAGE_DATA_SIZE" "hdr_count d \<le> bitmap_pages" "0 \<le> field32 d 4"
      "field32 d 8 = int (card (pages_used d))" using wf by (auto simp: hdr_wf_def)
  note r = alloc_count_range(3) [OF wf]
  note a = hdr_put_allocated [OF d(1,2) r]
  have card: "card (insert i (pages_used d)) = Suc (card (pages_used d))" using i by simp
  have n: "hdr_count (upd32 d 8 (field32 d 8 + 1)) = hdr_count d" using a(4) by simp
  from hdr_set_bit [OF a(2) d(2) i(1)] obtain d' where
    s: "set_bit (upd32 d 8 (field32 d 8 + 1)) (bitmap_init BP_BITMAP_OFFSET (hdr_count d)) i = Some d'"
      "length d' = BP_PAGE_DATA_SIZE" "field32 d' 8 = field32 d 8 + 1" "field32 d' 4 = field32 d 4" "field32 d' 0 = field32 d 0"
      "\<forall>j. bit_at d' BP_BITMAP_OFFSET j \<longleftrightarrow> j = i \<or> bit_at (upd32 d 8 (field32 d 8 + 1)) BP_BITMAP_OFFSET j"
    unfolding a(3-5) by blast
  have u: "pages_used d' = insert i (pages_used d)"
    using s(4,6) a(4,6) i(1) by (auto simp: pages_used_def set_eq_iff)
  then have "hdr_changed d d' (hdr_count d) (insert i (pages_used d))"
    using s d card by (simp add: hdr_changed_def hdr_wf_def)
  then show "\<exists>d'. do { d \<leftarrow> put32 d 8 (field32 d 8 + 1); set_bit d (bitmap_init BP_BITMAP_OFFSET (hdr_count d)) i } = Some d' \<and>
      hdr_changed d d' (hdr_count d) (insert i (pages_used d))" using a(1) s(1) n by simp
  from hdr_set_bit [OF d(1,2) i(1)] obtain d1 where
    t: "set_bit d (bitmap_init BP_BITMAP_OFFSET (hdr_count d)) i = Some d1" "length d1 = BP_PAGE_DATA_SIZE"
      "field32 d1 8 = field32 d 8" "field32 d1 4 = field32 d 4" "field32 d1 0 = field32 d 0"
      "\<forall>j. bit_at d1 BP_BITMAP_OFFSET j \<longleftrightarrow> j = i \<or> bit_at d BP_BITMAP_OFFSET j" by blast
  have "hdr_count d1 \<le> bitmap_pages" using t(4) d(2) by simp
  note b = hdr_put_allocated [OF t(2) this r]
  have "pages_used d1 = insert i (pages_used d)" using t(4,6) i(1) by (auto simp: pages_used_def)
  then have "hdr_changed d (upd32 d1 8 (field32 d 8 + 1)) (hdr_count d) (insert i (pages_used d))"
    using b t d card by (simp add: hdr_changed_def hdr_wf_def)
  then show "\<exists>d'. do { d1 \<leftarrow> set_bit d (bitmap_init BP_BITMAP_OFFSET (hdr_count d)) i; put32 d1 8 (field32 d 8 + 1) } = Some d' \<and>
      hdr_changed d d' (hdr_count d) (insert i (pages_used d))" using b(1) t(1) by simp
qed

lemma hdr_alloc_new:
  assumes wf: "hdr_wf d" and n: "n = hdr_count d" "n < bitmap_pages"
  shows "\<exists>d'. do { d \<leftarrow> put32 d 8 (field32 d 8 + 1); d \<leftarrow> put32 d 4 (int n + 1); set_bit d (bitmap_init BP_BITMAP_OFFSET (n + 1)) n } = Some d' \<and>
      hdr_changed d d' (n + 1) (insert n (pages_used d))"
proof -
  have d: "length d = BP_PAGE_DATA_SIZE" "hdr_count d \<le> bitmap_pages" "0 \<le> field32 d 4"
      "field32 d 8 = int (card (pages_used d))" using wf by (auto simp: hdr_wf_def)
  note a = hdr_put_allocated [OF d(1,2) alloc_count_range(3) [OF wf]]
  let ?d1 = "upd32 d 8 (field32 d 8 + 1)"
  have n1: "n + 1 \<le> bitmap_pages" "n < n + 1" using n by simp_all
  note b = hdr_put_count [OF a(2) n1(1)]
  let ?d2 = "upd32 ?d1 4 (int (n + 1))"
  from hdr_set_bit [OF b(2) n1] obtain d' where
    s: "set_bit ?d2 (bitmap_init BP_BITMAP_OFFSET (n + 1)) n = Some d'"
      "length d' = BP_PAGE_DATA_SIZE" "field32 d' 8 = field32 d 8 + 1" "field32 d' 4 = int (n + 1)" "field32 d' 0 = field32 d 0"
      "\<forall>j. bit_at d' BP_BITMAP_OFFSET j \<longleftrightarrow> j = n \<or> bit_at ?d2 BP_BITMAP_OFFSET j"
    unfolding a(3-5) b(3-5) by blast
  have "j \<in> pages_used d' \<longleftrightarrow> j = n \<or> j \<in> pages_used d" for j
  proof -
    have "hdr_count d' = n + 1" using s(4) by simp
    then have "j \<in> pages_used d' \<longleftrightarrow> j < n + 1 \<and> (j = n \<or> bit_at ?d2 BP_BITMAP_OFFSET j)"
      using s(6) by (simp add: pages_used_def)
    moreover have "j < n + 1 \<and> bit_at ?d2 BP_BITMAP_OFFSET j \<longleftrightarrow> j < n + 1 \<and> bit_at ?d1 BP_BITMAP_OFFSET j"
    proof -
      have "j \<in> pages_used ?d2 \<longleftrightarrow> j < n + 1 \<and> bit_at ?d1 BP_BITMAP_OFFSET j" unfolding b(6) by simp
      moreover have "hdr_count ?d2 = n + 1" unfolding b(4) by simp
      ultimately show ?thesis unfolding pages_used_def by simp
    qed
    moreover have "j < n \<and> bit_at ?d1 BP_BITMAP_OFFSET j \<longleftrightarrow> j \<in> pages_used d"
    proof -
      have "hdr_count ?d1 = n" unfolding a(4) n(1) by (rule refl)
      then have "j \<in> pages_used ?d1 \<longleftrightarrow> j < n \<and> bit_at ?d1 BP_BITMAP_OFFSET j" unfolding pages_used_def by simp
      then show ?thesis unfolding a(6) by simp
    qed
    ultimately show ?thesis by (cases "j = n") (auto simp: less_Suc_eq)
  qed
  then have u: "pages_used d' = insert n (pages_used d)" by auto
  have "n \<notin> pages_used d" using pages_used_below [of d] n(1) by auto
  then have "hdr_changed d d' (n + 1) (insert n (pages_used d))"
    using s d u n1 by (simp add: hdr_changed_def hdr_wf_def nat_add_distrib)
  then show ?thesis using a(1) b(1) s(1) by (simp add: add.commute)
qed

lemma hdr_free:
  assumes wf: "hdr_wf d" and i: "i < hdr_count d" "i \<in> pages_used d"
  shows "\<exists>d'. do { d \<leftarrow> put32 d 8 (field32 d 8 - 1); clear_bit d (bitmap_init BP_BITMAP_OFFSET (hdr_count d)) i } = Some d' \<and>
      hdr_changed d d' (hdr_count d) (pages_used d - {i})"
    "\<exists>d'. do { d1 \<leftarrow> clear_bit d (bitmap_init BP_BITMAP_OFFSET (hdr_count d)) i; put32 d1 8 (field32 d 8 - 1) } = Some d' \<and>
      hdr_changed d d' (hdr_count d) (pages_used d - {i})"
proof -
  have d: "length d = BP_PAGE_DATA_SIZE" "hdr_count d \<le> bitmap_pages" "0 \<le> field32 d 4"
      "field32 d 8 = int (card (pages_used d))" using wf by (auto simp: hdr_wf_def)
  note r = alloc_count_range(4) [OF wf]
  note a = hdr_put_allocated [OF d(1,2) r]
  have card: "int (card (pages_used d - {i})) = int (card (pages_used d)) - 1"
    using card_Suc_Diff1 [OF finite_pages_used i(2)] by simp
  have n: "hdr_count (upd32 d 8 (field32 d 8 - 1)) = hdr_count d" using a(4) by simp
  from hdr_clear_bit [OF a(2) d(2) i(1)] obtain d' where
    s: "clear_bit (upd32 d 8 (field32 d 8 - 1)) (bitmap_init BP_BITMAP_OFFSET (hdr_count d)) i = Some d'"
      "length d' = BP_PAGE_DATA_SIZE" "field32 d' 8 = field32 d 8 - 1" "field32 d' 4 = field32 d 4" "field32 d' 0 = field32 d 0"
      "\<forall>j. bit_at d' BP_BITMAP_OFFSET j \<longleftrightarrow> j \<noteq> i \<and> bit_at (upd32 d 8 (field32 d 8 - 1)) BP_BITMAP_OFFSET j"
    unfolding a(3-5) by blast
  have u: "pages_used d' = pages_used d - {i}"
    using s(4,6) a(4,6) by (auto simp: pages_used_def set_eq_iff)
  then have "hdr_changed d d' (hdr_count d) (pages_used d - {i})"
    using s d card by (simp add: hdr_changed_def hdr_wf_def)
  then show "\<exists>d'. do { d \<leftarrow> put32 d 8 (field32 d 8 - 1); clear_bit d (bitmap_init BP_BITMAP_OFFSET (hdr_count d)) i } = Some d' \<and>
      hdr_changed d d' (hdr_count d) (pages_used d - {i})" using a(1) s(1) n by simp
  from hdr_clear_bit [OF d(1,2) i(1)] obtain d1 where
    t: "clear_bit d (bitmap_init BP_BITMAP_OFFSET (hdr_count d)) i = Some d1" "length d1 = BP_PAGE_DATA_SIZE"
      "field32 d1 8 = field32 d 8" "field32 d1 4 = field32 d 4" "field32 d1 0 = field32 d 0"
      "\<forall>j. bit_at d1 BP_BITMAP_OFFSET j \<longleftrightarrow> j \<noteq> i \<and> bit_at d BP_BITMAP_OFFSET j" by blast
  have "hdr_count d1 \<le> bitmap_pages" using t(4) d(2) by simp
  note b = hdr_put_allocated [OF t(2) this r]
  have "pages_used d1 = pages_used d - {i}" using t(4,6) by (auto simp: pages_used_def)
  then have "hdr_changed d (upd32 d1 8 (field32 d 8 - 1)) (hdr_count d) (pages_used d - {i})"
    using b t d card by (simp add: hdr_changed_def hdr_wf_def)
  then show "\<exists>d'. do { d1 \<leftarrow> clear_bit d (bitmap_init BP_BITMAP_OFFSET (hdr_count d)) i; put32 d1 8 (field32 d 8 - 1) } = Some d' \<and>
      hdr_changed d d' (hdr_count d) (pages_used d - {i})" using b(1) t(1) by simp
qed

text \<open>The search finds the first free page.\<close>

lemma first_free_page_spec:
  assumes "hdr_wf d" "0 \<le> i"
  shows "(first_free_page d (field32 d 4) i = Some None \<and> (\<forall>j. nat i \<le> j \<longrightarrow> j < hdr_count d \<longrightarrow> j \<in> pages_used d)) \<or>
    (\<exists>k. first_free_page d (field32 d 4) i = Some (Some (int k)) \<and> nat i \<le> k \<and> k < hdr_count d \<and> k \<notin> pages_used d \<and>
       (\<forall>j. nat i \<le> j \<longrightarrow> j < k \<longrightarrow> j \<in> pages_used d))"
  using assms
proof (induction d "field32 d 4" i rule: first_free_page.induct)
  case (1 d i)
  show ?case
  proof (cases "i < field32 d 4")
    case False
    then show ?thesis by (subst first_free_page.simps) (auto simp: first_free_page.simps)
  next
    case True
    have b: "get_bit d (bitmap_init BP_BITMAP_OFFSET (hdr_count d)) (nat i) = Some (nat i \<in> pages_used d)"
      by (rule hdr_get_bit [OF 1(2)]) (use True 1(3) in simp)
    show ?thesis
    proof (cases "nat i \<in> pages_used d")
      case False
      then have "first_free_page d (field32 d 4) i = Some (Some (int (nat i)))"
        using True b 1(3) by (subst first_free_page.simps) simp
      then show ?thesis using False True 1(3) by (intro disjI2 exI [of _ "nat i"]) simp
    next
      case used: True
      have e: "first_free_page d (field32 d 4) i = first_free_page d (field32 d 4) (i + 1)"
        using True b used by (subst first_free_page.simps) simp
      have s: "nat (i + 1) = Suc (nat i)" using 1(3) by simp
      have le: "nat i \<le> j \<longleftrightarrow> j = nat i \<or> Suc (nat i) \<le> j" for j by auto
      from 1(1) [OF True b _ 1(2)] used 1(3) show ?thesis unfolding e s
        by (auto simp: le)
    qed
  qed
qed

section \<open>Redo of the allocation log\<close>

text \<open>The abstract allocation state: the number of pages and the allocated ones.\<close>

type_synonym alloc_state = "nat \<times> nat set"

datatype alloc_op = AAlloc nat | ADispose nat

fun alloc_apply :: "alloc_op \<Rightarrow> alloc_state \<Rightarrow> alloc_state" where
  "alloc_apply (AAlloc i) (n, U) = (if i < n then n else n + 1, insert i U)"
| "alloc_apply (ADispose i) (n, U) = (n, U - {i})"

fun alloc_valid :: "alloc_op \<Rightarrow> alloc_state \<Rightarrow> bool" where
  "alloc_valid (AAlloc i) (n, U) \<longleftrightarrow> i \<notin> U \<and> (i < n \<or> i = n \<and> n < bitmap_pages)"
| "alloc_valid (ADispose i) (n, U) \<longleftrightarrow> i \<in> U \<and> i < n"

fun valid_history :: "alloc_op list \<Rightarrow> alloc_state \<Rightarrow> bool" where
  "valid_history [] a \<longleftrightarrow> True"
| "valid_history (x # xs) a \<longleftrightarrow> alloc_valid x a \<and> valid_history xs (alloc_apply x a)"

definition hdr_state :: "byte list \<Rightarrow> alloc_state" where
  "hdr_state d = (hdr_count d, pages_used d)"

fun op_page :: "alloc_op \<Rightarrow> nat" where
  "op_page (AAlloc i) = i" | "op_page (ADispose i) = i"

fun op_code :: "alloc_op \<Rightarrow> int" where
  "op_code (AAlloc i) = BP_ALLOCATE" | "op_code (ADispose i) = BP_DEALLOCATE"

text \<open>The log entry of an operation.\<close>

definition alloc_entry :: "int \<Rightarrow> LSN \<Rightarrow> alloc_op \<Rightarrow> byte list LogEntry" where
  "alloc_entry bid l x = \<lparr>le_header = \<lparr>h_lsn = l, h_size = 12, h_module_id = BUFFER_POOL\<rparr>,
     le_data = enc_bp_log bid (op_code x) (int (op_page x))\<rparr>"

lemma dec_bp_log:
  assumes "int32_range a" "int32_range b" "int32_range c"
  shows "field32 (enc_bp_log a b c) 0 = a" "field32 (enc_bp_log a b c) 4 = b" "field32 (enc_bp_log a b c) 8 = c"
proof -
  have at: "field32 (ys @ enc32 x @ zs) n = x" if "int32_range x" "length ys = n" for x ys zs n
    using that dec32_enc32 [of x] by (simp add: field32_def)
  show "field32 (enc_bp_log a b c) 0 = a" using at [of a "[]"] assms by (simp add: enc_bp_log_def)
  show "field32 (enc_bp_log a b c) 4 = b" using at [of b "enc32 a"] assms by (simp add: enc_bp_log_def)
  show "field32 (enc_bp_log a b c) 8 = c" using at [of c "enc32 a @ enc32 b" 8 "[]"] assms by (simp add: enc_bp_log_def)
qed

lemma update_header_eq:
  assumes "mgr_frame st (hdr_id bid) = Some f" "g (frame_data f) = Some d"
  shows "update_header bid g l st = Some (set_mgr_frame (hdr_id bid)
    (f\<lparr>fr_dirty := True, fr_page := (fr_page f)\<lparr>pg_data := d, pg_lsn := (case l of None \<Rightarrow> frame_lsn f | Some l \<Rightarrow> l)\<rparr>\<rparr>) st)"
  using assms by (cases l; cases f)
    (simp_all add: update_header_def mark_dirty_def frame_set_data_def frame_set_lsn_def Let_def)

text \<open>The header of an open pool, and how far its LSN may lag.\<close>

definition hdr_at :: "BufferPoolManager \<Rightarrow> int \<Rightarrow> alloc_state \<Rightarrow> LSN \<Rightarrow> bool" where
  "hdr_at st bid a l \<longleftrightarrow> is_open st bid \<and> (\<exists>f. mgr_frame st (hdr_id bid) = Some f \<and>
     hdr_wf (frame_data f) \<and> hdr_state (frame_data f) = a \<and> frame_lsn f = l)"

lemma hdr_at_set_frame:
  assumes "hdr_at st bid a l" "hdr_wf (frame_data f)"
  shows "hdr_at (set_mgr_frame (hdr_id bid) f st) bid (hdr_state (frame_data f)) (frame_lsn f)"
  using assms by (auto simp: hdr_at_def is_open_def)

lemma hdr_changed_state: "hdr_changed d d' n U \<Longrightarrow> hdr_wf d' \<and> hdr_state d' = (n, U)"
  by (simp add: hdr_changed_def hdr_state_def)

lemma hdr_at_update:
  assumes h: "hdr_at st bid a l" and f: "mgr_frame st (hdr_id bid) = Some f" and g: "g (frame_data f) = Some d"
    and c: "hdr_changed (frame_data f) d n U"
  shows "\<exists>st'. update_header bid g l' st = Some st' \<and> hdr_at st' bid (n, U) (case l' of None \<Rightarrow> l | Some x \<Rightarrow> x)"
proof -
  have l: "frame_lsn f = l" using h f by (auto simp: hdr_at_def)
  let ?f = "f\<lparr>fr_dirty := True, fr_page := (fr_page f)\<lparr>pg_data := d, pg_lsn := (case l' of None \<Rightarrow> frame_lsn f | Some l \<Rightarrow> l)\<rparr>\<rparr>"
  have "hdr_at (set_mgr_frame (hdr_id bid) ?f st) bid (n, U) (case l' of None \<Rightarrow> l | Some x \<Rightarrow> x)"
    using hdr_at_set_frame [OF h, of ?f] hdr_changed_state [OF c] l by (cases l') simp_all
  then show ?thesis using update_header_eq [OF f, of g d l', OF g] by blast
qed

lemma redo_allocate_ok:
  assumes h: "hdr_at st bid a l0" and l: "l0 < l" and v: "alloc_valid (AAlloc i) a"
  shows "\<exists>st' l1. redo_allocate_page bid l (int i) st = Some (SUCCESS, st') \<and>
    hdr_at st' bid (alloc_apply (AAlloc i) a) l1 \<and> l0 \<le> l1 \<and> l1 \<le> l"
proof -
  from h obtain f where f: "mgr_frame st (hdr_id bid) = Some f" "hdr_wf (frame_data f)"
    "hdr_state (frame_data f) = a" "frame_lsn f = l0" by (auto simp: hdr_at_def)
  let ?d = "frame_data f"
  have a: "a = (hdr_count ?d, pages_used ?d)" using f(3) by (simp add: hdr_state_def)
  have pc: "0 \<le> field32 ?d 4" using f(2) by (simp add: hdr_wf_def)
  show ?thesis
  proof (cases "i < hdr_count ?d")
    case True
    have i: "i \<notin> pages_used ?d" using v a by simp
    from hdr_alloc_old(2) [OF f(2) True i] obtain d' where
      d: "do { d1 \<leftarrow> Bitmap.set_bit ?d (bitmap_init BP_BITMAP_OFFSET (hdr_count ?d)) i; put32 d1 8 (field32 ?d 8 + 1) } = Some d'"
        "hdr_changed ?d d' (hdr_count ?d) (insert i (pages_used ?d))" by blast
    from hdr_at_update [OF h f(1), of "\<lambda>d. do { d1 \<leftarrow> Bitmap.set_bit d (bitmap_init BP_BITMAP_OFFSET (hdr_count ?d)) i; put32 d1 8 (field32 ?d 8 + 1) }",
        OF d, of None] obtain st' where
      u: "update_header bid (\<lambda>d. do { d1 \<leftarrow> Bitmap.set_bit d (bitmap_init BP_BITMAP_OFFSET (hdr_count ?d)) i; put32 d1 8 (field32 ?d 8 + 1) }) None st = Some st'"
        "hdr_at st' bid (hdr_count ?d, insert i (pages_used ?d)) l0" by auto
    have lt: "int i < field32 ?d 4" using True by simp
    have "redo_allocate_page bid l (int i) st = Some (SUCCESS, st')"
      using f(1,4) l lt i u(1) hdr_get_bit [OF f(2) True]
      by (simp add: redo_allocate_page_def file_header_eq [OF f(2)] del: nat_less_iff)
    then show ?thesis using u(2) a True l by (intro exI [of _ st'] exI [of _ l0]) auto
  next
    case False
    with v a have n: "i = hdr_count ?d" "i < bitmap_pages" by auto
    then have ii: "int i = field32 ?d 4" using pc by simp
    from hdr_alloc_new [OF f(2) n] obtain d' where
      d: "do { d \<leftarrow> put32 ?d 8 (field32 ?d 8 + 1); d \<leftarrow> put32 d 4 (int i + 1); Bitmap.set_bit d (bitmap_init BP_BITMAP_OFFSET (i + 1)) i } = Some d'"
        "hdr_changed ?d d' (i + 1) (insert i (pages_used ?d))" by blast
    from hdr_at_update [OF h f(1), of "\<lambda>d. do { d \<leftarrow> put32 d 8 (field32 ?d 8 + 1); d \<leftarrow> put32 d 4 (int i + 1); Bitmap.set_bit d (bitmap_init BP_BITMAP_OFFSET (i + 1)) i }",
        OF d, of "Some l"] obtain st' where
      u: "update_header bid (\<lambda>d. do { d \<leftarrow> put32 d 8 (field32 ?d 8 + 1); d \<leftarrow> put32 d 4 (int i + 1); Bitmap.set_bit d (bitmap_init BP_BITMAP_OFFSET (i + 1)) i }) (Some l) st = Some st'"
        "hdr_at st' bid (i + 1, insert i (pages_used ?d)) l" by auto
    have "int i < MAX_PAGE_NUM" using n(2) by (simp add: MAX_PAGE_NUM_def bitmap_pages_value layout_simps)
    then have "redo_allocate_page bid l (int i) st = Some (SUCCESS, st')"
      using f(1,4) l u(1) by (simp add: redo_allocate_page_def file_header_eq [OF f(2)] ii [symmetric])
    then show ?thesis using u(2) a False n(1) l by (intro exI [of _ st'] exI [of _ l]) auto
  qed
qed

lemma redo_deallocate_ok:
  assumes h: "hdr_at st bid a l0" and l: "l0 < l" and v: "alloc_valid (ADispose i) a"
  shows "\<exists>st'. redo_deallocate_page bid l (int i) st = Some (SUCCESS, st') \<and>
    hdr_at st' bid (alloc_apply (ADispose i) a) l"
proof -
  from h obtain f where f: "mgr_frame st (hdr_id bid) = Some f" "hdr_wf (frame_data f)"
    "hdr_state (frame_data f) = a" "frame_lsn f = l0" by (auto simp: hdr_at_def)
  let ?d = "frame_data f"
  have a: "a = (hdr_count ?d, pages_used ?d)" using f(3) by (simp add: hdr_state_def)
  have i: "i < hdr_count ?d" "i \<in> pages_used ?d" using v a by auto
  then have lt: "int i < field32 ?d 4" by simp
  from hdr_free(2) [OF f(2) i] obtain d' where
    d: "do { d1 \<leftarrow> clear_bit ?d (bitmap_init BP_BITMAP_OFFSET (hdr_count ?d)) i; put32 d1 8 (field32 ?d 8 - 1) } = Some d'"
      "hdr_changed ?d d' (hdr_count ?d) (pages_used ?d - {i})" by blast
  from hdr_at_update [OF h f(1), of "\<lambda>d. do { d1 \<leftarrow> clear_bit d (bitmap_init BP_BITMAP_OFFSET (hdr_count ?d)) i; put32 d1 8 (field32 ?d 8 - 1) }",
      OF d, of "Some l"] obtain st' where
    u: "update_header bid (\<lambda>d. do { d1 \<leftarrow> clear_bit d (bitmap_init BP_BITMAP_OFFSET (hdr_count ?d)) i; put32 d1 8 (field32 ?d 8 - 1) }) (Some l) st = Some st'"
      "hdr_at st' bid (hdr_count ?d, pages_used ?d - {i}) l" by auto
  have "redo_deallocate_page bid l (int i) st = Some (SUCCESS, st')"
    using f(1,4) l lt i(2) u(1) hdr_get_bit [OF f(2) i(1)]
    by (simp add: redo_deallocate_page_def file_header_eq [OF f(2)])
  then show ?thesis using u(2) a by auto
qed

lemma redo_skip:
  assumes "hdr_at st bid a l0" "l \<le> l0"
  shows "redo_allocate_page bid l pn st = Some (SUCCESS, st)" "redo_deallocate_page bid l pn st = Some (SUCCESS, st)"
  using assms by (auto simp: hdr_at_def redo_allocate_page_def redo_deallocate_page_def file_header_eq)

lemma bp_replay_eq:
  assumes "hdr_at st bid a l0" "int32_range bid" "op_page x \<le> bitmap_pages"
  shows "bp_replay (alloc_entry bid l x) st =
    (case x of AAlloc i \<Rightarrow> redo_allocate_page bid l (int i) st | ADispose i \<Rightarrow> redo_deallocate_page bid l (int i) st)"
proof -
  have r: "int32_range (int (op_page x))" "int32_range (op_code x)"
    using assms(3) bitmap_pages_value by (cases x; simp add: int32_range_def BP_ALLOCATE_def BP_DEALLOCATE_def)+
  obtain n where "map_of (bpm_pools st) bid = Some n" using assms(1) by (auto simp: hdr_at_def is_open_def)
  then show ?thesis
    using dec_bp_log [OF assms(2) r(2,1)]
    by (cases x) (simp_all add: bp_replay_def alloc_entry_def payload_size_def get_buffer_pool_def BP_ALLOCATE_def BP_DEALLOCATE_def Let_def)
qed

lemma size_valid_alloc_entry: "\<not> size_invalid (alloc_entry bid l x)"
  by (simp add: size_invalid_def size_bad_def alloc_entry_def max_payload_size_def LogEntry_max_size_def LogHeader_SIZE_def)

lemma replay_done:
  assumes "hdr_at st bid a l0" "int32_range bid" "\<forall>(l, x) \<in> set xs. l \<le> l0 \<and> op_page x \<le> bitmap_pages"
  shows "read_entries bp_replay (map (\<lambda>(l, x). alloc_entry bid l x) xs) st = Some (SUCCESS, st)"
  using assms(3)
proof (induction xs)
  case (Cons p xs)
  obtain l x where p: "p = (l, x)" by fastforce
  have "bp_replay (alloc_entry bid l x) st = Some (SUCCESS, st)"
    using Cons.prems redo_skip [OF assms(1), of l] bp_replay_eq [OF assms(1,2), of x l] by (auto simp: p split: alloc_op.split)
  then show ?case using Cons size_valid_alloc_entry by (simp add: p)
qed simp

lemma alloc_valid_page: "alloc_valid x a \<Longrightarrow> fst a \<le> bitmap_pages \<Longrightarrow> op_page x \<le> bitmap_pages"
  by (cases x; cases a) auto

lemma hdr_at_bound: "hdr_at st bid a l \<Longrightarrow> fst a \<le> bitmap_pages"
  by (auto simp: hdr_at_def hdr_state_def hdr_wf_def)

lemma replay_todo:
  assumes "hdr_at st bid a l0" "int32_range bid" "valid_history (map snd xs) a"
    and "sorted_wrt (<) (map fst xs)" "\<forall>(l, x) \<in> set xs. l0 < l"
  shows "\<exists>st' l'. read_entries bp_replay (map (\<lambda>(l, x). alloc_entry bid l x) xs) st = Some (SUCCESS, st') \<and>
    hdr_at st' bid (fold alloc_apply (map snd xs) a) l'"
  using assms
proof (induction xs arbitrary: st a l0)
  case (Cons p xs)
  obtain l x where p: "p = (l, x)" by fastforce
  have v: "alloc_valid x a" "l0 < l" using Cons.prems by (auto simp: p)
  have "op_page x \<le> bitmap_pages" by (rule alloc_valid_page [OF v(1) hdr_at_bound [OF Cons.prems(1)]])
  then have "\<exists>st1 l1. bp_replay (alloc_entry bid l x) st = Some (SUCCESS, st1) \<and> hdr_at st1 bid (alloc_apply x a) l1 \<and> l1 \<le> l"
    using redo_allocate_ok [OF Cons.prems(1) v(2)] redo_deallocate_ok [OF Cons.prems(1) v(2)] v(1)
      bp_replay_eq [OF Cons.prems(1,2), of x l] by (cases x) (fastforce, fastforce)
  then obtain st1 l1 where r: "bp_replay (alloc_entry bid l x) st = Some (SUCCESS, st1)"
      "hdr_at st1 bid (alloc_apply x a) l1" "l1 \<le> l" by blast
  have "\<forall>(l, x) \<in> set xs. l1 < l" using Cons.prems(4) r(3) by (fastforce simp: p)
  with Cons.IH [OF r(2) Cons.prems(2)] Cons.prems(3,4) obtain st' l' where
    "read_entries bp_replay (map (\<lambda>(l, x). alloc_entry bid l x) xs) st1 = Some (SUCCESS, st')"
    "hdr_at st' bid (fold alloc_apply (map snd xs) (alloc_apply x a)) l'" by (auto simp: p)
  then show ?case using r(1) size_valid_alloc_entry by (auto simp: p)
qed auto

text \<open>
  C20. Redo of page allocation: from the header page as it was written after any prefix of the
  history (so that its LSN separates the entries it contains from the later ones), replaying the
  whole allocation log succeeds and gives the allocation state at the end of the history. The
  entries the header already contains are skipped by their LSN.
\<close>

theorem bp_redo_restores:
  assumes "hdr_at st bid a l0" "int32_range bid"
    and "\<forall>p \<in> set old. fst p \<le> l0 \<and> op_page (snd p) \<le> bitmap_pages"
    and "\<forall>p \<in> set new. l0 < fst p" "sorted_wrt (<) (map fst new)" "valid_history (map snd new) a"
  shows "\<exists>st' l'. read_entries bp_replay (map (\<lambda>(l, x). alloc_entry bid l x) (old @ new)) st = Some (SUCCESS, st') \<and>
    hdr_at st' bid (fold alloc_apply (map snd new) a) l'"
proof -
  have o: "\<forall>(l, x) \<in> set old. l \<le> l0 \<and> op_page x \<le> bitmap_pages" and n: "\<forall>(l, x) \<in> set new. l0 < l"
    using assms(3,4) by auto
  from replay_done [OF assms(1,2) o] replay_todo [OF assms(1,2,6,5) n] show ?thesis
    by (simp add: read_entries_append)
qed

lemma empty_header_wf: "hdr_wf (replicate BP_PAGE_DATA_SIZE 0)" "hdr_state (replicate BP_PAGE_DATA_SIZE 0) = (0, {})"
proof -
  have z: "le_value (replicate n 0) = 0" for n by (induction n) simp_all
  have f: "field32 (replicate BP_PAGE_DATA_SIZE 0) k = 0" if "k < 9" for k
  proof -
    have "take 4 (drop k (replicate BP_PAGE_DATA_SIZE (0 :: byte))) = replicate 4 0"
      using that by (simp add: layout_simps)
    then show ?thesis unfolding field32_def dec32_def by (simp add: z to_int32_def)
  qed
  show "hdr_wf (replicate BP_PAGE_DATA_SIZE 0)" "hdr_state (replicate BP_PAGE_DATA_SIZE 0) = (0, {})"
    by (simp_all add: hdr_wf_def hdr_state_def pages_used_def f)
qed

theorem bp_redo_restores_witness:
  "\<exists>st st' l'. hdr_at st 1 (0, {}) 0 \<and>
    read_entries bp_replay (map (\<lambda>(l, x). alloc_entry 1 l x) [(1, AAlloc 0), (2, AAlloc 1), (3, ADispose 1)]) st = Some (SUCCESS, st') \<and>
    hdr_at st' 1 (2, {0}) l'"
proof -
  let ?st = "example_pool [((1, 0), Frame_new\<lparr>fr_frame_id := (1, 0)\<rparr>)] []"
  have "frame_data (Frame_new\<lparr>fr_frame_id := (1, 0)\<rparr>) = replicate BP_PAGE_DATA_SIZE 0"
      "frame_lsn (Frame_new\<lparr>fr_frame_id := (1, 0)\<rparr>) = 0" by (simp_all add: Frame_new_def zero_page_def)
  then have h: "hdr_at ?st 1 (0, {}) 0"
    using empty_header_wf by (simp add: hdr_at_def example_pool_ok BP_HEADER_PAGE_def)
  let ?ops = "[(1, AAlloc 0), (2, AAlloc 1), (3, ADispose 1)] :: (LSN \<times> alloc_op) list"
  have e: "fold alloc_apply (map snd ?ops) (0, {}) = (2, {0})" and v: "valid_history (map snd ?ops) (0, {})"
    and o: "sorted_wrt (<) (map fst ?ops)" "\<forall>p \<in> set ?ops. 0 < fst p" "int32_range 1"
    by (auto simp: bitmap_pages_value int32_range_def)
  from bp_redo_restores [OF h o(3) _ o(2,1) v, of "[]"] obtain st' l' where
    "read_entries bp_replay (map (\<lambda>(l, x). alloc_entry 1 l x) ?ops) ?st = Some (SUCCESS, st')" "hdr_at st' 1 (2, {0}) l'"
    unfolding e by auto
  with h show ?thesis by blast
qed

section \<open>Allocating a page\<close>

lemma log_append_wait:
  "log_append m n d lg = Some (rc, l, lg') \<Longrightarrow> log_wait_lsn x lg' = log_wait_lsn x lg"
  by (cases lg) (auto simp: disk_append_def LogEntryBuffer_append_def wait_lsn_def Let_def split: if_splits bind_splits prod.splits option.splits)

text \<open>The log takes an entry after \<open>k\<close> others without waiting for the flushing thread.\<close>

fun log_room :: "nat \<Rightarrow> DbLog \<Rightarrow> bool" where
  "log_room k (Disk h) \<longleftrightarrow> lh_running h \<and>
     lb_bytes (lh_entry_buffer h) + LogHeader_SIZE * int k < lb_max_bytes (lh_entry_buffer h)"
| "log_room k Vacuous \<longleftrightarrow> True"

lemma log_room_ready: "log_room k lg \<Longrightarrow> log_ready lg"
  by (cases lg) (auto simp: LogHeader_SIZE_def)

lemma log_append_room:
  "log_append m n d lg = Some (rc, l, lg') \<Longrightarrow> log_room (Suc k) lg \<Longrightarrow> log_room k lg'"
  by (cases lg) (auto simp: disk_append_def LogEntryBuffer_append_def LogEntry_init_def Let_def LogHeader_SIZE_def
      total_size_def moved_from_def set_lsn_def split: if_splits bind_splits prod.splits option.splits)

lemma bp_append_log_ok:
  assumes "log_ready (bpm_log st)"
  shows "\<exists>rc l lg. bp_append_log op bid pn st = Some (rc, l, st\<lparr>bpm_log := lg\<rparr>) \<and>
    (\<forall>x. log_wait_lsn x lg = log_wait_lsn x (bpm_log st)) \<and>
    (\<forall>k. log_room (Suc k) (bpm_log st) \<longrightarrow> log_room k lg)"
proof -
  obtain rc l lg where "log_append BUFFER_POOL 12 (enc_bp_log bid op pn) (bpm_log st) = Some (rc, l, lg)"
    using log_append_returns [OF assms] by blast
  with log_append_wait [OF this] log_append_room [OF this] show ?thesis
    by (intro exI [of _ rc] exI [of _ l] exI [of _ lg]) (simp add: bp_append_log_def)
qed

lemma pool_inv_log: "pool_inv_but K (st\<lparr>bpm_log := lg\<rparr>) \<longleftrightarrow> pool_inv_but K st"
proof -
  let ?st = "st\<lparr>bpm_log := lg\<rparr>"
  have "frame_ok ?st i f = frame_ok st i f" "clean_ok ?st i f = clean_ok st i f" for i f
    by (simp_all add: frame_ok_def clean_ok_def is_open_def)
  then show ?thesis
    unfolding pool_inv_but_def by (simp add: pools_ok_same [of ?st st] dwb_ok_same [of ?st st])
qed

lemma room_cong: "bpm_frames st' = bpm_frames st \<Longrightarrow> room st' = room st"
  by (simp add: room_def mgr_frame_def)

lemma room_set_frame:
  assumes "mgr_frame st i = Some f" "fr_pin_count f > 0" "fr_pin_count g > 0"
  shows "room (set_mgr_frame i g st) = room st"
proof -
  have "(\<exists>j h. mgr_frame (set_mgr_frame i g st) j = Some h \<and> can_purge h) = (\<exists>j h. mgr_frame st j = Some h \<and> can_purge h)"
    using assms unfolding can_purge_def mgr_frame_set by (metis less_irrefl option.inject option.distinct(1))
  then show ?thesis unfolding room_def by (simp add: set_mgr_frame_def mgr_frame_def)
qed

lemma evict_safe_set_frame:
  assumes "evict_safe bid st" "fr_pin_count g > 0"
  shows "evict_safe bid (set_mgr_frame i g st)"
  unfolding evict_safe_def
proof (intro allI impI)
  fix j h assume "mgr_frame (set_mgr_frame i g st) j = Some h" "can_purge h"
  then have "mgr_frame st j = Some h" using assms(2) by (auto simp: can_purge_def split: if_splits)
  with \<open>can_purge h\<close> assms(1) have "evictable bid st j h" unfolding evict_safe_def by blast
  then show "evictable bid (set_mgr_frame i g st) j h" by (simp add: evictable_def)
qed

lemma evict_safe_log:
  assumes "evict_safe bid st" "\<And>x. log_wait_lsn x lg = log_wait_lsn x (bpm_log st)"
  shows "evict_safe bid (st\<lparr>bpm_log := lg\<rparr>)"
  using assms unfolding evict_safe_def evictable_def by (simp add: can_purge_def)

lemma at_risk_own:
  "fst i = bid \<Longrightarrow> at_risk bid (set_mgr_frame i g st) = at_risk bid st" "at_risk bid (st\<lparr>bpm_log := lg\<rparr>) = at_risk bid st"
  by (auto simp: at_risk_def)

text \<open>
  What allocation needs: the header is in its pinned frame and in order, the file is not full,
  every page below the count exists and none above is cached, and a frame can be had.
\<close>

definition alloc_ready :: "BufferPoolManager \<Rightarrow> int \<Rightarrow> Frame \<Rightarrow> bool" where
  "alloc_ready st bid f \<longleftrightarrow> pool_inv st \<and> mgr_frame st (hdr_id bid) = Some f \<and> fr_pin_count f > 0 \<and>
     hdr_wf (frame_data f) \<and> 0 \<in> pages_used (frame_data f) \<and> hdr_count (frame_data f) < bitmap_pages \<and>
     log_ready (bpm_log st) \<and> log_wait_lsn 0 (bpm_log st) \<noteq> None \<and> room st \<and> evict_safe bid st \<and>
     (\<forall>i < hdr_count (frame_data f). page_view st (bid, int i) \<noteq> None) \<and>
     mgr_frame st (bid, field32 (frame_data f) 4) = None"

text \<open>
  The page is allocated in the header and its frame is pinned once more; no other page changes,
  except that a dirty frame of another pool may have been dropped to make room.
\<close>

definition page_allocated :: "BufferPoolManager \<Rightarrow> int \<Rightarrow> Frame \<Rightarrow> nat \<Rightarrow> BufferPoolManager \<Rightarrow> bool" where
  "page_allocated st bid f n st' \<longleftrightarrow> pool_inv st' \<and>
     views_kept_but ({hdr_id bid, (bid, int n)} \<union> at_risk bid st) st st' \<and>
     (\<exists>f'. mgr_frame st' (hdr_id bid) = Some f' \<and> fr_pin_count f' = fr_pin_count f \<and> hdr_wf (frame_data f') \<and>
        hdr_state (frame_data f') = alloc_apply (AAlloc n) (hdr_state (frame_data f))) \<and>
     (\<exists>g. mgr_frame st' (bid, int n) = Some g \<and> fr_pin_count g > 0 \<and>
        fr_pin_count g = (case mgr_frame st (bid, int n) of None \<Rightarrow> 0 | Some g0 \<Rightarrow> fr_pin_count g0) + 1) \<and>
     (\<forall>i g. i \<noteq> hdr_id bid \<longrightarrow> i \<noteq> (bid, int n) \<longrightarrow> mgr_frame st' i = Some g \<longrightarrow> mgr_frame st i = Some g) \<and>
     bpm_pools st' = bpm_pools st \<and> (\<forall>k. log_room (Suc k) (bpm_log st) \<longrightarrow> log_room k (bpm_log st')) \<and>
     (\<forall>x. log_wait_lsn x (bpm_log st') = log_wait_lsn x (bpm_log st))"

lemma hdr_frame_inv:
  assumes "pool_inv_but K st" "mgr_frame st (hdr_id bid) = Some f" "frame_ok st (hdr_id bid) f"
    "K - {hdr_id bid} \<subseteq> L" "fr_dirty f' \<or> hdr_id bid \<in> L"
    "fr_pin_count f' = fr_pin_count f" "fr_pin_count f > 0" "fr_frame_id f' = fr_frame_id f"
  shows "pool_inv_but L (set_mgr_frame (hdr_id bid) f' st)"
  by (rule set_mgr_frame_inv [OF assms(1) _ _ assms(4)])
     (use assms in \<open>auto simp: frame_ok_def clean_ok_def\<close>)

lemma allocate_page_reuse:
  assumes r: "alloc_ready st bid f" and k: "first_free_page (frame_data f) (field32 (frame_data f) 4) 0 = Some (Some (int k))"
    "k < hdr_count (frame_data f)" "k \<notin> pages_used (frame_data f)"
  shows "\<exists>st'. allocate_page bid st = Some (SUCCESS, Some (bid, int k), st') \<and> page_allocated st bid f k st'"
proof -
  let ?d = "frame_data f"
  have r': "pool_inv st" "mgr_frame st (hdr_id bid) = Some f" "fr_pin_count f > 0" "hdr_wf ?d" "0 \<in> pages_used ?d"
    "log_ready (bpm_log st)" "room st" "evict_safe bid st" "page_view st (bid, int k) \<noteq> None"
    using r k(2) by (auto simp: alloc_ready_def)
  have fo: "frame_ok st (hdr_id bid) f" by (rule pool_inv_frame [OF r'(1,2)])
  have lt: "field32 ?d 8 < field32 ?d 4"
  proof -
    have "card (pages_used ?d) < card {..<hdr_count ?d}"
      by (rule psubset_card_mono) (use pages_used_below [of ?d] k in auto)
    then show ?thesis using r'(4) by (simp add: hdr_wf_def)
  qed
  define upd where "upd = (\<lambda>d. do { d \<leftarrow> put32 d 8 (field32 ?d 8 + 1); Bitmap.set_bit d (bitmap_init BP_BITMAP_OFFSET (hdr_count ?d)) k })"
  from hdr_alloc_old(1) [OF r'(4) k(2,3)] alloc_count_range(3) [OF r'(4)] r'(4) obtain d' where
    d: "upd ?d = Some d'" "hdr_changed ?d d' (hdr_count ?d) (insert k (pages_used ?d))"
    unfolding upd_def by (auto simp: hdr_put_allocated hdr_wf_def)
  let ?f1 = "f\<lparr>fr_dirty := True, fr_page := (fr_page f)\<lparr>pg_data := d'\<rparr>\<rparr>"
  let ?st1 = "set_mgr_frame (hdr_id bid) ?f1 st"
  have u1: "update_header bid upd None st = Some ?st1"
    using update_header_eq [OF r'(2), of upd d' None, OF d(1)] by simp
  obtain rc l lg where lg: "bp_append_log BP_ALLOCATE bid (int k) ?st1 = Some (rc, l, ?st1\<lparr>bpm_log := lg\<rparr>)"
      "\<forall>x. log_wait_lsn x lg = log_wait_lsn x (bpm_log st)" "\<forall>k. log_room (Suc k) (bpm_log st) \<longrightarrow> log_room k lg"
    using bp_append_log_ok [of ?st1 BP_ALLOCATE bid "int k"] r'(6) by auto
  let ?st2 = "?st1\<lparr>bpm_log := lg\<rparr>"
  have m2: "mgr_frame ?st2 (hdr_id bid) = Some ?f1" using r'(2) by simp
  let ?f3 = "?f1\<lparr>fr_page := (fr_page ?f1)\<lparr>pg_lsn := l\<rparr>\<rparr>"
  let ?st3 = "set_mgr_frame (hdr_id bid) ?f3 ?st2"
  have u3: "update_header bid Some (Some l) ?st2 = Some ?st3"
    using update_header_eq [OF m2, of Some d' "Some l"] by simp
  have inv1: "pool_inv ?st1" by (rule hdr_frame_inv [OF r'(1,2) fo]) (use r'(3) in simp_all)
  then have inv2: "pool_inv ?st2" by (simp only: pool_inv_log)
  have inv3: "pool_inv ?st3"
    by (rule hdr_frame_inv [OF inv2 m2 pool_inv_frame [OF inv2 m2]]) (use r'(3) in simp_all)
  have m3: "mgr_frame ?st3 = (mgr_frame st)(hdr_id bid \<mapsto> ?f3)" using r'(2) by (auto simp: fun_eq_iff)
  have sp: "stored_page ?st3 = stored_page st" by (rule stored_page_cong) simp_all
  let ?K = "{hdr_id bid, (bid, int k)} \<union> at_risk bid st"
  have v3: "views_kept_but ?K st ?st3"
    by (rule views_kept_but_frames [OF sp]) (simp add: m3)
  have ar: "at_risk bid ?st3 = at_risk bid st" by (simp add: at_risk_own)
  have k0: "(bid, int k) \<noteq> hdr_id bid" using k(3) r'(5) by (cases k) (auto simp: BP_HEADER_PAGE_def)
  obtain v where v: "page_view ?st3 (bid, int k) = Some v"
    using r'(9) k0 sp m3 by (auto simp: page_view_def split: option.splits)
  have rm: "room ?st3"
  proof -
    have "room ?st2 = room ?st1" by (rule room_cong) simp
    then show ?thesis using room_set_frame [OF m2, of ?f3] room_set_frame [OF r'(2,3), of ?f1] r'(3,7) by simp
  qed
  have es: "evict_safe bid ?st3"
  proof (rule evict_safe_set_frame)
    show "evict_safe bid ?st2"
      by (rule evict_safe_log) (use evict_safe_set_frame [OF r'(8), of ?f1 "hdr_id bid"] r'(3) lg(2) in simp_all)
  qed (use r'(3) in simp)
  have op: "is_open ?st3 bid" using fo by (simp add: frame_ok_def is_open_def)
  from get_this_page_ok [OF inv3 op _ v] rm es obtain st' g where
    g: "get_this_page bid (int k) ?st3 = Some (SUCCESS, Some (bid, int k), st')" "pool_inv st'"
      "views_kept_but (at_risk bid st) ?st3 st'"
      "mgr_frame st' (bid, int k) = Some g"
      "fr_pin_count g = (case mgr_frame ?st3 (bid, int k) of None \<Rightarrow> 0 | Some g \<Rightarrow> fr_pin_count g) + 1"
      "\<forall>i g. i \<noteq> (bid, int k) \<longrightarrow> mgr_frame ?st3 i = Some g \<longrightarrow> fr_pin_count g \<noteq> 0 \<longrightarrow> mgr_frame st' i = Some g"
      "\<forall>i g. i \<noteq> (bid, int k) \<longrightarrow> mgr_frame st' i = Some g \<longrightarrow> mgr_frame ?st3 i = Some g" "same_world ?st3 st'"
    unfolding ar by auto
  have "fr_pin_count g > 0"
    using g(5) pool_inv_frame [OF inv3, of "(bid, int k)"] by (auto simp: frame_ok_def split: option.splits)
  moreover have "mgr_frame st' (hdr_id bid) = Some ?f3"
  proof (rule g(6) [rule_format, OF k0 [symmetric]])
    show "mgr_frame ?st3 (hdr_id bid) = Some ?f3" unfolding m3 by simp
  qed (use r'(3) in simp)
  moreover have "views_kept_but ?K st st'"
    by (rule views_kept_but_trans [OF v3 views_kept_but_mono [OF g(3)]]) blast
  moreover have "fr_pin_count g = (case mgr_frame st (bid, int k) of None \<Rightarrow> 0 | Some g0 \<Rightarrow> fr_pin_count g0) + 1"
    using g(5) k0 unfolding m3 by simp
  moreover have "mgr_frame st i = Some h" if "i \<noteq> hdr_id bid" "i \<noteq> (bid, int k)" "mgr_frame st' i = Some h" for i h
    using g(7) [rule_format, OF that(2,3)] that(1) unfolding m3 by simp
  moreover have "bpm_pools st' = bpm_pools st" "bpm_log st' = lg" using g(8) by (simp_all add: same_world_def)
  moreover have "hdr_wf d' \<and> hdr_state d' = alloc_apply (AAlloc k) (hdr_state ?d)"
    using hdr_changed_state [OF d(2)] k(2) by (simp add: hdr_state_def)
  ultimately have "page_allocated st bid f k st'"
    using g(2,4) lg(2,3) unfolding page_allocated_def by auto
  moreover have "allocate_page bid st = Some (SUCCESS, Some (bid, int k), st')"
    using r'(2) lt k(1) u1 lg(1) u3 g(1)
    by (simp add: allocate_page_def file_header_eq [OF r'(4)] upd_def)
  ultimately show ?thesis by blast
qed

lemma allocate_page_extend:
  assumes r: "alloc_ready st bid f"
    and free: "(if field32 (frame_data f) 8 < field32 (frame_data f) 4
       then first_free_page (frame_data f) (field32 (frame_data f) 4) 0 else Some None) = Some None"
    and n: "n = hdr_count (frame_data f)"
  shows "\<exists>st'. allocate_page bid st = Some (SUCCESS, Some (bid, int n), st') \<and> page_allocated st bid f n st'"
proof -
  let ?d = "frame_data f"
  let ?k = "(bid, int n)"
  have r': "pool_inv st" "mgr_frame st (hdr_id bid) = Some f" "fr_pin_count f > 0" "hdr_wf ?d" "0 \<in> pages_used ?d"
    "log_ready (bpm_log st)" "room st" "evict_safe bid st" "n < bitmap_pages" "log_wait_lsn 0 (bpm_log st) \<noteq> None"
    using r n by (auto simp: alloc_ready_def)
  have pc: "int n = field32 ?d 4" using r'(4) n by (simp add: hdr_wf_def)
  have nk: "mgr_frame st ?k = None" using r pc by (simp add: alloc_ready_def)
  have n0: "?k \<noteq> hdr_id bid" using r'(2) nk by auto
  have fo: "frame_ok st (hdr_id bid) f" by (rule pool_inv_frame [OF r'(1,2)])
  have mx: "int n < MAX_PAGE_NUM" using r'(9) by (simp add: MAX_PAGE_NUM_def bitmap_pages_value layout_simps)
  obtain rc l lg where lg: "bp_append_log BP_ALLOCATE bid (int n) st = Some (rc, l, st\<lparr>bpm_log := lg\<rparr>)"
      "\<forall>x. log_wait_lsn x lg = log_wait_lsn x (bpm_log st)" "\<forall>k. log_room (Suc k) (bpm_log st) \<longrightarrow> log_room k lg"
    using bp_append_log_ok [of st BP_ALLOCATE bid "int n"] r'(6) by auto
  let ?st1 = "st\<lparr>bpm_log := lg\<rparr>"
  let ?f2 = "frame_set_lsn l f"
  have f2: "fr_pin_count ?f2 = fr_pin_count f" "frame_data ?f2 = ?d" "fr_frame_id ?f2 = fr_frame_id f"
    by (simp_all add: frame_set_lsn_def)
  define st2 where "st2 = set_mgr_frame (hdr_id bid) ?f2 ?st1"
  have m1: "mgr_frame ?st1 (hdr_id bid) = Some f" using r'(2) by simp
  have inv1: "pool_inv ?st1" using r'(1) by (simp only: pool_inv_log)
  have inv2: "pool_inv_but {hdr_id bid} st2" unfolding st2_def
    by (rule hdr_frame_inv [OF inv1 m1 pool_inv_frame [OF inv1 m1]]) (use r'(3) f2 in simp_all)
  have m2: "mgr_frame st2 = (mgr_frame st)(hdr_id bid \<mapsto> ?f2)" using r'(2) by (auto simp: st2_def fun_eq_iff)
  have sp2: "stored_page st2 = stored_page st" unfolding st2_def by (rule stored_page_cong) simp_all
  have "room ?st1 = room st" by (rule room_cong) simp
  then have rm: "room st2" using room_set_frame [OF m1 r'(3), of ?f2] r'(3,7) f2 by (simp add: st2_def)
  have es: "evict_safe bid st2" unfolding st2_def
    by (rule evict_safe_set_frame [OF evict_safe_log [OF r'(8)]]) (use lg(2) r'(3) f2 in simp_all)
  have nk2: "mgr_frame st2 ?k = None" using m2 nk n0 by simp
  have pins: "i \<in> {hdr_id bid} \<Longrightarrow> mgr_frame st2 i = Some g \<Longrightarrow> fr_pin_count g \<noteq> 0" for i g
    using m2 f2 r'(3) by auto
  from allocate_frame_ok [OF inv2 nk2 rm es] pins obtain s1 g gs where
    a: "pool_inv_but {hdr_id bid} s1" "views_kept_but (at_risk bid st2) st2 s1" "same_world st2 s1" "mgr_frame s1 \<subseteq>\<^sub>m mgr_frame st2"
      "\<forall>i g. mgr_frame st2 i = Some g \<longrightarrow> fr_pin_count g \<noteq> 0 \<longrightarrow> mgr_frame s1 i = Some g"
      "bf_frees (bpm_frames s1) = g # gs"
      "allocate_frame bid (int n) st2 = Some (s1\<lparr>bpm_frames := (bpm_frames s1)\<lparr>bf_frees := gs,
        bf_frames := lru_put ?k (pin (g\<lparr>fr_frame_id := ?k\<rparr>)) (bf_frames (bpm_frames s1))\<rparr>\<rparr>)"
    by blast
  define st3 where "st3 = s1\<lparr>bpm_frames := (bpm_frames s1)\<lparr>bf_frees := gs,
        bf_frames := lru_put ?k (pin (g\<lparr>fr_frame_id := ?k\<rparr>)) (bf_frames (bpm_frames s1))\<rparr>\<rparr>"
  have k1: "mgr_frame s1 ?k = None" using a(4) nk2 by (metis domIff map_le_implies_dom_le subset_iff)
  have o1: "is_open s1 (fst ?k)" "0 \<le> snd ?k"
    using fo a(3) by (simp_all add: is_open_def same_world_def frame_ok_def st2_def)
  note t = take_frame [OF a(1) k1 o1 a(6) st3_def]
  have h1: "mgr_frame s1 (hdr_id bid) = Some ?f2"
    using a(5) [rule_format, of "hdr_id bid" ?f2] m2 r'(3) f2 by simp
  then have m3: "mgr_frame st3 (hdr_id bid) = Some ?f2" using t(2) n0 by simp
  define upd where "upd = (\<lambda>d. do { d \<leftarrow> put32 d 8 (field32 ?d 8 + 1); d \<leftarrow> put32 d 4 (int n + 1); Bitmap.set_bit d (bitmap_init BP_BITMAP_OFFSET (n + 1)) n })"
  from hdr_alloc_new [OF r'(4) n r'(9)] obtain d' where
    d: "upd (frame_data ?f2) = Some d'" "hdr_changed ?d d' (n + 1) (insert n (pages_used ?d))"
    unfolding upd_def f2 by blast
  let ?f4 = "?f2\<lparr>fr_dirty := True, fr_page := (fr_page ?f2)\<lparr>pg_data := d'\<rparr>\<rparr>"
  define st4 where "st4 = set_mgr_frame (hdr_id bid) ?f4 st3"
  have u4: "update_header bid upd None st3 = Some st4"
    using update_header_eq [OF m3, of upd d' None, OF d(1)] by (simp add: st4_def)
  have inv4: "pool_inv_but {?k} st4" unfolding st4_def
    by (rule hdr_frame_inv [OF t(1) m3 pool_inv_frame [OF t(1) m3]]) (use r'(3) f2 in auto)
  have m4: "mgr_frame st4 = (mgr_frame s1)(?k \<mapsto> pin (g\<lparr>fr_frame_id := ?k\<rparr>), hdr_id bid \<mapsto> ?f4)"
    using t(2) h1 n0 by (auto simp: st4_def fun_eq_iff)
  let ?g5 = "(clear_page (pin (g\<lparr>fr_frame_id := ?k\<rparr>)))\<lparr>fr_frame_id := ?k\<rparr>"
  define st5 where "st5 = set_mgr_frame ?k ?g5 st4"
  have m4k: "mgr_frame st4 ?k = Some (pin (g\<lparr>fr_frame_id := ?k\<rparr>))" using m4 n0 by simp
  have m5: "mgr_frame st5 = (mgr_frame s1)(?k \<mapsto> ?g5, hdr_id bid \<mapsto> ?f4)"
    using m4 m4k n0 by (auto simp: st5_def fun_eq_iff)
  have inv5: "pool_inv_but {?k} st5" unfolding st5_def
    by (rule set_mgr_frame_inv [OF inv4])
       (use pool_inv_frame [OF inv4 m4k] in \<open>auto simp: frame_ok_def clear_page_def unlatched_def\<close>)
  have sp5: "stored_page st5 = stored_page s1" using t(3) by (simp add: st5_def st4_def)
  have m5k: "mgr_frame st5 ?k = Some ?g5" using m5 n0 by simp
  have lg5: "bpm_log st5 = lg" using a(3) t(4) by (simp add: st5_def st4_def st2_def same_world_def)
  have w5: "log_wait_lsn (frame_lsn ?g5) (bpm_log st5) \<noteq> None"
    using lg(2) r'(10) lg5 by (simp add: clear_page_def zero_page_def)
  from flush_page_internal_ok [OF inv5 m5k w5, unfolded Diff_cancel] obtain st6 c where
    w: "flush_page_internal bid ?k st5 = Some (SUCCESS, st6)" "pool_inv st6" "views_kept st5 st6"
      "mgr_frame st6 = (mgr_frame st5)(?k \<mapsto> clear_dirty (frame_set_check_sum c ?g5))"
      "bpm_pools st6 = bpm_pools st5" "bpm_log st6 = bpm_log st5" by auto
  have p6: "mgr_frame st6 (hdr_id bid) = Some ?f4" "mgr_frame st6 ?k = Some (clear_dirty (frame_set_check_sum c ?g5))"
    using w(4) m5 n0 by simp_all
  have "fr_pin_count (clear_dirty (frame_set_check_sum c ?g5)) > 0"
    using t(5) by (simp add: clear_dirty_def frame_set_check_sum_def clear_page_def pin_def)
  moreover have v: "views_kept_but ({hdr_id bid, ?k} \<union> at_risk bid st) st st6"
  proof -
    let ?K = "{hdr_id bid, ?k} \<union> at_risk bid st"
    have "at_risk bid st2 = at_risk bid st" by (simp add: st2_def at_risk_own)
    then have "at_risk bid st2 \<subseteq> ?K" by blast
    then have "views_kept_but ?K st2 s1" by (rule views_kept_but_mono [OF a(2)])
    moreover have "views_kept_but ?K st st2" by (rule views_kept_but_frames [OF sp2]) (simp add: m2)
    ultimately have "views_kept_but ?K st s1" by (rule views_kept_but_trans [rotated])
    moreover have "views_kept_but ?K s1 st5" by (rule views_kept_but_frames [OF sp5]) (simp add: m5)
    ultimately have "views_kept_but ?K st st5" by (rule views_kept_but_trans)
    then show ?thesis by (rule views_kept_but_trans [OF _ views_kept_butI [OF w(3)]])
  qed
  moreover have "fr_pin_count (clear_dirty (frame_set_check_sum c ?g5)) = 1"
    using t(5) by (simp add: clear_dirty_def frame_set_check_sum_def clear_page_def pin_def)
  moreover have "mgr_frame st i = Some h" if "i \<noteq> hdr_id bid" "i \<noteq> ?k" "mgr_frame st6 i = Some h" for i h
  proof -
    have "mgr_frame s1 i = Some h" using that unfolding w(4) m5 by simp
    then have "mgr_frame st2 i = Some h" using a(4) by (rule map_le_Some)
    then show ?thesis using that(1) unfolding m2 by simp
  qed
  moreover have "bpm_pools st6 = bpm_pools st" "bpm_log st6 = lg"
    using w(5,6) a(3) t(4) lg5 by (simp_all add: st5_def st4_def st2_def same_world_def)
  moreover have "hdr_wf d' \<and> hdr_state d' = alloc_apply (AAlloc n) (hdr_state ?d)"
    using hdr_changed_state [OF d(2)] n by (simp add: hdr_state_def)
  ultimately have "page_allocated st bid f n st6"
    using w(2) p6 f2 nk lg(2,3) unfolding page_allocated_def by auto
  moreover have "allocate_page bid st = Some (SUCCESS, Some ?k, st6)"
  proof -
    have "field32 ?d 4 < MAX_PAGE_NUM" using mx pc by simp
    moreover have "(if field32 ?d 8 < int n then first_free_page ?d (int n) 0 else Some None) = Some None"
      using free unfolding pc .
    ultimately show ?thesis
      using r'(2) m1 lg(1) a(7) u4 m4k w(1) pc [symmetric]
      by (cases "field32 ?d 8 < int n") (simp_all add: allocate_page_def file_header_eq [OF r'(4)] upd_def st2_def [symmetric] st3_def [symmetric]
          st5_def [symmetric] Let_def)
  qed
  ultimately show ?thesis by blast
qed

text \<open>
  C18. Allocating a page: the page returned was not allocated before and is marked allocated, no
  other page changes its allocation or its contents, but for pages whose dirty unpinned frames of
  other pools may be taken (\<open>at_risk\<close>, \<open>foreign_dirty_frame_dropped\<close>); the header's counts stay those
  of its bitmap, and the page's frame has one pin more, for the caller.
\<close>

theorem allocate_page_fresh:
  assumes "alloc_ready st bid f"
  shows "\<exists>n st'. allocate_page bid st = Some (SUCCESS, Some (bid, int n), st') \<and>
    alloc_valid (AAlloc n) (hdr_state (frame_data f)) \<and> page_allocated st bid f n st'"
proof -
  let ?d = "frame_data f"
  have wf: "hdr_wf ?d" and b: "hdr_count ?d < bitmap_pages" using assms by (auto simp: alloc_ready_def)
  have ext: "hdr_count ?d \<notin> pages_used ?d" using pages_used_below [of ?d] by auto
  from first_free_page_spec [OF wf, of 0] consider
    (none) "first_free_page ?d (field32 ?d 4) 0 = Some None" |
    (some) k where "first_free_page ?d (field32 ?d 4) 0 = Some (Some (int k))" "k < hdr_count ?d" "k \<notin> pages_used ?d"
    by auto
  then show ?thesis
  proof cases
    case none
    define n where "n = hdr_count ?d"
    have "\<exists>st'. allocate_page bid st = Some (SUCCESS, Some (bid, int n), st') \<and> page_allocated st bid f n st'"
      by (rule allocate_page_extend [OF assms _ n_def]) (use none in simp)
    moreover have "alloc_valid (AAlloc n) (hdr_state ?d)" using ext b by (simp add: hdr_state_def n_def)
    ultimately show ?thesis by blast
  next
    case some
    then show ?thesis using allocate_page_reuse [OF assms some] by (auto simp: hdr_state_def)
  qed
qed

text \<open>The header of a new file in its pinned frame, and one free frame.\<close>

lemma new_header_example: "\<exists>d. hdr_wf d \<and> hdr_state d = (1, {0})"
proof -
  have z: "field32 (replicate BP_PAGE_DATA_SIZE 0) 4 = 0" "pages_used (replicate BP_PAGE_DATA_SIZE 0) = {}"
    using empty_header_wf by (simp_all add: hdr_state_def hdr_wf_def)
  from hdr_alloc_new [OF empty_header_wf(1), of 0] z obtain d where
    "hdr_changed (replicate BP_PAGE_DATA_SIZE 0) d 1 {0}" by (auto simp: bitmap_pages_value)
  then show ?thesis by (auto simp: hdr_changed_def hdr_state_def)
qed

definition header_frame :: "byte list \<Rightarrow> Frame" where
  "header_frame d = Frame_new\<lparr>fr_dirty := True, fr_pin_count := 1, fr_frame_id := (1, 0), fr_page := zero_page\<lparr>pg_data := d\<rparr>\<rparr>"

lemma header_frame_fields [simp]:
  "fr_dirty (header_frame d)" "fr_pin_count (header_frame d) = 1" "fr_frame_id (header_frame d) = (1, 0)" "frame_data (header_frame d) = d"
  by (simp_all add: header_frame_def)

abbreviation header_pool :: "byte list \<Rightarrow> BufferPoolManager" where
  "header_pool d \<equiv> example_pool [((1, 0), header_frame d)] [Frame_new]"

lemma header_pool_ok:
  "bpm_log (header_pool d) = Vacuous" "pool_inv (header_pool d)" "room (header_pool d)" "evict_safe 1 (header_pool d)"
  "mgr_frame (header_pool d) (1, 0) = Some (header_frame d)" "mgr_frame (header_pool d) (1, 1) = None"
proof -
  have fr: "bpm_frames (header_pool d) = \<lparr>bf_frames = [((1, 0), header_frame d)], bf_frees = [Frame_new]\<rparr>"
      "bpm_dblwr (header_pool d) = VacuousDwb" by (simp_all add: example_pool_def)
  have u: "fr_pin_count Frame_new = 0" "unlatched Frame_new" by (simp_all add: Frame_new_def unlatched_def)
  show "bpm_log (header_pool d) = Vacuous" by (simp add: example_pool_def)
  show "pool_inv (header_pool d)"
    using u by (simp add: pool_inv_but_def example_pool_ok fr frame_ok_def clean_ok_def)
  show "room (header_pool d)" by (simp add: room_def fr)
  show "evict_safe 1 (header_pool d)" by (auto simp: evict_safe_def example_pool_ok can_purge_def)
  show "mgr_frame (header_pool d) (1, 0) = Some (header_frame d)" "mgr_frame (header_pool d) (1, 1) = None"
    by (simp_all add: example_pool_ok)
qed

lemma alloc_ready_example: "\<exists>st f. alloc_ready st 1 f \<and> hdr_state (frame_data f) = (1, {0})"
proof -
  from new_header_example obtain d where d: "hdr_wf d" "hdr_state d = (1, {0})" by blast
  let ?f = "header_frame d"
  let ?st = "header_pool d"
  have c: "hdr_count d = 1" "field32 d 4 = 1" "pages_used d = {0}"
    using d(2) unfolding hdr_state_def prod.inject by (blast, linarith, blast)
  have v: "\<forall>i < hdr_count (frame_data ?f). page_view ?st (1, int i) \<noteq> None"
    unfolding header_frame_fields c(1) using header_pool_ok(5) [of d] by (simp add: page_view_def)
  have "alloc_ready ?st 1 ?f"
    unfolding alloc_ready_def
  proof (intro conjI)
    show "mgr_frame ?st (hdr_id 1) = Some ?f" using header_pool_ok(5) by (simp add: BP_HEADER_PAGE_def)
    show "mgr_frame ?st (1, field32 (frame_data ?f) 4) = None"
      unfolding header_frame_fields c(2) by (rule header_pool_ok(6))
    show "\<forall>i < hdr_count (frame_data ?f). page_view ?st (1, int i) \<noteq> None" by (rule v)
    show "log_ready (bpm_log ?st)" "log_wait_lsn 0 (bpm_log ?st) \<noteq> None" unfolding header_pool_ok(1) by simp_all
    show "hdr_count (frame_data ?f) < bitmap_pages" unfolding header_frame_fields c(1) bitmap_pages_value by simp
    show "pool_inv ?st" "room ?st" "evict_safe 1 ?st" by (rule header_pool_ok)+
  qed (use d(1) c(3) in simp_all)
  then show ?thesis using d by (intro exI [of _ ?st] exI [of _ ?f]) simp
qed

theorem allocate_page_fresh_witness:
  "\<exists>st f st'. hdr_state (frame_data f) = (1, {0}) \<and> allocate_page 1 st = Some (SUCCESS, Some (1, 1), st') \<and>
     page_allocated st 1 f 1 st'"
proof -
  from alloc_ready_example obtain st f where r: "alloc_ready st 1 f" and h: "hdr_state (frame_data f) = (1, {0})" by blast
  from allocate_page_fresh [OF r] obtain n st' where
    a: "allocate_page 1 st = Some (SUCCESS, Some (1, int n), st')" "alloc_valid (AAlloc n) (1, {0})" "page_allocated st 1 f n st'"
    unfolding h by blast
  have "n = 1" using a(2) by auto
  with a h show ?thesis by auto
qed

section \<open>Disposing of a page\<close>

text \<open>
  C19. Disposing of an allocated page that nobody holds clears its bit and lowers the count; no
  other page changes. Its frame goes back to the allocator without being written.
\<close>

theorem dispose_page_frees:
  assumes "pool_inv st" "mgr_frame st (hdr_id bid) = Some f" "fr_pin_count f > 0" "hdr_wf (frame_data f)"
    and "n \<in> pages_used (frame_data f)" "n \<noteq> 0" "log_ready (bpm_log st)"
    and "\<forall>g. mgr_frame st (bid, int n) = Some g \<longrightarrow> fr_pin_count g = 0"
  shows "\<exists>st' f'. dispose_page bid (int n) st = Some (SUCCESS, st') \<and> pool_inv st' \<and>
    mgr_frame st' = (mgr_frame st)((bid, int n) := None, hdr_id bid \<mapsto> f') \<and> stored_page st' = stored_page st \<and>
    hdr_wf (frame_data f') \<and> hdr_state (frame_data f') = alloc_apply (ADispose n) (hdr_state (frame_data f))"
proof -
  let ?d = "frame_data f"
  let ?k = "(bid, int n)"
  have k0: "?k \<noteq> hdr_id bid" using assms(6) by (simp add: BP_HEADER_PAGE_def)
  obtain st1 where s1: "(case frames_get ?k (bpm_frames st) of (True, fm) \<Rightarrow> mgr_free ?k (st\<lparr>bpm_frames := fm\<rparr>) | (False, _) \<Rightarrow> Some st) = Some st1"
      "pool_inv st1" "mgr_frame st1 = (mgr_frame st)(?k := None)" "stored_page st1 = stored_page st" "bpm_log st1 = bpm_log st"
  proof (cases "mgr_frame st ?k")
    case None
    show ?thesis by (rule that [of st]) (use None assms(1) in \<open>auto simp: frames_get_def mgr_frame_def\<close>)
  next
    case (Some g)
    from assms(8) Some have g0: "fr_pin_count g = 0" by blast
    have g: "frame_ok st ?k g" "clean_ok st ?k g"
      using pool_inv_frame [OF assms(1) Some] pool_inv_clean [OF assms(1) Some] by simp_all
    let ?fm = "(bpm_frames st)\<lparr>bf_frames := lru_touch ?k (bf_frames (bpm_frames st))\<rparr>"
    have t: "pool_inv (st\<lparr>bpm_frames := ?fm\<rparr>)" "mgr_frame (st\<lparr>bpm_frames := ?fm\<rparr>) = mgr_frame st"
      by (rule touch_inv [OF assms(1)])+
    let ?st0 = "set_mgr_frame ?k (pin g) (st\<lparr>bpm_frames := ?fm\<rparr>)"
    have i0: "pool_inv ?st0"
      by (rule set_mgr_frame_inv [OF t(1)])
         (use g g0 in \<open>simp_all add: frame_ok_def clean_ok_def is_open_def pin_def\<close>)
    have m0: "mgr_frame ?st0 ?k = Some (pin g)" using Some t(2) by simp
    have p: "fr_pin_count (pin g) = 1" "unlatched (pin g)" using g g0 by (simp_all add: pin_def frame_ok_def unlatched_def)
    from mgr_free_ok [OF i0 m0 p, unfolded empty_Diff] obtain st1 where
      s: "mgr_free ?k ?st0 = Some st1" "pool_inv st1" "mgr_frame st1 = (mgr_frame ?st0)(?k := None)"
        "st1 = ?st0\<lparr>bpm_frames := \<lparr>bf_frames = lru_remove ?k (bf_frames (bpm_frames ?st0)),
               bf_frees = bf_frees (bpm_frames ?st0) @ [freed (pin g)]\<rparr>\<rparr>" by blast
    have m: "mgr_frame st1 = (mgr_frame st)(?k := None)" using s(3) t(2) by (auto simp: fun_eq_iff)
    show ?thesis
      by (rule that [of st1])
         (use Some s(1,2,4) m in \<open>simp_all add: frames_get_def mgr_frame_def set_mgr_frame_def\<close>)
  qed
  have h1: "mgr_frame st1 (hdr_id bid) = Some f" using s1(3) assms(2) k0 by simp
  obtain rc l lg where lg: "bp_append_log BP_DEALLOCATE bid (int n) st1 = Some (rc, l, st1\<lparr>bpm_log := lg\<rparr>)"
    using bp_append_log_ok [of st1 BP_DEALLOCATE bid "int n"] assms(7) s1(5) by auto
  let ?st2 = "st1\<lparr>bpm_log := lg\<rparr>"
  have i2: "pool_inv ?st2" using s1(2) by (simp only: pool_inv_log)
  have m2: "mgr_frame ?st2 (hdr_id bid) = Some f" using h1 by simp
  have nlt: "n < hdr_count ?d" using assms(5) pages_used_below [of ?d] by auto
  define upd where "upd = (\<lambda>d. do { d \<leftarrow> put32 d 8 (field32 ?d 8 - 1); clear_bit d (bitmap_init BP_BITMAP_OFFSET (hdr_count ?d)) n })"
  from hdr_free(1) [OF assms(4) nlt assms(5)] alloc_count_range(4) [OF assms(4)] assms(4) obtain d' where
    d: "upd ?d = Some d'" "hdr_changed ?d d' (hdr_count ?d) (pages_used ?d - {n})"
    unfolding upd_def by (auto simp: hdr_put_allocated hdr_wf_def)
  let ?f3 = "f\<lparr>fr_dirty := True, fr_page := (fr_page f)\<lparr>pg_data := d', pg_lsn := l\<rparr>\<rparr>"
  let ?st3 = "set_mgr_frame (hdr_id bid) ?f3 ?st2"
  have u3: "update_header bid upd (Some l) ?st2 = Some ?st3"
    using update_header_eq [OF m2, of upd d' "Some l", OF d(1)] by simp
  have "dispose_page bid (int n) st = Some (SUCCESS, ?st3)"
    using s1(1) lg m2 u3 assms(6) by (simp add: dispose_page_def file_header_eq [OF assms(4)] upd_def)
  moreover have "pool_inv ?st3"
    by (rule hdr_frame_inv [OF i2 m2 pool_inv_frame [OF i2 m2]]) (use assms(3) in simp_all)
  moreover have "mgr_frame ?st3 = (mgr_frame st)(?k := None, hdr_id bid \<mapsto> ?f3)"
    using s1(3) h1 by (auto simp: fun_eq_iff)
  moreover have "stored_page ?st3 = stored_page st" using s1(4) by simp
  moreover have "hdr_wf d' \<and> hdr_state d' = alloc_apply (ADispose n) (hdr_state ?d)"
    using hdr_changed_state [OF d(2)] by (simp add: hdr_state_def)
  ultimately show ?thesis by (intro exI [of _ ?st3] exI [of _ ?f3]) simp
qed

theorem dispose_page_frees_witness:
  "\<exists>d st' f'. hdr_state d = (2, {0, 1}) \<and> dispose_page 1 1 (header_pool d) = Some (SUCCESS, st') \<and>
     mgr_frame st' (hdr_id 1) = Some f' \<and> hdr_state (frame_data f') = (2, {0})"
proof -
  from new_header_example obtain d0 where d0: "hdr_wf d0" "hdr_state d0 = (1, {0})" by blast
  have c: "hdr_count d0 = 1" "pages_used d0 = {0}" using d0(2) unfolding hdr_state_def prod.inject by (blast, blast)
  from hdr_alloc_new [OF d0(1) c(1) [symmetric]] c(2) obtain d where "hdr_changed d0 d 2 {1, 0}"
    by (auto simp: bitmap_pages_value numeral_2_eq_2)
  then have d: "hdr_wf d" "hdr_state d = (2, {0, 1})" "pages_used d = {0, 1}"
    by (auto simp: hdr_changed_def hdr_state_def)
  note ok = header_pool_ok [of d]
  have h: "mgr_frame (header_pool d) (hdr_id 1) = Some (header_frame d)" using ok(5) by (simp add: BP_HEADER_PAGE_def)
  have "\<exists>st' f'. dispose_page 1 (int 1) (header_pool d) = Some (SUCCESS, st') \<and> pool_inv st' \<and>
    mgr_frame st' = (mgr_frame (header_pool d))((1, int 1) := None, hdr_id 1 \<mapsto> f') \<and> stored_page st' = stored_page (header_pool d) \<and>
    hdr_wf (frame_data f') \<and> hdr_state (frame_data f') = alloc_apply (ADispose 1) (hdr_state (frame_data (header_frame d)))"
    by (rule dispose_page_frees [OF ok(2) h]) (use d ok in simp_all)
  then show ?thesis using d(2) by (intro exI [of _ d]) (auto simp: insert_Diff_if)
qed

end
