(* ===== verification/RecordFile.thy ===== *)
theory RecordFile
  imports RecordPage PageAlloc
begin

text \<open>
  Records of a file (\<open>storage/record/record_manager.cpp\<close>): a page handler opened on a page of the
  buffer pool, \<open>RecordFileHandler\<close> with its set of pages that are not full, and the scanners.
  The model follows the objects: a \<open>RecordPageHandler\<close> with \<open>disk_buffer_pool_\<close> set is a
  \<open>PageHandle\<close>, and the destructor at the end of a scope is the call of \<open>handler_cleanup\<close> there.
  \<open>xid\<close> is the owner of the latches. The unordered set of free pages is a list in its iteration
  order. A call of \<open>exit\<close> (the PAX operations that are not written) has no outcome.
\<close>

section \<open>A page handler on a page of the pool\<close>

record PageHandle =
  hd_frame :: FrameId  \<comment> \<open>\<open>frame_\<close>\<close>
  hd_handler :: RecordPageHandler
  hd_vacuous :: bool  \<comment> \<open>the log handler is a \<open>VacuousLogHandler\<close>\<close>

definition handler_cleanup :: "int \<Rightarrow> PageHandle option \<Rightarrow> BufferPoolManager \<Rightarrow> BufferPoolManager option" where
  "handler_cleanup xid mh st = (case mh of
     None \<Rightarrow> Some st
   | Some h \<Rightarrow> do {
       f \<leftarrow> mgr_frame st (hd_frame h);
       f' \<leftarrow> unlatch (ph_rw_mode (hd_handler h)) xid f;
       unpin_page (hd_frame h) (set_mgr_frame (hd_frame h) f' st)
     })"

text \<open>The part of \<open>init\<close> behind the test whether the handler is open: pin, latch, look at the header.\<close>

definition handler_open ::
    "int \<Rightarrow> StorageFormat \<Rightarrow> bool \<Rightarrow> int \<Rightarrow> PageNum \<Rightarrow> ReadWriteMode \<Rightarrow> BufferPoolManager \<Rightarrow>
     (RC \<times> PageHandle option \<times> BufferPoolManager) option" where
  "handler_open xid fmt vac bid pn mode st = do {
     (rc, i, st1) \<leftarrow> get_this_page bid pn st;
     if rc \<noteq> SUCCESS then Some (rc, None, st1)
     else do {
       i \<leftarrow> i;
       f \<leftarrow> mgr_frame st1 i;
       f' \<leftarrow> latch mode xid f;
       ph \<leftarrow> page_header (frame_data f);
       Some (SUCCESS,
         Some \<lparr>hd_frame = i, hd_handler = \<lparr>ph_rw_mode = mode,
           ph_log = \<lparr>rl_buffer_pool_id = bid, rl_record_size = p_record_real_size ph, rl_storage_format = fmt\<rparr>\<rparr>,
           hd_vacuous = vac\<rparr>,
         set_mgr_frame i f' st1)
     }
   }"

definition handler_init ::
    "int \<Rightarrow> StorageFormat \<Rightarrow> bool \<Rightarrow> int \<Rightarrow> PageNum \<Rightarrow> ReadWriteMode \<Rightarrow> PageHandle option \<Rightarrow> BufferPoolManager \<Rightarrow>
     (RC \<times> PageHandle option \<times> BufferPoolManager) option" where
  "handler_init xid fmt vac bid pn mode mh st = (case mh of
     None \<Rightarrow> handler_open xid fmt vac bid pn mode st
   | Some h \<Rightarrow> do {
       f \<leftarrow> mgr_frame st (hd_frame h);
       if get_page_num f = pn then Some (RECORD_OPENNED, mh, st)
       else do {
         st1 \<leftarrow> handler_cleanup xid mh st;
         handler_open xid fmt vac bid pn mode st1
       }
     })"

text \<open>\<open>recover_init\<close>; \<open>DiskBufferPool::recover_page\<close> returns at once. The log handler is not set.\<close>

definition handler_recover_init ::
    "int \<Rightarrow> StorageFormat \<Rightarrow> int \<Rightarrow> PageNum \<Rightarrow> PageHandle option \<Rightarrow> BufferPoolManager \<Rightarrow>
     (RC \<times> PageHandle option \<times> BufferPoolManager) option" where
  "handler_recover_init xid fmt bid pn mh st = (case mh of
     Some h \<Rightarrow> Some (RECORD_OPENNED, mh, st)
   | None \<Rightarrow> do {
       (rc, i, st1) \<leftarrow> get_this_page bid pn st;
       if rc \<noteq> SUCCESS then Some (rc, None, st1)
       else do {
         i \<leftarrow> i;
         f \<leftarrow> mgr_frame st1 i;
         f' \<leftarrow> write_latch xid f;
         Some (SUCCESS,
           Some \<lparr>hd_frame = i, hd_handler = \<lparr>ph_rw_mode = READ_WRITE,
             ph_log = \<lparr>rl_buffer_pool_id = -1, rl_record_size = -1, rl_storage_format = fmt\<rparr>\<rparr>,
             hd_vacuous = True\<rparr>,
           set_mgr_frame i f' st1)
       }
     })"

text \<open>An operation of the page handler runs on the frame and on the handler's log.\<close>

definition on_page ::
    "PageHandle \<Rightarrow> (RecordPageHandler \<Rightarrow> Frame \<Rightarrow> DbLog \<Rightarrow> ('r \<times> Frame \<times> DbLog) option) \<Rightarrow>
     BufferPoolManager \<Rightarrow> ('r \<times> BufferPoolManager) option" where
  "on_page h g st = do {
     f \<leftarrow> mgr_frame st (hd_frame h);
     (r, f', lg) \<leftarrow> g (hd_handler h) f (if hd_vacuous h then Vacuous else bpm_log st);
     Some (r, set_mgr_frame (hd_frame h) f' (if hd_vacuous h then st else st\<lparr>bpm_log := lg\<rparr>))
   }"

text \<open>The virtual operations: rows are written, PAX only deletes.\<close>

definition page_insert ::
    "byte list \<Rightarrow> RecordPageHandler \<Rightarrow> Frame \<Rightarrow> DbLog \<Rightarrow> ((RC \<times> RID option) \<times> Frame \<times> DbLog) option" where
  "page_insert data h f lg = (if rl_storage_format (ph_log h) = ROW_FORMAT
     then do { (rc, rid, f', lg') \<leftarrow> row_insert_record h data f lg; Some ((rc, rid), f', lg') }
     else None)"

definition page_update :: "RID \<Rightarrow> byte list \<Rightarrow> RecordPageHandler \<Rightarrow> Frame \<Rightarrow> DbLog \<Rightarrow> (RC \<times> Frame \<times> DbLog) option" where
  "page_update rid data h f lg = (if rl_storage_format (ph_log h) = ROW_FORMAT
     then row_update_record h rid data f lg else Some (UNIMPLEMENTED, f, lg))"

definition page_get :: "RID \<Rightarrow> RecordPageHandler \<Rightarrow> Frame \<Rightarrow> DbLog \<Rightarrow> ((RC \<times> byte list option) \<times> Frame \<times> DbLog) option" where
  "page_get rid h f lg = (if rl_storage_format (ph_log h) = ROW_FORMAT
     then do { r \<leftarrow> row_get_record rid f; Some (r, f, lg) } else None)"

definition page_recover_insert :: "byte list \<Rightarrow> RID \<Rightarrow> RecordPageHandler \<Rightarrow> Frame \<Rightarrow> DbLog \<Rightarrow> (RC \<times> Frame \<times> DbLog) option" where
  "page_recover_insert data rid h f lg = (if rl_storage_format (ph_log h) = ROW_FORMAT
     then do { (rc, f') \<leftarrow> row_recover_insert_record data rid f; Some (rc, f', lg) }
     else Some (UNIMPLEMENTED, f, lg))"

text \<open>\<open>init_empty_page\<close> with its call of \<open>init\<close>; \<open>lens\<close> are the field lengths of a PAX table.\<close>

definition handler_init_empty ::
    "int \<Rightarrow> StorageFormat \<Rightarrow> int \<Rightarrow> PageNum \<Rightarrow> int \<Rightarrow> int list \<Rightarrow> BufferPoolManager \<Rightarrow>
     (RC \<times> PageHandle option \<times> BufferPoolManager) option" where
  "handler_init_empty xid fmt bid pn record_size lens st = do {
     (rc, mh, st1) \<leftarrow> handler_init xid fmt False bid pn READ_WRITE None st;
     if OB_FAIL rc then Some (rc, mh, st1)
     else do {
       h \<leftarrow> mh;
       ((rc, ph), st2) \<leftarrow> on_page h (\<lambda>ph f lg. do {
           (rc, ph', f', lg') \<leftarrow> init_empty_page ph record_size (if fmt = PAX_FORMAT then lens else []) f lg;
           Some ((rc, ph'), f', lg') }) st1;
       Some (rc, Some (h\<lparr>hd_handler := ph\<rparr>), st2)
     }
   }"

section \<open>The record file\<close>

record RecordFileHandler =
  rf_pool :: "int option"  \<comment> \<open>\<open>disk_buffer_pool_\<close>\<close>
  rf_free_pages :: "PageNum list"
  rf_format :: StorageFormat
  rf_lens :: "int list"  \<comment> \<open>the field lengths in \<open>table_meta_\<close>\<close>

definition free_insert :: "PageNum \<Rightarrow> PageNum list \<Rightarrow> PageNum list" where
  "free_insert p ps = (if p \<in> set ps then ps else ps @ [p])"

partial_function (option) free_pages_loop ::
    "int \<Rightarrow> StorageFormat \<Rightarrow> int \<Rightarrow> BufferPoolIterator \<Rightarrow> PageNum list \<Rightarrow> BufferPoolManager \<Rightarrow>
     (RC \<times> PageNum list \<times> BufferPoolManager) option" where
  "free_pages_loop xid fmt bid it ps st =
     Option.bind (bp_iterator_has_next it st) (\<lambda>b.
     if \<not> b then Some (SUCCESS, ps, st)
     else Option.bind (bp_iterator_next it st) (\<lambda>(p, it').
       Option.bind (handler_init xid fmt False bid p READ_ONLY None st) (\<lambda>(rc, mh, st1).
         if rc \<noteq> SUCCESS then Some (rc, ps, st1)
         else Option.bind mh (\<lambda>h. Option.bind (mgr_frame st1 (hd_frame h)) (\<lambda>f.
           Option.bind (is_full (frame_data f)) (\<lambda>full.
           Option.bind (handler_cleanup xid mh st1) (\<lambda>st2.
             free_pages_loop xid fmt bid it' (if full then ps else free_insert p ps) st2)))))))"

definition init_free_pages ::
    "int \<Rightarrow> int \<Rightarrow> RecordFileHandler \<Rightarrow> BufferPoolManager \<Rightarrow> (RC \<times> RecordFileHandler \<times> BufferPoolManager) option" where
  "init_free_pages xid bid rf st = do {
     it \<leftarrow> bp_iterator_init bid 1 st;
     (rc, ps, st') \<leftarrow> free_pages_loop xid (rf_format rf) bid it (rf_free_pages rf) st;
     Some (rc, rf\<lparr>rf_free_pages := ps\<rparr>, st')
   }"

text \<open>The result of \<open>init_free_pages\<close> is only logged.\<close>

definition record_file_init ::
    "int \<Rightarrow> int \<Rightarrow> int list \<Rightarrow> RecordFileHandler \<Rightarrow> BufferPoolManager \<Rightarrow> (RC \<times> RecordFileHandler \<times> BufferPoolManager) option" where
  "record_file_init xid bid lens rf st =
     (if rf_pool rf \<noteq> None then Some (RECORD_OPENNED, rf, st)
      else do {
        (rc, rf', st') \<leftarrow> init_free_pages xid bid (rf\<lparr>rf_pool := Some bid, rf_lens := lens\<rparr>) st;
        Some (SUCCESS, rf', st')
      })"

definition record_file_close :: "RecordFileHandler \<Rightarrow> RecordFileHandler" where
  "record_file_close rf = (if rf_pool rf \<noteq> None then rf\<lparr>rf_free_pages := [], rf_pool := None, rf_lens := []\<rparr> else rf)"

text \<open>The search for a page that is not full; pages that turn out to be full leave the set.\<close>

fun find_free_page ::
    "int \<Rightarrow> StorageFormat \<Rightarrow> int \<Rightarrow> PageNum list \<Rightarrow> BufferPoolManager \<Rightarrow>
     (RC \<times> PageHandle option \<times> PageNum list \<times> BufferPoolManager) option" where
  "find_free_page xid fmt bid [] st = Some (SUCCESS, None, [], st)"
| "find_free_page xid fmt bid (p # ps) st = do {
     (rc, mh, st1) \<leftarrow> handler_init xid fmt False bid p READ_WRITE None st;
     if OB_FAIL rc then Some (rc, None, p # ps, st1)
     else do {
       h \<leftarrow> mh;
       f \<leftarrow> mgr_frame st1 (hd_frame h);
       full \<leftarrow> is_full (frame_data f);
       if \<not> full then Some (SUCCESS, mh, p # ps, st1)
       else do {
         st2 \<leftarrow> handler_cleanup xid mh st1;
         find_free_page xid fmt bid ps st2
       }
     }
   }"

definition insert_new_page ::
    "int \<Rightarrow> int \<Rightarrow> int \<Rightarrow> RecordFileHandler \<Rightarrow> BufferPoolManager \<Rightarrow>
     (RC \<times> PageHandle option \<times> RecordFileHandler \<times> BufferPoolManager) option" where
  "insert_new_page xid bid record_size rf st = do {
     (rc, i, st1) \<leftarrow> allocate_page bid st;
     if rc \<noteq> SUCCESS then Some (rc, None, rf, st1)
     else do {
       i \<leftarrow> i;
       f \<leftarrow> mgr_frame st1 i;
       let p = get_page_num f;
       (rc, mh, st2) \<leftarrow> handler_init_empty xid (rf_format rf) bid p record_size (rf_lens rf) st1;
       st3 \<leftarrow> unpin_page i st2;
       if OB_FAIL rc then Some (rc, mh, rf, st3)
       else Some (SUCCESS, mh, rf\<lparr>rf_free_pages := free_insert p (rf_free_pages rf)\<rparr>, st3)
     }
   }"

definition insert_record ::
    "int \<Rightarrow> byte list \<Rightarrow> int \<Rightarrow> RecordFileHandler \<Rightarrow> BufferPoolManager \<Rightarrow>
     (RC \<times> RID option \<times> RecordFileHandler \<times> BufferPoolManager) option" where
  "insert_record xid data record_size rf st = do {
     bid \<leftarrow> rf_pool rf;
     (rc, mh, ps, st1) \<leftarrow> find_free_page xid (rf_format rf) bid (rf_free_pages rf) st;
     let rf1 = rf\<lparr>rf_free_pages := ps\<rparr>;
     if OB_FAIL rc then Some (rc, None, rf1, st1)
     else do {
       (rc, mh, rf2, st2) \<leftarrow> (case mh of
          Some h \<Rightarrow> Some (SUCCESS, mh, rf1, st1)
        | None \<Rightarrow> insert_new_page xid bid record_size rf1 st1);
       if OB_FAIL rc then do { st3 \<leftarrow> handler_cleanup xid mh st2; Some (rc, None, rf2, st3) }
       else do {
         h \<leftarrow> mh;
         ((rc, rid), st3) \<leftarrow> on_page h (page_insert data) st2;
         st4 \<leftarrow> handler_cleanup xid (Some h) st3;
         Some (rc, rid, rf2, st4)
       }
     }
   }"

text \<open>The operations on a given record open its page, run the page operation and clean up.\<close>

definition with_page ::
    "int \<Rightarrow> RecordFileHandler \<Rightarrow> PageNum \<Rightarrow> 'r \<Rightarrow>
     (RecordPageHandler \<Rightarrow> Frame \<Rightarrow> DbLog \<Rightarrow> ((RC \<times> 'r) \<times> Frame \<times> DbLog) option) \<Rightarrow> BufferPoolManager \<Rightarrow>
     (RC \<times> 'r \<times> BufferPoolManager) option" where
  "with_page xid rf p r0 g st = do {
     bid \<leftarrow> rf_pool rf;
     (rc, mh, st1) \<leftarrow> handler_init xid (rf_format rf) False bid p READ_WRITE None st;
     if OB_FAIL rc then Some (rc, r0, st1)
     else do {
       h \<leftarrow> mh;
       ((rc, r), st2) \<leftarrow> on_page h g st1;
       st3 \<leftarrow> handler_cleanup xid mh st2;
       Some (rc, r, st3)
     }
   }"

definition no_result :: "(RC \<times> Frame \<times> DbLog) option \<Rightarrow> ((RC \<times> unit) \<times> Frame \<times> DbLog) option" where
  "no_result r = do { (rc, f, lg) \<leftarrow> r; Some ((rc, ()), f, lg) }"

definition update_record ::
    "int \<Rightarrow> RID \<Rightarrow> byte list \<Rightarrow> RecordFileHandler \<Rightarrow> BufferPoolManager \<Rightarrow> (RC \<times> BufferPoolManager) option" where
  "update_record xid rid data rf st = do {
     (rc, _, st') \<leftarrow> with_page xid rf (page_num rid) () (\<lambda>h f lg. no_result (page_update rid data h f lg)) st;
     Some (rc, st')
   }"

definition delete_record ::
    "int \<Rightarrow> RID \<Rightarrow> RecordFileHandler \<Rightarrow> BufferPoolManager \<Rightarrow> (RC \<times> RecordFileHandler \<times> BufferPoolManager) option" where
  "delete_record xid rid rf st = do {
     (rc, _, st') \<leftarrow> with_page xid rf (page_num rid) () (\<lambda>h f lg. no_result (page_delete_record h rid f lg)) st;
     Some (rc, if OB_SUCC rc then rf\<lparr>rf_free_pages := free_insert (page_num rid) (rf_free_pages rf)\<rparr> else rf, st')
   }"

definition get_record ::
    "int \<Rightarrow> RID \<Rightarrow> RecordFileHandler \<Rightarrow> BufferPoolManager \<Rightarrow> (RC \<times> byte list option \<times> BufferPoolManager) option" where
  "get_record xid rid rf st = with_page xid rf (page_num rid) None (page_get rid) st"

text \<open>\<open>visit_record\<close>: the visitor gets a copy and says whether it changed it.\<close>

definition visit_record ::
    "int \<Rightarrow> RID \<Rightarrow> (byte list \<Rightarrow> bool \<times> byte list) \<Rightarrow> RecordFileHandler \<Rightarrow> BufferPoolManager \<Rightarrow>
     (RC \<times> BufferPoolManager) option" where
  "visit_record xid rid updater rf st = do {
     (rc, _, st') \<leftarrow> with_page xid rf (page_num rid) () (\<lambda>h f lg. do {
         ((rc, r), f1, lg1) \<leftarrow> page_get rid h f lg;
         if OB_FAIL rc then Some ((rc, ()), f1, lg1)
         else do {
           r \<leftarrow> r;
           (case updater r of
              (updated, r') \<Rightarrow> if updated then no_result (page_update rid r' h f1 lg1) else Some ((rc, ()), f1, lg1))
         }
       }) st;
     Some (rc, st')
   }"

definition recover_insert_record ::
    "int \<Rightarrow> byte list \<Rightarrow> RID \<Rightarrow> RecordFileHandler \<Rightarrow> BufferPoolManager \<Rightarrow> (RC \<times> BufferPoolManager) option" where
  "recover_insert_record xid data rid rf st = do {
     bid \<leftarrow> rf_pool rf;
     (rc, mh, st1) \<leftarrow> handler_recover_init xid (rf_format rf) bid (page_num rid) None st;
     if OB_FAIL rc then Some (rc, st1)
     else do {
       h \<leftarrow> mh;
       (rc, st2) \<leftarrow> on_page h (page_recover_insert data rid) st1;
       st3 \<leftarrow> handler_cleanup xid mh st2;
       Some (rc, st3)
     }
   }"

section \<open>Scanning a file\<close>

text \<open>
  \<open>sc_filter\<close> is the condition filter and \<open>sc_trx\<close> the transaction's \<open>visit_record\<close>, if there are
  any. The row handler is chosen when there is no table or the table stores rows.
\<close>

record RecordFileScanner =
  sc_pool :: int
  sc_mode :: ReadWriteMode
  sc_format :: StorageFormat
  sc_filter :: "(RID \<times> byte list \<Rightarrow> bool) option"
  sc_trx :: "(RID \<times> byte list \<Rightarrow> RC) option"
  sc_bp_iterator :: BufferPoolIterator
  sc_handle :: "PageHandle option"
  sc_iterator :: "RecordPageIterator option"
  sc_next :: "RID \<times> byte list"

definition open_scan ::
    "int \<Rightarrow> ReadWriteMode \<Rightarrow> StorageFormat \<Rightarrow> (RID \<times> byte list \<Rightarrow> bool) option \<Rightarrow> (RID \<times> byte list \<Rightarrow> RC) option \<Rightarrow>
     BufferPoolManager \<Rightarrow> RecordFileScanner option" where
  "open_scan bid mode fmt flt trx st = do {
     it \<leftarrow> bp_iterator_init bid 1 st;
     Some \<lparr>sc_pool = bid, sc_mode = mode, sc_format = fmt, sc_filter = flt, sc_trx = trx,
       sc_bp_iterator = it, sc_handle = None, sc_iterator = None, sc_next = (RID (-1) (-1), [])\<rparr>
   }"

definition end_of_page :: "RecordFileScanner \<Rightarrow> RecordFileScanner" where
  "end_of_page sc = sc\<lparr>sc_next := (RID (page_num (fst (sc_next sc))) (-1), snd (sc_next sc))\<rparr>"

text \<open>\<open>fetch_next_record_in_page\<close> on the frame of the open page.\<close>

partial_function (option) fetch_next_record_in_page ::
    "BufferPoolManager \<Rightarrow> RecordFileScanner \<Rightarrow> (RC \<times> RecordFileScanner) option" where
  "fetch_next_record_in_page st sc =
     Option.bind (sc_iterator sc) (\<lambda>it.
     if \<not> iterator_has_next it then Some (RECORD_EOF, end_of_page sc)
     else Option.bind (sc_handle sc) (\<lambda>h.
       if sc_format sc \<noteq> ROW_FORMAT then None
       else Option.bind (mgr_frame st (hd_frame h)) (\<lambda>f.
         Option.bind (iterator_next it (sc_next sc) f) (\<lambda>(rc, r, it').
           let sc1 = sc\<lparr>sc_iterator := Some it', sc_next := r\<rparr>
           in if rc \<noteq> SUCCESS then Some (rc, sc1)
              else if (case sc_filter sc of None \<Rightarrow> False | Some p \<Rightarrow> \<not> p r) then fetch_next_record_in_page st sc1
              else (case sc_trx sc of
                 None \<Rightarrow> Some (rc, sc1)
               | Some visit \<Rightarrow>
                   if visit r = RECORD_INVISIBLE then fetch_next_record_in_page st sc1
                   else Some (visit r, sc1))))))"

partial_function (option) fetch_pages ::
    "int \<Rightarrow> RecordFileScanner \<Rightarrow> BufferPoolManager \<Rightarrow> (RC \<times> RecordFileScanner \<times> BufferPoolManager) option" where
  "fetch_pages xid sc st =
     Option.bind (bp_iterator_has_next (sc_bp_iterator sc) st) (\<lambda>b.
     if \<not> b then Option.bind (handler_cleanup xid (sc_handle sc) st) (\<lambda>st1.
       Some (RECORD_EOF, (end_of_page sc)\<lparr>sc_handle := None\<rparr>, st1))
     else Option.bind (bp_iterator_next (sc_bp_iterator sc) st) (\<lambda>(p, it).
       Option.bind (handler_cleanup xid (sc_handle sc) st) (\<lambda>st1.
       Option.bind (handler_init xid (sc_format sc) False (sc_pool sc) p (sc_mode sc) None st1) (\<lambda>(rc, mh, st2).
         let sc1 = sc\<lparr>sc_bp_iterator := it, sc_handle := mh\<rparr>
         in if OB_FAIL rc then Some (rc, sc1, st2)
            else Option.bind mh (\<lambda>h. Option.bind (mgr_frame st2 (hd_frame h)) (\<lambda>f.
              Option.bind (iterator_init 0 f) (\<lambda>pit.
              Option.bind (fetch_next_record_in_page st2 (sc1\<lparr>sc_iterator := Some pit\<rparr>)) (\<lambda>(rc, sc2).
                if rc = SUCCESS \<or> rc \<noteq> RECORD_EOF then Some (rc, sc2, st2)
                else fetch_pages xid sc2 st2))))))))"

definition fetch_next_record ::
    "int \<Rightarrow> RecordFileScanner \<Rightarrow> BufferPoolManager \<Rightarrow> (RC \<times> RecordFileScanner \<times> BufferPoolManager) option" where
  "fetch_next_record xid sc st =
     (if sc_iterator sc = None then fetch_pages xid sc st
      else do {
        (rc, sc1) \<leftarrow> fetch_next_record_in_page st sc;
        if rc = SUCCESS \<or> rc \<noteq> RECORD_EOF then Some (rc, sc1, st) else fetch_pages xid sc1 st
      })"

definition scan_next ::
    "int \<Rightarrow> RecordFileScanner \<Rightarrow> BufferPoolManager \<Rightarrow>
     (RC \<times> (RID \<times> byte list) option \<times> RecordFileScanner \<times> BufferPoolManager) option" where
  "scan_next xid sc st = do {
     (rc, sc', st') \<leftarrow> fetch_next_record xid sc st;
     Some (if OB_FAIL rc then (rc, None, sc', st') else (SUCCESS, Some (sc_next sc'), sc', st'))
   }"

definition close_scan :: "int \<Rightarrow> RecordFileScanner \<Rightarrow> BufferPoolManager \<Rightarrow> (RC \<times> BufferPoolManager) option" where
  "close_scan xid sc st = do { st' \<leftarrow> handler_cleanup xid (sc_handle sc) st; Some (SUCCESS, st') }"

definition update_current ::
    "RID \<times> byte list \<Rightarrow> RecordFileScanner \<Rightarrow> BufferPoolManager \<Rightarrow> (RC \<times> BufferPoolManager) option" where
  "update_current r sc st =
     (if fst r \<noteq> fst (sc_next sc) then Some (INVALID_ARGUMENT, st)
      else do {
        h \<leftarrow> sc_handle sc;
        (rc, st') \<leftarrow> on_page h (page_update (fst r) (snd r)) st;
        Some (rc, st')
      })"

end
