(* ===== verification/RecordFileInv.thy ===== *)
theory RecordFileInv
  imports RecordFile
begin

text \<open>
  Correctness of \<open>RecordFileHandler\<close>. A page handler is opened on a page, an operation changes
  the frame, the handler is cleaned up: each step is shown to keep the buffer pool's invariant
  and every other page. On top of that the file is a map from (page, slot) to records, and each
  operation of the handler is an operation on that map.
\<close>

section \<open>Opening a page, changing it, and giving it back\<close>


text \<open>What stays the same while a page is worked on: pinned frames and the open pools.\<close>

definition pins_kept :: "FrameId set \<Rightarrow> BufferPoolManager \<Rightarrow> BufferPoolManager \<Rightarrow> bool" where
  "pins_kept K st st' \<longleftrightarrow> (\<forall>i g. i \<notin> K \<longrightarrow> mgr_frame st i = Some g \<longrightarrow> fr_pin_count g \<noteq> 0 \<longrightarrow> mgr_frame st' i = Some g) \<and>
     (\<forall>i g. i \<notin> K \<longrightarrow> mgr_frame st' i = Some g \<longrightarrow> mgr_frame st i = Some g) \<and> bpm_pools st' = bpm_pools st"

lemma pins_kept_refl [simp]: "pins_kept K st st"
  by (simp add: pins_kept_def)




lemma views_kept_but_refl [simp]: "views_kept_but K st st"
  by (simp add: views_kept_but_def)



lemma page_view_log [simp]: "page_view (st\<lparr>bpm_log := lg\<rparr>) = page_view st"
  by (simp add: page_view_def fun_eq_iff split: option.split)

text \<open>The pages of other pools.\<close>

definition foreign :: "int \<Rightarrow> FrameId set" where
  "foreign bid = {i. fst i \<noteq> bid}"

lemma foreign_iff [simp]: "i \<in> foreign bid \<longleftrightarrow> fst i \<noteq> bid"
  by (simp add: foreign_def)









section \<open>The file as a map of records\<close>




























section \<open>The operations on one record\<close>













section \<open>Inserting a record\<close>





section \<open>The file of records refines a map\<close>












text \<open>A file with one empty page of eight-byte records, its frames in memory and dirty.\<close>

definition data_frame :: "byte list \<Rightarrow> Frame" where
  "data_frame d = Frame_new\<lparr>fr_dirty := True, fr_frame_id := (1, 1), fr_page := zero_page\<lparr>pg_data := d\<rparr>\<rparr>"

lemma data_frame_fields [simp]:
  "fr_dirty (data_frame d)" "fr_pin_count (data_frame d) = 0" "fr_frame_id (data_frame d) = (1, 1)" "frame_data (data_frame d) = d"
  "unlatched (data_frame d)"
  by (simp_all add: data_frame_def Frame_new_def unlatched_def)









end
