(* ===== verification/RingBuffer.thy ===== *)
theory RingBuffer
  imports Base "HOL-Library.Signed_Division"
begin

text \<open>
  The ring buffer of \<open>net/ring_buffer.h\<close> and \<open>net/ring_buffer.cpp\<close> and the buffered writer of
  \<open>net/buffered_writer.cpp\<close> that sends through it. A pointer into \<open>buffer_\<close> is its offset. The
  loops are \<^theory_text>\<open>partial_function (option)\<close>: a loop that does not end has no outcome. Sizes are
  \<open>int32_t\<close>; \<open>ring_inv\<close> bounds the capacity so that no sum leaves the type.
\<close>

section \<open>The buffer\<close>

record RingBuffer =
  rb_buffer :: "byte list"  \<comment> \<open>\<open>buffer_\<close>\<close>
  rb_data_size :: int
  rb_write_pos :: int

definition DEFAULT_BUFFER_SIZE :: int where
  "DEFAULT_BUFFER_SIZE = 131072"

definition RingBuffer_new :: "int \<Rightarrow> RingBuffer" where
  "RingBuffer_new n = \<lparr>rb_buffer = replicate (nat n) 0, rb_data_size = 0, rb_write_pos = 0\<rparr>"

definition ring_capacity :: "RingBuffer \<Rightarrow> int" where
  "ring_capacity rb = to_int32 (int (length (rb_buffer rb)))"

definition ring_size :: "RingBuffer \<Rightarrow> int" where
  "ring_size rb = rb_data_size rb"

definition ring_remain :: "RingBuffer \<Rightarrow> int" where
  "ring_remain rb = ring_capacity rb - ring_size rb"

definition ring_clear :: "RingBuffer \<Rightarrow> RingBuffer" where
  "ring_clear rb = rb\<lparr>rb_data_size := 0, rb_write_pos := 0\<rparr>"

text \<open>The remainder of C: of the sign of the dividend, and no outcome for a zero divisor.\<close>

definition ring_read_pos :: "RingBuffer \<Rightarrow> int option" where
  "ring_read_pos rb = do {
     assert_that (ring_capacity rb \<noteq> 0);
     Some ((rb_write_pos rb - ring_size rb + ring_capacity rb) smod ring_capacity rb)
   }"

text \<open>\<open>buffer\<close> gives the contiguous part that can be read: its offset and its size.\<close>

definition ring_buffer :: "RingBuffer \<Rightarrow> (RC \<times> int \<times> int) option" where
  "ring_buffer rb =
     (if ring_size rb = 0 then Some (SUCCESS, 0, 0)
      else do {
        rp \<leftarrow> ring_read_pos rb;
        Some (SUCCESS, rp, if rp < rb_write_pos rb then rb_write_pos rb - rp else ring_capacity rb - rp)
      })"

definition ring_forward :: "int \<Rightarrow> RingBuffer \<Rightarrow> RC \<times> RingBuffer" where
  "ring_forward n rb =
     (if n \<le> 0 then (INVALID_ARGUMENT, rb)
      else if n > ring_size rb then (INVALID_ARGUMENT, rb)
      else (SUCCESS, rb\<lparr>rb_data_size := rb_data_size rb - n\<rparr>))"

text \<open>\<open>out\<close> is what was copied to the caller's memory so far.\<close>

partial_function (option) read_loop ::
    "int \<Rightarrow> byte list \<Rightarrow> RC \<Rightarrow> RingBuffer \<Rightarrow> (RC \<times> byte list \<times> RingBuffer) option" where
  "read_loop n out rc rb =
     (if \<not> (OB_SUCC rc \<and> int (length out) < n \<and> ring_size rb > 0) then Some (rc, out, rb)
      else Option.bind (ring_buffer rb) (\<lambda>(rc, tmp_buf, tmp_size).
        if OB_SUCC rc then
          Option.bind (mem_read (rb_buffer rb) (nat tmp_buf) (nat (min (n - int (length out)) tmp_size))) (\<lambda>bs.
            (case ring_forward (min (n - int (length out)) tmp_size) rb of
               (rc, rb') \<Rightarrow> read_loop n (out @ bs) rc rb'))
        else read_loop n out rc rb))"

definition ring_read :: "int \<Rightarrow> RingBuffer \<Rightarrow> (RC \<times> byte list \<times> RingBuffer) option" where
  "ring_read n rb = (if n < 0 then Some (INVALID_ARGUMENT, [], rb) else read_loop n [] SUCCESS rb)"

text \<open>\<open>data\<close> is the caller's memory, \<open>w\<close> the size written so far.\<close>

partial_function (option) write_loop ::
    "byte list \<Rightarrow> int \<Rightarrow> int \<Rightarrow> RingBuffer \<Rightarrow> (RC \<times> int \<times> RingBuffer) option" where
  "write_loop data n w rb =
     (if \<not> (w < n \<and> ring_remain rb > 0) then Some (SUCCESS, w, rb)
      else Option.bind (ring_read_pos rb) (\<lambda>rp.
        let tmp_buf_size = (if rp \<le> rb_write_pos rb then ring_capacity rb - rb_write_pos rb else rp - rb_write_pos rb);
            c = min (n - w) tmp_buf_size
        in Option.bind (mem_read data (nat w) (nat c)) (\<lambda>bs.
           Option.bind (mem_write (rb_buffer rb) (nat (rb_write_pos rb)) bs) (\<lambda>buf.
             write_loop data n (w + c)
               (rb\<lparr>rb_buffer := buf, rb_write_pos := (rb_write_pos rb + c) smod ring_capacity rb,
                   rb_data_size := rb_data_size rb + c\<rparr>)))))"

definition ring_write :: "byte list \<Rightarrow> int \<Rightarrow> RingBuffer \<Rightarrow> (RC \<times> int \<times> RingBuffer) option" where
  "ring_write data n rb = (if n < 0 then Some (INVALID_ARGUMENT, 0, rb) else write_loop data n 0 rb)"

section \<open>The buffered writer\<close>

text \<open>
  One call of \<open>::write\<close>: the kernel takes at most so many of the bytes offered, or gives an error
  after which the call is repeated (\<open>EAGAIN\<close>, \<open>EINTR\<close>), or another error. The kernel's answers
  are a list the writer consumes; a writer that waits for an answer that does not come has no
  outcome. \<open>bw_sent\<close> is what the descriptor has received.
\<close>

datatype write_answer = Accept nat | Retry | Broken

record BufferedWriter =
  bw_fd :: int
  bw_buffer :: RingBuffer
  bw_sent :: "byte list"
  bw_kernel :: "write_answer list"

text \<open>The inner loop on \<open>::write(fd_, buf, read_size)\<close>: the size written, or \<open>None\<close> for \<open>IOERR_WRITE\<close>.\<close>

fun write_call :: "nat \<Rightarrow> write_answer list \<Rightarrow> (nat option \<times> write_answer list) option" where
  "write_call n [] = None"
| "write_call n (Broken # ks) = Some (None, ks)"
| "write_call n (Retry # ks) = write_call n ks"
| "write_call n (Accept m # ks) = (if min m n = 0 then write_call n ks else Some (Some (min m n), ks))"

partial_function (option) flush_internal_loop ::
    "int \<Rightarrow> int \<Rightarrow> BufferedWriter \<Rightarrow> (RC \<times> BufferedWriter) option" where
  "flush_internal_loop n w bw =
     (if \<not> (ring_size (bw_buffer bw) > 0 \<and> n > w) then Some (SUCCESS, bw)
      else Option.bind (ring_buffer (bw_buffer bw)) (\<lambda>(rc, buf, read_size).
        if OB_FAIL rc then Some (rc, bw)
        else Option.bind (write_call (nat read_size) (bw_kernel bw)) (\<lambda>(r, ks).
          (case r of
             None \<Rightarrow> Some (IOERR_WRITE, bw\<lparr>bw_kernel := ks\<rparr>)
           | Some m \<Rightarrow> Option.bind (mem_read (rb_buffer (bw_buffer bw)) (nat buf) m) (\<lambda>bs.
               flush_internal_loop n (w + int m)
                 (bw\<lparr>bw_kernel := ks, bw_sent := bw_sent bw @ bs,
                     bw_buffer := snd (ring_forward (int m) (bw_buffer bw))\<rparr>))))))"

definition flush_internal :: "int \<Rightarrow> BufferedWriter \<Rightarrow> (RC \<times> BufferedWriter) option" where
  "flush_internal n bw = (if bw_fd bw < 0 then Some (INVALID_ARGUMENT, bw) else flush_internal_loop n 0 bw)"

partial_function (option) buffered_flush_loop :: "RC \<Rightarrow> BufferedWriter \<Rightarrow> (RC \<times> BufferedWriter) option" where
  "buffered_flush_loop rc bw =
     (if \<not> (OB_SUCC rc \<and> ring_size (bw_buffer bw) > 0) then Some (rc, bw)
      else Option.bind (flush_internal (ring_size (bw_buffer bw)) bw) (\<lambda>(rc, bw'). buffered_flush_loop rc bw'))"

definition buffered_flush :: "BufferedWriter \<Rightarrow> (RC \<times> BufferedWriter) option" where
  "buffered_flush bw = (if bw_fd bw < 0 then Some (INVALID_ARGUMENT, bw) else buffered_flush_loop SUCCESS bw)"

definition buffered_close :: "BufferedWriter \<Rightarrow> (RC \<times> BufferedWriter) option" where
  "buffered_close bw =
     (if bw_fd bw < 0 then Some (SUCCESS, bw)
      else do {
        (rc, bw') \<leftarrow> buffered_flush bw;
        Some (if OB_FAIL rc then (rc, bw') else (SUCCESS, bw'\<lparr>bw_fd := -1\<rparr>))
      })"

definition buffered_write :: "byte list \<Rightarrow> int \<Rightarrow> BufferedWriter \<Rightarrow> (RC \<times> int \<times> BufferedWriter) option" where
  "buffered_write data n bw =
     (if bw_fd bw < 0 then Some (INVALID_ARGUMENT, 0, bw)
      else do {
        (rc, bw1) \<leftarrow> (if ring_remain (bw_buffer bw) = 0 then flush_internal n bw else Some (SUCCESS, bw));
        if OB_FAIL rc then Some (rc, 0, bw1)
        else do {
          (rc, w, rb) \<leftarrow> ring_write data n (bw_buffer bw1);
          Some (rc, w, bw1\<lparr>bw_buffer := rb\<rparr>)
        }
      })"

partial_function (option) writen_loop :: "byte list \<Rightarrow> int \<Rightarrow> int \<Rightarrow> BufferedWriter \<Rightarrow> (RC \<times> BufferedWriter) option" where
  "writen_loop data n w bw =
     (if \<not> w < n then Some (SUCCESS, bw)
      else Option.bind (buffered_write (drop (nat w) data) (n - w) bw) (\<lambda>(rc, m, bw').
        if OB_FAIL rc then Some (rc, bw') else writen_loop data n (w + m) bw'))"

definition writen :: "byte list \<Rightarrow> int \<Rightarrow> BufferedWriter \<Rightarrow> (RC \<times> BufferedWriter) option" where
  "writen data n bw = (if bw_fd bw < 0 then Some (INVALID_ARGUMENT, bw) else writen_loop data n 0 bw)"

definition clear_buffer :: "BufferedWriter \<Rightarrow> BufferedWriter" where
  "clear_buffer bw = bw\<lparr>bw_buffer := ring_clear (bw_buffer bw)\<rparr>"

section \<open>The buffer is a bounded queue of bytes\<close>

definition ring_inv :: "RingBuffer \<Rightarrow> bool" where
  "ring_inv rb \<longleftrightarrow> length (rb_buffer rb) \<le> 2 ^ 30 \<and> 0 \<le> rb_data_size rb \<and> rb_data_size rb \<le> int (length (rb_buffer rb)) \<and>
     0 \<le> rb_write_pos rb \<and> (rb_write_pos rb < int (length (rb_buffer rb)) \<or> rb_buffer rb = [] \<and> rb_write_pos rb = 0)"

text \<open>The bytes between the read and the write position, in order.\<close>

definition ring_content :: "RingBuffer \<Rightarrow> byte list" where
  "ring_content rb = map (\<lambda>i. rb_buffer rb ! nat ((rb_write_pos rb - rb_data_size rb + int i) mod int (length (rb_buffer rb))))
     [0..<nat (rb_data_size rb)]"

lemma ring_content_length [simp]: "ring_inv rb \<Longrightarrow> int (length (ring_content rb)) = ring_size rb"
  by (simp add: ring_content_def ring_inv_def ring_size_def)

lemma ring_content_nth:
  "int i < rb_data_size rb \<Longrightarrow> ring_content rb ! i =
     rb_buffer rb ! nat ((rb_write_pos rb - rb_data_size rb + int i) mod int (length (rb_buffer rb)))"
  by (simp add: ring_content_def zless_nat_eq_int_zless)

lemma ring_capacity_eq: "ring_inv rb \<Longrightarrow> ring_capacity rb = int (length (rb_buffer rb))"
  unfolding ring_capacity_def ring_inv_def by (rule to_int32_id) (simp add: int32_range_def)

lemma smod_pos: "0 \<le> a \<Longrightarrow> 0 < b \<Longrightarrow> a smod b = a mod (b :: int)"
  by (cases "a = 0") (simp_all add: signed_modulo_int_def)

lemma ring_read_pos_eq:
  assumes "ring_inv rb" "rb_buffer rb \<noteq> []"
  shows "ring_read_pos rb = Some ((rb_write_pos rb - rb_data_size rb) mod int (length (rb_buffer rb)))"
proof -
  let ?c = "int (length (rb_buffer rb))"
  have "?c > 0" "0 \<le> rb_write_pos rb - rb_data_size rb + ?c" using assms by (auto simp: ring_inv_def)
  then show ?thesis by (simp add: ring_read_pos_def ring_capacity_eq [OF assms(1)] ring_size_def smod_pos)
qed

text \<open>The read position: before the write position, or behind it when the contents wrap around.\<close>

lemma ring_read_pos_cases:
  assumes inv: "ring_inv rb" and ne: "rb_buffer rb \<noteq> []" and rp: "ring_read_pos rb = Some rp"
  shows "0 \<le> rp" "rp < int (length (rb_buffer rb))"
    "rb_data_size rb \<le> rb_write_pos rb \<Longrightarrow> rp = rb_write_pos rb - rb_data_size rb"
    "rb_write_pos rb < rb_data_size rb \<Longrightarrow> rp = rb_write_pos rb - rb_data_size rb + int (length (rb_buffer rb))"
proof -
  let ?c = "int (length (rb_buffer rb))"
  have r: "rp = (rb_write_pos rb - rb_data_size rb) mod ?c" using ring_read_pos_eq [OF inv ne] rp by simp
  have c: "?c > 0" "0 \<le> rb_data_size rb" "rb_data_size rb \<le> ?c" "0 \<le> rb_write_pos rb" "rb_write_pos rb < ?c"
    using inv ne by (auto simp: ring_inv_def)
  show "0 \<le> rp" "rp < ?c" unfolding r using c(1) by simp_all
  show "rp = rb_write_pos rb - rb_data_size rb" if "rb_data_size rb \<le> rb_write_pos rb"
    unfolding r by (rule mod_pos_pos_trivial) (use that c in linarith)+
  show "rp = rb_write_pos rb - rb_data_size rb + ?c" if "rb_write_pos rb < rb_data_size rb"
  proof -
    have "(rb_write_pos rb - rb_data_size rb + ?c) mod ?c = rb_write_pos rb - rb_data_size rb + ?c"
      by (rule mod_pos_pos_trivial) (use that c in linarith)+
    then show ?thesis unfolding r by simp
  qed
qed

text \<open>What \<open>buffer\<close> hands out is a prefix of the contents, not empty unless they are.\<close>

lemma ring_buffer_ok:
  assumes inv: "ring_inv rb" and s: "ring_size rb > 0"
  shows "\<exists>p m. ring_buffer rb = Some (SUCCESS, p, m) \<and> 0 < m \<and> m \<le> ring_size rb \<and> 0 \<le> p \<and>
    p + m \<le> int (length (rb_buffer rb)) \<and>
    (\<forall>k. int k \<le> m \<longrightarrow> mem_read (rb_buffer rb) (nat p) k = Some (take k (ring_content rb)))"
proof -
  let ?c = "int (length (rb_buffer rb))"
  have sz: "ring_size rb = rb_data_size rb" by (simp add: ring_size_def)
  have c: "?c > 0" "0 < rb_data_size rb" "rb_data_size rb \<le> ?c" "0 \<le> rb_write_pos rb" "rb_write_pos rb < ?c"
    using inv s by (auto simp: ring_inv_def ring_size_def)
  then have ne: "rb_buffer rb \<noteq> []" by auto
  define rp where "rp = (rb_write_pos rb - rb_data_size rb) mod ?c"
  have rp: "ring_read_pos rb = Some rp" using ring_read_pos_eq [OF inv ne] by (simp add: rp_def)
  note rc = ring_read_pos_cases [OF inv ne rp]
  define m where "m = (if rp < rb_write_pos rb then rb_write_pos rb - rp else ?c - rp)"
  have m: "0 < m" "m \<le> rb_data_size rb" "rp + m \<le> ?c"
  proof -
    show "0 < m" "rp + m \<le> ?c" using rc(1,2) c by (auto simp: m_def)
    show "m \<le> rb_data_size rb"
    proof (cases "rb_data_size rb \<le> rb_write_pos rb")
      case True
      with rc(3) c(2) show ?thesis by (simp add: m_def)
    next
      case False
      with rc(4) c have "rp = rb_write_pos rb - rb_data_size rb + ?c" by simp
      then show ?thesis using c(3,4) False by (simp add: m_def)
    qed
  qed
  have "mem_read (rb_buffer rb) (nat rp) k = Some (take k (ring_content rb))" if k: "int k \<le> m" for k
  proof -
    have "take k (drop (nat rp) (rb_buffer rb)) = take k (ring_content rb)"
    proof (rule nth_equalityI)
      have l: "length (ring_content rb) = nat (rb_data_size rb)" by (simp add: ring_content_def)
      show "length (take k (drop (nat rp) (rb_buffer rb))) = length (take k (ring_content rb))"
        using k m rc(1) c l by (simp add: min_def) linarith
      fix i assume "i < length (take k (drop (nat rp) (rb_buffer rb)))"
      then have i: "i < k" "int i < m" using k by auto
      have "(rb_write_pos rb - rb_data_size rb + int i) mod ?c = (rp + int i) mod ?c"
        unfolding rp_def by (simp add: mod_simps)
      also have "\<dots> = rp + int i" by (rule mod_pos_pos_trivial) (use i m rc(1) in linarith)+
      finally show "take k (drop (nat rp) (rb_buffer rb)) ! i = take k (ring_content rb) ! i"
        using i m(2,3) rc(1) c by (simp add: ring_content_nth nat_add_distrib)
    qed
    moreover have "nat rp + k \<le> length (rb_buffer rb)" using k m(3) rc(1) by linarith
    ultimately show ?thesis by simp
  qed
  then show ?thesis
    using s rp m rc(1) by (intro exI [of _ rp] exI [of _ m]) (simp add: ring_buffer_def sz m_def ring_capacity_eq [OF inv])
qed

lemma ring_forward_ok:
  assumes inv: "ring_inv rb" and n: "0 < n" "n \<le> ring_size rb"
  shows "\<exists>rb'. ring_forward n rb = (SUCCESS, rb') \<and> ring_inv rb' \<and> ring_content rb' = drop (nat n) (ring_content rb) \<and>
    rb_buffer rb' = rb_buffer rb"
proof -
  let ?rb = "rb\<lparr>rb_data_size := rb_data_size rb - n\<rparr>"
  have "ring_forward n rb = (SUCCESS, ?rb)" using n by (simp add: ring_forward_def)
  moreover have "ring_inv ?rb" using inv n by (simp add: ring_inv_def ring_size_def)
  moreover have "ring_content ?rb = drop (nat n) (ring_content rb)"
  proof (rule nth_equalityI)
    show "length (ring_content ?rb) = length (drop (nat n) (ring_content rb))" using n by (simp add: ring_content_def nat_diff_distrib)
    fix i assume "i < length (ring_content ?rb)"
    then have "i < nat (rb_data_size rb - n)" by (simp add: ring_content_def)
    then show "ring_content ?rb ! i = drop (nat n) (ring_content rb) ! i"
      using n ring_content_nth [of i ?rb] ring_content_nth [of "nat n + i" rb]
      by (simp add: ring_content_def algebra_simps)
  qed
  ultimately show ?thesis by simp
qed

lemma ring_forward_refused: "n \<le> 0 \<or> n > ring_size rb \<Longrightarrow> ring_forward n rb = (INVALID_ARGUMENT, rb)"
  by (auto simp: ring_forward_def)

text \<open>Reading takes the longest prefix of the contents that was asked for.\<close>

lemma read_loop_ok:
  assumes "ring_inv rb" "int (length out) \<le> n"
  shows "\<exists>rb'. read_loop n out SUCCESS rb = Some (SUCCESS, out @ take (nat n - length out) (ring_content rb), rb') \<and> ring_inv rb' \<and>
    ring_content rb' = drop (nat n - length out) (ring_content rb) \<and> rb_buffer rb' = rb_buffer rb"
  using assms
proof (induction "nat (ring_size rb)" arbitrary: rb out rule: less_induct)
  case less
  show ?case
  proof (cases "int (length out) < n \<and> ring_size rb > 0")
    case False
    have "nat n - length out = 0 \<or> ring_content rb = []"
      using False less.prems by (auto simp: ring_content_def ring_size_def)
    then show ?thesis using False less.prems by (auto simp: read_loop.simps)
  next
    case True
    then have t: "int (length out) < n" "ring_size rb > 0" by simp_all
    from ring_buffer_ok [OF less.prems(1) t(2)] obtain p m where
      b: "ring_buffer rb = Some (SUCCESS, p, m)" "0 < m" "m \<le> ring_size rb"
        "\<And>k. int k \<le> m \<Longrightarrow> mem_read (rb_buffer rb) (nat p) k = Some (take k (ring_content rb))" by blast
    define c where "c = min (n - int (length out)) m"
    have c: "0 < c" "c \<le> m" "c \<le> ring_size rb" "c \<le> n - int (length out)" using b(2,3) t by (auto simp: c_def)
    from ring_forward_ok [OF less.prems(1) c(1,3)] obtain rb1 where
      f: "ring_forward c rb = (SUCCESS, rb1)" "ring_inv rb1" "ring_content rb1 = drop (nat c) (ring_content rb)"
        "rb_buffer rb1 = rb_buffer rb" by blast
    let ?out = "out @ take (nat c) (ring_content rb)"
    have lc: "length (ring_content rb) = nat (ring_size rb)" by (simp add: ring_content_def ring_size_def)
    then have lo: "int (length ?out) = int (length out) + c" using c by simp
    have s1: "nat (ring_size rb1) < nat (ring_size rb)"
      using f(1) c(1) t(2) by (auto simp: ring_forward_def ring_size_def split: if_splits)
    from less.hyps [OF s1 f(2), of ?out] lo c(4) obtain rb' where
      r: "read_loop n ?out SUCCESS rb1 = Some (SUCCESS, ?out @ take (nat n - length ?out) (ring_content rb1), rb')" "ring_inv rb'"
        "ring_content rb' = drop (nat n - length ?out) (ring_content rb1)" "rb_buffer rb' = rb_buffer rb1" by auto
    have e: "nat n - length out = nat c + (nat n - length ?out)" using lo c by linarith
    have st: "read_loop n out SUCCESS rb = read_loop n ?out SUCCESS rb1"
      using t b(1) b(4) [of "nat c"] c f(1) by (subst read_loop.simps) (simp add: c_def [symmetric])
    have "take (nat n - length out) (ring_content rb) =
        take (nat c) (ring_content rb) @ take (nat n - length ?out) (ring_content rb1)"
      unfolding e f(3) by (rule take_add)
    moreover have "drop (nat n - length out) (ring_content rb) = drop (nat n - length ?out) (ring_content rb1)"
      unfolding e f(3) by (simp add: add.commute)
    ultimately show ?thesis using r st f(4) by simp
  qed
qed

text \<open>Writing a piece behind the contents that fits before the end of the array.\<close>

lemma ring_put:
  assumes inv: "ring_inv rb" and c: "int (length bs) \<le> ring_remain rb" "rb_write_pos rb + int (length bs) \<le> int (length (rb_buffer rb))"
    and ne: "rb_buffer rb \<noteq> []"
  shows "\<exists>buf. mem_write (rb_buffer rb) (nat (rb_write_pos rb)) bs = Some buf \<and>
    (\<forall>rb'. rb' = rb\<lparr>rb_buffer := buf, rb_write_pos := (rb_write_pos rb + int (length bs)) smod ring_capacity rb,
              rb_data_size := rb_data_size rb + int (length bs)\<rparr> \<longrightarrow>
       ring_inv rb' \<and> ring_content rb' = ring_content rb @ bs \<and> length (rb_buffer rb') = length (rb_buffer rb))"
proof -
  let ?n = "length (rb_buffer rb)" and ?l = "length bs" and ?w = "rb_write_pos rb" and ?s = "rb_data_size rb"
  have b: "0 < ?n" "0 \<le> ?s" "?s + int ?l \<le> int ?n" "0 \<le> ?w" "?w < int ?n"
    using inv ne c(1) by (auto simp: ring_inv_def ring_remain_def ring_size_def ring_capacity_eq [OF inv])
  have fit: "nat ?w + ?l \<le> ?n" using c(2) b(4) by linarith
  then obtain buf where w: "mem_write (rb_buffer rb) (nat ?w) bs = Some buf" by (auto simp: mem_write_def)
  have len: "length buf = ?n" by (rule mem_write_length [OF w])
  define rb' where "rb' = rb\<lparr>rb_buffer := buf, rb_write_pos := (?w + int ?l) smod ring_capacity rb, rb_data_size := ?s + int ?l\<rparr>"
  have wp: "rb_write_pos rb' = (?w + int ?l) mod int ?n"
    using b by (simp add: rb'_def ring_capacity_eq [OF inv] smod_pos)
  have inv': "ring_inv rb'"
    using inv b wp len by (auto simp: ring_inv_def rb'_def)
  have "ring_content rb' = ring_content rb @ bs"
  proof (rule nth_equalityI)
    show "length (ring_content rb') = length (ring_content rb @ bs)"
      using b by (simp add: ring_content_def rb'_def nat_add_distrib)
    fix i assume "i < length (ring_content rb')"
    then have i: "int i < ?s + int ?l" using b by (simp add: ring_content_def rb'_def)
    have pos: "(rb_write_pos rb' - rb_data_size rb' + int i) mod int ?n = (?w - ?s + int i) mod int ?n"
    proof -
      have "((?w + int ?l) mod int ?n - (?s + int ?l) + int i) mod int ?n = ((?w + int ?l) mod int ?n + (int i - (?s + int ?l))) mod int ?n"
        by (simp add: algebra_simps)
      also have "\<dots> = (?w + int ?l + (int i - (?s + int ?l))) mod int ?n" by (rule mod_add_left_eq)
      finally show ?thesis unfolding wp by (simp add: rb'_def algebra_simps)
    qed
    let ?p = "nat ((?w - ?s + int i) mod int ?n)"
    have pn: "?p < ?n" using b(1) by (simp add: nat_less_iff)
    have ci: "ring_content rb' ! i = (if nat ?w \<le> ?p \<and> ?p < nat ?w + ?l then bs ! (?p - nat ?w) else rb_buffer rb ! ?p)"
      using ring_content_nth [of i rb'] i pos len mem_write_nth [OF w pn] by (simp add: rb'_def)
    show "ring_content rb' ! i = (ring_content rb @ bs) ! i"
    proof (cases "int i < ?s")
      case True
      have "\<not> (nat ?w \<le> ?p \<and> ?p < nat ?w + ?l)"
      proof
        assume h: "nat ?w \<le> ?p \<and> ?p < nat ?w + ?l"
        define j where "j = int ?p - ?w"
        have j: "0 \<le> j" "j < int ?l" using h b(4) by (auto simp: j_def)
        have "(?w + j) mod int ?n = (?w - ?s + int i) mod int ?n" using b(1) by (simp add: j_def)
        then have "int ?n dvd (?w + j) - (?w - ?s + int i)" by (rule mod_eq_dvd_iff [THEN iffD1])
        then have "int ?n dvd (?s - int i + j)" by (simp add: algebra_simps)
        moreover have "0 < ?s - int i + j" "?s - int i + j < int ?n" using True j b(3) by linarith+
        ultimately show False using zdvd_imp_le by fastforce
      qed
      then have "ring_content rb' ! i = rb_buffer rb ! ?p" unfolding ci by (rule if_not_P)
      moreover have "i < length (ring_content rb)" using True by (simp add: ring_content_def zless_nat_eq_int_zless)
      ultimately show ?thesis using True by (simp add: nth_append ring_content_nth)
    next
      case False
      define j where "j = int i - ?s"
      have j: "0 \<le> j" "j < int ?l" using False i by (simp_all add: j_def)
      have "(?w - ?s + int i) mod int ?n = ?w + j"
        using mod_pos_pos_trivial [of "?w + j" "int ?n"] j b(4) c(2) by (simp add: j_def)
      then have p: "?p = nat ?w + nat j" using b(4) j by (simp add: nat_add_distrib)
      have "length (ring_content rb) = nat ?s" by (simp add: ring_content_def)
      moreover have "i - nat ?s = nat j" using False b(2) by (simp add: j_def nat_diff_distrib)
      moreover have "nat j < length bs" using j by linarith
      then have "ring_content rb' ! i = bs ! nat j" using ci unfolding p by simp
      moreover have "\<not> i < nat ?s" using False b(2) by linarith
      ultimately show ?thesis by (simp add: nth_append)
    qed
  qed
  then show ?thesis using w inv' len unfolding rb'_def by (intro exI [of _ buf]) simp
qed

lemma write_loop_ok:
  assumes "ring_inv rb" "0 \<le> w" "w \<le> n" "n \<le> int (length data)"
  shows "\<exists>rb'. write_loop data n w rb = Some (SUCCESS, w + min (n - w) (ring_remain rb), rb') \<and> ring_inv rb' \<and>
    ring_content rb' = ring_content rb @ take (nat (min (n - w) (ring_remain rb))) (drop (nat w) data) \<and>
    length (rb_buffer rb') = length (rb_buffer rb)"
  using assms
proof (induction "nat (n - w)" arbitrary: rb w rule: less_induct)
  case less
  have rem: "ring_remain rb = int (length (rb_buffer rb)) - rb_data_size rb" "0 \<le> ring_remain rb"
    using less.prems(1) by (simp_all add: ring_remain_def ring_capacity_eq ring_size_def ring_inv_def)
  show ?case
  proof (cases "w < n \<and> ring_remain rb > 0")
    case False
    then have "min (n - w) (ring_remain rb) = 0" using less.prems rem by auto
    then show ?thesis using False less.prems by (simp add: write_loop.simps)
  next
    case True
    let ?c = "int (length (rb_buffer rb))"
    have b: "?c > 0" "0 \<le> rb_data_size rb" "rb_data_size rb < ?c" "0 \<le> rb_write_pos rb" "rb_write_pos rb < ?c"
      using less.prems(1) True rem by (auto simp: ring_inv_def)
    then have ne: "rb_buffer rb \<noteq> []" by auto
    obtain rp where rp: "ring_read_pos rb = Some rp" using ring_read_pos_eq [OF less.prems(1) ne] by blast
    note rc = ring_read_pos_cases [OF less.prems(1) ne rp]
    define t where "t = (if rp \<le> rb_write_pos rb then ring_capacity rb - rb_write_pos rb else rp - rb_write_pos rb)"
    have t: "0 < t" "t \<le> ring_remain rb" "rb_write_pos rb + t \<le> ?c"
      using rc b ring_capacity_eq [OF less.prems(1)] rem unfolding t_def
      by (cases "rb_data_size rb \<le> rb_write_pos rb"; auto)+
    define c where "c = min (n - w) t"
    have c: "0 < c" "c \<le> n - w" "c \<le> t" using True t by (auto simp: c_def)
    let ?bs = "take (nat c) (drop (nat w) data)"
    have lb: "int (length ?bs) = c" using c less.prems by simp
    have "nat w + nat c \<le> length data" using c less.prems by linarith
    then have rd: "mem_read data (nat w) (nat c) = Some ?bs" by simp
    from ring_put [OF less.prems(1) _ _ ne, of ?bs] lb c t obtain buf where
      w: "mem_write (rb_buffer rb) (nat (rb_write_pos rb)) ?bs = Some buf"
      and p: "\<And>rb'. rb' = rb\<lparr>rb_buffer := buf, rb_write_pos := (rb_write_pos rb + c) smod ring_capacity rb, rb_data_size := rb_data_size rb + c\<rparr> \<Longrightarrow>
         ring_inv rb' \<and> ring_content rb' = ring_content rb @ ?bs \<and> length (rb_buffer rb') = length (rb_buffer rb)" by auto
    define rb1 where "rb1 = rb\<lparr>rb_buffer := buf, rb_write_pos := (rb_write_pos rb + c) smod ring_capacity rb, rb_data_size := rb_data_size rb + c\<rparr>"
    note p1 = p [OF rb1_def]
    have st: "write_loop data n w rb = write_loop data n (w + c) rb1"
      using True rp rd w by (subst write_loop.simps) (simp add: t_def [symmetric] c_def [symmetric] rb1_def Let_def)
    have rem1: "ring_remain rb1 = ring_remain rb - c"
      using p1 rem(1) ring_capacity_eq [of rb1] by (simp add: ring_remain_def ring_size_def) (simp add: rb1_def)
    have "nat (n - (w + c)) < nat (n - w)" using c by linarith
    from less.hyps [OF this, of rb1] p1 less.prems c obtain rb' where
      r: "write_loop data n (w + c) rb1 = Some (SUCCESS, w + c + min (n - (w + c)) (ring_remain rb1), rb')" "ring_inv rb'"
        "ring_content rb' = ring_content rb1 @ take (nat (min (n - (w + c)) (ring_remain rb1))) (drop (nat (w + c)) data)"
        "length (rb_buffer rb') = length (rb_buffer rb1)" by auto
    let ?m = "min (n - (w + c)) (ring_remain rb1)"
    have m: "min (n - w) (ring_remain rb) = c + ?m" "0 \<le> ?m" using rem1 c t by auto
    have "take (nat (c + ?m)) (drop (nat w) data) = ?bs @ take (nat ?m) (drop (nat (w + c)) data)"
      using c(1) m(2) less.prems(2) by (simp add: nat_add_distrib take_add add.commute)
    then show ?thesis using st r p1 m by auto
  qed
qed

text \<open>The specification: a queue of at most \<open>cap\<close> bytes.\<close>

datatype ring_op = RWrite "byte list" int | RRead int | RForward int | RClear

fun ring_step :: "ring_op \<Rightarrow> RingBuffer \<Rightarrow> ((RC \<times> int \<times> byte list) \<times> RingBuffer) option" where
  "ring_step (RWrite data n) rb = do { (rc, w, rb') \<leftarrow> ring_write data n rb; Some ((rc, w, []), rb') }"
| "ring_step (RRead n) rb = do { (rc, out, rb') \<leftarrow> ring_read n rb; Some ((rc, int (length out), out), rb') }"
| "ring_step (RForward n) rb = (case ring_forward n rb of (rc, rb') \<Rightarrow> Some ((rc, 0, []), rb'))"
| "ring_step RClear rb = Some ((SUCCESS, 0, []), ring_clear rb)"

fun queue_spec :: "ring_op \<Rightarrow> nat \<times> byte list \<Rightarrow> RC \<times> int \<times> byte list \<Rightarrow> nat \<times> byte list \<Rightarrow> bool" where
  "queue_spec (RWrite data n) (cap, q) r a' \<longleftrightarrow>
     (if n < 0 then r = (INVALID_ARGUMENT, 0, []) \<and> a' = (cap, q)
      else (let k = min (nat n) (cap - length q) in r = (SUCCESS, int k, []) \<and> a' = (cap, q @ take k data)))"
| "queue_spec (RRead n) (cap, q) r a' \<longleftrightarrow>
     (if n < 0 then r = (INVALID_ARGUMENT, 0, []) \<and> a' = (cap, q)
      else r = (SUCCESS, int (length (take (nat n) q)), take (nat n) q) \<and> a' = (cap, drop (nat n) q))"
| "queue_spec (RForward n) (cap, q) r a' \<longleftrightarrow>
     (if 0 < n \<and> n \<le> int (length q) then r = (SUCCESS, 0, []) \<and> a' = (cap, drop (nat n) q)
      else r = (INVALID_ARGUMENT, 0, []) \<and> a' = (cap, q))"
| "queue_spec RClear (cap, q) r a' \<longleftrightarrow> r = (SUCCESS, 0, []) \<and> a' = (cap, [])"

definition ring_abs :: "RingBuffer \<Rightarrow> nat \<times> byte list" where
  "ring_abs rb = (length (rb_buffer rb), ring_content rb)"

text \<open>The caller's memory holds the bytes it announces.\<close>

fun ring_allowed :: "ring_op \<Rightarrow> RingBuffer \<Rightarrow> bool" where
  "ring_allowed (RWrite data n) rb \<longleftrightarrow> n \<le> int (length data)"
| "ring_allowed _ rb \<longleftrightarrow> True"

lemma ring_write_ok:
  assumes "ring_inv rb" "0 \<le> n" "n \<le> int (length data)"
  shows "\<exists>rb'. ring_write data n rb = Some (SUCCESS, min n (ring_remain rb), rb') \<and> ring_inv rb' \<and>
    ring_content rb' = ring_content rb @ take (nat (min n (ring_remain rb))) data \<and> length (rb_buffer rb') = length (rb_buffer rb)"
  using write_loop_ok [of rb 0 n data] assms by (simp add: ring_write_def)

lemma ring_read_ok:
  assumes "ring_inv rb" "0 \<le> n"
  shows "\<exists>rb'. ring_read n rb = Some (SUCCESS, take (nat n) (ring_content rb), rb') \<and> ring_inv rb' \<and>
    ring_content rb' = drop (nat n) (ring_content rb) \<and> rb_buffer rb' = rb_buffer rb"
  using read_loop_ok [of rb "[]" n] assms by (simp add: ring_read_def)

lemma ring_remain_eq:
  assumes "ring_inv rb"
  shows "ring_remain rb = int (length (rb_buffer rb) - length (ring_content rb))" "length (ring_content rb) \<le> length (rb_buffer rb)"
proof -
  show l: "length (ring_content rb) \<le> length (rb_buffer rb)"
    using assms unfolding ring_inv_def ring_content_def by (simp add: nat_le_iff)
  show "ring_remain rb = int (length (rb_buffer rb) - length (ring_content rb))"
    using ring_content_length [OF assms] l by (simp add: ring_remain_def ring_capacity_eq [OF assms])
qed

lemma ring_clear_ok: "ring_inv rb \<Longrightarrow> ring_inv (ring_clear rb)" "ring_content (ring_clear rb) = []"
  by (auto simp: ring_inv_def ring_clear_def ring_content_def)

lemma ring_step_ok:
  assumes inv: "ring_inv rb" and al: "ring_allowed x rb"
  shows "\<exists>r rb'. ring_step x rb = Some (r, rb') \<and> ring_inv rb' \<and> queue_spec x (ring_abs rb) r (ring_abs rb')"
proof (cases x)
  case (RWrite data n)
  show ?thesis
  proof (cases "n < 0")
    case False
    have "nat (min n (ring_remain rb)) = min (nat n) (length (rb_buffer rb) - length (ring_content rb))"
      "min n (ring_remain rb) = int (min (nat n) (length (rb_buffer rb) - length (ring_content rb)))"
      using ring_remain_eq [OF inv] False by auto
    with ring_write_ok [OF inv, of n data] False al RWrite show ?thesis by (auto simp: ring_abs_def Let_def)
  qed (use inv RWrite in \<open>simp add: ring_write_def ring_abs_def\<close>)
next
  case (RRead n)
  show ?thesis
  proof (cases "n < 0")
    case False
    with ring_read_ok [OF inv, of n] RRead show ?thesis by (auto simp: ring_abs_def)
  qed (use inv RRead in \<open>simp add: ring_read_def ring_abs_def\<close>)
next
  case (RForward n)
  show ?thesis
  proof (cases "0 < n \<and> n \<le> int (length (ring_content rb))")
    case True
    with ring_forward_ok [OF inv, of n] RForward inv show ?thesis by (auto simp: ring_abs_def)
  next
    case False
    with ring_forward_refused [of n rb] RForward inv show ?thesis by (auto simp: ring_abs_def)
  qed
next
  case RClear
  then show ?thesis using ring_clear_ok [of rb] inv by (simp add: ring_abs_def) (simp add: ring_clear_def)
qed

interpretation ring: refining_machine ring_step ring_inv ring_allowed ring_abs queue_spec
proof
  fix s x r s'
  assume inv: "ring_inv s" and al: "ring_allowed x s"
  note ok = ring_step_ok [OF inv al]
  show "\<exists>r s'. ring_step x s = Some (r, s')" using ok by blast
  show "ring_step x s = Some (r, s') \<Longrightarrow> ring_inv s'" using ok by auto
  show "ring_step x s = Some (r, s') \<Longrightarrow> queue_spec x (ring_abs s) r (ring_abs s')" using ok by auto
qed

text \<open>
  C21. The ring buffer is a bounded queue of bytes: any sequence of writes, reads, forwards and
  clears returns, a write appends as many bytes as there is room for, a read takes the oldest
  ones, wherever the positions wrap around, and nothing outside the array is touched.
\<close>

theorem ring_buffer_refines_queue:
  assumes "ring_inv rb" "allowed_run ring_step ring_allowed ops rb"
  shows "\<exists>rs rb'. run_ops ring_step ops rb = Some (rs, rb') \<and> ring_inv rb' \<and> spec_run queue_spec ops (ring_abs rb) rs (ring_abs rb')"
  by (rule ring.run_refines [OF assms])

lemma ring_new_ok: "0 \<le> n \<Longrightarrow> n \<le> 2 ^ 30 \<Longrightarrow> ring_inv (RingBuffer_new n)" "ring_abs (RingBuffer_new n) = (nat n, [])"
  by (auto simp: ring_inv_def RingBuffer_new_def ring_abs_def ring_content_def)

theorem ring_buffer_refines_queue_witness:
  "\<exists>rb'. run_ops ring_step [RWrite [1, 2, 3, 4] 4, RRead 2, RWrite [5, 6] 2] (RingBuffer_new 3) =
      Some ([(SUCCESS, 3, []), (SUCCESS, 2, [1, 2]), (SUCCESS, 2, [])], rb') \<and> ring_abs rb' = (3, [3, 5, 6])"
proof -
  let ?ops = "[RWrite [1, 2, 3, 4] 4, RRead 2, RWrite [5, 6] 2]"
  have i: "ring_inv (RingBuffer_new 3)" using ring_new_ok(1) [of 3] by simp
  have a: "allowed_run ring_step ring_allowed ?ops (RingBuffer_new 3)" by (auto split: option.splits prod.splits)
  from ring_buffer_refines_queue [OF i a] obtain rs rb' where
    "run_ops ring_step ?ops (RingBuffer_new 3) = Some (rs, rb')" "spec_run queue_spec ?ops (3, []) rs (ring_abs rb')"
    using ring_new_ok(2) [of 3] by auto
  then show ?thesis by (auto simp: Let_def)
qed

section \<open>The writer loses nothing\<close>

definition writer_inv :: "BufferedWriter \<Rightarrow> bool" where
  "writer_inv bw \<longleftrightarrow> ring_inv (bw_buffer bw) \<and> rb_buffer (bw_buffer bw) \<noteq> [] \<and> bw_fd bw \<ge> 0"

text \<open>What was sent and what is still to be sent.\<close>

definition writer_stream :: "BufferedWriter \<Rightarrow> byte list" where
  "writer_stream bw = bw_sent bw @ ring_content (bw_buffer bw)"

text \<open>How many of the kernel's answers take a byte.\<close>

fun progress :: "write_answer list \<Rightarrow> nat" where
  "progress [] = 0"
| "progress (Accept m # ks) = (if m = 0 then 0 else 1) + progress ks"
| "progress (_ # ks) = progress ks"

lemma write_call_cases:
  assumes "0 < n"
  shows "case write_call n ks of
      None \<Rightarrow> progress ks = 0
    | Some (None, ks') \<Rightarrow> True
    | Some (Some m, ks') \<Rightarrow> 0 < m \<and> m \<le> n \<and> progress ks = Suc (progress ks')"
  using assms by (induction n ks rule: write_call.induct) (auto simp: min_def split: option.splits if_splits)

text \<open>
  A step of the writer: the stream only grows by what was accepted, the buffer keeps its size,
  and as long as it succeeds every answer that took a byte is accounted for by a byte sent.
\<close>

definition writer_step :: "byte list \<Rightarrow> RC \<Rightarrow> BufferedWriter \<Rightarrow> BufferedWriter \<Rightarrow> bool" where
  "writer_step bs rc bw bw' \<longleftrightarrow> writer_inv bw' \<and> writer_stream bw' = writer_stream bw @ bs \<and>
     length (rb_buffer (bw_buffer bw')) = length (rb_buffer (bw_buffer bw)) \<and> rc \<in> {SUCCESS, IOERR_WRITE} \<and>
     length (bw_sent bw) \<le> length (bw_sent bw') \<and>
     (rc = SUCCESS \<longrightarrow> progress (bw_kernel bw) + length (bw_sent bw) \<le> progress (bw_kernel bw') + length (bw_sent bw'))"

lemma writer_step_trans:
  "writer_step xs SUCCESS a b \<Longrightarrow> writer_step ys rc b c \<Longrightarrow> writer_step (xs @ ys) rc a c"
  by (auto simp: writer_step_def)

lemma writer_step_refl [simp]: "writer_inv bw \<Longrightarrow> writer_step [] SUCCESS bw bw"
  by (simp add: writer_step_def)

text \<open>A loop of the writer returns, or the kernel's answers run out.\<close>

definition writer_returns :: "(RC \<Rightarrow> BufferedWriter \<Rightarrow> bool) \<Rightarrow> nat \<Rightarrow> BufferedWriter \<Rightarrow> (RC \<times> BufferedWriter) option \<Rightarrow> bool" where
  "writer_returns P need bw r \<longleftrightarrow> (case r of None \<Rightarrow> progress (bw_kernel bw) < need | Some (rc, bw') \<Rightarrow> P rc bw')"

lemma flush_internal_loop_ok:
  assumes "writer_inv bw"
  shows "writer_returns (\<lambda>rc bw'. writer_step [] rc bw bw' \<and>
      (rc = SUCCESS \<longrightarrow> (ring_content (bw_buffer bw') = [] \<or> n \<le> w + int (length (bw_sent bw') - length (bw_sent bw)))))
    (length (ring_content (bw_buffer bw))) bw (flush_internal_loop n w bw)"
  using assms
proof (induction "length (ring_content (bw_buffer bw))" arbitrary: bw w rule: less_induct)
  case less
  have inv: "ring_inv (bw_buffer bw)" using less.prems by (simp add: writer_inv_def)
  note sz = ring_content_length [OF inv]
  show ?case
  proof (cases "ring_size (bw_buffer bw) > 0 \<and> n > w")
    case False
    then have "ring_content (bw_buffer bw) = [] \<or> n \<le> w"
      using sz by (cases "ring_content (bw_buffer bw)") auto
    then show ?thesis using False less.prems by (auto simp: flush_internal_loop.simps writer_returns_def)
  next
    case True
    from ring_buffer_ok [OF inv] True obtain p m where
      b: "ring_buffer (bw_buffer bw) = Some (SUCCESS, p, m)" "0 < m" "m \<le> ring_size (bw_buffer bw)"
        "\<And>k. int k \<le> m \<Longrightarrow> mem_read (rb_buffer (bw_buffer bw)) (nat p) k = Some (take k (ring_content (bw_buffer bw)))" by blast
    from write_call_cases [of "nat m" "bw_kernel bw"] b(2) consider
      (stuck) "write_call (nat m) (bw_kernel bw) = None" "progress (bw_kernel bw) = 0"
      | (broken) ks where "write_call (nat m) (bw_kernel bw) = Some (None, ks)"
      | (sent) k ks where "write_call (nat m) (bw_kernel bw) = Some (Some k, ks)" "0 < k" "k \<le> nat m"
          "progress (bw_kernel bw) = Suc (progress ks)"
      by (cases "write_call (nat m) (bw_kernel bw)"; cases "fst (the (write_call (nat m) (bw_kernel bw)))") auto
    then show ?thesis
    proof cases
      case stuck
      then show ?thesis using True b(1) sz by (subst flush_internal_loop.simps) (auto simp: writer_returns_def)
    next
      case broken
      then show ?thesis using True b(1) less.prems
        by (subst flush_internal_loop.simps) (auto simp: writer_returns_def writer_step_def writer_inv_def writer_stream_def)
    next
      case sent
      have k: "0 < int k" "int k \<le> ring_size (bw_buffer bw)" "int k \<le> m" using sent b(3) by linarith+
      from ring_forward_ok [OF inv k(1,2)] obtain rb' where
        f: "ring_forward (int k) (bw_buffer bw) = (SUCCESS, rb')" "ring_inv rb'"
          "ring_content rb' = drop k (ring_content (bw_buffer bw))" "rb_buffer rb' = rb_buffer (bw_buffer bw)" by auto
      let ?bs = "take k (ring_content (bw_buffer bw))"
      define bw1 where "bw1 = bw\<lparr>bw_kernel := ks, bw_sent := bw_sent bw @ ?bs, bw_buffer := rb'\<rparr>"
      have lk: "k \<le> length (ring_content (bw_buffer bw))" using k(2) sz by linarith
      have st: "flush_internal_loop n w bw = flush_internal_loop n (w + int k) bw1"
        using True b(1) b(4) [OF k(3)] sent(1) f(1) by (subst flush_internal_loop.simps) (simp add: bw1_def)
      have s1: "writer_step [] SUCCESS bw bw1"
        using less.prems f sent lk by (auto simp: writer_step_def writer_inv_def writer_stream_def bw1_def)
      have "length (ring_content (bw_buffer bw1)) < length (ring_content (bw_buffer bw))"
        using f(3) sent(2) lk by (simp add: bw1_def)
      from less.hyps [OF this, of "w + int k"] s1 have
        r: "writer_returns (\<lambda>rc bw'. writer_step [] rc bw1 bw' \<and> (rc = SUCCESS \<longrightarrow>
            (ring_content (bw_buffer bw') = [] \<or> n \<le> w + int k + int (length (bw_sent bw') - length (bw_sent bw1)))))
          (length (ring_content (bw_buffer bw1))) bw1 (flush_internal_loop n (w + int k) bw1)"
        by (simp add: writer_step_def)
      have l1: "length (bw_sent bw1) = length (bw_sent bw) + k" using lk by (simp add: bw1_def)
      show ?thesis
      proof (cases "flush_internal_loop n (w + int k) bw1")
        case None
        then show ?thesis using r st sent(4) f(3) lk sent(2) by (simp add: writer_returns_def bw1_def)
      next
        case (Some res)
        obtain rc bw' where res: "res = (rc, bw')" by (cases res)
        with r Some have q: "writer_step [] rc bw1 bw'"
          "rc = SUCCESS \<longrightarrow> (ring_content (bw_buffer bw') = [] \<or> n \<le> w + int k + int (length (bw_sent bw') - length (bw_sent bw1)))"
          by (auto simp: writer_returns_def)
        have "length (bw_sent bw1) \<le> length (bw_sent bw')" using q(1) by (simp add: writer_step_def)
        then have "int k + int (length (bw_sent bw') - length (bw_sent bw1)) = int (length (bw_sent bw') - length (bw_sent bw))"
          using l1 by simp
        then show ?thesis using q writer_step_trans [OF s1 q(1)] st Some res by (auto simp: writer_returns_def)
      qed
    qed
  qed
qed

lemma flush_internal_ok:
  assumes inv: "writer_inv bw" and ret: "flush_internal n bw = Some (rc, bw')"
  shows "writer_step [] rc bw bw'"
    "rc = SUCCESS \<Longrightarrow> 0 < n \<Longrightarrow> ring_content (bw_buffer bw) \<noteq> [] \<Longrightarrow>
       length (ring_content (bw_buffer bw')) < length (ring_content (bw_buffer bw))"
proof -
  have "flush_internal_loop n 0 bw = Some (rc, bw')" using inv ret by (simp add: flush_internal_def writer_inv_def)
  with flush_internal_loop_ok [OF inv, of n 0] have
    q: "writer_step [] rc bw bw'" "rc = SUCCESS \<longrightarrow> (ring_content (bw_buffer bw') = [] \<or> n \<le> int (length (bw_sent bw') - length (bw_sent bw)))"
    by (auto simp: writer_returns_def)
  show "writer_step [] rc bw bw'" by (rule q(1))
  assume a: "rc = SUCCESS" "0 < n" "ring_content (bw_buffer bw) \<noteq> []"
  have l: "length (bw_sent bw') + length (ring_content (bw_buffer bw')) = length (bw_sent bw) + length (ring_content (bw_buffer bw))"
  proof -
    from q(1) have "length (writer_stream bw') = length (writer_stream bw)" by (simp add: writer_step_def)
    then show ?thesis by (simp add: writer_stream_def)
  qed
  show "length (ring_content (bw_buffer bw')) < length (ring_content (bw_buffer bw))"
  proof (cases "ring_content (bw_buffer bw') = []")
    case True
    then show ?thesis using a(3) by simp
  next
    case False
    then have "0 < length (bw_sent bw') - length (bw_sent bw)" using q(2) a by auto
    then show ?thesis using l by linarith
  qed
qed

lemma flush_internal_returns:
  assumes "writer_inv bw" "length (ring_content (bw_buffer bw)) \<le> progress (bw_kernel bw)"
  shows "\<exists>rc bw'. flush_internal n bw = Some (rc, bw')"
  using flush_internal_loop_ok [OF assms(1), of n 0] assms
  by (auto simp: writer_returns_def flush_internal_def writer_inv_def split: option.splits)

lemma writer_step_need:
  "writer_step bs SUCCESS bw bw' \<Longrightarrow> length (ring_content (bw_buffer bw)) + k \<le> progress (bw_kernel bw) \<Longrightarrow>
     length (ring_content (bw_buffer bw')) + k \<le> progress (bw_kernel bw') + length bs"
proof -
  assume s: "writer_step bs SUCCESS bw bw'" and k: "length (ring_content (bw_buffer bw)) + k \<le> progress (bw_kernel bw)"
  from s have "length (writer_stream bw') = length (writer_stream bw) + length bs"
    "progress (bw_kernel bw) + length (bw_sent bw) \<le> progress (bw_kernel bw') + length (bw_sent bw')" by (simp_all add: writer_step_def)
  with k show ?thesis by (simp add: writer_stream_def)
qed

lemma buffered_flush_loop_ok:
  assumes "writer_inv bw" "length (ring_content (bw_buffer bw)) + k \<le> progress (bw_kernel bw)"
  shows "\<exists>rc bw'. buffered_flush_loop SUCCESS bw = Some (rc, bw') \<and> writer_step [] rc bw bw' \<and>
    (rc = SUCCESS \<longrightarrow> ring_content (bw_buffer bw') = [])"
  using assms
proof (induction "length (ring_content (bw_buffer bw))" arbitrary: bw rule: less_induct)
  case less
  have sz: "int (length (ring_content (bw_buffer bw))) = ring_size (bw_buffer bw)"
    using less.prems(1) by (simp add: writer_inv_def)
  show ?case
  proof (cases "ring_content (bw_buffer bw) = []")
    case True
    then show ?thesis using less.prems(1) sz by (simp add: buffered_flush_loop.simps)
  next
    case False
    then have pos: "0 < ring_size (bw_buffer bw)" using sz by (metis length_greater_0_conv of_nat_0_less_iff)
    from flush_internal_returns [OF less.prems(1), of "ring_size (bw_buffer bw)"] less.prems(2) obtain rc bw1 where
      f: "flush_internal (ring_size (bw_buffer bw)) bw = Some (rc, bw1)" by auto
    note s = flush_internal_ok [OF less.prems(1) f]
    have st: "buffered_flush_loop SUCCESS bw = buffered_flush_loop rc bw1"
      using pos f by (subst buffered_flush_loop.simps) simp
    show ?thesis
    proof (cases "rc = SUCCESS")
      case ok: True
      have "length (ring_content (bw_buffer bw1)) < length (ring_content (bw_buffer bw))" using s(2) ok pos False by simp
      moreover have "writer_inv bw1" "length (ring_content (bw_buffer bw1)) + k \<le> progress (bw_kernel bw1)"
        using s(1) ok writer_step_need [of "[]" bw bw1 k] less.prems(2) by (simp_all add: writer_step_def)
      ultimately obtain rc' bw' where
        r: "buffered_flush_loop SUCCESS bw1 = Some (rc', bw')" "writer_step [] rc' bw1 bw'" "rc' = SUCCESS \<longrightarrow> ring_content (bw_buffer bw') = []"
        using less.hyps by blast
      then show ?thesis using st ok writer_step_trans [of "[]" bw bw1 "[]"] s(1) by auto
    next
      case False
      then show ?thesis using st s(1) by (simp add: buffered_flush_loop.simps)
    qed
  qed
qed

lemma ring_remain_pos: "ring_inv rb \<Longrightarrow> 0 < ring_remain rb \<longleftrightarrow> length (ring_content rb) < length (rb_buffer rb)"
  using ring_remain_eq(1) [of rb] by (simp del: ring_content_length)

lemma buffered_write_ok:
  assumes inv: "writer_inv bw" and n: "0 < n" "n \<le> int (length data)"
    and need: "length (ring_content (bw_buffer bw)) + k \<le> progress (bw_kernel bw)"
  shows "\<exists>rc m bw'. buffered_write data n bw = Some (rc, m, bw') \<and> 0 \<le> m \<and> m \<le> n \<and> writer_step (take (nat m) data) rc bw bw' \<and>
    (rc = SUCCESS \<longrightarrow> 0 < m)"
proof -
  let ?c = "ring_content (bw_buffer bw)"
  have ri: "ring_inv (bw_buffer bw)" "rb_buffer (bw_buffer bw) \<noteq> []" "bw_fd bw \<ge> 0" using inv by (simp_all add: writer_inv_def)
  obtain rc bw1 where f: "(if ring_remain (bw_buffer bw) = 0 then flush_internal n bw else Some (SUCCESS, bw)) = Some (rc, bw1)"
      "writer_step [] rc bw bw1" "rc = SUCCESS \<longrightarrow> ring_remain (bw_buffer bw1) > 0"
  proof (cases "ring_remain (bw_buffer bw) = 0")
    case True
    from flush_internal_returns [OF inv, of n] need obtain rc bw1 where r: "flush_internal n bw = Some (rc, bw1)" by auto
    note s = flush_internal_ok [OF inv r]
    have "?c \<noteq> []" using True ring_remain_eq [OF ri(1)] ri(2) by auto
    then have "rc = SUCCESS \<Longrightarrow> length (ring_content (bw_buffer bw1)) < length ?c" using s(2) n(1) by blast
    moreover have "ring_inv (bw_buffer bw1)" "length (rb_buffer (bw_buffer bw1)) = length (rb_buffer (bw_buffer bw))"
      using s(1) by (simp_all add: writer_step_def writer_inv_def)
    ultimately have "rc = SUCCESS \<Longrightarrow> ring_remain (bw_buffer bw1) > 0"
      using ring_remain_pos [of "bw_buffer bw1"] ring_remain_eq(2) [OF ri(1)] by simp
    then show ?thesis using that [of rc bw1] True r s(1) by simp
  next
    case False
    then show ?thesis using that [of SUCCESS bw] inv ring_remain_eq [OF ri(1)] by simp
  qed
  show ?thesis
  proof (cases "rc = SUCCESS")
    case False
    then show ?thesis using f ri n by (auto simp: buffered_write_def)
  next
    case True
    have i1: "ring_inv (bw_buffer bw1)" "writer_inv bw1" using f(2) by (simp_all add: writer_step_def writer_inv_def)
    let ?m = "min n (ring_remain (bw_buffer bw1))"
    from ring_write_ok [OF i1(1), of n data] n obtain rb' where
      w: "ring_write data n (bw_buffer bw1) = Some (SUCCESS, ?m, rb')" "ring_inv rb'"
        "ring_content rb' = ring_content (bw_buffer bw1) @ take (nat ?m) data" "length (rb_buffer rb') = length (rb_buffer (bw_buffer bw1))"
      by auto
    have "writer_step (take (nat ?m) data) SUCCESS bw1 (bw1\<lparr>bw_buffer := rb'\<rparr>)"
      using w i1 by (auto simp: writer_step_def writer_inv_def writer_stream_def)
    from writer_step_trans [OF f(2) [unfolded True] this] show ?thesis
      using f True ri w n by (auto simp: buffered_write_def min_def)
  qed
qed

lemma writen_loop_ok:
  assumes "writer_inv bw" "0 \<le> w" "w \<le> n" "n \<le> int (length data)"
    "length (ring_content (bw_buffer bw)) + nat (n - w) + k \<le> progress (bw_kernel bw)"
  shows "\<exists>rc j bw'. writen_loop data n w bw = Some (rc, bw') \<and> j \<le> nat (n - w) \<and>
    writer_step (take j (drop (nat w) data)) rc bw bw' \<and> (rc = SUCCESS \<longrightarrow> j = nat (n - w))"
  using assms
proof (induction "nat (n - w)" arbitrary: bw w rule: less_induct)
  case less
  show ?case
  proof (cases "w < n")
    case False
    then show ?thesis using less.prems by (simp add: writen_loop.simps)
  next
    case True
    have "0 < n - w" "n - w \<le> int (length (drop (nat w) data))" using True less.prems by simp_all
    from buffered_write_ok [OF less.prems(1) this, of "nat (n - w) + k"] less.prems(5) obtain rc m bw1 where
      s: "buffered_write (drop (nat w) data) (n - w) bw = Some (rc, m, bw1)" "0 \<le> m" "m \<le> n - w"
        "writer_step (take (nat m) (drop (nat w) data)) rc bw bw1" "rc = SUCCESS \<longrightarrow> 0 < m" by auto
    have st: "writen_loop data n w bw = (if OB_FAIL rc then Some (rc, bw1) else writen_loop data n (w + m) bw1)"
      using True s(1) by (subst writen_loop.simps) simp
    show ?thesis
    proof (cases "rc = SUCCESS")
      case False
      then show ?thesis using st s by (intro exI [of _ rc] exI [of _ "nat m"] exI [of _ bw1]) auto
    next
      case ok: True
      have m: "0 < m" using s(5) ok by simp
      have lm: "length (take (nat m) (drop (nat w) data)) = nat m" using s(2,3) less.prems by simp
      have "nat (n - (w + m)) < nat (n - w)" "0 \<le> w + m" "w + m \<le> n" using m s(3) less.prems by linarith+
      moreover have "writer_inv bw1" using s(4) by (simp add: writer_step_def)
      moreover have "length (ring_content (bw_buffer bw1)) + nat (n - (w + m)) + k \<le> progress (bw_kernel bw1)"
        using writer_step_need [OF s(4) [unfolded ok], of "nat (n - w) + k"] less.prems(5) lm s(2,3) by linarith
      ultimately obtain rc' j bw' where
        r: "writen_loop data n (w + m) bw1 = Some (rc', bw')" "j \<le> nat (n - (w + m))"
          "writer_step (take j (drop (nat (w + m)) data)) rc' bw1 bw'" "rc' = SUCCESS \<longrightarrow> j = nat (n - (w + m))"
        using less.hyps [of "w + m" bw1] less.prems(4) by blast
      have "take (nat m) (drop (nat w) data) @ take j (drop (nat (w + m)) data) = take (nat m + j) (drop (nat w) data)"
        using less.prems(2) s(2) by (simp add: take_add [of "nat m" j] nat_add_distrib add.commute [of "nat w"])
      with writer_step_trans [OF s(4) [unfolded ok] r(3)] have "writer_step (take (nat m + j) (drop (nat w) data)) rc' bw bw'" by simp
      moreover have "nat m + j \<le> nat (n - w)" "rc' = SUCCESS \<longrightarrow> nat m + j = nat (n - w)" using r(2,4) s(2,3) by linarith+
      ultimately show ?thesis using st ok r(1) by auto
    qed
  qed
qed

text \<open>A response: the blocks are written one after the other, the first error ends it, then the writer is closed.\<close>

fun writer_send :: "byte list list \<Rightarrow> BufferedWriter \<Rightarrow> (RC \<times> BufferedWriter) option" where
  "writer_send [] bw = buffered_close bw"
| "writer_send (d # ds) bw = do {
     (rc, bw') \<leftarrow> writen d (int (length d)) bw;
     if OB_FAIL rc then Some (rc, bw') else writer_send ds bw'
   }"

lemma writer_send_ok:
  assumes "writer_inv bw" "length (ring_content (bw_buffer bw)) + length (concat ds) \<le> progress (bw_kernel bw)"
  shows "\<exists>rc bw' rest. writer_send ds bw = Some (rc, bw') \<and> bw_sent bw' @ rest = writer_stream bw @ concat ds \<and>
    (rc = SUCCESS \<longrightarrow> rest = [])"
  using assms
proof (induction ds arbitrary: bw)
  case Nil
  from buffered_flush_loop_ok [OF Nil.prems(1), of 0] Nil.prems(2) obtain rc bw' where
    f: "buffered_flush_loop SUCCESS bw = Some (rc, bw')" "writer_step [] rc bw bw'" "rc = SUCCESS \<longrightarrow> ring_content (bw_buffer bw') = []"
    by auto
  have "bw_fd bw \<ge> 0" using Nil.prems(1) by (simp add: writer_inv_def)
  then show ?case using f by (auto simp: buffered_close_def buffered_flush_def writer_step_def writer_stream_def)
next
  case (Cons d ds)
  have fd: "bw_fd bw \<ge> 0" using Cons.prems(1) by (simp add: writer_inv_def)
  from writen_loop_ok [OF Cons.prems(1), of 0 "int (length d)" d "length (concat ds)"] Cons.prems(2) obtain rc j bw1 where
    w: "writen_loop d (int (length d)) 0 bw = Some (rc, bw1)" "j \<le> length d" "writer_step (take j d) rc bw bw1" "rc = SUCCESS \<longrightarrow> j = length d"
    by auto
  have st: "writen d (int (length d)) bw = Some (rc, bw1)" using fd w(1) by (simp add: writen_def)
  show ?case
  proof (cases "rc = SUCCESS")
    case False
    have "writer_stream bw1 = writer_stream bw @ take j d" using w(3) by (simp add: writer_step_def)
    then have "bw_sent bw1 @ (ring_content (bw_buffer bw1) @ drop j d @ concat ds) = (writer_stream bw @ take j d) @ drop j d @ concat ds"
      unfolding writer_stream_def [of bw1] by (metis append_assoc)
    also have "\<dots> = writer_stream bw @ concat (d # ds)" by (metis append_assoc append_take_drop_id concat.simps(2))
    finally show ?thesis using st False
      by (intro exI [of _ rc] exI [of _ bw1] exI [of _ "ring_content (bw_buffer bw1) @ drop j d @ concat ds"]) simp
  next
    case True
    have s: "writer_step d SUCCESS bw bw1" using w True by simp
    from writer_step_need [OF s, of "length (concat (d # ds))"] Cons.prems(2) have
      "length (ring_content (bw_buffer bw1)) + length (concat ds) \<le> progress (bw_kernel bw1)" by simp
    with Cons.IH [of bw1] s obtain rc' bw' rest where
      "writer_send ds bw1 = Some (rc', bw')" "bw_sent bw' @ rest = writer_stream bw1 @ concat ds" "rc' = SUCCESS \<longrightarrow> rest = []"
      by (auto simp: writer_step_def)
    then show ?thesis using st True s by (auto simp: writer_step_def)
  qed
qed

text \<open>
  C22. A response sent in blocks through the buffered writer: when the kernel takes bytes often
  enough, all calls return, with short writes and interrupted calls at any point; what the
  descriptor receives is always a prefix of the bytes buffered before and the blocks in order,
  and it is all of them when the last code is \<open>SUCCESS\<close>.
\<close>

theorem buffered_writer_delivers:
  assumes "writer_inv bw" "length (ring_content (bw_buffer bw)) + length (concat ds) \<le> progress (bw_kernel bw)"
  shows "\<exists>rc bw' rest. writer_send ds bw = Some (rc, bw') \<and> bw_sent bw' @ rest = writer_stream bw @ concat ds \<and>
    (rc = SUCCESS \<longrightarrow> rest = [])"
  by (rule writer_send_ok [OF assms])

theorem buffered_writer_delivers_witness:
  "\<exists>rc bw' rest. writer_send [[1, 2], [3]] \<lparr>bw_fd = 3, bw_buffer = RingBuffer_new 2, bw_sent = [], bw_kernel = [Retry, Accept 1, Accept 0, Accept 1, Accept 9]\<rparr> =
      Some (rc, bw') \<and> bw_sent bw' @ rest = [1, 2, 3]"
proof -
  let ?bw = "\<lparr>bw_fd = 3, bw_buffer = RingBuffer_new 2, bw_sent = [], bw_kernel = [Retry, Accept 1, Accept 0, Accept 1, Accept 9]\<rparr>"
  have c: "ring_content (RingBuffer_new 2) = []" using ring_new_ok(2) [of 2] by (simp add: ring_abs_def)
  have i: "writer_inv ?bw" using ring_new_ok(1) [of 2] by (simp add: writer_inv_def) (simp add: RingBuffer_new_def)
  from buffered_writer_delivers [OF i, of "[[1, 2], [3]]"] show ?thesis by (auto simp: c writer_stream_def)
qed

end
