(* ===== verification/LruCache.thy ===== *)
theory LruCache
  imports BufferPool
begin

text \<open>
  The LRU cache of \<open>deps/common/lang/lru_cache.h\<close> with its nodes in memory: a doubly linked list
  threaded through the nodes of an unordered set. An address is a number, the heap a partial map,
  and reading through a null or dangling pointer has no outcome. The frame manager uses the cache
  through the list of its entries (\<^const>\<open>lru_touch\<close>, \<^const>\<open>lru_put\<close>, \<^const>\<open>lru_remove\<close>); this
  theory shows that the linked nodes implement them.
\<close>

section \<open>Nodes\<close>

type_synonym addr = nat

record ('k, 'v) ListNode =
  ln_key :: 'k
  ln_value :: 'v
  ln_prev :: "addr option"
  ln_next :: "addr option"

type_synonym ('k, 'v) node_heap = "addr \<rightharpoonup> ('k, 'v) ListNode"

record ('k, 'v) LruCache =
  lc_heap :: "('k, 'v) node_heap"
  lc_searcher :: "addr list"  \<comment> \<open>\<open>searcher_\<close>\<close>
  lc_front :: "addr option"  \<comment> \<open>\<open>lru_front_\<close>\<close>
  lc_tail :: "addr option"  \<comment> \<open>\<open>lru_tail_\<close>\<close>

definition node_upd :: "addr option \<Rightarrow> (('k, 'v) ListNode \<Rightarrow> ('k, 'v) ListNode) \<Rightarrow> ('k, 'v) node_heap \<Rightarrow> ('k, 'v) node_heap option" where
  "node_upd p f h = do { a \<leftarrow> p; n \<leftarrow> h a; Some (h(a \<mapsto> f n)) }"

section \<open>The operations\<close>

definition node_touch :: "addr \<Rightarrow> ('k, 'v) LruCache \<Rightarrow> ('k, 'v) LruCache option" where
  "node_touch a c = do {
     n \<leftarrow> lc_heap c a;
     if ln_prev n = None then Some c
     else do {
       h1 \<leftarrow> node_upd (ln_prev n) (ln_next_update (\<lambda>_. ln_next n)) (lc_heap c);
       n1 \<leftarrow> h1 a;
       c2 \<leftarrow> (if ln_next n1 \<noteq> None
          then do { h2 \<leftarrow> node_upd (ln_next n1) (ln_prev_update (\<lambda>_. ln_prev n1)) h1; Some (c\<lparr>lc_heap := h2\<rparr>) }
          else Some (c\<lparr>lc_heap := h1, lc_tail := ln_prev n1\<rparr>));
       h3 \<leftarrow> node_upd (Some a) (\<lambda>n. n\<lparr>ln_prev := None, ln_next := lc_front c2\<rparr>) (lc_heap c2);
       h4 \<leftarrow> (if lc_front c2 \<noteq> None then node_upd (lc_front c2) (ln_prev_update (\<lambda>_. Some a)) h3 else Some h3);
       Some (c2\<lparr>lc_heap := h4, lc_front := Some a\<rparr>)
     }
   }"

definition node_push :: "addr \<Rightarrow> ('k, 'v) LruCache \<Rightarrow> ('k, 'v) LruCache option" where
  "node_push a c = do {
     let c1 = (if lc_tail c = None then c\<lparr>lc_tail := Some a\<rparr> else c);
     h1 \<leftarrow> node_upd (Some a) (\<lambda>n. n\<lparr>ln_prev := None, ln_next := lc_front c1\<rparr>) (lc_heap c1);
     h2 \<leftarrow> (if lc_front c1 \<noteq> None then node_upd (lc_front c1) (ln_prev_update (\<lambda>_. Some a)) h1 else Some h1);
     Some (c1\<lparr>lc_heap := h2, lc_front := Some a, lc_searcher := a # lc_searcher c1\<rparr>)
   }"

definition node_remove :: "addr \<Rightarrow> ('k, 'v) LruCache \<Rightarrow> ('k, 'v) LruCache option" where
  "node_remove a c = do {
     n \<leftarrow> lc_heap c a;
     h1 \<leftarrow> (if ln_prev n \<noteq> None then node_upd (ln_prev n) (ln_next_update (\<lambda>_. ln_next n)) (lc_heap c) else Some (lc_heap c));
     n1 \<leftarrow> h1 a;
     h2 \<leftarrow> (if ln_next n1 \<noteq> None then node_upd (ln_next n1) (ln_prev_update (\<lambda>_. ln_prev n1)) h1 else Some h1);
     n2 \<leftarrow> h2 a;
     let front = (if lc_front c = Some a then ln_next n2 else lc_front c);
     let tail = (if lc_tail c = Some a then ln_prev n2 else lc_tail c);
     Some (c\<lparr>lc_heap := h2(a := None), lc_front := front, lc_tail := tail, lc_searcher := filter (\<lambda>b. b \<noteq> a) (lc_searcher c)\<rparr>)
   }"

text \<open>\<open>searcher_.find\<close>: the node with an equal key.\<close>

definition cache_find :: "'k \<Rightarrow> ('k, 'v) LruCache \<Rightarrow> addr option" where
  "cache_find k c = List.find (\<lambda>a. case lc_heap c a of None \<Rightarrow> False | Some n \<Rightarrow> ln_key n = k) (lc_searcher c)"

definition cache_get :: "'k \<Rightarrow> ('k, 'v) LruCache \<Rightarrow> ('v option \<times> ('k, 'v) LruCache) option" where
  "cache_get k c = (case cache_find k c of
     None \<Rightarrow> Some (None, c)
   | Some a \<Rightarrow> do { c' \<leftarrow> node_touch a c; n \<leftarrow> lc_heap c' a; Some (Some (ln_value n), c') })"

text \<open>\<open>fresh\<close> is the address \<open>new\<close> returns.\<close>

definition cache_put :: "addr \<Rightarrow> 'k \<Rightarrow> 'v \<Rightarrow> ('k, 'v) LruCache \<Rightarrow> ('k, 'v) LruCache option" where
  "cache_put fresh k v c = (case cache_find k c of
     Some a \<Rightarrow> do {
       h \<leftarrow> node_upd (Some a) (ln_value_update (\<lambda>_. v)) (lc_heap c);
       node_touch a (c\<lparr>lc_heap := h\<rparr>)
     }
   | None \<Rightarrow> node_push fresh (c\<lparr>lc_heap := (lc_heap c)(fresh \<mapsto>
       \<lparr>ln_key = k, ln_value = v, ln_prev = None, ln_next = None\<rparr>)\<rparr>))"

definition cache_remove :: "'k \<Rightarrow> ('k, 'v) LruCache \<Rightarrow> ('k, 'v) LruCache option" where
  "cache_remove k c = (case cache_find k c of None \<Rightarrow> Some c | Some a \<Rightarrow> node_remove a c)"

definition cache_count :: "('k, 'v) LruCache \<Rightarrow> nat" where
  "cache_count c = length (lc_searcher c)"

definition cache_destroy :: "('k, 'v) LruCache \<Rightarrow> ('k, 'v) LruCache" where
  "cache_destroy c = c\<lparr>lc_heap := (\<lambda>a. if a \<in> set (lc_searcher c) then None else lc_heap c a), lc_searcher := [],
     lc_front := None, lc_tail := None\<rparr>"

text \<open>The visitor carries a state of its own and says whether to go on.\<close>

partial_function (option) foreach_from ::
    "(('k, 'v) ListNode \<Rightarrow> addr option) \<Rightarrow> ('k \<Rightarrow> 'v \<Rightarrow> 's \<Rightarrow> bool \<times> 's) \<Rightarrow> ('k, 'v) node_heap \<Rightarrow> addr option \<Rightarrow> 's \<Rightarrow> 's option" where
  "foreach_from step func h p s =
     (case p of
        None \<Rightarrow> Some s
      | Some a \<Rightarrow> Option.bind (h a) (\<lambda>n.
          (case func (ln_key n) (ln_value n) s of (ret, s') \<Rightarrow> if \<not> ret then Some s' else foreach_from step func h (step n) s')))"

definition cache_foreach :: "('k \<Rightarrow> 'v \<Rightarrow> 's \<Rightarrow> bool \<times> 's) \<Rightarrow> ('k, 'v) LruCache \<Rightarrow> 's \<Rightarrow> 's option" where
  "cache_foreach func c s = foreach_from ln_next func (lc_heap c) (lc_front c) s"

definition cache_foreach_reverse :: "('k \<Rightarrow> 'v \<Rightarrow> 's \<Rightarrow> bool \<times> 's) \<Rightarrow> ('k, 'v) LruCache \<Rightarrow> 's \<Rightarrow> 's option" where
  "cache_foreach_reverse func c s = foreach_from ln_prev func (lc_heap c) (lc_tail c) s"

section \<open>The linked list\<close>

definition first_of :: "addr list \<Rightarrow> addr option \<Rightarrow> addr option" where
  "first_of as n = (case as of [] \<Rightarrow> n | a # _ \<Rightarrow> Some a)"

definition last_of :: "addr option \<Rightarrow> addr list \<Rightarrow> addr option" where
  "last_of p as = (if as = [] then p else Some (last as))"

lemma first_of_simps [simp]: "first_of [] n = n" "first_of (a # as) n = Some a" "first_of (as @ bs) n = first_of as (first_of bs n)"
  by (simp_all add: first_of_def split: list.split)

lemma last_of_simps [simp]: "last_of p [] = p" "last_of p (as @ [a]) = Some a" "last_of p (a # as) = last_of (Some a) as"
  "last_of p (as @ bs) = last_of (last_of p as) bs"
  by (simp_all add: last_of_def)

text \<open>The nodes \<open>as\<close> are linked both ways; before them is \<open>p\<close>, behind them \<open>n\<close>.\<close>

fun dll :: "('k, 'v) node_heap \<Rightarrow> addr option \<Rightarrow> addr list \<Rightarrow> addr option \<Rightarrow> bool" where
  "dll h p [] n \<longleftrightarrow> True"
| "dll h p (a # as) n \<longleftrightarrow> (\<exists>nd. h a = Some nd \<and> ln_prev nd = p \<and> ln_next nd = first_of as n) \<and> dll h (Some a) as n"

lemma dll_append [simp]: "dll h p (as @ bs) n \<longleftrightarrow> dll h p as (first_of bs n) \<and> dll h (last_of p as) bs n"
  by (induction as arbitrary: p) auto

lemma dll_other [simp]: "a \<notin> set as \<Longrightarrow> dll (h(a := x)) p as n = dll h p as n"
  by (induction as arbitrary: p) auto

lemma dll_in: "dll h p as n \<Longrightarrow> a \<in> set as \<Longrightarrow> h a \<noteq> None"
  by (induction as arbitrary: p) auto

definition node_kv :: "('k, 'v) node_heap \<Rightarrow> addr \<Rightarrow> 'k \<times> 'v" where
  "node_kv h a = (ln_key (the (h a)), ln_value (the (h a)))"

text \<open>Only the links changed.\<close>

definition links_only :: "('k, 'v) node_heap \<Rightarrow> ('k, 'v) node_heap \<Rightarrow> bool" where
  "links_only h h' \<longleftrightarrow> dom h' = dom h \<and> (\<forall>a. node_kv h' a = node_kv h a)"

lemma links_only_refl [simp]: "links_only h h"
  by (simp add: links_only_def)

lemma links_only_trans: "links_only a b \<Longrightarrow> links_only b c \<Longrightarrow> links_only a c"
  by (simp add: links_only_def)

lemma links_only_upd:
  "h a = Some nd \<Longrightarrow> ln_key nd' = ln_key nd \<Longrightarrow> ln_value nd' = ln_value nd \<Longrightarrow> links_only h (h(a \<mapsto> nd'))"
  by (auto simp: links_only_def node_kv_def)

text \<open>Setting the link at an end of a segment.\<close>

lemma dll_set_next:
  assumes "dll h p (as @ [a]) n" "a \<notin> set as"
  shows "\<exists>h'. node_upd (Some a) (ln_next_update (\<lambda>_. n')) h = Some h' \<and> dll h' p (as @ [a]) n' \<and> links_only h h' \<and> (\<forall>b. b \<noteq> a \<longrightarrow> h' b = h b)"
proof -
  from assms(1) obtain nd where nd: "h a = Some nd" "ln_prev nd = last_of p as" "dll h p as (Some a)" by auto
  then show ?thesis using assms(2) links_only_upd [of h a nd "nd\<lparr>ln_next := n'\<rparr>"] by (auto simp: node_upd_def)
qed

lemma dll_set_prev:
  assumes "dll h p (a # as) n" "a \<notin> set as"
  shows "\<exists>h'. node_upd (Some a) (ln_prev_update (\<lambda>_. p')) h = Some h' \<and> dll h' p' (a # as) n \<and> links_only h h' \<and> (\<forall>b. b \<noteq> a \<longrightarrow> h' b = h b)"
proof -
  from assms(1) obtain nd where nd: "h a = Some nd" "ln_next nd = first_of as n" "dll h (Some a) as n" by auto
  then show ?thesis using assms(2) links_only_upd [of h a nd "nd\<lparr>ln_prev := p'\<rparr>"] by (auto simp: node_upd_def)
qed

lemma unlink_ok:
  assumes d: "dll h None (xs @ a # ys) None" "distinct (xs @ a # ys)" and n: "h a = Some n"
  shows "\<exists>h1 h2. (if ln_prev n \<noteq> None then node_upd (ln_prev n) (ln_next_update (\<lambda>_. ln_next n)) h else Some h) = Some h1 \<and> h1 a = Some n \<and>
    (if ln_next n \<noteq> None then node_upd (ln_next n) (ln_prev_update (\<lambda>_. ln_prev n)) h1 else Some h1) = Some h2 \<and> h2 a = Some n \<and>
    dll h2 None (xs @ ys) None \<and> links_only h h2"
proof -
  have l: "ln_prev n = last_of None xs" "ln_next n = first_of ys None" "dll h None xs (Some a)" "dll h (Some a) ys None"
    using d(1) n by auto
  obtain h1 where h1: "(if ln_prev n \<noteq> None then node_upd (ln_prev n) (ln_next_update (\<lambda>_. ln_next n)) h else Some h) = Some h1"
      "h1 a = Some n" "dll h1 None xs (first_of ys None)" "dll h1 (Some a) ys None" "links_only h h1"
  proof (cases xs rule: rev_cases)
    case Nil
    then show ?thesis using that [of h] l n by simp
  next
    case (snoc zs b)
    from l(3) d(2) snoc dll_set_next [of h None zs b "Some a" "first_of ys None"] obtain h' where
      "node_upd (Some b) (ln_next_update (\<lambda>_. first_of ys None)) h = Some h'" "dll h' None xs (first_of ys None)" "links_only h h'"
      "\<forall>c. c \<noteq> b \<longrightarrow> h' c = h c" by auto
    moreover from this(4) have "h' a = Some n" "dll h' (Some a) ys None"
    proof -
      show "h' a = Some n" using \<open>\<forall>c. c \<noteq> b \<longrightarrow> h' c = h c\<close> snoc d(2) n by auto
      have "h' = h(b := h' b)" using \<open>\<forall>c. c \<noteq> b \<longrightarrow> h' c = h c\<close> by auto
      then show "dll h' (Some a) ys None" using l(4) dll_other [of b ys h "h' b"] snoc d(2) by auto
    qed
    ultimately show ?thesis using that [of h'] l snoc by simp
  qed
  obtain h2 where h2: "(if ln_next n \<noteq> None then node_upd (ln_next n) (ln_prev_update (\<lambda>_. ln_prev n)) h1 else Some h1) = Some h2"
      "h2 a = Some n" "dll h2 None xs (first_of ys None)" "dll h2 (last_of None xs) ys None" "links_only h1 h2"
  proof (cases ys)
    case Nil
    then show ?thesis using that [of h1] l h1 by simp
  next
    case (Cons b zs)
    from h1(4) d(2) Cons dll_set_prev [of h1 "Some a" b zs None "last_of None xs"] obtain h' where
      h': "node_upd (Some b) (ln_prev_update (\<lambda>_. last_of None xs)) h1 = Some h'" "dll h' (last_of None xs) ys None" "links_only h1 h'"
      "\<forall>c. c \<noteq> b \<longrightarrow> h' c = h1 c" by auto
    have "h' a = Some n" using h'(4) Cons d(2) h1(2) by auto
    moreover have "h' = h1(b := h' b)" using h'(4) by auto
    then have "dll h' None xs (first_of ys None)" using h1(3) dll_other [of b xs h1 "h' b"] Cons d(2) by auto
    ultimately show ?thesis using that [of h'] l Cons h' by simp
  qed
  show ?thesis
    using h1(1,2) h2 links_only_trans [OF h1(5) h2(5)] by (intro exI [of _ h1] exI [of _ h2]) simp
qed

lemma push_ok:
  assumes d: "dll h None as None" "distinct (a # as)" and n: "h a \<noteq> None"
  shows "\<exists>h1 h2. node_upd (Some a) (\<lambda>n. n\<lparr>ln_prev := None, ln_next := first_of as None\<rparr>) h = Some h1 \<and>
    (if first_of as None \<noteq> None then node_upd (first_of as None) (ln_prev_update (\<lambda>_. Some a)) h1 else Some h1) = Some h2 \<and>
    dll h2 None (a # as) None \<and> links_only h h2"
proof -
  from n obtain nd where nd: "h a = Some nd" by blast
  let ?h1 = "h(a \<mapsto> nd\<lparr>ln_prev := None, ln_next := first_of as None\<rparr>)"
  have k1: "links_only h ?h1" by (rule links_only_upd [of h a nd]) (simp_all add: nd)
  have d1: "dll ?h1 None as None" using d by simp
  obtain h2 where h2: "(if first_of as None \<noteq> None then node_upd (first_of as None) (ln_prev_update (\<lambda>_. Some a)) ?h1 else Some ?h1) = Some h2"
      "dll h2 (Some a) as None" "links_only ?h1 h2" "h2 a = ?h1 a"
  proof (cases as)
    case Nil
    then show ?thesis using that [of ?h1] by simp
  next
    case (Cons b zs)
    from d1 d(2) Cons dll_set_prev [of ?h1 None b zs None "Some a"] obtain h' where
      "node_upd (Some b) (ln_prev_update (\<lambda>_. Some a)) ?h1 = Some h'" "dll h' (Some a) as None" "links_only ?h1 h'" "\<forall>c. c \<noteq> b \<longrightarrow> h' c = ?h1 c"
      by auto
    then show ?thesis using that [of h'] Cons d(2) by auto
  qed
  show ?thesis
    using nd h2 links_only_trans [OF k1 h2(3)] by (intro exI [of _ ?h1] exI [of _ h2]) (simp add: node_upd_def)
qed

section \<open>The cache implements the list of its entries\<close>

definition cache_rep :: "('k, 'v) LruCache \<Rightarrow> addr list \<Rightarrow> bool" where
  "cache_rep c as \<longleftrightarrow> dll (lc_heap c) None as None \<and> distinct as \<and> lc_front c = first_of as None \<and> lc_tail c = last_of None as \<and>
     set (lc_searcher c) = set as \<and> distinct (lc_searcher c) \<and> dom (lc_heap c) = set as \<and>
     distinct (map (fst \<circ> node_kv (lc_heap c)) as)"

abbreviation entries_of :: "('k, 'v) LruCache \<Rightarrow> addr list \<Rightarrow> ('k \<times> 'v) list" where
  "entries_of c as \<equiv> map (node_kv (lc_heap c)) as"

lemma links_only_entries: "links_only h h' \<Longrightarrow> map (node_kv h') as = map (node_kv h) as"
  by (simp add: links_only_def)

lemma cache_find_cases:
  assumes r: "cache_rep c as"
  shows "case cache_find k c of
      None \<Rightarrow> k \<notin> fst ` set (entries_of c as)
    | Some a \<Rightarrow> a \<in> set as \<and> fst (node_kv (lc_heap c) a) = k"
proof -
  have d: "lc_heap c a \<noteq> None" if "a \<in> set as" for a using r that by (auto simp: cache_rep_def dll_in)
  show ?thesis
    using r d unfolding cache_find_def cache_rep_def
    by (auto simp: find_None_iff find_Some_iff node_kv_def split: option.splits) force+
qed

lemma filter_key_split:
  assumes "distinct (map fst (xs @ (k, v) # ys))"
  shows "filter (\<lambda>p. fst p \<noteq> k) (xs @ (k, v) # ys) = xs @ ys" "map_of (xs @ (k, v) # ys) k = Some v"
proof -
  have "\<forall>p \<in> set (xs @ ys). fst p \<noteq> k" using assms by force
  then show "filter (\<lambda>p. fst p \<noteq> k) (xs @ (k, v) # ys) = xs @ ys" by (simp add: filter_id_conv)
  show "map_of (xs @ (k, v) # ys) k = Some v" using assms by (simp add: map_add_def map_of_eq_None_iff [THEN iffD2] split: option.split)
qed

lemma node_touch_ok:
  assumes r: "cache_rep c (xs @ a # ys)"
  shows "\<exists>c'. node_touch a c = Some c' \<and> cache_rep c' (a # xs @ ys) \<and> (\<forall>b. node_kv (lc_heap c') b = node_kv (lc_heap c) b)"
proof -
  let ?h = "lc_heap c"
  have d: "dll ?h None (xs @ a # ys) None" "distinct (xs @ a # ys)" using r by (simp_all add: cache_rep_def)
  then obtain n where n: "?h a = Some n" "ln_prev n = last_of None xs" "ln_next n = first_of ys None" by auto
  show ?thesis
  proof (cases "xs = []")
    case True
    then show ?thesis using r n by (simp add: node_touch_def)
  next
    case False
    then have pn: "ln_prev n \<noteq> None" using n(2) by (simp add: last_of_def)
    from unlink_ok [OF d n(1)] pn obtain h1 h2 where
      u: "node_upd (ln_prev n) (ln_next_update (\<lambda>_. ln_next n)) ?h = Some h1" "h1 a = Some n"
        "(if ln_next n \<noteq> None then node_upd (ln_next n) (ln_prev_update (\<lambda>_. ln_prev n)) h1 else Some h1) = Some h2"
        "h2 a = Some n" "dll h2 None (xs @ ys) None" "links_only ?h h2" by auto
    have fr: "lc_front c = first_of (xs @ ys) None" using r False by (cases xs) (simp_all add: cache_rep_def)
    from push_ok [OF u(5), of a] d(2) u(4) obtain h3 h4 where
      p: "node_upd (Some a) (\<lambda>n. n\<lparr>ln_prev := None, ln_next := first_of (xs @ ys) None\<rparr>) h2 = Some h3"
        "(if first_of (xs @ ys) None \<noteq> None then node_upd (first_of (xs @ ys) None) (ln_prev_update (\<lambda>_. Some a)) h3 else Some h3) = Some h4"
        "dll h4 None (a # xs @ ys) None" "links_only h2 h4" by auto
    have lo: "links_only ?h h4" by (rule links_only_trans [OF u(6) p(4)])
    let ?c = "c\<lparr>lc_heap := h4, lc_front := Some a, lc_tail := last_of None (xs @ ys)\<rparr>"
    have tl: "ln_next n \<noteq> None \<Longrightarrow> lc_tail c = last_of None (xs @ ys)"
      using r n(3) False by (cases ys) (simp_all add: cache_rep_def)
    have tl': "ln_next n = None \<Longrightarrow> ln_prev n = last_of None (xs @ ys)" using n(2,3) by (cases ys) simp_all
    have "node_touch a c = Some ?c"
      using n(1) pn u(1,2,3) p(1,2) tl tl' fr by (cases "ln_next n = None") (auto simp: node_touch_def)
    moreover have "cache_rep ?c (a # xs @ ys)"
      using r p(3) False links_only_entries [OF lo] lo
      by (auto simp: cache_rep_def links_only_def last_of_def comp_def)
    moreover have "\<forall>b. node_kv (lc_heap ?c) b = node_kv ?h b" using lo by (simp add: links_only_def)
    ultimately show ?thesis by blast
  qed
qed

lemma node_push_ok:
  assumes r: "cache_rep c as" and a: "a \<notin> set as" "k \<notin> fst ` set (entries_of c as)"
  shows "\<exists>c'. node_push a (c\<lparr>lc_heap := (lc_heap c)(a \<mapsto> \<lparr>ln_key = k, ln_value = v, ln_prev = None, ln_next = None\<rparr>)\<rparr>) = Some c' \<and>
    cache_rep c' (a # as) \<and> entries_of c' (a # as) = (k, v) # entries_of c as"
proof -
  let ?h = "(lc_heap c)(a \<mapsto> \<lparr>ln_key = k, ln_value = v, ln_prev = None, ln_next = None\<rparr>)"
  have d: "dll ?h None as None" "distinct (a # as)" using r a by (simp_all add: cache_rep_def)
  from push_ok [OF d] obtain h1 h2 where
    p: "node_upd (Some a) (\<lambda>n. n\<lparr>ln_prev := None, ln_next := first_of as None\<rparr>) ?h = Some h1"
      "(if first_of as None \<noteq> None then node_upd (first_of as None) (ln_prev_update (\<lambda>_. Some a)) h1 else Some h1) = Some h2"
      "dll h2 None (a # as) None" "links_only ?h h2" by auto
  have kv: "map (node_kv h2) (a # as) = (k, v) # entries_of c as"
    using links_only_entries [OF p(4), of "a # as"] a(1) by (auto simp: node_kv_def)
  let ?c = "c\<lparr>lc_heap := h2, lc_front := Some a, lc_tail := last_of None (a # as), lc_searcher := a # lc_searcher c\<rparr>"
  have tl: "lc_tail c = last_of None as" "lc_front c = first_of as None" using r by (simp_all add: cache_rep_def)
  have "node_push a (c\<lparr>lc_heap := ?h\<rparr>) = Some ?c"
    using p(1,2) tl by (auto simp: node_push_def Let_def last_of_def split: if_splits)
  moreover have "cache_rep ?c (a # as)"
  proof -
    have "map fst (map (node_kv h2) (a # as)) = map fst ((k, v) # entries_of c as)" using kv by (rule arg_cong)
    then have "map (fst \<circ> node_kv h2) (a # as) = map fst ((k, v) # entries_of c as)" unfolding map_map .
    moreover have "distinct (map fst ((k, v) # entries_of c as))" using r a(2) by (auto simp: cache_rep_def)
    ultimately have "distinct (map (fst \<circ> node_kv h2) (a # as))" by metis
    moreover have "dom h2 = set (a # as)" using p(4) r by (auto simp: links_only_def cache_rep_def)
    moreover have "a \<notin> set (lc_searcher c)" using r a(1) by (simp add: cache_rep_def)
    ultimately show ?thesis using r p(3) d(2) by (simp add: cache_rep_def)
  qed
  ultimately show ?thesis using kv by auto
qed

lemma node_remove_ok:
  assumes r: "cache_rep c (xs @ a # ys)"
  shows "\<exists>c'. node_remove a c = Some c' \<and> cache_rep c' (xs @ ys) \<and> entries_of c' (xs @ ys) = entries_of c (xs @ ys)"
proof -
  let ?h = "lc_heap c"
  have d: "dll ?h None (xs @ a # ys) None" "distinct (xs @ a # ys)" using r by (simp_all add: cache_rep_def)
  then obtain n where n: "?h a = Some n" "ln_prev n = last_of None xs" "ln_next n = first_of ys None" by auto
  from unlink_ok [OF d n(1)] obtain h1 h2 where
    u: "(if ln_prev n \<noteq> None then node_upd (ln_prev n) (ln_next_update (\<lambda>_. ln_next n)) ?h else Some ?h) = Some h1" "h1 a = Some n"
      "(if ln_next n \<noteq> None then node_upd (ln_next n) (ln_prev_update (\<lambda>_. ln_prev n)) h1 else Some h1) = Some h2"
      "h2 a = Some n" "dll h2 None (xs @ ys) None" "links_only ?h h2" by blast
  have fr: "(if lc_front c = Some a then ln_next n else lc_front c) = first_of (xs @ ys) None"
    using r d(2) n(3) by (cases xs) (auto simp: cache_rep_def)
  have tl: "(if lc_tail c = Some a then ln_prev n else lc_tail c) = last_of None (xs @ ys)"
    using r d(2) n(2) by (cases ys rule: rev_cases) (auto simp: cache_rep_def)
  let ?c = "c\<lparr>lc_heap := h2(a := None), lc_front := first_of (xs @ ys) None, lc_tail := last_of None (xs @ ys),
    lc_searcher := filter (\<lambda>b. b \<noteq> a) (lc_searcher c)\<rparr>"
  have na: "a \<notin> set (xs @ ys)" using d(2) by auto
  have kv: "node_kv (h2(a := None)) b = node_kv ?h b" if "b \<noteq> a" for b
    using that u(6) by (simp add: links_only_def node_kv_def)
  have en: "map (node_kv (h2(a := None))) (xs @ ys) = entries_of c (xs @ ys)"
    by (rule map_cong [OF refl], rule kv) (use na in auto)
  have "node_remove a c = Some ?c"
    using n(1) u(1,2,3,4) fr tl by (simp add: node_remove_def Let_def del: first_of_simps last_of_simps)
  moreover have "cache_rep ?c (xs @ ys)"
  proof -
    have "map fst (map (node_kv (h2(a := None))) (xs @ ys)) = map fst (entries_of c (xs @ ys))" using en by (rule arg_cong)
    then have "map (fst \<circ> node_kv (h2(a := None))) (xs @ ys) = map fst (entries_of c (xs @ ys))" unfolding map_map [of fst "node_kv (h2(a := None))"] .
    moreover have "distinct (map fst (entries_of c (xs @ ys)))" using r by (simp add: cache_rep_def)
    ultimately have "distinct (map (fst \<circ> node_kv (h2(a := None))) (xs @ ys))" by metis
    moreover have "dom (h2(a := None)) = set (xs @ ys)" using u(6) r na by (auto simp: links_only_def cache_rep_def)
    moreover have "set (filter (\<lambda>b. b \<noteq> a) (lc_searcher c)) = set (xs @ ys)" using r na by (auto simp: cache_rep_def)
    moreover have "dll (h2(a := None)) None (xs @ ys) None" using u(5) dll_other [OF na] by blast
    ultimately show ?thesis using r d(2) by (simp add: cache_rep_def)
  qed
  ultimately show ?thesis using en by auto
qed

lemma cache_rep_keys: "cache_rep c as \<Longrightarrow> distinct (map fst (entries_of c as))"
  by (simp add: cache_rep_def)

lemma cache_found:
  assumes r: "cache_rep c as" and f: "cache_find k c = Some a"
  obtains xs ys v where "as = xs @ a # ys" "node_kv (lc_heap c) a = (k, v)"
    "filter (\<lambda>p. fst p \<noteq> k) (entries_of c as) = entries_of c (xs @ ys)" "map_of (entries_of c as) k = Some v"
proof -
  from cache_find_cases [OF r, of k] f have a: "a \<in> set as" "fst (node_kv (lc_heap c) a) = k" by simp_all
  then obtain xs ys where s: "as = xs @ a # ys" by (meson split_list)
  obtain v where v: "node_kv (lc_heap c) a = (k, v)" using a(2) by (cases "node_kv (lc_heap c) a") simp
  have "distinct (map fst (entries_of c xs @ (k, v) # entries_of c ys))" using cache_rep_keys [OF r] s v by simp
  from filter_key_split [OF this] s v that show ?thesis by simp
qed

lemma cache_missing:
  assumes r: "cache_rep c as" and f: "cache_find k c = None"
  shows "map_of (entries_of c as) k = None" "filter (\<lambda>p. fst p \<noteq> k) (entries_of c as) = entries_of c as"
    "k \<notin> fst ` set (entries_of c as)"
proof -
  show k: "k \<notin> fst ` set (entries_of c as)" using cache_find_cases [OF r, of k] f by simp
  then show "map_of (entries_of c as) k = None" by (simp add: map_of_eq_None_iff)
  show "filter (\<lambda>p. fst p \<noteq> k) (entries_of c as) = entries_of c as" using k by (auto simp: filter_id_conv)
qed

lemma cache_get_ok:
  assumes r: "cache_rep c as"
  shows "\<exists>c' as'. cache_get k c = Some (map_of (entries_of c as) k, c') \<and> cache_rep c' as' \<and>
    entries_of c' as' = lru_touch k (entries_of c as)"
proof (cases "cache_find k c")
  case None
  then show ?thesis using r cache_missing [OF r None] by (auto simp: cache_get_def lru_touch_def)
next
  case (Some a)
  from cache_found [OF r Some] obtain xs ys v where
    s: "as = xs @ a # ys" "node_kv (lc_heap c) a = (k, v)" "filter (\<lambda>p. fst p \<noteq> k) (entries_of c as) = entries_of c (xs @ ys)"
      "map_of (entries_of c as) k = Some v" by blast
  from node_touch_ok [of c xs a ys] r s(1) obtain c' where
    t: "node_touch a c = Some c'" "cache_rep c' (a # xs @ ys)" "\<forall>b. node_kv (lc_heap c') b = node_kv (lc_heap c) b" by blast
  from t(2) obtain n where n: "lc_heap c' a = Some n" by (auto simp: cache_rep_def)
  have "ln_value n = v" using t(3) s(2) n by (metis node_kv_def option.sel snd_conv)
  moreover have "entries_of c' (a # xs @ ys) = lru_touch k (entries_of c as)"
    using t(3) s(2,3,4) by (simp add: lru_touch_def)
  ultimately show ?thesis using Some t(1,2) n s(4) by (auto simp: cache_get_def)
qed

lemma cache_put_ok:
  assumes r: "cache_rep c as" and fresh: "lc_heap c a = None"
  shows "\<exists>c' as'. cache_put a k v c = Some c' \<and> cache_rep c' as' \<and> entries_of c' as' = lru_put k v (entries_of c as)"
proof (cases "cache_find k c")
  case None
  note m = cache_missing [OF r None]
  have "a \<notin> set as" using r fresh by (auto simp: cache_rep_def)
  from node_push_ok [OF r this m(3), of v] obtain c' where
    "node_push a (c\<lparr>lc_heap := (lc_heap c)(a \<mapsto> \<lparr>ln_key = k, ln_value = v, ln_prev = None, ln_next = None\<rparr>)\<rparr>) = Some c'"
    "cache_rep c' (a # as)" "entries_of c' (a # as) = (k, v) # entries_of c as"
    by (elim exE conjE) (rule that)
  then show ?thesis using None m(2)
    by (intro exI [of _ c'] exI [of _ "a # as"]) (simp add: cache_put_def lru_put_def)
next
  case (Some b)
  from cache_found [OF r Some] obtain xs ys v0 where
    s: "as = xs @ b # ys" "node_kv (lc_heap c) b = (k, v0)" "filter (\<lambda>p. fst p \<noteq> k) (entries_of c as) = entries_of c (xs @ ys)" by blast
  from r s(1) obtain n where n: "lc_heap c b = Some n" by (auto simp: cache_rep_def)
  let ?h = "(lc_heap c)(b \<mapsto> n\<lparr>ln_value := v\<rparr>)"
  have dl: "dll ?h p zs q = dll (lc_heap c) p zs q" for p zs q
    using n by (induction zs arbitrary: p) auto
  have kv: "node_kv ?h b = (k, v)" "\<And>x. x \<noteq> b \<Longrightarrow> node_kv ?h x = node_kv (lc_heap c) x"
    using n s(2) by (simp_all add: node_kv_def)
  have fk: "fst \<circ> node_kv ?h = fst \<circ> node_kv (lc_heap c)"
    using n by (simp add: fun_eq_iff node_kv_def)
  have "cache_rep (c\<lparr>lc_heap := ?h\<rparr>) (xs @ b # ys)"
    using r s(1) n dl fk by (auto simp: cache_rep_def simp del: dll_append)
  from node_touch_ok [OF this] obtain c' where
    t: "node_touch b (c\<lparr>lc_heap := ?h\<rparr>) = Some c'" "cache_rep c' (b # xs @ ys)" "\<forall>x. node_kv (lc_heap c') x = node_kv ?h x" by auto
  have nb: "b \<notin> set (xs @ ys)" using r s(1) by (auto simp: cache_rep_def)
  have "entries_of c' (xs @ ys) = entries_of c (xs @ ys)"
  proof (rule map_cong [OF refl])
    fix x assume "x \<in> set (xs @ ys)"
    then have "x \<noteq> b" using nb by auto
    then show "node_kv (lc_heap c') x = node_kv (lc_heap c) x" using t(3) kv(2) by metis
  qed
  moreover have "node_kv (lc_heap c') b = (k, v)" using t(3) kv(1) by simp
  ultimately have "entries_of c' (b # xs @ ys) = lru_put k v (entries_of c as)"
    unfolding lru_put_def s(3) by simp
  then show ?thesis using Some t(1,2) n by (auto simp: cache_put_def node_upd_def)
qed

lemma cache_remove_ok:
  assumes r: "cache_rep c as"
  shows "\<exists>c' as'. cache_remove k c = Some c' \<and> cache_rep c' as' \<and> entries_of c' as' = lru_remove k (entries_of c as)"
proof (cases "cache_find k c")
  case None
  then show ?thesis using r cache_missing [OF r None] by (auto simp: cache_remove_def lru_remove_def)
next
  case (Some a)
  from cache_found [OF r Some] obtain xs ys v where
    s: "as = xs @ a # ys" "filter (\<lambda>p. fst p \<noteq> k) (entries_of c as) = entries_of c (xs @ ys)" by blast
  from node_remove_ok [of c xs a ys] r s(1) obtain c' where
    "node_remove a c = Some c'" "cache_rep c' (xs @ ys)" "entries_of c' (xs @ ys) = entries_of c (xs @ ys)" by blast
  then show ?thesis using Some s(2)
    by (intro exI [of _ c'] exI [of _ "xs @ ys"]) (simp add: cache_remove_def lru_remove_def)
qed

text \<open>The visits: the entries from the front, or from the back, until the visitor stops.\<close>

fun visit_entries :: "('k \<Rightarrow> 'v \<Rightarrow> 's \<Rightarrow> bool \<times> 's) \<Rightarrow> ('k \<times> 'v) list \<Rightarrow> 's \<Rightarrow> 's" where
  "visit_entries func [] s = s"
| "visit_entries func ((k, v) # xs) s = (case func k v s of (ret, s') \<Rightarrow> if ret then visit_entries func xs s' else s')"

lemma foreach_next:
  "dll h p as None \<Longrightarrow> foreach_from ln_next func h (first_of as None) s = Some (visit_entries func (map (node_kv h) as) s)"
  by (induction as arbitrary: p s) (auto simp: foreach_from.simps [of _ _ _ None] foreach_from.simps [of _ _ _ "Some _"]
      node_kv_def split: prod.split)

lemma foreach_prev:
  "dll h None as n \<Longrightarrow> foreach_from ln_prev func h (last_of None as) s = Some (visit_entries func (map (node_kv h) (rev as)) s)"
  by (induction as arbitrary: n s rule: rev_induct)
     (auto simp: foreach_from.simps [of _ _ _ None] foreach_from.simps [of _ _ _ "Some _"] node_kv_def split: prod.split)

definition cache_entries :: "('k, 'v) LruCache \<Rightarrow> ('k \<times> 'v) list" where
  "cache_entries c = the (cache_foreach (\<lambda>k v s. (True, s @ [(k, v)])) c [])"

lemma visit_collect: "visit_entries (\<lambda>k v s. (True, s @ [(k, v)])) xs s = s @ xs"
  by (induction xs arbitrary: s) auto

lemma cache_entries_eq: "cache_rep c as \<Longrightarrow> cache_entries c = entries_of c as"
  using foreach_next [of "lc_heap c" None as "\<lambda>k v s. (True, s @ [(k, v)])" "[]"] visit_collect [of "entries_of c as" "[]"]
  by (simp add: cache_entries_def cache_foreach_def cache_rep_def)

definition cache_inv :: "('k, 'v) LruCache \<Rightarrow> bool" where
  "cache_inv c \<longleftrightarrow> (\<exists>as. cache_rep c as)"

datatype ('k, 'v) cache_op = CGet 'k | CPut addr 'k 'v | CRemove 'k

fun cache_step :: "('k, 'v) cache_op \<Rightarrow> ('k, 'v) LruCache \<Rightarrow> ('v option \<times> ('k, 'v) LruCache) option" where
  "cache_step (CGet k) c = cache_get k c"
| "cache_step (CPut a k v) c = do { c' \<leftarrow> cache_put a k v c; Some (None, c') }"
| "cache_step (CRemove k) c = do { c' \<leftarrow> cache_remove k c; Some (None, c') }"

text \<open>\<open>new\<close> returns memory that is not in use.\<close>

fun cache_allowed :: "('k, 'v) cache_op \<Rightarrow> ('k, 'v) LruCache \<Rightarrow> bool" where
  "cache_allowed (CPut a k v) c \<longleftrightarrow> lc_heap c a = None"
| "cache_allowed _ c \<longleftrightarrow> True"

fun lru_list_spec :: "('k, 'v) cache_op \<Rightarrow> ('k \<times> 'v) list \<Rightarrow> 'v option \<Rightarrow> ('k \<times> 'v) list \<Rightarrow> bool" where
  "lru_list_spec (CGet k) xs r xs' \<longleftrightarrow> r = map_of xs k \<and> xs' = lru_touch k xs"
| "lru_list_spec (CPut a k v) xs r xs' \<longleftrightarrow> r = None \<and> xs' = lru_put k v xs"
| "lru_list_spec (CRemove k) xs r xs' \<longleftrightarrow> r = None \<and> xs' = lru_remove k xs"

lemma cache_step_ok:
  assumes inv: "cache_inv c" and al: "cache_allowed x c"
  shows "\<exists>r c'. cache_step x c = Some (r, c') \<and> cache_inv c' \<and> lru_list_spec x (cache_entries c) r (cache_entries c')"
proof -
  from inv obtain as where r: "cache_rep c as" by (auto simp: cache_inv_def)
  note e = cache_entries_eq [OF r]
  show ?thesis
  proof (cases x)
    case (CGet k)
    with cache_get_ok [OF r, of k] show ?thesis by (auto simp: cache_inv_def e cache_entries_eq)
  next
    case (CPut a k v)
    with cache_put_ok [OF r, of a k v] al show ?thesis by (auto simp: cache_inv_def e cache_entries_eq)
  next
    case (CRemove k)
    with cache_remove_ok [OF r, of k] show ?thesis by (auto simp: cache_inv_def e cache_entries_eq)
  qed
qed

interpretation lru: refining_machine cache_step cache_inv cache_allowed cache_entries lru_list_spec
proof
  fix s :: "('k, 'v) LruCache" and x r s'
  assume inv: "cache_inv s" and al: "cache_allowed x s"
  note ok = cache_step_ok [OF inv al]
  show "\<exists>r s'. cache_step x s = Some (r, s')" using ok by blast
  show "cache_step x s = Some (r, s') \<Longrightarrow> cache_inv s'" using ok by auto
  show "cache_step x s = Some (r, s') \<Longrightarrow> lru_list_spec x (cache_entries s) r (cache_entries s')" using ok by auto
qed

text \<open>
  C23. The linked nodes of the LRU cache behave as the plain list of entries, most recently used
  first: every sequence of gets, puts and removes runs without following a null or dangling
  pointer, returns what the list functions of the frame manager return, and keeps the links, the
  set and the two end pointers consistent, with no node left behind.
\<close>

theorem lru_cache_equivalence:
  assumes "cache_inv c" "allowed_run cache_step cache_allowed ops c"
  shows "\<exists>rs c'. run_ops cache_step ops c = Some (rs, c') \<and> cache_inv c' \<and> spec_run lru_list_spec ops (cache_entries c) rs (cache_entries c')"
  by (rule lru.run_refines [OF assms])

definition empty_cache :: "('k, 'v) LruCache" where
  "empty_cache = \<lparr>lc_heap = Map.empty, lc_searcher = [], lc_front = None, lc_tail = None\<rparr>"

lemma empty_cache_rep: "cache_rep empty_cache []"
  by (simp add: cache_rep_def empty_cache_def)

theorem lru_cache_equivalence_witness:
  "\<exists>c'. run_ops cache_step [CPut 10 (1::int) (7::int), CPut 20 2 8, CGet 1, CRemove 2] empty_cache = Some ([None, None, Some 7, None], c') \<and>
     cache_entries c' = [(1, 7)]"
proof -
  let ?ops = "[CPut 10 (1::int) (7::int), CPut 20 2 8, CGet 1, CRemove 2]"
  have i: "cache_inv empty_cache" using empty_cache_rep by (auto simp: cache_inv_def)
  have a: "allowed_run cache_step cache_allowed ?ops empty_cache"
    by (simp add: empty_cache_def cache_put_def cache_find_def node_push_def node_upd_def Let_def split: option.split)
  have e: "cache_entries empty_cache = ([] :: (int \<times> int) list)" using cache_entries_eq [OF empty_cache_rep] by simp
  from lru_cache_equivalence [OF i a] show ?thesis
    by (auto simp: e lru_put_def lru_touch_def lru_remove_def)
qed

text \<open>
  C27. \<open>foreach\<close> visits the entries from the most to the least recently used one,
  \<open>foreach_reverse\<close> the other way round, each entry at most once and until the visitor returns
  false; both end.
\<close>

theorem foreach_visits_in_order:
  assumes "cache_inv c"
  shows "cache_foreach func c s = Some (visit_entries func (cache_entries c) s) \<and>
    cache_foreach_reverse func c s = Some (visit_entries func (rev (cache_entries c)) s)"
proof -
  from assms obtain as where r: "cache_rep c as" by (auto simp: cache_inv_def)
  note e = cache_entries_eq [OF r]
  show ?thesis
    using r foreach_next [of "lc_heap c" None as func s] foreach_prev [of "lc_heap c" as None func s] e
    by (simp add: cache_foreach_def cache_foreach_reverse_def cache_rep_def rev_map)
qed

theorem foreach_visits_in_order_witness:
  "\<exists>c. cache_entries c = [(2::int, 8::int), (1, 7)] \<and>
     cache_foreach_reverse (\<lambda>k v n. (k \<noteq> 1, n + v)) c 0 = Some 7"
proof -
  from cache_put_ok [OF empty_cache_rep, of 10 "1 :: int" "7 :: int"] obtain c1 as1 where
    c1: "cache_rep c1 as1" "entries_of c1 as1 = [(1 :: int, 7 :: int)]" by (auto simp: empty_cache_def lru_put_def)
  have "finite (dom (lc_heap c1))" using c1(1) by (simp add: cache_rep_def)
  from ex_new_if_finite [OF infinite_UNIV_nat this] obtain a where a: "lc_heap c1 a = None" by (auto simp: domIff)
  from cache_put_ok [OF c1(1) a, of "2 :: int" "8 :: int"] obtain c as where
    c: "cache_rep c as" "entries_of c as = [(2 :: int, 8 :: int), (1, 7)]" by (auto simp: c1(2) lru_put_def)
  then have "cache_inv c" "cache_entries c = [(2, 8), (1, 7)]" using cache_entries_eq [OF c(1)] by (auto simp: cache_inv_def)
  then show ?thesis using foreach_visits_in_order [of c "\<lambda>k v n. (k \<noteq> 1, n + v)" 0] by auto
qed

end
