(* ===== verification/MvccTrx.thy ===== *)
theory MvccTrx
  imports RecordLog
begin

text \<open>
  Multi-version transactions (\<open>storage/trx/mvcc_trx.cpp\<close>, \<open>mvcc_trx_log.cpp\<close>). Every record has
  two hidden fields, the transaction ids \<open>__trx_xid_begin\<close> and \<open>__trx_xid_end\<close> between which it
  is visible; a negative id marks the uncommitted work of the transaction with that number. A
  table is the map from record ids to records that \<open>RecordFileHandler\<close> implements (theory
  \<open>RecordFileInv\<close>); the transaction code only visits, gets, inserts, updates and deletes records.
  Transaction objects are held by address, as \<open>MvccTrxKit::trxes_\<close> and the replayer hold them.
\<close>

section \<open>State\<close>

record TrxRecord =
  tr_begin :: int  \<comment> \<open>\<open>__trx_xid_begin\<close>\<close>
  tr_end :: int  \<comment> \<open>\<open>__trx_xid_end\<close>\<close>
  tr_data :: "byte list"

datatype OperationType = OP_INSERT | OP_UPDATE | OP_DELETE | OP_UNDEFINED

record Operation =
  op_type :: OperationType
  op_table :: int
  op_rid :: RID

record MvccTrx =
  mt_trx_id :: int
  mt_started :: bool
  mt_recovering :: bool
  mt_operations :: "Operation list"

type_synonym tables = "int \<Rightarrow> RID \<rightharpoonup> TrxRecord"

record MvccDb =
  md_tables :: tables
  md_opened :: "int list"  \<comment> \<open>the ids \<open>Db::find_table\<close> knows\<close>
  md_views :: "int list"  \<comment> \<open>the ids of the tables for which \<open>is_view()\<close> holds\<close>
  md_log :: DbLog
  md_current_trx_id :: int
  md_trxes :: "nat list"  \<comment> \<open>\<open>MvccTrxKit::trxes_\<close>, the addresses of the objects\<close>
  md_objs :: "nat \<rightharpoonup> MvccTrx"

definition MAX_TRX_ID :: int where
  "MAX_TRX_ID = INT32_MAX"

definition MvccTrx_new :: MvccTrx where
  "MvccTrx_new = \<lparr>mt_trx_id = -1, mt_started = False, mt_recovering = False, mt_operations = []\<rparr>"

definition MvccTrx_recover :: "int \<Rightarrow> MvccTrx" where
  "MvccTrx_recover i = \<lparr>mt_trx_id = i, mt_started = True, mt_recovering = True, mt_operations = []\<rparr>"

section \<open>The kit\<close>

definition next_trx_id :: "MvccDb \<Rightarrow> int \<times> MvccDb" where
  "next_trx_id db = (let i = to_int32 (md_current_trx_id db + 1) in (i, db\<lparr>md_current_trx_id := i\<rparr>))"

text \<open>\<open>a\<close> is the address \<open>new\<close> returns.\<close>

definition create_trx :: "nat \<Rightarrow> MvccDb \<Rightarrow> MvccDb" where
  "create_trx a db = db\<lparr>md_objs := (md_objs db)(a \<mapsto> MvccTrx_new), md_trxes := md_trxes db @ [a]\<rparr>"

definition create_trx_recover :: "nat \<Rightarrow> int \<Rightarrow> MvccDb \<Rightarrow> MvccDb" where
  "create_trx_recover a i db = db\<lparr>md_objs := (md_objs db)(a \<mapsto> MvccTrx_recover i), md_trxes := md_trxes db @ [a],
     md_current_trx_id := (if md_current_trx_id db < i then i else md_current_trx_id db)\<rparr>"

text \<open>A null pointer is not in the vector, and deleting it does nothing.\<close>

definition destroy_trx :: "nat option \<Rightarrow> MvccDb \<Rightarrow> MvccDb" where
  "destroy_trx p db = (case p of None \<Rightarrow> db
   | Some a \<Rightarrow> db\<lparr>md_trxes := remove1 a (md_trxes db), md_objs := (md_objs db)(a := None)\<rparr>)"

definition find_trx :: "int \<Rightarrow> MvccDb \<Rightarrow> nat option" where
  "find_trx i db = List.find (\<lambda>a. case md_objs db a of None \<Rightarrow> False | Some t \<Rightarrow> mt_trx_id t = i) (md_trxes db)"

definition all_trxes :: "MvccDb \<Rightarrow> nat list" where
  "all_trxes db = md_trxes db"

section \<open>The transaction log\<close>

fun trx_operation_id :: "OperationType \<Rightarrow> int" where
  "trx_operation_id OP_INSERT = 0" | "trx_operation_id OP_DELETE = 1" | "trx_operation_id OP_UPDATE = 2"
| "trx_operation_id OP_UNDEFINED = -1"

definition TRX_COMMIT :: int where "TRX_COMMIT = 3"
definition TRX_ROLLBACK :: int where "TRX_ROLLBACK = 4"

definition enc_trx_record :: "int \<Rightarrow> int \<Rightarrow> int \<Rightarrow> RID \<Rightarrow> byte list" where
  "enc_trx_record op i t rid = enc32 op @ enc32 i @ enc32 t @ enc32 (page_num rid) @ enc32 (slot_num rid)"

definition enc_trx_commit :: "int \<Rightarrow> int \<Rightarrow> int \<Rightarrow> byte list" where
  "enc_trx_commit op i c = enc32 op @ enc32 i @ enc32 c"

text \<open>The three handlers for records differ in the operation type only.\<close>

definition log_record_op :: "OperationType \<Rightarrow> int \<Rightarrow> int \<Rightarrow> RID \<Rightarrow> DbLog \<Rightarrow> (RC \<times> DbLog) option" where
  "log_record_op op i t rid lg = do {
     assert_that (i > 0);
     (rc, _, lg') \<leftarrow> log_append TRANSACTION 20 (enc_trx_record (trx_operation_id op) i t rid) lg;
     Some (rc, lg')
   }"

text \<open>\<open>commit\<close> waits for its entry; \<open>thread\<close> is what the flushing thread does to the log meanwhile.\<close>

definition log_commit :: "(DbLog \<Rightarrow> DbLog) \<Rightarrow> int \<Rightarrow> int \<Rightarrow> DbLog \<Rightarrow> (RC \<times> DbLog) option" where
  "log_commit thread i c lg = do {
     assert_that (i > 0 \<and> c > i);
     (rc, l, lg1) \<leftarrow> log_append TRANSACTION 12 (enc_trx_commit TRX_COMMIT i c) lg;
     if OB_FAIL rc then Some (rc, lg1)
     else do { rc \<leftarrow> log_wait_lsn l (thread lg1); Some (rc, thread lg1) }
   }"

text \<open>The commit id of a rollback entry is not set; the model writes 0.\<close>

definition log_rollback :: "int \<Rightarrow> DbLog \<Rightarrow> (RC \<times> DbLog) option" where
  "log_rollback i lg = do {
     assert_that (i > 0);
     (rc, _, lg') \<leftarrow> log_append TRANSACTION 12 (enc_trx_commit TRX_ROLLBACK i 0) lg;
     Some (rc, lg')
   }"

section \<open>Records of a table\<close>

text \<open>
  \<open>vw\<close> is the table's \<open>is_view()\<close>: a view refuses every operation with \<open>ERROR\<close>. The visitor may stop
  the process; it says whether it changed the record. The entries of a table's indexes are left out.
\<close>

definition table_visit_record :: "bool \<Rightarrow> int \<Rightarrow> RID \<Rightarrow> (TrxRecord \<Rightarrow> (bool \<times> TrxRecord) option) \<Rightarrow> tables \<Rightarrow> (RC \<times> tables) option" where
  "table_visit_record vw t rid visitor T =
     (if vw then Some (ERROR, T)
      else case T t rid of
        None \<Rightarrow> Some (RECORD_NOT_EXIST, T)
      | Some r \<Rightarrow> do {
          (updated, r') \<leftarrow> visitor r;
          Some (SUCCESS, if updated then T(t := (T t)(rid \<mapsto> r')) else T)
        })"

definition table_get_record :: "bool \<Rightarrow> int \<Rightarrow> RID \<Rightarrow> tables \<Rightarrow> RC \<times> TrxRecord option" where
  "table_get_record vw t rid T =
     (if vw then (ERROR, None) else (if T t rid = None then RECORD_NOT_EXIST else SUCCESS, T t rid))"

definition table_delete_record :: "bool \<Rightarrow> int \<Rightarrow> RID \<Rightarrow> tables \<Rightarrow> RC \<times> tables" where
  "table_delete_record vw t rid T =
     (if vw then (ERROR, T)
      else let (rc, _) = table_get_record vw t rid T
           in if OB_FAIL rc then (rc, T) else (SUCCESS, T(t := (T t)(rid := None))))"

definition table_update_record :: "bool \<Rightarrow> int \<Rightarrow> RID \<Rightarrow> TrxRecord \<Rightarrow> tables \<Rightarrow> RC \<times> tables" where
  "table_update_record vw t rid r T =
     (if vw then (ERROR, T)
      else if T t rid = None then (RECORD_NOT_EXIST, T) else (SUCCESS, T(t := (T t)(rid \<mapsto> r))))"

text \<open>
  \<open>Table::insert_record\<close>: the record goes to the key-value engine, under a key of its contents, and
  the function returns. What follows in the source, storing the record in the record file, is never
  reached, so the tables stay as they are and the caller's record keeps the id \<open>rid\<close> it came with.
\<close>

definition table_insert_record :: "bool \<Rightarrow> RID \<Rightarrow> int \<Rightarrow> TrxRecord \<Rightarrow> tables \<Rightarrow> RC \<times> RID \<times> tables" where
  "table_insert_record vw rid t r T = (if vw then (ERROR, rid, T) else (SUCCESS, rid, T))"

section \<open>The transaction\<close>

definition mvcc_visit_record :: "MvccTrx \<Rightarrow> TrxRecord \<Rightarrow> ReadWriteMode \<Rightarrow> RC" where
  "mvcc_visit_record trx r mode =
     (let i = mt_trx_id trx; begin_xid = tr_begin r; end_xid = tr_end r
      in if begin_xid > 0 \<and> end_xid > 0 then
           (if i \<ge> begin_xid \<and> i \<le> end_xid then SUCCESS else RECORD_INVISIBLE)
         else if begin_xid < 0 then
           (if - begin_xid = i then SUCCESS else RECORD_INVISIBLE)
         else if end_xid < 0 then
           (if mode = READ_ONLY then (if - end_xid \<noteq> i then SUCCESS else RECORD_INVISIBLE)
            else (if - end_xid \<noteq> i then LOCKED_CONCURRENCY_CONFLICT else RECORD_INVISIBLE))
         else SUCCESS)"

definition push_operation :: "OperationType \<Rightarrow> int \<Rightarrow> RID \<Rightarrow> MvccTrx \<Rightarrow> MvccTrx" where
  "push_operation ty t rid trx = trx\<lparr>mt_operations := mt_operations trx @ [\<lparr>op_type = ty, op_table = t, op_rid = rid\<rparr>]\<rparr>"

text \<open>\<open>rid\<close> is the id the caller's record comes with.\<close>

definition mvcc_insert_record ::
    "RID \<Rightarrow> int \<Rightarrow> byte list \<Rightarrow> MvccTrx \<Rightarrow> MvccDb \<Rightarrow> (RC \<times> RID \<times> MvccTrx \<times> MvccDb) option" where
  "mvcc_insert_record rid t data trx db =
     (case table_insert_record (t \<in> set (md_views db)) rid t
             \<lparr>tr_begin = - mt_trx_id trx, tr_end = MAX_TRX_ID, tr_data = data\<rparr> (md_tables db) of
        (rc, rid, T) \<Rightarrow>
          if rc \<noteq> SUCCESS then Some (rc, rid, trx, db\<lparr>md_tables := T\<rparr>)
          else do {
            (rc, lg) \<leftarrow> log_record_op OP_INSERT (mt_trx_id trx) t rid (md_log db);
            assert_that (rc = SUCCESS);
            Some (rc, rid, push_operation OP_INSERT t rid trx, db\<lparr>md_tables := T, md_log := lg\<rparr>)
          })"

definition mvcc_delete_record :: "int \<Rightarrow> RID \<Rightarrow> MvccTrx \<Rightarrow> MvccDb \<Rightarrow> (RC \<times> MvccTrx \<times> MvccDb) option" where
  "mvcc_delete_record t rid trx db = do {
     (rc, T) \<leftarrow> table_visit_record (t \<in> set (md_views db)) t rid (\<lambda>r. Some (
         if OB_FAIL (mvcc_visit_record trx r READ_WRITE) then (False, r)
         else (True, r\<lparr>tr_end := - mt_trx_id trx\<rparr>))) (md_tables db);
     let delete_result = (case md_tables db t rid of None \<Rightarrow> SUCCESS | Some r \<Rightarrow> mvcc_visit_record trx r READ_WRITE);
     let db1 = db\<lparr>md_tables := T\<rparr>;
     if OB_FAIL rc then Some (rc, trx, db1)
     else if OB_FAIL delete_result then Some (delete_result, trx, db1)
     else do {
       (rc, lg) \<leftarrow> log_record_op OP_DELETE (mt_trx_id trx) t rid (md_log db);
       assert_that (rc = SUCCESS);
       Some (SUCCESS, push_operation OP_DELETE t rid trx, db1\<lparr>md_log := lg\<rparr>)
     }
   }"

text \<open>
  \<open>update_record\<close> writes the hidden fields to the caller's old record, which \<open>Table::update_record\<close>
  replaces by the new data; what is stored is \<open>new_record\<close> with the fields the caller gave it. The
  operation is noted as an insert.
\<close>

definition mvcc_update_record :: "int \<Rightarrow> RID \<Rightarrow> TrxRecord \<Rightarrow> MvccTrx \<Rightarrow> MvccDb \<Rightarrow> (RC \<times> MvccTrx \<times> MvccDb) option" where
  "mvcc_update_record t rid new_record trx db =
     (case table_update_record (t \<in> set (md_views db)) t rid new_record (md_tables db) of (rc, T) \<Rightarrow>
        if rc \<noteq> SUCCESS then Some (rc, trx, db\<lparr>md_tables := T\<rparr>)
        else do {
          (rc, lg) \<leftarrow> log_record_op OP_UPDATE (mt_trx_id trx) t rid (md_log db);
          assert_that (rc = SUCCESS);
          Some (rc, push_operation OP_INSERT t rid trx, db\<lparr>md_tables := T, md_log := lg\<rparr>)
        })"

definition start_if_need :: "MvccTrx \<Rightarrow> MvccDb \<Rightarrow> (RC \<times> MvccTrx \<times> MvccDb) option" where
  "start_if_need trx db =
     (if mt_started trx then Some (SUCCESS, trx, db)
      else do {
        assert_that (mt_operations trx = []);
        Some (case next_trx_id db of (i, db') \<Rightarrow> (SUCCESS, trx\<lparr>mt_trx_id := i, mt_started := True\<rparr>, db'))
      })"

text \<open>\<open>vs\<close> are the views.\<close>

definition commit_operation :: "int list \<Rightarrow> int \<Rightarrow> MvccTrx \<Rightarrow> Operation \<Rightarrow> tables \<Rightarrow> tables option" where
  "commit_operation vs c trx x T =
     (case op_type x of
        OP_INSERT \<Rightarrow> do {
          (rc, T') \<leftarrow> table_visit_record (op_table x \<in> set vs) (op_table x) (op_rid x) (\<lambda>r. do {
              assert_that (tr_begin r = - mt_trx_id trx \<and> \<not> mt_recovering trx);
              Some (True, r\<lparr>tr_begin := c\<rparr>) }) T;
          assert_that (rc = SUCCESS);
          Some T'
        }
      | OP_DELETE \<Rightarrow> do {
          (rc, T') \<leftarrow> table_visit_record (op_table x \<in> set vs) (op_table x) (op_rid x) (\<lambda>r. do {
              assert_that (tr_end r = - mt_trx_id trx);
              Some (True, r\<lparr>tr_end := c\<rparr>) }) T;
          assert_that (rc = SUCCESS);
          Some T'
        }
      | _ \<Rightarrow> None)"

fun commit_operations :: "int list \<Rightarrow> int \<Rightarrow> MvccTrx \<Rightarrow> Operation list \<Rightarrow> tables \<Rightarrow> tables option" where
  "commit_operations vs c trx [] T = Some T"
| "commit_operations vs c trx (x # xs) T = do { T' \<leftarrow> commit_operation vs c trx x T; commit_operations vs c trx xs T' }"

definition commit_with_trx_id :: "(DbLog \<Rightarrow> DbLog) \<Rightarrow> int \<Rightarrow> MvccTrx \<Rightarrow> MvccDb \<Rightarrow> (RC \<times> MvccTrx \<times> MvccDb) option" where
  "commit_with_trx_id thread c trx db = do {
     T \<leftarrow> commit_operations (md_views db) c trx (mt_operations trx) (md_tables db);
     (rc, lg) \<leftarrow> (if \<not> mt_recovering trx then log_commit thread (mt_trx_id trx) c (md_log db) else Some (SUCCESS, md_log db));
     Some (rc, trx\<lparr>mt_started := False, mt_operations := []\<rparr>, db\<lparr>md_tables := T, md_log := lg\<rparr>)
   }"

definition mvcc_commit :: "(DbLog \<Rightarrow> DbLog) \<Rightarrow> MvccTrx \<Rightarrow> MvccDb \<Rightarrow> (RC \<times> MvccTrx \<times> MvccDb) option" where
  "mvcc_commit thread trx db = (case next_trx_id db of (c, db') \<Rightarrow> commit_with_trx_id thread c trx db')"

text \<open>
  One step of \<open>rollback\<close>: whether the function returns, the value of \<open>rc\<close>, which lives across
  the steps, and the tables. During recovery a record that is gone or belongs to another
  transaction is skipped with \<open>continue\<close>.
\<close>

definition rollback_operation :: "int list \<Rightarrow> MvccTrx \<Rightarrow> Operation \<Rightarrow> RC \<Rightarrow> tables \<Rightarrow> (bool \<times> RC \<times> tables) option" where
  "rollback_operation vs trx x rc T =
     (let t = op_table x; rid = op_rid x; vw = (t \<in> set vs);
          drop_it = (case table_delete_record vw t rid T of (rc, T') \<Rightarrow> do { assert_that (rc = SUCCESS); Some (False, rc, T') })
      in case op_type x of
        OP_INSERT \<Rightarrow>
          (if \<not> mt_recovering trx then drop_it
           else (case table_get_record vw t rid T of (rc, r) \<Rightarrow>
             if OB_SUCC rc then do {
               r \<leftarrow> r;
               if tr_begin r \<noteq> - mt_trx_id trx then Some (False, rc, T) else drop_it
             }
             else if RECORD_NOT_EXIST = rc then Some (False, rc, T)
             else Some (True, rc, T)))
      | OP_DELETE \<Rightarrow> do {
          assert_that (rc = SUCCESS);
          (rc, T') \<leftarrow> table_visit_record vw t rid (\<lambda>r.
              if mt_recovering trx \<and> tr_end r \<noteq> - mt_trx_id trx then Some (False, r)
              else do {
                assert_that (tr_end r = - mt_trx_id trx);
                Some (True, r\<lparr>tr_end := MAX_TRX_ID\<rparr>) }) T;
          assert_that (rc = SUCCESS);
          Some (False, rc, T')
        }
      | _ \<Rightarrow> None)"

fun rollback_operations :: "int list \<Rightarrow> MvccTrx \<Rightarrow> Operation list \<Rightarrow> RC \<Rightarrow> tables \<Rightarrow> (bool \<times> RC \<times> tables) option" where
  "rollback_operations vs trx [] rc T = Some (False, rc, T)"
| "rollback_operations vs trx (x # xs) rc T = do {
     (ret, rc, T') \<leftarrow> rollback_operation vs trx x rc T;
     if ret then Some (True, rc, T') else rollback_operations vs trx xs rc T'
   }"

definition mvcc_rollback :: "MvccTrx \<Rightarrow> MvccDb \<Rightarrow> (RC \<times> MvccTrx \<times> MvccDb) option" where
  "mvcc_rollback trx db = do {
     (ret, rc, T) \<leftarrow> rollback_operations (md_views db) trx (rev (mt_operations trx)) SUCCESS (md_tables db);
     let trx1 = trx\<lparr>mt_started := False\<rparr>;
     if ret then Some (rc, trx1, db\<lparr>md_tables := T\<rparr>)
     else do {
       (rc, lg) \<leftarrow> (if \<not> mt_recovering trx then log_rollback (mt_trx_id trx) (md_log db) else Some (rc, md_log db));
       Some (rc, trx1\<lparr>mt_operations := []\<rparr>, db\<lparr>md_tables := T, md_log := lg\<rparr>)
     }
   }"

section \<open>Replaying the log\<close>

definition mvcc_redo :: "byte list \<Rightarrow> MvccTrx \<Rightarrow> MvccDb \<Rightarrow> (RC \<times> MvccTrx) option" where
  "mvcc_redo p trx db =
     (let op = field32 p 0; t = field32 p 8; rid = RID (field32 p 12) (field32 p 16)
      in if op = trx_operation_id OP_INSERT \<or> op = trx_operation_id OP_DELETE then do {
           assert_that (20 \<le> length p);
           if t \<notin> set (md_opened db) then Some (SCHEMA_TABLE_NOT_EXIST, trx)
           else Some (SUCCESS, push_operation (if op = trx_operation_id OP_INSERT then OP_INSERT else OP_DELETE) t rid trx)
         }
         else if op = TRX_COMMIT \<or> op = TRX_ROLLBACK then Some (SUCCESS, trx)
         else None)"

text \<open>
  \<open>MvccTrxLogReplayer\<close>: \<open>trx_map_\<close> maps a transaction id to the object's address, where reading
  an id that is missing through \<open>operator[]\<close> adds a null pointer. \<open>a\<close> is the address \<open>new\<close> returns.
\<close>

record MvccTrxLogReplayer =
  rp_db :: MvccDb
  rp_trx_map :: "int \<rightharpoonup> nat option"

definition mvcc_replay :: "nat \<Rightarrow> byte list LogEntry \<Rightarrow> MvccTrxLogReplayer \<Rightarrow> (RC \<times> MvccTrxLogReplayer) option" where
  "mvcc_replay a e rp = do {
     assert_that (h_module_id (le_header e) = TRANSACTION);
     if payload_size e < 8 then Some (LOG_ENTRY_INVALID, rp)
     else do {
       let p = le_data e;
       let i = field32 p 4;
       let (ptr, db) = (case rp_trx_map rp i of
           None \<Rightarrow> (Some a, create_trx_recover a i (rp_db rp))
         | Some q \<Rightarrow> (q, rp_db rp));
       x \<leftarrow> ptr;
       trx \<leftarrow> md_objs db x;
       (rc, trx') \<leftarrow> mvcc_redo p trx db;
       let db1 = db\<lparr>md_objs := (md_objs db)(x \<mapsto> trx')\<rparr>;
       if field32 p 0 = TRX_ROLLBACK \<or> field32 p 0 = TRX_COMMIT then
         (let q = (case rp_trx_map rp i of None \<Rightarrow> None | Some q \<Rightarrow> q)
          in Some (rc, \<lparr>rp_db = destroy_trx q db1, rp_trx_map = (rp_trx_map rp)(i := None)\<rparr>))
       else Some (rc, rp\<lparr>rp_db := db1\<rparr>)
     }
   }"

text \<open>\<open>on_done\<close> rolls back the transactions left in the map, in the map's order \<open>is\<close>.\<close>

fun rollback_all :: "nat option list \<Rightarrow> MvccDb \<Rightarrow> MvccDb option" where
  "rollback_all [] db = Some db"
| "rollback_all (q # qs) db = do {
     a \<leftarrow> q;
     trx \<leftarrow> md_objs db a;
     (rc, trx', db') \<leftarrow> mvcc_rollback trx db;
     rollback_all qs (db'\<lparr>md_objs := (md_objs db')(a := None)\<rparr>)
   }"

definition mvcc_on_done :: "int list \<Rightarrow> MvccTrxLogReplayer \<Rightarrow> (RC \<times> MvccTrxLogReplayer) option" where
  "mvcc_on_done is rp = do {
     db \<leftarrow> rollback_all (map (\<lambda>i. the (rp_trx_map rp i)) is) (rp_db rp);
     Some (SUCCESS, \<lparr>rp_db = db, rp_trx_map = Map.empty\<rparr>)
   }"

end
