(* ===== verification/MvccInv.thy ===== *)
theory MvccInv
  imports MvccTrx
begin

text \<open>
  Correctness of the multi-version transactions. The operations of several transactions are
  interleaved call by call over the records the tables hold; the invariant ties the marks on the
  records to the running transactions' operation lists. It gives what delete, commit and rollback
  do, what a reader sees while others run, and which promises the code does not keep. Inserts are
  \<open>Table::insert_record\<close> as it stands, which stores nothing in the table: a transaction that has
  inserted cannot end (\<open>insert_then_commit_stops\<close>), and the runs below end only transactions that
  have not.
\<close>

section \<open>Several transactions on one database\<close>

text \<open>
  The operations of several transactions, interleaved call by call; \<open>a\<close> is the address of the
  transaction. An insert names the id the caller's record comes with. \<open>thread\<close> is what the flushing
  thread does to the log while a commit waits.
\<close>

datatype trx_op =
    TCreate nat | TStart nat | TInsert nat int RID "byte list" | TDelete nat int RID
  | TCommit nat "DbLog \<Rightarrow> DbLog" | TRollback nat

fun trx_addr :: "trx_op \<Rightarrow> nat" where
  "trx_addr (TCreate a) = a" | "trx_addr (TStart a) = a" | "trx_addr (TInsert a t rid d) = a" | "trx_addr (TDelete a t rid) = a"
| "trx_addr (TCommit a th) = a" | "trx_addr (TRollback a) = a"

definition on_trx :: "nat \<Rightarrow> (MvccTrx \<Rightarrow> MvccDb \<Rightarrow> (RC \<times> MvccTrx \<times> MvccDb) option) \<Rightarrow> MvccDb \<Rightarrow> (RC \<times> MvccDb) option" where
  "on_trx a f db = do {
     trx \<leftarrow> md_objs db a;
     (rc, trx', db') \<leftarrow> f trx db;
     Some (rc, db'\<lparr>md_objs := (md_objs db')(a \<mapsto> trx')\<rparr>)
   }"

fun trx_step :: "trx_op \<Rightarrow> MvccDb \<Rightarrow> (RC \<times> MvccDb) option" where
  "trx_step (TCreate a) db = Some (SUCCESS, create_trx a db)"
| "trx_step (TStart a) db = on_trx a start_if_need db"
| "trx_step (TInsert a t rid d) db = on_trx a (\<lambda>trx db. do {
     (rc, _, trx', db') \<leftarrow> mvcc_insert_record rid t d trx db; Some (rc, trx', db') }) db"
| "trx_step (TDelete a t rid) db = on_trx a (mvcc_delete_record t rid) db"
| "trx_step (TCommit a th) db = on_trx a (mvcc_commit th) db"
| "trx_step (TRollback a) db = on_trx a mvcc_rollback db"

section \<open>What commit and rollback do to the tables\<close>

text \<open>The delete marks of transaction \<open>i\<close> are replaced by \<open>c\<close>: the commit id, or \<open>MAX_TRX_ID\<close> when they are erased.\<close>

definition settle :: "int \<Rightarrow> int \<Rightarrow> tables \<Rightarrow> tables" where
  "settle i c T = (\<lambda>t rid. map_option (\<lambda>r. r\<lparr>tr_end := (if tr_end r = - i then c else tr_end r)\<rparr>) (T t rid))"

definition op_ins :: "int \<Rightarrow> RID \<Rightarrow> Operation" where
  "op_ins t rid = \<lparr>op_type = OP_INSERT, op_table = t, op_rid = rid\<rparr>"

definition op_del :: "int \<Rightarrow> RID \<Rightarrow> Operation" where
  "op_del t rid = \<lparr>op_type = OP_DELETE, op_table = t, op_rid = rid\<rparr>"

lemma op_simps [simp]:
  "op_type (op_ins t rid) = OP_INSERT" "op_table (op_ins t rid) = t" "op_rid (op_ins t rid) = rid"
  "op_type (op_del t rid) = OP_DELETE" "op_table (op_del t rid) = t" "op_rid (op_del t rid) = rid"
  "op_ins t rid \<noteq> op_del t' rid'" "op_del t' rid' \<noteq> op_ins t rid"
  "op_del t rid = op_del t' rid' \<longleftrightarrow> t = t' \<and> rid = rid'"
  by (auto simp: op_ins_def op_del_def)

lemma push_simps: "push_operation OP_INSERT t rid trx = trx\<lparr>mt_operations := mt_operations trx @ [op_ins t rid]\<rparr>"
  "push_operation OP_DELETE t rid trx = trx\<lparr>mt_operations := mt_operations trx @ [op_del t rid]\<rparr>"
  by (simp_all add: push_operation_def op_ins_def op_del_def)

definition only_deletes :: "MvccTrx \<Rightarrow> bool" where
  "only_deletes x \<longleftrightarrow> (\<forall>p \<in> set (mt_operations x). op_type p = OP_DELETE)"

text \<open>The operations of a transaction that is running: inserts and deletes, no record of a view, none deleted twice.\<close>

definition ops_wf :: "int list \<Rightarrow> Operation list \<Rightarrow> bool" where
  "ops_wf vs xs \<longleftrightarrow> distinct (filter (\<lambda>p. op_type p = OP_DELETE) xs) \<and>
     (\<forall>x \<in> set xs. \<exists>t rid. x = op_ins t rid \<or> x = op_del t rid \<and> t \<notin> set vs)"

definition ops_done :: "Operation list \<Rightarrow> int \<Rightarrow> tables \<Rightarrow> bool" where
  "ops_done xs i T \<longleftrightarrow> (\<forall>t rid. op_del t rid \<in> set xs \<longrightarrow> (\<exists>r. T t rid = Some r \<and> tr_end r = - i))"

lemma ops_doneD: "ops_done xs i T \<Longrightarrow> op_del t rid \<in> set xs \<Longrightarrow> \<exists>r. T t rid = Some r \<and> tr_end r = - i"
  by (simp add: ops_done_def)

text \<open>Commit and rollback go through the operations in opposite orders, with the same effect on each deleted record.\<close>

lemma settled_step:
  assumes "op_del t rid \<notin> set xs" "T t rid = Some r"
  shows "(\<lambda>t1 rid1. map_option (\<lambda>r. r\<lparr>tr_end := (if op_del t1 rid1 \<in> set xs then c else tr_end r)\<rparr>)
       ((T(t := (T t)(rid \<mapsto> r\<lparr>tr_end := c\<rparr>))) t1 rid1)) =
     (\<lambda>t1 rid1. map_option (\<lambda>r. r\<lparr>tr_end := (if op_del t1 rid1 \<in> set (op_del t rid # xs) then c else tr_end r)\<rparr>) (T t1 rid1))"
  using assms by (auto simp: fun_eq_iff)

lemma ops_done_step:
  assumes "ops_done (op_del t rid # xs) i T" "op_del t rid \<notin> set xs"
  shows "ops_done xs i (T(t := (T t)(rid \<mapsto> r)))"
  using assms unfolding ops_done_def by auto

lemma commit_operations_ok:
  assumes "ops_done xs (mt_trx_id trx) T" "distinct xs" "\<forall>x \<in> set xs. \<exists>t rid. x = op_del t rid \<and> t \<notin> set vs"
  shows "commit_operations vs c trx xs T =
     Some (\<lambda>t rid. map_option (\<lambda>r. r\<lparr>tr_end := (if op_del t rid \<in> set xs then c else tr_end r)\<rparr>) (T t rid))"
  using assms
proof (induction xs arbitrary: T)
  case Nil
  then show ?case by (simp add: option.map_ident)
next
  case (Cons x xs)
  from Cons.prems(3) obtain t rid where x: "x = op_del t rid" "t \<notin> set vs" by auto
  from Cons.prems(2) x have nx: "op_del t rid \<notin> set xs" "distinct xs" by simp_all
  from Cons.prems(3) have d: "\<forall>x \<in> set xs. \<exists>t rid. x = op_del t rid \<and> t \<notin> set vs" by simp
  from ops_doneD [OF Cons.prems(1), of t rid] x obtain r where r: "T t rid = Some r" "tr_end r = - mt_trx_id trx" by auto
  let ?T = "T(t := (T t)(rid \<mapsto> r\<lparr>tr_end := c\<rparr>))"
  have "ops_done xs (mt_trx_id trx) ?T" by (rule ops_done_step [OF Cons.prems(1) [unfolded x(1)] nx(1)])
  note IH = Cons.IH [OF this nx(2) d]
  have st: "commit_operations vs c trx (x # xs) T = commit_operations vs c trx xs ?T"
    using x r by (simp add: commit_operation_def table_visit_record_def)
  show ?case unfolding x(1) st [unfolded x(1)] IH by (subst settled_step [of t rid xs T r c, OF nx(1) r(1)]) (rule refl)
qed

lemma rollback_operations_ok:
  assumes "ops_done xs (mt_trx_id trx) T" "distinct xs" "\<forall>x \<in> set xs. \<exists>t rid. x = op_del t rid \<and> t \<notin> set vs"
  shows "rollback_operations vs trx xs SUCCESS T =
     Some (False, SUCCESS, \<lambda>t rid. map_option (\<lambda>r. r\<lparr>tr_end := (if op_del t rid \<in> set xs then MAX_TRX_ID else tr_end r)\<rparr>) (T t rid))"
  using assms
proof (induction xs arbitrary: T)
  case Nil
  then show ?case by (simp add: option.map_ident)
next
  case (Cons x xs)
  from Cons.prems(3) obtain t rid where x: "x = op_del t rid" "t \<notin> set vs" by auto
  from Cons.prems(2) x have nx: "op_del t rid \<notin> set xs" "distinct xs" by simp_all
  from Cons.prems(3) have d: "\<forall>x \<in> set xs. \<exists>t rid. x = op_del t rid \<and> t \<notin> set vs" by simp
  from ops_doneD [OF Cons.prems(1), of t rid] x obtain r where r: "T t rid = Some r" "tr_end r = - mt_trx_id trx" by auto
  let ?T = "T(t := (T t)(rid \<mapsto> r\<lparr>tr_end := MAX_TRX_ID\<rparr>))"
  have "ops_done xs (mt_trx_id trx) ?T" by (rule ops_done_step [OF Cons.prems(1) [unfolded x(1)] nx(1)])
  note IH = Cons.IH [OF this nx(2) d]
  have st: "rollback_operations vs trx (x # xs) SUCCESS T = rollback_operations vs trx xs SUCCESS ?T"
    using x r by (simp add: rollback_operation_def table_visit_record_def Let_def)
  show ?case unfolding x(1) st [unfolded x(1)] IH by (subst settled_step [of t rid xs T r MAX_TRX_ID, OF nx(1) r(1)]) (rule refl)
qed

section \<open>The invariant\<close>

definition active_ids :: "(nat \<rightharpoonup> MvccTrx) \<Rightarrow> int set" where
  "active_ids Ob = {mt_trx_id x | a x. Ob a = Some x \<and> mt_started x}"

text \<open>
  The hidden fields of a record: both are set, to ids given out or their negations. No running
  transaction has inserted it, and it was committed before any of them began, for nothing inserts
  into the tables. A negative id may be left from a transaction that a crash has stopped.
\<close>

definition rec_ok :: "int \<Rightarrow> int set \<Rightarrow> TrxRecord \<Rightarrow> bool" where
  "rec_ok n A r \<longleftrightarrow> tr_begin r \<noteq> 0 \<and> \<bar>tr_begin r\<bar> \<le> n \<and> (\<forall>i \<in> A. tr_begin r \<noteq> - i \<and> tr_begin r \<le> i) \<and>
     tr_end r \<noteq> 0 \<and> (tr_end r = MAX_TRX_ID \<or> \<bar>tr_end r\<bar> \<le> n)"

text \<open>A running transaction has noted exactly the records it has marked.\<close>

definition marks_ok :: "tables \<Rightarrow> int \<Rightarrow> Operation list \<Rightarrow> bool" where
  "marks_ok T i xs \<longleftrightarrow> (\<forall>t rid. op_del t rid \<in> set xs \<longleftrightarrow> (\<exists>r. T t rid = Some r \<and> tr_end r = - i))"

definition trx_ok :: "int list \<Rightarrow> int \<Rightarrow> tables \<Rightarrow> MvccTrx \<Rightarrow> bool" where
  "trx_ok vs n T x \<longleftrightarrow> \<not> mt_recovering x \<and>
     (if mt_started x then 0 < mt_trx_id x \<and> mt_trx_id x \<le> n \<and> ops_wf vs (mt_operations x) \<and> marks_ok T (mt_trx_id x) (mt_operations x)
      else mt_operations x = [])"

definition mv_ok :: "int list \<Rightarrow> int \<Rightarrow> tables \<Rightarrow> (nat \<rightharpoonup> MvccTrx) \<Rightarrow> bool" where
  "mv_ok vs n T Ob \<longleftrightarrow> 0 \<le> n \<and> n < MAX_TRX_ID \<and>
     (\<forall>a x. Ob a = Some x \<longrightarrow> trx_ok vs n T x) \<and>
     (\<forall>a b x y. Ob a = Some x \<longrightarrow> Ob b = Some y \<longrightarrow> mt_started x \<longrightarrow> mt_started y \<longrightarrow> mt_trx_id x = mt_trx_id y \<longrightarrow> a = b) \<and>
     (\<forall>t rid r. T t rid = Some r \<longrightarrow> rec_ok n (active_ids Ob) r)"

definition mvcc_inv :: "MvccDb \<Rightarrow> bool" where
  "mvcc_inv db \<longleftrightarrow> mv_ok (md_views db) (md_current_trx_id db) (md_tables db) (md_objs db)"

lemma mv_okD:
  assumes "mv_ok vs n T Ob"
  shows "0 \<le> n" "n < MAX_TRX_ID" "Ob a = Some x \<Longrightarrow> trx_ok vs n T x" "T t rid = Some r \<Longrightarrow> rec_ok n (active_ids Ob) r"
    "Ob a = Some x \<Longrightarrow> Ob b = Some y \<Longrightarrow> mt_started x \<Longrightarrow> mt_started y \<Longrightarrow> mt_trx_id x = mt_trx_id y \<Longrightarrow> a = b"
  using assms unfolding mv_ok_def by blast+

lemma mv_okI:
  assumes "0 \<le> n" "n < MAX_TRX_ID" "\<And>a x. Ob a = Some x \<Longrightarrow> trx_ok vs n T x"
    "\<And>a b x y. Ob a = Some x \<Longrightarrow> Ob b = Some y \<Longrightarrow> mt_started x \<Longrightarrow> mt_started y \<Longrightarrow> mt_trx_id x = mt_trx_id y \<Longrightarrow> a = b"
    "\<And>t rid r. T t rid = Some r \<Longrightarrow> rec_ok n (active_ids Ob) r"
  shows "mv_ok vs n T Ob"
  using assms unfolding mv_ok_def by blast

lemma active_range:
  assumes "mv_ok vs n T Ob" "i \<in> active_ids Ob"
  shows "0 < i" "i \<le> n"
  using assms(2) mv_okD(3) [OF assms(1)] by (auto simp: active_ids_def trx_ok_def)

lemma active_updD:
  "i \<in> active_ids (Ob(a \<mapsto> y)) \<Longrightarrow> i \<in> active_ids Ob \<or> i = mt_trx_id y \<and> mt_started y"
  by (auto simp: active_ids_def split: if_splits)

lemma active_upd:
  assumes "Ob a = Some x" "mt_trx_id y = mt_trx_id x" "mt_started y = mt_started x"
  shows "active_ids (Ob(a \<mapsto> y)) \<subseteq> active_ids Ob"
  using active_updD [of _ Ob a y] assms by (auto simp: active_ids_def)

lemma active_end: "\<not> mt_started y \<Longrightarrow> active_ids (Ob(a \<mapsto> y)) \<subseteq> active_ids Ob"
  using active_updD [of _ Ob a y] by auto

text \<open>Another transaction's marks are not those of \<open>i\<close>.\<close>

lemma others_id:
  assumes "mv_ok vs n T Ob" "Ob a = Some x" "mt_started x" "Ob b = Some y" "mt_started y" "a \<noteq> b"
  shows "mt_trx_id y \<noteq> mt_trx_id x"
  using mv_okD(5) [OF assms(1,2,4,3,5)] assms(6) by metis

lemma rec_ok_mono: "rec_ok n A r \<Longrightarrow> n \<le> m \<Longrightarrow> B \<subseteq> A \<Longrightarrow> rec_ok m B r"
  unfolding rec_ok_def by auto

lemma trx_ok_mono: "trx_ok vs n T x \<Longrightarrow> n \<le> m \<Longrightarrow> trx_ok vs m T x"
  unfolding trx_ok_def by auto

lemma mv_create:
  assumes ok: "mv_ok vs n T Ob" and a: "Ob a = None"
  shows "mv_ok vs n T (Ob(a \<mapsto> MvccTrx_new))"
proof (rule mv_okI)
  have act: "active_ids (Ob(a \<mapsto> MvccTrx_new)) \<subseteq> active_ids Ob" by (rule active_end) (simp add: MvccTrx_new_def)
  show "rec_ok n (active_ids (Ob(a \<mapsto> MvccTrx_new))) r" if "T t rid = Some r" for t rid r
    by (rule rec_ok_mono [OF mv_okD(4) [OF ok that] _ act]) simp
  show "trx_ok vs n T x" if "(Ob(a \<mapsto> MvccTrx_new)) b = Some x" for b x
    using that mv_okD(3) [OF ok, of b x] by (auto simp: trx_ok_def MvccTrx_new_def split: if_splits)
  show "c = b" if "(Ob(a \<mapsto> MvccTrx_new)) c = Some x" "(Ob(a \<mapsto> MvccTrx_new)) b = Some y" "mt_started x" "mt_started y" "mt_trx_id x = mt_trx_id y" for c b x y
    using that mv_okD(5) [OF ok, of c x b y] by (auto simp: MvccTrx_new_def split: if_splits)
qed (use mv_okD(1,2) [OF ok] in auto)

lemma mv_start:
  assumes ok: "mv_ok vs n T Ob" and a: "Ob a = Some x" "\<not> mt_started x" and n: "n + 1 < MAX_TRX_ID"
  shows "mv_ok vs (n + 1) T (Ob(a \<mapsto> x\<lparr>mt_trx_id := n + 1, mt_started := True\<rparr>))"
proof (rule mv_okI)
  let ?x = "x\<lparr>mt_trx_id := n + 1, mt_started := True\<rparr>"
  let ?Ob = "Ob(a \<mapsto> ?x)"
  have act: "active_ids ?Ob \<subseteq> insert (n + 1) (active_ids Ob)" using active_updD [of _ Ob a ?x] by auto
  show "rec_ok (n + 1) (active_ids ?Ob) r" if "T t rid = Some r" for t rid r
    by (rule rec_ok_mono [of _ "insert (n + 1) (active_ids Ob)", OF _ _ act])
      (use mv_okD(4) [OF ok that] in \<open>auto simp: rec_ok_def\<close>)
  have none: "tr_end r \<noteq> - (n + 1)" if "T t rid = Some r" for t rid r
    using mv_okD(4) [OF ok that] mv_okD(1,2) [OF ok] by (auto simp: rec_ok_def)
  show "trx_ok vs (n + 1) T y" if y: "?Ob b = Some y" for b y
  proof (cases "b = a")
    case True
    have "mt_operations x = []" "\<not> mt_recovering x" using mv_okD(3) [OF ok a(1)] a(2) by (simp_all add: trx_ok_def)
    moreover have "marks_ok T (n + 1) []" using none by (auto simp: marks_ok_def)
    ultimately show ?thesis using True y mv_okD(1) [OF ok] by (auto simp: trx_ok_def ops_wf_def)
  next
    case False
    then show ?thesis using trx_ok_mono [OF mv_okD(3) [OF ok, of b y]] y by simp
  qed
  show "c = b" if h: "?Ob c = Some y" "?Ob b = Some z" "mt_started y" "mt_started z" "mt_trx_id y = mt_trx_id z" for c b y z
  proof -
    have old: "mt_trx_id w \<le> n" if "Ob d = Some w" "mt_started w" for d w
      using mv_okD(3) [OF ok that(1)] that(2) by (simp add: trx_ok_def)
    show ?thesis using h mv_okD(5) [OF ok, of c y b z] old [of c y] old [of b z] by (auto split: if_splits)
  qed
qed (use mv_okD(1,2) [OF ok] n in auto)

text \<open>A running transaction notes an operation, and may have changed end ids that are no other's marks.\<close>

lemma mv_note:
  assumes ok: "mv_ok vs n T Ob" and a: "Ob a = Some x" "mt_started x"
    and rec: "\<And>t rid r. T' t rid = Some r \<Longrightarrow> rec_ok n (active_ids Ob) r"
    and wf: "ops_wf vs (mt_operations x @ [p])" and mk: "marks_ok T' (mt_trx_id x) (mt_operations x @ [p])"
    and oth: "\<And>t rid j. j \<noteq> mt_trx_id x \<Longrightarrow> 0 < j \<Longrightarrow> j \<le> n \<Longrightarrow> j \<in> active_ids Ob \<Longrightarrow>
        (\<exists>r. T' t rid = Some r \<and> tr_end r = - j) = (\<exists>r. T t rid = Some r \<and> tr_end r = - j)"
  shows "mv_ok vs n T' (Ob(a \<mapsto> x\<lparr>mt_operations := mt_operations x @ [p]\<rparr>))"
proof (rule mv_okI)
  let ?x = "x\<lparr>mt_operations := mt_operations x @ [p]\<rparr>"
  let ?Ob = "Ob(a \<mapsto> ?x)"
  have act: "active_ids ?Ob \<subseteq> active_ids Ob" by (rule active_upd [of Ob a x]) (simp_all add: a)
  show "rec_ok n (active_ids ?Ob) r" if "T' t rid = Some r" for t rid r
    by (rule rec_ok_mono [OF rec [OF that] _ act]) simp
  show "trx_ok vs n T' y" if y: "?Ob b = Some y" for b y
  proof (cases "b = a")
    case True
    then show ?thesis using y mv_okD(3) [OF ok a(1)] a(2) wf mk by (auto simp: trx_ok_def)
  next
    case False
    then have yb: "Ob b = Some y" using y by simp
    note t = mv_okD(3) [OF ok yb]
    show ?thesis
    proof (cases "mt_started y")
      case True
      have j: "mt_trx_id y \<noteq> mt_trx_id x" "0 < mt_trx_id y" "mt_trx_id y \<le> n" "mt_trx_id y \<in> active_ids Ob"
        using others_id [OF ok a yb True] False t True yb by (auto simp: trx_ok_def active_ids_def)
      show ?thesis using t True oth [OF j] by (simp add: trx_ok_def marks_ok_def)
    next
      case False
      then show ?thesis using t by (simp add: trx_ok_def)
    qed
  qed
  show "c = b" if "?Ob c = Some y" "?Ob b = Some z" "mt_started y" "mt_started z" "mt_trx_id y = mt_trx_id z" for c b y z
    using that mv_okD(5) [OF ok, of c "if c = a then x else y" b "if b = a then x else z"] a by (auto split: if_splits)
qed (use mv_okD(1,2) [OF ok] in auto)

lemma MAX_pos: "mv_ok vs n T Ob \<Longrightarrow> 0 < MAX_TRX_ID"
  using mv_okD(1,2) [of vs n T Ob] by linarith

text \<open>The end of a transaction: its marks are replaced in every record at once.\<close>

lemma mv_settle:
  assumes ok: "mv_ok vs n T Ob" and a: "Ob a = Some x" "mt_started x" and m: "n \<le> m" "m < MAX_TRX_ID"
    and c: "c = MAX_TRX_ID \<or> 0 < c \<and> c \<le> m"
  shows "mv_ok vs m (settle (mt_trx_id x) c T) (Ob(a \<mapsto> x\<lparr>mt_started := False, mt_operations := []\<rparr>))"
proof (rule mv_okI)
  let ?i = "mt_trx_id x" and ?T = "settle (mt_trx_id x) c T"
  let ?O = "Ob(a \<mapsto> x\<lparr>mt_started := False, mt_operations := []\<rparr>)"
  note tx = mv_okD(3) [OF ok a(1)]
  have i: "0 < ?i" "?i \<le> n" using tx a(2) by (simp_all add: trx_ok_def)
  have cp: "0 < c" using c MAX_pos [OF ok] by auto
  have act: "active_ids ?O \<subseteq> active_ids Ob" by (rule active_end) simp
  show "rec_ok m (active_ids ?O) r'" if t: "?T t rid = Some r'" for t rid r'
  proof -
    from t obtain r where r: "T t rid = Some r" "r' = r\<lparr>tr_end := (if tr_end r = - ?i then c else tr_end r)\<rparr>"
      by (auto simp: settle_def)
    have "rec_ok m (active_ids Ob) r" by (rule rec_ok_mono [OF mv_okD(4) [OF ok r(1)] m(1) order.refl])
    then have "rec_ok m (active_ids Ob) r'" using r(2) c cp by (auto simp: rec_ok_def)
    then show ?thesis by (rule rec_ok_mono [OF _ order.refl act])
  qed
  show "trx_ok vs m ?T y" if y: "?O b = Some y" for b y
  proof (cases "b = a \<or> \<not> mt_started y")
    case True
    then show ?thesis using y tx mv_okD(3) [OF ok, of b y] by (auto simp: trx_ok_def split: if_splits)
  next
    case False
    then have yb: "Ob b = Some y" and s: "mt_started y" using y by auto
    note t = mv_okD(3) [OF ok yb]
    have j: "mt_trx_id y \<noteq> ?i" "0 < mt_trx_id y" using others_id [OF ok a yb s] False t s by (auto simp: trx_ok_def)
    have "(\<exists>r. ?T t rid = Some r \<and> tr_end r = - mt_trx_id y) = (\<exists>r. T t rid = Some r \<and> tr_end r = - mt_trx_id y)" for t rid
      using j cp by (cases "T t rid") (auto simp: settle_def)
    then show ?thesis using t s m(1) by (simp add: trx_ok_def marks_ok_def)
  qed
  show "d = b" if "?O d = Some y" "?O b = Some z" "mt_started y" "mt_started z" "mt_trx_id y = mt_trx_id z" for d b y z
    using that mv_okD(5) [OF ok, of d y b z] by (auto split: if_splits)
qed (use mv_okD(1) [OF ok] m in auto)

lemma mv_insert:
  assumes ok: "mv_ok vs n T Ob" and a: "Ob a = Some x" "mt_started x"
  shows "mv_ok vs n T (Ob(a \<mapsto> x\<lparr>mt_operations := mt_operations x @ [op_ins t rid]\<rparr>))"
proof (rule mv_note [OF ok a])
  have tx: "ops_wf vs (mt_operations x)" "marks_ok T (mt_trx_id x) (mt_operations x)"
    using mv_okD(3) [OF ok a(1)] a(2) by (simp_all add: trx_ok_def)
  show "ops_wf vs (mt_operations x @ [op_ins t rid])" using tx(1) unfolding ops_wf_def by auto
  show "marks_ok T (mt_trx_id x) (mt_operations x @ [op_ins t rid])" using tx(2) by (simp add: marks_ok_def)
qed (use mv_okD(4) [OF ok] in auto)

lemma mv_delete:
  assumes ok: "mv_ok vs n T Ob" and a: "Ob a = Some x" "mt_started x" and T: "T t rid = Some r" "0 < tr_end r" and v: "t \<notin> set vs"
  shows "mv_ok vs n (T(t := (T t)(rid \<mapsto> r\<lparr>tr_end := - mt_trx_id x\<rparr>)))
    (Ob(a \<mapsto> x\<lparr>mt_operations := mt_operations x @ [op_del t rid]\<rparr>))"
proof (rule mv_note [OF ok a])
  let ?r = "r\<lparr>tr_end := - mt_trx_id x\<rparr>" and ?T = "T(t := (T t)(rid \<mapsto> r\<lparr>tr_end := - mt_trx_id x\<rparr>))"
  note tx = mv_okD(3) [OF ok a(1)]
  have i: "0 < mt_trx_id x" "mt_trx_id x \<le> n" and wf: "ops_wf vs (mt_operations x)" and mk: "marks_ok T (mt_trx_id x) (mt_operations x)"
    using tx a(2) by (simp_all add: trx_ok_def)
  show "rec_ok n (active_ids Ob) r'" if "?T t1 rid1 = Some r'" for t1 rid1 r'
    using that mv_okD(4) [OF ok, of t1 rid1] T(1) i by (auto simp: rec_ok_def split: if_splits)
  have "op_del t rid \<notin> set (mt_operations x)" using mk T i by (auto simp: marks_ok_def)
  then show "ops_wf vs (mt_operations x @ [op_del t rid])" using wf v unfolding ops_wf_def by auto
  show "marks_ok ?T (mt_trx_id x) (mt_operations x @ [op_del t rid])"
    using mk T(1) unfolding marks_ok_def by auto
  show "(\<exists>r. ?T t1 rid1 = Some r \<and> tr_end r = - j) = (\<exists>r. T t1 rid1 = Some r \<and> tr_end r = - j)"
    if "j \<noteq> mt_trx_id x" "0 < j" for t1 rid1 j using that T by auto
qed

section \<open>The transactions refine marks on the tables\<close>

lemma log_append_success:
  assumes "log_ready lg" "n \<le> max_payload_size"
  shows "\<exists>l lg'. log_append m n d lg = Some (SUCCESS, l, lg')"
  using assms by (cases lg) (auto simp: disk_append_def LogEntryBuffer_append_def LogEntry_init_def Let_def)

lemma log_record_op_ok: "log_ready lg \<Longrightarrow> 0 < i \<Longrightarrow> \<exists>lg'. log_record_op op i t rid lg = Some (SUCCESS, lg')"
  using log_append_success [of lg 20 TRANSACTION "enc_trx_record (trx_operation_id op) i t rid"]
  by (auto simp: log_record_op_def max_payload_size_def LogEntry_max_size_def LogHeader_SIZE_def)

lemma log_rollback_ok: "log_ready lg \<Longrightarrow> 0 < i \<Longrightarrow> \<exists>lg'. log_rollback i lg = Some (SUCCESS, lg')"
  using log_append_success [of lg 12 TRANSACTION "enc_trx_commit TRX_ROLLBACK i 0"]
  by (auto simp: log_rollback_def max_payload_size_def LogEntry_max_size_def LogHeader_SIZE_def)

text \<open>The thread brings the log to a state in which no wait lasts for ever.\<close>

definition thread_flushes :: "(DbLog \<Rightarrow> DbLog) \<Rightarrow> bool" where
  "thread_flushes th \<longleftrightarrow> (\<forall>lg l. log_wait_lsn l (th lg) \<noteq> None)"

lemma log_commit_ok:
  assumes "log_ready lg" "thread_flushes th" "0 < i" "i < c"
  shows "\<exists>rc lg'. log_commit th i c lg = Some (rc, lg')"
proof -
  from log_append_success [OF assms(1), of 12 TRANSACTION "enc_trx_commit TRX_COMMIT i c"] obtain l lg1 where
    l: "log_append TRANSACTION 12 (enc_trx_commit TRX_COMMIT i c) lg = Some (SUCCESS, l, lg1)"
    by (auto simp: max_payload_size_def LogEntry_max_size_def LogHeader_SIZE_def)
  from assms(2) obtain rc where "log_wait_lsn l (th lg1) = Some rc" unfolding thread_flushes_def by blast
  with l assms(3,4) show ?thesis by (simp add: log_commit_def)
qed

text \<open>
  What the operations need: the transaction is there and has started, the log takes an entry, ids
  are left; a transaction that commits or rolls back has inserted nothing. A delete may be of any
  record.
\<close>

fun trx_allowed :: "trx_op \<Rightarrow> MvccDb \<Rightarrow> bool" where
  "trx_allowed (TCreate a) db \<longleftrightarrow> md_objs db a = None"
| "trx_allowed (TStart a) db \<longleftrightarrow> (\<exists>x. md_objs db a = Some x) \<and> md_current_trx_id db + 1 < MAX_TRX_ID"
| "trx_allowed (TInsert a t rid d) db \<longleftrightarrow> (\<exists>x. md_objs db a = Some x \<and> mt_started x) \<and> log_ready (md_log db)"
| "trx_allowed (TDelete a t rid) db \<longleftrightarrow> (\<exists>x. md_objs db a = Some x \<and> mt_started x) \<and> log_ready (md_log db)"
| "trx_allowed (TCommit a th) db \<longleftrightarrow> (\<exists>x. md_objs db a = Some x \<and> mt_started x \<and> only_deletes x) \<and> log_ready (md_log db) \<and> thread_flushes th \<and>
     md_current_trx_id db + 1 < MAX_TRX_ID"
| "trx_allowed (TRollback a) db \<longleftrightarrow> (\<exists>x. md_objs db a = Some x \<and> mt_started x \<and> only_deletes x) \<and> log_ready (md_log db)"

text \<open>
  The specification knows no operation lists: the ids given out, the tables with their marks,
  the running transactions' ids, and the views.
\<close>

type_synonym trx_abs = "int \<times> tables \<times> (nat \<Rightarrow> int option) \<times> int set"

fun trx_spec :: "trx_op \<Rightarrow> trx_abs \<Rightarrow> RC \<Rightarrow> trx_abs \<Rightarrow> bool" where
  "trx_spec (TCreate a) (n, T, R, V) rc s' \<longleftrightarrow> rc = SUCCESS \<and> s' = (n, T, R, V)"
| "trx_spec (TStart a) (n, T, R, V) rc s' \<longleftrightarrow> rc = SUCCESS \<and> s' = (if R a = None then (n + 1, T, R(a \<mapsto> n + 1), V) else (n, T, R, V))"
| "trx_spec (TInsert a t rid d) (n, T, R, V) rc s' \<longleftrightarrow> rc = (if t \<in> V then ERROR else SUCCESS) \<and> s' = (n, T, R, V)"
| "trx_spec (TDelete a t rid) (n, T, R, V) rc s' \<longleftrightarrow> (\<exists>i. R a = Some i \<and>
     (if t \<in> V then rc = ERROR \<and> s' = (n, T, R, V)
      else case T t rid of
        None \<Rightarrow> rc = RECORD_NOT_EXIST \<and> s' = (n, T, R, V)
      | Some r \<Rightarrow>
          if 0 < tr_begin r \<and> 0 < tr_end r \<and> i \<le> tr_end r
          then rc = SUCCESS \<and> s' = (n, T(t := (T t)(rid \<mapsto> r\<lparr>tr_end := - i\<rparr>)), R, V)
          else rc = (if 0 < tr_begin r \<and> tr_end r < 0 \<and> tr_end r \<noteq> - i then LOCKED_CONCURRENCY_CONFLICT else RECORD_INVISIBLE) \<and>
               s' = (n, T, R, V)))"
| "trx_spec (TCommit a th) (n, T, R, V) rc s' \<longleftrightarrow> (\<exists>i. R a = Some i \<and> s' = (n + 1, settle i (n + 1) T, R(a := None), V))"
| "trx_spec (TRollback a) (n, T, R, V) rc s' \<longleftrightarrow> rc = SUCCESS \<and> (\<exists>i. R a = Some i \<and> s' = (n, settle i MAX_TRX_ID T, R(a := None), V))"

definition running :: "(nat \<rightharpoonup> MvccTrx) \<Rightarrow> nat \<Rightarrow> int option" where
  "running Ob a = (case Ob a of None \<Rightarrow> None | Some x \<Rightarrow> if mt_started x then Some (mt_trx_id x) else None)"

definition trx_view :: "MvccDb \<Rightarrow> trx_abs" where
  "trx_view db = (md_current_trx_id db, md_tables db, running (md_objs db), set (md_views db))"

lemma running_upd: "running (Ob(a \<mapsto> y)) = (running Ob)(a := (if mt_started y then Some (mt_trx_id y) else None))"
  by (auto simp: running_def fun_eq_iff)

lemma next_id: "0 \<le> n \<Longrightarrow> n < MAX_TRX_ID \<Longrightarrow> to_int32 (n + 1) = n + 1"
  by (rule to_int32_id) (simp add: int32_range_def MAX_TRX_ID_def INT32_MAX_def)

lemma started_facts:
  assumes "mv_ok vs n T Ob" "Ob a = Some x" "mt_started x"
  shows "0 < mt_trx_id x" "mt_trx_id x \<le> n" "ops_wf vs (mt_operations x)" "marks_ok T (mt_trx_id x) (mt_operations x)" "\<not> mt_recovering x"
    "running Ob a = Some (mt_trx_id x)" "mt_trx_id x \<in> active_ids Ob"
  using mv_okD(3) [OF assms(1,2)] assms(2,3) by (auto simp: trx_ok_def running_def active_ids_def)

lemma only_deletes_wf:
  assumes "ops_wf vs (mt_operations x)" "only_deletes x"
  shows "distinct (mt_operations x)" "\<forall>p \<in> set (mt_operations x). \<exists>t rid. p = op_del t rid \<and> t \<notin> set vs"
proof -
  have "filter (\<lambda>p. op_type p = OP_DELETE) (mt_operations x) = mt_operations x"
    using assms(2) by (simp add: only_deletes_def filter_id_conv)
  then show "distinct (mt_operations x)" using assms(1) by (simp add: ops_wf_def)
  show "\<forall>p \<in> set (mt_operations x). \<exists>t rid. p = op_del t rid \<and> t \<notin> set vs"
    using assms unfolding ops_wf_def only_deletes_def by fastforce
qed

lemma settle_marks:
  assumes "marks_ok T i xs"
  shows "(\<lambda>t rid. map_option (\<lambda>r. r\<lparr>tr_end := (if op_del t rid \<in> set xs then c else tr_end r)\<rparr>) (T t rid)) = settle i c T"
proof (intro ext)
  fix t rid
  show "map_option (\<lambda>r. r\<lparr>tr_end := (if op_del t rid \<in> set xs then c else tr_end r)\<rparr>) (T t rid) = settle i c T t rid"
    using assms by (cases "T t rid") (auto simp: settle_def marks_ok_def)
qed

lemma commit_settles:
  assumes ok: "mv_ok vs n T Ob" and a: "Ob a = Some x" "mt_started x" and od: "only_deletes x"
  shows "commit_operations vs c x (mt_operations x) T = Some (settle (mt_trx_id x) c T)"
proof -
  note f = started_facts [OF ok a]
  have "ops_done (mt_operations x) (mt_trx_id x) T" using f(4) by (simp add: marks_ok_def ops_done_def)
  from commit_operations_ok [OF this only_deletes_wf [OF f(3) od]] show ?thesis unfolding settle_marks [OF f(4)] .
qed

lemma rollback_settles:
  assumes ok: "mv_ok vs n T Ob" and a: "Ob a = Some x" "mt_started x" and od: "only_deletes x"
  shows "rollback_operations vs x (rev (mt_operations x)) SUCCESS T = Some (False, SUCCESS, settle (mt_trx_id x) MAX_TRX_ID T)"
proof -
  note f = started_facts [OF ok a]
  note w = only_deletes_wf [OF f(3) od]
  have m: "marks_ok T (mt_trx_id x) (rev (mt_operations x))" using f(4) by (simp add: marks_ok_def)
  then have d: "ops_done (rev (mt_operations x)) (mt_trx_id x) T" by (simp add: marks_ok_def ops_done_def)
  from w have "distinct (rev (mt_operations x))" "\<forall>p \<in> set (rev (mt_operations x)). \<exists>t rid. p = op_del t rid \<and> t \<notin> set vs" by simp_all
  from rollback_operations_ok [OF d this] show ?thesis unfolding settle_marks [OF m] .
qed

text \<open>What \<open>visit_record\<close> answers on a record of the tables, for both modes.\<close>

lemma visit_cases:
  assumes "rec_ok n A r" "mt_trx_id x \<in> A" "0 < mt_trx_id x"
  shows "mvcc_visit_record x r READ_ONLY =
      (if 0 < tr_begin r \<and> (mt_trx_id x \<le> tr_end r \<or> tr_end r < 0 \<and> tr_end r \<noteq> - mt_trx_id x) then SUCCESS else RECORD_INVISIBLE)"
    "mvcc_visit_record x r READ_WRITE =
      (if 0 < tr_begin r \<and> 0 < tr_end r \<and> mt_trx_id x \<le> tr_end r then SUCCESS
       else if 0 < tr_begin r \<and> tr_end r < 0 \<and> tr_end r \<noteq> - mt_trx_id x then LOCKED_CONCURRENCY_CONFLICT else RECORD_INVISIBLE)"
proof -
  have b: "tr_begin r \<noteq> - mt_trx_id x" "tr_begin r \<le> mt_trx_id x" "tr_begin r \<noteq> 0" "tr_end r \<noteq> 0"
    using assms by (auto simp: rec_ok_def)
  show "mvcc_visit_record x r READ_ONLY =
      (if 0 < tr_begin r \<and> (mt_trx_id x \<le> tr_end r \<or> tr_end r < 0 \<and> tr_end r \<noteq> - mt_trx_id x) then SUCCESS else RECORD_INVISIBLE)"
    using b assms(3) by (auto simp: mvcc_visit_record_def Let_def)
  show "mvcc_visit_record x r READ_WRITE =
      (if 0 < tr_begin r \<and> 0 < tr_end r \<and> mt_trx_id x \<le> tr_end r then SUCCESS
       else if 0 < tr_begin r \<and> tr_end r < 0 \<and> tr_end r \<noteq> - mt_trx_id x then LOCKED_CONCURRENCY_CONFLICT else RECORD_INVISIBLE)"
    using b assms(3) by (auto simp: mvcc_visit_record_def Let_def)
qed

lemma trx_step_ok:
  assumes inv: "mvcc_inv db" and al: "trx_allowed p db"
  shows "\<exists>rc db'. trx_step p db = Some (rc, db') \<and> mvcc_inv db' \<and> trx_spec p (trx_view db) rc (trx_view db') \<and>
    (\<forall>b. b \<noteq> trx_addr p \<longrightarrow> md_objs db' b = md_objs db b)"
proof -
  let ?n = "md_current_trx_id db" and ?T = "md_tables db" and ?O = "md_objs db" and ?V = "md_views db"
  have ok: "mv_ok ?V ?n ?T ?O" using inv by (simp add: mvcc_inv_def)
  note nx = next_id [OF mv_okD(1,2) [OF ok]]
  show ?thesis
  proof (cases p)
    case (TCreate a)
    have "running (?O(a \<mapsto> MvccTrx_new)) = running ?O"
      using al TCreate by (auto simp: running_def fun_eq_iff MvccTrx_new_def)
    then show ?thesis using TCreate al mv_create [OF ok, of a]
      by (simp add: create_trx_def mvcc_inv_def trx_view_def)
  next
    case (TStart a)
    with al obtain x where x: "?O a = Some x" "?n + 1 < MAX_TRX_ID" by auto
    show ?thesis
    proof (cases "mt_started x")
      case True
      then have "?O(a \<mapsto> x) = ?O" using x by auto
      then show ?thesis using TStart x True inv
        by (simp add: on_trx_def start_if_need_def trx_view_def mvcc_inv_def running_def)
    next
      case False
      have e: "mt_operations x = []" using mv_okD(3) [OF ok x(1)] False by (simp add: trx_ok_def)
      have "running ?O a = None" using x False by (simp add: running_def)
      then show ?thesis using TStart x False e nx mv_start [OF ok x(1) False x(2)]
        by (simp add: on_trx_def start_if_need_def next_trx_id_def Let_def trx_view_def mvcc_inv_def running_upd)
    qed
  next
    case (TInsert a t rid d)
    with al obtain x where x: "?O a = Some x" "mt_started x" and lg: "log_ready (md_log db)" by auto
    note f = started_facts [OF ok x]
    have same: "?O(a \<mapsto> x) = ?O" using x by auto
    from log_record_op_ok [OF lg f(1)] obtain lg' where l: "log_record_op OP_INSERT (mt_trx_id x) t rid (md_log db) = Some (SUCCESS, lg')" by blast
    have "running (?O(a \<mapsto> x\<lparr>mt_operations := mt_operations x @ [op_ins t rid]\<rparr>)) = running ?O"
      using x by (auto simp: running_def fun_eq_iff)
    then show ?thesis using TInsert x l f(6) inv same mv_insert [OF ok x, of t rid]
      by (simp add: on_trx_def mvcc_insert_record_def table_insert_record_def push_simps trx_view_def mvcc_inv_def)
  next
    case (TDelete a t rid)
    with al obtain x where x: "?O a = Some x" "mt_started x" and lg: "log_ready (md_log db)" by auto
    note f = started_facts [OF ok x]
    have same: "?O(a \<mapsto> x) = ?O" using x by auto
    consider (view) "t \<in> set ?V" | (none) "t \<notin> set ?V" "?T t rid = None" | (rec) r where "t \<notin> set ?V" "?T t rid = Some r" by auto
    then show ?thesis
    proof cases
      case view
      then show ?thesis using TDelete x f(6) inv same
        by (simp add: on_trx_def mvcc_delete_record_def table_visit_record_def Let_def trx_view_def mvcc_inv_def)
    next
      case none
      then show ?thesis using TDelete x f(6) inv same
        by (simp add: on_trx_def mvcc_delete_record_def table_visit_record_def Let_def trx_view_def mvcc_inv_def)
    next
      case rec
      let ?v = "mvcc_visit_record x r READ_WRITE"
      note v = visit_cases(2) [OF mv_okD(4) [OF ok rec(2)] f(7,1)]
      show ?thesis
      proof (cases "?v = SUCCESS")
        case True
        from log_record_op_ok [OF lg f(1)] obtain lg' where l: "log_record_op OP_DELETE (mt_trx_id x) t rid (md_log db) = Some (SUCCESS, lg')" by blast
        have "running (?O(a \<mapsto> x\<lparr>mt_operations := mt_operations x @ [op_del t rid]\<rparr>)) = running ?O"
          using x by (auto simp: running_def fun_eq_iff)
        moreover have c: "0 < tr_begin r" "0 < tr_end r" "mt_trx_id x \<le> tr_end r" using True unfolding v by (auto split: if_splits)
        ultimately show ?thesis using TDelete x rec l f(6) True mv_delete [OF ok x rec(2) c(2) rec(1)]
          by (simp add: on_trx_def mvcc_delete_record_def table_visit_record_def Let_def push_simps trx_view_def mvcc_inv_def)
      next
        case False
        have "trx_spec p (trx_view db) ?v (trx_view db)"
          using TDelete rec f(6) False unfolding v by (auto simp: trx_view_def split: if_splits)
        then show ?thesis using TDelete x rec inv same False
          by (simp add: on_trx_def mvcc_delete_record_def table_visit_record_def Let_def trx_view_def mvcc_inv_def)
      qed
    qed
  next
    case (TCommit a th)
    with al obtain x where x: "?O a = Some x" "mt_started x" and od: "only_deletes x"
      and lg: "log_ready (md_log db)" "thread_flushes th" and n: "?n + 1 < MAX_TRX_ID" by auto
    note f = started_facts [OF ok x]
    have "mt_trx_id x < ?n + 1" using f(2) by simp
    from log_commit_ok [OF lg f(1) this] obtain rc lg' where l: "log_commit th (mt_trx_id x) (?n + 1) (md_log db) = Some (rc, lg')" by blast
    have "mv_ok ?V (?n + 1) (settle (mt_trx_id x) (?n + 1) ?T) (?O(a \<mapsto> x\<lparr>mt_started := False, mt_operations := []\<rparr>))"
      by (rule mv_settle [OF ok x]) (use n mv_okD(1) [OF ok] in auto)
    then show ?thesis using TCommit x l f(5,6) nx commit_settles [OF ok x od, of "?n + 1"]
      by (simp add: on_trx_def mvcc_commit_def next_trx_id_def Let_def commit_with_trx_id_def trx_view_def mvcc_inv_def running_upd)
  next
    case (TRollback a)
    with al obtain x where x: "?O a = Some x" "mt_started x" and od: "only_deletes x" and lg: "log_ready (md_log db)" by auto
    note f = started_facts [OF ok x]
    from log_rollback_ok [OF lg f(1)] obtain lg' where l: "log_rollback (mt_trx_id x) (md_log db) = Some (SUCCESS, lg')" by blast
    have "mv_ok ?V ?n (settle (mt_trx_id x) MAX_TRX_ID ?T) (?O(a \<mapsto> x\<lparr>mt_started := False, mt_operations := []\<rparr>))"
      by (rule mv_settle [OF ok x]) (use mv_okD(2) [OF ok] in auto)
    then show ?thesis using TRollback x l f(5,6) rollback_settles [OF ok x od]
      by (simp add: on_trx_def mvcc_rollback_def Let_def trx_view_def mvcc_inv_def running_upd)
  qed
qed

interpretation mvcc: refining_machine trx_step mvcc_inv trx_allowed trx_view trx_spec
proof
  fix s p r s'
  assume inv: "mvcc_inv s" and al: "trx_allowed p s"
  note ok = trx_step_ok [OF inv al]
  show "\<exists>r s'. trx_step p s = Some (r, s')" using ok by blast
  show "trx_step p s = Some (r, s') \<Longrightarrow> mvcc_inv s'" using ok by auto
  show "trx_step p s = Some (r, s') \<Longrightarrow> trx_spec p (trx_view s) r (trx_view s')" using ok by auto
qed

text \<open>
  C6. Interleaved transactions: every sequence of starts, inserts, deletes of any records, commits
  and rollbacks returns, with no assertion of the code failing, and does to the tables what a
  specification with marks and no operation lists says. A delete succeeds on a record that is
  committed and whose deletion was not committed before the transaction began; it is refused with
  \<open>LOCKED_CONCURRENCY_CONFLICT\<close> when another transaction is deleting the record, and on a record of
  a view with \<open>ERROR\<close>. A commit gives exactly the marks of its transaction one new id, larger than
  all before, and a rollback replaces exactly them by \<open>MAX_TRX_ID\<close>. Inserts change no table, as
  \<open>Table::insert_record\<close> stores nothing there; the transactions that end are those that have not
  inserted. Records may carry marks of transactions stopped by a crash.
\<close>

theorem mvcc_refines:
  assumes "mvcc_inv db" "allowed_run trx_step trx_allowed ops db"
  shows "\<exists>rs db'. run_ops trx_step ops db = Some (rs, db') \<and> mvcc_inv db' \<and> spec_run trx_spec ops (trx_view db) rs (trx_view db')"
  by (rule mvcc.run_refines [OF assms])

section \<open>What a reader sees\<close>

text \<open>
  The records a transaction gets to see through \<open>visit_record\<close>, and what they are meant to be: those
  committed, and not deleted by a transaction that committed before it began nor by itself.
\<close>

definition trx_reads :: "MvccTrx \<Rightarrow> tables \<Rightarrow> int \<Rightarrow> RID \<rightharpoonup> byte list" where
  "trx_reads x T t rid = (case T t rid of None \<Rightarrow> None
   | Some r \<Rightarrow> if mvcc_visit_record x r READ_ONLY = SUCCESS then Some (tr_data r) else None)"

definition visible :: "int \<Rightarrow> TrxRecord \<Rightarrow> bool" where
  "visible i r \<longleftrightarrow> 0 < tr_begin r \<and> (i \<le> tr_end r \<or> tr_end r < 0 \<and> tr_end r \<noteq> - i)"

definition snapshot :: "int \<Rightarrow> tables \<Rightarrow> int \<Rightarrow> RID \<rightharpoonup> byte list" where
  "snapshot i T t rid = (case T t rid of None \<Rightarrow> None | Some r \<Rightarrow> if visible i r then Some (tr_data r) else None)"

lemma reads_snapshot:
  assumes ok: "mv_ok vs n T Ob" and a: "Ob a = Some x" "mt_started x"
  shows "trx_reads x T = snapshot (mt_trx_id x) T"
proof (intro ext)
  fix t rid
  note f = started_facts [OF ok a]
  show "trx_reads x T t rid = snapshot (mt_trx_id x) T t rid"
  proof (cases "T t rid")
    case (Some r)
    then show ?thesis using visit_cases(1) [OF mv_okD(4) [OF ok Some] f(7,1)] by (simp add: trx_reads_def snapshot_def visible_def)
  qed (simp add: trx_reads_def snapshot_def)
qed

text \<open>
  A step of another transaction on a record: the record stays and so does its being visible. If it
  was invisible and is changed, its deletion was committed and it is deleted again, by a transaction
  that began before that commit.
\<close>

definition deleted_again :: "(nat \<Rightarrow> int option) \<Rightarrow> trx_op list \<Rightarrow> int \<Rightarrow> RID \<Rightarrow> int \<Rightarrow> TrxRecord \<Rightarrow> bool" where
  "deleted_again R ops t rid i r \<longleftrightarrow> 0 < tr_begin r \<and> 0 < tr_end r \<and> tr_end r < i \<and>
     (\<exists>b j. R b = Some j \<and> j \<le> tr_end r \<and> TDelete b t rid \<in> set ops)"

lemma reader_step:
  assumes inv: "mvcc_inv db" and al: "trx_allowed p db" and st: "trx_step p db = Some (rc, db')"
    and a: "trx_addr p \<noteq> a" "md_objs db a = Some x" "mt_started x"
  shows "md_objs db' a = Some x"
    "md_tables db t rid = None \<Longrightarrow> md_tables db' t rid = None"
    "md_tables db t rid = Some r \<Longrightarrow> \<exists>r'. md_tables db' t rid = Some r' \<and> tr_data r' = tr_data r \<and> tr_begin r' = tr_begin r \<and>
       (visible (mt_trx_id x) r \<longrightarrow> visible (mt_trx_id x) r') \<and>
       (\<not> visible (mt_trx_id x) r \<longrightarrow> r' \<noteq> r \<longrightarrow> tr_begin r < 0 \<or> deleted_again (running (md_objs db)) [p] t rid (mt_trx_id x) r)"
    "md_current_trx_id db \<le> md_current_trx_id db'"
    "running (md_objs db') b = Some j \<Longrightarrow> running (md_objs db) b = Some j \<or> md_current_trx_id db < j"
proof -
  let ?i = "mt_trx_id x" and ?n = "md_current_trx_id db" and ?T = "md_tables db" and ?R = "running (md_objs db)"
  have ok: "mv_ok (md_views db) ?n ?T (md_objs db)" using inv by (simp add: mvcc_inv_def)
  note f = started_facts [OF ok a(2,3)]
  from trx_step_ok [OF inv al] st have sp: "trx_spec p (trx_view db) rc (trx_view db')"
    and ob: "\<And>b. b \<noteq> trx_addr p \<Longrightarrow> md_objs db' b = md_objs db b" by auto
  show "md_objs db' a = Some x" using ob [of a] a(1,2) by simp
  have oth: "k \<noteq> ?i" "0 < k" if "?R (trx_addr p) = Some k" for k
  proof -
    from that obtain y where y: "md_objs db (trx_addr p) = Some y" "mt_started y" "k = mt_trx_id y"
      by (auto simp: running_def split: option.splits if_splits)
    show "k \<noteq> ?i" "0 < k"
      using others_id [OF ok a(2,3) y(1,2)] a(1) y started_facts(1) [OF ok y(1,2)] by auto
  qed
  have del: "\<exists>k q. ?R b = Some k \<and> ?T t1 rid1 = Some q \<and> 0 < tr_begin q \<and> 0 < tr_end q \<and> k \<le> tr_end q \<and>
      md_tables db' = ?T(t1 := (?T t1)(rid1 \<mapsto> q\<lparr>tr_end := - k\<rparr>))" if "p = TDelete b t1 rid1" "md_tables db' \<noteq> ?T" for b t1 rid1
    using sp that by (auto simp: trx_view_def split: if_splits option.splits)
  show "md_tables db' t rid = None" if n: "?T t rid = None"
  proof (cases "md_tables db' = ?T")
    case False
    then show ?thesis
    proof (cases p)
      case (TDelete b t1 rid1)
      from del [OF TDelete False] n show ?thesis by auto
    qed (use sp n in \<open>auto simp: trx_view_def settle_def split: if_splits\<close>)
  qed (use n in simp)
  show "?n \<le> md_current_trx_id db'"
    using sp by (cases p) (auto simp: trx_view_def split: option.splits if_splits)
  show "?R b = Some j \<or> ?n < j" if "running (md_objs db') b = Some j"
    using sp that by (cases p) (auto simp: trx_view_def split: option.splits if_splits)
  show "\<exists>r'. md_tables db' t rid = Some r' \<and> tr_data r' = tr_data r \<and> tr_begin r' = tr_begin r \<and>
       (visible ?i r \<longrightarrow> visible ?i r') \<and>
       (\<not> visible ?i r \<longrightarrow> r' \<noteq> r \<longrightarrow> tr_begin r < 0 \<or> deleted_again ?R [p] t rid ?i r)" if T: "?T t rid = Some r"
  proof -
    have mx: "?i \<le> MAX_TRX_ID" using f(2) mv_okD(2) [OF ok] by linarith
    have settled: "visible ?i r \<longrightarrow> visible ?i (r\<lparr>tr_end := (if tr_end r = - k then c else tr_end r)\<rparr>)"
      "\<not> visible ?i r \<longrightarrow> tr_end r \<noteq> - k \<or> \<not> 0 < tr_begin r"
      if "k \<noteq> ?i" "0 < k" "?i \<le> c" for k c using that by (auto simp: visible_def)
    have b0: "tr_begin r \<noteq> 0" using mv_okD(4) [OF ok T] by (simp add: rec_ok_def)
    show ?thesis
    proof (cases p)
      case (TDelete b t1 rid1)
      show ?thesis
      proof (cases "md_tables db' = ?T")
        case True
        then show ?thesis using T by simp
      next
        case False
        from del [OF TDelete this] obtain k q where k: "?R b = Some k" "?T t1 rid1 = Some q" "0 < tr_begin q" "0 < tr_end q" "k \<le> tr_end q"
          "md_tables db' = ?T(t1 := (?T t1)(rid1 \<mapsto> q\<lparr>tr_end := - k\<rparr>))" by blast
        note o = oth [of k, unfolded TDelete, simplified, OF k(1)]
        show ?thesis
        proof (cases "t1 = t \<and> rid1 = rid")
          case True
          then have q: "q = r" using k(2) T by simp
          have "deleted_again ?R [p] t rid ?i r" if "\<not> visible ?i r"
            using that k True q TDelete by (auto simp: deleted_again_def visible_def)
          moreover have "visible ?i (r\<lparr>tr_end := - k\<rparr>)" using o k(3) q by (simp add: visible_def)
          ultimately show ?thesis using k(6) True q by auto
        next
          case False
          then show ?thesis using k(6) T by auto
        qed
      qed
    next
      case (TCommit b th)
      with sp obtain k where k: "?R b = Some k" "md_tables db' = settle k (?n + 1) ?T" by (auto simp: trx_view_def)
      note o = oth [of k, unfolded TCommit, simplified, OF k(1)]
      show ?thesis using settled [OF o, of "?n + 1"] f(2) T k(2) b0
        by (auto simp: settle_def)
    next
      case (TRollback b)
      with sp obtain k where k: "?R b = Some k" "md_tables db' = settle k MAX_TRX_ID ?T" by (auto simp: trx_view_def)
      note o = oth [of k, unfolded TRollback, simplified, OF k(1)]
      show ?thesis using settled [OF o mx] T k(2) b0
        by (auto simp: settle_def)
    qed (use sp T in \<open>auto simp: trx_view_def split: if_splits\<close>)
  qed
qed

lemma reader_run:
  assumes "mvcc_inv db" "allowed_run trx_step trx_allowed ops db" "run_ops trx_step ops db = Some (rs, db')"
    "\<forall>p \<in> set ops. trx_addr p \<noteq> a" "md_objs db a = Some x" "mt_started x"
  shows "mvcc_inv db' \<and> md_objs db' a = Some x \<and> (md_tables db t rid = None \<longrightarrow> md_tables db' t rid = None) \<and>
    (\<forall>r. md_tables db t rid = Some r \<longrightarrow> (\<exists>r'. md_tables db' t rid = Some r' \<and> tr_data r' = tr_data r \<and> tr_begin r' = tr_begin r \<and>
       (visible (mt_trx_id x) r \<longrightarrow> visible (mt_trx_id x) r') \<and>
       (\<not> visible (mt_trx_id x) r \<longrightarrow> visible (mt_trx_id x) r' \<longrightarrow> deleted_again (running (md_objs db)) ops t rid (mt_trx_id x) r)))"
  using assms
proof (induction ops arbitrary: db rs)
  case Nil
  then show ?case by simp
next
  case (Cons p ops)
  let ?i = "mt_trx_id x"
  from Cons.prems(2) have al: "trx_allowed p db" by simp
  from trx_step_ok [OF Cons.prems(1) al] obtain rc db1 where s: "trx_step p db = Some (rc, db1)" "mvcc_inv db1" by blast
  have ne: "trx_addr p \<noteq> a" using Cons.prems(4) by simp
  note st = reader_step [OF Cons.prems(1) al s(1) ne Cons.prems(5,6)]
  from s(1) Cons.prems(2,3) obtain rs1 where r1: "run_ops trx_step ops db1 = Some (rs1, db')" "allowed_run trx_step trx_allowed ops db1"
    by (auto split: Option.bind_splits)
  have oth: "\<forall>p \<in> set ops. trx_addr p \<noteq> a" using Cons.prems(4) by simp
  note IH = Cons.IH [OF s(2) r1(2,1) oth st(1) Cons.prems(6)]
  have ok: "mv_ok (md_views db) (md_current_trx_id db) (md_tables db) (md_objs db)" using Cons.prems(1) by (simp add: mvcc_inv_def)
  note f = started_facts [OF ok Cons.prems(5,6)]
  have "\<exists>r'. md_tables db' t rid = Some r' \<and> tr_data r' = tr_data r \<and> tr_begin r' = tr_begin r \<and> (visible ?i r \<longrightarrow> visible ?i r') \<and>
      (\<not> visible ?i r \<longrightarrow> visible ?i r' \<longrightarrow> deleted_again (running (md_objs db)) (p # ops) t rid ?i r)" if r: "md_tables db t rid = Some r" for r
  proof -
    from st(3) [OF r] obtain q where q: "md_tables db1 t rid = Some q" "tr_data q = tr_data r" "tr_begin q = tr_begin r" "visible ?i r \<longrightarrow> visible ?i q"
      "\<not> visible ?i r \<longrightarrow> q \<noteq> r \<longrightarrow> tr_begin r < 0 \<or> deleted_again (running (md_objs db)) [p] t rid ?i r" by blast
    from IH q(1) obtain r' where r': "md_tables db' t rid = Some r'" "tr_data r' = tr_data q" "tr_begin r' = tr_begin q" "visible ?i q \<longrightarrow> visible ?i r'"
      "\<not> visible ?i q \<longrightarrow> visible ?i r' \<longrightarrow> deleted_again (running (md_objs db1)) ops t rid ?i q" by blast
    have "deleted_again (running (md_objs db)) (p # ops) t rid ?i r" if v: "\<not> visible ?i r" "visible ?i r'"
    proof (cases "q = r")
      case True
      with r'(5) v have d: "deleted_again (running (md_objs db1)) ops t rid ?i r" by simp
      then obtain b j where bj: "running (md_objs db1) b = Some j" "j \<le> tr_end r" "TDelete b t rid \<in> set ops" "tr_end r < ?i"
        by (auto simp: deleted_again_def)
      have "running (md_objs db) b = Some j" using st(5) [OF bj(1)] bj(2,4) f(2) by auto
      then show ?thesis using d bj by (auto simp: deleted_again_def)
    next
      case False
      then have "deleted_again (running (md_objs db)) [p] t rid ?i r" using q(5) v r'(3) q(3) by (auto simp: visible_def)
      then show ?thesis by (auto simp: deleted_again_def)
    qed
    then show ?thesis using r' q by auto
  qed
  note all = this
  have "md_tables db t rid = None \<longrightarrow> md_tables db' t rid = None" using IH st(2) [of t rid] by simp
  moreover have "mvcc_inv db'" "md_objs db' a = Some x" using IH by simp_all
  ultimately show ?case by (intro conjI allI impI all) simp_all
qed

text \<open>
  C7. A reader, whatever other transactions do meanwhile in any interleaving. At every moment
  \<open>visit_record\<close> shows it exactly the committed records that no transaction deleted with a commit
  before the reader began and that it has not deleted itself. A record it sees stays there for it,
  with the same contents, until it ends. A record it did not see comes into its view in one case
  only: the deletion was committed before the reader began, and a transaction that began before that
  commit deletes the record once more. While no such transaction does, the reader's view is fixed.
\<close>

theorem mvcc_snapshot_isolation:
  assumes "mvcc_inv db" "allowed_run trx_step trx_allowed ops db" "run_ops trx_step ops db = Some (rs, db')"
    and "\<forall>p \<in> set ops. trx_addr p \<noteq> a" "md_objs db a = Some x" "mt_started x"
  shows "md_objs db' a = Some x \<and> trx_reads x (md_tables db') = snapshot (mt_trx_id x) (md_tables db') \<and>
    (\<forall>t rid d. trx_reads x (md_tables db) t rid = Some d \<longrightarrow> trx_reads x (md_tables db') t rid = Some d) \<and>
    (\<forall>t rid. trx_reads x (md_tables db') t rid \<noteq> trx_reads x (md_tables db) t rid \<longrightarrow>
       (\<exists>r. md_tables db t rid = Some r \<and> deleted_again (running (md_objs db)) ops t rid (mt_trx_id x) r))"
proof (intro conjI allI impI)
  note run = reader_run [OF assms]
  have i: "mvcc_inv db'" "md_objs db' a = Some x" using run by blast+
  note rd = reads_snapshot [OF assms(1) [unfolded mvcc_inv_def] assms(5,6)] reads_snapshot [OF i(1) [unfolded mvcc_inv_def] i(2) assms(6)]
  show "md_objs db' a = Some x" by (rule i)
  show "trx_reads x (md_tables db') = snapshot (mt_trx_id x) (md_tables db')" by (rule rd)
  fix t rid
  show "trx_reads x (md_tables db') t rid = Some d" if "trx_reads x (md_tables db) t rid = Some d" for d
    using that run [of t rid] unfolding rd by (cases "md_tables db t rid") (auto simp: snapshot_def split: if_splits)
  show "\<exists>r. md_tables db t rid = Some r \<and> deleted_again (running (md_objs db)) ops t rid (mt_trx_id x) r"
    if "trx_reads x (md_tables db') t rid \<noteq> trx_reads x (md_tables db) t rid"
    using that run [of t rid] unfolding rd by (cases "md_tables db t rid") (auto simp: snapshot_def split: if_splits)
qed
section \<open>Examples\<close>

text \<open>A table with one committed record, a second one that a crash has left unfinished, and two transactions.\<close>

definition example_db :: MvccDb where
  "example_db = \<lparr>md_tables = (\<lambda>t. if t = 5 then [RID 1 0 \<mapsto> \<lparr>tr_begin = 1, tr_end = MAX_TRX_ID, tr_data = [9]\<rparr>,
       RID 1 1 \<mapsto> \<lparr>tr_begin = 1, tr_end = - 2, tr_data = [7]\<rparr>] else Map.empty),
     md_opened = [5, 6], md_views = [6], md_log = Vacuous, md_current_trx_id = 2, md_trxes = [0, 1],
     md_objs = [0 \<mapsto> MvccTrx_new, 1 \<mapsto> MvccTrx_new]\<rparr>"

lemma example_db_inv: "mvcc_inv example_db"
  by (auto simp: mvcc_inv_def mv_ok_def example_db_def rec_ok_def trx_ok_def active_ids_def MvccTrx_new_def MAX_TRX_ID_def INT32_MAX_def
      split: if_splits)

lemmas trx_eval = example_db_def on_trx_def create_trx_def start_if_need_def next_trx_id_def to_int32_def MvccTrx_new_def
  mvcc_insert_record_def table_insert_record_def log_record_op_def push_operation_def mvcc_delete_record_def only_deletes_def
  table_visit_record_def mvcc_visit_record_def mvcc_commit_def commit_with_trx_id_def commit_operation_def
  log_commit_def mvcc_rollback_def rollback_operation_def log_rollback_def MAX_TRX_ID_def INT32_MAX_def Let_def

lemma id_flushes: "thread_flushes (\<lambda>lg. Vacuous)"
  by (simp add: thread_flushes_def)

lemma example_started: "\<exists>db. run_ops trx_step [TStart 0, TStart 1] example_db = Some ([SUCCESS, SUCCESS], db) \<and> mvcc_inv db \<and>
    md_tables db = md_tables example_db \<and> md_objs db = [0 \<mapsto> MvccTrx_new\<lparr>mt_trx_id := 3, mt_started := True\<rparr>,
      1 \<mapsto> MvccTrx_new\<lparr>mt_trx_id := 4, mt_started := True\<rparr>] \<and> md_log db = Vacuous \<and> md_current_trx_id db = 4 \<and> md_views db = [6]"
proof -
  have a: "allowed_run trx_step trx_allowed [TStart 0, TStart 1] example_db" by (simp add: trx_eval)
  from mvcc.run_refines [OF example_db_inv a] show ?thesis by (auto simp: trx_eval)
qed

theorem mvcc_refines_witness:
  "\<exists>db'. run_ops trx_step [TStart 0, TStart 1, TDelete 0 5 (RID 1 0), TDelete 1 5 (RID 1 0), TDelete 0 6 (RID 1 0), TDelete 1 5 (RID 2 0),
       TDelete 0 5 (RID 1 0), TCommit 0 (\<lambda>lg. Vacuous), TRollback 1] example_db =
       Some ([SUCCESS, SUCCESS, SUCCESS, LOCKED_CONCURRENCY_CONFLICT, ERROR, RECORD_NOT_EXIST, RECORD_INVISIBLE, SUCCESS, SUCCESS], db') \<and>
     map_option tr_end (md_tables db' 5 (RID 1 0)) = Some 5 \<and> mvcc_inv db'"
proof -
  let ?ops = "[TStart 0, TStart 1, TDelete 0 5 (RID 1 0), TDelete 1 5 (RID 1 0), TDelete 0 6 (RID 1 0), TDelete 1 5 (RID 2 0),
       TDelete 0 5 (RID 1 0), TCommit 0 (\<lambda>lg. Vacuous), TRollback 1]"
  have a: "allowed_run trx_step trx_allowed ?ops example_db" by (simp add: trx_eval RID_def id_flushes)
  from mvcc_refines [OF example_db_inv a] show ?thesis
    by (auto simp: trx_eval RID_def)
qed

theorem mvcc_snapshot_isolation_witness:
  "\<exists>db db' rs x. run_ops trx_step [TDelete 0 5 (RID 1 0), TCommit 0 (\<lambda>lg. Vacuous)] db = Some (rs, db') \<and> md_objs db' 1 = Some x \<and>
     map_option tr_end (md_tables db' 5 (RID 1 0)) = Some 5 \<and> trx_reads x (md_tables db') 5 (RID 1 0) = Some [9]"
proof -
  from example_started obtain db where d: "mvcc_inv db" "md_tables db = md_tables example_db" "md_log db = Vacuous" "md_current_trx_id db = 4"
    "md_objs db = [0 \<mapsto> MvccTrx_new\<lparr>mt_trx_id := 3, mt_started := True\<rparr>, 1 \<mapsto> MvccTrx_new\<lparr>mt_trx_id := 4, mt_started := True\<rparr>]"
    "md_views db = [6]" by blast
  let ?ops = "[TDelete 0 5 (RID 1 0), TCommit 0 (\<lambda>lg. Vacuous)]"
  let ?x = "MvccTrx_new\<lparr>mt_trx_id := 4, mt_started := True\<rparr>"
  have a: "allowed_run trx_step trx_allowed ?ops db" using d id_flushes by (simp add: trx_eval RID_def)
  obtain rs db' where r: "run_ops trx_step ?ops db = Some (rs, db')" "map_option tr_end (md_tables db' 5 (RID 1 0)) = Some 5"
    using d by (simp add: trx_eval RID_def)
  have "trx_reads ?x (md_tables db) 5 (RID 1 0) = Some [9]" using d(2) by (simp add: trx_reads_def trx_eval RID_def)
  moreover have "\<forall>p \<in> set ?ops. trx_addr p \<noteq> 1" "md_objs db 1 = Some ?x" "mt_started ?x" by (simp_all add: d(5))
  note iso = mvcc_snapshot_isolation [OF d(1) a r(1) this]
  ultimately have "md_objs db' 1 = Some ?x \<and> trx_reads ?x (md_tables db') 5 (RID 1 0) = Some [9]"
    using iso by blast
  with r show ?thesis by blast
qed

section \<open>Rollback\<close>

text \<open>
  Deletes of a transaction that began after every commit hit records nobody has deleted, so erasing
  the marks gives the tables as they were.
\<close>

definition undeleted_before :: "int \<Rightarrow> tables \<Rightarrow> bool" where
  "undeleted_before i T \<longleftrightarrow> (\<forall>t rid r. T t rid = Some r \<longrightarrow> tr_end r = MAX_TRX_ID \<or> tr_end r < i)"

lemma own_delete_settle:
  assumes inv: "mvcc_inv db" and al: "trx_allowed p db" and st: "trx_step p db = Some (rc, db')"
    and x: "running (md_objs db) a = Some i" and u: "undeleted_before i (md_tables db)" and p: "\<exists>t rid. p = TDelete a t rid"
  shows "settle i MAX_TRX_ID (md_tables db') = settle i MAX_TRX_ID (md_tables db)" "running (md_objs db') a = Some i"
    "undeleted_before i (md_tables db')"
proof -
  let ?T = "md_tables db"
  have ok: "mv_ok (md_views db) (md_current_trx_id db) ?T (md_objs db)" using inv by (simp add: mvcc_inv_def)
  have i: "0 < i" using x started_facts(1) [OF ok] by (auto simp: running_def split: option.splits if_splits)
  from p obtain t rid where p: "p = TDelete a t rid" by blast
  from trx_step_ok [OF inv al] st have sp: "trx_spec p (trx_view db) rc (trx_view db')" by auto
  then show "running (md_objs db') a = Some i" using x p by (auto simp: trx_view_def split: option.splits if_splits)
  have "md_tables db' = ?T \<or> (\<exists>r. ?T t rid = Some r \<and> tr_end r = MAX_TRX_ID \<and> md_tables db' = ?T(t := (?T t)(rid \<mapsto> r\<lparr>tr_end := - i\<rparr>)))"
    using sp p x u unfolding undeleted_before_def by (fastforce simp: trx_view_def split: option.splits if_splits)
  note T = this
  from T show "settle i MAX_TRX_ID (md_tables db') = settle i MAX_TRX_ID ?T" by (auto simp: settle_def fun_eq_iff)
  have "tr_end q = MAX_TRX_ID \<or> tr_end q < i" if "md_tables db' t1 rid1 = Some q" for t1 rid1 q
    using T that u [unfolded undeleted_before_def, rule_format, of t1 rid1 q] i by (auto split: if_splits)
  then show "undeleted_before i (md_tables db')" unfolding undeleted_before_def by blast
qed

lemma own_deletes_settle:
  assumes "mvcc_inv db" "allowed_run trx_step trx_allowed ops db" "run_ops trx_step ops db = Some (rs, db')"
    "\<forall>p \<in> set ops. \<exists>t rid. p = TDelete a t rid" "running (md_objs db) a = Some i" "undeleted_before i (md_tables db)"
  shows "mvcc_inv db' \<and> settle i MAX_TRX_ID (md_tables db') = settle i MAX_TRX_ID (md_tables db) \<and> running (md_objs db') a = Some i"
  using assms
proof (induction ops arbitrary: db rs)
  case Nil
  then show ?case by simp
next
  case (Cons p ops)
  from Cons.prems(2) have al: "trx_allowed p db" by simp
  from trx_step_ok [OF Cons.prems(1) al] obtain rc db1 where s: "trx_step p db = Some (rc, db1)" "mvcc_inv db1" by blast
  from Cons.prems(4) have p: "\<exists>t rid. p = TDelete a t rid" by simp
  note e = own_delete_settle [OF Cons.prems(1) al s(1) Cons.prems(5,6) p]
  from s(1) Cons.prems(2,3) obtain rs1 where r: "run_ops trx_step ops db1 = Some (rs1, db')" "allowed_run trx_step trx_allowed ops db1"
    by (auto split: Option.bind_splits)
  with Cons.IH [OF s(2) r(2,1) _ e(2,3)] e Cons.prems(4) show ?case by simp
qed

lemma allowed_run_append:
  "allowed_run step allowed (xs @ ys) s \<longleftrightarrow> allowed_run step allowed xs s \<and>
     (\<forall>rs s'. run_ops step xs s = Some (rs, s') \<longrightarrow> allowed_run step allowed ys s')"
  by (induction xs arbitrary: s) (auto split: option.splits Option.bind_splits)

lemma run_ops_append:
  "run_ops step (xs @ ys) s = do { (rs, s') \<leftarrow> run_ops step xs s; (rs', s'') \<leftarrow> run_ops step ys s'; Some (rs @ rs', s'') }"
  by (induction xs arbitrary: s) (auto split: Option.bind_splits)

lemma settle_unmarked:
  assumes "\<And>t rid r. T t rid = Some r \<Longrightarrow> tr_end r \<noteq> - i"
  shows "settle i c T = T"
proof -
  have "settle i c T t rid = T t rid" for t rid using assms [of t rid] by (cases "T t rid") (auto simp: settle_def)
  then show ?thesis by (simp add: fun_eq_iff)
qed

text \<open>
  A transaction that is rolled back leaves no trace: from its start on, whatever records of
  whatever tables it deletes, also ones that are not there, that are deleted already or that it
  deletes twice, after the rollback the tables are what they were. No other transaction runs in
  between, and it inserts nothing.
\<close>

lemma mvcc_rollback_restores:
  assumes "mvcc_inv db" "allowed_run trx_step trx_allowed (TStart a # ops @ [TRollback a]) db"
    and "\<forall>p \<in> set ops. \<exists>t rid. p = TDelete a t rid" "running (md_objs db) a = None"
  shows "\<exists>rs db'. run_ops trx_step (TStart a # ops @ [TRollback a]) db = Some (rs, db') \<and> md_tables db' = md_tables db"
proof -
  let ?n = "md_current_trx_id db"
  have ok: "mv_ok (md_views db) ?n (md_tables db) (md_objs db)" using assms(1) by (simp add: mvcc_inv_def)
  from assms(2) have al: "trx_allowed (TStart a) db" by simp
  from trx_step_ok [OF assms(1) al] obtain rc db1 where s: "trx_step (TStart a) db = Some (rc, db1)" "mvcc_inv db1"
    "trx_spec (TStart a) (trx_view db) rc (trx_view db1)" by blast
  have v: "md_tables db1 = md_tables db" "running (md_objs db1) a = Some (?n + 1)" using s(3) assms(4) by (auto simp: trx_view_def)
  have ends: "tr_end r = MAX_TRX_ID \<or> tr_end r < ?n + 1" "tr_end r \<noteq> - (?n + 1)" if "md_tables db t rid = Some r" for t rid r
    using mv_okD(4) [OF ok that] mv_okD(1,2) [OF ok] by (auto simp: rec_ok_def)
  have u: "undeleted_before (?n + 1) (md_tables db1)" using ends(1) by (auto simp: undeleted_before_def v(1))
  have al1: "allowed_run trx_step trx_allowed (ops @ [TRollback a]) db1" using assms(2) s(1) by simp
  have alo: "allowed_run trx_step trx_allowed ops db1" using al1 by (simp add: allowed_run_append)
  from mvcc.run_refines [OF s(2) alo] obtain rs1 db2 where r: "run_ops trx_step ops db1 = Some (rs1, db2)" "mvcc_inv db2" by blast
  have e: "settle (?n + 1) MAX_TRX_ID (md_tables db2) = settle (?n + 1) MAX_TRX_ID (md_tables db1)" "running (md_objs db2) a = Some (?n + 1)"
    using own_deletes_settle [OF s(2) alo r(1) assms(3) v(2) u] by simp_all
  have al2: "trx_allowed (TRollback a) db2" using al1 r(1) by (simp add: allowed_run_append)
  from trx_step_ok [OF r(2) al2] obtain rc' db3 where t: "trx_step (TRollback a) db2 = Some (rc', db3)"
    "trx_spec (TRollback a) (trx_view db2) rc' (trx_view db3)" by blast
  have "md_tables db3 = settle (?n + 1) MAX_TRX_ID (md_tables db2)" using t(2) e(2) by (auto simp: trx_view_def)
  also have "\<dots> = md_tables db" unfolding e(1) v(1) by (rule settle_unmarked) (rule ends(2))
  finally have "md_tables db3 = md_tables db" .
  moreover have "run_ops trx_step (TStart a # ops @ [TRollback a]) db = Some (rc # rs1 @ [rc'], db3)"
    using s(1) r(1) t(1) by (simp add: run_ops_append)
  ultimately show ?thesis by blast
qed

section \<open>Where the transactions do not keep their promise\<close>

text \<open>
  C36. A committed delete can be undone. A transaction that began before a delete of the record was
  committed may delete the record again, and when it rolls back the record's end id becomes
  \<open>MAX_TRX_ID\<close>: a transaction that began after the commit, to which the record was deleted, sees it
  again, as every later one will.
\<close>

theorem rollback_resurrects_deleted:
  assumes "mvcc_inv db" "allowed_run trx_step trx_allowed [TDelete a t rid, TRollback a] db"
    and "running (md_objs db) a = Some i" "t \<notin> set (md_views db)"
    and "md_tables db t rid = Some r" "0 < tr_begin r" "i \<le> tr_end r" "tr_end r < MAX_TRX_ID"
    and "md_objs db b = Some y" "mt_started y" "tr_end r < mt_trx_id y"
  shows "trx_reads y (md_tables db) t rid = None \<and>
    (\<exists>db'. run_ops trx_step [TDelete a t rid, TRollback a] db = Some ([SUCCESS, SUCCESS], db') \<and>
       md_tables db' t rid = Some (r\<lparr>tr_end := MAX_TRX_ID\<rparr>) \<and> trx_reads y (md_tables db') t rid = Some (tr_data r))"
proof -
  have ok: "mv_ok (md_views db) (md_current_trx_id db) (md_tables db) (md_objs db)" using assms(1) by (simp add: mvcc_inv_def)
  note f = started_facts [OF ok assms(9,10)]
  have i: "0 < i" using assms(3) started_facts(1) [OF ok] by (auto simp: running_def split: option.splits if_splits)
  have ne: "a \<noteq> b" using assms(3,7,11) f(6) by auto
  from assms(2) have al: "trx_allowed (TDelete a t rid) db" by simp
  from trx_step_ok [OF assms(1) al] obtain rc1 db1 where s1: "trx_step (TDelete a t rid) db = Some (rc1, db1)" "mvcc_inv db1"
    "trx_spec (TDelete a t rid) (trx_view db) rc1 (trx_view db1)" "md_objs db1 b = md_objs db b" using ne by fastforce
  from assms(2) s1(1) have al1: "trx_allowed (TRollback a) db1" by simp
  from trx_step_ok [OF s1(2) al1] obtain rc2 db2 where s2: "trx_step (TRollback a) db1 = Some (rc2, db2)" "mvcc_inv db2"
    "trx_spec (TRollback a) (trx_view db1) rc2 (trx_view db2)" "md_objs db2 b = md_objs db1 b" using ne by fastforce
  have d: "rc1 = SUCCESS" "md_tables db1 t rid = Some (r\<lparr>tr_end := - i\<rparr>)" "running (md_objs db1) a = Some i"
    using s1(3) assms(3-7) i by (auto simp: trx_view_def)
  have e: "rc2 = SUCCESS" "md_tables db2 t rid = Some (r\<lparr>tr_end := MAX_TRX_ID\<rparr>)"
    using s2(3) d by (auto simp: trx_view_def settle_def)
  have ok2: "mv_ok (md_views db2) (md_current_trx_id db2) (md_tables db2) (md_objs db2)" using s2(2) by (simp add: mvcc_inv_def)
  have y2: "md_objs db2 b = Some y" using s1(4) s2(4) assms(9) by simp
  note f2 = started_facts [OF ok2 y2 assms(10)]
  have "trx_reads y (md_tables db) t rid = None"
    unfolding reads_snapshot [OF ok assms(9,10)] using assms(5,7,11) i by (simp add: snapshot_def visible_def)
  moreover have "trx_reads y (md_tables db2) t rid = Some (tr_data r)"
    unfolding reads_snapshot [OF ok2 y2 assms(10)] using e(2) assms(6) f2(2) mv_okD(2) [OF ok2] by (simp add: snapshot_def visible_def)
  ultimately show ?thesis using s1(1) s2(1) d(1) e by simp
qed

text \<open>Transaction 3 began before the delete that committed as 4, transaction 5 after it.\<close>

definition deleted_db :: MvccDb where
  "deleted_db = example_db\<lparr>md_tables := (\<lambda>t. if t = 5 then [RID 1 0 \<mapsto> \<lparr>tr_begin = 1, tr_end = 4, tr_data = [9]\<rparr>] else Map.empty),
     md_current_trx_id := 5, md_objs := [0 \<mapsto> MvccTrx_new\<lparr>mt_trx_id := 3, mt_started := True\<rparr>, 1 \<mapsto> MvccTrx_new\<lparr>mt_trx_id := 5, mt_started := True\<rparr>]\<rparr>"

theorem rollback_resurrects_deleted_witness:
  "\<exists>db'. run_ops trx_step [TDelete 0 5 (RID 1 0), TRollback 0] deleted_db = Some ([SUCCESS, SUCCESS], db') \<and>
     trx_reads (MvccTrx_new\<lparr>mt_trx_id := 5, mt_started := True\<rparr>) (md_tables db') 5 (RID 1 0) = Some [9]"
proof -
  let ?y = "MvccTrx_new\<lparr>mt_trx_id := 5, mt_started := True\<rparr>" and ?r = "\<lparr>tr_begin = 1, tr_end = 4, tr_data = [9]\<rparr>"
  have inv: "mvcc_inv deleted_db"
    by (auto simp: deleted_db_def mvcc_inv_def mv_ok_def example_db_def rec_ok_def trx_ok_def active_ids_def MvccTrx_new_def MAX_TRX_ID_def
        INT32_MAX_def ops_wf_def marks_ok_def split: if_splits)
  have al: "allowed_run trx_step trx_allowed [TDelete 0 5 (RID 1 0), TRollback 0] deleted_db" by (simp add: deleted_db_def trx_eval RID_def)
  have h: "running (md_objs deleted_db) 0 = Some 3" "5 \<notin> set (md_views deleted_db)" "md_tables deleted_db 5 (RID 1 0) = Some ?r"
    "md_objs deleted_db 1 = Some ?y"
    by (simp_all add: deleted_db_def running_def example_db_def MvccTrx_new_def)
  from rollback_resurrects_deleted [OF inv al h(1,2,3) _ _ _ h(4)] show ?thesis
    by (simp add: MAX_TRX_ID_def INT32_MAX_def MvccTrx_new_def) blast
qed

text \<open>
  C37. Uncommitted changes become visible. A record committed after transaction \<open>x\<close> began is
  invisible to it, but as soon as another transaction starts to delete the record, \<open>x\<close> reads it.
\<close>

theorem uncommitted_delete_leaks:
  assumes "0 < mt_trx_id x" "mt_trx_id x < tr_begin r" "tr_end r = MAX_TRX_ID" "0 < j" "j \<noteq> mt_trx_id x"
  shows "mvcc_visit_record x r READ_ONLY = RECORD_INVISIBLE \<and> mvcc_visit_record x (r\<lparr>tr_end := - j\<rparr>) READ_ONLY = SUCCESS"
  using assms by (simp add: mvcc_visit_record_def MAX_TRX_ID_def INT32_MAX_def)

theorem uncommitted_delete_leaks_witness:
  "mvcc_visit_record (MvccTrx_recover 1) \<lparr>tr_begin = 3, tr_end = MAX_TRX_ID, tr_data = []\<rparr> READ_ONLY = RECORD_INVISIBLE \<and>
   mvcc_visit_record (MvccTrx_recover 1) \<lparr>tr_begin = 3, tr_end = - 4, tr_data = []\<rparr> READ_ONLY = SUCCESS"
  using uncommitted_delete_leaks [of "MvccTrx_recover 1" "\<lparr>tr_begin = 3, tr_end = MAX_TRX_ID, tr_data = []\<rparr>" 4]
  by (simp add: MvccTrx_recover_def)

text \<open>An operation on a record that is not in its table stops the end of its transaction; no other operation puts a record there.\<close>

lemma commit_operation_none:
  "commit_operation vs c trx x T = Some T' \<Longrightarrow> T t rid = None \<Longrightarrow> T' t rid = None"
  by (auto simp: commit_operation_def table_visit_record_def split: OperationType.splits option.splits Option.bind_splits if_splits)

lemma commit_missing: "op_ins t rid \<in> set xs \<Longrightarrow> T t rid = None \<Longrightarrow> commit_operations vs c trx xs T = None"
proof (induction xs arbitrary: T)
  case Nil
  then show ?case by simp
next
  case (Cons x xs)
  show ?case
  proof (cases "x = op_ins t rid")
    case True
    then show ?thesis using Cons.prems(2) by (simp add: commit_operation_def table_visit_record_def)
  next
    case False
    then show ?thesis using Cons.IH Cons.prems commit_operation_none [of vs c trx x T _ t rid] by (auto split: Option.bind_splits)
  qed
qed

lemma rollback_operation_none:
  "rollback_operation vs trx x rc T = Some (ret, rc', T') \<Longrightarrow> T t rid = None \<Longrightarrow> T' t rid = None"
  by (auto simp: rollback_operation_def table_visit_record_def table_delete_record_def table_get_record_def Let_def
      split: OperationType.splits option.splits Option.bind_splits if_splits)

lemma rollback_returns: "rollback_operation vs trx x rc T = Some (ret, rc', T') \<Longrightarrow> \<not> mt_recovering trx \<Longrightarrow> \<not> ret"
  by (auto simp: rollback_operation_def Let_def split: OperationType.splits Option.bind_splits prod.splits if_splits)

lemma rollback_missing:
  "op_ins t rid \<in> set xs \<Longrightarrow> T t rid = None \<Longrightarrow> \<not> mt_recovering trx \<Longrightarrow> rollback_operations vs trx xs rc T = None"
proof (induction xs arbitrary: T rc)
  case Nil
  then show ?case by simp
next
  case (Cons x xs)
  show ?case
  proof (cases "x = op_ins t rid")
    case True
    then show ?thesis using Cons.prems(2,3) by (simp add: rollback_operation_def table_delete_record_def table_get_record_def Let_def)
  next
    case False
    then show ?thesis using Cons.IH Cons.prems rollback_operation_none [of vs trx x rc T _ _ _ t rid] rollback_returns [of vs trx x rc T]
      by (auto split: Option.bind_splits)
  qed
qed

text \<open>
  C38. A transaction that has inserted a record can neither commit nor roll back: \<open>insert_record\<close>
  returns \<open>SUCCESS\<close> without storing the record in the table or setting its id, so the end of the
  transaction finds no record under the unset id and an assertion stops the process, whatever else
  the transaction has done.
\<close>

theorem insert_then_commit_stops:
  assumes "mvcc_insert_record rid t d trx db = Some (SUCCESS, rid', trx', db')"
    and "md_tables db t rid = None"
  shows "mvcc_commit th trx' db' = None \<and> (\<not> mt_recovering trx \<longrightarrow> mvcc_rollback trx' db' = None)"
proof -
  have x: "op_ins t rid \<in> set (mt_operations trx')" "md_tables db' t rid = None" "mt_recovering trx' = mt_recovering trx"
    using assms by (auto simp: mvcc_insert_record_def table_insert_record_def push_simps split: Option.bind_splits if_splits)
  have "rollback_operations (md_views db') trx' (rev (mt_operations trx')) SUCCESS (md_tables db') = None" if "\<not> mt_recovering trx"
    by (rule rollback_missing [of t rid]) (use x that in simp_all)
  then show ?thesis
    using commit_missing [OF x(1), of "md_tables db'"] x(2)
    by (simp add: mvcc_commit_def next_trx_id_def Let_def commit_with_trx_id_def mvcc_rollback_def)
qed

theorem insert_then_commit_stops_witness:
  "\<exists>trx' db'. mvcc_insert_record (RID 0 0) 5 [9] (MvccTrx_new\<lparr>mt_trx_id := 1, mt_started := True\<rparr>) example_db =
      Some (SUCCESS, RID 0 0, trx', db') \<and> mvcc_commit (\<lambda>lg. lg) trx' db' = None \<and> mvcc_rollback trx' db' = None"
proof -
  let ?x = "MvccTrx_new\<lparr>mt_trx_id := 1, mt_started := True\<rparr>"
  obtain trx' db' where i: "mvcc_insert_record (RID 0 0) 5 [9] ?x example_db = Some (SUCCESS, RID 0 0, trx', db')"
    by (simp add: mvcc_insert_record_def table_insert_record_def log_record_op_def example_db_def MvccTrx_new_def)
  from insert_then_commit_stops [OF i, of "\<lambda>lg. lg"] i show ?thesis by (simp add: example_db_def MvccTrx_new_def RID_def)
qed

text \<open>
  C39. Recovery rolls nothing back: the replayer never puts a transaction into \<open>trx_map_\<close>, so
  whatever log is replayed, \<open>on_done\<close> finds the map empty and the records of transactions without a
  commit entry keep their marks. \<open>new_addr\<close> is any way to place new objects.
\<close>

theorem recovery_rolls_back_nothing:
  assumes "read_entries (\<lambda>e rp. mvcc_replay (new_addr rp) e rp) es rp = Some (rc, rp')" "rp_trx_map rp = Map.empty"
  shows "mvcc_on_done [] rp' = Some (SUCCESS, rp') \<and> rp_trx_map rp' = Map.empty \<and> md_tables (rp_db rp') = md_tables (rp_db rp)"
proof -
  have step: "rp_trx_map b = Map.empty \<and> md_tables (rp_db b) = md_tables (rp_db a)"
    if "mvcc_replay n e a = Some (c, b)" "rp_trx_map a = Map.empty" for n e a b c
    using that by (auto simp: mvcc_replay_def Let_def create_trx_recover_def destroy_trx_def split: if_splits Option.bind_splits)
  have "rp_trx_map rp' = Map.empty \<and> md_tables (rp_db rp') = md_tables (rp_db rp)"
    using assms
  proof (induction es arbitrary: rp)
    case Nil
    then show ?case by simp
  next
    case (Cons e es)
    then show ?case using step by (fastforce split: Option.bind_splits if_splits)
  qed
  then show ?thesis by (cases rp') (simp add: mvcc_on_done_def)
qed

lemma field32_enc: "int32_range x \<Longrightarrow> length ys = n \<Longrightarrow> field32 (ys @ enc32 x @ zs) n = x"
  using dec32_enc32 [of x] by (simp add: field32_def)

lemma enc_trx_record_fields:
  assumes "int32_range op" "int32_range i" "int32_range t" "int32_range (page_num rid)" "int32_range (slot_num rid)"
  shows "field32 (enc_trx_record op i t rid) 0 = op" "field32 (enc_trx_record op i t rid) 4 = i"
    "field32 (enc_trx_record op i t rid) 8 = t" "field32 (enc_trx_record op i t rid) 12 = page_num rid"
    "field32 (enc_trx_record op i t rid) 16 = slot_num rid" "length (enc_trx_record op i t rid) = 20"
  using field32_enc [OF assms(1), of "[]"] field32_enc [OF assms(2), of "enc32 op"] field32_enc [OF assms(3), of "enc32 op @ enc32 i"]
    field32_enc [OF assms(4), of "enc32 op @ enc32 i @ enc32 t"]
    field32_enc [OF assms(5), of "enc32 op @ enc32 i @ enc32 t @ enc32 (page_num rid)" _ "[]"]
  by (simp_all add: enc_trx_record_def)

theorem recovery_rolls_back_nothing_witness:
  "\<exists>rp rp' rc r. read_entries (mvcc_replay 0) [\<lparr>le_header = \<lparr>h_lsn = 1, h_size = 20, h_module_id = TRANSACTION\<rparr>,
      le_data = enc_trx_record 0 1 1 (RID 1 0)\<rparr>] rp = Some (rc, rp') \<and> mvcc_on_done [] rp' = Some (SUCCESS, rp') \<and>
     md_tables (rp_db rp') 1 (RID 1 0) = Some r \<and> tr_begin r = - 1"
proof -
  let ?r = "\<lparr>tr_begin = - 1, tr_end = MAX_TRX_ID, tr_data = [9]\<rparr>"
  let ?rp = "\<lparr>rp_db = example_db\<lparr>md_tables := (\<lambda>t rid. if t = 1 \<and> rid = RID 1 0 then Some ?r else None)\<rparr>, rp_trx_map = Map.empty\<rparr>"
  let ?es = "[\<lparr>le_header = \<lparr>h_lsn = 1, h_size = 20, h_module_id = TRANSACTION\<rparr>, le_data = enc_trx_record 0 1 1 (RID 1 0)\<rparr>]"
  have f: "field32 (enc_trx_record 0 1 1 (RID 1 0)) 0 = 0" "field32 (enc_trx_record 0 1 1 (RID 1 0)) 4 = 1"
    "field32 (enc_trx_record 0 1 1 (RID 1 0)) 8 = 1" "length (enc_trx_record 0 1 1 (RID 1 0)) = 20"
    using enc_trx_record_fields [of 0 1 1 "RID 1 0"] by (simp_all add: int32_range_def RID_def)
  obtain rc rp' where r: "read_entries (mvcc_replay 0) ?es ?rp = Some (rc, rp')"
    by (simp add: mvcc_replay_def Let_def payload_size_def size_invalid_def size_bad_def max_payload_size_def LogEntry_max_size_def LogHeader_SIZE_def f
        create_trx_recover_def mvcc_redo_def example_db_def TRX_COMMIT_def TRX_ROLLBACK_def)
  from recovery_rolls_back_nothing [of "\<lambda>_. 0", OF r] have
    d: "mvcc_on_done [] rp' = Some (SUCCESS, rp')" "md_tables (rp_db rp') 1 (RID 1 0) = Some ?r" by simp_all
  show ?thesis
    by (rule exI [of _ ?rp], rule exI [of _ rp'], rule exI [of _ rc], rule exI [of _ ?r]) (use r d in \<open>intro conjI, simp_all only: TrxRecord.simps\<close>)
qed

end
