(* ===== verification/KeyOrder.thy ===== *)
theory KeyOrder
  imports RecordLog "HOL-Library.List_Lexorder" "HOL-Library.Product_Lexorder"
begin

text \<open>
  Ordering of index keys: the binary search of \<open>deps/common/lang/lower_bound.h\<close>, the value
  comparisons of \<open>deps/common/lang/comparator.cpp\<close>, and the \<open>AttrComparator\<close> and
  \<open>KeyComparator\<close> of \<open>storage/index/bplus_tree.h\<close>. A key is the bytes of the indexed attributes
  and the record id behind them.

  The lemmas show that the search agrees with a linear scan wherever the array is sorted for the
  comparison, and that the comparison of integer, date and character attributes is the order of a
  rank, a value of a linearly ordered type; for float attributes it is not an order.
\<close>

section \<open>Binary search\<close>

text \<open>\<open>cmp\<close> is the comparison of an element with the value looked for; \<open>first\<close> and \<open>last_count\<close>
  are the loop's variables, iterators being indices into the array.\<close>

function (sequential) lower_bound_loop ::
    "('a \<Rightarrow> int option) \<Rightarrow> 'a list \<Rightarrow> nat \<Rightarrow> nat \<Rightarrow> (nat \<times> bool) option" where
  "lower_bound_loop cmp xs first last_count =
     (if last_count > 0 then
        let step = last_count div 2; iter = first + step
        in do {
          x \<leftarrow> mem_get xs iter;
          result \<leftarrow> cmp x;
          if result = 0 then Some (iter, True)
          else if result < 0 then lower_bound_loop cmp xs (iter + 1) (last_count - (step + 1))
          else lower_bound_loop cmp xs first step }
      else Some (first, False))"
  by pat_completeness auto
termination
  by (relation "measure (\<lambda>(cmp, xs, first, last_count). last_count)") auto

declare lower_bound_loop.simps [simp del]

definition lower_bound :: "('a \<Rightarrow> int option) \<Rightarrow> 'a list \<Rightarrow> (nat \<times> bool) option" where
  "lower_bound cmp xs = lower_bound_loop cmp xs 0 (length xs)"

text \<open>What the search is for: the position of the first element that is not less than the value
  looked for, and whether that element is equal to it.\<close>

definition linear_search :: "('a \<Rightarrow> int) \<Rightarrow> 'a list \<Rightarrow> nat \<times> bool" where
  "linear_search c xs = (length (takeWhile (\<lambda>x. c x < 0) xs), \<exists>x\<in>set xs. c x = 0)"

text \<open>The array is sorted for the value looked for: smaller elements, then at most one equal one,
  then greater elements.\<close>

definition search_sorted :: "('a \<Rightarrow> int) \<Rightarrow> 'a list \<Rightarrow> bool" where
  "search_sorted c xs \<longleftrightarrow> sorted_wrt (\<lambda>x y. 0 \<le> c x \<longrightarrow> 0 < c y) xs"

lemma search_sortedD:
  assumes "search_sorted c xs" "i < j" "j < length xs"
  shows "0 \<le> c (xs ! i) \<Longrightarrow> 0 < c (xs ! j)" "c (xs ! j) \<le> 0 \<Longrightarrow> c (xs ! i) < 0"
  using assms by (auto simp: search_sorted_def sorted_wrt_iff_nth_less not_less) (metis leD not_le_imp_less)

lemma takeWhile_lessI:
  assumes "i \<le> length xs" "\<And>j. j < i \<Longrightarrow> P (xs ! j)" "i < length xs \<Longrightarrow> \<not> P (xs ! i)"
  shows "length (takeWhile P xs) = i"
  using length_takeWhile_less_P_nth takeWhile_eq_take_P_nth assms
  by (metis length_take min.absorb2)

lemma lower_bound_loop_correct:
  assumes "\<forall>x\<in>set xs. cmp x = Some (c x)" "search_sorted c xs" "first + n \<le> length xs"
    "\<forall>j<first. c (xs ! j) < 0" "\<forall>j. first + n \<le> j \<and> j < length xs \<longrightarrow> 0 < c (xs ! j)"
  shows "lower_bound_loop cmp xs first n = Some (linear_search c xs)"
  using assms
proof (induction cmp xs first n rule: lower_bound_loop.induct)
  case (1 cmp xs first n)
  note prems = "1.prems"
  let ?i = "first + n div 2"
  show ?case
  proof (cases "n > 0")
    case False
    then have "n = 0" by simp
    have "length (takeWhile (\<lambda>x. c x < 0) xs) = first"
      using prems(3-5) \<open>n = 0\<close> by (intro takeWhile_lessI) auto
    moreover have "\<not> (\<exists>x\<in>set xs. c x = 0)"
    proof
      assume "\<exists>x\<in>set xs. c x = 0"
      then obtain j where j: "j < length xs" "c (xs ! j) = 0" by (auto simp: in_set_conv_nth)
      show False using j prems(4) [THEN spec, of j] prems(5) [THEN spec, of j] \<open>n = 0\<close>
        by (cases "j < first") auto
    qed
    ultimately show ?thesis
      using \<open>n = 0\<close> by (simp add: lower_bound_loop.simps [of cmp xs first 0] linear_search_def)
  next
    case True
    then have i: "?i < first + n" "?i < length xs"
      using prems(3) div_less_dividend [of 2 n] by auto
    have cmp: "cmp (xs ! ?i) = Some (c (xs ! ?i))" using prems(1) i by auto
    consider (eq) "c (xs ! ?i) = 0" | (less) "c (xs ! ?i) < 0" | (greater) "0 < c (xs ! ?i)" by linarith
    then show ?thesis
    proof cases
      case eq
      have "length (takeWhile (\<lambda>x. c x < 0) xs) = ?i"
        using eq i search_sortedD(2) [OF prems(2) _ i(2)] by (intro takeWhile_lessI) auto
      moreover have "\<exists>x\<in>set xs. c x = 0" using eq i by (intro bexI [of _ "xs ! ?i"]) auto
      ultimately show ?thesis
        using True i cmp eq by (simp add: lower_bound_loop.simps [of cmp xs first n] linear_search_def)
    next
      case less
      have "\<forall>j<?i + 1. c (xs ! j) < 0"
        using less search_sortedD(2) [OF prems(2) _ i(2)] by (auto simp: less_Suc_eq)
      then have "lower_bound_loop cmp xs (?i + 1) (n - (n div 2 + 1)) = Some (linear_search c xs)"
        using less True i cmp prems by (intro "1.IH"(1) [OF _ refl refl]) (auto simp: algebra_simps)
      then show ?thesis using True i cmp less by (simp add: lower_bound_loop.simps [of cmp xs first n])
    next
      case greater
      have "\<forall>j. ?i \<le> j \<and> j < length xs \<longrightarrow> 0 < c (xs ! j)"
        using greater search_sortedD(1) [OF prems(2), of ?i] by (metis le_neq_implies_less less_imp_le)
      then have "lower_bound_loop cmp xs first (n div 2) = Some (linear_search c xs)"
        using greater True i cmp prems by (intro "1.IH"(2) [OF _ refl refl]) auto
      then show ?thesis using True i cmp greater by (simp add: lower_bound_loop.simps [of cmp xs first n])
    qed
  qed
qed

lemma lower_bound_search:
  "\<forall>x\<in>set xs. cmp x = Some (c x) \<Longrightarrow> search_sorted c xs \<Longrightarrow> lower_bound cmp xs = Some (linear_search c xs)"
  unfolding lower_bound_def by (rule lower_bound_loop_correct) auto

section \<open>Comparison of values\<close>

datatype (plugins only: code) AttrType =
    UNDEFINED | CHARS | INTS | FLOATS | BOOLEANS | VECTORS | DATES | NULLS | TEXTS
  | HIGH_VECTORS | VALUESLISTS | MAXTYPE

definition compare_int :: "byte list \<Rightarrow> byte list \<Rightarrow> int" where
  "compare_int arg1 arg2 =
     (let v1 = dec32 arg1; v2 = dec32 arg2
      in if v1 > v2 then 1 else if v1 < v2 then - 1 else 0)"

text \<open>
  Single precision numbers: a finite one is an integral multiple of \<open>2\<^sup>-\<^sup>1\<^sup>4\<^sup>9\<close>, the least
  positive one, and is represented by that multiple. \<open>Infinite True\<close> is the negative infinity.
\<close>

datatype (plugins only: code) float32 = Finite int | Infinite bool | NotANumber

definition dec_float :: "byte list \<Rightarrow> float32" where
  "dec_float bs =
     (let w = le_value (take 4 bs); fraction = w mod 2 ^ 23; ex = w div 2 ^ 23 mod 2 ^ 8;
        negative = (w div 2 ^ 31 mod 2 = 1);
        m = (if ex = 0 then fraction else (2 ^ 23 + fraction) * 2 ^ nat (ex - 1))
      in if ex = 255 then if fraction = 0 then Infinite negative else NotANumber
         else Finite (if negative then - m else m))"

text \<open>
  \<open>float cmp = v1 - v2; cmp > EPSILON\<close> with the double constant \<open>1E-6\<close>: the difference is rounded
  to a float, ties to the even one. The greatest float not above \<open>1E-6\<close> is \<open>8796093 \<cdot> 2\<^sup>-\<^sup>4\<^sup>3\<close>, so
  the rounded difference exceeds the constant exactly when the difference is at least
  \<open>17592187 \<cdot> 2\<^sup>-\<^sup>4\<^sup>4\<close>, the middle between that float and the next one.
\<close>

definition EPSILON_MIDDLE :: int where
  "EPSILON_MIDDLE = 17592187 * 2 ^ 105"

definition compare_float :: "byte list \<Rightarrow> byte list \<Rightarrow> int" where
  "compare_float arg1 arg2 =
     (case (dec_float arg1, dec_float arg2) of
        (Finite v1, Finite v2) \<Rightarrow>
          if v1 - v2 \<ge> EPSILON_MIDDLE then 1 else if v1 - v2 \<le> - EPSILON_MIDDLE then - 1 else 0
      | (Infinite s, Finite _) \<Rightarrow> if s then - 1 else 1
      | (Finite _, Infinite s) \<Rightarrow> if s then 1 else - 1
      | (Infinite s, Infinite s') \<Rightarrow> if s = s' then 0 else if s then - 1 else 1
      | _ \<Rightarrow> 0)"

fun strncmp :: "byte list \<Rightarrow> byte list \<Rightarrow> nat \<Rightarrow> int option" where
  "strncmp s1 s2 0 = Some 0"
| "strncmp (a # s1) (b # s2) (Suc n) =
     (if a \<noteq> b then Some (if uint a < uint b then - 1 else 1)
      else if a = 0 then Some 0 else strncmp s1 s2 n)"
| "strncmp s1 s2 (Suc n) = None"

definition compare_string :: "byte list \<Rightarrow> nat \<Rightarrow> byte list \<Rightarrow> nat \<Rightarrow> int option" where
  "compare_string s1 arg1_max_length s2 arg2_max_length =
     (let maxlen = min arg1_max_length arg2_max_length in do {
        result \<leftarrow> strncmp s1 s2 maxlen;
        Some (if result \<noteq> 0 then (if result < 0 then - 1 else 1)
          else if arg1_max_length > maxlen then 1
          else if arg2_max_length > maxlen then - 1 else 0) })"

section \<open>Comparison of keys\<close>

text \<open>\<open>AttrComparator::compare_key\<close>; the pointers are the rest of the key's bytes. Other types
  stop the process.\<close>

definition compare_key :: "byte list \<Rightarrow> byte list \<Rightarrow> AttrType \<Rightarrow> nat \<Rightarrow> int option" where
  "compare_key v1 v2 attr_type attr_length =
     (case attr_type of
        INTS \<Rightarrow> do { a \<leftarrow> mem_read v1 0 4; b \<leftarrow> mem_read v2 0 4; Some (compare_int a b) }
      | DATES \<Rightarrow> do { a \<leftarrow> mem_read v1 0 4; b \<leftarrow> mem_read v2 0 4; Some (compare_int a b) }
      | FLOATS \<Rightarrow> do { a \<leftarrow> mem_read v1 0 4; b \<leftarrow> mem_read v2 0 4; Some (compare_float a b) }
      | CHARS \<Rightarrow> compare_string v1 attr_length v2 attr_length
      | _ \<Rightarrow> None)"

fun AttrComparator :: "(AttrType \<times> nat) list \<Rightarrow> byte list \<Rightarrow> byte list \<Rightarrow> int option" where
  "AttrComparator [] v1 v2 = Some 0"
| "AttrComparator ((attr_type, attr_length) # attrs) v1 v2 = do {
     result \<leftarrow> compare_key v1 v2 attr_type attr_length;
     if result \<noteq> 0 then Some result
     else AttrComparator attrs (drop attr_length v1) (drop attr_length v2) }"

type_synonym index_key = "byte list \<times> RID"

definition KeyComparator :: "(AttrType \<times> nat) list \<Rightarrow> index_key \<Rightarrow> index_key \<Rightarrow> int option" where
  "KeyComparator attrs k1 k2 = do {
     result \<leftarrow> AttrComparator attrs (fst k1) (fst k2);
     Some (if result \<noteq> 0 then result else RID_compare (snd k1) (snd k2)) }"

definition RID_min :: RID where
  "RID_min = RID 0 0"

definition RID_max :: RID where
  "RID_max = RID INT32_MAX INT32_MAX"

section \<open>The order behind the comparison\<close>

definition order3 :: "'a::linorder \<Rightarrow> 'a \<Rightarrow> int" where
  "order3 x y = (if x < y then - 1 else if x = y then 0 else 1)"

lemma order3_simps [simp]: "order3 x x = 0" "order3 x y = 0 \<longleftrightarrow> x = y" "order3 x y < 0 \<longleftrightarrow> x < y"
  "0 < order3 x y \<longleftrightarrow> y < x" "sgn (order3 x y) = order3 x y"
  by (auto simp: order3_def)

lemma order3_Cons: "order3 (x # xs) (y # ys) = (if x = y then order3 xs ys else order3 x y)"
  for x y :: "'a::linorder"
  by (auto simp: order3_def)

lemma order3_Pair: "order3 (a, b) (c, d) = (if a = c then order3 b d else order3 a c)"
  for a c :: "'a::linorder" and b d :: "'b::linorder"
  by (auto simp: order3_def less_prod_def less_le)

definition c_string :: "byte list \<Rightarrow> int list" where
  "c_string s = map uint (takeWhile (\<lambda>c. c \<noteq> 0) s)"

definition attr_rank :: "AttrType \<Rightarrow> nat \<Rightarrow> byte list \<Rightarrow> int list" where
  "attr_rank t n v = (if t = CHARS then c_string (take n v) else [dec32 (take 4 v)])"

fun attrs_rank :: "(AttrType \<times> nat) list \<Rightarrow> byte list \<Rightarrow> int list list" where
  "attrs_rank [] v = []"
| "attrs_rank ((t, n) # attrs) v = attr_rank t n v # attrs_rank attrs (drop n v)"

type_synonym key_order = "int list list \<times> int \<times> int"

definition key_rank :: "(AttrType \<times> nat) list \<Rightarrow> index_key \<Rightarrow> key_order" where
  "key_rank attrs k = (attrs_rank attrs (fst k), page_num (snd k), slot_num (snd k))"

definition ordered_attr :: "AttrType \<times> nat \<Rightarrow> bool" where
  "ordered_attr a \<longleftrightarrow> fst a = CHARS \<or> fst a \<in> {INTS, DATES} \<and> 4 \<le> snd a"

definition rid_range :: "RID \<Rightarrow> bool" where
  "rid_range r \<longleftrightarrow> 0 \<le> page_num r \<and> page_num r \<le> INT32_MAX \<and> 0 \<le> slot_num r \<and> slot_num r \<le> INT32_MAX"

definition key_ok :: "(AttrType \<times> nat) list \<Rightarrow> index_key \<Rightarrow> bool" where
  "key_ok attrs k \<longleftrightarrow> list_all ordered_attr attrs \<and> length (fst k) = sum_list (map snd attrs) \<and> rid_range (snd k)"

lemma c_string_Cons: "c_string (b # s) = (if b = 0 then [] else uint b # c_string s)"
  by (simp add: c_string_def)

lemma c_string_Nil [simp]: "c_string [] = []"
  by (simp add: c_string_def)

lemma order3_Nil: "order3 [] (x # xs) = - 1" "order3 (x # xs) [] = 1" for x :: "'a::linorder"
  by (simp_all add: order3_def)

lemma strncmp_rank:
  "n \<le> length s1 \<Longrightarrow> n \<le> length s2 \<Longrightarrow>
     strncmp s1 s2 n = Some (order3 (c_string (take n s1)) (c_string (take n s2)))"
proof (induction s1 s2 n rule: strncmp.induct)
  case (2 a s1 b s2 n)
  have u: "uint a = 0 \<longleftrightarrow> a = 0" "uint b = 0 \<longleftrightarrow> b = 0" "uint a = uint b \<longleftrightarrow> a = b" for a b :: byte
    using word_uint_eq_iff [of a b] by (simp_all add: uint_0_iff)
  have p: "a \<noteq> 0 \<Longrightarrow> 0 < uint a" for a :: byte
    using u(1) [of a] uint_ge_0 [of a] by linarith
  show ?case using 2 u p [of a] p [of b]
    by (auto simp: c_string_Cons order3_Cons order3_Nil order3_def)
qed auto

lemma compare_string_rank:
  "n \<le> length s1 \<Longrightarrow> n \<le> length s2 \<Longrightarrow>
     compare_string s1 n s2 n = Some (order3 (c_string (take n s1)) (c_string (take n s2)))"
  by (simp add: compare_string_def strncmp_rank) (simp add: order3_def)

lemma compare_int_rank: "compare_int a b = order3 [dec32 a] [dec32 b]"
  by (simp add: compare_int_def order3_def)

lemma compare_key_rank:
  "ordered_attr (t, n) \<Longrightarrow> n \<le> length v1 \<Longrightarrow> n \<le> length v2 \<Longrightarrow>
     compare_key v1 v2 t n = Some (order3 (attr_rank t n v1) (attr_rank t n v2))"
  by (auto simp: compare_key_def ordered_attr_def attr_rank_def compare_string_rank compare_int_rank)

lemma AttrComparator_rank:
  "list_all ordered_attr attrs \<Longrightarrow> sum_list (map snd attrs) \<le> length v1 \<Longrightarrow> sum_list (map snd attrs) \<le> length v2 \<Longrightarrow>
     AttrComparator attrs v1 v2 = Some (order3 (attrs_rank attrs v1) (attrs_rank attrs v2))"
  by (induction attrs v1 v2 rule: AttrComparator.induct)
    (auto simp: compare_key_rank order3_Cons)

lemma RID_compare_rank:
  assumes "rid_range r1" "rid_range r2"
  shows "sgn (RID_compare r1 r2) = order3 (page_num r1, slot_num r1) (page_num r2, slot_num r2)"
proof -
  have "to_int32 (page_num r1 - page_num r2) = page_num r1 - page_num r2"
    "to_int32 (slot_num r1 - slot_num r2) = slot_num r1 - slot_num r2"
    using assms by (auto simp: rid_range_def INT32_MAX_def int32_range_def intro!: to_int32_id)
  then show ?thesis by (auto simp: RID_compare_def Let_def order3_Pair order3_def sgn_if)
qed

lemma KeyComparator_rank:
  assumes "key_ok attrs k1" "key_ok attrs k2"
  obtains r where "KeyComparator attrs k1 k2 = Some r" "sgn r = order3 (key_rank attrs k1) (key_rank attrs k2)"
  using assms RID_compare_rank [of "snd k1" "snd k2"]
  by (auto simp: KeyComparator_def key_ok_def AttrComparator_rank key_rank_def order3_Pair)

section \<open>Properties\<close>

text \<open>
  C16. The binary search always returns. On an array sorted for the value looked for it finds the
  position a linear scan finds, a position inside the array or behind its last element, and reports
  exactly whether an equal element is present.\<close>

theorem lower_bound_equiv:
  assumes "\<forall>x\<in>set xs. cmp x = Some (c x)" and "search_sorted c xs"
  shows "lower_bound cmp xs = Some (linear_search c xs) \<and> fst (linear_search c xs) \<le> length xs"
  using lower_bound_search [OF assms] by (simp add: linear_search_def length_takeWhile_le)

theorem lower_bound_equiv_witness:
  "lower_bound (\<lambda>x. Some (x - 5)) [1, 3, 5, 8 :: int] = Some (2, True) \<and>
   lower_bound (\<lambda>x. Some (x - 9)) [1, 3, 5, 8 :: int] = Some (4, False)"
  using lower_bound_equiv [of "[1, 3, 5, 8]" "\<lambda>x. Some (x - 5)" "\<lambda>x. x - 5"]
    lower_bound_equiv [of "[1, 3, 5, 8]" "\<lambda>x. Some (x - 9)" "\<lambda>x. x - 9"]
  by (simp add: search_sorted_def linear_search_def)

text \<open>
  C17. For keys of integer, date and character attributes the comparison of the B+-tree is defined and
  is the order of the keys' ranks: the attributes in turn, characters up to the first NUL, then the
  page and the slot of the record id.\<close>

theorem key_comparator_order:
  assumes "key_ok attrs k1" and "key_ok attrs k2"
  shows "\<exists>r. KeyComparator attrs k1 k2 = Some r \<and>
     (r < 0 \<longleftrightarrow> key_rank attrs k1 < key_rank attrs k2) \<and> (r = 0 \<longleftrightarrow> key_rank attrs k1 = key_rank attrs k2)"
proof -
  obtain r where r: "KeyComparator attrs k1 k2 = Some r" "sgn r = order3 (key_rank attrs k1) (key_rank attrs k2)"
    using KeyComparator_rank [OF assms] .
  have "sgn r < 0 \<longleftrightarrow> r < 0" "sgn r = 0 \<longleftrightarrow> r = 0" by (simp_all add: sgn_if)
  then show ?thesis using r by (intro exI [of _ r]) simp
qed

theorem key_comparator_order_witness:
  "\<exists>r. KeyComparator [(INTS, 4), (CHARS, 2)] ([1, 0, 0, 0, 97, 98], RID 1 2) ([1, 0, 0, 0, 97, 0], RID 1 1) = Some r \<and> 0 < r"
proof -
  have "key_rank [(INTS, 4), (CHARS, 2)] ([1, 0, 0, 0, 97, 0], RID 1 1) < key_rank [(INTS, 4), (CHARS, 2)] ([1, 0, 0, 0, 97, 98], RID 1 2)"
    by (simp add: key_rank_def attr_rank_def c_string_def less_prod_def)
  then show ?thesis
    using key_comparator_order [of "[(INTS, 4), (CHARS, 2)]" "([1, 0, 0, 0, 97, 98], RID 1 2)" "([1, 0, 0, 0, 97, 0], RID 1 1)"]
    by (force simp: key_ok_def ordered_attr_def rid_range_def RID_def INT32_MAX_def)
qed

text \<open>
  C40. The comparison of float attributes is not an order: 0 is equal to 8e-7, which is equal to
  16e-7, but 0 is less than 16e-7. An index on a float attribute has no sorted order to search in.\<close>

theorem compare_float_not_transitive:
  "\<exists>a b c. compare_float a b = 0 \<and> compare_float b c = 0 \<and> compare_float a c < 0"
proof -
  have "compare_float [0, 0, 0, 0] [149, 191, 86, 53] = 0 \<and> compare_float [149, 191, 86, 53] [149, 191, 214, 53] = 0 \<and>
      compare_float [0, 0, 0, 0] [149, 191, 214, 53] < 0"
    by (simp add: compare_float_def dec_float_def EPSILON_MIDDLE_def)
  then show ?thesis by blast
qed

end
