(* ===== verification/BplusTree.thy ===== *)
theory BplusTree
  imports KeyOrder
begin

text \<open>
  The B+-tree index (\<open>storage/index/bplus_tree.h\<close>, \<open>bplus_tree.cpp\<close>), its latch memo
  (\<open>latch_memo.cpp\<close>) and its mini transactions and log entries (\<open>bplus_tree_log.cpp\<close>,
  \<open>bplus_tree_log_entry.cpp\<close>).

  The pages of the index file are a map from page numbers to nodes, which is how the tree sees the
  buffer pool: fetching pins a page, an allocation takes the first free page or extends the file,
  and a page is disposed of when the mini transaction's memo is released. Any call of the pool may
  fail; \<open>bt_faults\<close> lists the outcomes of the calls to come, every call after them succeeding. A
  node is its header and the list of its items, \<open>key_num\<close> being the length of that list.
  \<^const>\<open>None\<close> stands for a failed assertion, an access outside a page, a self-deadlock on the
  root lock or a loop that does not end.
\<close>

section \<open>Data\<close>

definition FIRST_INDEX_PAGE :: PageNum where "FIRST_INDEX_PAGE = 1"

record IndexFileHeader =
  ih_root_page :: PageNum
  ih_internal_max_size :: nat
  ih_leaf_max_size :: nat
  ih_attrs :: "(AttrType \<times> nat) list"  \<comment> \<open>\<open>attr_types\<close> and \<open>attr_lengths\<close> up to \<open>attr_num\<close>\<close>
  ih_total_attr_length :: nat
  ih_key_length :: nat
  ih_unique :: int

datatype item_value = RecordValue RID | ChildPage PageNum

type_synonym item = "index_key \<times> item_value"

record IndexNode =
  nd_is_leaf :: bool
  nd_parent :: PageNum
  nd_next_brother :: PageNum  \<comment> \<open>of leaves\<close>
  nd_items :: "item list"

datatype BplusTreeOperationType = OP_READ | OP_INSERT_ENTRY | OP_DELETE_ENTRY

text \<open>What the memo holds: pins, and latches of pages or of \<open>root_lock_\<close>.\<close>

datatype lock_target = RootLock | PageLatch PageNum

datatype LatchMemoItem = PIN PageNum | SHARED lock_target | EXCLUSIVE lock_target

datatype LogEntryHandler =
    UpdateRootPage PageNum PageNum
  | SetParentPage PageNum PageNum PageNum
  | LeafInitEmpty PageNum
  | LeafSetNextPage PageNum PageNum PageNum
  | InternalInitEmpty PageNum
  | InternalCreateNewRoot PageNum PageNum index_key PageNum
  | InternalUpdateKey PageNum nat index_key index_key
  | NodeInsert PageNum nat "item list"
  | NodeRemove PageNum nat "item list"

record MiniTransaction =
  mx_items :: "LatchMemoItem list"
  mx_disposed :: "PageNum list"
  mx_entries :: "LogEntryHandler list"
  mx_need_log :: bool

definition MiniTransaction_new :: MiniTransaction where
  "MiniTransaction_new = \<lparr>mx_items = [], mx_disposed = [], mx_entries = [], mx_need_log = True\<rparr>"

record BplusTreeHandler =
  bt_header :: IndexFileHeader       \<comment> \<open>\<open>file_header_\<close>\<close>
  bt_header_page :: IndexFileHeader  \<comment> \<open>contents of the first index page\<close>
  bt_header_dirty :: bool
  bt_nodes :: "PageNum \<rightharpoonup> IndexNode"
  bt_page_count :: nat
  bt_max_pages :: nat                \<comment> \<open>\<open>MAX_PAGE_NUM\<close> of the buffer pool\<close>
  bt_faults :: "RC list"
  bt_pins :: "PageNum \<Rightarrow> int"
  bt_locks :: "lock_target \<Rightarrow> int"
  bt_wal :: "LogEntryHandler list list"  \<comment> \<open>log records appended by commits\<close>
  bt_mtr :: MiniTransaction

definition calc_internal_page_capacity :: "nat \<Rightarrow> nat" where
  "calc_internal_page_capacity attr_length = (BP_PAGE_DATA_SIZE - 12) div (attr_length + 8 + 4)"

definition calc_leaf_page_capacity :: "nat \<Rightarrow> nat" where
  "calc_leaf_page_capacity attr_length = (BP_PAGE_DATA_SIZE - 16) div (attr_length + 8 + 8)"

section \<open>Buffer pool calls and the latch memo\<close>

abbreviation mtr_update :: "(MiniTransaction \<Rightarrow> MiniTransaction) \<Rightarrow> BplusTreeHandler \<Rightarrow> BplusTreeHandler" where
  "mtr_update f st \<equiv> st\<lparr>bt_mtr := f (bt_mtr st)\<rparr>"

definition memo_push :: "LatchMemoItem \<Rightarrow> BplusTreeHandler \<Rightarrow> BplusTreeHandler" where
  "memo_push x st = mtr_update (mx_items_update (\<lambda>xs. xs @ [x])) st"

definition pool_outcome :: "BplusTreeHandler \<Rightarrow> RC \<times> BplusTreeHandler" where
  "pool_outcome st = (case bt_faults st of [] \<Rightarrow> (SUCCESS, st) | rc # rs \<Rightarrow> (rc, st\<lparr>bt_faults := rs\<rparr>))"

definition page_exists :: "PageNum \<Rightarrow> BplusTreeHandler \<Rightarrow> bool" where
  "page_exists p st \<longleftrightarrow> p = FIRST_INDEX_PAGE \<or> bt_nodes st p \<noteq> None"

definition pool_pin :: "PageNum \<Rightarrow> BplusTreeHandler \<Rightarrow> (RC \<times> BplusTreeHandler) option" where
  "pool_pin p st = (case pool_outcome st of (rc, st1) \<Rightarrow>
     if OB_FAIL rc then Some (rc, st1)
     else if page_exists p st1 then Some (SUCCESS, st1\<lparr>bt_pins := (bt_pins st1)(p := bt_pins st1 p + 1)\<rparr>)
     else None)"

definition pool_unpin :: "PageNum \<Rightarrow> BplusTreeHandler \<Rightarrow> BplusTreeHandler option" where
  "pool_unpin p st = do {
     assert_that (bt_pins st p > 0);
     Some (st\<lparr>bt_pins := (bt_pins st)(p := bt_pins st p - 1)\<rparr>) }"

text \<open>Contents of a page before it is initialised.\<close>

definition blank_node :: IndexNode where
  "blank_node = \<lparr>nd_is_leaf = False, nd_parent = 0, nd_next_brother = 0, nd_items = []\<rparr>"

definition free_page :: "BplusTreeHandler \<Rightarrow> nat option" where
  "free_page st =
     (case find (\<lambda>p. bt_nodes st (int p) = None) [2..<bt_page_count st] of
        Some p \<Rightarrow> Some p
      | None \<Rightarrow> if bt_page_count st \<ge> bt_max_pages st then None else Some (bt_page_count st))"

definition pool_allocate :: "BplusTreeHandler \<Rightarrow> RC \<times> PageNum \<times> BplusTreeHandler" where
  "pool_allocate st = (case pool_outcome st of (rc, st1) \<Rightarrow>
     if OB_FAIL rc then (rc, BP_INVALID_PAGE_NUM, st1)
     else (case free_page st1 of
        None \<Rightarrow> (BUFFERPOOL_NOBUF, BP_INVALID_PAGE_NUM, st1)
      | Some n \<Rightarrow> (SUCCESS, int n,
          st1\<lparr>bt_nodes := (bt_nodes st1)(int n \<mapsto> blank_node), bt_page_count := max (n + 1) (bt_page_count st1),
              bt_pins := (bt_pins st1)(int n := bt_pins st1 (int n) + 1)\<rparr>)))"

definition pool_dispose :: "PageNum \<Rightarrow> BplusTreeHandler \<Rightarrow> BplusTreeHandler option" where
  "pool_dispose p st = do {
     assert_that (bt_pins st p = 0);
     Some (st\<lparr>bt_nodes := (bt_nodes st)(p := None)\<rparr>) }"

definition get_page :: "PageNum \<Rightarrow> BplusTreeHandler \<Rightarrow> (RC \<times> BplusTreeHandler) option" where
  "get_page p st = do {
     (rc, st1) \<leftarrow> pool_pin p st;
     Some (rc, if rc = SUCCESS then memo_push (PIN p) st1 else st1) }"

definition memo_allocate_page :: "BplusTreeHandler \<Rightarrow> (RC \<times> PageNum \<times> BplusTreeHandler) option" where
  "memo_allocate_page st = (case pool_allocate st of (rc, p, st1) \<Rightarrow>
     if rc = SUCCESS then do {
       assert_that (bt_pins st1 p = 1);
       Some (rc, p, memo_push (PIN p) st1) }
     else Some (rc, p, st1))"

definition memo_dispose_page :: "PageNum \<Rightarrow> BplusTreeHandler \<Rightarrow> BplusTreeHandler" where
  "memo_dispose_page p st = mtr_update (mx_disposed_update (\<lambda>ps. ps @ [p])) st"

text \<open>Locking: \<open>root_lock_\<close> is not recursive, the frames' latches are.\<close>

definition take_lock :: "lock_target \<Rightarrow> BplusTreeHandler \<Rightarrow> BplusTreeHandler option" where
  "take_lock t st = do {
     assert_that (t = RootLock \<longrightarrow> bt_locks st t = 0);
     Some (st\<lparr>bt_locks := (bt_locks st)(t := bt_locks st t + 1)\<rparr>) }"

definition drop_lock :: "lock_target \<Rightarrow> BplusTreeHandler \<Rightarrow> BplusTreeHandler option" where
  "drop_lock t st = do {
     assert_that (bt_locks st t > 0);
     Some (st\<lparr>bt_locks := (bt_locks st)(t := bt_locks st t - 1)\<rparr>) }"

definition memo_xlatch :: "lock_target \<Rightarrow> BplusTreeHandler \<Rightarrow> BplusTreeHandler option" where
  "memo_xlatch t st = do { st1 \<leftarrow> take_lock t st; Some (memo_push (EXCLUSIVE t) st1) }"

definition memo_slatch :: "lock_target \<Rightarrow> BplusTreeHandler \<Rightarrow> BplusTreeHandler option" where
  "memo_slatch t st = do { st1 \<leftarrow> take_lock t st; Some (memo_push (SHARED t) st1) }"

definition release_item :: "LatchMemoItem \<Rightarrow> BplusTreeHandler \<Rightarrow> BplusTreeHandler option" where
  "release_item x st = (case x of
     EXCLUSIVE t \<Rightarrow> drop_lock t st | SHARED t \<Rightarrow> drop_lock t st | PIN p \<Rightarrow> pool_unpin p st)"

fun release_items :: "LatchMemoItem list \<Rightarrow> BplusTreeHandler \<Rightarrow> BplusTreeHandler option" where
  "release_items [] st = Some st"
| "release_items (x # xs) st = do { st1 \<leftarrow> release_item x st; release_items xs st1 }"

definition release_to :: "nat \<Rightarrow> BplusTreeHandler \<Rightarrow> BplusTreeHandler option" where
  "release_to point st = do {
     let xs = mx_items (bt_mtr st);
     assert_that (point \<le> length xs);
     st1 \<leftarrow> release_items (rev (take point xs)) st;
     Some (mtr_update (mx_items_update (drop point)) st1) }"

fun dispose_pages :: "PageNum list \<Rightarrow> BplusTreeHandler \<Rightarrow> BplusTreeHandler option" where
  "dispose_pages [] st = Some st"
| "dispose_pages (p # ps) st = do { st1 \<leftarrow> pool_dispose p st; dispose_pages ps st1 }"

definition memo_release :: "BplusTreeHandler \<Rightarrow> BplusTreeHandler option" where
  "memo_release st = do {
     st1 \<leftarrow> release_to (length (mx_items (bt_mtr st))) st;
     st2 \<leftarrow> dispose_pages (mx_disposed (bt_mtr st1)) st1;
     Some (mtr_update (mx_disposed_update (\<lambda>_. [])) st2) }"

section \<open>Nodes\<close>

text \<open>\<open>append_log_entry\<close> always succeeds, so the operations below have no failure of their own.\<close>

definition append_log_entry :: "LogEntryHandler \<Rightarrow> BplusTreeHandler \<Rightarrow> BplusTreeHandler" where
  "append_log_entry e st =
     (if \<not> mx_need_log (bt_mtr st) then st else mtr_update (mx_entries_update (\<lambda>es. es @ [e])) st)"

abbreviation key_cmp :: "BplusTreeHandler \<Rightarrow> index_key \<Rightarrow> index_key \<Rightarrow> int option" where
  "key_cmp st \<equiv> KeyComparator (ih_attrs (bt_header st))"

definition set_node :: "PageNum \<Rightarrow> IndexNode \<Rightarrow> BplusTreeHandler \<Rightarrow> BplusTreeHandler" where
  "set_node p n st = st\<lparr>bt_nodes := (bt_nodes st)(p \<mapsto> n)\<rparr>"

abbreviation nd_size :: "IndexNode \<Rightarrow> nat" where
  "nd_size n \<equiv> length (nd_items n)"

definition max_size :: "IndexFileHeader \<Rightarrow> IndexNode \<Rightarrow> nat" where
  "max_size h n = (if nd_is_leaf n then ih_leaf_max_size h else ih_internal_max_size h)"

definition min_size :: "IndexFileHeader \<Rightarrow> IndexNode \<Rightarrow> nat" where
  "min_size h n = max_size h n - max_size h n div 2"

definition is_safe :: "IndexFileHeader \<Rightarrow> BplusTreeOperationType \<Rightarrow> bool \<Rightarrow> IndexNode \<Rightarrow> bool" where
  "is_safe h op is_root_node n = (case op of
     OP_READ \<Rightarrow> True
   | OP_INSERT_ENTRY \<Rightarrow> nd_size n < max_size h n
   | OP_DELETE_ENTRY \<Rightarrow>
       if is_root_node then (if nd_is_leaf n then nd_size n > 1 else nd_size n > 2)
       else nd_size n > min_size h n)"

definition set_parent_page_num :: "PageNum \<Rightarrow> PageNum \<Rightarrow> BplusTreeHandler \<Rightarrow> BplusTreeHandler option" where
  "set_parent_page_num p parent st = do {
     n \<leftarrow> bt_nodes st p;
     Some (set_node p (n\<lparr>nd_parent := parent\<rparr>) (append_log_entry (SetParentPage p parent (nd_parent n)) st)) }"

definition set_next_page :: "PageNum \<Rightarrow> PageNum \<Rightarrow> BplusTreeHandler \<Rightarrow> BplusTreeHandler option" where
  "set_next_page p next_page st = do {
     n \<leftarrow> bt_nodes st p;
     Some (set_node p (n\<lparr>nd_next_brother := next_page\<rparr>)
       (append_log_entry (LeafSetNextPage p next_page (nd_next_brother n)) st)) }"

definition leaf_init_empty :: "PageNum \<Rightarrow> BplusTreeHandler \<Rightarrow> BplusTreeHandler" where
  "leaf_init_empty p st =
     set_node p \<lparr>nd_is_leaf = True, nd_parent = BP_INVALID_PAGE_NUM, nd_next_brother = BP_INVALID_PAGE_NUM, nd_items = []\<rparr>
       (append_log_entry (LeafInitEmpty p) st)"

definition internal_init_empty :: "PageNum \<Rightarrow> BplusTreeHandler \<Rightarrow> BplusTreeHandler option" where
  "internal_init_empty p st = do {
     n \<leftarrow> bt_nodes st p;
     Some (set_node p (n\<lparr>nd_is_leaf := False, nd_parent := BP_INVALID_PAGE_NUM, nd_items := []\<rparr>)
       (append_log_entry (InternalInitEmpty p) st)) }"

text \<open>The number of items the page's memory has room for.\<close>

definition node_capacity :: "IndexFileHeader \<Rightarrow> bool \<Rightarrow> nat" where
  "node_capacity h leaf = (if leaf then (BP_PAGE_DATA_SIZE - 16) div (ih_key_length h + 8)
     else (BP_PAGE_DATA_SIZE - 12) div (ih_key_length h + 4))"

text \<open>
  Items are copied as bytes, which mean keys with record ids in a leaf and keys with page numbers in an
  inner node. Bytes of the other kind would not be items, and the model stops where they are copied.
\<close>

fun item_kind :: "bool \<Rightarrow> item \<Rightarrow> bool" where
  "item_kind leaf (k, RecordValue r) = leaf"
| "item_kind leaf (k, ChildPage c) = (\<not> leaf)"

definition recover_insert_items :: "PageNum \<Rightarrow> nat \<Rightarrow> item list \<Rightarrow> BplusTreeHandler \<Rightarrow> BplusTreeHandler option" where
  "recover_insert_items p index items st = do {
     n \<leftarrow> bt_nodes st p;
     assert_that (index \<le> nd_size n \<and> nd_size n + length items \<le> node_capacity (bt_header st) (nd_is_leaf n));
     assert_that (\<forall>x\<in>set items. item_kind (nd_is_leaf n) x);
     Some (set_node p (n\<lparr>nd_items := take index (nd_items n) @ items @ drop index (nd_items n)\<rparr>) st) }"

definition recover_remove_items :: "PageNum \<Rightarrow> nat \<Rightarrow> nat \<Rightarrow> BplusTreeHandler \<Rightarrow> BplusTreeHandler option" where
  "recover_remove_items p index num st = do {
     n \<leftarrow> bt_nodes st p;
     assert_that (index + num \<le> nd_size n);
     Some (set_node p (n\<lparr>nd_items := take index (nd_items n) @ drop (index + num) (nd_items n)\<rparr>) st) }"

text \<open>Inserting and removing items with their log entry.\<close>

definition node_insert_items :: "PageNum \<Rightarrow> nat \<Rightarrow> item list \<Rightarrow> BplusTreeHandler \<Rightarrow> BplusTreeHandler option" where
  "node_insert_items p index items st = recover_insert_items p index items (append_log_entry (NodeInsert p index items) st)"

definition node_remove_items :: "PageNum \<Rightarrow> nat \<Rightarrow> nat \<Rightarrow> BplusTreeHandler \<Rightarrow> BplusTreeHandler option" where
  "node_remove_items p index num st = do {
     n \<leftarrow> bt_nodes st p;
     recover_remove_items p index num (append_log_entry (NodeRemove p index (take num (drop index (nd_items n)))) st) }"

definition node_key_at :: "IndexNode \<Rightarrow> nat \<Rightarrow> index_key option" where
  "node_key_at n index = map_option fst (mem_get (nd_items n) index)"

definition key_at :: "PageNum \<Rightarrow> nat \<Rightarrow> BplusTreeHandler \<Rightarrow> index_key option" where
  "key_at p index st = do { n \<leftarrow> bt_nodes st p; node_key_at n index }"

definition leaf_value_at :: "IndexNode \<Rightarrow> nat \<Rightarrow> RID option" where
  "leaf_value_at n index = do {
     x \<leftarrow> mem_get (nd_items n) index;
     (case snd x of RecordValue r \<Rightarrow> Some r | ChildPage _ \<Rightarrow> None) }"

definition internal_value_at :: "IndexNode \<Rightarrow> nat \<Rightarrow> PageNum option" where
  "internal_value_at n index = do {
     x \<leftarrow> mem_get (nd_items n) index;
     (case snd x of ChildPage c \<Rightarrow> Some c | RecordValue _ \<Rightarrow> None) }"

section \<open>Leaf nodes\<close>

definition leaf_lookup :: "BplusTreeHandler \<Rightarrow> index_key \<Rightarrow> IndexNode \<Rightarrow> (nat \<times> bool) option" where
  "leaf_lookup st key n = lower_bound (\<lambda>x. key_cmp st (fst x) key) (nd_items n)"

definition leaf_insert :: "PageNum \<Rightarrow> nat \<Rightarrow> index_key \<Rightarrow> RID \<Rightarrow> BplusTreeHandler \<Rightarrow> BplusTreeHandler option" where
  "leaf_insert p index key rid st = node_insert_items p index [(key, RecordValue rid)] st"

definition leaf_remove :: "PageNum \<Rightarrow> nat \<Rightarrow> BplusTreeHandler \<Rightarrow> BplusTreeHandler option" where
  "leaf_remove p index st = node_remove_items p index 1 st"

definition leaf_remove_key :: "PageNum \<Rightarrow> index_key \<Rightarrow> BplusTreeHandler \<Rightarrow> (nat \<times> BplusTreeHandler) option" where
  "leaf_remove_key p key st = do {
     n \<leftarrow> bt_nodes st p;
     (index, found) \<leftarrow> leaf_lookup st key n;
     if found then do { st1 \<leftarrow> leaf_remove p index st; Some (1, st1) } else Some (0, st) }"

definition leaf_append :: "PageNum \<Rightarrow> item list \<Rightarrow> BplusTreeHandler \<Rightarrow> BplusTreeHandler option" where
  "leaf_append p items st = do { n \<leftarrow> bt_nodes st p; node_insert_items p (nd_size n) items st }"

section \<open>Internal nodes\<close>

definition internal_lookup :: "BplusTreeHandler \<Rightarrow> index_key \<Rightarrow> IndexNode \<Rightarrow> (nat \<times> nat) option" where
  "internal_lookup st key n =
     (if nd_size n = 0 then Some (0, 1)
      else do {
        (i, found) \<leftarrow> lower_bound (\<lambda>x. key_cmp st (fst x) key) (drop 1 (nd_items n));
        let ret = i + 1;
        if ret \<ge> nd_size n then Some (ret - 1, ret)
        else do {
          k \<leftarrow> node_key_at n ret;
          c \<leftarrow> key_cmp st key k;
          Some (if c < 0 then ret - 1 else ret, ret) } })"

definition zero_key :: "IndexFileHeader \<Rightarrow> index_key" where
  "zero_key h = (replicate (ih_total_attr_length h) 0, RID 0 0)"

definition create_new_root :: "PageNum \<Rightarrow> PageNum \<Rightarrow> index_key \<Rightarrow> PageNum \<Rightarrow> BplusTreeHandler \<Rightarrow> BplusTreeHandler option" where
  "create_new_root p first_page_num key child st = do {
     n \<leftarrow> bt_nodes st p;
     assert_that (nd_items n = [] \<and> 2 \<le> node_capacity (bt_header st) False);
     Some (set_node p (n\<lparr>nd_items := [(zero_key (bt_header st), ChildPage first_page_num), (key, ChildPage child)]\<rparr>)
       (append_log_entry (InternalCreateNewRoot p first_page_num key child) st)) }"

definition internal_insert :: "PageNum \<Rightarrow> index_key \<Rightarrow> PageNum \<Rightarrow> BplusTreeHandler \<Rightarrow> BplusTreeHandler option" where
  "internal_insert p key child st = do {
     n \<leftarrow> bt_nodes st p;
     (_, insert_position) \<leftarrow> internal_lookup st key n;
     node_insert_items p insert_position [(key, ChildPage child)] st }"

definition set_key_at :: "PageNum \<Rightarrow> nat \<Rightarrow> index_key \<Rightarrow> BplusTreeHandler \<Rightarrow> BplusTreeHandler option" where
  "set_key_at p index key st = do {
     n \<leftarrow> bt_nodes st p;
     x \<leftarrow> mem_get (nd_items n) index;
     Some (set_node p (n\<lparr>nd_items := (nd_items n)[index := (key, snd x)]\<rparr>)
       (append_log_entry (InternalUpdateKey p index key (fst x)) st)) }"

fun value_index_from :: "nat \<Rightarrow> PageNum \<Rightarrow> item list \<Rightarrow> nat option" where
  "value_index_from i child [] = None"
| "value_index_from i child (x # xs) = (if snd x = ChildPage child then Some i else value_index_from (i + 1) child xs)"

definition value_index :: "PageNum \<Rightarrow> IndexNode \<Rightarrow> int" where
  "value_index child n = (case value_index_from 0 child (nd_items n) of Some i \<Rightarrow> int i | None \<Rightarrow> - 1)"

definition internal_remove :: "PageNum \<Rightarrow> nat \<Rightarrow> BplusTreeHandler \<Rightarrow> BplusTreeHandler option" where
  "internal_remove p index st = node_remove_items p index 1 st"

text \<open>The loop of \<open>insert_items\<close> that makes the node the parent of its new children.\<close>

fun set_parents :: "PageNum \<Rightarrow> item list \<Rightarrow> BplusTreeHandler \<Rightarrow> (RC \<times> BplusTreeHandler) option" where
  "set_parents p [] st = Some (SUCCESS, st)"
| "set_parents p (x # xs) st = (case snd x of
     RecordValue _ \<Rightarrow> None
   | ChildPage c \<Rightarrow> do {
       (rc, st1) \<leftarrow> get_page c st;
       if OB_FAIL rc then Some (rc, st1)
       else do { st2 \<leftarrow> set_parent_page_num c p st1; set_parents p xs st2 } })"

definition internal_insert_items :: "PageNum \<Rightarrow> nat \<Rightarrow> item list \<Rightarrow> BplusTreeHandler \<Rightarrow> (RC \<times> BplusTreeHandler) option" where
  "internal_insert_items p index items st = do {
     st1 \<leftarrow> node_insert_items p index items st;
     set_parents p items st1 }"

definition internal_append :: "PageNum \<Rightarrow> item list \<Rightarrow> BplusTreeHandler \<Rightarrow> (RC \<times> BplusTreeHandler) option" where
  "internal_append p items st = do { n \<leftarrow> bt_nodes st p; internal_insert_items p (nd_size n) items st }"

section \<open>Moving items between nodes\<close>

text \<open>The methods of \<open>IndexNodeHandlerType\<close>, \<open>leaf\<close> telling which of the two classes it is. The
  leaf's methods ignore the result of \<open>append\<close>, which is always success.\<close>

definition node_append :: "bool \<Rightarrow> PageNum \<Rightarrow> item list \<Rightarrow> BplusTreeHandler \<Rightarrow> (RC \<times> BplusTreeHandler) option" where
  "node_append leaf p items st =
     (if leaf then do { st1 \<leftarrow> leaf_append p items st; Some (SUCCESS, st1) } else internal_append p items st)"

definition node_preappend :: "bool \<Rightarrow> PageNum \<Rightarrow> item \<Rightarrow> BplusTreeHandler \<Rightarrow> (RC \<times> BplusTreeHandler) option" where
  "node_preappend leaf p x st =
     (if leaf then do { st1 \<leftarrow> node_insert_items p 0 [x] st; Some (SUCCESS, st1) } else internal_insert_items p 0 [x] st)"

definition move_half_to :: "bool \<Rightarrow> PageNum \<Rightarrow> PageNum \<Rightarrow> BplusTreeHandler \<Rightarrow> (RC \<times> BplusTreeHandler) option" where
  "move_half_to leaf p other st = do {
     n \<leftarrow> bt_nodes st p;
     let move_index = nd_size n div 2;
     (rc, st1) \<leftarrow> node_append leaf other (drop move_index (nd_items n)) st;
     if OB_FAIL rc then Some (rc, st1)
     else do { st2 \<leftarrow> node_remove_items p move_index (nd_size n - move_index) st1; Some (SUCCESS, st2) } }"

definition move_first_to_end :: "bool \<Rightarrow> PageNum \<Rightarrow> PageNum \<Rightarrow> BplusTreeHandler \<Rightarrow> (RC \<times> BplusTreeHandler) option" where
  "move_first_to_end leaf p other st = do {
     n \<leftarrow> bt_nodes st p;
     x \<leftarrow> mem_get (nd_items n) 0;
     (rc, st1) \<leftarrow> node_append leaf other [x] st;
     if OB_FAIL rc then Some (rc, st1)
     else do { st2 \<leftarrow> node_remove_items p 0 1 st1; Some (SUCCESS, st2) } }"

definition move_last_to_front :: "bool \<Rightarrow> PageNum \<Rightarrow> PageNum \<Rightarrow> BplusTreeHandler \<Rightarrow> (RC \<times> BplusTreeHandler) option" where
  "move_last_to_front leaf p other st = do {
     n \<leftarrow> bt_nodes st p;
     x \<leftarrow> mem_get (nd_items n) (nd_size n - 1);
     (rc, st1) \<leftarrow> node_preappend leaf other x st;
     if OB_FAIL rc then Some (rc, st1)
     else do { st2 \<leftarrow> node_remove_items p (nd_size n - 1) 1 st1; Some (SUCCESS, st2) } }"

definition move_to :: "bool \<Rightarrow> PageNum \<Rightarrow> PageNum \<Rightarrow> BplusTreeHandler \<Rightarrow> (RC \<times> BplusTreeHandler) option" where
  "move_to leaf p other st = do {
     n \<leftarrow> bt_nodes st p;
     (rc, st1) \<leftarrow> node_append leaf other (nd_items n) st;
     if OB_FAIL rc then Some (rc, st1)
     else do {
       st2 \<leftarrow> (if leaf then set_next_page other (nd_next_brother n) st1 else Some st1);
       st3 \<leftarrow> node_remove_items p 0 (nd_size n) st2;
       Some (SUCCESS, st3) } }"

section \<open>Mini transactions\<close>

text \<open>
  Undoing a log entry. \<open>NormalOperationLogEntryHandler::rollback\<close> works on the base class
  \<open>IndexNodeHandler\<close>, whose \<open>__item_at\<close> is the null pointer: it changes \<open>key_num\<close>, and any item that
  has to be moved or copied is an access through that pointer.
\<close>

definition base_remove_items :: "PageNum \<Rightarrow> nat \<Rightarrow> nat \<Rightarrow> BplusTreeHandler \<Rightarrow> BplusTreeHandler option" where
  "base_remove_items p index num st = do {
     n \<leftarrow> bt_nodes st p;
     assert_that (index + num = nd_size n);
     recover_remove_items p index num st }"

definition base_insert_items :: "PageNum \<Rightarrow> nat \<Rightarrow> item list \<Rightarrow> BplusTreeHandler \<Rightarrow> BplusTreeHandler option" where
  "base_insert_items p index items st = do {
     n \<leftarrow> bt_nodes st p;
     assert_that (items = [] \<and> index = nd_size n);
     Some st }"

definition update_root_page_num_locked :: "PageNum \<Rightarrow> BplusTreeHandler \<Rightarrow> BplusTreeHandler option" where
  "update_root_page_num_locked root st = do {
     (rc, st1) \<leftarrow> get_page FIRST_INDEX_PAGE st;
     assert_that (rc = SUCCESS);
     st2 \<leftarrow> memo_xlatch (PageLatch FIRST_INDEX_PAGE) st1;
     let st3 = append_log_entry (UpdateRootPage root (ih_root_page (bt_header_page st2))) st2;
     Some (st3\<lparr>bt_header_page := (bt_header_page st3)\<lparr>ih_root_page := root\<rparr>,
       bt_header := (bt_header st3)\<lparr>ih_root_page := root\<rparr>, bt_header_dirty := True\<rparr>) }"

definition entry_rollback :: "LogEntryHandler \<Rightarrow> BplusTreeHandler \<Rightarrow> BplusTreeHandler option" where
  "entry_rollback e st = (case e of
     UpdateRootPage root old \<Rightarrow> update_root_page_num_locked old st
   | SetParentPage p parent old \<Rightarrow> set_parent_page_num p old st
   | LeafSetNextPage p next_page old \<Rightarrow> set_next_page p old st
   | InternalUpdateKey p index key old \<Rightarrow> set_key_at p index old st
   | NodeInsert p index items \<Rightarrow> base_remove_items p index (length items) st
   | NodeRemove p index items \<Rightarrow> base_insert_items p index items st
   | LeafInitEmpty p \<Rightarrow> Some st
   | InternalInitEmpty p \<Rightarrow> Some st
   | InternalCreateNewRoot p first_page_num key child \<Rightarrow> Some st)"

definition entry_redo :: "LogEntryHandler \<Rightarrow> BplusTreeHandler \<Rightarrow> BplusTreeHandler option" where
  "entry_redo e st = (case e of
     UpdateRootPage root old \<Rightarrow> update_root_page_num_locked root st
   | SetParentPage p parent old \<Rightarrow> set_parent_page_num p parent st
   | LeafSetNextPage p next_page old \<Rightarrow> set_next_page p next_page st
   | InternalUpdateKey p index key old \<Rightarrow> set_key_at p index key st
   | NodeInsert p index items \<Rightarrow> recover_insert_items p index items st
   | NodeRemove p index items \<Rightarrow> recover_remove_items p index (length items) st
   | LeafInitEmpty p \<Rightarrow> Some (leaf_init_empty p st)
   | InternalInitEmpty p \<Rightarrow> internal_init_empty p st
   | InternalCreateNewRoot p first_page_num key child \<Rightarrow> create_new_root p first_page_num key child st)"

fun rollback_entries :: "LogEntryHandler list \<Rightarrow> BplusTreeHandler \<Rightarrow> BplusTreeHandler option" where
  "rollback_entries [] st = Some st"
| "rollback_entries (e # es) st = do { st1 \<leftarrow> entry_rollback e st; rollback_entries es st1 }"

fun redo_entries :: "LogEntryHandler list \<Rightarrow> BplusTreeHandler \<Rightarrow> BplusTreeHandler option" where
  "redo_entries [] st = Some st"
| "redo_entries (e # es) st = do { st1 \<leftarrow> entry_redo e st; redo_entries es st1 }"

definition mtr_commit :: "BplusTreeHandler \<Rightarrow> BplusTreeHandler" where
  "mtr_commit st =
     (if mx_entries (bt_mtr st) = [] then st
      else mtr_update (mx_entries_update (\<lambda>_. [])) (st\<lparr>bt_wal := bt_wal st @ [mx_entries (bt_mtr st)]\<rparr>))"

definition mtr_rollback :: "BplusTreeHandler \<Rightarrow> BplusTreeHandler option" where
  "mtr_rollback st = do {
     st1 \<leftarrow> rollback_entries (rev (mx_entries (bt_mtr st))) (mtr_update (mx_need_log_update (\<lambda>_. False)) st);
     Some (mtr_update (\<lambda>m. m\<lparr>mx_entries := [], mx_need_log := True\<rparr>) st1) }"

definition mtr_begin :: "BplusTreeHandler \<Rightarrow> BplusTreeHandler" where
  "mtr_begin st = st\<lparr>bt_mtr := MiniTransaction_new\<rparr>"

text \<open>The destructor of a mini transaction with the operation's result, then those of its logger,
  which commits what is left, and of its latch memo.\<close>

definition mtr_end :: "RC \<Rightarrow> BplusTreeHandler \<Rightarrow> BplusTreeHandler option" where
  "mtr_end rc st = do {
     st1 \<leftarrow> (if OB_SUCC rc then Some (mtr_commit st) else mtr_rollback st);
     memo_release (mtr_commit st1) }"

section \<open>Search\<close>

definition is_empty :: "BplusTreeHandler \<Rightarrow> bool" where
  "is_empty st \<longleftrightarrow> ih_root_page (bt_header st) = BP_INVALID_PAGE_NUM"

definition crabing_protocal_fetch_page ::
    "BplusTreeOperationType \<Rightarrow> PageNum \<Rightarrow> bool \<Rightarrow> BplusTreeHandler \<Rightarrow> (RC \<times> BplusTreeHandler) option" where
  "crabing_protocal_fetch_page op p is_root_node st = do {
     let memo_point = length (mx_items (bt_mtr st));
     (rc, st1) \<leftarrow> get_page p st;
     if OB_FAIL rc then Some (rc, st1)
     else do {
       st2 \<leftarrow> (if op = OP_READ then memo_slatch (PageLatch p) st1 else memo_xlatch (PageLatch p) st1);
       n \<leftarrow> bt_nodes st2 p;
       st3 \<leftarrow> (if is_safe (bt_header st2) op is_root_node n then release_to memo_point st2 else Some st2);
       Some (SUCCESS, st3) } }"

partial_function (option) find_leaf_loop ::
    "BplusTreeOperationType \<Rightarrow> (BplusTreeHandler \<Rightarrow> IndexNode \<Rightarrow> PageNum option) \<Rightarrow> PageNum \<Rightarrow> BplusTreeHandler \<Rightarrow>
     (RC \<times> PageNum \<times> BplusTreeHandler) option" where
  "find_leaf_loop op child_page_getter p st =
     Option.bind (bt_nodes st p) (\<lambda>n.
       if nd_is_leaf n then Some (SUCCESS, p, st)
       else Option.bind (child_page_getter st n) (\<lambda>next_page_id.
         Option.bind (crabing_protocal_fetch_page op next_page_id False st) (\<lambda>r.
           if OB_FAIL (fst r) then Some (fst r, p, snd r)
           else find_leaf_loop op child_page_getter next_page_id (snd r))))"

definition find_leaf_internal ::
    "BplusTreeOperationType \<Rightarrow> (BplusTreeHandler \<Rightarrow> IndexNode \<Rightarrow> PageNum option) \<Rightarrow> BplusTreeHandler \<Rightarrow>
     (RC \<times> PageNum \<times> BplusTreeHandler) option" where
  "find_leaf_internal op child_page_getter st = do {
     st1 \<leftarrow> (if op \<noteq> OP_READ then memo_xlatch RootLock st else memo_slatch RootLock st);
     if is_empty st1 then Some (EMPTY, BP_INVALID_PAGE_NUM, st1)
     else do {
       let root = ih_root_page (bt_header st1);
       (rc, st2) \<leftarrow> crabing_protocal_fetch_page op root True st1;
       if OB_FAIL rc then Some (rc, root, st2)
       else find_leaf_loop op child_page_getter root st2 } }"

definition child_by_key :: "index_key \<Rightarrow> BplusTreeHandler \<Rightarrow> IndexNode \<Rightarrow> PageNum option" where
  "child_by_key key st n = do { (i, _) \<leftarrow> internal_lookup st key n; internal_value_at n i }"

definition first_child :: "BplusTreeHandler \<Rightarrow> IndexNode \<Rightarrow> PageNum option" where
  "first_child st n = internal_value_at n 0"

definition find_leaf :: "BplusTreeOperationType \<Rightarrow> index_key \<Rightarrow> BplusTreeHandler \<Rightarrow> (RC \<times> PageNum \<times> BplusTreeHandler) option" where
  "find_leaf op key st = find_leaf_internal op (child_by_key key) st"

definition left_most_page :: "BplusTreeHandler \<Rightarrow> (RC \<times> PageNum \<times> BplusTreeHandler) option" where
  "left_most_page st = find_leaf_internal OP_READ first_child st"

section \<open>Insertion\<close>

definition node_init_empty :: "bool \<Rightarrow> PageNum \<Rightarrow> BplusTreeHandler \<Rightarrow> BplusTreeHandler option" where
  "node_init_empty leaf p st = (if leaf then Some (leaf_init_empty p st) else internal_init_empty p st)"

definition split_node :: "bool \<Rightarrow> PageNum \<Rightarrow> BplusTreeHandler \<Rightarrow> (RC \<times> PageNum \<times> BplusTreeHandler) option" where
  "split_node leaf p st = do {
     (rc, q, st1) \<leftarrow> memo_allocate_page st;
     if OB_FAIL rc then Some (rc, q, st1)
     else do {
       st2 \<leftarrow> memo_xlatch (PageLatch q) st1;
       st3 \<leftarrow> node_init_empty leaf q st2;
       old \<leftarrow> bt_nodes st3 p;
       st4 \<leftarrow> set_parent_page_num q (nd_parent old) st3;
       (_, st5) \<leftarrow> move_half_to leaf p q st4;
       Some (SUCCESS, q, st5) } }"

definition insert_new_root :: "PageNum \<Rightarrow> PageNum \<Rightarrow> index_key \<Rightarrow> BplusTreeHandler \<Rightarrow> (RC \<times> BplusTreeHandler) option" where
  "insert_new_root p q key st = (case pool_allocate st of (rc, root, st1) \<Rightarrow>
     if OB_FAIL rc then Some (rc, st1)
     else do {
       st2 \<leftarrow> internal_init_empty root st1;
       st3 \<leftarrow> create_new_root root p key q st2;
       st4 \<leftarrow> set_parent_page_num p root st3;
       st5 \<leftarrow> set_parent_page_num q root st4;
       st6 \<leftarrow> take_lock (PageLatch root) st5;
       st7 \<leftarrow> update_root_page_num_locked root st6;
       st8 \<leftarrow> drop_lock (PageLatch root) st7;
       st9 \<leftarrow> pool_unpin root st8;
       Some (SUCCESS, st9) })"

partial_function (option) insert_entry_into_parent ::
    "PageNum \<Rightarrow> PageNum \<Rightarrow> index_key \<Rightarrow> BplusTreeHandler \<Rightarrow> (RC \<times> BplusTreeHandler) option" where
  "insert_entry_into_parent p q key st =
     Option.bind (bt_nodes st p) (\<lambda>n.
       let parent = nd_parent n in
       if parent = BP_INVALID_PAGE_NUM then insert_new_root p q key st
       else Option.bind (get_page parent st) (\<lambda>r1.
         let st1 = snd r1 in
         if OB_FAIL (fst r1) then Some r1
         else Option.bind (bt_nodes st1 parent) (\<lambda>pn.
           if nd_size pn < max_size (bt_header st1) pn then
             Option.bind (internal_insert parent key q st1) (\<lambda>st2.
             Option.bind (set_parent_page_num q parent st2) (\<lambda>st3. Some (SUCCESS, st3)))
           else Option.bind (split_node False parent st1) (\<lambda>r2.
             let new_parent = fst (snd r2); st2 = snd (snd r2) in
             if OB_FAIL (fst r2) then Some (fst r2, st2)
             else Option.bind (key_at new_parent 0 st2) (\<lambda>k0.
               Option.bind (key_cmp st2 key k0) (\<lambda>c.
               let target = (if c > 0 then new_parent else parent) in
               Option.bind (internal_insert target key q st2) (\<lambda>st3.
               Option.bind (set_parent_page_num q target st3) (\<lambda>st4.
               Option.bind (key_at new_parent 0 st4) (\<lambda>k0.
                 insert_entry_into_parent parent new_parent k0 st4)))))))))"

definition insert_entry_into_leaf_node ::
    "PageNum \<Rightarrow> index_key \<Rightarrow> RID \<Rightarrow> BplusTreeHandler \<Rightarrow> (RC \<times> BplusTreeHandler) option" where
  "insert_entry_into_leaf_node p key rid st = do {
     n \<leftarrow> bt_nodes st p;
     (insert_position, exists) \<leftarrow> leaf_lookup st key n;
     if exists then Some (RECORD_DUPLICATE_KEY, st)
     else if nd_size n < max_size (bt_header st) n then do {
       st1 \<leftarrow> leaf_insert p insert_position key rid st;
       Some (SUCCESS, st1) }
     else do {
       (rc, q, st1) \<leftarrow> split_node True p st;
       if OB_FAIL rc then Some (rc, st1)
       else do {
         n1 \<leftarrow> bt_nodes st1 p;
         st2 \<leftarrow> set_next_page q (nd_next_brother n1) st1;
         st3 \<leftarrow> set_parent_page_num q (nd_parent n1) st2;
         st4 \<leftarrow> set_next_page p q st3;
         st5 \<leftarrow> (if insert_position < nd_size n1 then leaf_insert p insert_position key rid st4
                 else leaf_insert q (insert_position - nd_size n1) key rid st4);
         k \<leftarrow> key_at q 0 st5;
         insert_entry_into_parent p q k st5 } } }"

definition create_new_tree :: "index_key \<Rightarrow> RID \<Rightarrow> BplusTreeHandler \<Rightarrow> (RC \<times> BplusTreeHandler) option" where
  "create_new_tree key rid st =
     (if ih_root_page (bt_header st) \<noteq> BP_INVALID_PAGE_NUM then Some (INTERNAL, st)
      else do {
        (rc, p, st1) \<leftarrow> memo_allocate_page st;
        if OB_FAIL rc then Some (rc, st1)
        else do {
          st2 \<leftarrow> leaf_insert p 0 key rid (leaf_init_empty p st1);
          st3 \<leftarrow> update_root_page_num_locked p st2;
          Some (SUCCESS, st3) } })"

text \<open>A user key must have the bytes of all attributes.\<close>

definition make_key :: "byte list \<Rightarrow> RID \<Rightarrow> BplusTreeHandler \<Rightarrow> index_key option" where
  "make_key user_key rid st = do {
     k \<leftarrow> mem_read user_key 0 (ih_total_attr_length (bt_header st));
     Some (k, rid) }"

text \<open>\<open>try_insert_entry\<close>, the check for a unique index. After a step to the next leaf the page is the
  new one, but the node looked at is still the old one. The page got for the step is pinned without
  the memo. (The key is also freed twice, which is outside the model.)\<close>

definition try_insert_entry :: "byte list \<Rightarrow> BplusTreeHandler \<Rightarrow> (RC \<times> BplusTreeHandler) option" where
  "try_insert_entry user_key st = do {
     key \<leftarrow> make_key user_key RID_min st;
     let outer = bt_mtr st;
     (rc, p, st1) \<leftarrow> find_leaf OP_INSERT_ENTRY key (mtr_begin st);
     (rc, st2) \<leftarrow> (if OB_FAIL rc then Some (rc, st1)
       else do {
         left_node \<leftarrow> bt_nodes st1 p;
         (left_index, _) \<leftarrow> leaf_lookup st1 key left_node;
         (rc, at_end, index, st2) \<leftarrow>
           (if left_index \<ge> nd_size left_node then
              (if nd_next_brother left_node = BP_INVALID_PAGE_NUM then Some (SUCCESS, True, 0, st1)
               else do { (rc, st2) \<leftarrow> pool_pin (nd_next_brother left_node) st1; Some (rc, OB_FAIL rc, 0, st2) })
            else Some (SUCCESS, False, left_index, st1));
         if at_end then Some (rc, st2)
         else do {
           k \<leftarrow> node_key_at left_node index;
           Some (if fst k = fst key then SCHEMA_INDEX_UNIQUE else SUCCESS, st2) } });
     st3 \<leftarrow> mtr_end rc st2;
     Some (rc, st3\<lparr>bt_mtr := outer\<rparr>) }"

definition insert_entry :: "byte list \<Rightarrow> RID \<Rightarrow> bool \<Rightarrow> BplusTreeHandler \<Rightarrow> (RC \<times> BplusTreeHandler) option" where
  "insert_entry user_key rid is_null st = do {
     key \<leftarrow> make_key user_key rid st;
     let st0 = mtr_begin st;
     if is_empty st0 then do {
       st1 \<leftarrow> take_lock RootLock st0;
       (rc, st2) \<leftarrow> create_new_tree key rid st1;
       st3 \<leftarrow> drop_lock RootLock st2;
       st4 \<leftarrow> mtr_end rc st3;
       Some (rc, st4) }
     else do {
       (rc, st1) \<leftarrow> (if ih_unique (bt_header st0) = 1 \<and> \<not> is_null then try_insert_entry user_key st0
                     else Some (SUCCESS, st0));
       if rc \<noteq> SUCCESS then do { st2 \<leftarrow> mtr_end SUCCESS st1; Some (rc, st2) }
       else do {
         (rc, p, st2) \<leftarrow> find_leaf OP_INSERT_ENTRY key st1;
         (rc, st3) \<leftarrow> (if OB_FAIL rc then Some (rc, st2) else insert_entry_into_leaf_node p key rid st2);
         st4 \<leftarrow> mtr_end rc st3;
         Some (rc, st4) } } }"

section \<open>Deletion\<close>

definition adjust_root :: "PageNum \<Rightarrow> BplusTreeHandler \<Rightarrow> (RC \<times> BplusTreeHandler) option" where
  "adjust_root p st = do {
     n \<leftarrow> bt_nodes st p;
     if nd_is_leaf n \<and> nd_size n > 0 then Some (SUCCESS, st)
     else do {
       (rc, root, st1) \<leftarrow>
         (if nd_is_leaf n then Some (SUCCESS, BP_INVALID_PAGE_NUM, st)
          else do {
            child \<leftarrow> internal_value_at n 0;
            (rc, st1) \<leftarrow> get_page child st;
            if OB_FAIL rc then Some (rc, child, st1)
            else do { st2 \<leftarrow> set_parent_page_num child BP_INVALID_PAGE_NUM st1; Some (SUCCESS, child, st2) } });
       if OB_FAIL rc then Some (rc, st1)
       else do {
         st2 \<leftarrow> update_root_page_num_locked root st1;
         Some (SUCCESS, memo_dispose_page p st2) } } }"

text \<open>\<open>coalesce\<close> up to its last statement, the check of the parent node.\<close>

definition coalesce :: "bool \<Rightarrow> PageNum \<Rightarrow> PageNum \<Rightarrow> PageNum \<Rightarrow> nat \<Rightarrow> BplusTreeHandler \<Rightarrow> (RC \<times> BplusTreeHandler) option" where
  "coalesce leaf neighbor p parent index st = do {
     let left = (if index = 0 then p else neighbor);
     let right = (if index = 0 then neighbor else p);
     let index = (if index = 0 then 1 else index);
     st1 \<leftarrow> internal_remove parent index st;
     (rc, st2) \<leftarrow> move_to leaf right left st1;
     if OB_FAIL rc then Some (rc, st2)
     else do {
       l \<leftarrow> bt_nodes st2 left;
       r \<leftarrow> bt_nodes st2 right;
       st3 \<leftarrow> (if nd_is_leaf l then set_next_page left (nd_next_brother r) st2 else Some st2);
       Some (SUCCESS, memo_dispose_page right st3) } }"

definition redistribute :: "bool \<Rightarrow> PageNum \<Rightarrow> PageNum \<Rightarrow> PageNum \<Rightarrow> nat \<Rightarrow> BplusTreeHandler \<Rightarrow> (RC \<times> BplusTreeHandler) option" where
  "redistribute leaf neighbor p parent index st =
     (if index = 0 then do {
        (_, st1) \<leftarrow> move_first_to_end leaf neighbor p st;
        k \<leftarrow> key_at neighbor 0 st1;
        st2 \<leftarrow> set_key_at parent (index + 1) k st1;
        Some (SUCCESS, st2) }
      else do {
        (_, st1) \<leftarrow> move_last_to_front leaf neighbor p st;
        k \<leftarrow> key_at p 0 st1;
        st2 \<leftarrow> set_key_at parent index k st1;
        Some (SUCCESS, st2) })"

partial_function (option) coalesce_or_redistribute ::
    "bool \<Rightarrow> PageNum \<Rightarrow> BplusTreeHandler \<Rightarrow> (RC \<times> BplusTreeHandler) option" where
  "coalesce_or_redistribute leaf p st =
     Option.bind (bt_nodes st p) (\<lambda>n.
       if nd_size n \<ge> min_size (bt_header st) n then Some (SUCCESS, st)
       else let parent = nd_parent n in
         if parent = BP_INVALID_PAGE_NUM then
           (if nd_size n > 1 then Some (SUCCESS, st)
            else Option.bind (adjust_root p st) (\<lambda>r. Some (SUCCESS, snd r)))
         else Option.bind (get_page parent st) (\<lambda>r1.
           let st1 = snd r1 in
           if OB_FAIL (fst r1) then Some r1
           else Option.bind (bt_nodes st1 parent) (\<lambda>pn.
             Option.bind (if nd_size n > 0 then node_key_at n (nd_size n - 1) else None) (\<lambda>k.
             Option.bind (internal_lookup st1 k pn) (\<lambda>i.
             let index = fst i in
             Option.bind (internal_value_at pn index) (\<lambda>v.
             if v \<noteq> p then None
             else Option.bind (internal_value_at pn (if index = 0 then 1 else index - 1)) (\<lambda>neighbor.
             Option.bind (get_page neighbor st1) (\<lambda>r2.
             if OB_FAIL (fst r2) then Some r2
             else Option.bind (memo_xlatch (PageLatch neighbor) (snd r2)) (\<lambda>st2.
             Option.bind (bt_nodes st2 neighbor) (\<lambda>nn.
             if nd_size n + nd_size nn > max_size (bt_header st2) n then
               redistribute leaf neighbor p parent index st2
             else Option.bind (coalesce leaf neighbor p parent index st2) (\<lambda>r3.
               if OB_FAIL (fst r3) then Some r3
               else coalesce_or_redistribute False parent (snd r3))))))))))))"

definition delete_entry_internal :: "PageNum \<Rightarrow> index_key \<Rightarrow> BplusTreeHandler \<Rightarrow> (RC \<times> BplusTreeHandler) option" where
  "delete_entry_internal p key st = do {
     (remove_count, st1) \<leftarrow> leaf_remove_key p key st;
     if remove_count = 0 then Some (RECORD_NOT_EXIST, st1)
     else do {
       n \<leftarrow> bt_nodes st1 p;
       if nd_size n \<ge> min_size (bt_header st1) n then Some (SUCCESS, st1)
       else coalesce_or_redistribute True p st1 } }"

definition delete_entry :: "byte list \<Rightarrow> RID \<Rightarrow> BplusTreeHandler \<Rightarrow> (RC \<times> BplusTreeHandler) option" where
  "delete_entry user_key rid st = do {
     key \<leftarrow> make_key user_key rid st;
     (rc, p, st1) \<leftarrow> find_leaf OP_DELETE_ENTRY key (mtr_begin st);
     (rc, st2) \<leftarrow> (if rc = EMPTY then Some (RECORD_NOT_EXIST, st1)
       else if OB_FAIL rc then Some (rc, st1)
       else delete_entry_internal p key st1);
     st3 \<leftarrow> mtr_end rc st2;
     Some (rc, st3) }"

definition update_entry :: "byte list \<Rightarrow> byte list \<Rightarrow> RID \<Rightarrow> bool \<Rightarrow> BplusTreeHandler \<Rightarrow> (RC \<times> BplusTreeHandler) option" where
  "update_entry old_user_key user_key rid record_null st = do {
     (rc, st1) \<leftarrow> insert_entry user_key rid record_null st;
     if rc \<noteq> SUCCESS then Some (rc, st1) else delete_entry old_user_key rid st1 }"

section \<open>Scanning\<close>

record BplusTreeScanner =
  sc_inited :: bool
  sc_current_frame :: "PageNum option"
  sc_right_key :: "index_key option"
  sc_iter_index :: int
  sc_first_emitted :: bool

definition BplusTreeScanner_new :: BplusTreeScanner where
  "BplusTreeScanner_new =
     \<lparr>sc_inited = False, sc_current_frame = None, sc_right_key = None, sc_iter_index = - 1, sc_first_emitted = False\<rparr>"

text \<open>\<open>fix_user_key\<close> makes a character key as long as the attributes; \<open>key_buf[\<dots>]++\<close> wraps at 255.
  The key's own bytes are followed by a terminating NUL. The code asserts that there is none in the
  bytes it is told to use.\<close>

definition fix_user_key :: "byte list \<Rightarrow> nat \<Rightarrow> bool \<Rightarrow> BplusTreeHandler \<Rightarrow> (byte list \<times> bool) option" where
  "fix_user_key user_key key_len want_greater st = (let attr_length = ih_total_attr_length (bt_header st) in
     if \<not> key_len \<le> length (takeWhile (\<lambda>c. c \<noteq> 0) user_key) then None
     else if key_len \<le> attr_length then do {
       k \<leftarrow> mem_read user_key 0 key_len;
       Some (k @ replicate (attr_length - key_len) 0, False) }
     else do {
       k \<leftarrow> mem_read user_key 0 attr_length;
       c \<leftarrow> mem_get user_key attr_length;
       if c = 0 then Some (k, False)
       else if want_greater then do {
         l \<leftarrow> (if attr_length = 0 then None else mem_get k (attr_length - 1));
         Some (k[attr_length - 1 := l + 1], True) }
       else Some (k, True) })"

definition fix_key :: "byte list \<Rightarrow> nat \<Rightarrow> bool \<Rightarrow> bool \<Rightarrow> BplusTreeHandler \<Rightarrow> (byte list \<times> bool) option" where
  "fix_key user_key key_len want_greater inclusive st = do {
     t \<leftarrow> mem_get (ih_attrs (bt_header st)) 0;
     if fst t = CHARS then do {
       (k, should_inclusive) \<leftarrow> fix_user_key user_key key_len want_greater st;
       Some (k, inclusive \<or> should_inclusive) }
     else Some (user_key, inclusive) }"

definition touch_end :: "BplusTreeScanner \<Rightarrow> BplusTreeHandler \<Rightarrow> bool option" where
  "touch_end sc st = (case sc_right_key sc of
     None \<Rightarrow> Some False
   | Some right_key \<Rightarrow> do {
       p \<leftarrow> sc_current_frame sc;
       i \<leftarrow> as_size (sc_iter_index sc);
       this_key \<leftarrow> key_at p i st;
       c \<leftarrow> key_cmp st this_key right_key;
       Some (c > 0) })"

definition fetch_item :: "BplusTreeScanner \<Rightarrow> BplusTreeHandler \<Rightarrow> RID option" where
  "fetch_item sc st = do {
     p \<leftarrow> sc_current_frame sc;
     n \<leftarrow> bt_nodes st p;
     i \<leftarrow> as_size (sc_iter_index sc);
     leaf_value_at n i }"

text \<open>Where a scan starts: the leaf and the index of the first entry, or no leaf.\<close>

definition scan_start :: "(byte list \<times> nat \<times> bool) option \<Rightarrow> BplusTreeHandler \<Rightarrow>
    (RC \<times> PageNum option \<times> nat \<times> BplusTreeHandler) option" where
  "scan_start left st = (case left of
     None \<Rightarrow> do {
       (rc, p, st1) \<leftarrow> left_most_page st;
       if rc = EMPTY then Some (SUCCESS, None, 0, st1)
       else if OB_FAIL rc then Some (rc, None, 0, st1)
       else Some (SUCCESS, Some p, 0, st1) }
   | Some (left_user_key, left_len, left_inclusive) \<Rightarrow> do {
       (k, inclusive) \<leftarrow> fix_key left_user_key left_len True left_inclusive st;
       left_key \<leftarrow> make_key k (if inclusive then RID_min else RID_max) st;
       (rc, p, st1) \<leftarrow> find_leaf OP_READ left_key st;
       if rc = EMPTY then Some (SUCCESS, None, 0, st1)
       else if OB_FAIL rc then Some (rc, None, 0, st1)
       else do {
         left_node \<leftarrow> bt_nodes st1 p;
         (left_index, _) \<leftarrow> leaf_lookup st1 left_key left_node;
         if left_index \<ge> nd_size left_node then
           (let next_page = nd_next_brother left_node in
            if next_page = BP_INVALID_PAGE_NUM then Some (SUCCESS, None, 0, st1)
            else do {
              (rc, st2) \<leftarrow> get_page next_page st1;
              if OB_FAIL rc then Some (rc, None, 0, st2)
              else do { st3 \<leftarrow> memo_slatch (PageLatch next_page) st2; Some (SUCCESS, Some next_page, 0, st3) } })
         else Some (SUCCESS, Some p, left_index, st1) } })"

definition scan_right_key :: "(byte list \<times> nat \<times> bool) option \<Rightarrow> BplusTreeHandler \<Rightarrow> index_key option option" where
  "scan_right_key right st = (case right of
     None \<Rightarrow> Some None
   | Some (right_user_key, right_len, right_inclusive) \<Rightarrow> do {
       (k, inclusive) \<leftarrow> fix_key right_user_key right_len False right_inclusive st;
       key \<leftarrow> make_key k (if inclusive then RID_max else RID_min) st;
       Some (Some key) })"

text \<open>The bounds are checked by the attribute comparator, on the keys as given.\<close>

definition scan_range_valid :: "(byte list \<times> nat \<times> bool) option \<Rightarrow> (byte list \<times> nat \<times> bool) option \<Rightarrow> BplusTreeHandler \<Rightarrow> bool option" where
  "scan_range_valid left right st = (case (left, right) of
     (Some (l, _, left_inclusive), Some (r, _, right_inclusive)) \<Rightarrow> do {
       result \<leftarrow> AttrComparator (ih_attrs (bt_header st)) l r;
       Some (\<not> (result > 0 \<or> (result = 0 \<and> (\<not> left_inclusive \<or> \<not> right_inclusive)))) }
   | _ \<Rightarrow> Some True)"

definition scanner_open :: "(byte list \<times> nat \<times> bool) option \<Rightarrow> (byte list \<times> nat \<times> bool) option \<Rightarrow>
    BplusTreeScanner \<Rightarrow> BplusTreeHandler \<Rightarrow> (RC \<times> BplusTreeScanner \<times> BplusTreeHandler) option" where
  "scanner_open left right sc st =
     (if sc_inited sc then Some (INTERNAL, sc, st)
      else let sc0 = sc\<lparr>sc_inited := True, sc_first_emitted := False\<rparr>; st0 = mtr_begin st in do {
        valid \<leftarrow> scan_range_valid left right st0;
        if \<not> valid then Some (INVALID_ARGUMENT, sc0, st0)
        else do {
          (rc, start, index, st1) \<leftarrow> scan_start left st0;
          (case start of
             None \<Rightarrow> do { st2 \<leftarrow> memo_release st1; Some (rc, sc0\<lparr>sc_current_frame := None\<rparr>, st2) }
           | Some p \<Rightarrow> do {
               right_key \<leftarrow> scan_right_key right st1;
               let sc1 = sc0\<lparr>sc_current_frame := Some p, sc_iter_index := int index, sc_right_key := right_key\<rparr>;
               at_end \<leftarrow> touch_end sc1 st1;
               st2 \<leftarrow> memo_release st1;
               Some (SUCCESS, if at_end then sc1\<lparr>sc_current_frame := None\<rparr> else sc1, st2) }) } })"

text \<open>\<open>next_entry\<close>; with one client the latch of the next page is always obtained.\<close>

partial_function (option) next_entry ::
    "BplusTreeScanner \<Rightarrow> BplusTreeHandler \<Rightarrow> (RC \<times> RID option \<times> BplusTreeScanner \<times> BplusTreeHandler) option" where
  "next_entry sc st = (case sc_current_frame sc of
     None \<Rightarrow> Some (RECORD_EOF, None, sc, st)
   | Some p \<Rightarrow>
       if \<not> sc_first_emitted sc then
         Option.bind (fetch_item sc st) (\<lambda>rid. Some (SUCCESS, Some rid, sc\<lparr>sc_first_emitted := True\<rparr>, st))
       else let sc1 = sc\<lparr>sc_iter_index := sc_iter_index sc + 1\<rparr> in
         Option.bind (bt_nodes st p) (\<lambda>n.
           if sc_iter_index sc1 < int (nd_size n) then
             Option.bind (touch_end sc1 st) (\<lambda>at_end.
               if at_end then Some (RECORD_EOF, None, sc1, st)
               else Option.bind (fetch_item sc1 st) (\<lambda>rid. Some (SUCCESS, Some rid, sc1, st)))
           else if nd_next_brother n = BP_INVALID_PAGE_NUM then Some (RECORD_EOF, None, sc1, st)
           else let memo_point = length (mx_items (bt_mtr st)) in
             Option.bind (get_page (nd_next_brother n) st) (\<lambda>r.
               if OB_FAIL (fst r) then Some (fst r, None, sc1, snd r)
               else Option.bind (memo_slatch (PageLatch (nd_next_brother n)) (snd r)) (\<lambda>st1.
                 Option.bind (release_to memo_point st1) (\<lambda>st2.
                   next_entry (sc1\<lparr>sc_current_frame := Some (nd_next_brother n), sc_iter_index := - 1\<rparr>) st2)))))"

definition scanner_close :: "BplusTreeScanner \<Rightarrow> BplusTreeScanner" where
  "scanner_close sc = sc\<lparr>sc_inited := False\<rparr>"

partial_function (option) scan_all ::
    "RID list \<Rightarrow> BplusTreeScanner \<Rightarrow> BplusTreeHandler \<Rightarrow> (RC \<times> RID list \<times> BplusTreeScanner \<times> BplusTreeHandler) option" where
  "scan_all rids sc st =
     Option.bind (next_entry sc st) (\<lambda>r. case r of (rc, rid, sc1, st1) \<Rightarrow>
       if rc = SUCCESS then scan_all (rids @ [the rid]) sc1 st1 else Some (rc, rids, sc1, st1))"

text \<open>\<open>get_entry\<close>: the scanner's memo is released when it is destroyed.\<close>

definition get_entry :: "byte list \<Rightarrow> nat \<Rightarrow> BplusTreeHandler \<Rightarrow> (RC \<times> RID list \<times> BplusTreeHandler) option" where
  "get_entry user_key key_len st = do {
     (rc, sc, st1) \<leftarrow> scanner_open (Some (user_key, key_len, True)) (Some (user_key, key_len, True)) BplusTreeScanner_new st;
     if OB_FAIL rc then do { st2 \<leftarrow> memo_release st1; Some (rc, [], st2) }
     else do {
       (rc, rids, sc1, st2) \<leftarrow> scan_all [] sc st1;
       st3 \<leftarrow> memo_release st2;
       Some (if rc = RECORD_EOF then SUCCESS else rc, rids, st3) } }"

section \<open>Creating and opening\<close>

text \<open>\<open>sync\<close> writes the header page; that it could not be read is only logged.\<close>

definition tree_sync :: "BplusTreeHandler \<Rightarrow> RC \<times> BplusTreeHandler" where
  "tree_sync st =
     (let st1 = (if bt_header_dirty st then (case pool_outcome st of (rc, st1) \<Rightarrow>
           if OB_SUCC rc then st1\<lparr>bt_header_page := bt_header st1, bt_header_dirty := False\<rparr> else st1)
         else st)
      in pool_outcome st1)"

text \<open>The sizes are those given, or what a page has room for when they are negative.\<close>

definition index_header :: "(AttrType \<times> nat) list \<Rightarrow> int \<Rightarrow> int \<Rightarrow> int \<Rightarrow> IndexFileHeader" where
  "index_header attrs unique internal_max_size leaf_max_size =
     (let total = sum_list (map snd attrs) in
      \<lparr>ih_root_page = BP_INVALID_PAGE_NUM,
       ih_internal_max_size = (if internal_max_size < 0 then calc_internal_page_capacity total else nat internal_max_size),
       ih_leaf_max_size = (if leaf_max_size < 0 then calc_leaf_page_capacity total else nat leaf_max_size),
       ih_attrs = attrs, ih_total_attr_length = total, ih_key_length = total + 8, ih_unique = unique\<rparr>)"

text \<open>\<open>create\<close> on a pool: the page it allocates is the header page when the file is new.\<close>

definition tree_create :: "(AttrType \<times> nat) list \<Rightarrow> int \<Rightarrow> int \<Rightarrow> int \<Rightarrow> BplusTreeHandler \<Rightarrow> (RC \<times> BplusTreeHandler) option" where
  "tree_create attrs unique internal_max_size leaf_max_size st = do {
     (rc, p, st1) \<leftarrow> memo_allocate_page (mtr_begin st);
     if OB_FAIL rc then do { st2 \<leftarrow> mtr_end rc st1; Some (rc, st2) }
     else if p \<noteq> FIRST_INDEX_PAGE then do { st2 \<leftarrow> mtr_end SUCCESS st1; Some (INTERNAL, st2) }
     else do {
       let h = index_header attrs unique internal_max_size leaf_max_size;
       (rc, st2) \<leftarrow> Some (tree_sync (st1\<lparr>bt_nodes := (bt_nodes st1)(p := None),
         bt_header_page := h, bt_header := h, bt_header_dirty := False\<rparr>));
       st3 \<leftarrow> mtr_end rc st2;
       Some (rc, st3) } }"

text \<open>\<open>open\<close> of a handler that has no pool yet.\<close>

definition tree_open :: "BplusTreeHandler \<Rightarrow> RC \<times> BplusTreeHandler" where
  "tree_open st = (case pool_outcome st of (rc, st1) \<Rightarrow>
     if OB_FAIL rc then (rc, st1) else (SUCCESS, st1\<lparr>bt_header := bt_header_page st1, bt_header_dirty := False\<rparr>))"

section \<open>Validation\<close>

definition node_validate :: "IndexNode \<Rightarrow> bool" where
  "node_validate n \<longleftrightarrow> (nd_parent n = BP_INVALID_PAGE_NUM \<longrightarrow> \<not> nd_size n < 1 \<and> (nd_is_leaf n \<or> \<not> nd_size n < 2))"

text \<open>The loop over neighbouring keys, which stops at the first pair out of order.\<close>

fun keys_ordered :: "BplusTreeHandler \<Rightarrow> index_key list \<Rightarrow> bool option" where
  "keys_ordered st (k1 # k2 # ks) = do { c \<leftarrow> key_cmp st k1 k2; if c \<ge> 0 then Some False else keys_ordered st (k2 # ks) }"
| "keys_ordered st ks = Some True"

text \<open>The checks against the parent: the key at \<open>first\<close> and the last key of the node.\<close>

definition validate_in_parent :: "nat \<Rightarrow> PageNum \<Rightarrow> IndexNode \<Rightarrow> BplusTreeHandler \<Rightarrow> (bool \<times> BplusTreeHandler) option" where
  "validate_in_parent first p n st =
     (if nd_parent n = BP_INVALID_PAGE_NUM then Some (True, st)
      else do {
        (rc, st1) \<leftarrow> pool_pin (nd_parent n) st;
        if OB_FAIL rc then Some (False, st1)
        else do {
          pn \<leftarrow> bt_nodes st1 (nd_parent n);
          let index_in_parent = value_index p pn;
          result \<leftarrow>
            (if index_in_parent < 0 then Some False
             else let i = nat index_in_parent in do {
               low \<leftarrow> (if i = 0 then Some True else do {
                 k \<leftarrow> node_key_at n first; pk \<leftarrow> node_key_at pn i; c \<leftarrow> key_cmp st1 k pk; Some (\<not> c < 0) });
               if \<not> low then Some False
               else if i < nd_size pn - 1 then do {
                 k \<leftarrow> node_key_at n (nd_size n - 1); pk \<leftarrow> node_key_at pn (i + 1); c \<leftarrow> key_cmp st1 k pk; Some (\<not> c \<ge> 0) }
               else Some True });
          st2 \<leftarrow> pool_unpin (nd_parent n) st1;
          Some (result, st2) } })"

definition leaf_validate :: "PageNum \<Rightarrow> IndexNode \<Rightarrow> BplusTreeHandler \<Rightarrow> (bool \<times> BplusTreeHandler) option" where
  "leaf_validate p n st =
     (if \<not> node_validate n then Some (False, st)
      else do {
        ordered \<leftarrow> keys_ordered st (map fst (nd_items n));
        if \<not> ordered then Some (False, st) else validate_in_parent 0 p n st })"

text \<open>The loop over the children of an internal node; a child that cannot be read is only logged.\<close>

fun validate_children :: "PageNum \<Rightarrow> item list \<Rightarrow> BplusTreeHandler \<Rightarrow> (bool \<times> BplusTreeHandler) option" where
  "validate_children p [] st = Some (True, st)"
| "validate_children p (x # xs) st = (case snd x of
     RecordValue _ \<Rightarrow> None
   | ChildPage c \<Rightarrow>
       if c < 0 then validate_children p xs st
       else do {
         (rc, st1) \<leftarrow> pool_pin c st;
         if OB_FAIL rc then validate_children p xs st1
         else do {
           m \<leftarrow> bt_nodes st1 c;
           st2 \<leftarrow> pool_unpin c st1;
           if nd_parent m \<noteq> p then Some (False, st2) else validate_children p xs st2 } })"

definition internal_validate :: "PageNum \<Rightarrow> IndexNode \<Rightarrow> BplusTreeHandler \<Rightarrow> (bool \<times> BplusTreeHandler) option" where
  "internal_validate p n st =
     (if \<not> node_validate n then Some (False, st)
      else do {
        ordered \<leftarrow> keys_ordered st (map fst (drop 1 (nd_items n)));
        if \<not> ordered then Some (False, st)
        else do {
          (result, st1) \<leftarrow> validate_children p (nd_items n) st;
          if \<not> result then Some (False, st1) else validate_in_parent 1 p n st1 } })"

text \<open>\<open>validate_node_recursive\<close>, with a bound on the depth; \<^const>\<open>None\<close> when it is not enough.\<close>

fun validate_node_recursive :: "nat \<Rightarrow> PageNum \<Rightarrow> BplusTreeHandler \<Rightarrow> (bool \<times> BplusTreeHandler) option"
  and validate_nodes :: "nat \<Rightarrow> item list \<Rightarrow> BplusTreeHandler \<Rightarrow> (bool \<times> BplusTreeHandler) option" where
  "validate_node_recursive 0 p st = None"
| "validate_node_recursive (Suc depth) p st = do {
     n \<leftarrow> bt_nodes st p;
     if nd_is_leaf n then leaf_validate p n st
     else do {
       (result, st1) \<leftarrow> internal_validate p n st;
       if \<not> result then Some (False, st1) else validate_nodes depth (nd_items n) st1 } }"
| "validate_nodes depth [] st = Some (True, st)"
| "validate_nodes depth (x # xs) st = (case snd x of
     RecordValue _ \<Rightarrow> None
   | ChildPage c \<Rightarrow> do {
       (rc, st1) \<leftarrow> get_page c st;
       if OB_FAIL rc then Some (False, st1)
       else do {
         (result, st2) \<leftarrow> validate_node_recursive depth c st1;
         if \<not> result then Some (False, st2) else validate_nodes depth xs st2 } })"

partial_function (option) validate_link_loop :: "index_key \<Rightarrow> PageNum \<Rightarrow> BplusTreeHandler \<Rightarrow> (bool \<times> BplusTreeHandler) option" where
  "validate_link_loop prev_key next_page st =
     (if next_page = BP_INVALID_PAGE_NUM then Some (True, st)
      else Option.bind (get_page next_page st) (\<lambda>r.
        if OB_FAIL (fst r) then Some (False, snd r)
        else Option.bind (bt_nodes (snd r) next_page) (\<lambda>n.
          Option.bind (node_key_at n 0) (\<lambda>k.
          Option.bind (key_cmp (snd r) prev_key k) (\<lambda>c.
            if c \<ge> 0 then Some (False, snd r)
            else Option.bind (node_key_at n (nd_size n - 1)) (\<lambda>last.
              validate_link_loop last (nd_next_brother n) (snd r)))))))"

definition validate_leaf_link :: "BplusTreeHandler \<Rightarrow> (bool \<times> BplusTreeHandler) option" where
  "validate_leaf_link st =
     (if is_empty st then Some (True, st)
      else do {
        (rc, p, st1) \<leftarrow> left_most_page st;
        if OB_FAIL rc then Some (False, st1)
        else do {
          n \<leftarrow> bt_nodes st1 p;
          prev_key \<leftarrow> (if nd_size n = 0 then None else node_key_at n (nd_size n - 1));
          validate_link_loop prev_key (nd_next_brother n) st1 } })"

definition validate_tree :: "nat \<Rightarrow> BplusTreeHandler \<Rightarrow> (bool \<times> BplusTreeHandler) option" where
  "validate_tree depth st =
     (if is_empty st then Some (True, st)
      else do {
        (rc, st1) \<leftarrow> get_page (ih_root_page (bt_header st)) (mtr_begin st);
        (result, st2) \<leftarrow>
          (if OB_FAIL rc then Some (False, st1)
           else do {
             (valid, st2) \<leftarrow> validate_node_recursive depth (ih_root_page (bt_header st1)) st1;
             if \<not> valid then Some (False, st2) else validate_leaf_link st2 });
        st3 \<leftarrow> mtr_end SUCCESS st2;
        Some (result, st3) })"

declare find_leaf_loop.simps [code] insert_entry_into_parent.simps [code] coalesce_or_redistribute.simps [code]
  next_entry.simps [code] scan_all.simps [code] validate_link_loop.simps [code]

end
