(* ===== verification/BplusShape.thy ===== *)
theory BplusShape
  imports BplusTree
begin

text \<open>
  The shape of a B+-tree on pages. Every node is given the range of keys it is responsible for and
  its level; the invariant relates these to the separator keys, the parent pointers and the leaf
  chain of the nodes, each condition looking at one node and its neighbours only. A node that has
  been split off and is not yet an entry of its parent is pending: its left neighbour stands for
  both in the parent. The lemmas say how the invariant is kept when items are inserted or removed,
  nodes are split, attached, merged and balanced, and that the descent by a key reaches the one leaf
  whose range contains it.
\<close>

section \<open>Bounds of key ranges\<close>

datatype bound = MinB | At key_order | MaxB

instantiation bound :: linorder
begin

fun less_bound :: "bound \<Rightarrow> bound \<Rightarrow> bool" where
  "less_bound MinB b = (b \<noteq> MinB)"
| "less_bound (At x) b = (case b of MinB \<Rightarrow> False | At y \<Rightarrow> x < y | MaxB \<Rightarrow> True)"
| "less_bound MaxB b = False"

definition less_eq_bound :: "bound \<Rightarrow> bound \<Rightarrow> bool" where
  "less_eq_bound a b \<longleftrightarrow> a = b \<or> a < b"

instance
proof
  fix a b c :: bound
  show "(a < b) = (a \<le> b \<and> \<not> b \<le> a)"
    by (cases a; cases b) (auto simp: less_eq_bound_def)
  show "a \<le> a" by (simp add: less_eq_bound_def)
  show "a \<le> b \<Longrightarrow> b \<le> c \<Longrightarrow> a \<le> c"
    by (cases a; cases b; cases c) (auto simp: less_eq_bound_def)
  show "a \<le> b \<Longrightarrow> b \<le> a \<Longrightarrow> a = b"
    by (cases a; cases b) (auto simp: less_eq_bound_def)
  show "a \<le> b \<or> b \<le> a"
    by (cases a; cases b) (auto simp: less_eq_bound_def)
qed

end

lemma bound_simps [simp]: "At x < At y \<longleftrightarrow> x < y" "At x \<le> At y \<longleftrightarrow> x \<le> y" "MinB \<le> b" "b \<le> MaxB"
  "\<not> b < MinB" "\<not> MaxB < b" "At x < MaxB" "MinB < At x" "b \<le> MinB \<longleftrightarrow> b = MinB" "MaxB \<le> b \<longleftrightarrow> b = MaxB"
  by (auto simp: less_eq_bound_def split: bound.splits) (cases b; auto)+

section \<open>The invariant\<close>

record tree_shape =
  sh_lo :: "PageNum \<Rightarrow> bound"
  sh_hi :: "PageNum \<Rightarrow> bound"
  sh_lvl :: "PageNum \<Rightarrow> nat"
  sh_pend :: "PageNum \<rightharpoonup> PageNum"

type_synonym nodes = "PageNum \<rightharpoonup> IndexNode"
type_synonym attrs = "(AttrType \<times> nat) list"

definition span_hi :: "tree_shape \<Rightarrow> PageNum \<Rightarrow> bound" where
  "span_hi g p = (case sh_pend g p of Some q \<Rightarrow> sh_hi g q | None \<Rightarrow> sh_hi g p)"

definition item_bound :: "attrs \<Rightarrow> item \<Rightarrow> bound" where
  "item_bound A x = At (key_rank A (fst x))"

text \<open>The bounds of an internal node's children: the range of child \<open>i\<close> starts at bound \<open>i\<close> and
  ends at bound \<open>i + 1\<close>. The first key is not a bound.\<close>

definition child_bounds :: "attrs \<Rightarrow> tree_shape \<Rightarrow> PageNum \<Rightarrow> IndexNode \<Rightarrow> bound list" where
  "child_bounds A g p n = sh_lo g p # map (item_bound A) (tl (nd_items n)) @ [sh_hi g p]"

definition leaf_ok :: "attrs \<Rightarrow> nodes \<Rightarrow> tree_shape \<Rightarrow> PageNum \<Rightarrow> IndexNode \<Rightarrow> bool" where
  "leaf_ok A N g p n \<longleftrightarrow> sh_lvl g p = 0 \<and> sorted_wrt (<) (map (item_bound A) (nd_items n)) \<and>
     (\<forall>x\<in>set (nd_items n). snd x = RecordValue (snd (fst x)) \<and> sh_lo g p \<le> item_bound A x \<and> item_bound A x < sh_hi g p) \<and>
     (if sh_hi g p = MaxB then nd_next_brother n = BP_INVALID_PAGE_NUM
      else \<exists>m. N (nd_next_brother n) = Some m \<and> nd_is_leaf m \<and> sh_lo g (nd_next_brother n) = sh_hi g p)"

definition child_ok :: "nodes \<Rightarrow> tree_shape \<Rightarrow> PageNum \<Rightarrow> bound list \<Rightarrow> nat \<Rightarrow> item \<Rightarrow> bool" where
  "child_ok N g p bs i x \<longleftrightarrow> (\<exists>c m. snd x = ChildPage c \<and> N c = Some m \<and> nd_parent m = p \<and>
     sh_lvl g p = Suc (sh_lvl g c) \<and> sh_lo g c = bs ! i \<and> span_hi g c = bs ! Suc i)"

definition internal_ok :: "attrs \<Rightarrow> nodes \<Rightarrow> tree_shape \<Rightarrow> PageNum \<Rightarrow> IndexNode \<Rightarrow> bool" where
  "internal_ok A N g p n \<longleftrightarrow> nd_items n \<noteq> [] \<and>
     (sh_lo g p \<noteq> MinB \<longrightarrow> item_bound A (hd (nd_items n)) = sh_lo g p) \<and>
     sorted_wrt (<) (child_bounds A g p n) \<and>
     (\<forall>i<nd_size n. child_ok N g p (child_bounds A g p n) i (nd_items n ! i))"

definition node_ok :: "attrs \<Rightarrow> nodes \<Rightarrow> tree_shape \<Rightarrow> PageNum \<Rightarrow> IndexNode \<Rightarrow> bool" where
  "node_ok A N g p n \<longleftrightarrow> 2 \<le> p \<and> sh_lo g p < sh_hi g p \<and> (\<forall>x\<in>set (nd_items n). key_ok A (fst x)) \<and>
     (if nd_is_leaf n then leaf_ok A N g p n else internal_ok A N g p n)"

definition is_child :: "nodes \<Rightarrow> PageNum \<Rightarrow> PageNum \<Rightarrow> bool" where
  "is_child N m c \<longleftrightarrow> (\<exists>n. N m = Some n \<and> \<not> nd_is_leaf n \<and> ChildPage c \<in> snd ` set (nd_items n))"

definition tree_inv :: "attrs \<Rightarrow> nodes \<Rightarrow> PageNum \<Rightarrow> tree_shape \<Rightarrow> bool" where
  "tree_inv A N root g \<longleftrightarrow>
     finite (dom N) \<and> (\<forall>p n. N p = Some n \<longrightarrow> node_ok A N g p n) \<and>
     (\<exists>n. N root = Some n \<and> nd_parent n = BP_INVALID_PAGE_NUM) \<and>
     sh_lo g root = MinB \<and> span_hi g root = MaxB \<and> root \<notin> ran (sh_pend g) \<and>
     (\<forall>p n. N p = Some n \<and> p \<noteq> root \<and> p \<notin> ran (sh_pend g) \<longrightarrow> is_child N (nd_parent n) p) \<and>
     (\<forall>p q. sh_pend g p = Some q \<longrightarrow> N p \<noteq> None \<and> N q \<noteq> None \<and> sh_lo g q = sh_hi g p \<and> sh_lvl g q = sh_lvl g p \<and>
        q \<notin> dom (sh_pend g) \<and> p \<notin> ran (sh_pend g)) \<and>
     (\<forall>q\<in>ran (sh_pend g). \<forall>m. \<not> is_child N m q) \<and> inj_on (sh_pend g) (dom (sh_pend g))"

lemma tree_invD:
  assumes "tree_inv A N root g"
  shows "finite (dom N)" "N p = Some n \<Longrightarrow> node_ok A N g p n"
    "\<exists>n. N root = Some n \<and> nd_parent n = BP_INVALID_PAGE_NUM" "sh_lo g root = MinB" "span_hi g root = MaxB"
    "root \<notin> ran (sh_pend g)" "N p = Some n \<Longrightarrow> p \<noteq> root \<Longrightarrow> p \<notin> ran (sh_pend g) \<Longrightarrow> is_child N (nd_parent n) p"
    "sh_pend g p = Some q \<Longrightarrow> N p \<noteq> None \<and> N q \<noteq> None \<and> sh_lo g q = sh_hi g p \<and> sh_lvl g q = sh_lvl g p \<and>
        q \<notin> dom (sh_pend g) \<and> p \<notin> ran (sh_pend g)"
    "q \<in> ran (sh_pend g) \<Longrightarrow> \<not> is_child N m q" "inj_on (sh_pend g) (dom (sh_pend g))"
  using assms by (auto simp: tree_inv_def)

lemma tree_invI:
  assumes "finite (dom N)" "\<And>p n. N p = Some n \<Longrightarrow> node_ok A N g p n"
    "\<exists>n. N root = Some n \<and> nd_parent n = BP_INVALID_PAGE_NUM" "sh_lo g root = MinB" "span_hi g root = MaxB"
    "root \<notin> ran (sh_pend g)" "\<And>p n. N p = Some n \<Longrightarrow> p \<noteq> root \<Longrightarrow> p \<notin> ran (sh_pend g) \<Longrightarrow> is_child N (nd_parent n) p"
    "\<And>p q. sh_pend g p = Some q \<Longrightarrow> N p \<noteq> None \<and> N q \<noteq> None \<and> sh_lo g q = sh_hi g p \<and> sh_lvl g q = sh_lvl g p \<and>
        q \<notin> dom (sh_pend g) \<and> p \<notin> ran (sh_pend g)"
    "\<And>q m. q \<in> ran (sh_pend g) \<Longrightarrow> \<not> is_child N m q" "inj_on (sh_pend g) (dom (sh_pend g))"
  shows "tree_inv A N root g"
  unfolding tree_inv_def using assms by blast

lemma length_child_bounds: "nd_items n \<noteq> [] \<Longrightarrow> length (child_bounds A g p n) = Suc (nd_size n)"
  by (simp add: child_bounds_def)

lemma child_bounds_nth:
  assumes "i \<le> nd_size n" "nd_items n \<noteq> []"
  shows "child_bounds A g p n ! i =
     (if i = 0 then sh_lo g p else if i < nd_size n then item_bound A (nd_items n ! i) else sh_hi g p)"
proof (cases i)
  case (Suc j)
  then show ?thesis using assms
    by (cases "nd_items n") (auto simp: child_bounds_def nth_append less_Suc_eq_le)
qed (simp add: child_bounds_def)

lemma internal_okD:
  assumes "internal_ok A N g p n"
  shows "nd_items n \<noteq> []" "sh_lo g p \<noteq> MinB \<Longrightarrow> item_bound A (hd (nd_items n)) = sh_lo g p"
    "sorted_wrt (<) (child_bounds A g p n)" "i < nd_size n \<Longrightarrow> child_ok N g p (child_bounds A g p n) i (nd_items n ! i)"
  using assms by (auto simp: internal_ok_def)

lemma node_okD:
  assumes "node_ok A N g p n"
  shows "2 \<le> p" "sh_lo g p < sh_hi g p" "x \<in> set (nd_items n) \<Longrightarrow> key_ok A (fst x)"
    "nd_is_leaf n \<Longrightarrow> leaf_ok A N g p n" "\<not> nd_is_leaf n \<Longrightarrow> internal_ok A N g p n"
  using assms by (auto simp: node_ok_def)

lemma is_child_nth:
  "is_child N m c \<longleftrightarrow> (\<exists>n i. N m = Some n \<and> \<not> nd_is_leaf n \<and> i < nd_size n \<and> snd (nd_items n ! i) = ChildPage c)"
proof -
  have "v \<in> snd ` set xs \<longleftrightarrow> (\<exists>i<length xs. snd (xs ! i) = v)" for v and xs :: "item list"
    by (force simp: set_conv_nth)
  then show ?thesis by (simp add: is_child_def)
qed

lemma child_okD:
  assumes "child_ok N g p bs i x" "snd x = ChildPage c"
  shows "\<exists>m. N c = Some m \<and> nd_parent m = p" "sh_lvl g p = Suc (sh_lvl g c)" "sh_lo g c = bs ! i" "span_hi g c = bs ! Suc i"
  using assms by (auto simp: child_ok_def)

section \<open>Children and the path of a key\<close>

definition in_range :: "tree_shape \<Rightarrow> PageNum \<Rightarrow> bound \<Rightarrow> bool" where
  "in_range g p b \<longleftrightarrow> sh_lo g p \<le> b \<and> b < sh_hi g p"

lemma sorted_nth_mono: "sorted_wrt (<) bs \<Longrightarrow> i \<le> j \<Longrightarrow> j < length bs \<Longrightarrow> bs ! i \<le> bs ! j" for bs :: "'a::linorder list"
  by (metis antisym_conv2 less_imp_le order_refl sorted_wrt_nth_less)

lemma sorted_nth_eq: "sorted_wrt (<) bs \<Longrightarrow> i < length bs \<Longrightarrow> j < length bs \<Longrightarrow> bs ! i = bs ! j \<longleftrightarrow> i = j" for bs :: "'a::linorder list"
  by (metis less_irrefl nat_neq_iff sorted_wrt_nth_less)

lemma child_bounds_range:
  assumes "internal_ok A N g p n" "i < nd_size n"
  shows "sh_lo g p \<le> child_bounds A g p n ! i" "child_bounds A g p n ! i < child_bounds A g p n ! Suc i"
    "child_bounds A g p n ! Suc i \<le> sh_hi g p"
proof -
  let ?bs = "child_bounds A g p n"
  note s = internal_okD(3) [OF assms(1)] and ne = internal_okD(1) [OF assms(1)]
  have l: "length ?bs = Suc (nd_size n)" using length_child_bounds [OF ne] .
  have e: "?bs ! 0 = sh_lo g p" "?bs ! nd_size n = sh_hi g p" using child_bounds_nth [OF _ ne] ne by auto
  show "sh_lo g p \<le> ?bs ! i" using sorted_nth_mono [OF s, of 0 i] assms(2) l e by simp
  show "?bs ! i < ?bs ! Suc i" using sorted_wrt_nth_less [OF s, of i "Suc i"] assms(2) l by simp
  show "?bs ! Suc i \<le> sh_hi g p" using sorted_nth_mono [OF s, of "Suc i" "nd_size n"] assms(2) l e by simp
qed

lemma child_index_unique:
  assumes "internal_ok A N g p n" "i < nd_size n" "j < nd_size n" "snd (nd_items n ! i) = ChildPage c" "snd (nd_items n ! j) = ChildPage c"
  shows "i = j"
proof -
  have "child_bounds A g p n ! i = child_bounds A g p n ! j"
    using child_okD(3) [OF internal_okD(4) [OF assms(1,2)] assms(4)] child_okD(3) [OF internal_okD(4) [OF assms(1,3)] assms(5)] by simp
  then show ?thesis
    using sorted_nth_eq [OF internal_okD(3) [OF assms(1)]] assms(2,3) length_child_bounds [OF internal_okD(1) [OF assms(1)]] by auto
qed

lemma child_bounds_disjoint:
  assumes "internal_ok A N g p n" "i < nd_size n" "j < nd_size n"
    and "child_bounds A g p n ! i \<le> b" "b < child_bounds A g p n ! Suc i"
    and "child_bounds A g p n ! j \<le> b" "b < child_bounds A g p n ! Suc j"
  shows "i = j"
proof (rule ccontr)
  assume "i \<noteq> j"
  note s = internal_okD(3) [OF assms(1)]
  have l: "length (child_bounds A g p n) = Suc (nd_size n)" using length_child_bounds [OF internal_okD(1) [OF assms(1)]] .
  have "Suc i \<le> j \<or> Suc j \<le> i" using \<open>i \<noteq> j\<close> by linarith
  then show False
    using sorted_nth_mono [OF s, of "Suc i" j] sorted_nth_mono [OF s, of "Suc j" i] assms l by fastforce
qed

lemma node_has_parent:
  assumes "tree_inv A N root g" "N p = Some n" "p \<noteq> root" "p \<notin> ran (sh_pend g)"
  obtains m i where "N (nd_parent n) = Some m" "\<not> nd_is_leaf m" "internal_ok A N g (nd_parent n) m" "i < nd_size m"
    "snd (nd_items m ! i) = ChildPage p" "sh_lvl g (nd_parent n) = Suc (sh_lvl g p)"
    "sh_lo g p = child_bounds A g (nd_parent n) m ! i" "span_hi g p = child_bounds A g (nd_parent n) m ! Suc i"
proof -
  obtain m i where m: "N (nd_parent n) = Some m" "\<not> nd_is_leaf m" "i < nd_size m" "snd (nd_items m ! i) = ChildPage p"
    using tree_invD(7) [OF assms] by (auto simp: is_child_nth)
  have io: "internal_ok A N g (nd_parent n) m" using node_okD(5) [OF tree_invD(2) [OF assms(1) m(1)] m(2)] .
  note c = child_okD [OF internal_okD(4) [OF io m(3)] m(4)]
  show ?thesis by (rule that [OF m(1,2) io m(3,4) c(2,3,4)])
qed

lemma root_top:
  assumes inv: "tree_inv A N root g" and p: "p \<in> dom N"
  shows "sh_lvl g p \<le> sh_lvl g root"
proof -
  let ?M = "Max (sh_lvl g ` dom N)"
  note fin = tree_invD(1) [OF inv]
  have le: "r \<in> dom N \<Longrightarrow> sh_lvl g r \<le> ?M" for r using fin by simp
  have top: "r = root" if r: "r \<in> dom N" "sh_lvl g r = ?M" "r \<notin> ran (sh_pend g)" for r
  proof (rule ccontr)
    assume "r \<noteq> root"
    moreover obtain n where "N r = Some n" using r(1) by auto
    ultimately obtain m where "N (nd_parent n) = Some m" "sh_lvl g (nd_parent n) = Suc (sh_lvl g r)"
      using node_has_parent [OF inv _ _ r(3)] by metis
    then show False using le [of "nd_parent n"] r(2) by auto
  qed
  have "?M \<in> sh_lvl g ` dom N" using fin p by (intro Max_in) auto
  then obtain r where r: "r \<in> dom N" "sh_lvl g r = ?M" by (metis imageE)
  have "sh_lvl g root = ?M"
  proof (cases "r \<in> ran (sh_pend g)")
    case True
    then obtain s where s: "sh_pend g s = Some r" by (auto simp: ran_def)
    then show ?thesis using tree_invD(8) [OF inv s] top [of s] r by auto
  next
    case False then show ?thesis using top [OF r False] r by simp
  qed
  then show ?thesis using le [OF p] by simp
qed

lemma level_unique:
  assumes inv: "tree_inv A N root g" and np: "sh_pend g = Map.empty"
    and "N p \<noteq> None" "N q \<noteq> None" "sh_lvl g p = sh_lvl g q" "in_range g p b" "in_range g q b"
  shows "p = q"
  using assms(3-)
proof (induction "sh_lvl g root - sh_lvl g p" arbitrary: p q)
  case 0
  have nr: "r \<notin> ran (sh_pend g)" for r using np by simp
  have top: "r = root" if r: "N r \<noteq> None" "sh_lvl g r \<ge> sh_lvl g root" for r
  proof (rule ccontr)
    assume "r \<noteq> root"
    obtain n where n: "N r = Some n" using r(1) by auto
    obtain m where m: "N (nd_parent n) = Some m" "sh_lvl g (nd_parent n) = Suc (sh_lvl g r)"
      by (rule node_has_parent [OF inv n \<open>r \<noteq> root\<close> nr])
    then have "sh_lvl g (nd_parent n) \<le> sh_lvl g root" using root_top [OF inv, of "nd_parent n"] by blast
    then show False using r(2) m(2) by simp
  qed
  have "sh_lvl g root \<le> sh_lvl g p" using "0.hyps" by simp
  then show ?case using top [OF "0.prems"(1)] top [OF "0.prems"(2)] "0.prems"(3) by metis
next
  case (Suc k)
  obtain np nq where n: "N p = Some np" "N q = Some nq" using Suc.prems by auto
  have "p \<noteq> root" "q \<noteq> root" using Suc.hyps(2) Suc.prems(3) by auto
  have sp: "span_hi g r = sh_hi g r" for r using assms(2) by (simp add: span_hi_def)
  have nr: "r \<notin> ran (sh_pend g)" for r using assms(2) by simp
  obtain m i where m: "N (nd_parent np) = Some m" "internal_ok A N g (nd_parent np) m" "i < nd_size m"
    "snd (nd_items m ! i) = ChildPage p" "sh_lvl g (nd_parent np) = Suc (sh_lvl g p)"
    "sh_lo g p = child_bounds A g (nd_parent np) m ! i" "span_hi g p = child_bounds A g (nd_parent np) m ! Suc i"
    using node_has_parent [OF inv n(1) \<open>p \<noteq> root\<close> nr] by metis
  obtain m' j where m': "N (nd_parent nq) = Some m'" "internal_ok A N g (nd_parent nq) m'" "j < nd_size m'"
    "snd (nd_items m' ! j) = ChildPage q" "sh_lvl g (nd_parent nq) = Suc (sh_lvl g q)"
    "sh_lo g q = child_bounds A g (nd_parent nq) m' ! j" "span_hi g q = child_bounds A g (nd_parent nq) m' ! Suc j"
    using node_has_parent [OF inv n(2) \<open>q \<noteq> root\<close> nr] by metis
  have r: "in_range g (nd_parent np) b" "in_range g (nd_parent nq) b"
    using Suc.prems(4,5) child_bounds_range [OF m(2,3)] child_bounds_range [OF m'(2,3)] m m' sp
    by (auto simp: in_range_def)
  have "nd_parent np = nd_parent nq"
    using Suc.hyps(1) [of "nd_parent np" "nd_parent nq"] Suc.hyps(2) m m' r Suc.prems(3) by auto
  then have "m = m'" using m(1) m'(1) by simp
  then have "i = j"
    using child_bounds_disjoint [OF m(2,3), of j b] m m' sp Suc.prems(4,5) \<open>nd_parent np = nd_parent nq\<close>
    by (auto simp: in_range_def)
  then show ?case using m(4) m'(4) \<open>m = m'\<close> by simp
qed

section \<open>Lookup in nodes\<close>

definition key_bound :: "attrs \<Rightarrow> index_key \<Rightarrow> bound" where
  "key_bound A k = At (key_rank A k)"

lemma item_bound_key: "item_bound A (k, v) = key_bound A k"
  by (simp add: item_bound_def key_bound_def)

lemma item_bound_simps [simp]: "item_bound A x \<noteq> MinB" "item_bound A x \<noteq> MaxB" "key_bound A k \<noteq> MinB" "key_bound A k \<noteq> MaxB"
  "MinB < item_bound A x" "item_bound A x < MaxB" "MinB < key_bound A k" "key_bound A k < MaxB"
  by (simp_all add: item_bound_def key_bound_def)

definition item_pos :: "attrs \<Rightarrow> index_key \<Rightarrow> item list \<Rightarrow> nat" where
  "item_pos A key xs = length (takeWhile (\<lambda>x. item_bound A x < key_bound A key) xs)"

lemma item_pos_le: "item_pos A key xs \<le> length xs"
  by (simp add: item_pos_def length_takeWhile_le)

lemma item_pos_less: "i < item_pos A key xs \<Longrightarrow> item_bound A (xs ! i) < key_bound A key"
  unfolding item_pos_def using nth_mem set_takeWhileD takeWhile_nth by metis

lemma item_pos_at: "item_pos A key xs < length xs \<Longrightarrow> key_bound A key \<le> item_bound A (xs ! item_pos A key xs)"
  unfolding item_pos_def using nth_length_takeWhile not_less by metis

lemma lookup_search:
  assumes ok: "\<forall>x\<in>set xs. key_ok A (fst x)" "key_ok A key" and s: "sorted_wrt (<) (map (item_bound A) xs)"
  shows "lower_bound (\<lambda>x. KeyComparator A (fst x) key) xs = Some (item_pos A key xs, key_bound A key \<in> item_bound A ` set xs)"
proof -
  define c where "c x = the (KeyComparator A (fst x) key)" for x :: item
  have c: "KeyComparator A (fst x) key = Some (c x) \<and> (c x < 0 \<longleftrightarrow> item_bound A x < key_bound A key) \<and>
      (c x = 0 \<longleftrightarrow> item_bound A x = key_bound A key)" if x: "x \<in> set xs" for x
  proof -
    obtain r where r: "KeyComparator A (fst x) key = Some r" "sgn r = order3 (key_rank A (fst x)) (key_rank A key)"
      using KeyComparator_rank [of A "fst x" key] ok x by auto
    have "r < 0 \<longleftrightarrow> sgn r < 0" "r = 0 \<longleftrightarrow> sgn r = 0" by (simp_all add: sgn_if)
    then show ?thesis unfolding r(2) by (simp add: c_def r(1) item_bound_def key_bound_def)
  qed
  have "search_sorted c xs"
    unfolding search_sorted_def sorted_wrt_iff_nth_less
  proof (intro allI impI)
    fix i j assume ij: "i < j" "j < length xs" "0 \<le> c (xs ! i)"
    then have "item_bound A (xs ! i) < item_bound A (xs ! j)"
      using sorted_wrt_nth_less [OF s, of i j] by simp
    moreover have "key_bound A key \<le> item_bound A (xs ! i)" using c [of "xs ! i"] ij by auto
    ultimately show "0 < c (xs ! j)" using c [of "xs ! j"] ij by fastforce
  qed
  moreover have "takeWhile (\<lambda>x. c x < 0) xs = takeWhile (\<lambda>x. item_bound A x < key_bound A key) xs"
    using c by (intro takeWhile_cong) blast+
  moreover have "(\<exists>x\<in>set xs. c x = 0) \<longleftrightarrow> key_bound A key \<in> item_bound A ` set xs"
    unfolding image_iff using c by metis
  ultimately show ?thesis using lower_bound_search [of xs _ c] c by (simp add: linear_search_def item_pos_def)
qed

lemma sorted_tl: "sorted_wrt P xs \<Longrightarrow> sorted_wrt P (tl xs)"
  by (cases xs) auto

lemma sorted_seps: "sorted_wrt (<) (child_bounds A g p n) \<Longrightarrow> sorted_wrt (<) (map (item_bound A) (tl (nd_items n)))"
  by (simp add: child_bounds_def sorted_wrt_append)

lemma internal_lookup_ok:
  assumes io: "internal_ok A N g p n" and ok: "\<forall>x\<in>set (nd_items n). key_ok A (fst x)" "key_ok A key"
    and A: "ih_attrs (bt_header st) = A" and r: "in_range g p (key_bound A key)"
  obtains i j where "internal_lookup st key n = Some (i, j)" "i < nd_size n" "child_bounds A g p n ! i \<le> key_bound A key"
    "key_bound A key < child_bounds A g p n ! Suc i" "child_bounds A g p n ! i < key_bound A key \<Longrightarrow> j = Suc i"
proof -
  let ?b = "key_bound A key" and ?bs = "child_bounds A g p n"
  obtain x0 xs where items: "nd_items n = x0 # xs" using internal_okD(1) [OF io] by (meson neq_Nil_conv)
  let ?k = "item_pos A key xs"
  have ok': "\<forall>x\<in>set xs. key_ok A (fst x)" using ok(1) items by simp
  have lb: "lower_bound (\<lambda>x. KeyComparator A (fst x) key) xs = Some (?k, ?b \<in> item_bound A ` set xs)"
    using lookup_search [OF ok' ok(2)] sorted_seps [OF internal_okD(3) [OF io]] items by simp
  have bs: "?bs ! Suc i = (if i < length xs then item_bound A (xs ! i) else sh_hi g p)" if "i \<le> length xs" for i
    using child_bounds_nth [of "Suc i" n A g p] that items by simp
  have bs0: "?bs ! 0 = sh_lo g p" by (simp add: child_bounds_def)
  have low: "?bs ! ?k \<le> ?b"
  proof (cases ?k)
    case 0 then show ?thesis using bs0 r by (simp add: in_range_def)
  next
    case (Suc i)
    then show ?thesis using bs [of i] item_pos_less [of i A key xs] item_pos_le [of A key xs] by simp
  qed
  show ?thesis
  proof (cases "?k < length xs \<and> item_bound A (xs ! ?k) = ?b")
    case False
    then have up: "?b < ?bs ! Suc ?k"
      using bs [of ?k] item_pos_le [of A key xs] item_pos_at [of A key xs] r by (auto simp: in_range_def)
    have "internal_lookup st key n = Some (?k, Suc ?k)"
    proof (cases "?k < length xs")
      case True
      obtain c where "KeyComparator A key (fst (xs ! ?k)) = Some c" "sgn c = order3 (key_rank A key) (key_rank A (fst (xs ! ?k)))"
        using KeyComparator_rank [of A key "fst (xs ! ?k)"] ok(2) ok' True by (metis nth_mem)
      moreover have "?b < item_bound A (xs ! ?k)" using up bs [of ?k] True by simp
      ultimately have "KeyComparator A key (fst (xs ! ?k)) = Some c" "c < 0"
        by (auto simp: item_bound_def key_bound_def order3_def sgn_if split: if_splits)
      then show ?thesis using lb A True items
        by (simp add: internal_lookup_def drop_Suc node_key_at_def)
    qed (use lb A items item_pos_le [of A key xs] in \<open>simp add: internal_lookup_def drop_Suc\<close>)
    then show ?thesis using that [of ?k "Suc ?k"] low up item_pos_le [of A key xs] items by simp
  next
    case True
    obtain c where c: "KeyComparator A key (fst (xs ! ?k)) = Some c" "sgn c = order3 (key_rank A key) (key_rank A (fst (xs ! ?k)))"
      using KeyComparator_rank [of A key "fst (xs ! ?k)"] ok(2) ok' True by (metis nth_mem)
    have "c = 0" using c(2) True by (simp add: item_bound_def key_bound_def sgn_if split: if_splits)
    then have "internal_lookup st key n = Some (Suc ?k, Suc ?k)" using lb A True items c(1)
      by (simp add: internal_lookup_def drop_Suc node_key_at_def)
    moreover have "?bs ! Suc ?k = ?b" using bs [of ?k] True by simp
    moreover have "?b < ?bs ! Suc (Suc ?k)"
      using child_bounds_range(2) [OF io, of "Suc ?k"] True items \<open>?bs ! Suc ?k = ?b\<close> by simp
    ultimately show ?thesis using that [of "Suc ?k" "Suc ?k"] True items by simp
  qed
qed

lemma child_by_key_ok:
  assumes "internal_ok A N g p n" "\<forall>x\<in>set (nd_items n). key_ok A (fst x)" "key_ok A key"
    "ih_attrs (bt_header st) = A" "in_range g p (key_bound A key)" "\<forall>c. sh_pend g c = None"
  obtains c m where "child_by_key key st n = Some c" "N c = Some m" "nd_parent m = p" "sh_lvl g p = Suc (sh_lvl g c)"
    "in_range g c (key_bound A key)"
proof -
  obtain i j where i: "internal_lookup st key n = Some (i, j)" "i < nd_size n" "child_bounds A g p n ! i \<le> key_bound A key"
    "key_bound A key < child_bounds A g p n ! Suc i"
    using internal_lookup_ok [OF assms(1-5)] by metis
  obtain c m where c: "snd (nd_items n ! i) = ChildPage c" "N c = Some m" "nd_parent m = p" "sh_lvl g p = Suc (sh_lvl g c)"
    "sh_lo g c = child_bounds A g p n ! i" "span_hi g c = child_bounds A g p n ! Suc i"
    using internal_okD(4) [OF assms(1) i(2)] by (auto simp: child_ok_def)
  have "child_by_key key st n = Some c" using i c(1) by (simp add: child_by_key_def internal_value_at_def)
  then show ?thesis using that c i assms(6) by (simp add: in_range_def span_hi_def)
qed

section \<open>Changing one node\<close>

text \<open>The keys in the leaves are the contents of the tree.\<close>

definition leaf_keys :: "IndexNode \<Rightarrow> index_key set" where
  "leaf_keys n = (if nd_is_leaf n then fst ` set (nd_items n) else {})"

definition entries :: "nodes \<Rightarrow> index_key set" where
  "entries N = (\<Union>n\<in>ran N. leaf_keys n)"

lemma entries_alt: "entries N = (\<Union>p. case N p of None \<Rightarrow> {} | Some n \<Rightarrow> leaf_keys n)"
  by (force simp: entries_def ran_def split: option.splits)

lemma entries_split: "N p = Some n \<Longrightarrow> entries N = leaf_keys n \<union> entries (N(p := None))"
proof -
  assume "N p = Some n"
  then have "ran N = insert n (ran (N(p := None)))" by (auto simp: ran_def) (metis option.inject)
  then show ?thesis by (simp add: entries_def)
qed

lemma entries_upd [simp]: "entries (N(p \<mapsto> n)) = leaf_keys n \<union> entries (N(p := None))"
  using entries_split [of "N(p \<mapsto> n)" p n] by simp

lemma node_ok_frame:
  assumes ok: "node_ok A N g p n" and same: "sh_lo g' p = sh_lo g p" "sh_hi g' p = sh_hi g p" "sh_lvl g' p = sh_lvl g p"
    and kids: "\<And>c m. \<not> nd_is_leaf n \<Longrightarrow> ChildPage c \<in> snd ` set (nd_items n) \<Longrightarrow> N c = Some m \<Longrightarrow> nd_parent m = p \<Longrightarrow>
       \<exists>m'. N' c = Some m' \<and> nd_parent m' = p \<and> sh_lo g' c = sh_lo g c \<and> span_hi g' c = span_hi g c \<and> sh_lvl g' c = sh_lvl g c"
    and nxt: "\<And>m. nd_is_leaf n \<Longrightarrow> sh_hi g p \<noteq> MaxB \<Longrightarrow> N (nd_next_brother n) = Some m \<Longrightarrow> nd_is_leaf m \<Longrightarrow>
       sh_lo g (nd_next_brother n) = sh_hi g p \<Longrightarrow>
       \<exists>m'. N' (nd_next_brother n) = Some m' \<and> nd_is_leaf m' \<and> sh_lo g' (nd_next_brother n) = sh_lo g (nd_next_brother n)"
  shows "node_ok A N' g' p n"
proof (cases "nd_is_leaf n")
  case True
  then have l: "leaf_ok A N g p n" using node_okD(4) [OF ok] by simp
  have "leaf_ok A N' g' p n"
    using l nxt [OF True] same unfolding leaf_ok_def by (auto split: if_splits)
  then show ?thesis using ok True same by (simp add: node_ok_def)
next
  case False
  then have i: "internal_ok A N g p n" using node_okD(5) [OF ok] by simp
  have bs: "child_bounds A g' p n = child_bounds A g p n" using same by (simp add: child_bounds_def)
  have "child_ok N' g' p (child_bounds A g p n) j (nd_items n ! j)" if j: "j < nd_size n" for j
  proof -
    obtain c m where c: "snd (nd_items n ! j) = ChildPage c" "N c = Some m" "nd_parent m = p" "sh_lvl g p = Suc (sh_lvl g c)"
      "sh_lo g c = child_bounds A g p n ! j" "span_hi g c = child_bounds A g p n ! Suc j"
      using internal_okD(4) [OF i j] by (auto simp: child_ok_def)
    have "ChildPage c \<in> snd ` set (nd_items n)" using c(1) j by (metis image_eqI nth_mem)
    from kids [OF False this c(2,3)] show ?thesis using c same by (auto simp: child_ok_def)
  qed
  then have "internal_ok A N' g' p n" using i same bs by (simp add: internal_ok_def)
  then show ?thesis using ok False same by (simp add: node_ok_def)
qed

lemma node_ok_upd:
  assumes "node_ok A N g q m" "N p = Some n" "nd_parent n' = nd_parent n" "nd_is_leaf n' = nd_is_leaf n"
  shows "node_ok A (N(p \<mapsto> n')) g q m"
  using assms(1) by (rule node_ok_frame) (use assms in auto)

lemma tree_inv_upd:
  assumes inv: "tree_inv A N root g" and n: "N p = Some n" "nd_parent n' = nd_parent n" "nd_is_leaf n' = nd_is_leaf n"
    "\<not> nd_is_leaf n \<Longrightarrow> snd ` set (nd_items n') = snd ` set (nd_items n)" and ok: "node_ok A N g p n'"
  shows "tree_inv A (N(p \<mapsto> n')) root g"
proof -
  have nodes: "node_ok A (N(p \<mapsto> n')) g q m" if "(N(p \<mapsto> n')) q = Some m" for q m
    using node_ok_upd [of A N g q m p n n'] n(1-3) ok that tree_invD(2) [OF inv, of q m] by (auto split: if_splits)
  have kids: "is_child (N(p \<mapsto> n')) m c \<longleftrightarrow> is_child N m c" for m c
    using n(1,3,4) by (auto simp: is_child_def)
  have par: "is_child (N(p \<mapsto> n')) (nd_parent m) q"
    if "(N(p \<mapsto> n')) q = Some m" "q \<noteq> root" "q \<notin> ran (sh_pend g)" for q m
    using kids tree_invD(7) [OF inv, of q] that n(1,2) by (auto split: if_splits)
  show ?thesis
    using nodes par tree_invD(1,3-6,8-10) [OF inv] kids n(1,2) unfolding tree_inv_def by auto
qed

lemma sorted_insert_at:
  fixes f :: "'b \<Rightarrow> 'a::linorder"
  assumes "sorted_wrt (<) (map f xs)" "j \<le> length xs" "\<And>i. i < j \<Longrightarrow> f (xs ! i) < f y" "\<And>i. j \<le> i \<Longrightarrow> i < length xs \<Longrightarrow> f y < f (xs ! i)"
  shows "sorted_wrt (<) (map f (take j xs @ y # drop j xs))"
proof -
  have "sorted_wrt (<) (map f (take j xs) @ map f (drop j xs))"
    using assms(1) by (metis append_take_drop_id map_append)
  moreover have "\<forall>x\<in>set (take j xs). f x < f y" using assms(2,3) by (auto simp: in_set_conv_nth)
  moreover have "\<forall>x\<in>set (drop j xs). f y < f x" using assms(2,4) by (auto simp: in_set_conv_nth)
  ultimately show ?thesis by (auto simp: sorted_wrt_append)
qed

lemma item_pos_greater:
  assumes "sorted_wrt (<) (map (item_bound A) xs)" "key_bound A key \<notin> item_bound A ` set xs" "item_pos A key xs \<le> i" "i < length xs"
  shows "key_bound A key < item_bound A (xs ! i)"
proof -
  let ?k = "item_pos A key xs"
  have k: "?k < length xs" using assms(3,4) by simp
  have "key_bound A key \<noteq> item_bound A (xs ! ?k)" using assms(2) k by (metis image_eqI nth_mem)
  then have "key_bound A key < item_bound A (xs ! ?k)" using item_pos_at [OF k] by simp
  also have "\<dots> \<le> item_bound A (xs ! i)" using sorted_nth_mono [OF assms(1,3)] assms(4) k by simp
  finally show ?thesis .
qed

definition insert_at :: "nat \<Rightarrow> 'a \<Rightarrow> 'a list \<Rightarrow> 'a list" where
  "insert_at j x xs = take j xs @ x # drop j xs"

lemma set_insert_at [simp]: "set (insert_at j x xs) = insert x (set xs)"
proof -
  have "set xs = set (take j xs) \<union> set (drop j xs)" by (metis append_take_drop_id set_append)
  then show ?thesis by (auto simp: insert_at_def)
qed

lemma length_insert_at [simp]: "length (insert_at j x xs) = Suc (length xs)"
  by (simp add: insert_at_def)

lemma leaf_insert_inv:
  assumes inv: "tree_inv A N root g" and n: "N p = Some n" "nd_is_leaf n"
    and key: "key_ok A key" "in_range g p (key_bound A key)" "key_bound A key \<notin> item_bound A ` set (nd_items n)"
    and n': "n' = n\<lparr>nd_items := insert_at (item_pos A key (nd_items n)) (key, RecordValue (snd key)) (nd_items n)\<rparr>"
  shows "tree_inv A (N(p \<mapsto> n')) root g \<and> entries (N(p \<mapsto> n')) = insert key (entries N)"
proof
  have ok: "node_ok A N g p n" using tree_invD(2) [OF inv n(1)] .
  have l: "leaf_ok A N g p n" using node_okD(4) [OF ok n(2)] .
  let ?x = "(key, RecordValue (snd key))"
  have "sorted_wrt (<) (map (item_bound A) (nd_items n'))"
    unfolding n' insert_at_def using l key(3) item_pos_le item_pos_less item_pos_greater
    by (simp del: map_append add: leaf_ok_def) (rule sorted_insert_at, auto simp: item_bound_key)
  then have "leaf_ok A N g p n'"
    using l key(2) n' by (auto simp: leaf_ok_def in_range_def item_bound_key)
  then have "node_ok A N g p n'" using ok n(2) n' key(1) by (auto simp: node_ok_def)
  then show "tree_inv A (N(p \<mapsto> n')) root g" using tree_inv_upd [OF inv n(1), of n'] n' n(2) by simp
  show "entries (N(p \<mapsto> n')) = insert key (entries N)"
    using entries_split [of N p n] n n' by (simp add: leaf_keys_def)
qed

section \<open>Splitting a node\<close>

definition kid_pages :: "item list \<Rightarrow> PageNum set" where
  "kid_pages xs = {c. ChildPage c \<in> snd ` set xs}"

lemma kid_pages_append [simp]: "kid_pages (xs @ ys) = kid_pages xs \<union> kid_pages ys"
  by (auto simp: kid_pages_def image_Un)

lemma kid_pages_Cons [simp]: "kid_pages (x # xs) = {c. snd x = ChildPage c} \<union> kid_pages xs"
  by (auto simp: kid_pages_def)

lemma kid_pages_Nil [simp]: "kid_pages [] = {}"
  by (simp add: kid_pages_def)

lemma kid_pages_nth: "c \<in> kid_pages xs \<longleftrightarrow> (\<exists>i<length xs. snd (xs ! i) = ChildPage c)"
  by (force simp: kid_pages_def set_conv_nth)

lemma kid_pages_split: "kid_pages xs = kid_pages (take j xs) \<union> kid_pages (drop j xs)"
  by (metis append_take_drop_id kid_pages_append)

text \<open>The children among \<open>xs\<close> get the parent \<open>q\<close>.\<close>

definition reparent :: "PageNum \<Rightarrow> item list \<Rightarrow> nodes \<Rightarrow> nodes" where
  "reparent q xs N = (\<lambda>c. if c \<in> kid_pages xs then map_option (nd_parent_update (\<lambda>_. q)) (N c) else N c)"

lemma reparent_simps [simp]: "c \<notin> kid_pages xs \<Longrightarrow> reparent q xs N c = N c"
  "c \<in> kid_pages xs \<Longrightarrow> reparent q xs N c = map_option (nd_parent_update (\<lambda>_. q)) (N c)"
  by (simp_all add: reparent_def)

lemma dom_reparent [simp]: "dom (reparent q xs N) = dom N"
  by (auto simp: reparent_def split: if_splits)

lemma reparent_Some:
  assumes "reparent q xs N c = Some m'"
  obtains m where "N c = Some m" "m' = (if c \<in> kid_pages xs then m\<lparr>nd_parent := q\<rparr> else m)"
  using assms by (auto simp: reparent_def split: if_splits)

lemma reparent_node:
  "N c = Some m \<Longrightarrow> \<exists>m'. reparent q xs N c = Some m' \<and> nd_items m' = nd_items m \<and> nd_is_leaf m' = nd_is_leaf m \<and>
     nd_next_brother m' = nd_next_brother m \<and> nd_parent m' = (if c \<in> kid_pages xs then q else nd_parent m)"
  by (simp add: reparent_def)

lemma node_ok_parent [simp]: "node_ok A N g p (n\<lparr>nd_parent := x\<rparr>) = node_ok A N g p n"
  by (simp add: node_ok_def leaf_ok_def internal_ok_def child_bounds_def)

lemma entries_reparent [simp]: "entries (reparent q xs N) = entries N"
proof -
  have "leaf_keys (m\<lparr>nd_parent := q\<rparr>) = leaf_keys m" for m by (simp add: leaf_keys_def)
  then have "(case reparent q xs N c of None \<Rightarrow> {} | Some n \<Rightarrow> leaf_keys n) = (case N c of None \<Rightarrow> {} | Some n \<Rightarrow> leaf_keys n)" for c
    by (simp add: reparent_def split: option.split)
  then show ?thesis by (simp add: entries_alt)
qed

lemma kid_ok:
  assumes "internal_ok A N g p n" "c \<in> kid_pages (nd_items n)"
  obtains m where "N c = Some m" "nd_parent m = p" "sh_lvl g p = Suc (sh_lvl g c)" "c \<noteq> p"
proof -
  obtain x where x: "x \<in> set (nd_items n)" "snd x = ChildPage c" using assms(2) by (auto simp: kid_pages_def image_iff)
  then obtain i where "i < nd_size n" "nd_items n ! i = x" by (auto simp: in_set_conv_nth)
  with child_okD [OF internal_okD(4) [OF assms(1)]] x show ?thesis using that by (metis n_not_Suc_n)
qed

lemma is_child_kid: "is_child N m c \<longleftrightarrow> (\<exists>n. N m = Some n \<and> \<not> nd_is_leaf n \<and> c \<in> kid_pages (nd_items n))"
  by (auto simp: is_child_def kid_pages_def)

lemma pend_fresh:
  assumes "tree_inv A N root g" "N q = None"
  shows "sh_pend g q = None" "q \<notin> ran (sh_pend g)"
proof -
  show "sh_pend g q = None" using tree_invD(8) [OF assms(1), of q] assms(2) by (cases "sh_pend g q") auto
  show "q \<notin> ran (sh_pend g)"
  proof
    assume "q \<in> ran (sh_pend g)"
    then obtain r where "sh_pend g r = Some q" by (auto simp: ran_def)
    then show False using tree_invD(8) [OF assms(1)] assms(2) by blast
  qed
qed

definition split_shape :: "PageNum \<Rightarrow> PageNum \<Rightarrow> bound \<Rightarrow> tree_shape \<Rightarrow> tree_shape" where
  "split_shape p q b g = g\<lparr>sh_lo := (sh_lo g)(q := b), sh_hi := (sh_hi g)(q := sh_hi g p, p := b),
     sh_lvl := (sh_lvl g)(q := sh_lvl g p), sh_pend := (sh_pend g)(p \<mapsto> q)\<rparr>"

definition split_pre :: "attrs \<Rightarrow> nodes \<Rightarrow> PageNum \<Rightarrow> tree_shape \<Rightarrow> PageNum \<Rightarrow> IndexNode \<Rightarrow> nat \<Rightarrow> PageNum \<Rightarrow> IndexNode \<Rightarrow> IndexNode \<Rightarrow> bool" where
  "split_pre A N root g p n j q n1 n2 \<longleftrightarrow> tree_inv A N root g \<and> N p = Some n \<and> N q = None \<and> 2 \<le> q \<and>
     p \<notin> dom (sh_pend g) \<and> p \<notin> ran (sh_pend g) \<and> 0 < j \<and> j < nd_size n \<and>
     nd_items n1 = take j (nd_items n) \<and> nd_items n2 = drop j (nd_items n) \<and> nd_is_leaf n1 = nd_is_leaf n \<and>
     nd_is_leaf n2 = nd_is_leaf n \<and> nd_parent n1 = nd_parent n \<and>
     (nd_is_leaf n \<longrightarrow> nd_next_brother n1 = q \<and> nd_next_brother n2 = nd_next_brother n)"

abbreviation split_nodes :: "nodes \<Rightarrow> PageNum \<Rightarrow> IndexNode \<Rightarrow> PageNum \<Rightarrow> IndexNode \<Rightarrow> nodes" where
  "split_nodes N p n1 q n2 \<equiv> reparent q (nd_items n2) (N(p \<mapsto> n1, q \<mapsto> n2))"

lemma split_preD:
  assumes "split_pre A N root g p n j q n1 n2"
  shows "tree_inv A N root g" "N p = Some n" "N q = None" "2 \<le> q" "p \<notin> dom (sh_pend g)" "p \<notin> ran (sh_pend g)"
    "0 < j" "j < nd_size n" "nd_items n1 = take j (nd_items n)" "nd_items n2 = drop j (nd_items n)" "nd_is_leaf n1 = nd_is_leaf n"
    "nd_is_leaf n2 = nd_is_leaf n" "nd_parent n1 = nd_parent n"
    "nd_is_leaf n \<Longrightarrow> nd_next_brother n1 = q" "nd_is_leaf n \<Longrightarrow> nd_next_brother n2 = nd_next_brother n"
    "p \<noteq> q" "sh_pend g q = None" "q \<notin> ran (sh_pend g)"
proof -
  show "q \<notin> ran (sh_pend g)" "sh_pend g q = None" "p \<noteq> q"
    using assms pend_fresh [of A N root g q] by (auto simp: split_pre_def)
qed (use assms in \<open>auto simp: split_pre_def\<close>)

lemma split_kids:
  assumes "split_pre A N root g p n j q n1 n2" "c \<in> kid_pages (nd_items n)"
  shows "\<exists>m. N c = Some m \<and> nd_parent m = p" "c \<noteq> p" "c \<noteq> q" "\<not> nd_is_leaf n" "sh_lvl g p = Suc (sh_lvl g c)"
proof -
  note pre = split_preD [OF assms(1)]
  note ok = tree_invD(2) [OF pre(1,2)]
  show nl: "\<not> nd_is_leaf n"
  proof
    assume "nd_is_leaf n"
    then show False using node_okD(4) [OF ok] assms(2) by (force simp: leaf_ok_def kid_pages_def)
  qed
  obtain m where "N c = Some m" "nd_parent m = p" "sh_lvl g p = Suc (sh_lvl g c)" "c \<noteq> p"
    using kid_ok [OF node_okD(5) [OF ok nl] assms(2)] by metis
  then show "\<exists>m. N c = Some m \<and> nd_parent m = p" "c \<noteq> p" "c \<noteq> q" "sh_lvl g p = Suc (sh_lvl g c)" using pre(3) by auto
qed

lemma split_span:
  assumes "split_pre A N root g p n j q n1 n2"
  shows "c \<noteq> q \<Longrightarrow> span_hi (split_shape p q b g) c = span_hi g c"
  using split_preD(5,6,16,17,18) [OF assms] by (auto simp: span_hi_def split_shape_def ran_def split: option.splits)

lemma kid_parent_other:
  assumes "tree_inv A N root g" "N r = Some m" "\<not> nd_is_leaf m" "c \<in> kid_pages (nd_items m)"
  shows "\<exists>k. N c = Some k \<and> nd_parent k = r"
  using kid_ok [OF node_okD(5) [OF tree_invD(2) [OF assms(1,2)] assms(3)] assms(4)] by metis

lemma split_frame:
  assumes pre: "split_pre A N root g p n j q n1 n2" and r: "r \<noteq> p" "r \<noteq> q" "N r = Some m"
  shows "node_ok A (split_nodes N p n1 q n2) (split_shape p q b g) r m"
proof (rule node_ok_frame [OF tree_invD(2) [OF split_preD(1) [OF pre] r(3)]])
  note d = split_preD [OF pre]
  let ?g = "split_shape p q b g" and ?N = "split_nodes N p n1 q n2"
  show "sh_lo ?g r = sh_lo g r" "sh_hi ?g r = sh_hi g r" "sh_lvl ?g r = sh_lvl g r" using r by (simp_all add: split_shape_def)
  fix c k
  assume "ChildPage c \<in> snd ` set (nd_items m)" "N c = Some k" "nd_parent k = r"
  moreover from this have "c \<noteq> q" using d(3) by auto
  moreover have "c \<notin> kid_pages (nd_items n2)"
  proof
    assume "c \<in> kid_pages (nd_items n2)"
    then have "c \<in> kid_pages (nd_items n)" using kid_pages_split [of "nd_items n" j] d(10) by auto
    then show False using split_kids(1) [OF pre, of c] \<open>N c = Some k\<close> \<open>nd_parent k = r\<close> r(1) by auto
  qed
  ultimately show "\<exists>m'. ?N c = Some m' \<and> nd_parent m' = r \<and> sh_lo ?g c = sh_lo g c \<and> span_hi ?g c = span_hi g c \<and> sh_lvl ?g c = sh_lvl g c"
    using d(2,13) split_span [OF pre, of c b] by (auto simp: split_shape_def)
next
  note d = split_preD [OF pre]
  let ?g = "split_shape p q b g" and ?N = "split_nodes N p n1 q n2"
  fix k assume "N (nd_next_brother m) = Some k" "nd_is_leaf k"
  moreover from this have "nd_next_brother m \<noteq> q" using d(3) by auto
  ultimately show "\<exists>m'. ?N (nd_next_brother m) = Some m' \<and> nd_is_leaf m' \<and> sh_lo ?g (nd_next_brother m) = sh_lo g (nd_next_brother m)"
    using d(2,11) by (auto simp: split_shape_def reparent_def)
qed

lemma split_self:
  assumes "split_pre A N root g p n j q n1 n2"
  shows "split_nodes N p n1 q n2 p = Some n1" "split_nodes N p n1 q n2 q = Some n2"
proof -
  note d = split_preD [OF assms]
  have "p \<notin> kid_pages (nd_items n2)" "q \<notin> kid_pages (nd_items n2)"
    using split_kids(2,3) [OF assms] d(10) kid_pages_split [of "nd_items n" j] by auto
  then show "split_nodes N p n1 q n2 p = Some n1" "split_nodes N p n1 q n2 q = Some n2" using d(16) by simp_all
qed

lemma split_leaf_nodes:
  assumes pre: "split_pre A N root g p n j q n1 n2" and leaf: "nd_is_leaf n" and b: "b = item_bound A (nd_items n ! j)"
  shows "node_ok A (split_nodes N p n1 q n2) (split_shape p q b g) p n1"
    "node_ok A (split_nodes N p n1 q n2) (split_shape p q b g) q n2"
proof -
  note d = split_preD [OF pre]
  let ?N = "split_nodes N p n1 q n2" and ?g = "split_shape p q b g" and ?xs = "nd_items n"
  have ok: "node_ok A N g p n" and l: "leaf_ok A N g p n" using tree_invD(2) [OF d(1,2)] node_okD(4) leaf by blast+
  have s: "sorted_wrt (<) (map (item_bound A) ?xs)" using l by (simp add: leaf_ok_def)
  have sub: "set (take j ?xs) \<subseteq> set ?xs" "set (drop j ?xs) \<subseteq> set ?xs" by (simp_all add: set_take_subset set_drop_subset)
  have xj: "?xs ! j \<in> set ?xs" "?xs ! 0 \<in> set ?xs" using d(7,8) by (auto intro!: nth_mem)
  have b0: "sh_lo g p < b" "b < sh_hi g p"
  proof -
    have "0 < nd_size n" using d(8) by linarith
    then have "item_bound A (?xs ! 0) < b" using sorted_wrt_nth_less [OF s d(7)] d(8) b by (metis length_map nth_map)
    moreover have "sh_lo g p \<le> item_bound A (?xs ! 0)" "b < sh_hi g p" using l xj b by (auto simp: leaf_ok_def)
    ultimately show "sh_lo g p < b" "b < sh_hi g p" by auto
  qed
  have lt: "item_bound A x < b" if "x \<in> set (take j ?xs)" for x
    using that sorted_wrt_nth_less [OF s, of _ j] d(8) b by (auto simp: in_set_conv_nth)
  have ge: "b \<le> item_bound A x" if "x \<in> set (drop j ?xs)" for x
    using that sorted_nth_mono [OF s, of j] d(8) b by (auto simp: in_set_conv_nth)
  have sorted: "sorted_wrt (<) (map (item_bound A) (take j ?xs))" "sorted_wrt (<) (map (item_bound A) (drop j ?xs))"
    using s by (simp_all add: take_map [symmetric] drop_map [symmetric] sorted_wrt_take sorted_wrt_drop)
  have "leaf_ok A ?N ?g p n1"
    using l sorted lt sub b0 d(9,14) leaf d(16) split_self(2) [OF pre] d(12) b
    by (fastforce simp: leaf_ok_def split_shape_def)
  then show "node_ok A ?N ?g p n1"
    using ok leaf d(9,11,16) sub b0 by (auto simp: node_ok_def split_shape_def)
  have "sh_hi g p = MaxB \<or> (\<exists>m. ?N (nd_next_brother n) = Some m \<and> nd_is_leaf m \<and> sh_lo ?g (nd_next_brother n) = sh_hi g p)"
  proof (cases "sh_hi g p = MaxB")
    case False
    then obtain m where m: "N (nd_next_brother n) = Some m" "nd_is_leaf m" "sh_lo g (nd_next_brother n) = sh_hi g p"
      using l by (auto simp: leaf_ok_def)
    then have "nd_next_brother n \<noteq> q" using d(3) by auto
    moreover from this have "\<exists>m'. ?N (nd_next_brother n) = Some m' \<and> nd_is_leaf m'"
      using m(1,2) leaf d(11) by (auto simp: reparent_def)
    ultimately show ?thesis using m by (auto simp: split_shape_def)
  qed simp
  then have "leaf_ok A ?N ?g q n2"
    using l sorted ge sub d(10,15) leaf d(16) by (auto simp: leaf_ok_def split_shape_def)
  then show "node_ok A ?N ?g q n2"
    using ok leaf d(4,10,12,16) sub b0 by (auto simp: node_ok_def split_shape_def)
qed

lemma child_bounds_split:
  assumes pre: "split_pre A N root g p n j q n1 n2" and b: "b = item_bound A (nd_items n ! j)"
  shows "child_bounds A (split_shape p q b g) p n1 = take (Suc j) (child_bounds A g p n)"
    "child_bounds A (split_shape p q b g) q n2 = drop j (child_bounds A g p n)"
proof -
  note d = split_preD [OF pre]
  obtain x xs where xs: "nd_items n = x # xs" using d(8) by (cases "nd_items n") auto
  obtain i where i: "j = Suc i" "i < length xs" using d(7,8) xs by (cases j) auto
  have "take (Suc i) xs = take i xs @ [xs ! i]" "drop i xs = xs ! i # drop (Suc i) xs"
    using i by (simp_all add: take_Suc_conv_app_nth Cons_nth_drop_Suc)
  then show "child_bounds A (split_shape p q b g) p n1 = take (Suc j) (child_bounds A g p n)"
    "child_bounds A (split_shape p q b g) q n2 = drop j (child_bounds A g p n)"
    using d(9,10,16) xs i b by (simp_all add: child_bounds_def split_shape_def take_map drop_map)
qed

lemma split_child_ok:
  assumes pre: "split_pre A N root g p n j q n1 n2" and c: "snd x = ChildPage c" "child_ok N g p bs i x" "c \<in> kid_pages (nd_items n)"
    and r: "r = (if c \<in> kid_pages (nd_items n2) then q else p)" "bs' ! i' = bs ! i" "bs' ! Suc i' = bs ! Suc i"
  shows "child_ok (split_nodes N p n1 q n2) (split_shape p q b g) r bs' i' x"
proof -
  have k: "c \<noteq> p" "c \<noteq> q" "sh_lvl g p = Suc (sh_lvl g c)" using split_kids [OF pre c(3)] by auto
  obtain m where m: "N c = Some m" "nd_parent m = p" using child_okD(1) [OF c(2,1)] by auto
  have "\<exists>m'. split_nodes N p n1 q n2 c = Some m' \<and> nd_parent m' = r"
    using m k r(1) by (simp add: reparent_def)
  moreover have "sh_lvl (split_shape p q b g) r = Suc (sh_lvl (split_shape p q b g) c)" "sh_lo (split_shape p q b g) c = sh_lo g c"
    using k r(1) split_preD(16) [OF pre] by (auto simp: split_shape_def)
  ultimately show ?thesis
    using c(1) child_okD(3,4) [OF c(2,1)] r(2,3) split_span [OF pre k(2), of b] by (auto simp: child_ok_def)
qed

lemma split_internal_nodes:
  assumes pre: "split_pre A N root g p n j q n1 n2" and nl: "\<not> nd_is_leaf n" and b: "b = item_bound A (nd_items n ! j)"
  shows "node_ok A (split_nodes N p n1 q n2) (split_shape p q b g) p n1"
    "node_ok A (split_nodes N p n1 q n2) (split_shape p q b g) q n2"
proof -
  note d = split_preD [OF pre] and cb = child_bounds_split [OF pre b]
  let ?N = "split_nodes N p n1 q n2" and ?g = "split_shape p q b g" and ?xs = "nd_items n" and ?bs = "child_bounds A g p n"
  have ok: "node_ok A N g p n" and io: "internal_ok A N g p n" using tree_invD(2) [OF d(1,2)] node_okD(5) nl by blast+
  have ne: "?xs \<noteq> []" using internal_okD(1) [OF io] .
  have s: "sorted_wrt (<) ?bs" using internal_okD(3) [OF io] .
  have lb: "length ?bs = Suc (nd_size n)" using length_child_bounds [OF ne] .
  have bj: "?bs ! j = b" using child_bounds_nth [of j n A g p] ne d(7,8) b by simp
  have b0: "sh_lo g p < b" "b < sh_hi g p"
    using child_bounds_nth [of 0 n A g p] child_bounds_nth [of "nd_size n" n A g p] ne bj d(7,8) lb
      sorted_wrt_nth_less [OF s, of 0 j] sorted_wrt_nth_less [OF s, of j "nd_size n"] by auto
  have sub: "set (take j ?xs) \<subseteq> set ?xs" "set (drop j ?xs) \<subseteq> set ?xs" by (simp_all add: set_take_subset set_drop_subset)
  have child: "\<exists>c. snd (?xs ! i) = ChildPage c \<and> c \<in> kid_pages ?xs \<and> (c \<in> kid_pages (nd_items n2) \<longleftrightarrow> j \<le> i)" if i: "i < nd_size n" for i
  proof -
    obtain c where c: "snd (?xs ! i) = ChildPage c" using internal_okD(4) [OF io i] by (auto simp: child_ok_def)
    have "c \<in> kid_pages (nd_items n2) \<longleftrightarrow> (\<exists>k. j \<le> k \<and> k < nd_size n \<and> snd (?xs ! k) = ChildPage c)"
    proof -
      have "c \<in> kid_pages (drop j ?xs) \<longleftrightarrow> (\<exists>k<nd_size n - j. snd (?xs ! (j + k)) = ChildPage c)"
        using d(8) by (simp add: kid_pages_nth)
      also have "\<dots> \<longleftrightarrow> (\<exists>k. j \<le> k \<and> k < nd_size n \<and> snd (?xs ! k) = ChildPage c)"
        by (metis add.commute le_Suc_ex le_add1 less_diff_conv)
      finally show ?thesis by (simp add: d(10))
    qed
    then have "c \<in> kid_pages (nd_items n2) \<longleftrightarrow> j \<le> i" using child_index_unique [OF io i _ c] c i by blast
    moreover have "c \<in> kid_pages ?xs" using c i by (auto simp: kid_pages_def image_iff intro!: bexI [of _ "?xs ! i"])
    ultimately show ?thesis using c by blast
  qed
  have "child_ok ?N ?g p (take (Suc j) ?bs) i (nd_items n1 ! i)" if i: "i < nd_size n1" for i
  proof -
    have ij: "i < j" "i < nd_size n" using i d(8,9) by auto
    with child [of i] obtain c where c: "snd (?xs ! i) = ChildPage c" "c \<in> kid_pages ?xs" "c \<notin> kid_pages (nd_items n2)" by auto
    show ?thesis using split_child_ok [OF pre c(1) internal_okD(4) [OF io ij(2)] c(2), where r = p and i' = i and bs' = "take (Suc j) ?bs"] c ij d(9)
      by simp
  qed
  then have "internal_ok A ?N ?g p n1"
    using io s cb(1) ne d(7,9,16) by (auto simp: internal_ok_def sorted_wrt_take split_shape_def)
  then show "node_ok A ?N ?g p n1"
    using ok nl d(9,11,16) sub b0 by (auto simp: node_ok_def split_shape_def)
  have "child_ok ?N ?g q (drop j ?bs) i (nd_items n2 ! i)" if i: "i < nd_size n2" for i
  proof -
    have ij: "j + i < nd_size n" using i d(10) by auto
    with child [of "j + i"] obtain c where c: "snd (?xs ! (j + i)) = ChildPage c" "c \<in> kid_pages ?xs" "c \<in> kid_pages (nd_items n2)" by auto
    show ?thesis using split_child_ok [OF pre c(1) internal_okD(4) [OF io ij] c(2), where r = q and i' = i and bs' = "drop j ?bs"] c ij d(10) lb
      by simp
  qed
  then have "internal_ok A ?N ?g q n2"
    using s cb(2) d(8,10,16) b by (auto simp: internal_ok_def sorted_wrt_drop split_shape_def hd_drop_conv_nth)
  then show "node_ok A ?N ?g q n2"
    using ok nl d(4,10,12,16) sub b0 by (auto simp: node_ok_def split_shape_def)
qed

lemma split_parents:
  assumes pre: "split_pre A N root g p n j q n1 n2" and r: "split_nodes N p n1 q n2 r = Some m'" "r \<noteq> root" "r \<notin> ran (sh_pend g)" "r \<noteq> q"
  shows "is_child (split_nodes N p n1 q n2) (nd_parent m') r"
proof -
  note d = split_preD [OF pre] and ss = split_self [OF pre]
  let ?N = "split_nodes N p n1 q n2"
  have keep: "is_child ?N k c" if k: "is_child N k c" "k \<noteq> p" for k c
  proof -
    obtain nk where nk: "N k = Some nk" "\<not> nd_is_leaf nk" "c \<in> kid_pages (nd_items nk)" using k by (auto simp: is_child_kid)
    have "k \<noteq> q" using nk d(3) by auto
    then show ?thesis using nk k(2) reparent_node [of "N(p \<mapsto> n1, q \<mapsto> n2)" k nk q "nd_items n2"] by (auto simp: is_child_kid)
  qed
  show ?thesis
  proof (cases "r = p")
    case True
    have c: "is_child N (nd_parent n) p" using tree_invD(7) [OF d(1,2)] r True by simp
    have "nd_parent n \<noteq> p"
      using c kid_parent_other [OF d(1)] kid_ok [OF node_okD(5) [OF tree_invD(2) [OF d(1)]]] by (metis is_child_kid)
    then show ?thesis using keep [OF c] r(1) True ss(1) d(13) by simp
  next
    case False
    obtain m where m: "N r = Some m" "m' = (if r \<in> kid_pages (nd_items n2) then m\<lparr>nd_parent := q\<rparr> else m)"
      using reparent_Some [OF r(1)] False r(4) by (metis fun_upd_apply)
    have c: "is_child N (nd_parent m) r" using tree_invD(7) [OF d(1) m(1) r(2,3)] .
    show ?thesis
    proof (cases "r \<in> kid_pages (nd_items n2)")
      case True
      then show ?thesis using m split_kids(4) [OF pre, of r] kid_pages_split [of "nd_items n" j] ss(2) d(10,12) by (auto simp: is_child_kid)
    next
      case nk: False
      show ?thesis
      proof (cases "nd_parent m = p")
        case True
        then have "r \<in> kid_pages (nd_items n)" "\<not> nd_is_leaf n" using c d(2) by (auto simp: is_child_kid)
        then show ?thesis using True m nk ss(1) d(9,10,11) kid_pages_split [of "nd_items n" j] by (auto simp: is_child_kid)
      qed (use keep [OF c] m nk in simp)
    qed
  qed
qed

lemma split_is_child:
  assumes pre: "split_pre A N root g p n j q n1 n2" and c: "is_child (split_nodes N p n1 q n2) k c"
  shows "c \<noteq> q \<and> (\<exists>k'. is_child N k' c)"
proof -
  note d = split_preD [OF pre] and ss = split_self [OF pre]
  obtain nk where nk: "split_nodes N p n1 q n2 k = Some nk" "\<not> nd_is_leaf nk" "c \<in> kid_pages (nd_items nk)" using c by (auto simp: is_child_kid)
  show ?thesis
  proof (cases "k = p \<or> k = q")
    case True
    moreover have "kid_pages (nd_items n1) \<subseteq> kid_pages (nd_items n)" "kid_pages (nd_items n2) \<subseteq> kid_pages (nd_items n)"
      unfolding d(9,10) using kid_pages_split [of "nd_items n" j] by auto
    ultimately have "c \<in> kid_pages (nd_items n)" using nk(1,3) ss by auto
    then show ?thesis using split_kids(3,4) [OF pre, of c] d(2) by (auto simp: is_child_kid)
  next
    case False
    then obtain m where m: "N k = Some m" "nk = (if k \<in> kid_pages (nd_items n2) then m\<lparr>nd_parent := q\<rparr> else m)"
      using reparent_Some [OF nk(1)] by (metis fun_upd_apply)
    then have "nd_items nk = nd_items m" "nd_is_leaf nk = nd_is_leaf m" by auto
    with m(1) show ?thesis using kid_parent_other [OF d(1) m(1), of c] nk d(3) by (auto simp: is_child_kid)
  qed
qed

lemma split_inv:
  assumes pre: "split_pre A N root g p n j q n1 n2" and b: "b = item_bound A (nd_items n ! j)"
  shows "tree_inv A (split_nodes N p n1 q n2) root (split_shape p q b g)"
proof -
  note d = split_preD [OF pre] and ss = split_self [OF pre]
  let ?N = "split_nodes N p n1 q n2" and ?g = "split_shape p q b g"
  have ran: "ran (sh_pend ?g) = insert q (ran (sh_pend g))"
    using d(5) by (simp add: split_shape_def domIff)
  have nodes: "node_ok A ?N ?g r m" if r: "?N r = Some m" for r m
  proof (cases "r = p \<or> r = q")
    case True
    then show ?thesis using split_leaf_nodes [OF pre _ b] split_internal_nodes [OF pre _ b] ss r by (cases "nd_is_leaf n") auto
  next
    case False
    then obtain m0 where m0: "N r = Some m0" "m = (if r \<in> kid_pages (nd_items n2) then m0\<lparr>nd_parent := q\<rparr> else m0)"
      using reparent_Some [OF r] by (metis fun_upd_apply)
    then show ?thesis using split_frame [OF pre, of r m0 b] False by auto
  qed
  have fin: "finite (dom ?N)" using tree_invD(1) [OF d(1)] by simp
  obtain nr where nr: "N root = Some nr" "nd_parent nr = BP_INVALID_PAGE_NUM" using tree_invD(3) [OF d(1)] by auto
  have "root \<noteq> q" using nr d(3) by auto
  moreover have "root \<notin> kid_pages (nd_items n2)"
  proof
    assume "root \<in> kid_pages (nd_items n2)"
    then have "root \<in> kid_pages (nd_items n)" using d(10) kid_pages_split [of "nd_items n" j] by auto
    from split_kids(1) [OF pre this] have "p = BP_INVALID_PAGE_NUM" using nr by auto
    then show False using node_okD(1) [OF tree_invD(2) [OF d(1,2)]] by (simp add: BP_INVALID_PAGE_NUM_def)
  qed
  ultimately have root: "\<exists>m. ?N root = Some m \<and> nd_parent m = BP_INVALID_PAGE_NUM"
    using nr d(2,13) by (cases "root = p") auto
  have top: "sh_lo ?g root = MinB" "span_hi ?g root = MaxB" "root \<notin> ran (sh_pend ?g)"
    using tree_invD(4-6) [OF d(1)] \<open>root \<noteq> q\<close> split_span [OF pre] ran by (auto simp: split_shape_def)
  have pend: "?N r \<noteq> None \<and> ?N s \<noteq> None \<and> sh_lo ?g s = sh_hi ?g r \<and> sh_lvl ?g s = sh_lvl ?g r \<and> s \<notin> dom (sh_pend ?g) \<and> r \<notin> ran (sh_pend ?g)"
    if rs: "sh_pend ?g r = Some s" for r s
  proof (cases "r = p")
    case True
    then have "s = q" using rs by (simp add: split_shape_def)
    then show ?thesis using True ss ran d(6,16,17) by (auto simp: split_shape_def)
  next
    case False
    then have g: "sh_pend g r = Some s" using rs by (simp add: split_shape_def)
    note t = tree_invD(8) [OF d(1) g]
    have "s \<noteq> q" "r \<noteq> q" "s \<noteq> p" using t d(3,6) g by (auto simp: ran_def)
    moreover have "?N r \<noteq> None" "?N s \<noteq> None" using t by (auto simp: reparent_def)
    ultimately show ?thesis using t False ran by (simp add: split_shape_def domIff del: not_None_eq)
  qed
  have "inj_on (sh_pend ?g) (dom (sh_pend ?g))"
    using tree_invD(10) [OF d(1)] d(18) by (auto simp: split_shape_def inj_on_def ran_def)
  then show ?thesis
    unfolding tree_inv_def using fin nodes root top pend split_parents [OF pre] ran split_is_child [OF pre] tree_invD(9) [OF d(1)] by blast
qed

lemma split_entries:
  assumes "split_pre A N root g p n j q n1 n2"
  shows "entries (split_nodes N p n1 q n2) = entries N"
proof -
  note d = split_preD [OF assms]
  have "set (nd_items n) = set (nd_items n1) \<union> set (nd_items n2)" using d(9,10) by (metis append_take_drop_id set_append)
  then have "leaf_keys n2 \<union> leaf_keys n1 = leaf_keys n" using d(11,12) by (auto simp: leaf_keys_def)
  moreover have "N(q := None) = N" using d(3) by auto
  ultimately show ?thesis using entries_split [of N p n] d(2,16) by (simp add: fun_upd_twist Un_assoc [symmetric])
qed

section \<open>Attaching a node to its parent\<close>

lemma nth_insert_at:
  "j \<le> length xs \<Longrightarrow> insert_at j x xs ! t = (if t < j then xs ! t else if t = j then x else xs ! (t - 1))"
  by (auto simp: insert_at_def nth_append min_def nth_Cons')

lemma insert_at_Suc: "insert_at (Suc j) x (y # ys) = y # insert_at j x ys"
  by (simp add: insert_at_def)

lemma kid_pages_insert_at [simp]: "kid_pages (insert_at j x xs) = {c. snd x = ChildPage c} \<union> kid_pages xs"
  by (auto simp: kid_pages_def)

lemma ran_fun_upd_None:
  assumes "m p = Some q" "\<And>s. m s = Some q \<Longrightarrow> s = p"
  shows "ran (m(p := None)) = ran m - {q}"
proof (rule set_eqI)
  fix x
  have "x \<in> ran (m(p := None)) \<longleftrightarrow> (\<exists>s. s \<noteq> p \<and> m s = Some x)" by (auto simp: ran_def)
  also have "\<dots> \<longleftrightarrow> (\<exists>s. m s = Some x) \<and> x \<noteq> q" using assms(1) assms(2) by (metis option.inject)
  also have "\<dots> \<longleftrightarrow> x \<in> ran m - {q}" by (simp add: ran_def)
  finally show "x \<in> ran (m(p := None)) \<longleftrightarrow> x \<in> ran m - {q}" .
qed

definition attach_shape :: "PageNum \<Rightarrow> tree_shape \<Rightarrow> tree_shape" where
  "attach_shape p g = g\<lparr>sh_pend := (sh_pend g)(p := None)\<rparr>"

lemma attach_shape_simps [simp]: "sh_lo (attach_shape p g) = sh_lo g" "sh_hi (attach_shape p g) = sh_hi g"
  "sh_lvl (attach_shape p g) = sh_lvl g" "sh_pend (attach_shape p g) = (sh_pend g)(p := None)"
  by (simp_all add: attach_shape_def)

lemma attach_span: "span_hi (attach_shape p g) c = (if c = p then sh_hi g p else span_hi g c)"
  by (simp add: span_hi_def split: option.split)

definition attach_pre :: "attrs \<Rightarrow> nodes \<Rightarrow> PageNum \<Rightarrow> tree_shape \<Rightarrow> PageNum \<Rightarrow> PageNum \<Rightarrow> PageNum \<Rightarrow> IndexNode \<Rightarrow> nat \<Rightarrow> index_key \<Rightarrow> IndexNode \<Rightarrow> bool" where
  "attach_pre A N root g p q r m i k nq \<longleftrightarrow> tree_inv A N root g \<and> sh_pend g p = Some q \<and> N r = Some m \<and> \<not> nd_is_leaf m \<and>
     i < nd_size m \<and> snd (nd_items m ! i) = ChildPage p \<and> key_ok A k \<and> key_bound A k = sh_hi g p \<and> N q = Some nq"

abbreviation attach_node :: "nat \<Rightarrow> index_key \<Rightarrow> PageNum \<Rightarrow> IndexNode \<Rightarrow> IndexNode" where
  "attach_node i k q m \<equiv> m\<lparr>nd_items := insert_at (Suc i) (k, ChildPage q) (nd_items m)\<rparr>"

abbreviation attach_nodes :: "nodes \<Rightarrow> PageNum \<Rightarrow> IndexNode \<Rightarrow> nat \<Rightarrow> index_key \<Rightarrow> PageNum \<Rightarrow> IndexNode \<Rightarrow> nodes" where
  "attach_nodes N r m i k q nq \<equiv> N(r \<mapsto> attach_node i k q m, q \<mapsto> nq\<lparr>nd_parent := r\<rparr>)"

lemma attach_preD:
  assumes "attach_pre A N root g p q r m i k nq"
  shows "tree_inv A N root g" "sh_pend g p = Some q" "N r = Some m" "\<not> nd_is_leaf m" "i < nd_size m"
    "snd (nd_items m ! i) = ChildPage p" "key_ok A k" "key_bound A k = sh_hi g p" "N q = Some nq" "internal_ok A N g r m"
    "sh_lvl g r = Suc (sh_lvl g p)" "sh_lvl g q = sh_lvl g p" "r \<noteq> q" "p \<noteq> q" "sh_lo g q = sh_hi g p" "sh_pend g q = None"
proof -
  have a: "tree_inv A N root g" "sh_pend g p = Some q" "N r = Some m" "\<not> nd_is_leaf m" "i < nd_size m" "snd (nd_items m ! i) = ChildPage p"
    "key_ok A k" "key_bound A k = sh_hi g p" "N q = Some nq"
    using assms by (auto simp: attach_pre_def)
  have io: "internal_ok A N g r m" using node_okD(5) [OF tree_invD(2) [OF a(1,3)] a(4)] .
  have l: "sh_lvl g r = Suc (sh_lvl g p)" using child_okD(2) [OF internal_okD(4) [OF io a(5)] a(6)] .
  have q: "sh_lvl g q = sh_lvl g p" "sh_lo g q = sh_hi g p" "sh_pend g q = None" "p \<noteq> q" using tree_invD(8) [OF a(1,2)] a(2) by auto
  show "tree_inv A N root g" "sh_pend g p = Some q" "N r = Some m" "\<not> nd_is_leaf m" "i < nd_size m"
    "snd (nd_items m ! i) = ChildPage p" "key_ok A k" "key_bound A k = sh_hi g p" "N q = Some nq" "internal_ok A N g r m"
    "sh_lvl g r = Suc (sh_lvl g p)" "sh_lvl g q = sh_lvl g p" "r \<noteq> q" "p \<noteq> q" "sh_lo g q = sh_hi g p" "sh_pend g q = None"
    using a io l q by auto
qed

lemma attach_node_ok:
  assumes pre: "attach_pre A N root g p q r m i k nq"
  shows "node_ok A (attach_nodes N r m i k q nq) (attach_shape p g) r (attach_node i k q m)"
proof -
  note d = attach_preD [OF pre]
  let ?N = "attach_nodes N r m i k q nq" and ?g = "attach_shape p g" and ?m = "attach_node i k q m" and ?bs = "child_bounds A g r m"
  have ne: "nd_items m \<noteq> []" and s: "sorted_wrt (<) ?bs" using internal_okD [OF d(10)] by auto
  have lb: "length ?bs = Suc (nd_size m)" using length_child_bounds [OF ne] .
  obtain x xs where xs: "nd_items m = x # xs" using ne by (meson neq_Nil_conv)
  have cb: "child_bounds A ?g r ?m = insert_at (Suc i) (sh_hi g p) ?bs"
    using d(5,8) xs by (simp add: child_bounds_def insert_at_Suc item_bound_key [symmetric]) (simp add: insert_at_def item_bound_key take_map drop_map)
  have pc: "sh_lo g p = ?bs ! i" "span_hi g p = ?bs ! Suc i" using child_okD(3,4) [OF internal_okD(4) [OF d(10,5)] d(6)] by auto
  obtain np where "N p = Some np" using tree_invD(8) [OF d(1,2)] by auto
  then have hq: "sh_lo g p < sh_hi g p" "sh_hi g p < sh_hi g q" "span_hi g p = sh_hi g q"
    using node_okD(2) [OF tree_invD(2) [OF d(1)]] node_okD(2) [OF tree_invD(2) [OF d(1,9)]] d(2,15) by (simp_all add: span_hi_def)
  have le: "?bs ! t \<le> sh_lo g p" if "t \<le> i" for t using sorted_nth_mono [OF s that] d(5) lb pc(1) by simp
  have ge: "sh_hi g q \<le> ?bs ! t" if "Suc i \<le> t" "t \<le> nd_size m" for t
    using sorted_nth_mono [OF s that(1)] that(2) lb pc(2) hq(3) by simp
  have sorted: "sorted_wrt (<) (insert_at (Suc i) (sh_hi g p) ?bs)"
  proof -
    have "sorted_wrt (<) (map id (take (Suc i) ?bs @ sh_hi g p # drop (Suc i) ?bs))"
    proof (rule sorted_insert_at)
      show "id (?bs ! t) < id (sh_hi g p)" if "t < Suc i" for t using le [of t] that hq(1) by simp
      show "id (sh_hi g p) < id (?bs ! t)" if "Suc i \<le> t" "t < length ?bs" for t using ge [of t] that hq(2) lb by simp
    qed (use s lb d(5) in simp_all)
    then show ?thesis by (simp add: insert_at_def)
  qed
  have kid: "child_ok ?N ?g r (insert_at (Suc i) (sh_hi g p) ?bs) t (nd_items ?m ! t)" if t: "t < nd_size ?m" for t
  proof (cases "t = Suc i")
    case True
    then show ?thesis
      using d(5,11,12,15,16) lb pc(2) hq(3) d(14) by (simp add: child_ok_def nth_insert_at attach_span span_hi_def)
  next
    case False
    define u where "u = (if t < Suc i then t else t - 1)"
    have u: "u < nd_size m" "nd_items ?m ! t = nd_items m ! u" using t False d(5) by (auto simp: u_def nth_insert_at)
    obtain c mc where c: "snd (nd_items m ! u) = ChildPage c" "N c = Some mc" "nd_parent mc = r" "sh_lvl g r = Suc (sh_lvl g c)"
      "sh_lo g c = ?bs ! u" "span_hi g c = ?bs ! Suc u"
      using internal_okD(4) [OF d(10) u(1)] by (auto simp: child_ok_def)
    have "c \<noteq> r" using c(4) by auto
    moreover have "c \<noteq> q" using tree_invD(9) [OF d(1), of q r] d(2,3,4) c(1) u(1) by (auto simp: is_child_nth ran_def)
    moreover have "c = p \<longleftrightarrow> u = i" using child_index_unique [OF d(10) u(1) d(5) c(1)] d(6) c(1) by auto
    moreover have "insert_at (Suc i) (sh_hi g p) ?bs ! t = ?bs ! u" using False lb d(5) by (simp add: nth_insert_at u_def)
    moreover have "insert_at (Suc i) (sh_hi g p) ?bs ! Suc t = (if u = i then sh_hi g p else ?bs ! Suc u)"
      using False lb d(5) by (cases t) (auto simp: nth_insert_at u_def)
    ultimately show ?thesis
      using c unfolding u(2) by (simp add: child_ok_def attach_span)
  qed
  have "internal_ok A ?N ?g r ?m"
    using kid sorted internal_okD(2) [OF d(10)] xs unfolding internal_ok_def cb by (simp add: insert_at_Suc)
  then show ?thesis
    using tree_invD(2) [OF d(1,3)] d(4,7) by (auto simp: node_ok_def)
qed

lemma attach_inv:
  assumes pre: "attach_pre A N root g p q r m i k nq"
  shows "tree_inv A (attach_nodes N r m i k q nq) root (attach_shape p g)"
proof -
  note d = attach_preD [OF pre]
  let ?N = "attach_nodes N r m i k q nq" and ?g = "attach_shape p g"
  have frame: "node_ok A ?N ?g s n" if sn: "N s = Some n" "s \<noteq> r" for s n
  proof (rule node_ok_frame [OF tree_invD(2) [OF d(1) sn(1)]])
    fix c k'
    assume c: "\<not> nd_is_leaf n" "ChildPage c \<in> snd ` set (nd_items n)" "N c = Some k'" "nd_parent k' = s"
    have "c \<noteq> q" using tree_invD(9) [OF d(1), of q s] d(2) sn c(1,2) by (auto simp: is_child_def ran_def)
    moreover have "c \<noteq> p" using child_okD(1) [OF internal_okD(4) [OF d(10,5)] d(6)] c(3,4) sn(2) by auto
    ultimately show "\<exists>m'. ?N c = Some m' \<and> nd_parent m' = s \<and> sh_lo ?g c = sh_lo g c \<and> span_hi ?g c = span_hi g c \<and> sh_lvl ?g c = sh_lvl g c"
      using c(3,4) d(3) by (auto simp: attach_span)
  qed (use d(3,9,4) in auto)
  have nodes: "node_ok A ?N ?g s n" if sn: "?N s = Some n" for s n
  proof (cases "s = q")
    case True then show ?thesis using frame [OF d(9)] d(13) sn by auto
  next
    case False then show ?thesis using attach_node_ok [OF pre] frame [of s n] sn by (auto split: if_splits)
  qed
  have child: "is_child ?N s c \<longleftrightarrow> is_child N s c \<or> (s = r \<and> c = q)" for s c
    using d(3,4,9,13) by (auto simp: is_child_kid)
  have uniq: "s = p" if "sh_pend g s = Some q" for s
    using inj_onD [OF tree_invD(10) [OF d(1)], of s p] d(2) that by auto
  have ran: "ran (sh_pend ?g) = ran (sh_pend g) - {q}"
    unfolding attach_shape_simps by (rule ran_fun_upd_None) (rule d(2), rule uniq)
  have par: "is_child ?N (nd_parent n) s" if sn: "?N s = Some n" "s \<noteq> root" "s \<notin> ran (sh_pend ?g)" for s n
  proof (cases "s = q")
    case True then show ?thesis using sn(1) child by auto
  next
    case False
    have np: "s \<notin> ran (sh_pend g)" using sn(3) ran False by blast
    have "is_child N (nd_parent n) s"
    proof (cases "s = r")
      case True then show ?thesis using tree_invD(7) [OF d(1,3)] sn(1,2) np False by auto
    next
      case nr: False then show ?thesis using tree_invD(7) [OF d(1) _ sn(2) np] sn(1) False by simp
    qed
    then show ?thesis using child by blast
  qed
  have "p \<noteq> root"
    using child_okD(1) [OF internal_okD(4) [OF d(10,5)] d(6)] tree_invD(3) [OF d(1)] node_okD(1) [OF tree_invD(2) [OF d(1,3)]]
    by (auto simp: BP_INVALID_PAGE_NUM_def)
  then have top: "span_hi ?g root = MaxB" "\<exists>n. ?N root = Some n \<and> nd_parent n = BP_INVALID_PAGE_NUM"
    using tree_invD(3,5,6) [OF d(1)] d(2,3) by (auto simp: attach_span ran_def)
  have inj: "inj_on (sh_pend ?g) (dom (sh_pend ?g))" using tree_invD(10) [OF d(1)] by (auto simp: inj_on_def)
  have pend: "?N s \<noteq> None \<and> ?N u \<noteq> None \<and> sh_lo ?g u = sh_hi ?g s \<and> sh_lvl ?g u = sh_lvl ?g s \<and> u \<notin> dom (sh_pend ?g) \<and> s \<notin> ran (sh_pend ?g)"
    if "sh_pend ?g s = Some u" for s u
  proof -
    have g: "sh_pend g s = Some u" "s \<noteq> p" using that by (auto split: if_splits)
    note w = tree_invD(8) [OF d(1) g(1)]
    have "?N s \<noteq> None" "?N u \<noteq> None" using w by auto
    moreover have "s \<notin> ran (sh_pend ?g)" "u \<notin> dom (sh_pend ?g)" using w ran by auto
    ultimately show ?thesis using w by simp
  qed
  have nk: "\<not> is_child ?N s u" if "u \<in> ran (sh_pend ?g)" for s u
    using tree_invD(9) [OF d(1)] that ran child by auto
  show ?thesis
  proof (rule tree_invI)
    show "finite (dom ?N)" "sh_lo ?g root = MinB" "root \<notin> ran (sh_pend ?g)" using tree_invD(1,4,6) [OF d(1)] ran by auto
  qed (fact nodes top par pend nk inj)+
qed

lemma attach_entries:
  assumes pre: "attach_pre A N root g p q r m i k nq"
  shows "entries (attach_nodes N r m i k q nq) = entries N"
proof -
  note d = attach_preD [OF pre]
  have "leaf_keys (attach_node i k q m) = leaf_keys m" "leaf_keys (nq\<lparr>nd_parent := r\<rparr>) = leaf_keys nq"
    using d(4) by (auto simp: leaf_keys_def)
  then show ?thesis using entries_split [of N r m] entries_split [of "N(r := None)" q nq] d(3,9,13)
    by (simp add: fun_upd_twist Un_left_commute)
qed

section \<open>A new root\<close>

definition root_shape :: "PageNum \<Rightarrow> PageNum \<Rightarrow> tree_shape \<Rightarrow> tree_shape" where
  "root_shape root r g = \<lparr>sh_lo = (sh_lo g)(r := MinB), sh_hi = (sh_hi g)(r := MaxB),
     sh_lvl = (sh_lvl g)(r := Suc (sh_lvl g root)), sh_pend = Map.empty\<rparr>"

lemma root_shape_simps [simp]: "sh_lo (root_shape root r g) = (sh_lo g)(r := MinB)" "sh_hi (root_shape root r g) = (sh_hi g)(r := MaxB)"
  "sh_lvl (root_shape root r g) = (sh_lvl g)(r := Suc (sh_lvl g root))" "sh_pend (root_shape root r g) = Map.empty"
  "span_hi (root_shape root r g) = (sh_hi g)(r := MaxB)"
  by (auto simp: root_shape_def span_hi_def)

lemma new_root_inv:
  assumes inv: "tree_inv A N root g" and pend: "sh_pend g = [root \<mapsto> q]" and N: "N root = Some n" "N q = Some nq" "N r = None" "2 \<le> r"
    and keys: "key_ok A z" "key_ok A k" "key_bound A k = sh_hi g root"
    and m: "\<not> nd_is_leaf m" "nd_parent m = BP_INVALID_PAGE_NUM" "nd_items m = [(z, ChildPage root), (k, ChildPage q)]"
    and N': "N' = N(r \<mapsto> m, root \<mapsto> n\<lparr>nd_parent := r\<rparr>, q \<mapsto> nq\<lparr>nd_parent := r\<rparr>)"
  shows "tree_inv A N' r (root_shape root r g) \<and> entries N' = entries N"
proof
  let ?g = "root_shape root r g"
  have q: "sh_lo g q = sh_hi g root" "sh_lvl g q = sh_lvl g root" "q \<noteq> root" "r \<noteq> root" "r \<noteq> q"
    using tree_invD(8) [OF inv, of root q] pend N by auto
  have hq: "sh_hi g q = MaxB" using tree_invD(5) [OF inv] pend by (simp add: span_hi_def)
  have root: "sh_lo g root = MinB" "nd_parent n = BP_INVALID_PAGE_NUM" using tree_invD(3,4) [OF inv] N(1) by auto
  have kids: "c \<noteq> root \<and> c \<noteq> q \<and> c \<noteq> r" if c: "is_child N s c" for s c
  proof -
    obtain ns where ns: "N s = Some ns" "\<not> nd_is_leaf ns" "c \<in> kid_pages (nd_items ns)" using c by (auto simp: is_child_kid)
    obtain k where k: "N c = Some k" "nd_parent k = s" using kid_parent_other [OF inv ns] by auto
    have "2 \<le> s" using node_okD(1) [OF tree_invD(2) [OF inv ns(1)]] .
    then show ?thesis using k N root tree_invD(9) [OF inv, of q s] c pend by (auto simp: BP_INVALID_PAGE_NUM_def)
  qed
  have frame: "node_ok A N' ?g s ns" if s: "N s = Some ns" for s ns
  proof (rule node_ok_frame [OF tree_invD(2) [OF inv s]])
    have "s \<noteq> r" using s N(3) by auto
    then show "sh_lo ?g s = sh_lo g s" "sh_hi ?g s = sh_hi g s" "sh_lvl ?g s = sh_lvl g s" by simp_all
    fix c k assume c: "\<not> nd_is_leaf ns" "ChildPage c \<in> snd ` set (nd_items ns)" "N c = Some k" "nd_parent k = s"
    then have "is_child N s c" using s by (auto simp: is_child_def)
    note kids [OF this]
    then show "\<exists>m'. N' c = Some m' \<and> nd_parent m' = s \<and> sh_lo ?g c = sh_lo g c \<and> span_hi ?g c = span_hi g c \<and> sh_lvl ?g c = sh_lvl g c"
      using c(3,4) N' pend by (simp add: span_hi_def)
  qed (use N N' in \<open>auto simp: domIff\<close>)
  have hr: "MinB < sh_hi g root" "sh_hi g root < MaxB"
    using item_bound_simps(7) [of A k] item_bound_simps(8) [of A k] keys(3) by simp_all
  have new: "node_ok A N' ?g r m"
    using hr m keys N(4) q hq root N' by (auto simp: node_ok_def internal_ok_def child_bounds_def child_ok_def less_Suc_eq item_bound_key)
  have child: "is_child N' s c \<longleftrightarrow> is_child N s c \<or> (s = r \<and> c \<in> {root, q})" for s c
    unfolding is_child_kid using N m q by (auto simp: N')
  show "tree_inv A N' r ?g"
  proof (rule tree_invI)
    show "finite (dom N')" using tree_invD(1) [OF inv] N' by simp
    show "node_ok A N' ?g s ns" if s: "N' s = Some ns" for s ns
      using s N' new frame N(1,2) q by (auto split: if_splits)
    show "is_child N' (nd_parent ns) s" if s: "N' s = Some ns" "s \<noteq> r" for s ns
      using s N' tree_invD(7) [OF inv, of s ns] pend unfolding child by (auto split: if_splits)
  qed (use N' m q in auto)
  have "leaf_keys (n\<lparr>nd_parent := r\<rparr>) = leaf_keys n" "leaf_keys (nq\<lparr>nd_parent := r\<rparr>) = leaf_keys nq" "leaf_keys m = {}"
    using m by (auto simp: leaf_keys_def)
  moreover have "N(q := None, r := None, root := None) = N(q := None, root := None)" using N(3) by auto
  ultimately show "entries N' = entries N"
    using entries_split [of N root n] entries_split [of "N(root := None)" q nq] N q unfolding N'
    by (simp add: fun_upd_twist Un_left_commute)
qed

end
