(* ===== verification/BplusOps.thy ===== *)
theory BplusOps
  imports BplusShape
begin

text \<open>
  What the operations of the B+-tree do to its pages, when the buffer pool's calls succeed. A state is
  in order when every pin and latch belongs to an item of the memo; each lemma says that an operation
  returns, keeps this, and changes the map of nodes as given. The proofs about the tree's shape then
  only look at that map.
\<close>

section \<open>States in order\<close>

definition held :: "LatchMemoItem list \<Rightarrow> lock_target \<Rightarrow> int" where
  "held xs t = int (length (filter (\<lambda>x. x = SHARED t \<or> x = EXCLUSIVE t) xs))"

definition pinned :: "LatchMemoItem list \<Rightarrow> PageNum \<Rightarrow> int" where
  "pinned xs p = int (count_list xs (PIN p))"

text \<open>\<open>bp\<close> and \<open>bl\<close> are the pins and locks taken outside the memo.\<close>

definition env_ok :: "(PageNum \<Rightarrow> int) \<Rightarrow> (lock_target \<Rightarrow> int) \<Rightarrow> BplusTreeHandler \<Rightarrow> bool" where
  "env_ok bp bl st \<longleftrightarrow> bt_faults st = [] \<and> 2 \<le> bt_page_count st \<and>
     (\<forall>p\<in>dom (bt_nodes st). 2 \<le> p \<and> p < int (bt_page_count st)) \<and>
     (\<forall>p. bt_pins st p = bp p + pinned (mx_items (bt_mtr st)) p) \<and>
     (\<forall>t. bt_locks st t = bl t + held (mx_items (bt_mtr st)) t) \<and> (\<forall>p. 0 \<le> bp p) \<and> (\<forall>t. 0 \<le> bl t) \<and>
     (\<forall>p. PIN p \<in> set (mx_items (bt_mtr st)) \<longrightarrow> page_exists p st) \<and> (\<forall>p. bp p \<noteq> 0 \<longrightarrow> page_exists p st)"

definition step_ok :: "(PageNum \<Rightarrow> int) \<Rightarrow> (lock_target \<Rightarrow> int) \<Rightarrow> nat \<Rightarrow> BplusTreeHandler \<Rightarrow> nodes \<Rightarrow> BplusTreeHandler \<Rightarrow> bool" where
  "step_ok bp bl k st N st' \<longleftrightarrow> env_ok bp bl st' \<and> bt_nodes st' = N \<and> bt_header st' = bt_header st \<and>
     bt_page_count st' \<le> bt_page_count st + k \<and> bt_max_pages st' = bt_max_pages st \<and>
     mx_disposed (bt_mtr st') = mx_disposed (bt_mtr st)"

lemma step_okD:
  assumes "step_ok bp bl k st N st'"
  shows "env_ok bp bl st'" "bt_nodes st' = N" "bt_header st' = bt_header st" "bt_page_count st' \<le> bt_page_count st + k"
    "bt_max_pages st' = bt_max_pages st" "mx_disposed (bt_mtr st') = mx_disposed (bt_mtr st)"
  using assms by (simp_all add: step_ok_def)

lemma step_ok_trans: "step_ok bp bl k st N st1 \<Longrightarrow> step_ok bp' bl' k' st1 N' st2 \<Longrightarrow> step_ok bp' bl' (k + k') st N' st2"
  by (simp add: step_ok_def)

lemma step_ok_trans0: "step_ok bp bl k st N st1 \<Longrightarrow> step_ok bp' bl' 0 st1 N' st2 \<Longrightarrow> step_ok bp' bl' k st N' st2"
  by (simp add: step_ok_def)

lemma pinned_simps [simp]: "pinned (xs @ ys) p = pinned xs p + pinned ys p" "pinned [] p = 0" "pinned (x # xs) p = (if x = PIN p then 1 else 0) + pinned xs p"
  "0 \<le> pinned xs p"
  by (auto simp: pinned_def)

lemma held_simps [simp]: "held (xs @ ys) t = held xs t + held ys t" "held [] t = 0"
  "held (x # xs) t = (if x = SHARED t \<or> x = EXCLUSIVE t then 1 else 0) + held xs t" "0 \<le> held xs t"
  by (auto simp: held_def)

lemma env_okD:
  assumes "env_ok bp bl st"
  shows "bt_faults st = []" "2 \<le> bt_page_count st" "bt_nodes st p = Some n \<Longrightarrow> 2 \<le> p \<and> p < int (bt_page_count st)"
    "bt_pins st p = bp p + pinned (mx_items (bt_mtr st)) p" "bt_locks st t = bl t + held (mx_items (bt_mtr st)) t" "0 \<le> bp p" "0 \<le> bl t"
  using assms by (auto simp: env_ok_def)

lemma env_ok_existsD:
  assumes "env_ok bp bl st"
  shows "PIN p \<in> set (mx_items (bt_mtr st)) \<Longrightarrow> page_exists p st" "bp p \<noteq> 0 \<Longrightarrow> page_exists p st"
  using assms by (auto simp: env_ok_def)

lemma env_okI:
  assumes "bt_faults st = []" "2 \<le> bt_page_count st" "\<And>p n. bt_nodes st p = Some n \<Longrightarrow> 2 \<le> p \<and> p < int (bt_page_count st)"
    "\<And>p. bt_pins st p = bp p + pinned (mx_items (bt_mtr st)) p" "\<And>t. bt_locks st t = bl t + held (mx_items (bt_mtr st)) t"
    "\<And>p. 0 \<le> bp p" "\<And>t. 0 \<le> bl t" "\<And>p. PIN p \<in> set (mx_items (bt_mtr st)) \<Longrightarrow> page_exists p st" "\<And>p. bp p \<noteq> 0 \<Longrightarrow> page_exists p st"
  shows "env_ok bp bl st"
  using assms unfolding env_ok_def by blast

lemma pinned_pos: "0 < pinned xs p \<longleftrightarrow> PIN p \<in> set xs"
  by (induction xs) (auto simp: add_pos_nonneg)

section \<open>Pages and latches\<close>

lemma get_page_ok:
  assumes "env_ok bp bl st" "page_exists p st"
  shows "\<exists>st'. get_page p st = Some (SUCCESS, st') \<and> step_ok bp bl 0 st (bt_nodes st) st' \<and>
     mx_items (bt_mtr st') = mx_items (bt_mtr st) @ [PIN p]"
  using assms by (auto simp: get_page_def pool_pin_def pool_outcome_def memo_push_def step_ok_def env_ok_def page_exists_def)

lemma latch_ok:
  assumes "env_ok bp bl st" "t = RootLock \<Longrightarrow> bt_locks st t = 0"
  shows "\<exists>st'. memo_xlatch t st = Some st' \<and> step_ok bp bl 0 st (bt_nodes st) st' \<and> mx_items (bt_mtr st') = mx_items (bt_mtr st) @ [EXCLUSIVE t]"
    "\<exists>st'. memo_slatch t st = Some st' \<and> step_ok bp bl 0 st (bt_nodes st) st' \<and> mx_items (bt_mtr st') = mx_items (bt_mtr st) @ [SHARED t]"
  using assms by (auto simp: memo_xlatch_def memo_slatch_def take_lock_def memo_push_def step_ok_def env_ok_def page_exists_def)

lemma release_item_ok:
  assumes "\<forall>p. pinned [x] p \<le> bt_pins st p" "\<forall>t. held [x] t \<le> bt_locks st t"
  shows "release_item x st = Some (st\<lparr>bt_pins := \<lambda>p. bt_pins st p - pinned [x] p, bt_locks := \<lambda>t. bt_locks st t - held [x] t\<rparr>)"
proof (cases x)
  case (PIN p)
  then have "0 < bt_pins st p" using assms(1) [THEN spec, of p] by simp
  then show ?thesis using PIN by (auto simp: release_item_def pool_unpin_def fun_upd_def fun_eq_iff)
next
  case (SHARED t)
  then have "0 < bt_locks st t" using assms(2) [THEN spec, of t] by simp
  then show ?thesis using SHARED by (auto simp: release_item_def drop_lock_def fun_upd_def fun_eq_iff)
next
  case (EXCLUSIVE t)
  then have "0 < bt_locks st t" using assms(2) [THEN spec, of t] by simp
  then show ?thesis using EXCLUSIVE by (auto simp: release_item_def drop_lock_def fun_upd_def fun_eq_iff)
qed

lemma release_items_ok:
  assumes "\<forall>p. pinned xs p \<le> bt_pins st p" "\<forall>t. held xs t \<le> bt_locks st t"
  shows "release_items xs st = Some (st\<lparr>bt_pins := \<lambda>p. bt_pins st p - pinned xs p, bt_locks := \<lambda>t. bt_locks st t - held xs t\<rparr>)"
  using assms
proof (induction xs arbitrary: st)
  case (Cons x xs)
  have le: "pinned [x] p \<le> bt_pins st p" "pinned xs p \<le> bt_pins st p - pinned [x] p"
    "held [x] t \<le> bt_locks st t" "held xs t \<le> bt_locks st t - held [x] t" for p t
    using Cons.prems(1) [THEN spec, of p] Cons.prems(2) [THEN spec, of t] pinned_simps(4) [of xs p] held_simps(4) [of xs t]
    by (auto simp del: pinned_simps(4) held_simps(4))
  have "release_item x st = Some (st\<lparr>bt_pins := \<lambda>p. bt_pins st p - pinned [x] p, bt_locks := \<lambda>t. bt_locks st t - held [x] t\<rparr>)" (is "_ = Some ?st")
    using le by (intro release_item_ok) blast+
  moreover have "release_items xs ?st = Some (?st\<lparr>bt_pins := \<lambda>p. bt_pins ?st p - pinned xs p, bt_locks := \<lambda>t. bt_locks ?st t - held xs t\<rparr>)"
    using le(2,4) by (intro Cons.IH) simp_all
  ultimately show ?case by (simp add: algebra_simps)
qed simp

lemma release_to_ok:
  assumes e: "env_ok bp bl st" and "k \<le> length (mx_items (bt_mtr st))"
  shows "\<exists>st'. release_to k st = Some st' \<and> step_ok bp bl 0 st (bt_nodes st) st' \<and> mx_items (bt_mtr st') = drop k (mx_items (bt_mtr st))"
proof -
  let ?xs = "mx_items (bt_mtr st)" and ?ys = "rev (take k (mx_items (bt_mtr st)))"
  have sp: "pinned ?xs p = pinned ?ys p + pinned (drop k ?xs) p" "held ?xs t = held ?ys t + held (drop k ?xs) t" for p t
  proof -
    have "pinned (rev zs) p = pinned zs p" "held (rev zs) t = held zs t" for zs by (induction zs) auto
    then show "pinned ?xs p = pinned ?ys p + pinned (drop k ?xs) p" "held ?xs t = held ?ys t + held (drop k ?xs) t"
      by (metis append_take_drop_id pinned_simps(1), metis append_take_drop_id held_simps(1))
  qed
  have "\<forall>p. pinned ?ys p \<le> bt_pins st p" "\<forall>t. held ?ys t \<le> bt_locks st t"
    using env_okD(4-7) [OF e] sp by (auto simp: add_nonneg_nonneg)
  note r = release_items_ok [OF this]
  show ?thesis
    using r assms(2) e sp set_drop_subset [of k ?xs]
    by (auto simp: release_to_def Let_def step_ok_def env_ok_def page_exists_def algebra_simps)
qed

section \<open>Nodes\<close>

lemma step_set_node:
  assumes "env_ok bp bl st" "bt_nodes st p \<noteq> None"
  shows "step_ok bp bl 0 st ((bt_nodes st)(p \<mapsto> n)) (set_node p n (append_log_entry e st))"
    "step_ok bp bl 0 st ((bt_nodes st)(p \<mapsto> n)) (set_node p n st)"
  using assms by (auto simp: step_ok_def env_ok_def set_node_def append_log_entry_def page_exists_def)

lemma log_entry_simps [simp]: "bt_nodes (append_log_entry e st) = bt_nodes st" "bt_header (append_log_entry e st) = bt_header st"
  by (simp_all add: append_log_entry_def)

lemma set_parent_ok:
  "env_ok bp bl st \<Longrightarrow> bt_nodes st p = Some n \<Longrightarrow>
     \<exists>st'. set_parent_page_num p x st = Some st' \<and> step_ok bp bl 0 st ((bt_nodes st)(p \<mapsto> n\<lparr>nd_parent := x\<rparr>)) st'"
  by (simp add: set_parent_page_num_def step_set_node)

lemma set_next_ok:
  "env_ok bp bl st \<Longrightarrow> bt_nodes st p = Some n \<Longrightarrow>
     \<exists>st'. set_next_page p x st = Some st' \<and> step_ok bp bl 0 st ((bt_nodes st)(p \<mapsto> n\<lparr>nd_next_brother := x\<rparr>)) st'"
  by (simp add: set_next_page_def step_set_node)

lemma set_key_ok:
  "env_ok bp bl st \<Longrightarrow> bt_nodes st p = Some n \<Longrightarrow> i < nd_size n \<Longrightarrow>
     \<exists>st'. set_key_at p i k st = Some st' \<and> step_ok bp bl 0 st ((bt_nodes st)(p \<mapsto> n\<lparr>nd_items := (nd_items n)[i := (k, snd (nd_items n ! i))]\<rparr>)) st'"
  by (simp add: set_key_at_def step_set_node)

lemma node_insert_items_ok:
  assumes "env_ok bp bl st" "bt_nodes st p = Some n" "i \<le> nd_size n" "nd_size n + length xs \<le> node_capacity (bt_header st) (nd_is_leaf n)"
    "\<forall>x\<in>set xs. item_kind (nd_is_leaf n) x"
  shows "\<exists>st'. node_insert_items p i xs st = Some st' \<and>
     step_ok bp bl 0 st ((bt_nodes st)(p \<mapsto> n\<lparr>nd_items := take i (nd_items n) @ xs @ drop i (nd_items n)\<rparr>)) st'"
  using assms by (simp add: node_insert_items_def recover_insert_items_def step_set_node)

lemma node_remove_items_ok:
  assumes "env_ok bp bl st" "bt_nodes st p = Some n" "i + k \<le> nd_size n"
  shows "\<exists>st'. node_remove_items p i k st = Some st' \<and>
     step_ok bp bl 0 st ((bt_nodes st)(p \<mapsto> n\<lparr>nd_items := take i (nd_items n) @ drop (i + k) (nd_items n)\<rparr>)) st'"
  using assms by (simp add: node_remove_items_def recover_remove_items_def step_set_node)

definition kids_exist :: "nodes \<Rightarrow> item list \<Rightarrow> bool" where
  "kids_exist N xs \<longleftrightarrow> (\<forall>x\<in>set xs. \<exists>c. snd x = ChildPage c \<and> N c \<noteq> None)"

lemma kids_exist_upd: "kids_exist N xs \<Longrightarrow> kids_exist (N(p \<mapsto> n)) xs"
  unfolding kids_exist_def by (metis fun_upd_apply option.distinct(1))

lemma kids_exist_simps [simp]: "kids_exist N []" "kids_exist N (x # xs) \<longleftrightarrow> (\<exists>c. snd x = ChildPage c \<and> N c \<noteq> None) \<and> kids_exist N xs"
  by (simp_all add: kids_exist_def)

lemma reparent_Cons:
  assumes "snd x = ChildPage c" "N c = Some n"
  shows "reparent p (x # xs) N = reparent p xs (N(c \<mapsto> n\<lparr>nd_parent := p\<rparr>))"
  using assms by (auto simp: reparent_def fun_eq_iff)

lemma set_parents_ok:
  assumes "env_ok bp bl st" "kids_exist (bt_nodes st) xs"
  shows "\<exists>st'. set_parents p xs st = Some (SUCCESS, st') \<and> step_ok bp bl 0 st (reparent p xs (bt_nodes st)) st'"
  using assms
proof (induction xs arbitrary: st)
  case Nil
  then show ?case by (auto simp: step_ok_def reparent_def)
next
  case (Cons x xs)
  obtain c n where c: "snd x = ChildPage c" "bt_nodes st c = Some n" using Cons.prems(2) by auto
  obtain st1 where st1: "get_page c st = Some (SUCCESS, st1)" "step_ok bp bl 0 st (bt_nodes st) st1"
    using get_page_ok [OF Cons.prems(1), of c] c by (auto simp: page_exists_def)
  obtain st2 where st2: "set_parent_page_num c p st1 = Some st2" "step_ok bp bl 0 st1 ((bt_nodes st)(c \<mapsto> n\<lparr>nd_parent := p\<rparr>)) st2"
    using set_parent_ok [OF step_okD(1) [OF st1(2)], of c n p] c step_okD(2) [OF st1(2)] by auto
  have "kids_exist (bt_nodes st2) xs"
    using Cons.prems(2) step_okD(2) [OF st2(2)] by (simp add: kids_exist_upd)
  from Cons.IH [OF step_okD(1) [OF st2(2)] this] obtain st3 where
    st3: "set_parents p xs st2 = Some (SUCCESS, st3)" "step_ok bp bl 0 st2 (reparent p xs (bt_nodes st2)) st3" by auto
  have "step_ok bp bl 0 st (reparent p (x # xs) (bt_nodes st)) st3"
    using step_ok_trans0 [OF step_ok_trans0 [OF st1(2) st2(2)] st3(2)] step_okD(2) [OF st2(2)] reparent_Cons [of x c "bt_nodes st" n p xs] c by simp
  then show ?case using st1(1) st2(1) st3(1) c(1) by simp
qed

text \<open>The kind of items, from what they refer to.\<close>

lemma item_kinds:
  "kid_pages xs = {} \<Longrightarrow> \<forall>x\<in>set xs. item_kind True x" "kids_exist N xs \<Longrightarrow> \<forall>x\<in>set xs. item_kind False x"
proof -
  have k: "item_kind leaf x \<longleftrightarrow> (case snd x of RecordValue r \<Rightarrow> leaf | ChildPage c \<Rightarrow> \<not> leaf)" for leaf x
    by (cases x) (auto split: item_value.split)
  show "kid_pages xs = {} \<Longrightarrow> \<forall>x\<in>set xs. item_kind True x"
    by (force simp: kid_pages_def k image_iff split: item_value.split)
  show "kids_exist N xs \<Longrightarrow> \<forall>x\<in>set xs. item_kind False x"
    by (fastforce simp: kids_exist_def k)
qed

lemma node_append_ok:
  assumes e: "env_ok bp bl st" and n: "bt_nodes st p = Some n" "nd_is_leaf n = leaf" "nd_size n + length xs \<le> node_capacity (bt_header st) leaf"
    and kids: "\<not> leaf \<Longrightarrow> kids_exist (bt_nodes st) xs" and rids: "leaf \<Longrightarrow> kid_pages xs = {}"
  shows "\<exists>st'. node_append leaf p xs st = Some (SUCCESS, st') \<and>
     step_ok bp bl 0 st (let N = (bt_nodes st)(p \<mapsto> n\<lparr>nd_items := nd_items n @ xs\<rparr>) in if leaf then N else reparent p xs N) st'"
proof -
  obtain st1 where st1: "node_insert_items p (nd_size n) xs st = Some st1" "step_ok bp bl 0 st ((bt_nodes st)(p \<mapsto> n\<lparr>nd_items := nd_items n @ xs\<rparr>)) st1"
    using node_insert_items_ok [OF e n(1), of "nd_size n" xs] n item_kinds(1) [OF rids] item_kinds(2) [OF kids] by (cases leaf) auto
  show ?thesis
  proof (cases leaf)
    case False
    have "kids_exist (bt_nodes st1) xs" using kids [OF False] step_okD(2) [OF st1(2)] by (simp add: kids_exist_upd)
    from set_parents_ok [OF step_okD(1) [OF st1(2)] this, of p] obtain st2 where
      st2: "set_parents p xs st1 = Some (SUCCESS, st2)" "step_ok bp bl 0 st1 (reparent p xs (bt_nodes st1)) st2" by auto
    then show ?thesis
      using st1(1) False n(1) step_ok_trans0 [OF st1(2) st2(2)] step_okD(2) [OF st1(2)]
      by (simp add: node_append_def internal_append_def internal_insert_items_def)
  qed (use st1 n in \<open>simp add: node_append_def leaf_append_def\<close>)
qed

lemma node_preappend_ok:
  assumes e: "env_ok bp bl st" and n: "bt_nodes st p = Some n" "nd_is_leaf n = leaf" "nd_size n + 1 \<le> node_capacity (bt_header st) leaf"
    and kids: "\<not> leaf \<Longrightarrow> kids_exist (bt_nodes st) [x]" and rids: "leaf \<Longrightarrow> kid_pages [x] = {}"
  shows "\<exists>st'. node_preappend leaf p x st = Some (SUCCESS, st') \<and>
     step_ok bp bl 0 st (let N = (bt_nodes st)(p \<mapsto> n\<lparr>nd_items := x # nd_items n\<rparr>) in if leaf then N else reparent p [x] N) st'"
proof -
  obtain st1 where st1: "node_insert_items p 0 [x] st = Some st1" "step_ok bp bl 0 st ((bt_nodes st)(p \<mapsto> n\<lparr>nd_items := x # nd_items n\<rparr>)) st1"
    using node_insert_items_ok [OF e n(1), of 0 "[x]"] n item_kinds(1) [OF rids] item_kinds(2) [OF kids] by (cases leaf) auto
  show ?thesis
  proof (cases leaf)
    case False
    have "kids_exist (bt_nodes st1) [x]" unfolding step_okD(2) [OF st1(2)] by (rule kids_exist_upd [OF kids [OF False]])
    from set_parents_ok [OF step_okD(1) [OF st1(2)] this, of p] obtain st2 where
      st2: "set_parents p [x] st1 = Some (SUCCESS, st2)" "step_ok bp bl 0 st1 (reparent p [x] (bt_nodes st1)) st2" by auto
    then show ?thesis
      using st1(1) False n(1) step_ok_trans0 [OF st1(2) st2(2)] step_okD(2) [OF st1(2)]
      by (simp add: node_preappend_def internal_insert_items_def)
  qed (use st1 n in \<open>simp add: node_preappend_def\<close>)
qed

section \<open>Allocation and splitting\<close>

lemma find_SomeD: "find P xs = Some x \<Longrightarrow> x \<in> set xs \<and> P x"
  by (induction xs) (auto split: if_splits)

lemma pool_allocate_ok:
  assumes e: "env_ok bp bl st" and room: "bt_page_count st + 1 \<le> bt_max_pages st"
  shows "\<exists>p st'. pool_allocate st = (SUCCESS, p, st') \<and> 2 \<le> p \<and> bt_nodes st p = None \<and>
     step_ok (bp(p := bp p + 1)) bl 1 st ((bt_nodes st)(p \<mapsto> blank_node)) st' \<and> bp p = 0 \<and> bt_pins st' p = 1 \<and>
     bt_mtr st' = bt_mtr st"
proof -
  obtain n where n: "free_page st = Some n" "2 \<le> n" "n \<le> bt_page_count st" "bt_nodes st (int n) = None"
  proof (cases "find (\<lambda>p. bt_nodes st (int p) = None) [2..<bt_page_count st]")
    case None
    have "bt_nodes st (int (bt_page_count st)) = None"
      using env_okD(3) [OF e, of "int (bt_page_count st)"] by (cases "bt_nodes st (int (bt_page_count st))") auto
    then show ?thesis using that [of "bt_page_count st"] None room env_okD(2) [OF e] by (simp add: free_page_def)
  next
    case (Some n)
    then show ?thesis using that [of n] find_SomeD [OF Some] by (simp add: free_page_def)
  qed
  have np: "\<not> page_exists (int n) st" using n(2,4) by (simp add: page_exists_def FIRST_INDEX_PAGE_def)
  have z: "bp (int n) = 0" "PIN (int n) \<notin> set (mx_items (bt_mtr st))"
    using e np unfolding env_ok_def by blast+
  then have "pinned (mx_items (bt_mtr st)) (int n) = 0"
    using pinned_pos [of "mx_items (bt_mtr st)" "int n"] pinned_simps(4) [of "mx_items (bt_mtr st)" "int n"] by linarith
  then have "bt_pins st (int n) = 0" using env_okD(4) [OF e, of "int n"] z by simp
  moreover have "env_ok (bp(int n := bp (int n) + 1)) bl
      (st\<lparr>bt_nodes := (bt_nodes st)(int n \<mapsto> blank_node), bt_page_count := max (n + 1) (bt_page_count st),
          bt_pins := (bt_pins st)(int n := bt_pins st (int n) + 1)\<rparr>)"
    (is "env_ok _ _ ?st")
  proof (rule env_okI)
    show "2 \<le> p \<and> p < int (bt_page_count ?st)" if "bt_nodes ?st p = Some m" for p m
      using that env_okD(3) [OF e, of p m] n(2) by (cases "p = int n") auto
    show "page_exists p ?st" if "PIN p \<in> set (mx_items (bt_mtr ?st))" for p
      using env_ok_existsD(1) [OF e, of p] that by (auto simp: page_exists_def)
    show "page_exists p ?st" if "(bp(int n := bp (int n) + 1)) p \<noteq> 0" for p
      using env_ok_existsD(2) [OF e, of p] that by (cases "p = int n") (auto simp: page_exists_def)
  qed (use env_okD [OF e] in \<open>auto simp: add_nonneg_nonneg\<close>)
  ultimately show ?thesis
    using n z(1) by - (rule exI [of _ "int n"], rule exI [of _ ?st], simp add: pool_allocate_def pool_outcome_def env_okD(1) [OF e] step_ok_def)
qed

lemma env_ok_memo_push:
  "env_ok (bp(p := bp p + 1)) bl st \<Longrightarrow> 0 \<le> bp p \<Longrightarrow> page_exists p st \<Longrightarrow> \<forall>q. bp q \<noteq> 0 \<longrightarrow> page_exists q st \<Longrightarrow> env_ok bp bl (memo_push (PIN p) st)"
  by (auto simp: env_ok_def memo_push_def page_exists_def split: if_splits)

lemma memo_allocate_ok:
  assumes e: "env_ok bp bl st" and room: "bt_page_count st + 1 \<le> bt_max_pages st"
  shows "\<exists>p st'. memo_allocate_page st = Some (SUCCESS, p, st') \<and> 2 \<le> p \<and> bt_nodes st p = None \<and>
     step_ok bp bl 1 st ((bt_nodes st)(p \<mapsto> blank_node)) st'"
proof -
  obtain p st1 where p: "pool_allocate st = (SUCCESS, p, st1)" "2 \<le> p" "bt_nodes st p = None"
    "step_ok (bp(p := bp p + 1)) bl 1 st ((bt_nodes st)(p \<mapsto> blank_node)) st1" "bp p = 0" "bt_pins st1 p = 1"
    using pool_allocate_ok [OF assms] by blast
  have "env_ok bp bl (memo_push (PIN p) st1)"
    using step_okD(1,2) [OF p(4)] p(5) e by (intro env_ok_memo_push) (auto simp: page_exists_def env_ok_def)
  then have "step_ok bp bl 1 st ((bt_nodes st)(p \<mapsto> blank_node)) (memo_push (PIN p) st1)"
    using p(4) by (simp add: step_ok_def memo_push_def)
  then show ?thesis using p by (auto simp: memo_allocate_page_def)
qed

lemma reparent_upd: "p \<notin> kid_pages xs \<Longrightarrow> (reparent q xs N)(p \<mapsto> n) = reparent q xs (N(p \<mapsto> n))"
  by (auto simp: reparent_def fun_eq_iff)

definition node_new :: "bool \<Rightarrow> IndexNode" where
  "node_new leaf = \<lparr>nd_is_leaf = leaf, nd_parent = BP_INVALID_PAGE_NUM,
     nd_next_brother = (if leaf then BP_INVALID_PAGE_NUM else 0), nd_items = []\<rparr>"

lemma node_init_ok:
  assumes "env_ok bp bl st" "bt_nodes st q = Some blank_node"
  shows "\<exists>st'. node_init_empty leaf q st = Some st' \<and> step_ok bp bl 0 st ((bt_nodes st)(q \<mapsto> node_new leaf)) st'"
  using assms by (simp add: node_init_empty_def leaf_init_empty_def internal_init_empty_def node_new_def blank_node_def step_set_node)

definition half_nodes :: "nodes \<Rightarrow> PageNum \<Rightarrow> IndexNode \<Rightarrow> PageNum \<Rightarrow> nodes" where
  "half_nodes N p n q = (let j = nd_size n div 2 in
     reparent q (drop j (nd_items n)) (N(p \<mapsto> n\<lparr>nd_items := take j (nd_items n)\<rparr>,
       q \<mapsto> (node_new (nd_is_leaf n))\<lparr>nd_parent := nd_parent n, nd_items := drop j (nd_items n)\<rparr>)))"

lemma move_half_ok:
  assumes e: "env_ok bp bl st" and n: "bt_nodes st p = Some n" "nd_is_leaf n = leaf" "p \<notin> kid_pages (nd_items n)" "p \<noteq> q"
    and m: "bt_nodes st q = Some m" "nd_is_leaf m = leaf" "nd_items m = []" and cap: "nd_size n \<le> node_capacity (bt_header st) leaf"
    and kids: "if leaf then kid_pages (nd_items n) = {} else kids_exist (bt_nodes st) (nd_items n)"
  shows "\<exists>st'. move_half_to leaf p q st = Some (SUCCESS, st') \<and>
     step_ok bp bl 0 st (let j = nd_size n div 2 in reparent q (drop j (nd_items n)) ((bt_nodes st)(p \<mapsto> n\<lparr>nd_items := take j (nd_items n)\<rparr>,
        q \<mapsto> m\<lparr>nd_items := drop j (nd_items n)\<rparr>))) st'"
proof -
  let ?j = "nd_size n div 2" let ?ys = "drop ?j (nd_items n)"
  have pk: "p \<notin> kid_pages ?ys" using n(3) kid_pages_split [of "nd_items n" ?j] by blast
  have ex: "\<not> leaf \<Longrightarrow> kids_exist (bt_nodes st) ?ys" using kids by (auto simp: kids_exist_def dest: in_set_dropD)
  have re: "leaf \<Longrightarrow> reparent q ?ys N = N" for N
  proof -
    assume leaf
    then have "kid_pages ?ys = {}" using kids kid_pages_split [of "nd_items n" ?j] by auto
    then show "reparent q ?ys N = N" by (simp add: reparent_def)
  qed
  obtain st1 where st1: "node_append leaf q ?ys st = Some (SUCCESS, st1)"
    "step_ok bp bl 0 st (reparent q ?ys ((bt_nodes st)(q \<mapsto> m\<lparr>nd_items := ?ys\<rparr>))) st1"
  proof -
    have "(let N = (bt_nodes st)(q \<mapsto> m\<lparr>nd_items := nd_items m @ ?ys\<rparr>) in if leaf then N else reparent q ?ys N) =
        reparent q ?ys ((bt_nodes st)(q \<mapsto> m\<lparr>nd_items := ?ys\<rparr>))"
      using re m(3) by (cases leaf) (simp_all add: Let_def)
    moreover have "nd_size m + length ?ys \<le> node_capacity (bt_header st) leaf" using m(3) cap by simp
    moreover have "leaf \<Longrightarrow> kid_pages ?ys = {}" using kids kid_pages_split [of "nd_items n" ?j] by auto
    ultimately show ?thesis using node_append_ok [OF e m(1,2) _ ex] that by auto
  qed
  have p1: "bt_nodes st1 p = Some n" using step_okD(2) [OF st1(2)] pk n(1,4) by simp
  obtain st2 where st2: "node_remove_items p ?j (nd_size n - ?j) st1 = Some st2"
    "step_ok bp bl 0 st1 ((bt_nodes st1)(p \<mapsto> n\<lparr>nd_items := take ?j (nd_items n)\<rparr>)) st2"
    using node_remove_items_ok [OF step_okD(1) [OF st1(2)] p1, of ?j "nd_size n - ?j"] by auto
  have "(bt_nodes st1)(p \<mapsto> n\<lparr>nd_items := take ?j (nd_items n)\<rparr>) =
      reparent q ?ys ((bt_nodes st)(p \<mapsto> n\<lparr>nd_items := take ?j (nd_items n)\<rparr>, q \<mapsto> m\<lparr>nd_items := ?ys\<rparr>))"
    unfolding step_okD(2) [OF st1(2)] reparent_upd [OF pk] using n(4) by (simp add: fun_upd_twist)
  then show ?thesis
    using st1(1) st2 n(1) step_ok_trans0 [OF st1(2) st2(2)] by (simp add: move_half_to_def Let_def)
qed

lemma split_node_ok:
  assumes e: "env_ok bp bl st" and room: "bt_page_count st + 1 \<le> bt_max_pages st"
    and n: "bt_nodes st p = Some n" "nd_is_leaf n = leaf" "p \<notin> kid_pages (nd_items n)" "nd_size n \<le> node_capacity (bt_header st) leaf"
    and kids: "if leaf then kid_pages (nd_items n) = {} else kids_exist (bt_nodes st) (nd_items n)"
  shows "\<exists>q st'. split_node leaf p st = Some (SUCCESS, q, st') \<and> 2 \<le> q \<and> bt_nodes st q = None \<and>
     step_ok bp bl 1 st (half_nodes (bt_nodes st) p n q) st'"
proof -
  obtain q st1 where q: "memo_allocate_page st = Some (SUCCESS, q, st1)" "2 \<le> q" "bt_nodes st q = None"
    and s1: "step_ok bp bl 1 st ((bt_nodes st)(q \<mapsto> blank_node)) st1" using memo_allocate_ok [OF e room] by blast
  have pq: "p \<noteq> q" using n(1) q(3) by auto
  obtain st2 where st2: "memo_xlatch (PageLatch q) st1 = Some st2" and s2: "step_ok bp bl 0 st1 (bt_nodes st1) st2"
    using latch_ok(1) [OF step_okD(1) [OF s1], of "PageLatch q"] by auto
  note N2 = step_okD(2) [OF s2, unfolded step_okD(2) [OF s1]]
  obtain st3 where st3: "node_init_empty leaf q st2 = Some st3" and s3: "step_ok bp bl 0 st2 ((bt_nodes st)(q \<mapsto> node_new leaf)) st3"
    using node_init_ok [OF step_okD(1) [OF s2], of q leaf] N2 by auto
  note N3 = step_okD(2) [OF s3]
  obtain st4 where st4: "set_parent_page_num q (nd_parent n) st3 = Some st4"
    and s4: "step_ok bp bl 0 st3 ((bt_nodes st)(q \<mapsto> (node_new leaf)\<lparr>nd_parent := nd_parent n\<rparr>)) st4"
    using set_parent_ok [OF step_okD(1) [OF s3], of q "node_new leaf" "nd_parent n"] N3 by auto
  note N4 = step_okD(2) [OF s4]
  have hd: "bt_header st4 = bt_header st" using step_okD(3) s1 s2 s3 s4 by metis
  have "if leaf then kid_pages (nd_items n) = {} else kids_exist (bt_nodes st4) (nd_items n)"
    using kids N4 kids_exist_upd by (auto split: if_splits)
  then obtain st5 where st5: "move_half_to leaf p q st4 = Some (SUCCESS, st5)"
    and s5: "step_ok bp bl 0 st4 (half_nodes (bt_nodes st) p n q) st5"
    using move_half_ok [OF step_okD(1) [OF s4], of p n leaf q "(node_new leaf)\<lparr>nd_parent := nd_parent n\<rparr>"] N4 n pq hd
    by (auto simp: node_new_def half_nodes_def Let_def fun_upd_twist)
  have "bt_nodes st3 p = Some n" using N3 pq n(1) by simp
  then show ?thesis
    using q st2 st3 st4 st5 step_ok_trans0 [OF step_ok_trans0 [OF step_ok_trans0 [OF step_ok_trans0 [OF s1 s2] s3] s4] s5]
    by (auto simp: split_node_def)
qed

section \<open>Search\<close>

lemma fetch_ok:
  assumes e: "env_ok bp bl st" and n: "bt_nodes st p = Some n"
  shows "\<exists>st'. crabing_protocal_fetch_page op p is_root st = Some (SUCCESS, st') \<and> step_ok bp bl 0 st (bt_nodes st) st'"
proof -
  let ?point = "length (mx_items (bt_mtr st))"
  obtain st1 where g: "get_page p st = Some (SUCCESS, st1)" and s1: "step_ok bp bl 0 st (bt_nodes st) st1"
    and i1: "mx_items (bt_mtr st1) = mx_items (bt_mtr st) @ [PIN p]"
    using get_page_ok [OF e, of p] n by (auto simp: page_exists_def)
  define l where "l = (if op = OP_READ then memo_slatch (PageLatch p) st1 else memo_xlatch (PageLatch p) st1)"
  obtain st2 where l: "l = Some st2" and s2: "step_ok bp bl 0 st1 (bt_nodes st1) st2" and i2: "?point \<le> length (mx_items (bt_mtr st2))"
    using latch_ok [OF step_okD(1) [OF s1], of "PageLatch p"] i1 unfolding l_def by (cases "op = OP_READ") auto
  have n2: "bt_nodes st2 p = Some n" using step_okD(2) [OF s1] step_okD(2) [OF s2] n by simp
  obtain st3 where r: "release_to ?point st2 = Some st3" and s3: "step_ok bp bl 0 st2 (bt_nodes st2) st3"
    using release_to_ok [OF step_okD(1) [OF s2] i2] by auto
  have s2': "step_ok bp bl 0 st (bt_nodes st) st2" using step_ok_trans0 [OF s1 s2] step_okD(2) [OF s1] by simp
  have s3': "step_ok bp bl 0 st (bt_nodes st) st3" using step_ok_trans0 [OF s2' s3] step_okD(2) [OF s2'] by simp
  show ?thesis using g l n2 r s2' s3' unfolding l_def by (simp add: crabing_protocal_fetch_page_def Let_def)
qed

definition getter_ok :: "(BplusTreeHandler \<Rightarrow> IndexNode \<Rightarrow> PageNum option) \<Rightarrow> nodes \<Rightarrow> IndexFileHeader \<Rightarrow> (PageNum \<Rightarrow> nat) \<Rightarrow> (PageNum \<Rightarrow> bool) \<Rightarrow> bool" where
  "getter_ok getter N h lvl Q \<longleftrightarrow> (\<forall>st p n. bt_nodes st = N \<longrightarrow> bt_header st = h \<longrightarrow> N p = Some n \<longrightarrow> \<not> nd_is_leaf n \<longrightarrow> Q p \<longrightarrow>
     (\<exists>c m. getter st n = Some c \<and> N c = Some m \<and> lvl p = Suc (lvl c) \<and> Q c))"

text \<open>The descent, for a getter that leads from nodes with \<open>Q\<close> to children with \<open>Q\<close>.\<close>

lemma find_leaf_loop_ok:
  assumes "env_ok bp bl st" "N p = Some n" "Q p" "bt_nodes st = N" "bt_header st = h"
    and get: "getter_ok getter N h lvl Q"
  shows "\<exists>q st' m. find_leaf_loop op getter p st = Some (SUCCESS, q, st') \<and> step_ok bp bl 0 st N st' \<and> N q = Some m \<and> nd_is_leaf m \<and> Q q"
  using assms(1-5)
proof (induction "lvl p" arbitrary: p n st rule: less_induct)
  case less
  show ?case
  proof (cases "nd_is_leaf n")
    case True
    then show ?thesis using less.prems by (auto simp: find_leaf_loop.simps step_ok_def)
  next
    case False
    obtain c m where c: "getter st n = Some c" "N c = Some m" "lvl p = Suc (lvl c)" "Q c"
      using get less.prems(2-5) False unfolding getter_ok_def by blast
    obtain st1 where f: "crabing_protocal_fetch_page op c False st = Some (SUCCESS, st1)" and s1: "step_ok bp bl 0 st N st1"
      using fetch_ok [OF less.prems(1), of c m] c(2) less.prems(4) by auto
    note d = step_okD [OF s1]
    obtain q st' m' where q: "find_leaf_loop op getter c st1 = Some (SUCCESS, q, st')" "step_ok bp bl 0 st1 N st'" "N q = Some m'" "nd_is_leaf m'" "Q q"
      using less.hyps [of c, OF _ d(1) c(2,4) d(2)] c(3) d(3) less.prems(5) by auto
    then show ?thesis using False c(1) f less.prems(2,4) step_ok_trans0 [OF s1 q(2)] by (auto simp: find_leaf_loop.simps [of op getter p])
  qed
qed

lemma find_leaf_internal_ok:
  assumes e: "env_ok bp bl st" and N: "bt_nodes st = N" "bt_header st = h" "N (ih_root_page h) = Some n" "ih_root_page h \<noteq> BP_INVALID_PAGE_NUM"
    and q: "Q (ih_root_page h)" and lock: "bt_locks st RootLock = 0"
    and get: "getter_ok getter N h lvl Q"
  shows "\<exists>q st' m. find_leaf_internal op getter st = Some (SUCCESS, q, st') \<and> step_ok bp bl 0 st N st' \<and> N q = Some m \<and> nd_is_leaf m \<and> Q q"
proof -
  define l where "l = (if op \<noteq> OP_READ then memo_xlatch RootLock st else memo_slatch RootLock st)"
  obtain st1 where l: "l = Some st1" and s1: "step_ok bp bl 0 st N st1"
    using latch_ok [OF e, of RootLock] lock N(1) unfolding l_def by (cases "op = OP_READ") auto
  note d1 = step_okD [OF s1]
  obtain st2 where f: "crabing_protocal_fetch_page op (ih_root_page h) True st1 = Some (SUCCESS, st2)" and s2: "step_ok bp bl 0 st1 N st2"
    using fetch_ok [OF d1(1)] N(3) d1(2) by metis
  note d2 = step_okD [OF s2]
  obtain q st' m where q': "find_leaf_loop op getter (ih_root_page h) st2 = Some (SUCCESS, q, st')" "step_ok bp bl 0 st2 N st'" "N q = Some m" "nd_is_leaf m" "Q q"
    using find_leaf_loop_ok [OF d2(1) N(3) q d2(2) _ get, of op] d1(3) d2(3) N(2) by auto
  have "\<not> is_empty st1" using N d1(3) by (simp add: is_empty_def)
  then show ?thesis
    using l f q' N(2) d1(3) step_ok_trans0 [OF step_ok_trans0 [OF s1 s2] q'(2)]
    unfolding l_def by (auto simp: find_leaf_internal_def Let_def)
qed

lemma find_leaf_ok:
  assumes e: "env_ok bp bl st" and inv: "tree_inv (ih_attrs (bt_header st)) (bt_nodes st) (ih_root_page (bt_header st)) g" "sh_pend g = Map.empty"
    and key: "key_ok (ih_attrs (bt_header st)) key" and lock: "bt_locks st RootLock = 0"
  shows "\<exists>q st' m. find_leaf op key st = Some (SUCCESS, q, st') \<and> step_ok bp bl 0 st (bt_nodes st) st' \<and>
     bt_nodes st q = Some m \<and> nd_is_leaf m \<and> in_range g q (key_bound (ih_attrs (bt_header st)) key)"
proof -
  let ?A = "ih_attrs (bt_header st)" and ?r = "ih_root_page (bt_header st)"
  obtain n where n: "bt_nodes st ?r = Some n" using tree_invD(3) [OF inv(1)] by auto
  have r: "?r \<noteq> BP_INVALID_PAGE_NUM" using node_okD(1) [OF tree_invD(2) [OF inv(1) n]] by (auto simp: BP_INVALID_PAGE_NUM_def)
  have "in_range g ?r (key_bound ?A key)"
    using tree_invD(4,5) [OF inv(1)] inv(2) by (simp add: in_range_def span_hi_def)
  then show ?thesis
    unfolding find_leaf_def
  proof (rule find_leaf_internal_ok [OF e refl refl n r _ lock, where lvl = "sh_lvl g"], unfold getter_ok_def, intro allI impI)
    fix st' :: BplusTreeHandler and p m
    assume st': "bt_nodes st' = bt_nodes st" "bt_header st' = bt_header st" "bt_nodes st p = Some m" "\<not> nd_is_leaf m" "in_range g p (key_bound ?A key)"
    have ok: "node_ok ?A (bt_nodes st) g p m" using tree_invD(2) [OF inv(1) st'(3)] .
    show "\<exists>c k. child_by_key key st' m = Some c \<and> bt_nodes st c = Some k \<and> sh_lvl g p = Suc (sh_lvl g c) \<and> in_range g c (key_bound ?A key)"
      using child_by_key_ok [OF node_okD(5) [OF ok st'(4)] _ key _ st'(5), of st'] node_okD(3) [OF ok] st'(2) inv(2) by metis
  qed
qed

lemma left_most_ok:
  assumes e: "env_ok bp bl st" and inv: "tree_inv (ih_attrs (bt_header st)) (bt_nodes st) (ih_root_page (bt_header st)) g" "sh_pend g = Map.empty"
    and lock: "bt_locks st RootLock = 0"
  shows "\<exists>q st' m. left_most_page st = Some (SUCCESS, q, st') \<and> step_ok bp bl 0 st (bt_nodes st) st' \<and>
     bt_nodes st q = Some m \<and> nd_is_leaf m \<and> sh_lo g q = MinB"
proof -
  let ?A = "ih_attrs (bt_header st)" and ?r = "ih_root_page (bt_header st)"
  obtain n where n: "bt_nodes st ?r = Some n" using tree_invD(3) [OF inv(1)] by auto
  have r: "?r \<noteq> BP_INVALID_PAGE_NUM" using node_okD(1) [OF tree_invD(2) [OF inv(1) n]] by (auto simp: BP_INVALID_PAGE_NUM_def)
  have "sh_lo g ?r = MinB" using tree_invD(4) [OF inv(1)] .
  then show ?thesis
    unfolding left_most_page_def
  proof (rule find_leaf_internal_ok [OF e refl refl n r _ lock, where lvl = "sh_lvl g" and Q = "\<lambda>p. sh_lo g p = MinB"], unfold getter_ok_def, intro allI impI)
    fix st' :: BplusTreeHandler and p m
    assume st': "bt_nodes st' = bt_nodes st" "bt_header st' = bt_header st" "bt_nodes st p = Some m" "\<not> nd_is_leaf m" "sh_lo g p = MinB"
    have io: "internal_ok ?A (bt_nodes st) g p m" using node_okD(5) [OF tree_invD(2) [OF inv(1) st'(3)] st'(4)] .
    have z: "0 < nd_size m" using internal_okD(1) [OF io] by simp
    show "\<exists>c k. first_child st' m = Some c \<and> bt_nodes st c = Some k \<and> sh_lvl g p = Suc (sh_lvl g c) \<and> sh_lo g c = MinB"
      using internal_okD(4) [OF io z] z st'(5) internal_okD(1) [OF io]
      by (auto simp: child_ok_def first_child_def internal_value_at_def child_bounds_def)
  qed
qed

end
