(* ===== verification/BplusInsert.thy ===== *)
theory BplusInsert
  imports BplusOps
begin

text \<open>
  Insertion into the B+-tree: a split that propagates to the root keeps the shape, the sizes of the
  nodes and the other entries, and ends.
\<close>

section \<open>Headers and sizes\<close>

definition header_ok :: "IndexFileHeader \<Rightarrow> bool" where
  "header_ok h \<longleftrightarrow> list_all ordered_attr (ih_attrs h) \<and> ih_total_attr_length h = sum_list (map snd (ih_attrs h)) \<and>
     ih_leaf_max_size h \<le> node_capacity h True \<and> ih_internal_max_size h \<le> node_capacity h False \<and>
     4 \<le> ih_leaf_max_size h \<and> 4 \<le> ih_internal_max_size h"

definition node_size_ok :: "IndexFileHeader \<Rightarrow> bool \<Rightarrow> IndexNode \<Rightarrow> bool" where
  "node_size_ok h is_root n \<longleftrightarrow> nd_size n \<le> max_size h n \<and>
     (if is_root then (if nd_is_leaf n then 1 else 2) else max_size h n div 2) \<le> nd_size n"

definition sizes_ok :: "IndexFileHeader \<Rightarrow> PageNum \<Rightarrow> nodes \<Rightarrow> bool" where
  "sizes_ok h root N \<longleftrightarrow> (\<forall>p n. N p = Some n \<longrightarrow> node_size_ok h (p = root) n)"

lemma header_okD:
  assumes "header_ok h"
  shows "list_all ordered_attr (ih_attrs h)" "ih_total_attr_length h = sum_list (map snd (ih_attrs h))"
    "max_size h n \<le> node_capacity h (nd_is_leaf n)" "4 \<le> max_size h n" "2 \<le> node_capacity h False"
  using assms by (auto simp: header_ok_def max_size_def)

lemma key_ok_zero: "header_ok h \<Longrightarrow> key_ok (ih_attrs h) (zero_key h)"
  by (simp add: key_ok_def zero_key_def header_ok_def rid_range_def RID_def INT32_MAX_def)

lemma max_size_root [simp]: "max_size (h\<lparr>ih_root_page := r\<rparr>) = max_size h" "header_ok (h\<lparr>ih_root_page := r\<rparr>) = header_ok h"
  "node_size_ok (h\<lparr>ih_root_page := r\<rparr>) = node_size_ok h" "sizes_ok (h\<lparr>ih_root_page := r\<rparr>) = sizes_ok h"
  by (auto simp: max_size_def fun_eq_iff header_ok_def node_capacity_def node_size_ok_def sizes_ok_def)

text \<open>An operation that may change the root.\<close>

definition tree_step :: "(PageNum \<Rightarrow> int) \<Rightarrow> (lock_target \<Rightarrow> int) \<Rightarrow> nat \<Rightarrow> BplusTreeHandler \<Rightarrow> nodes \<Rightarrow> PageNum \<Rightarrow> BplusTreeHandler \<Rightarrow> bool" where
  "tree_step bp bl k st N r st' \<longleftrightarrow> env_ok bp bl st' \<and> bt_nodes st' = N \<and> bt_header st' = (bt_header st)\<lparr>ih_root_page := r\<rparr> \<and>
     bt_page_count st' \<le> bt_page_count st + k \<and> bt_max_pages st' = bt_max_pages st \<and>
     mx_disposed (bt_mtr st') = mx_disposed (bt_mtr st)"

lemma tree_step_of_step: "step_ok bp bl k st N st' \<Longrightarrow> ih_root_page (bt_header st) = r \<Longrightarrow> tree_step bp bl k st N r st'"
  by (auto simp: tree_step_def step_ok_def)

lemma tree_step_trans: "step_ok bp bl k st N st1 \<Longrightarrow> tree_step bp' bl' k' st1 N' r st2 \<Longrightarrow> tree_step bp' bl' (k + k') st N' r st2"
  by (auto simp: tree_step_def step_ok_def)

lemma tree_stepD:
  assumes "tree_step bp bl k st N r st'"
  shows "env_ok bp bl st'" "bt_nodes st' = N" "bt_header st' = (bt_header st)\<lparr>ih_root_page := r\<rparr>"
    "bt_page_count st' \<le> bt_page_count st + k" "bt_max_pages st' = bt_max_pages st" "mx_disposed (bt_mtr st') = mx_disposed (bt_mtr st)"
  using assms by (simp_all add: tree_step_def)

section \<open>A new root\<close>

lemma update_root_ok:
  assumes "env_ok bp bl st"
  shows "\<exists>st'. update_root_page_num_locked r st = Some st' \<and> tree_step bp bl 0 st (bt_nodes st) r st'"
proof -
  obtain st1 where g: "get_page FIRST_INDEX_PAGE st = Some (SUCCESS, st1)" and s1: "step_ok bp bl 0 st (bt_nodes st) st1"
    using get_page_ok [OF assms, of FIRST_INDEX_PAGE] by (auto simp: page_exists_def)
  obtain st2 where l: "memo_xlatch (PageLatch FIRST_INDEX_PAGE) st1 = Some st2" and s2: "step_ok bp bl 0 st1 (bt_nodes st1) st2"
    using latch_ok(1) [OF step_okD(1) [OF s1], of "PageLatch FIRST_INDEX_PAGE"] by auto
  have s: "step_ok bp bl 0 st (bt_nodes st) st2" using step_ok_trans0 [OF s1 s2] step_okD(2) [OF s1] by simp
  show ?thesis using g l s
    by (auto simp: update_root_page_num_locked_def tree_step_def step_ok_def env_ok_def append_log_entry_def page_exists_def)
qed

lemma insert_new_root_ok:
  assumes e: "env_ok bp bl st" and room: "bt_page_count st + 1 \<le> bt_max_pages st" and h: "header_ok (bt_header st)"
    and n: "bt_nodes st p = Some n" "bt_nodes st q = Some m" "p \<noteq> q"
  shows "\<exists>r st'. insert_new_root p q k st = Some (SUCCESS, st') \<and> 2 \<le> r \<and> bt_nodes st r = None \<and>
     tree_step bp bl 1 st ((bt_nodes st)(r \<mapsto> \<lparr>nd_is_leaf = False, nd_parent = BP_INVALID_PAGE_NUM, nd_next_brother = 0,
        nd_items = [(zero_key (bt_header st), ChildPage p), (k, ChildPage q)]\<rparr>, p \<mapsto> n\<lparr>nd_parent := r\<rparr>, q \<mapsto> m\<lparr>nd_parent := r\<rparr>)) r st'"
proof -
  let ?N = "bt_nodes st"
  obtain r st1 where a: "pool_allocate st = (SUCCESS, r, st1)" "2 \<le> r" "?N r = None" "bp r = 0"
    and s1: "step_ok (bp(r := bp r + 1)) bl 1 st (?N(r \<mapsto> blank_node)) st1" using pool_allocate_ok [OF e room] by blast
  let ?bp = "bp(r := bp r + 1)"
  let ?m = "\<lparr>nd_is_leaf = False, nd_parent = BP_INVALID_PAGE_NUM, nd_next_brother = 0, nd_items = [(zero_key (bt_header st), ChildPage p), (k, ChildPage q)]\<rparr>"
  have rpq: "r \<noteq> p" "r \<noteq> q" using a(3) n by auto
  note d1 = step_okD [OF s1]
  obtain st2 where i2: "internal_init_empty r st1 = Some st2" and s2: "step_ok ?bp bl 0 st1 (?N(r \<mapsto> node_new False)) st2"
    using node_init_ok [OF d1(1), of r False] d1(2) by (auto simp: node_init_empty_def)
  note d2 = step_okD [OF s2]
  have "\<exists>st3. create_new_root r p k q st2 = Some st3 \<and> step_ok ?bp bl 0 st2 (?N(r \<mapsto> ?m)) st3"
    using step_set_node(1) [OF d2(1), of r] d2(2,3) d1(3) header_okD(5) [OF h]
    by (simp add: create_new_root_def node_new_def)
  then obtain st3 where c3: "create_new_root r p k q st2 = Some st3" and s3: "step_ok ?bp bl 0 st2 (?N(r \<mapsto> ?m)) st3" by blast
  note d3 = step_okD [OF s3]
  obtain st4 where p4: "set_parent_page_num p r st3 = Some st4" and s4: "step_ok ?bp bl 0 st3 (?N(r \<mapsto> ?m, p \<mapsto> n\<lparr>nd_parent := r\<rparr>)) st4"
    using set_parent_ok [OF d3(1), of p n r] d3(2) n(1) rpq by auto
  note d4 = step_okD [OF s4]
  obtain st5 where p5: "set_parent_page_num q r st4 = Some st5"
    and s5: "step_ok ?bp bl 0 st4 (?N(r \<mapsto> ?m, p \<mapsto> n\<lparr>nd_parent := r\<rparr>, q \<mapsto> m\<lparr>nd_parent := r\<rparr>)) st5"
    using set_parent_ok [OF d4(1), of q m r] d4(2) n(2,3) rpq by auto
  note d5 = step_okD [OF s5]
  let ?bl = "bl(PageLatch r := bl (PageLatch r) + 1)"
  obtain st6 where l6: "take_lock (PageLatch r) st5 = Some st6" and s6: "step_ok ?bp ?bl 0 st5 (bt_nodes st5) st6"
    using d5(1) by (auto simp: take_lock_def step_ok_def env_ok_def page_exists_def)
  note d6 = step_okD [OF s6]
  obtain st7 where u7: "update_root_page_num_locked r st6 = Some st7" and s7: "tree_step ?bp ?bl 0 st6 (bt_nodes st6) r st7"
    using update_root_ok [OF d6(1)] by blast
  note d7 = tree_stepD [OF s7]
  have lk: "bt_locks st7 (PageLatch r) > 0" "bt_pins st7 r > 0"
    using env_okD(4) [OF d7(1), of r] env_okD(5) [OF d7(1), of "PageLatch r"] a(4) env_okD(7) [OF e, of "PageLatch r"]
    by (simp_all add: add_pos_nonneg add_nonneg_pos)
  let ?st9 = "st7\<lparr>bt_locks := (bt_locks st7)(PageLatch r := bt_locks st7 (PageLatch r) - 1), bt_pins := (bt_pins st7)(r := bt_pins st7 r - 1)\<rparr>"
  have "env_ok bp bl ?st9"
  proof (rule env_okI)
    show "page_exists s ?st9" if "bp s \<noteq> 0" for s
      using env_ok_existsD(2) [OF d7(1), of s] that a(4) by (cases "s = r") (auto simp: page_exists_def)
    show "page_exists s ?st9" if "PIN s \<in> set (mx_items (bt_mtr ?st9))" for s
      using env_ok_existsD(1) [OF d7(1), of s] that by (auto simp: page_exists_def)
  qed (use env_okD [OF d7(1)] env_okD(6,7) [OF e] in auto)
  then have "tree_step bp bl 1 st (?N(r \<mapsto> ?m, p \<mapsto> n\<lparr>nd_parent := r\<rparr>, q \<mapsto> m\<lparr>nd_parent := r\<rparr>)) r ?st9"
    using d1 d2 d3 d4 d5 d6 d7 by (simp add: tree_step_def)
  moreover have "insert_new_root p q k st = Some (SUCCESS, ?st9)"
    using a(1) i2 c3 p4 p5 l6 u7 lk by (simp add: insert_new_root_def drop_lock_def pool_unpin_def)
  ultimately show ?thesis using a(2,3) by blast
qed

section \<open>Sizes under the changes\<close>

lemma node_size_ok_parent [simp]: "node_size_ok h b (n\<lparr>nd_parent := x\<rparr>) = node_size_ok h b n"
  by (simp add: node_size_ok_def max_size_def)

lemma sizes_okD: "sizes_ok h root N \<Longrightarrow> N p = Some n \<Longrightarrow> node_size_ok h (p = root) n"
  by (simp add: sizes_ok_def)

lemma sizes_ok_upd: "sizes_ok h root N \<Longrightarrow> node_size_ok h (p = root) n \<Longrightarrow> sizes_ok h root (N(p \<mapsto> n))"
  by (simp add: sizes_ok_def)

lemma sizes_ok_reparent: "sizes_ok h root N \<Longrightarrow> sizes_ok h root (reparent q xs N)"
  unfolding sizes_ok_def by (metis node_size_ok_parent reparent_Some)

lemma node_size_okI:
  assumes "header_ok h" "nd_size n \<le> max_size h n" "max_size h n div 2 \<le> nd_size n"
  shows "node_size_ok h b n"
  using assms header_okD(4) [OF assms(1), of n] by (auto simp: node_size_ok_def)

lemma max_size_simps [simp]: "max_size h (n\<lparr>nd_items := xs\<rparr>) = max_size h n" "max_size h (n\<lparr>nd_parent := p\<rparr>) = max_size h n"
  "max_size h (n\<lparr>nd_next_brother := p\<rparr>) = max_size h n"
  by (simp_all add: max_size_def)

section \<open>Inserting into the parent\<close>

lemma attach_step_ok:
  assumes e: "env_ok bp bl st" and pre: "attach_pre (ih_attrs (bt_header st)) (bt_nodes st) root g p q r m i k nq"
    and cap: "nd_size m + 1 \<le> node_capacity (bt_header st) False"
  shows "\<exists>st1 st2. internal_insert r k q st = Some st1 \<and> set_parent_page_num q r st1 = Some st2 \<and>
     step_ok bp bl 0 st (attach_nodes (bt_nodes st) r m i k q nq) st2"
proof -
  let ?A = "ih_attrs (bt_header st)"
  note d = attach_preD [OF pre]
  obtain np where np: "bt_nodes st p = Some np" using tree_invD(8) [OF d(1,2)] by auto
  have pc: "sh_lo g p = child_bounds ?A g r m ! i" "span_hi g p = child_bounds ?A g r m ! Suc i"
    using child_okD(3,4) [OF internal_okD(4) [OF d(10,5)] d(6)] by auto
  have kb: "child_bounds ?A g r m ! i < key_bound ?A k" "key_bound ?A k < child_bounds ?A g r m ! Suc i"
    using node_okD(2) [OF tree_invD(2) [OF d(1) np]] node_okD(2) [OF tree_invD(2) [OF d(1,9)]] d(2,8,15) pc by (simp_all add: span_hi_def)
  have rng: "in_range g r (key_bound ?A k)" using kb child_bounds_range [OF d(10,5)] by (auto simp: in_range_def)
  have oks: "\<forall>x\<in>set (nd_items m). key_ok ?A (fst x)" using node_okD(3) [OF tree_invD(2) [OF d(1,3)]] by blast
  obtain i' j where l: "internal_lookup st k m = Some (i', j)" "i' < nd_size m" "child_bounds ?A g r m ! i' \<le> key_bound ?A k"
    "key_bound ?A k < child_bounds ?A g r m ! Suc i'" "child_bounds ?A g r m ! i' < key_bound ?A k \<Longrightarrow> j = Suc i'"
    using internal_lookup_ok [OF d(10) oks d(7) refl rng] by metis
  have "i' = i" using child_bounds_disjoint [OF d(10) l(2) d(5) l(3,4)] kb by simp
  then have j: "j = Suc i" using l(5) kb(1) by simp
  obtain st1 where st1: "node_insert_items r (Suc i) [(k, ChildPage q)] st = Some st1" and s1: "step_ok bp bl 0 st ((bt_nodes st)(r \<mapsto> attach_node i k q m)) st1"
    using node_insert_items_ok [OF e d(3), of "Suc i" "[(k, ChildPage q)]"] d(4,5) cap by (auto simp: insert_at_def)
  obtain st2 where st2: "set_parent_page_num q r st1 = Some st2" and s2: "step_ok bp bl 0 st1 (attach_nodes (bt_nodes st) r m i k q nq) st2"
    using set_parent_ok [OF step_okD(1) [OF s1], of q nq r] step_okD(2) [OF s1] d(9,13) by auto
  have "internal_insert r k q st = Some st1" using l(1) j st1 d(3) by (simp add: internal_insert_def)
  then show ?thesis using st2 step_ok_trans0 [OF s1 s2] by blast
qed

definition insert_done :: "attrs \<Rightarrow> IndexFileHeader \<Rightarrow> index_key set \<Rightarrow> nodes \<Rightarrow> PageNum \<Rightarrow> bool" where
  "insert_done A h E N r \<longleftrightarrow> (\<exists>g. tree_inv A N r g \<and> sh_pend g = Map.empty) \<and> sizes_ok h r N \<and> entries N = E"

text \<open>What \<open>insert_entry_into_parent\<close> needs: the node \<open>q\<close> behind \<open>p\<close> is all that is pending.\<close>

definition parent_pre :: "BplusTreeHandler \<Rightarrow> tree_shape \<Rightarrow> PageNum \<Rightarrow> PageNum \<Rightarrow> index_key \<Rightarrow> IndexNode \<Rightarrow> bool" where
  "parent_pre st g p q k n \<longleftrightarrow>
     (let h = bt_header st; A = ih_attrs h; N = bt_nodes st; root = ih_root_page h in
      header_ok h \<and> tree_inv A N root g \<and> sh_pend g = [p \<mapsto> q] \<and> N p = Some n \<and> key_ok A k \<and> key_bound A k = sh_hi g p \<and>
      sizes_ok h root N \<and> max_size h n div 2 \<le> nd_size n \<and> bt_page_count st + (sh_lvl g root - sh_lvl g p + 1) \<le> bt_max_pages st)"

lemma parent_preD:
  assumes "parent_pre st g p q k n"
  shows "header_ok (bt_header st)" "tree_inv (ih_attrs (bt_header st)) (bt_nodes st) (ih_root_page (bt_header st)) g"
    "sh_pend g = [p \<mapsto> q]" "bt_nodes st p = Some n" "key_ok (ih_attrs (bt_header st)) k" "key_bound (ih_attrs (bt_header st)) k = sh_hi g p"
    "sizes_ok (bt_header st) (ih_root_page (bt_header st)) (bt_nodes st)" "max_size (bt_header st) n div 2 \<le> nd_size n"
    "bt_page_count st + (sh_lvl g (ih_root_page (bt_header st)) - sh_lvl g p + 1) \<le> bt_max_pages st" "\<exists>nq. bt_nodes st q = Some nq" "p \<noteq> q"
proof -
  show i: "tree_inv (ih_attrs (bt_header st)) (bt_nodes st) (ih_root_page (bt_header st)) g" and s: "sh_pend g = [p \<mapsto> q]"
    using assms by (auto simp: parent_pre_def Let_def)
  show "\<exists>nq. bt_nodes st q = Some nq" "p \<noteq> q" using tree_invD(8) [OF i, of p q] s by auto
qed (use assms in \<open>auto simp: parent_pre_def Let_def\<close>)

lemma insert_at_root_ok:
  assumes e: "env_ok bp bl st" and pre: "parent_pre st g p q k n" and root: "p = ih_root_page (bt_header st)"
  shows "\<exists>st' N r. insert_entry_into_parent p q k st = Some (SUCCESS, st') \<and> tree_step bp bl 1 st N r st' \<and>
     insert_done (ih_attrs (bt_header st)) (bt_header st) (entries (bt_nodes st)) N r"
proof -
  note d = parent_preD [OF pre]
  let ?h = "bt_header st" and ?N = "bt_nodes st"
  let ?A = "ih_attrs ?h"
  obtain nq where nq: "?N q = Some nq" using d(10) by blast
  have room: "bt_page_count st + 1 \<le> bt_max_pages st" using d(9) by linarith
  obtain r st' where r: "insert_new_root p q k st = Some (SUCCESS, st')" "2 \<le> r" "?N r = None"
    and s: "tree_step bp bl 1 st (?N(r \<mapsto> \<lparr>nd_is_leaf = False, nd_parent = BP_INVALID_PAGE_NUM, nd_next_brother = 0,
        nd_items = [(zero_key ?h, ChildPage p), (k, ChildPage q)]\<rparr>, p \<mapsto> n\<lparr>nd_parent := r\<rparr>, q \<mapsto> nq\<lparr>nd_parent := r\<rparr>)) r st'"
    (is "tree_step _ _ _ _ (?N(r \<mapsto> ?m, _ \<mapsto> _, _ \<mapsto> _)) _ _")
    using insert_new_root_ok [OF e room d(1,4) nq d(11), of k] by blast
  let ?N' = "?N(r \<mapsto> ?m, p \<mapsto> n\<lparr>nd_parent := r\<rparr>, q \<mapsto> nq\<lparr>nd_parent := r\<rparr>)"
  have par: "nd_parent n = BP_INVALID_PAGE_NUM" using tree_invD(3) [OF d(2)] d(4) root by auto
  have inv: "tree_inv ?A ?N' r (root_shape p r g) \<and> entries ?N' = entries ?N"
    using new_root_inv [OF d(2), of q n nq r "zero_key ?h" k ?m ?N'] d(3,4,5,6) root nq r key_ok_zero [OF d(1)] by simp
  have rn: "r \<noteq> p" "r \<noteq> q" using r(3) d(4) nq by auto
  have "node_size_ok ?h (s = r) ns" if sn: "?N' s = Some ns" for s ns
  proof -
    consider "s = r" | "s = q" | "s = p" | "?N s = Some ns" "s \<noteq> r" "s \<noteq> p" using sn by (auto split: if_splits)
    then show ?thesis
    proof cases
      case 1
      then have "ns = ?m" using sn rn by auto
      then show ?thesis using 1 header_okD(4) [OF d(1), of ?m] by (simp add: node_size_ok_def)
    next
      case 2
      then show ?thesis using sn rn sizes_okD [OF d(7) nq] d(11) root by auto
    next
      case 3
      then show ?thesis using sn rn sizes_okD [OF d(7,4)] d(8,11) by (auto simp: node_size_ok_def)
    next
      case 4
      then show ?thesis using sizes_okD [OF d(7) 4(1)] root by simp
    qed
  qed
  then have "sizes_ok ?h r ?N'" unfolding sizes_ok_def by blast
  then have "insert_done ?A ?h (entries ?N) ?N' r" unfolding insert_done_def using inv root_shape_simps(4) by blast
  moreover have "insert_entry_into_parent p q k st = Some (SUCCESS, st')"
    using r(1) d(4) par by (simp add: insert_entry_into_parent.simps)
  ultimately show ?thesis using s by blast
qed

lemma attach_sizes:
  assumes "sizes_ok h root N" "attach_pre A N root g p q r m i k nq" "nd_size m < max_size h m"
  shows "sizes_ok h root (attach_nodes N r m i k q nq)"
proof -
  note d = attach_preD [OF assms(2)]
  have "node_size_ok h (r = root) (attach_node i k q m)" using sizes_okD [OF assms(1) d(3)] assms(3) by (auto simp: node_size_ok_def)
  moreover have "node_size_ok h (q = root) (nq\<lparr>nd_parent := r\<rparr>)" using sizes_okD [OF assms(1) d(9)] by simp
  ultimately show ?thesis using sizes_ok_upd assms(1) by blast
qed

lemma insert_into_parent_ok:
  assumes e: "env_ok bp bl st" and pre: "parent_pre st g p q k n" and m: "bt_nodes st (nd_parent n) = Some m" "\<not> nd_is_leaf m"
    "i < nd_size m" "snd (nd_items m ! i) = ChildPage p" "nd_size m < max_size (bt_header st) m" "nd_parent n \<noteq> BP_INVALID_PAGE_NUM"
  shows "\<exists>st' N. insert_entry_into_parent p q k st = Some (SUCCESS, st') \<and> tree_step bp bl 0 st N (ih_root_page (bt_header st)) st' \<and>
     insert_done (ih_attrs (bt_header st)) (bt_header st) (entries (bt_nodes st)) N (ih_root_page (bt_header st))"
proof -
  note d = parent_preD [OF pre]
  let ?h = "bt_header st" and ?N = "bt_nodes st" and ?r = "nd_parent n"
  let ?A = "ih_attrs ?h" and ?root = "ih_root_page ?h"
  obtain nq where nq: "?N q = Some nq" using d(10) by blast
  obtain st1 where g1: "get_page ?r st = Some (SUCCESS, st1)" and s1: "step_ok bp bl 0 st ?N st1"
    using get_page_ok [OF e, of ?r] m(1) by (auto simp: page_exists_def)
  note d1 = step_okD [OF s1]
  have ap: "attach_pre ?A ?N ?root g p q ?r m i k nq" unfolding attach_pre_def using d m nq by simp
  have cap: "nd_size m + 1 \<le> node_capacity ?h False" using header_okD(3) [OF d(1), of m] m(2,5) by simp
  obtain st2 st3 where st2: "internal_insert ?r k q st1 = Some st2" and st3: "set_parent_page_num q ?r st2 = Some st3"
    and s3: "step_ok bp bl 0 st1 (attach_nodes ?N ?r m i k q nq) st3"
    using attach_step_ok [OF d1(1), of ?root g p q ?r m i k nq] ap cap d1(2,3) by auto
  have "insert_done ?A ?h (entries ?N) (attach_nodes ?N ?r m i k q nq) ?root"
    using attach_inv [OF ap] attach_entries [OF ap] attach_sizes [OF d(7) ap m(5)] d(3) unfolding insert_done_def
    by (auto intro!: exI [of _ "attach_shape p g"])
  moreover have "insert_entry_into_parent p q k st = Some (SUCCESS, st3)"
    using d(4) m(1,5,6) g1 d1(2,3) st2 st3 by (simp add: insert_entry_into_parent.simps [of p])
  moreover have "tree_step bp bl 0 st (attach_nodes ?N ?r m i k q nq) ?root st3"
    using tree_step_of_step [OF step_ok_trans0 [OF s1 s3]] by simp
  ultimately show ?thesis by blast
qed

text \<open>A full parent is split, and the pending node becomes a child of the half that has its neighbour.\<close>

lemma split_parent_ok:
  assumes e: "env_ok bp bl st" and pre: "parent_pre st g p q k n" and m: "bt_nodes st (nd_parent n) = Some m" "\<not> nd_is_leaf m"
    "i < nd_size m" "snd (nd_items m ! i) = ChildPage p" "nd_size m = max_size (bt_header st) m"
    and lv: "sh_lvl g (nd_parent n) = Suc (sh_lvl g p)" "nd_parent n \<noteq> BP_INVALID_PAGE_NUM"
  shows "\<exists>st4 s k0 g' n'. insert_entry_into_parent p q k st = insert_entry_into_parent (nd_parent n) s k0 st4 \<and> env_ok bp bl st4 \<and>
     parent_pre st4 g' (nd_parent n) s k0 n' \<and> step_ok bp bl 1 st (bt_nodes st4) st4 \<and> entries (bt_nodes st4) = entries (bt_nodes st) \<and>
     sh_lvl g' (nd_parent n) = sh_lvl g (nd_parent n) \<and> sh_lvl g' (ih_root_page (bt_header st)) = sh_lvl g (ih_root_page (bt_header st))"
proof -
  note d = parent_preD [OF pre]
  let ?h = "bt_header st" and ?N = "bt_nodes st" and ?r = "nd_parent n"
  let ?A = "ih_attrs ?h" and ?root = "ih_root_page ?h" and ?j = "nd_size m div 2"
  obtain nq where nq: "?N q = Some nq" using d(10) by blast
  obtain st1 where g1: "get_page ?r st = Some (SUCCESS, st1)" and s1: "step_ok bp bl 0 st ?N st1"
    using get_page_ok [OF e, of ?r] m(1) by (auto simp: page_exists_def)
  note d1 = step_okD [OF s1]
  have io: "internal_ok ?A ?N g ?r m" using node_okD(5) [OF tree_invD(2) [OF d(2) m(1)] m(2)] .
  have rk: "?r \<notin> kid_pages (nd_items m)" using kid_ok [OF io] by metis
  have kids: "kids_exist ?N (nd_items m)"
    unfolding kids_exist_def using internal_okD(4) [OF io] by (force simp: in_set_conv_nth child_ok_def)
  have sz: "4 \<le> nd_size m" using m(5) header_okD(4) [OF d(1), of m] by simp
  have room: "bt_page_count st1 + 1 \<le> bt_max_pages st1"
    using d(9) d1(4,5) by linarith
  obtain s st2 where s: "split_node False ?r st1 = Some (SUCCESS, s, st2)" "2 \<le> s" "?N s = None" and s2: "step_ok bp bl 1 st1 (half_nodes ?N ?r m s) st2"
    using split_node_ok [OF d1(1) room, of ?r m False] m(1,2,5) d1(2,3) rk kids header_okD(3) [OF d(1), of m] by auto
  note d2 = step_okD [OF s2]
  let ?n1 = "m\<lparr>nd_items := take ?j (nd_items m)\<rparr>" and ?n2 = "(node_new False)\<lparr>nd_parent := nd_parent m, nd_items := drop ?j (nd_items m)\<rparr>"
  let ?N2 = "split_nodes ?N ?r ?n1 s ?n2" and ?b = "item_bound ?A (nd_items m ! ?j)"
  let ?g2 = "split_shape ?r s ?b g"
  have N2: "bt_nodes st2 = ?N2" using d2(2) m(2) by (simp add: half_nodes_def Let_def)
  have rp: "?r \<noteq> p" "?r \<noteq> q" "p \<noteq> ?root" "s \<noteq> p" "s \<noteq> q"
  proof -
    show "?r \<noteq> p" using lv(1) by auto
    show "?r \<noteq> q" using lv(1) tree_invD(8) [OF d(2), of p q] d(3) by auto
    show "p \<noteq> ?root" using tree_invD(3) [OF d(2)] d(4) lv(2) by auto
    show "s \<noteq> p" "s \<noteq> q" using s(3) d(4) nq by auto
  qed
  have sp: "split_pre ?A ?N ?root g ?r m ?j s ?n1 ?n2"
    using d(2,3) m s rp sz by (auto simp: split_pre_def node_new_def)
  have inv2: "tree_inv ?A ?N2 ?root ?g2" using split_inv [OF sp refl] .
  have self: "?N2 ?r = Some ?n1" "?N2 s = Some ?n2" using split_self [OF sp] by auto
  have hd: "max_size ?h ?n1 = max_size ?h m" "max_size ?h ?n2 = max_size ?h m" "node_size_ok ?h b ?n1" "node_size_ok ?h b ?n2" for b
    using m(2,5) sz d(1) by (auto simp: max_size_def node_new_def intro!: node_size_okI)
  have sizes2: "sizes_ok ?h ?root ?N2" using sizes_ok_reparent sizes_ok_upd d(7) hd(3,4) by meson
  obtain p' where p': "?N2 p = Some p'" using d(4) reparent_node [of "?N(?r \<mapsto> ?n1, s \<mapsto> ?n2)" p n] rp by auto
  have np2: "p \<notin> ran (sh_pend ?g2)" using d(3,11) rp by (simp add: split_shape_def)
  obtain m' i' where m': "?N2 (nd_parent p') = Some m'" "\<not> nd_is_leaf m'" "internal_ok ?A ?N2 ?g2 (nd_parent p') m'" "i' < nd_size m'"
    "snd (nd_items m' ! i') = ChildPage p" "sh_lvl ?g2 (nd_parent p') = Suc (sh_lvl ?g2 p)"
    "sh_lo ?g2 p = child_bounds ?A ?g2 (nd_parent p') m' ! i'" "span_hi ?g2 p = child_bounds ?A ?g2 (nd_parent p') m' ! Suc i'"
    by (rule node_has_parent [OF inv2 p' rp(3) np2])
  let ?t = "nd_parent p'"
  have pp: "p' = (if p \<in> kid_pages (nd_items ?n2) then n\<lparr>nd_parent := s\<rparr> else n)"
    using reparent_Some [OF p'] rp d(4) by (metis fun_upd_apply option.inject)
  then have t: "?t = s \<and> m' = ?n2 \<or> ?t = ?r \<and> m' = ?n1" using m'(1) self by (auto split: if_splits)
  have room': "nd_size m' < max_size ?h m'" "nd_size m' + 1 \<le> node_capacity ?h False"
    using t hd(1,2) m(5) sz header_okD(3) [OF d(1), of m] m(2) by auto
  obtain nq2 where nq2: "?N2 q = Some nq2" using nq reparent_node [of "?N(?r \<mapsto> ?n1, s \<mapsto> ?n2)" q nq] rp by auto
  have gp: "sh_pend ?g2 p = Some q" "sh_hi ?g2 p = sh_hi g p" using d(3) rp by (auto simp: split_shape_def)
  have ap: "attach_pre ?A ?N2 ?root ?g2 p q ?t m' i' k nq2"
    unfolding attach_pre_def using inv2 gp m' d(5,6) nq2 by simp
  have h2: "bt_header st2 = ?h" using d1(3) d2(3) by simp
  obtain st3 st4 where st3: "internal_insert ?t k q st2 = Some st3" and st4: "set_parent_page_num q ?t st3 = Some st4"
    and s4: "step_ok bp bl 0 st2 (attach_nodes ?N2 ?t m' i' k q nq2) st4"
    using attach_step_ok [OF d2(1), of ?root ?g2 p q ?t m' i' k nq2] ap room'(2) h2 N2 by auto
  note d4 = step_okD [OF s4]
  let ?k0 = "fst (nd_items m ! ?j)"
  have j: "?j < nd_size m" "nd_items m ! ?j \<in> set (nd_items m)" using sz by (auto intro!: nth_mem)
  have k0: "key_ok ?A ?k0" "key_bound ?A ?k0 = ?b"
    using node_okD(3) [OF tree_invD(2) [OF d(2) m(1)] j(2)] by (simp_all add: key_bound_def item_bound_def)
  have ka: "key_at s 0 st2 = Some ?k0" using self(2) N2 j(1) by (simp add: key_at_def node_key_at_def)
  have nt: "?N2 ?t = Some m'" using m'(1) .
  have ka4: "key_at s 0 st4 = Some ?k0"
  proof (cases "?t = s")
    case True
    then have "m' = ?n2" using self(2) nt by simp
    moreover from this have "Suc i' \<le> length (drop ?j (nd_items m))" using m'(4) by simp
    ultimately show ?thesis using True rp(5) j(1) d4(2) by (simp add: key_at_def node_key_at_def nth_insert_at)
  next
    case False
    then show ?thesis using self(2) rp(5) d4(2) j(1) by (simp add: key_at_def node_key_at_def)
  qed
  obtain c where c: "KeyComparator ?A k ?k0 = Some c" "sgn c = order3 (key_rank ?A k) (key_rank ?A ?k0)"
    using KeyComparator_rank [OF d(5) k0(1)] .
  have c0: "0 < c \<longleftrightarrow> ?b < key_bound ?A k"
    using c(2) k0(2) [symmetric] by (auto simp: key_bound_def order3_def sgn_if split: if_splits)
  have lq: "sh_lo ?g2 p < sh_hi g p" "sh_hi g p < span_hi ?g2 p"
    using node_okD(2) [OF tree_invD(2) [OF inv2 p']] node_okD(2) [OF tree_invD(2) [OF inv2 nq2]] tree_invD(8) [OF inv2 gp(1)] gp
    by (simp_all add: span_hi_def)
  have target: "(if 0 < c then s else ?r) = ?t"
  proof (cases "?t = s")
    case True
    then have "?b \<le> sh_lo ?g2 p" using child_bounds_range(1) [OF m'(3,4)] m'(7) by (simp add: split_shape_def)
    then have "?b < key_bound ?A k" unfolding d(6) using lq(1) by (rule le_less_trans)
    then show ?thesis using c0 True by simp
  next
    case False
    then have "?t = ?r" using t by blast
    then have "span_hi ?g2 p \<le> ?b" using child_bounds_range(3) [OF m'(3,4)] m'(8) rp(5) by (simp add: split_shape_def)
    with lq(2) have "key_bound ?A k < ?b" unfolding d(6) by (rule less_le_trans)
    then have "\<not> 0 < c" using c0 by (meson less_asym)
    then show ?thesis using \<open>?t = ?r\<close> by simp
  qed
  have run: "insert_entry_into_parent p q k st = insert_entry_into_parent ?r s ?k0 st4"
    using d(4) m(1,5) lv(2) g1 d1(2,3) s(1) ka h2 c(1) target st3 st4 ka4 by (cases "0 < c") (simp_all add: insert_entry_into_parent.simps [of p] Let_def)
  let ?g4 = "attach_shape p ?g2" and ?N4 = "attach_nodes ?N2 ?t m' i' k q nq2"
  obtain n' where n': "?N4 ?r = Some n'" "max_size ?h n' div 2 \<le> nd_size n'"
  proof (cases "?t = ?r")
    case True
    then have "m' = ?n1" using self(1) nt by simp
    then show ?thesis using that [of "attach_node i' k q m'"] True rp(2) m(5) hd(1) by simp
  next
    case False
    then show ?thesis using that [of ?n1] self(1) rp(2) m(5) hd(1) by simp
  qed
  have "sh_lvl g ?r \<le> sh_lvl g ?root" using root_top [OF d(2), of ?r] m(1) by blast
  then have lvl: "sh_lvl g ?root - sh_lvl g p = Suc (sh_lvl g ?root - sh_lvl g ?r)" using lv(1) by simp
  have "parent_pre st4 ?g4 ?r s ?k0 n'"
    unfolding parent_pre_def Let_def
  proof (intro conjI)
    have h4: "bt_header st4 = ?h" using h2 d4(3) by simp
    have ns: "s \<noteq> ?root" "?root \<noteq> s" using tree_invD(3) [OF d(2)] s(3) by auto
    show "header_ok (bt_header st4)" "bt_nodes st4 ?r = Some n'" "max_size (bt_header st4) n' div 2 \<le> nd_size n'" "key_ok (ih_attrs (bt_header st4)) ?k0"
      using d(1) n' h4 d4(2) k0 by simp_all
    show "tree_inv (ih_attrs (bt_header st4)) (bt_nodes st4) (ih_root_page (bt_header st4)) ?g4" using attach_inv [OF ap] h4 d4(2) by simp
    show "sizes_ok (bt_header st4) (ih_root_page (bt_header st4)) (bt_nodes st4)" using attach_sizes [OF sizes2 ap room'(1)] h4 d4(2) by simp
    show "sh_pend ?g4 = [?r \<mapsto> s]" using d(3) rp(1) by (auto simp: split_shape_def)
    show "key_bound (ih_attrs (bt_header st4)) ?k0 = sh_hi ?g4 ?r" using k0(2) h4 by (simp add: split_shape_def)
    show "bt_page_count st4 + (sh_lvl ?g4 (ih_root_page (bt_header st4)) - sh_lvl ?g4 ?r + 1) \<le> bt_max_pages st4"
      using d(9) lvl d4(4,5) d2(4,5) d1(4,5) h4 ns s(3) m(1) by (auto simp: split_shape_def)
  qed
  moreover have "step_ok bp bl 1 st (bt_nodes st4) st4"
    using step_ok_trans0 [OF step_ok_trans [OF s1 s2] s4] d4(2) by simp
  moreover have "entries (bt_nodes st4) = entries ?N" using attach_entries [OF ap] split_entries [OF sp] d4(2) by simp
  moreover have "sh_lvl ?g4 ?r = sh_lvl g ?r" "sh_lvl ?g4 ?root = sh_lvl g ?root"
    using s(3) m(1) tree_invD(3) [OF d(2)] by (auto simp: split_shape_def)
  ultimately show ?thesis using run d4(1) by blast
qed


lemma tree_step_weaken: "tree_step bp bl k st N r st' \<Longrightarrow> k \<le> k' \<Longrightarrow> tree_step bp bl k' st N r st'"
  by (auto simp: tree_step_def)

text \<open>Splits propagate to the root, one level at a time.\<close>

lemma insert_parent_ok:
  assumes "env_ok bp bl st" "parent_pre st g p q k n"
  shows "\<exists>st' N r. insert_entry_into_parent p q k st = Some (SUCCESS, st') \<and>
     tree_step bp bl (sh_lvl g (ih_root_page (bt_header st)) - sh_lvl g p + 1) st N r st' \<and>
     insert_done (ih_attrs (bt_header st)) (bt_header st) (entries (bt_nodes st)) N r"
  using assms
proof (induction "sh_lvl g (ih_root_page (bt_header st)) - sh_lvl g p" arbitrary: st g p q k n rule: less_induct)
  case less
  let ?h = "bt_header st" and ?N = "bt_nodes st"
  let ?root = "ih_root_page ?h" and ?r = "nd_parent n"
  note e = less.prems(1) and pre = less.prems(2)
  note d = parent_preD [OF pre]
  show ?case
  proof (cases "p = ?root")
    case True
    then show ?thesis using insert_at_root_ok [OF e pre True] by (metis diff_self_eq_0 add_0)
  next
    case False
    have "p \<notin> ran (sh_pend g)" using d(3,11) by auto
    then obtain m i where m: "?N ?r = Some m" "\<not> nd_is_leaf m" "i < nd_size m" "snd (nd_items m ! i) = ChildPage p" "sh_lvl g ?r = Suc (sh_lvl g p)"
      using node_has_parent [OF d(2,4) False] by metis
    have ri: "?r \<noteq> BP_INVALID_PAGE_NUM" using node_okD(1) [OF tree_invD(2) [OF d(2) m(1)]] by (auto simp: BP_INVALID_PAGE_NUM_def)
    have le: "nd_size m \<le> max_size ?h m" using sizes_okD [OF d(7) m(1)] by (simp add: node_size_ok_def)
    have top: "Suc (sh_lvl g p) \<le> sh_lvl g ?root" using root_top [OF d(2), of ?r] domI [of ?N ?r, OF m(1)] m(5) by (metis)
    show ?thesis
    proof (cases "nd_size m < max_size ?h m")
      case True
      then obtain st' N where "insert_entry_into_parent p q k st = Some (SUCCESS, st')" "tree_step bp bl 0 st N ?root st'"
        "insert_done (ih_attrs ?h) ?h (entries ?N) N ?root"
        using insert_into_parent_ok [OF e pre m(1-4) _ ri] by blast
      then show ?thesis using tree_step_weaken by blast
    next
      case False
      then obtain st4 s k0 g' n' where run: "insert_entry_into_parent p q k st = insert_entry_into_parent ?r s k0 st4" "env_ok bp bl st4"
        "parent_pre st4 g' ?r s k0 n'" "step_ok bp bl 1 st (bt_nodes st4) st4" "entries (bt_nodes st4) = entries ?N"
        "sh_lvl g' ?r = sh_lvl g ?r" "sh_lvl g' ?root = sh_lvl g ?root"
        using split_parent_ok [OF e pre m(1-4) _ m(5) ri] le by (metis le_antisym not_less)
      have h4: "bt_header st4 = ?h" using step_okD(3) [OF run(4)] .
      have "sh_lvl g' (ih_root_page (bt_header st4)) - sh_lvl g' ?r < sh_lvl g ?root - sh_lvl g p" using run(6,7) m(5) top h4 by simp
      from less.hyps [OF this run(2,3)] obtain st' N r where ih: "insert_entry_into_parent ?r s k0 st4 = Some (SUCCESS, st')"
        "tree_step bp bl (sh_lvl g ?root - sh_lvl g ?r + 1) st4 N r st'" "insert_done (ih_attrs ?h) ?h (entries ?N) N r"
        unfolding h4 run(5-7) by blast
      have "tree_step bp bl (sh_lvl g ?root - sh_lvl g p + 1) st N r st'"
        using tree_step_weaken [OF tree_step_trans [OF run(4) ih(2)]] m(5) top by simp
      then show ?thesis using run(1) ih(1,3) by auto
    qed
  qed
qed


section \<open>Inserting into a leaf\<close>

lemma insert_at_take_drop:
  assumes "pos \<le> length xs" "j \<le> length xs"
  shows "pos < j \<Longrightarrow> take (Suc j) (insert_at pos x xs) = insert_at pos x (take j xs)"
    "pos < j \<Longrightarrow> drop (Suc j) (insert_at pos x xs) = drop j xs"
    "j \<le> pos \<Longrightarrow> take j (insert_at pos x xs) = take j xs"
    "j \<le> pos \<Longrightarrow> drop j (insert_at pos x xs) = insert_at (pos - j) x (drop j xs)"
  using assms by (simp_all add: insert_at_def min_def take_Cons' drop_Cons' take_drop)

lemma reparent_nokids: "kid_pages xs = {} \<Longrightarrow> reparent q xs N = N"
  by (simp add: reparent_def fun_eq_iff)

lemma leaf_kids: "leaf_ok A N g p n \<Longrightarrow> kid_pages (nd_items n) = {}"
  by (auto simp: leaf_ok_def kid_pages_def)

lemma leaf_lookup_ok:
  assumes "node_ok (ih_attrs (bt_header st)) N g p n" "nd_is_leaf n" "key_ok (ih_attrs (bt_header st)) key"
  shows "leaf_lookup st key n = Some (item_pos (ih_attrs (bt_header st)) key (nd_items n),
     key_bound (ih_attrs (bt_header st)) key \<in> item_bound (ih_attrs (bt_header st)) ` set (nd_items n))"
  unfolding leaf_lookup_def using assms node_okD(4) [OF assms(1,2)] by (intro lookup_search) (auto simp: node_ok_def leaf_ok_def)

text \<open>The node operations of a leaf split: the items are those of the larger leaf, cut at \<open>j'\<close>.\<close>

lemma leaf_split_ok:
  assumes e: "env_ok bp bl st" and room: "bt_page_count st + 1 \<le> bt_max_pages st" and h: "header_ok (bt_header st)"
    and n: "bt_nodes st p = Some n" "nd_is_leaf n" "kid_pages (nd_items n) = {}" "nd_size n = max_size (bt_header st) n" and pos: "pos \<le> nd_size n"
  shows "\<exists>q st1 n1 st2 st3 st4 st5 j. split_node True p st = Some (SUCCESS, q, st1) \<and> bt_nodes st1 p = Some n1 \<and>
     set_next_page q (nd_next_brother n1) st1 = Some st2 \<and> set_parent_page_num q (nd_parent n1) st2 = Some st3 \<and> set_next_page p q st3 = Some st4 \<and>
     (if pos < nd_size n1 then leaf_insert p pos key rid st4 else leaf_insert q (pos - nd_size n1) key rid st4) = Some st5 \<and>
     2 \<le> q \<and> bt_nodes st q = None \<and> (j = nd_size n div 2 \<or> j = Suc (nd_size n div 2)) \<and>
     step_ok bp bl 1 st ((bt_nodes st)(
       p \<mapsto> n\<lparr>nd_next_brother := q, nd_items := take j (insert_at pos (key, RecordValue rid) (nd_items n))\<rparr>,
       q \<mapsto> n\<lparr>nd_items := drop j (insert_at pos (key, RecordValue rid) (nd_items n))\<rparr>)) st5"
proof -
  let ?N = "bt_nodes st" and ?h = "bt_header st" and ?j = "nd_size n div 2" and ?xs = "nd_items n" and ?x = "(key, RecordValue rid)"
  have sz: "4 \<le> nd_size n" "nd_size n \<le> node_capacity ?h True" using header_okD(3,4) [OF h, of n] n(2,4) by auto
  then have cap: "Suc ?j \<le> node_capacity ?h True" "Suc (nd_size n - ?j) \<le> node_capacity ?h True" by linarith+
  obtain q st1 where q: "split_node True p st = Some (SUCCESS, q, st1)" "2 \<le> q" "?N q = None" and s1: "step_ok bp bl 1 st (half_nodes ?N p n q) st1"
    using split_node_ok [OF e room n(1), of True] n(2,3) sz(2) by auto
  have pq: "p \<noteq> q" using n(1) q(3) by auto
  let ?n1 = "n\<lparr>nd_items := take ?j ?xs\<rparr>" and ?n2 = "(node_new True)\<lparr>nd_parent := nd_parent n, nd_items := drop ?j ?xs\<rparr>"
  have "kid_pages (drop ?j ?xs) = {}" using n(3) kid_pages_split [of ?xs ?j] by blast
  then have N1: "bt_nodes st1 = ?N(p \<mapsto> ?n1, q \<mapsto> ?n2)" using step_okD(2) [OF s1] n(2) by (simp add: half_nodes_def Let_def reparent_nokids)
  obtain st2 where st2: "set_next_page q (nd_next_brother n) st1 = Some st2" and s2: "step_ok bp bl 0 st1 (?N(p \<mapsto> ?n1, q \<mapsto> ?n2\<lparr>nd_next_brother := nd_next_brother n\<rparr>)) st2"
    using set_next_ok [OF step_okD(1) [OF s1], of q ?n2 "nd_next_brother n"] N1 by auto
  have nn: "?n2\<lparr>nd_next_brother := nd_next_brother n, nd_parent := nd_parent n\<rparr> = n\<lparr>nd_items := drop ?j ?xs\<rparr>"
    using n(2) by (cases n) (simp add: node_new_def)
  obtain st3 where st3: "set_parent_page_num q (nd_parent n) st2 = Some st3" and s3: "step_ok bp bl 0 st2 (?N(p \<mapsto> ?n1, q \<mapsto> n\<lparr>nd_items := drop ?j ?xs\<rparr>)) st3"
    using set_parent_ok [OF step_okD(1) [OF s2], of q "?n2\<lparr>nd_next_brother := nd_next_brother n\<rparr>" "nd_parent n"] step_okD(2) [OF s2] nn
    by auto
  obtain st4 where st4: "set_next_page p q st3 = Some st4"
    and s4: "step_ok bp bl 0 st3 (?N(p \<mapsto> ?n1\<lparr>nd_next_brother := q\<rparr>, q \<mapsto> n\<lparr>nd_items := drop ?j ?xs\<rparr>)) st4"
    using set_next_ok [OF step_okD(1) [OF s3], of p ?n1 q] step_okD(2) [OF s3] pq by (auto simp: fun_upd_twist)
  note d4 = step_okD [OF s4]
  have hd: "bt_header st4 = ?h" using step_okD(3) [OF s1] step_okD(3) [OF s2] step_okD(3) [OF s3] d4(3) by simp
  have s14: "step_ok bp bl 1 st (bt_nodes st4) st4" using step_ok_trans0 [OF step_ok_trans0 [OF step_ok_trans0 [OF s1 s2] s3] s4] d4(2) by simp
  have f: "bt_nodes st1 p = Some ?n1" using N1 pq by simp
  show ?thesis
  proof (cases "pos < ?j")
    case True
    have eq: "take pos (take ?j ?xs) @ [?x] @ drop pos (take ?j ?xs) = take (Suc ?j) (insert_at pos ?x ?xs)" "drop ?j ?xs = drop (Suc ?j) (insert_at pos ?x ?xs)"
      using insert_at_take_drop(1,2) [OF pos, of ?j ?x] True by (simp_all add: insert_at_def)
    obtain st5 where "leaf_insert p pos key rid st4 = Some st5" and s5: "step_ok bp bl 0 st4 (?N(
       p \<mapsto> n\<lparr>nd_next_brother := q, nd_items := take (Suc ?j) (insert_at pos ?x ?xs)\<rparr>, q \<mapsto> n\<lparr>nd_items := drop (Suc ?j) (insert_at pos ?x ?xs)\<rparr>)) st5"
      using node_insert_items_ok [OF d4(1), of p "?n1\<lparr>nd_next_brother := q\<rparr>" pos "[?x]"] d4(2) pq True sz cap(1) n(2) hd eq
      by (auto simp: leaf_insert_def fun_upd_twist)
    then show ?thesis using q st2 st3 st4 step_ok_trans0 [OF s14 s5] f True sz
      by - (rule exI [of _ q], rule exI [of _ st1], rule exI [of _ ?n1], rule exI [of _ st2], rule exI [of _ st3], rule exI [of _ st4],
        rule exI [of _ st5], rule exI [of _ "Suc ?j"], simp)
  next
    case False
    have eq: "take (pos - ?j) (drop ?j ?xs) @ [?x] @ drop (pos - ?j) (drop ?j ?xs) = drop ?j (insert_at pos ?x ?xs)" "take ?j ?xs = take ?j (insert_at pos ?x ?xs)"
      using insert_at_take_drop(3,4) [OF pos, of ?j ?x] False by (simp_all add: insert_at_def)
    have nb: "n\<lparr>nd_items := ys, nd_next_brother := q\<rparr> = n\<lparr>nd_next_brother := q, nd_items := ys\<rparr>" for ys by simp
    obtain st5 where "leaf_insert q (pos - ?j) key rid st4 = Some st5" and s5: "step_ok bp bl 0 st4 (?N(
       p \<mapsto> n\<lparr>nd_next_brother := q, nd_items := take ?j (insert_at pos ?x ?xs)\<rparr>, q \<mapsto> n\<lparr>nd_items := drop ?j (insert_at pos ?x ?xs)\<rparr>)) st5"
      using node_insert_items_ok [OF d4(1), of q "n\<lparr>nd_items := drop ?j ?xs\<rparr>" "pos - ?j" "[?x]"] d4(2) pq False diff_le_mono [OF pos, of ?j] sz cap(2) n(2) hd eq nb
      by (auto simp: leaf_insert_def)
    then show ?thesis using q st2 st3 st4 step_ok_trans0 [OF s14 s5] f False sz
      by - (rule exI [of _ q], rule exI [of _ st1], rule exI [of _ ?n1], rule exI [of _ st2], rule exI [of _ st3], rule exI [of _ st4],
        rule exI [of _ st5], rule exI [of _ ?j], simp)
  qed
qed


definition tree_full :: "IndexFileHeader \<Rightarrow> nodes \<Rightarrow> tree_shape \<Rightarrow> bool" where
  "tree_full h N g \<longleftrightarrow> header_ok h \<and> tree_inv (ih_attrs h) N (ih_root_page h) g \<and> sh_pend g = Map.empty \<and> sizes_ok h (ih_root_page h) N"

lemma tree_fullD:
  assumes "tree_full h N g"
  shows "header_ok h" "tree_inv (ih_attrs h) N (ih_root_page h) g" "sh_pend g = Map.empty" "sizes_ok h (ih_root_page h) N"
  using assms by (simp_all add: tree_full_def)

lemma leaf_split_pre:
  assumes f: "tree_full (bt_header st) (bt_nodes st) g" and n: "bt_nodes st p = Some n" "nd_is_leaf n" "nd_size n = max_size (bt_header st) n"
    and key: "key_ok (ih_attrs (bt_header st)) key" "in_range g p (key_bound (ih_attrs (bt_header st)) key)"
      "key_bound (ih_attrs (bt_header st)) key \<notin> item_bound (ih_attrs (bt_header st)) ` set (nd_items n)"
    and ys: "ys = insert_at (item_pos (ih_attrs (bt_header st)) key (nd_items n)) (key, RecordValue (snd key)) (nd_items n)"
    and q: "2 \<le> q" "bt_nodes st q = None" and j: "j = nd_size n div 2 \<or> j = Suc (nd_size n div 2)"
    and n1: "n1 = n\<lparr>nd_next_brother := q, nd_items := take j ys\<rparr>"
    and st5: "bt_nodes st5 = (bt_nodes st)(p \<mapsto> n1, q \<mapsto> n\<lparr>nd_items := drop j ys\<rparr>)" "bt_header st5 = bt_header st"
    and room: "bt_page_count st5 + (sh_lvl g (ih_root_page (bt_header st)) + 1) \<le> bt_max_pages st5"
  shows "\<exists>k g'. key_at q 0 st5 = Some k \<and> parent_pre st5 g' p q k n1 \<and> entries (bt_nodes st5) = insert key (entries (bt_nodes st)) \<and>
     sh_lvl g' (ih_root_page (bt_header st)) = sh_lvl g (ih_root_page (bt_header st))"
proof -
  let ?N = "bt_nodes st" and ?h = "bt_header st"
  let ?A = "ih_attrs ?h" and ?root = "ih_root_page ?h"
  note d = tree_fullD [OF f]
  let ?n' = "n\<lparr>nd_items := ys\<rparr>" and ?n2 = "n\<lparr>nd_items := drop j ys\<rparr>" and ?k = "fst (ys ! j)"
  let ?M = "?N(p \<mapsto> ?n')"
  have inv: "tree_inv ?A ?M ?root g" "entries ?M = insert key (entries ?N)"
    using leaf_insert_inv [OF d(2) n(1,2) key, of ?n'] ys by auto
  have sz: "4 \<le> nd_size n" "length ys = Suc (nd_size n)" "0 < j" "j < length ys" using header_okD(4) [OF d(1), of n] n(3) ys j by auto
  have pq: "p \<noteq> q" using n(1) q(2) by auto
  have sp: "split_pre ?A ?M ?root g p ?n' j q n1 ?n2"
    using inv(1) q sz n(2) pq d(3) by (auto simp: split_pre_def n1)
  have nk: "kid_pages (drop j ys) = {}"
    using leaf_kids [OF node_okD(4) [OF tree_invD(2) [OF inv(1), of p ?n']]] n(2) kid_pages_split [of ys j] by auto
  have N5: "split_nodes ?M p n1 q ?n2 = bt_nodes st5" using nk st5 pq by (simp add: reparent_nokids)
  let ?g = "split_shape p q (item_bound ?A (ys ! j)) g"
  have inv5: "tree_inv ?A (bt_nodes st5) ?root ?g" using split_inv [OF sp refl] N5 by simp
  have ent: "entries (bt_nodes st5) = insert key (entries ?N)" using split_entries [OF sp] unfolding N5 inv(2) .
  have mx: "max_size ?h n1 = nd_size n" "max_size ?h ?n2 = nd_size n" "nd_size n1 = j" "nd_size ?n2 = Suc (nd_size n) - j"
    using n(3) sz by (auto simp: n1)
  have "sizes_ok ?h ?root (bt_nodes st5)"
    unfolding st5(1) using mx sz j by (intro sizes_ok_upd d(4) node_size_okI d(1)) auto
  moreover have "key_ok ?A ?k"
    using node_okD(3) [OF tree_invD(2) [OF inv(1), of p ?n'], of "ys ! j"] sz(4) by simp
  moreover have "?root \<noteq> q" using tree_invD(3) [OF d(2)] q(2) by auto
  ultimately have "parent_pre st5 ?g p q ?k n1"
    unfolding parent_pre_def Let_def st5(2) using inv5 d(1,3) mx j st5(1) pq room
    by (auto simp: split_shape_def item_bound_def key_bound_def)
  moreover have "key_at q 0 st5 = Some ?k" using st5(1) sz by (simp add: key_at_def node_key_at_def)
  ultimately show ?thesis using ent \<open>?root \<noteq> q\<close> by (auto simp: split_shape_def)
qed

lemma leaf_insert_sizes:
  assumes "sizes_ok h root N" "N p = Some n" "nd_size n < max_size h n"
  shows "sizes_ok h root (N(p \<mapsto> n\<lparr>nd_items := insert_at pos x (nd_items n)\<rparr>))"
  using sizes_okD [OF assms(1,2)] assms(3) by (intro sizes_ok_upd assms(1)) (auto simp: node_size_ok_def)

lemma insert_leaf_ok:
  assumes e: "env_ok bp bl st" and f: "tree_full (bt_header st) (bt_nodes st) g" and n: "bt_nodes st p = Some n" "nd_is_leaf n"
    and key: "key_ok (ih_attrs (bt_header st)) key" "in_range g p (key_bound (ih_attrs (bt_header st)) key)" "rid = snd key"
      "key_bound (ih_attrs (bt_header st)) key \<notin> item_bound (ih_attrs (bt_header st)) ` set (nd_items n)"
    and room: "bt_page_count st + (sh_lvl g (ih_root_page (bt_header st)) + 2) \<le> bt_max_pages st"
  shows "\<exists>st' N r k. insert_entry_into_leaf_node p key rid st = Some (SUCCESS, st') \<and> tree_step bp bl k st N r st' \<and>
     insert_done (ih_attrs (bt_header st)) (bt_header st) (insert key (entries (bt_nodes st))) N r"
proof -
  let ?N = "bt_nodes st" and ?h = "bt_header st"
  let ?A = "ih_attrs ?h" and ?root = "ih_root_page ?h"
  note d = tree_fullD [OF f]
  let ?pos = "item_pos ?A key (nd_items n)" and ?x = "(key, RecordValue rid)"
  have lk: "leaf_lookup st key n = Some (?pos, False)" using leaf_lookup_ok [OF tree_invD(2) [OF d(2) n(1)] n(2) key(1)] key(4) by simp
  have nk: "kid_pages (nd_items n) = {}" using leaf_kids [OF node_okD(4) [OF tree_invD(2) [OF d(2) n(1)] n(2)]] .
  show ?thesis
  proof (cases "nd_size n < max_size ?h n")
    case True
    let ?n' = "n\<lparr>nd_items := insert_at ?pos ?x (nd_items n)\<rparr>"
    have cap: "nd_size n + 1 \<le> node_capacity ?h (nd_is_leaf n)" using header_okD(3) [OF d(1), of n] True by linarith
    obtain st1 where st1: "leaf_insert p ?pos key rid st = Some st1" and s1: "step_ok bp bl 0 st (?N(p \<mapsto> ?n')) st1"
      using node_insert_items_ok [OF e n(1) item_pos_le [of ?A key], of "[?x]"] n(2) cap by (auto simp: leaf_insert_def insert_at_def)
    have "tree_inv ?A (?N(p \<mapsto> ?n')) ?root g \<and> entries (?N(p \<mapsto> ?n')) = insert key (entries ?N)"
      using leaf_insert_inv [OF d(2) n key(1,2,4), of ?n'] key(3) by simp
    then have "insert_done ?A ?h (insert key (entries ?N)) (?N(p \<mapsto> ?n')) ?root"
      unfolding insert_done_def using d(3) leaf_insert_sizes [OF d(4) n(1) True] by blast
    moreover have "insert_entry_into_leaf_node p key rid st = Some (SUCCESS, st1)"
      using st1 lk n(1) True by (simp add: insert_entry_into_leaf_node_def)
    ultimately show ?thesis using tree_step_of_step [OF s1 refl] by blast
  next
    case False
    then have full: "nd_size n = max_size ?h n" using sizes_okD [OF d(4) n(1)] by (simp add: node_size_ok_def)
    have room1: "bt_page_count st + 1 \<le> bt_max_pages st" using room by linarith
    obtain q st1 n1 st2 st3 st4 st5 j where run: "split_node True p st = Some (SUCCESS, q, st1)" "bt_nodes st1 p = Some n1"
        "set_next_page q (nd_next_brother n1) st1 = Some st2" "set_parent_page_num q (nd_parent n1) st2 = Some st3" "set_next_page p q st3 = Some st4"
        "(if ?pos < nd_size n1 then leaf_insert p ?pos key rid st4 else leaf_insert q (?pos - nd_size n1) key rid st4) = Some st5"
        and q: "2 \<le> q" "?N q = None" and j: "j = nd_size n div 2 \<or> j = Suc (nd_size n div 2)"
        and s5: "step_ok bp bl 1 st (?N(p \<mapsto> n\<lparr>nd_next_brother := q, nd_items := take j (insert_at ?pos ?x (nd_items n))\<rparr>,
           q \<mapsto> n\<lparr>nd_items := drop j (insert_at ?pos ?x (nd_items n))\<rparr>)) st5"
      using leaf_split_ok [OF e room1 d(1) n nk full item_pos_le [of ?A key], of key rid] by blast
    note d5 = step_okD [OF s5]
    obtain k g' where k: "key_at q 0 st5 = Some k"
      "parent_pre st5 g' p q k (n\<lparr>nd_next_brother := q, nd_items := take j (insert_at ?pos ?x (nd_items n))\<rparr>)"
      "entries (bt_nodes st5) = insert key (entries ?N)" "sh_lvl g' ?root = sh_lvl g ?root"
      using leaf_split_pre [OF f n full key(1,2,4) refl q j refl, of st5] d5 room key(3) by auto
    obtain st' N r where p: "insert_entry_into_parent p q k st5 = Some (SUCCESS, st')"
       "tree_step bp bl (sh_lvl g' ?root - sh_lvl g' p + 1) st5 N r st'" "insert_done ?A ?h (insert key (entries ?N)) N r"
      using insert_parent_ok [OF d5(1) k(2)] d5(3) k(3) by auto
    have "insert_entry_into_leaf_node p key rid st = Some (SUCCESS, st')"
      using run k(1) p(1) lk n(1) False by (simp add: insert_entry_into_leaf_node_def split del: if_split)
    moreover have "tree_step bp bl (1 + (sh_lvl g' ?root - sh_lvl g' p + 1)) st N r st'"
      using tree_step_trans [OF s5 p(2)] .
    ultimately show ?thesis using p(3) by blast
  qed
qed

end
