(* ===== verification/BplusIndex.thy ===== *)
theory BplusIndex
  imports BplusInsert
begin

text \<open>
  The operations of the B+-tree index on a tree in order: what \<open>insert_entry\<close> does to the set of its
  entries, on every branch, and that no pin or latch is left when it returns.
\<close>

section \<open>The end of a mini transaction\<close>

abbreviation no_pins :: "PageNum \<Rightarrow> int" where "no_pins \<equiv> \<lambda>_. 0"
abbreviation no_locks :: "lock_target \<Rightarrow> int" where "no_locks \<equiv> \<lambda>_. 0"

definition without :: "PageNum list \<Rightarrow> nodes \<Rightarrow> nodes" where
  "without ps N = (\<lambda>p. if p \<in> set ps then None else N p)"

lemma without_Nil [simp]: "without [] N = N"
  by (simp add: without_def)

lemma dispose_pages_ok:
  assumes "\<forall>p. bt_pins st p = 0"
  shows "dispose_pages ps st = Some (st\<lparr>bt_nodes := without ps (bt_nodes st)\<rparr>)"
  using assms
proof (induction ps arbitrary: st)
  case (Cons p ps)
  have "without (p # ps) (bt_nodes st) = without ps ((bt_nodes st)(p := None))" by (auto simp: without_def)
  then show ?case using Cons by (simp add: pool_dispose_def del: fun_upd_apply)
qed simp

text \<open>A state between two operations.\<close>

definition quiet :: "BplusTreeHandler \<Rightarrow> bool" where
  "quiet st \<longleftrightarrow> env_ok no_pins no_locks (mtr_begin st)"

definition ends_in :: "BplusTreeHandler \<Rightarrow> BplusTreeHandler \<Rightarrow> bool" where
  "ends_in st st' \<longleftrightarrow> quiet st' \<and> bt_nodes st' = without (mx_disposed (bt_mtr st)) (bt_nodes st) \<and> bt_header st' = bt_header st \<and>
     bt_page_count st' \<le> bt_page_count st \<and> bt_max_pages st' = bt_max_pages st"

lemma ends_inD:
  assumes "ends_in st st'"
  shows "quiet st'" "bt_nodes st' = without (mx_disposed (bt_mtr st)) (bt_nodes st)" "bt_header st' = bt_header st"
    "bt_page_count st' \<le> bt_page_count st" "bt_max_pages st' = bt_max_pages st"
  using assms by (simp_all add: ends_in_def)

lemma quietD:
  assumes "quiet st"
  shows "bt_faults st = []" "\<forall>p. bt_pins st p = 0" "\<forall>t. bt_locks st t = 0"
  using assms by (simp_all add: quiet_def env_ok_def mtr_begin_def MiniTransaction_new_def)

lemma mtr_begin_simps [simp]: "bt_nodes (mtr_begin st) = bt_nodes st" "bt_header (mtr_begin st) = bt_header st"
  "bt_page_count (mtr_begin st) = bt_page_count st" "bt_max_pages (mtr_begin st) = bt_max_pages st"
  "bt_locks (mtr_begin st) = bt_locks st" "bt_mtr (mtr_begin st) = MiniTransaction_new" "is_empty (mtr_begin st) = is_empty st"
  by (simp_all add: mtr_begin_def is_empty_def)

lemma mtr_new_simps [simp]: "mx_items MiniTransaction_new = []" "mx_disposed MiniTransaction_new = []" "mx_entries MiniTransaction_new = []"
  "mx_need_log MiniTransaction_new"
  by (simp_all add: MiniTransaction_new_def)

lemma memo_release_ok:
  assumes e: "env_ok no_pins no_locks st"
  shows "\<exists>st'. memo_release st = Some st' \<and> ends_in st st'"
proof -
  obtain st1 where r: "release_to (length (mx_items (bt_mtr st))) st = Some st1" and s: "step_ok no_pins no_locks 0 st (bt_nodes st) st1"
    and i: "mx_items (bt_mtr st1) = []" using release_to_ok [OF e, of "length (mx_items (bt_mtr st))"] by auto
  note d = step_okD [OF s]
  have z: "bt_pins st1 p = 0" "bt_locks st1 t = 0" for p t using env_okD(4,5) [OF d(1)] i by simp_all
  let ?st = "st1\<lparr>bt_nodes := without (mx_disposed (bt_mtr st1)) (bt_nodes st1)\<rparr>"
  let ?st' = "mtr_update (mx_disposed_update (\<lambda>_. [])) ?st"
  have "env_ok no_pins no_locks (mtr_begin ?st')"
  proof (rule env_okI)
    show "2 \<le> p \<and> p < int (bt_page_count (mtr_begin ?st'))" if "bt_nodes (mtr_begin ?st') p = Some n" for p n
      using env_okD(3) [OF d(1), of p n] that by (simp add: without_def mtr_begin_def split: if_splits)
  qed (use env_okD(1,2) [OF d(1)] z in \<open>auto simp: mtr_begin_def\<close>)
  then have "ends_in st ?st'" using d by (simp add: ends_in_def quiet_def)
  moreover have "memo_release st = Some ?st'" using r dispose_pages_ok [of st1] z d(6) by (simp add: memo_release_def)
  ultimately show ?thesis by blast
qed


lemma commit_ok: "env_ok bp bl st \<Longrightarrow> env_ok bp bl (mtr_commit st)"
  "bt_nodes (mtr_commit st) = bt_nodes st" "bt_header (mtr_commit st) = bt_header st" "bt_page_count (mtr_commit st) = bt_page_count st"
  "bt_max_pages (mtr_commit st) = bt_max_pages st" "mx_disposed (bt_mtr (mtr_commit st)) = mx_disposed (bt_mtr st)"
  "mx_entries (bt_mtr (mtr_commit st)) = []"
  by (auto simp: mtr_commit_def env_ok_def page_exists_def)

lemma mtr_end_ok:
  assumes e: "env_ok no_pins no_locks st" and rc: "rc = SUCCESS \<or> mx_entries (bt_mtr st) = []"
  shows "\<exists>st'. mtr_end rc st = Some st' \<and> ends_in st st'"
proof -
  define w where "w = (if OB_SUCC rc then Some (mtr_commit st) else mtr_rollback st)"
  obtain st1 where w: "w = Some st1" and e1: "env_ok no_pins no_locks st1" and f: "bt_nodes st1 = bt_nodes st" "bt_header st1 = bt_header st"
    "bt_page_count st1 = bt_page_count st" "bt_max_pages st1 = bt_max_pages st" "mx_disposed (bt_mtr st1) = mx_disposed (bt_mtr st)"
  proof (cases "rc = SUCCESS")
    case True
    then show ?thesis using that [of "mtr_commit st"] commit_ok(1) [OF e] commit_ok(2-6) [of st] by (simp add: w_def)
  next
    case False
    then show ?thesis using that rc e by (simp add: w_def OB_SUCC_def mtr_rollback_def env_ok_def page_exists_def)
  qed
  obtain st' where "memo_release (mtr_commit st1) = Some st'" "ends_in (mtr_commit st1) st'"
    using memo_release_ok [OF commit_ok(1) [OF e1]] by blast
  then show ?thesis using w f commit_ok(2-6) [of st1] unfolding w_def by (auto simp: mtr_end_def ends_in_def)
qed

section \<open>The invariant of the index\<close>

definition index_inv :: "BplusTreeHandler \<Rightarrow> bool" where
  "index_inv st \<longleftrightarrow> quiet st \<and> header_ok (bt_header st) \<and>
     (if is_empty st then bt_nodes st = Map.empty else \<exists>g. tree_full (bt_header st) (bt_nodes st) g)"

text \<open>The header after a change of the root.\<close>

lemma insert_done_full:
  assumes "insert_done (ih_attrs h) h E N r" "header_ok h" "h' = h\<lparr>ih_root_page := r\<rparr>"
  shows "\<exists>g. tree_full h' N g" "entries N = E" "r \<noteq> BP_INVALID_PAGE_NUM"
proof -
  obtain g where g: "tree_inv (ih_attrs h) N r g" "sh_pend g = Map.empty" "sizes_ok h r N" "entries N = E"
    using assms(1) by (auto simp: insert_done_def)
  show "\<exists>g. tree_full h' N g" "entries N = E" using g assms(2,3) by (auto simp: tree_full_def)
  obtain n where "N r = Some n" using tree_invD(3) [OF g(1)] by auto
  from node_okD(1) [OF tree_invD(2) [OF g(1) this]] show "r \<noteq> BP_INVALID_PAGE_NUM" by (auto simp: BP_INVALID_PAGE_NUM_def)
qed

text \<open>A first leaf.\<close>

definition one_shape :: tree_shape where
  "one_shape = \<lparr>sh_lo = \<lambda>_. MinB, sh_hi = \<lambda>_. MaxB, sh_lvl = \<lambda>_. 0, sh_pend = Map.empty\<rparr>"

lemma one_leaf_inv:
  assumes h: "header_ok h" and key: "key_ok (ih_attrs h) key" and p: "2 \<le> p"
    and n: "n = (node_new True)\<lparr>nd_items := [(key, RecordValue (snd key))]\<rparr>"
  shows "insert_done (ih_attrs h) h {key} [p \<mapsto> n] p"
proof -
  let ?A = "ih_attrs h" and ?N = "[p \<mapsto> n]"
  have "node_ok ?A ?N one_shape p n" using key p by (simp add: node_ok_def leaf_ok_def one_shape_def node_new_def n)
  then have "tree_inv ?A ?N p one_shape"
    by (intro tree_invI) (auto simp: one_shape_def span_hi_def node_new_def n split: if_splits)
  moreover have "sizes_ok h p ?N" using header_okD(4) [OF h, of n] by (auto simp: sizes_ok_def node_size_ok_def n node_new_def)
  ultimately show ?thesis unfolding insert_done_def by (auto intro!: exI [of _ one_shape] simp: one_shape_def leaf_keys_def n node_new_def entries_def)
qed

lemma create_new_tree_ok:
  assumes e: "env_ok bp bl st" and room: "bt_page_count st + 1 \<le> bt_max_pages st" and h: "header_ok (bt_header st)"
    and emp: "is_empty st" "bt_nodes st = Map.empty" and key: "key_ok (ih_attrs (bt_header st)) key" "rid = snd key"
  shows "\<exists>st' N r. create_new_tree key rid st = Some (SUCCESS, st') \<and> tree_step bp bl 1 st N r st' \<and>
     insert_done (ih_attrs (bt_header st)) (bt_header st) {key} N r"
proof -
  obtain p st1 where p: "memo_allocate_page st = Some (SUCCESS, p, st1)" "2 \<le> p" and s1: "step_ok bp bl 1 st [p \<mapsto> blank_node] st1"
    using memo_allocate_ok [OF e room] emp(2) by auto
  note d1 = step_okD [OF s1]
  let ?n = "(node_new True)\<lparr>nd_items := [(key, RecordValue (snd key))]\<rparr>"
  have s2: "step_ok bp bl 0 st1 [p \<mapsto> node_new True] (leaf_init_empty p st1)"
    using node_init_ok [OF d1(1), of p True] d1(2) by (auto simp: node_init_empty_def)
  note d2 = step_okD [OF s2]
  have cap: "1 \<le> node_capacity (bt_header st) True" using header_okD(3,4) [OF h, of "node_new True"] by (simp add: node_new_def)
  obtain st3 where st3: "leaf_insert p 0 key rid (leaf_init_empty p st1) = Some st3" and s3: "step_ok bp bl 0 (leaf_init_empty p st1) [p \<mapsto> ?n] st3"
    using node_insert_items_ok [OF d2(1), of p "node_new True" 0 "[(key, RecordValue rid)]"] d1(3) d2(2,3) cap key(2)
    by (auto simp: leaf_insert_def node_new_def)
  note d3 = step_okD [OF s3]
  obtain st4 where u: "update_root_page_num_locked p st3 = Some st4" and s4: "tree_step bp bl 0 st3 [p \<mapsto> ?n] p st4"
    using update_root_ok [OF d3(1), of p] d3(2) by auto
  have "tree_step bp bl 1 st [p \<mapsto> ?n] p st4"
    using tree_step_trans [OF step_ok_trans0 [OF step_ok_trans0 [OF s1 s2] s3] s4] by simp
  moreover have "create_new_tree key rid st = Some (SUCCESS, st4)"
    using p(1) st3 u emp(1) by (simp add: create_new_tree_def is_empty_def)
  ultimately show ?thesis using one_leaf_inv [OF h key(1) p(2) refl] by blast
qed


section \<open>Levels\<close>

lemma leaf_level:
  assumes "tree_inv A N root g" "N p = Some n"
  shows "nd_is_leaf n \<longleftrightarrow> sh_lvl g p = 0"
proof (cases "nd_is_leaf n")
  case True
  then show ?thesis using node_okD(4) [OF tree_invD(2) [OF assms]] by (simp add: leaf_ok_def)
next
  case False
  have io: "internal_ok A N g p n" using node_okD(5) [OF tree_invD(2) [OF assms] False] .
  have "0 < nd_size n" using internal_okD(1) [OF io] by simp
  from internal_okD(4) [OF io this] show ?thesis using False by (auto simp: child_ok_def)
qed

lemma level_below:
  assumes inv: "tree_inv A N root g" and p: "N p = Some n" and k: "k \<le> sh_lvl g p"
  shows "\<exists>q\<in>dom N. sh_lvl g q = k"
  using p k
proof (induction "sh_lvl g p" arbitrary: p n)
  case (Suc l)
  show ?case
  proof (cases "k = Suc l")
    case False
    have "\<not> nd_is_leaf n" using leaf_level [OF inv Suc.prems(1)] Suc.hyps(2) by simp
    then have io: "internal_ok A N g p n" using node_okD(5) [OF tree_invD(2) [OF inv Suc.prems(1)]] by blast
    have "0 < nd_size n" using internal_okD(1) [OF io] by simp
    from internal_okD(4) [OF io this] obtain c m where c: "N c = Some m" "sh_lvl g p = Suc (sh_lvl g c)" by (auto simp: child_ok_def)
    show ?thesis using Suc.hyps(1) [of c m] Suc.hyps(2) Suc.prems(2) c False by simp
  qed (use Suc in auto)
qed auto

lemma level_card:
  assumes inv: "tree_inv A N root g"
  shows "sh_lvl g root < card (dom N)"
proof -
  obtain n where n: "N root = Some n" using tree_invD(3) [OF inv] by auto
  have "{..sh_lvl g root} \<subseteq> sh_lvl g ` dom N" using level_below [OF inv n] by blast
  then have "card {..sh_lvl g root} \<le> card (sh_lvl g ` dom N)" using tree_invD(1) [OF inv] by (intro card_mono) auto
  also have "\<dots> \<le> card (dom N)" by (rule card_image_le) (rule tree_invD(1) [OF inv])
  finally show ?thesis by simp
qed

section \<open>Entries and the leaf of a key\<close>

lemma leaf_keys_range:
  assumes "tree_inv A N root g" "N p = Some n" "k \<in> leaf_keys n"
  shows "nd_is_leaf n" "in_range g p (key_bound A k)" "key_bound A k \<in> item_bound A ` set (nd_items n)" "key_ok A k"
proof -
  show l: "nd_is_leaf n" using assms(3) by (auto simp: leaf_keys_def split: if_splits)
  obtain x where x: "x \<in> set (nd_items n)" "k = fst x" using assms(3) l by (auto simp: leaf_keys_def)
  have "item_bound A x = key_bound A k" using x(2) by (simp add: item_bound_def key_bound_def)
  then show "in_range g p (key_bound A k)" "key_bound A k \<in> item_bound A ` set (nd_items n)" "key_ok A k"
    using node_okD(4) [OF tree_invD(2) [OF assms(1,2)] l] node_okD(3) [OF tree_invD(2) [OF assms(1,2)] x(1)] x
    by (auto simp: leaf_ok_def in_range_def intro: rev_image_eqI)
qed

lemma entries_ok: "tree_inv A N root g \<Longrightarrow> k \<in> entries N \<Longrightarrow> key_ok A k"
  by (auto simp: entries_def ran_def dest: leaf_keys_range(4))

lemma leaf_has_key:
  assumes inv: "tree_inv A N root g" "sh_pend g = Map.empty" and q: "N q = Some m" "nd_is_leaf m" "in_range g q b"
  shows "b \<in> item_bound A ` set (nd_items m) \<longleftrightarrow> b \<in> key_bound A ` entries N"
proof
  assume "b \<in> item_bound A ` set (nd_items m)"
  then obtain x where x: "x \<in> set (nd_items m)" "b = item_bound A x" by blast
  then have "fst x \<in> leaf_keys m" using q(2) by (simp add: leaf_keys_def)
  then have "fst x \<in> entries N" using q(1) entries_split by blast
  then show "b \<in> key_bound A ` entries N" using x(2) by (auto simp: item_bound_def key_bound_def)
next
  assume "b \<in> key_bound A ` entries N"
  then obtain k p n where k: "b = key_bound A k" "N p = Some n" "k \<in> leaf_keys n" by (auto simp: entries_def ran_def)
  note r = leaf_keys_range [OF inv(1) k(2,3)]
  have "sh_lvl g p = sh_lvl g q" using leaf_level [OF inv(1)] k(2) q(1,2) r(1) by metis
  then have "p = q" using level_unique [OF inv(1)] k(2) q(1,3) r(2) k(1) inv(2) by (metis option.distinct(1))
  then show "b \<in> item_bound A ` set (nd_items m)" using r(3) k q(1) by simp
qed


section \<open>A search leaves the log entries alone\<close>

lemma pool_outcome_mtr: "pool_outcome st = (rc, st') \<Longrightarrow> bt_mtr st' = bt_mtr st"
  by (auto simp: pool_outcome_def split: list.splits)

lemma get_page_entries: "get_page p st = Some (rc, st') \<Longrightarrow> mx_entries (bt_mtr st') = mx_entries (bt_mtr st)"
  by (auto simp: get_page_def pool_pin_def memo_push_def bind_eq_Some_conv split: prod.splits if_splits dest!: pool_outcome_mtr)

lemma latch_entries: "memo_xlatch t st = Some st' \<Longrightarrow> mx_entries (bt_mtr st') = mx_entries (bt_mtr st)"
  "memo_slatch t st = Some st' \<Longrightarrow> mx_entries (bt_mtr st') = mx_entries (bt_mtr st)"
  by (auto simp: memo_xlatch_def memo_slatch_def take_lock_def memo_push_def bind_eq_Some_conv split: if_splits)

lemma release_item_mtr: "release_item x st = Some st' \<Longrightarrow> bt_mtr st' = bt_mtr st"
  by (auto simp: release_item_def drop_lock_def pool_unpin_def bind_eq_Some_conv split: LatchMemoItem.splits if_splits)

lemma release_items_mtr: "release_items xs st = Some st' \<Longrightarrow> bt_mtr st' = bt_mtr st"
  by (induction xs arbitrary: st) (auto simp: bind_eq_Some_conv dest: release_item_mtr)

lemma release_to_entries: "release_to k st = Some st' \<Longrightarrow> mx_entries (bt_mtr st') = mx_entries (bt_mtr st)"
  by (auto simp: release_to_def Let_def bind_eq_Some_conv split: if_splits dest!: release_items_mtr)

lemma fetch_entries: "crabing_protocal_fetch_page op p b st = Some (rc, st') \<Longrightarrow> mx_entries (bt_mtr st') = mx_entries (bt_mtr st)"
  by (auto simp: crabing_protocal_fetch_page_def Let_def bind_eq_Some_conv split: if_splits
      dest!: get_page_entries latch_entries release_to_entries)

lemma find_leaf_loop_entries:
  "find_leaf_loop op getter p st = Some r \<Longrightarrow> mx_entries (bt_mtr (snd (snd r))) = mx_entries (bt_mtr st)"
proof (rule find_leaf_loop.raw_induct [where P = "\<lambda>op getter p st r. mx_entries (bt_mtr (snd (snd r))) = mx_entries (bt_mtr st)"])
  fix loop :: "BplusTreeOperationType \<Rightarrow> (BplusTreeHandler \<Rightarrow> IndexNode \<Rightarrow> PageNum option) \<Rightarrow> PageNum \<Rightarrow> BplusTreeHandler \<Rightarrow> (RC \<times> PageNum \<times> BplusTreeHandler) option"
    and op getter p st r
  assume ih: "\<And>op getter p st r. loop op getter p st = Some r \<Longrightarrow> mx_entries (bt_mtr (snd (snd r))) = mx_entries (bt_mtr st)"
    and run: "Option.bind (bt_nodes st p) (\<lambda>n.
       if nd_is_leaf n then Some (SUCCESS, p, st)
       else Option.bind (getter st n) (\<lambda>next_page_id.
         Option.bind (crabing_protocal_fetch_page op next_page_id False st) (\<lambda>r.
           if OB_FAIL (fst r) then Some (fst r, p, snd r) else loop op getter next_page_id (snd r)))) = Some r"
  from run obtain n where n: "bt_nodes st p = Some n" by (auto simp: bind_eq_Some_conv)
  show "mx_entries (bt_mtr (snd (snd r))) = mx_entries (bt_mtr st)"
  proof (cases "nd_is_leaf n")
    case False
    with run n obtain c w where c: "crabing_protocal_fetch_page op c False st = Some w"
      "(if OB_FAIL (fst w) then Some (fst w, p, snd w) else loop op getter c (snd w)) = Some r"
      by (simp add: bind_eq_Some_conv del: OB_FAIL_iff split_paired_Ex) blast
    have w: "mx_entries (bt_mtr (snd w)) = mx_entries (bt_mtr st)" using c(1) fetch_entries [of op c False st "fst w" "snd w"] by simp
    show ?thesis
    proof (cases "OB_FAIL (fst w)")
      case False
      then show ?thesis using ih [of op getter c "snd w" r] c(2) w by simp
    qed (use c(2) w in auto)
  qed (use run n in auto)
qed

lemma find_leaf_entries: "find_leaf op key st = Some (rc, p, st') \<Longrightarrow> mx_entries (bt_mtr st') = mx_entries (bt_mtr st)"
  by (auto simp: find_leaf_def find_leaf_internal_def Let_def bind_eq_Some_conv split: if_splits
      dest!: latch_entries fetch_entries find_leaf_loop_entries)

section \<open>Insertion\<close>

text \<open>Keys are compared by their rank; the tree never holds two keys of the same rank.\<close>

definition has_key :: "BplusTreeHandler \<Rightarrow> index_key \<Rightarrow> bool" where
  "has_key st k \<longleftrightarrow> (\<exists>k'\<in>entries (bt_nodes st). key_rank (ih_attrs (bt_header st)) k' = key_rank (ih_attrs (bt_header st)) k)"

lemma has_key_bound: "has_key st k \<longleftrightarrow> key_bound (ih_attrs (bt_header st)) k \<in> key_bound (ih_attrs (bt_header st)) ` entries (bt_nodes st)"
  unfolding has_key_def image_iff key_bound_def by (metis bound.inject)

lemma index_invD:
  assumes "index_inv st"
  shows "quiet st" "header_ok (bt_header st)" "is_empty st \<Longrightarrow> bt_nodes st = Map.empty" "\<not> is_empty st \<Longrightarrow> \<exists>g. tree_full (bt_header st) (bt_nodes st) g"
    "env_ok no_pins no_locks (mtr_begin st)"
  using assms by (auto simp: index_inv_def quiet_def)

lemma index_invI:
  assumes "quiet st'" "bt_nodes st' = N" "bt_header st' = h\<lparr>ih_root_page := r\<rparr>" "insert_done (ih_attrs h) h E N r" "header_ok h"
  shows "index_inv st'" "entries (bt_nodes st') = E"
  using insert_done_full [OF assms(4,5,3)] assms by (auto simp: index_inv_def is_empty_def)

lemma make_key_ok:
  "length u = ih_total_attr_length (bt_header st) \<Longrightarrow> make_key u rid st = Some (u, rid)"
  by (simp add: make_key_def mem_read_def)

text \<open>Only the root page number of the header changes.\<close>

definition same_index :: "BplusTreeHandler \<Rightarrow> BplusTreeHandler \<Rightarrow> bool" where
  "same_index st st' \<longleftrightarrow> (\<exists>r. bt_header st' = (bt_header st)\<lparr>ih_root_page := r\<rparr>)"

lemma same_indexI: "bt_header st' = (bt_header st)\<lparr>ih_root_page := r\<rparr> \<Longrightarrow> same_index st st'" "bt_header st' = bt_header st \<Longrightarrow> same_index st st'"
  unfolding same_index_def by (blast, rule exI [of _ "ih_root_page (bt_header st)"], simp)

lemma same_indexD:
  assumes "same_index st st'"
  shows "ih_attrs (bt_header st') = ih_attrs (bt_header st)" "ih_unique (bt_header st') = ih_unique (bt_header st)"
    "ih_internal_max_size (bt_header st') = ih_internal_max_size (bt_header st)"
  using assms by (auto simp: same_index_def)

lemma insert_empty_ok:
  assumes inv: "index_inv st" and emp: "is_empty st" and key: "key_ok (ih_attrs (bt_header st)) (u, rid)" and room: "bt_page_count st + 1 \<le> bt_max_pages st"
  shows "\<exists>st'. insert_entry u rid is_null st = Some (SUCCESS, st') \<and> index_inv st' \<and> entries (bt_nodes st') = {(u, rid)} \<and> same_index st st'"
proof -
  note d = index_invD [OF inv]
  let ?st0 = "mtr_begin st" and ?N = "bt_nodes st"
  obtain st1 where l1: "take_lock RootLock ?st0 = Some st1" and e1: "env_ok no_pins (no_locks(RootLock := 1)) st1"
    and f1: "bt_nodes st1 = bt_nodes st" "bt_header st1 = bt_header st" "bt_page_count st1 = bt_page_count st" "bt_max_pages st1 = bt_max_pages st"
      "mx_disposed (bt_mtr st1) = []"
    using d(5) quietD(3) [OF d(1)] by (auto simp: take_lock_def env_ok_def page_exists_def)
  obtain st2 N r where c: "create_new_tree (u, rid) rid st1 = Some (SUCCESS, st2)" and s2: "tree_step no_pins (no_locks(RootLock := 1)) 1 st1 N r st2"
    and fin: "insert_done (ih_attrs (bt_header st)) (bt_header st) {(u, rid)} N r"
    using create_new_tree_ok [OF e1, of "(u, rid)" rid] f1 d(2,3) emp key room by (auto simp: is_empty_def)
  note d2 = tree_stepD [OF s2]
  obtain st3 where l3: "drop_lock RootLock st2 = Some st3" and e3: "env_ok no_pins no_locks st3"
    and f3: "bt_nodes st3 = bt_nodes st2" "bt_header st3 = bt_header st2" "mx_disposed (bt_mtr st3) = mx_disposed (bt_mtr st2)"
    using d2(1) env_okD(5) [OF d2(1), of RootLock] by (auto simp: drop_lock_def env_ok_def page_exists_def add_pos_nonneg)
  obtain st4 where m: "mtr_end SUCCESS st3 = Some st4" and en: "ends_in st3 st4" using mtr_end_ok [OF e3] by blast
  have "length u = ih_total_attr_length (bt_header st)" using key header_okD(2) [OF d(2)] by (simp add: key_ok_def)
  then have "insert_entry u rid is_null st = Some (SUCCESS, st4)"
    using l1 c l3 m emp by (simp add: insert_entry_def make_key_ok)
  moreover have "index_inv st4" "entries (bt_nodes st4) = {(u, rid)}"
    using index_invI [OF ends_inD(1) [OF en] _ _ fin d(2)] ends_inD(2,3) [OF en] f1 f3 d2(2,3,6) by auto
  moreover have "same_index st st4" using same_indexI(1) [of st4 r st] ends_inD(3) [OF en] f1 f3 d2(3) by simp
  ultimately show ?thesis by blast
qed

text \<open>A refused operation has changed nothing when its mini transaction ends.\<close>

lemma duplicate_path:
  assumes inv: "index_inv st" and emp: "\<not> is_empty st" and key: "key_ok (ih_attrs (bt_header st)) k" and has: "has_key st k"
  shows "\<exists>p st1. find_leaf OP_INSERT_ENTRY k (mtr_begin st) = Some (SUCCESS, p, st1) \<and>
    insert_entry_into_leaf_node p k rid st1 = Some (RECORD_DUPLICATE_KEY, st1)"
proof -
  note d = index_invD [OF inv]
  obtain g where f: "tree_full (bt_header st) (bt_nodes st) g" using d(4) [OF emp] by blast
  note t = tree_fullD [OF f]
  obtain p st1 n where fl: "find_leaf OP_INSERT_ENTRY k (mtr_begin st) = Some (SUCCESS, p, st1)" and s: "step_ok no_pins no_locks 0 (mtr_begin st) (bt_nodes st) st1"
    and n: "bt_nodes st p = Some n" "nd_is_leaf n" "in_range g p (key_bound (ih_attrs (bt_header st)) k)"
    using find_leaf_ok [OF d(5), of g k OP_INSERT_ENTRY] t(2,3) key quietD(3) [OF d(1)] by auto
  have "key_bound (ih_attrs (bt_header st)) k \<in> item_bound (ih_attrs (bt_header st)) ` set (nd_items n)"
    using leaf_has_key [OF t(2,3) n] has by (simp add: has_key_bound)
  then have "insert_entry_into_leaf_node p k rid st1 = Some (RECORD_DUPLICATE_KEY, st1)"
    using leaf_lookup_ok [of st1 "bt_nodes st" g p n k] tree_invD(2) [OF t(2) n(1)] step_okD(2,3) [OF s] n key
    by (simp add: insert_entry_into_leaf_node_def)
  then show ?thesis using fl by blast
qed

lemma insert_tree_ok:
  assumes inv: "index_inv st" and emp: "\<not> is_empty st" and key: "key_ok (ih_attrs (bt_header st)) (u, rid)"
    and room: "bt_page_count st + card (dom (bt_nodes st)) + 1 \<le> bt_max_pages st" and nu: "ih_unique (bt_header st) = 1 \<longrightarrow> is_null"
  shows "\<exists>rc st'. insert_entry u rid is_null st = Some (rc, st') \<and> index_inv st' \<and> same_index st st' \<and>
     (if has_key st (u, rid) then rc = RECORD_DUPLICATE_KEY \<and> entries (bt_nodes st') = entries (bt_nodes st)
      else rc = SUCCESS \<and> entries (bt_nodes st') = insert (u, rid) (entries (bt_nodes st)))"
proof -
  note d = index_invD [OF inv]
  let ?st0 = "mtr_begin st" and ?N = "bt_nodes st" and ?h = "bt_header st" let ?A = "ih_attrs ?h" and ?k = "(u, rid)"
  obtain g where f: "tree_full ?h ?N g" using d(4) [OF emp] by blast
  note t = tree_fullD [OF f]
  obtain p st2 n where fl: "find_leaf OP_INSERT_ENTRY ?k ?st0 = Some (SUCCESS, p, st2)" and s2: "step_ok no_pins no_locks 0 ?st0 ?N st2"
    and n: "?N p = Some n" "nd_is_leaf n" "in_range g p (key_bound ?A ?k)"
    using find_leaf_ok [OF d(5), of g ?k OP_INSERT_ENTRY] t(2,3) key quietD(3) [OF d(1)] by auto
  note d2 = step_okD [OF s2]
  have mk: "make_key u rid st = Some ?k" using key header_okD(2) [OF d(2)] by (intro make_key_ok) (simp add: key_ok_def)
  have dup: "key_bound ?A ?k \<in> item_bound ?A ` set (nd_items n) \<longleftrightarrow> has_key st ?k"
    using leaf_has_key [OF t(2,3) n] by (simp add: has_key_bound)
  show ?thesis
  proof (cases "has_key st ?k")
    case True
    have "insert_entry_into_leaf_node p ?k rid st2 = Some (RECORD_DUPLICATE_KEY, st2)"
      using duplicate_path [OF inv emp key True] fl by auto
    moreover have "mx_entries (bt_mtr st2) = []" using find_leaf_entries [OF fl] by simp
    moreover from this obtain st4 where m: "mtr_end RECORD_DUPLICATE_KEY st2 = Some st4" and en: "ends_in st2 st4"
      using mtr_end_ok [OF d2(1)] by blast
    moreover have "index_inv st4" "entries (bt_nodes st4) = entries ?N"
      using ends_inD [OF en] d2(2,3,6) f d(2) emp by (auto simp: index_inv_def is_empty_def)
    moreover have "same_index st st4" using same_indexI(2) [of st4 st] ends_inD(3) [OF en] d2(3) by simp
    ultimately show ?thesis using True fl mk emp nu by (auto simp: insert_entry_def)
  next
    case False
    have r: "bt_page_count st2 + (sh_lvl g (ih_root_page ?h) + 2) \<le> bt_max_pages st2"
      using room d2(4,5) level_card [OF t(2)] by simp
    obtain st3 N r k where i: "insert_entry_into_leaf_node p ?k rid st2 = Some (SUCCESS, st3)" and s3: "tree_step no_pins no_locks k st2 N r st3"
      and fin: "insert_done ?A ?h (insert ?k (entries ?N)) N r"
      using insert_leaf_ok [OF d2(1), of g p n ?k rid] d2(2,3) f n key dup False r by auto
    note d3 = tree_stepD [OF s3]
    obtain st4 where m: "mtr_end SUCCESS st3 = Some st4" and en: "ends_in st3 st4" using mtr_end_ok [OF d3(1)] by blast
    have "index_inv st4" "entries (bt_nodes st4) = insert ?k (entries ?N)"
      using index_invI [OF ends_inD(1) [OF en] _ _ fin d(2)] ends_inD(2,3) [OF en] d2(3,6) d3(2,3,6) by auto
    moreover have "same_index st st4" using same_indexI(1) [of st4 r st] ends_inD(3) [OF en] d2(3) d3(3) by simp
    ultimately show ?thesis using False fl mk i m emp nu by (auto simp: insert_entry_def)
  qed
qed

end
