(* ===== verification/BplusMerge.thy ===== *)
theory BplusMerge
  imports BplusIndex
begin

text \<open>
  How a deletion changes the shape of the B+-tree: removing an item of a leaf, merging two siblings,
  moving items between siblings, which is a merge followed by a split and an insertion into the
  parent, and dropping a root that is left with one child.
\<close>

lemma tree_inv_plainI:
  assumes "sh_pend g = Map.empty" "finite (dom N)" "\<And>p n. N p = Some n \<Longrightarrow> node_ok A N g p n"
    "\<exists>n. N root = Some n \<and> nd_parent n = BP_INVALID_PAGE_NUM" "sh_lo g root = MinB" "sh_hi g root = MaxB"
    "\<And>p n. N p = Some n \<Longrightarrow> p \<noteq> root \<Longrightarrow> is_child N (nd_parent n) p"
  shows "tree_inv A N root g"
  by (rule tree_invI) (use assms in \<open>auto simp: span_hi_def\<close>)

lemma span_hi_plain: "sh_pend g = Map.empty \<Longrightarrow> span_hi g p = sh_hi g p"
  by (simp add: span_hi_def)

section \<open>Removing an item of a leaf\<close>

definition remove_at :: "nat \<Rightarrow> 'a list \<Rightarrow> 'a list" where
  "remove_at i xs = take i xs @ drop (Suc i) xs"

lemma length_remove_at [simp]: "i < length xs \<Longrightarrow> length (remove_at i xs) = length xs - 1"
  by (simp add: remove_at_def)

lemma set_remove_at_subset: "set (remove_at i xs) \<subseteq> set xs"
  by (auto simp: remove_at_def dest: in_set_takeD in_set_dropD)

lemma set_remove_at: "i < length xs \<Longrightarrow> insert (xs ! i) (set (remove_at i xs)) = set xs"
  by (metis Cons_nth_drop_Suc append_take_drop_id list.simps(15) remove_at_def set_append Un_insert_right)

lemma nth_remove_at: "i < length xs \<Longrightarrow> t < length xs - 1 \<Longrightarrow> remove_at i xs ! t = xs ! (if t < i then t else Suc t)"
  by (auto simp: remove_at_def nth_append min_def)

lemma remove_at_map: "map f (remove_at i xs) = remove_at i (map f xs)"
  by (simp add: remove_at_def take_map drop_map)

lemma sorted_remove_at: "sorted_wrt P xs \<Longrightarrow> sorted_wrt P (remove_at i xs)"
proof (induction xs arbitrary: i)
  case (Cons x xs)
  then show ?case using set_remove_at_subset [of "i - 1" xs]
    by (cases i) (auto simp: remove_at_def dest: in_set_takeD in_set_dropD)
qed (simp add: remove_at_def)

lemma leaf_remove_inv:
  assumes inv: "tree_inv A N root g" and n: "N p = Some n" "nd_is_leaf n" and i: "i < nd_size n" and ki: "k = fst (nd_items n ! i)"
    and n': "n' = n\<lparr>nd_items := remove_at i (nd_items n)\<rparr>"
  shows "tree_inv A (N(p \<mapsto> n')) root g" "entries (N(p \<mapsto> n')) \<union> {k} = entries N"
proof -
  have ok: "node_ok A N g p n" using tree_invD(2) [OF inv n(1)] .
  have l: "leaf_ok A N g p n" using node_okD(4) [OF ok n(2)] .
  have "leaf_ok A N g p n'"
    using l sorted_remove_at [of "(<)" "map (item_bound A) (nd_items n)" i] set_remove_at_subset [of i "nd_items n"]
    by (auto simp: leaf_ok_def n' remove_at_map)
  then have "node_ok A N g p n'" using ok n(2) n' set_remove_at_subset [of i "nd_items n"] by (auto simp: node_ok_def)
  then show "tree_inv A (N(p \<mapsto> n')) root g" using tree_inv_upd [OF inv n(1), of n'] n' n(2) by simp
  have "leaf_keys n' \<union> {k} = leaf_keys n"
    using n(2) n' ki arg_cong [OF set_remove_at [OF i], of "image fst"] by (simp add: leaf_keys_def)
  then show "entries (N(p \<mapsto> n')) \<union> {k} = entries N" using entries_split [of N p n] n by auto
qed

lemma item_bound_fst: "item_bound A x = key_bound A (fst x)"
  by (simp add: item_bound_def key_bound_def)

lemma leaf_items_unique:
  assumes "leaf_ok A N g p n" "i < nd_size n" "j < nd_size n" "fst (nd_items n ! i) = fst (nd_items n ! j)"
  shows "i = j"
proof -
  have "map (item_bound A) (nd_items n) ! i = map (item_bound A) (nd_items n) ! j" using assms(2-4) by (simp add: item_bound_fst)
  then show ?thesis using sorted_nth_eq [of "map (item_bound A) (nd_items n)" i j] assms(1-3) by (simp add: leaf_ok_def del: nth_map)
qed

text \<open>The key is in no other leaf.\<close>

lemma leaf_remove_entries:
  assumes inv: "tree_inv A N root g" "sh_pend g = Map.empty" and n: "N p = Some n" "nd_is_leaf n" and i: "i < nd_size n"
    and n': "n' = n\<lparr>nd_items := remove_at i (nd_items n)\<rparr>"
  shows "entries (N(p \<mapsto> n')) = entries N - {fst (nd_items n ! i)}"
proof -
  let ?k = "fst (nd_items n ! i)"
  have l: "leaf_ok A N g p n" using node_okD(4) [OF tree_invD(2) [OF inv(1) n(1)] n(2)] .
  have "?k \<notin> leaf_keys n'"
  proof
    assume "?k \<in> leaf_keys n'"
    then obtain t where t: "t < nd_size n - 1" "?k = fst (remove_at i (nd_items n) ! t)"
      using n(2) i n' by (auto simp: leaf_keys_def in_set_conv_nth)
    then have "(if t < i then t else Suc t) < nd_size n" by auto
    then show False
      using leaf_items_unique [OF l i, of "if t < i then t else Suc t"] nth_remove_at [OF i t(1)] t(2) by (auto split: if_splits)
  qed
  moreover have "?k \<notin> leaf_keys m" if "N q = Some m" "q \<noteq> p" for q m
  proof
    assume k: "?k \<in> leaf_keys m"
    have kn: "?k \<in> leaf_keys n" using i n(2) by (simp add: leaf_keys_def)
    note r = leaf_keys_range [OF inv(1) that(1) k] and rn = leaf_keys_range [OF inv(1) n(1) kn]
    have "sh_lvl g q = sh_lvl g p" using leaf_level [OF inv(1)] that(1) n r(1) by metis
    then show False using level_unique [OF inv, of q p] that n(1) r(2) rn(2) by auto
  qed
  ultimately have "?k \<notin> entries (N(p \<mapsto> n'))"
    unfolding entries_def ran_def by (auto split: if_splits)
  then show ?thesis using leaf_remove_inv(2) [OF inv(1) n i refl n'] by auto
qed

section \<open>Merging two siblings\<close>

definition merge_pre :: "attrs \<Rightarrow> nodes \<Rightarrow> PageNum \<Rightarrow> tree_shape \<Rightarrow> PageNum \<Rightarrow> IndexNode \<Rightarrow> nat \<Rightarrow> PageNum \<Rightarrow> IndexNode \<Rightarrow> PageNum \<Rightarrow> IndexNode \<Rightarrow> bool" where
  "merge_pre A N root g r m i l nl q nq \<longleftrightarrow> tree_inv A N root g \<and> sh_pend g = Map.empty \<and> N r = Some m \<and> \<not> nd_is_leaf m \<and>
     Suc i < nd_size m \<and> snd (nd_items m ! i) = ChildPage l \<and> snd (nd_items m ! Suc i) = ChildPage q \<and> N l = Some nl \<and> N q = Some nq"

definition merge_left :: "IndexNode \<Rightarrow> IndexNode \<Rightarrow> IndexNode" where
  "merge_left nl nq = nl\<lparr>nd_next_brother := (if nd_is_leaf nl then nd_next_brother nq else nd_next_brother nl), nd_items := nd_items nl @ nd_items nq\<rparr>"

abbreviation merge_node :: "nat \<Rightarrow> IndexNode \<Rightarrow> IndexNode" where
  "merge_node i m \<equiv> m\<lparr>nd_items := remove_at (Suc i) (nd_items m)\<rparr>"

definition merge_nodes :: "nodes \<Rightarrow> PageNum \<Rightarrow> IndexNode \<Rightarrow> nat \<Rightarrow> PageNum \<Rightarrow> IndexNode \<Rightarrow> PageNum \<Rightarrow> IndexNode \<Rightarrow> nodes" where
  "merge_nodes N r m i l nl q nq = (reparent l (nd_items nq) (N(r \<mapsto> merge_node i m, l \<mapsto> merge_left nl nq)))(q := None)"

definition merge_shape :: "PageNum \<Rightarrow> PageNum \<Rightarrow> tree_shape \<Rightarrow> tree_shape" where
  "merge_shape l q g = g\<lparr>sh_hi := (sh_hi g)(l := sh_hi g q)\<rparr>"

lemma merge_shape_simps [simp]: "sh_lo (merge_shape l q g) = sh_lo g" "sh_hi (merge_shape l q g) = (sh_hi g)(l := sh_hi g q)"
  "sh_lvl (merge_shape l q g) = sh_lvl g" "sh_pend (merge_shape l q g) = sh_pend g"
  by (simp_all add: merge_shape_def)

lemma merge_left_simps [simp]: "nd_is_leaf (merge_left nl nq) = nd_is_leaf nl" "nd_parent (merge_left nl nq) = nd_parent nl"
  "nd_items (merge_left nl nq) = nd_items nl @ nd_items nq"
  by (simp_all add: merge_left_def)

lemma merge_preD:
  assumes "merge_pre A N root g r m i l nl q nq"
  shows "tree_inv A N root g" "sh_pend g = Map.empty" "N r = Some m" "\<not> nd_is_leaf m" "Suc i < nd_size m"
    "snd (nd_items m ! i) = ChildPage l" "snd (nd_items m ! Suc i) = ChildPage q" "N l = Some nl" "N q = Some nq"
    "internal_ok A N g r m" "l \<noteq> q" "r \<noteq> l" "r \<noteq> q" "nd_parent nl = r" "nd_parent nq = r"
    "sh_lo g l = child_bounds A g r m ! i" "sh_hi g l = child_bounds A g r m ! Suc i" "sh_lo g q = child_bounds A g r m ! Suc i"
    "sh_hi g q = child_bounds A g r m ! Suc (Suc i)" "sh_lvl g r = Suc (sh_lvl g l)" "sh_lvl g q = sh_lvl g l" "nd_is_leaf nq = nd_is_leaf nl" "q \<noteq> root"
proof -
  show b: "tree_inv A N root g" "sh_pend g = Map.empty" "N r = Some m" "\<not> nd_is_leaf m" "Suc i < nd_size m"
    "snd (nd_items m ! i) = ChildPage l" "snd (nd_items m ! Suc i) = ChildPage q" "N l = Some nl" "N q = Some nq"
    using assms by (auto simp: merge_pre_def)
  show io: "internal_ok A N g r m" using node_okD(5) [OF tree_invD(2) [OF b(1,3)] b(4)] .
  have i: "i < nd_size m" using b(5) by simp
  note cl = child_okD [OF internal_okD(4) [OF io i] b(6)] and cq = child_okD [OF internal_okD(4) [OF io b(5)] b(7)]
  show "l \<noteq> q" using child_index_unique [OF io i b(5,6)] b(7) by auto
  show "nd_parent nl = r" "nd_parent nq = r" using cl(1) cq(1) b(8,9) by auto
  show lv: "sh_lvl g r = Suc (sh_lvl g l)" "sh_lvl g q = sh_lvl g l" using cl(2) cq(2) by auto
  then show "r \<noteq> l" "r \<noteq> q" by auto
  show "sh_lo g l = child_bounds A g r m ! i" "sh_hi g l = child_bounds A g r m ! Suc i" "sh_lo g q = child_bounds A g r m ! Suc i"
    "sh_hi g q = child_bounds A g r m ! Suc (Suc i)" using cl(3,4) cq(3,4) b(2) by (simp_all add: span_hi_plain)
  show "nd_is_leaf nq = nd_is_leaf nl" using leaf_level [OF b(1)] b(8,9) lv(2) by metis
  show "q \<noteq> root" using tree_invD(3) [OF b(1)] \<open>nd_parent nq = r\<close> b(9) node_okD(1) [OF tree_invD(2) [OF b(1,3)]]
    by (auto simp: BP_INVALID_PAGE_NUM_def)
qed

text \<open>Where the nodes went.\<close>

lemma merge_at:
  assumes "merge_pre A N root g r m i l nl q nq"
  shows "merge_nodes N r m i l nl q nq r = Some (merge_node i m)" "merge_nodes N r m i l nl q nq l = Some (merge_left nl nq)"
    "merge_nodes N r m i l nl q nq q = None"
    "s \<noteq> r \<Longrightarrow> s \<noteq> l \<Longrightarrow> s \<noteq> q \<Longrightarrow> s \<notin> kid_pages (nd_items nq) \<Longrightarrow> merge_nodes N r m i l nl q nq s = N s"
    "\<not> nd_is_leaf nq \<Longrightarrow> c \<in> kid_pages (nd_items nq) \<Longrightarrow> \<exists>k. N c = Some k \<and> nd_parent k = q \<and> c \<noteq> r \<and> c \<noteq> l \<and> c \<noteq> q \<and>
       merge_nodes N r m i l nl q nq c = Some (k\<lparr>nd_parent := l\<rparr>)"
    "nd_is_leaf nq \<Longrightarrow> kid_pages (nd_items nq) = {}"
proof -
  note d = merge_preD [OF assms]
  show nk: "kid_pages (nd_items nq) = {}" if "nd_is_leaf nq"
    using leaf_kids [OF node_okD(4) [OF tree_invD(2) [OF d(1,9)] that]] .
  have kid: "\<exists>k. N c = Some k \<and> nd_parent k = q \<and> c \<noteq> r \<and> c \<noteq> l \<and> c \<noteq> q" if nlf: "\<not> nd_is_leaf nq" and ck: "c \<in> kid_pages (nd_items nq)" for c
  proof -
    obtain k where k: "N c = Some k" "nd_parent k = q" "sh_lvl g q = Suc (sh_lvl g c)" "c \<noteq> q"
      using kid_ok [OF node_okD(5) [OF tree_invD(2) [OF d(1,9)] nlf] ck] by metis
    then show ?thesis using d(20,21) by auto
  qed
  have "r \<notin> kid_pages (nd_items nq)" "l \<notin> kid_pages (nd_items nq)" using kid nk by blast+
  then show "merge_nodes N r m i l nl q nq r = Some (merge_node i m)" "merge_nodes N r m i l nl q nq l = Some (merge_left nl nq)"
    using d(11-13) by (simp_all add: merge_nodes_def)
  show "merge_nodes N r m i l nl q nq q = None" by (simp add: merge_nodes_def)
  show "merge_nodes N r m i l nl q nq s = N s" if "s \<noteq> r" "s \<noteq> l" "s \<noteq> q" "s \<notin> kid_pages (nd_items nq)"
    using that by (simp add: merge_nodes_def)
  show "\<exists>k. N c = Some k \<and> nd_parent k = q \<and> c \<noteq> r \<and> c \<noteq> l \<and> c \<noteq> q \<and> merge_nodes N r m i l nl q nq c = Some (k\<lparr>nd_parent := l\<rparr>)"
    if "\<not> nd_is_leaf nq" "c \<in> kid_pages (nd_items nq)"
    using kid [OF that] that(2) by (auto simp: merge_nodes_def)
qed

lemma merge_node_same:
  assumes "merge_pre A N root g r m i l nl q nq" "N s = Some n" "s \<noteq> q"
  shows "\<exists>n'. merge_nodes N r m i l nl q nq s = Some n' \<and> nd_is_leaf n' = nd_is_leaf n \<and>
     nd_parent n' = (if s \<in> kid_pages (nd_items nq) then l else nd_parent n)"
proof -
  note d = merge_preD [OF assms(1)] and a = merge_at [OF assms(1)]
  show ?thesis
  proof (cases "s \<in> kid_pages (nd_items nq)")
    case True
    then have "\<not> nd_is_leaf nq" using a(6) by auto
    from a(5) [OF this True] show ?thesis using assms(2) True by auto
  next
    case False
    then show ?thesis using a(1,2) a(4) [OF _ _ assms(3) False] assms(2) d(3,8) by (cases "s = r \<or> s = l") auto
  qed
qed


lemma merge_bounds_parent:
  assumes "merge_pre A N root g r m i l nl q nq"
  shows "child_bounds A (merge_shape l q g) r (merge_node i m) = remove_at (Suc i) (child_bounds A g r m)"
proof -
  note d = merge_preD [OF assms]
  obtain x xs where m: "nd_items m = x # xs" using internal_okD(1) [OF d(10)] by (cases "nd_items m") auto
  then have "i < length xs" using d(5) by simp
  then show ?thesis using d(12) m by (simp add: child_bounds_def remove_at_def take_map drop_map)
qed

lemma merge_parent_ok:
  assumes pre: "merge_pre A N root g r m i l nl q nq"
  shows "node_ok A (merge_nodes N r m i l nl q nq) (merge_shape l q g) r (merge_node i m)"
proof -
  note d = merge_preD [OF pre]
  let ?N = "merge_nodes N r m i l nl q nq" and ?g = "merge_shape l q g" and ?bs = "child_bounds A g r m"
  have len: "length ?bs = Suc (nd_size m)" using length_child_bounds [OF internal_okD(1) [OF d(10)]] .
  have child: "child_ok ?N ?g r (remove_at (Suc i) ?bs) t (nd_items (merge_node i m) ! t)" if t: "t < nd_size m - 1" for t
  proof -
    let ?u = "if t < Suc i then t else Suc t"
    have u: "?u < nd_size m" using t by auto
    obtain c k where c: "snd (nd_items m ! ?u) = ChildPage c" "N c = Some k" "nd_parent k = r" "sh_lvl g r = Suc (sh_lvl g c)"
      "sh_lo g c = ?bs ! ?u" "sh_hi g c = ?bs ! Suc ?u"
      using internal_okD(4) [OF d(10) u] d(2) by (auto simp: child_ok_def span_hi_plain)
    have cl: "c = l \<longleftrightarrow> ?u = i" using child_index_unique [OF d(10) u _ c(1), of i] d(5,6) c(1) by auto
    have cq: "c \<noteq> q" using child_index_unique [OF d(10) u _ c(1), of "Suc i"] d(5,7) by (auto split: if_splits)
    have "c \<notin> kid_pages (nd_items nq)" using merge_at(5,6) [OF pre] c(2,3) d(13) by (cases "nd_is_leaf nq") force+
    then obtain k' where k': "?N c = Some k'" "nd_parent k' = r" using merge_node_same [OF pre c(2) cq] c(3) by auto
    have bs: "remove_at (Suc i) ?bs ! t = ?bs ! ?u"
      using nth_remove_at [of "Suc i" ?bs t] len d(5) t by simp
    have bs': "remove_at (Suc i) ?bs ! Suc t = (if c = l then ?bs ! Suc (Suc i) else ?bs ! Suc ?u)"
      using nth_remove_at [of "Suc i" ?bs "Suc t"] len d(5) t cl by auto
    show ?thesis
      unfolding child_ok_def
      using c k' bs bs' d(2,19) nth_remove_at [of "Suc i" "nd_items m" t] d(5) t
      by - (rule exI [of _ c], rule exI [of _ k'], simp add: span_hi_plain)
  qed
  have "internal_ok A ?N ?g r (merge_node i m)"
    unfolding internal_ok_def merge_bounds_parent [OF pre]
  proof (intro conjI impI allI)
    show "nd_items (merge_node i m) \<noteq> []" using d(5) by (auto simp: remove_at_def)
    have "nd_items (merge_node i m) ! 0 = nd_items m ! 0" using nth_remove_at [of "Suc i" "nd_items m" 0] d(5) by simp
    then have hd: "hd (nd_items (merge_node i m)) = hd (nd_items m)"
      using internal_okD(1) [OF d(10)] d(5) by (simp add: hd_conv_nth remove_at_def)
    show "item_bound A (hd (nd_items (merge_node i m))) = sh_lo ?g r" if "sh_lo ?g r \<noteq> MinB"
      using internal_okD(2) [OF d(10)] hd that by simp
    show "sorted_wrt (<) (remove_at (Suc i) ?bs)" by (rule sorted_remove_at) (rule internal_okD(3) [OF d(10)])
    show "child_ok ?N ?g r (remove_at (Suc i) ?bs) t (nd_items (merge_node i m) ! t)" if "t < nd_size (merge_node i m)" for t
      using child [of t] that d(5) by simp
  qed
  then show ?thesis
    using tree_invD(2) [OF d(1,3)] d(4,12) set_remove_at_subset [of "Suc i" "nd_items m"] by (auto simp: node_ok_def)
qed

lemma merge_leaf_ok:
  assumes pre: "merge_pre A N root g r m i l nl q nq" and leaf: "nd_is_leaf nl"
  shows "leaf_ok A (merge_nodes N r m i l nl q nq) (merge_shape l q g) l (merge_left nl nq)"
proof -
  note d = merge_preD [OF pre]
  have okl: "node_ok A N g l nl" and okq: "node_ok A N g q nq" using tree_invD(2) [OF d(1)] d(8,9) by auto
  have l: "leaf_ok A N g l nl" "leaf_ok A N g q nq" using node_okD(4) [OF okl leaf] node_okD(4) [OF okq] leaf d(22) by auto
  have mid: "sh_hi g l = sh_lo g q" "sh_lo g q < sh_hi g q" "sh_lo g l < sh_hi g l" using d(17,18) node_okD(2) [OF okl] node_okD(2) [OF okq] by auto
  have "sorted_wrt (<) (map (item_bound A) (nd_items nl) @ map (item_bound A) (nd_items nq))"
    using l mid(1) unfolding leaf_ok_def sorted_wrt_append by (auto intro: less_le_trans)
  moreover have "item_bound A x < sh_hi g q" "sh_lo g l \<le> item_bound A x" if "x \<in> set (nd_items nl @ nd_items nq)" for x
    using that l mid unfolding leaf_ok_def by (auto intro: less_trans less_le_trans less_imp_le)
  moreover have "snd x = RecordValue (snd (fst x))" if "x \<in> set (nd_items nl @ nd_items nq)" for x
    using that l unfolding leaf_ok_def by auto
  moreover have "if sh_hi g q = MaxB then nd_next_brother nq = BP_INVALID_PAGE_NUM
      else \<exists>k. merge_nodes N r m i l nl q nq (nd_next_brother nq) = Some k \<and> nd_is_leaf k \<and> sh_lo g (nd_next_brother nq) = sh_hi g q"
  proof (cases "sh_hi g q = MaxB")
    case True
    then show ?thesis using l(2) by (simp add: leaf_ok_def)
  next
    case False
    then obtain k where k: "N (nd_next_brother nq) = Some k" "nd_is_leaf k" "sh_lo g (nd_next_brother nq) = sh_hi g q"
      using l(2) by (auto simp: leaf_ok_def)
    then have "nd_next_brother nq \<noteq> q" using mid(2) by auto
    then show ?thesis using merge_node_same [OF pre k(1)] k(2,3) False by auto
  qed
  ultimately show ?thesis using l(1) leaf by (auto simp: leaf_ok_def merge_left_def)
qed

lemma merge_bounds_left:
  assumes pre: "merge_pre A N root g r m i l nl q nq" and int: "\<not> nd_is_leaf nl"
  shows "child_bounds A (merge_shape l q g) l (merge_left nl nq) = butlast (child_bounds A g l nl) @ child_bounds A g q nq"
proof -
  note d = merge_preD [OF pre]
  have okl: "node_ok A N g l nl" and okq: "node_ok A N g q nq" using tree_invD(2) [OF d(1)] d(8,9) by auto
  have io: "internal_ok A N g l nl" "internal_ok A N g q nq" using node_okD(5) [OF okl int] node_okD(5) [OF okq] int d(22) by auto
  obtain x xs y ys where xy: "nd_items nl = x # xs" "nd_items nq = y # ys"
    using internal_okD(1) [OF io(1)] internal_okD(1) [OF io(2)] by (auto simp: neq_Nil_conv)
  have "sh_lo g q \<noteq> MinB" using d(17,18) node_okD(2) [OF okl] by (metis bound_simps(5))
  then have "item_bound A y = sh_lo g q" using internal_okD(2) [OF io(2)] xy by simp
  then show ?thesis using xy by (simp add: child_bounds_def butlast_append)
qed

lemma merge_internal_ok:
  assumes pre: "merge_pre A N root g r m i l nl q nq" and int: "\<not> nd_is_leaf nl"
  shows "internal_ok A (merge_nodes N r m i l nl q nq) (merge_shape l q g) l (merge_left nl nq)"
proof -
  note d = merge_preD [OF pre]
  let ?N = "merge_nodes N r m i l nl q nq" and ?g = "merge_shape l q g" and ?bl = "child_bounds A g l nl" and ?bq = "child_bounds A g q nq"
  have okl: "node_ok A N g l nl" and okq: "node_ok A N g q nq" using tree_invD(2) [OF d(1)] d(8,9) by auto
  have io: "internal_ok A N g l nl" "internal_ok A N g q nq" using node_okD(5) [OF okl int] node_okD(5) [OF okq] int d(22) by auto
  have len: "length ?bl = Suc (nd_size nl)" "length ?bq = Suc (nd_size nq)"
    using length_child_bounds internal_okD(1) io by blast+
  have ends: "?bl ! nd_size nl = sh_lo g q" "?bq ! 0 = sh_lo g q"
    using child_bounds_nth [OF _ internal_okD(1) [OF io(1)], of "nd_size nl" A g l] child_bounds_nth [OF _ internal_okD(1) [OF io(2)], of 0 A g q]
      internal_okD(1) [OF io(1)] d(17,18) by auto
  have nthl: "(butlast ?bl @ ?bq) ! t = ?bl ! t" if "t \<le> nd_size nl" for t
    using that len ends by (cases "t = nd_size nl") (auto simp: nth_append nth_butlast)
  have nthq: "(butlast ?bl @ ?bq) ! (nd_size nl + t) = ?bq ! t" for t
    using len by (simp add: nth_append)
  have kid: "\<exists>k'. ?N c = Some k' \<and> nd_parent k' = (if c \<in> kid_pages (nd_items nq) then l else nd_parent k) \<and> c \<noteq> l"
    if c: "N c = Some k" "sh_lvl g l = Suc (sh_lvl g c)" for c k
  proof -
    have "c \<noteq> q" "c \<noteq> l" using c(2) d(21) by auto
    then show ?thesis using merge_node_same [OF pre c(1)] by blast
  qed
  have child: "child_ok ?N ?g l (butlast ?bl @ ?bq) t ((nd_items nl @ nd_items nq) ! t)" if t: "t < nd_size nl + nd_size nq" for t
  proof (cases "t < nd_size nl")
    case True
    obtain c k where c: "snd (nd_items nl ! t) = ChildPage c" "N c = Some k" "nd_parent k = l" "sh_lvl g l = Suc (sh_lvl g c)"
      "sh_lo g c = ?bl ! t" "sh_hi g c = ?bl ! Suc t"
      using internal_okD(4) [OF io(1) True] d(2) by (auto simp: child_ok_def span_hi_plain)
    from kid [OF c(2,4)] obtain k' where "?N c = Some k'" "nd_parent k' = l" "c \<noteq> l" using c(3) by (auto split: if_splits)
    then show ?thesis using c True nthl [of t] nthl [of "Suc t"] d(2) by (auto simp: child_ok_def nth_append span_hi_plain)
  next
    case False
    define u where "u = t - nd_size nl"
    have u: "t = nd_size nl + u" "u < nd_size nq" using False t by (auto simp: u_def)
    obtain c k where c: "snd (nd_items nq ! u) = ChildPage c" "N c = Some k" "nd_parent k = q" "sh_lvl g q = Suc (sh_lvl g c)"
      "sh_lo g c = ?bq ! u" "sh_hi g c = ?bq ! Suc u"
      using internal_okD(4) [OF io(2) u(2)] d(2) by (auto simp: child_ok_def span_hi_plain)
    have "c \<in> kid_pages (nd_items nq)" using c(1) u(2) kid_pages_nth by blast
    then obtain k' where "?N c = Some k'" "nd_parent k' = l" "c \<noteq> l" using kid [OF c(2)] c(4) d(21) by auto
    then show ?thesis using c u nthq [of u] nthq [of "Suc u"] d(2,21) by (auto simp: child_ok_def nth_append span_hi_plain)
  qed
  have "sorted_wrt (<) (butlast ?bl @ ?bq)"
  proof -
    have ne: "?bl \<noteq> []" using len(1) by auto
    then have "last ?bl = sh_lo g q" using len ends(1) by (simp add: last_conv_nth)
    then have "?bl = butlast ?bl @ [sh_lo g q]" using append_butlast_last_id [OF ne] by simp
    with internal_okD(3) [OF io(1)] have s: "sorted_wrt (<) (butlast ?bl)" "\<forall>x\<in>set (butlast ?bl). x < sh_lo g q"
      using sorted_wrt_append [of "(<)" "butlast ?bl" "[sh_lo g q]"] by auto
    have "sh_lo g q \<le> b" if bq: "b \<in> set ?bq" for b
    proof -
      obtain t where t: "t < length ?bq" "b = ?bq ! t" using bq by (auto simp: in_set_conv_nth)
      then show ?thesis using sorted_nth_mono [OF internal_okD(3) [OF io(2)], of 0 t] ends(2) by simp
    qed
    then show ?thesis using s internal_okD(3) [OF io(2)] by (auto simp: sorted_wrt_append intro: less_le_trans)
  qed
  moreover have "hd (nd_items (merge_left nl nq)) = hd (nd_items nl)" using internal_okD(1) [OF io(1)] by simp
  ultimately show ?thesis
    using child internal_okD(1,2) [OF io(1)] unfolding internal_ok_def merge_bounds_left [OF pre int] by simp
qed

lemma merge_left_ok:
  assumes pre: "merge_pre A N root g r m i l nl q nq"
  shows "node_ok A (merge_nodes N r m i l nl q nq) (merge_shape l q g) l (merge_left nl nq)"
proof -
  note d = merge_preD [OF pre]
  have okl: "node_ok A N g l nl" and okq: "node_ok A N g q nq" using tree_invD(2) [OF d(1)] d(8,9) by auto
  have "sh_lo g l < sh_hi g q" using node_okD(2) [OF okl] node_okD(2) [OF okq] d(17,18) by simp
  then show ?thesis
    using merge_leaf_ok [OF pre] merge_internal_ok [OF pre] node_okD(1,3) [OF okl] node_okD(3) [OF okq] by (auto simp: node_ok_def)
qed

lemma merge_frame:
  assumes pre: "merge_pre A N root g r m i l nl q nq" and s: "N s = Some n" "s \<noteq> r" "s \<noteq> l" "s \<noteq> q"
  shows "node_ok A (merge_nodes N r m i l nl q nq) (merge_shape l q g) s n"
proof (rule node_ok_frame [OF tree_invD(2) [OF merge_preD(1) [OF pre] s(1)]])
  note d = merge_preD [OF pre]
  let ?N = "merge_nodes N r m i l nl q nq" and ?g = "merge_shape l q g"
  show "sh_lo ?g s = sh_lo g s" "sh_hi ?g s = sh_hi g s" "sh_lvl ?g s = sh_lvl g s" using s by simp_all
  fix c k
  assume c: "N c = Some k" "nd_parent k = s"
  have "c \<notin> kid_pages (nd_items nq)" using merge_at(5,6) [OF pre] c s(4) by (cases "nd_is_leaf nq") force+
  moreover have "c \<noteq> q" "c \<noteq> l" using c d(8,9,14,15) s(2) by auto
  ultimately show "\<exists>m'. ?N c = Some m' \<and> nd_parent m' = s \<and> sh_lo ?g c = sh_lo g c \<and> span_hi ?g c = span_hi g c \<and> sh_lvl ?g c = sh_lvl g c"
    using merge_node_same [OF pre c(1)] c(2) d(2) by (auto simp: span_hi_plain)
next
  note d = merge_preD [OF pre]
  let ?N = "merge_nodes N r m i l nl q nq" and ?g = "merge_shape l q g" and ?b = "nd_next_brother n"
  fix k
  assume k: "nd_is_leaf n" "N ?b = Some k" "nd_is_leaf k" "sh_lo g ?b = sh_hi g s"
  have "?b \<noteq> q"
  proof
    assume bq: "?b = q"
    then have lf: "nd_is_leaf nl" using k(2,3) d(9,22) by simp
    let ?x = "max (sh_lo g s) (sh_lo g l)"
    have "sh_lvl g s = sh_lvl g l" using leaf_level [OF d(1)] s(1) k(1) d(8) lf by metis
    moreover have "in_range g s ?x" "in_range g l ?x"
      using k(4) bq d(17,18) node_okD(2) [OF tree_invD(2) [OF d(1) s(1)]] node_okD(2) [OF tree_invD(2) [OF d(1,8)]] by (auto simp: in_range_def)
    ultimately show False using level_unique [OF d(1,2), of s l ?x] s(1,3) d(8) by simp
  qed
  then show "\<exists>m'. ?N ?b = Some m' \<and> nd_is_leaf m' \<and> sh_lo ?g ?b = sh_lo g ?b"
    using merge_node_same [OF pre k(2)] k(3) by auto
qed

lemma merge_inv:
  assumes pre: "merge_pre A N root g r m i l nl q nq"
  shows "tree_inv A (merge_nodes N r m i l nl q nq) root (merge_shape l q g)"
proof -
  note d = merge_preD [OF pre] and a = merge_at [OF pre]
  let ?N = "merge_nodes N r m i l nl q nq" and ?g = "merge_shape l q g"
  have dom: "dom ?N \<subseteq> dom N" using d(3,8) by (auto simp: merge_nodes_def reparent_def split: if_splits)
  have src: "\<exists>n0. N s = Some n0 \<and> s \<noteq> q \<and> n' = (if s = r then merge_node i m else if s = l then merge_left nl nq
      else if s \<in> kid_pages (nd_items nq) then n0\<lparr>nd_parent := l\<rparr> else n0)" if sn: "?N s = Some n'" for s n'
  proof -
    obtain n0 where n0: "N s = Some n0" using dom sn by (auto simp: dom_def)
    have "s \<noteq> q" using sn a(3) by auto
    then show ?thesis using sn n0 a(1,2,4,6) a(5) [of s] by (cases "s \<in> kid_pages (nd_items nq)"; cases "nd_is_leaf nq") auto
  qed
  show ?thesis
  proof (rule tree_inv_plainI)
    show "sh_pend ?g = Map.empty" using d(2) by simp
    show "finite (dom ?N)" using finite_subset [OF dom tree_invD(1) [OF d(1)]] .
    show "node_ok A ?N ?g s n" if "?N s = Some n" for s n
    proof -
      obtain n0 where "N s = Some n0" "s \<noteq> q" "n = (if s = r then merge_node i m else if s = l then merge_left nl nq
        else if s \<in> kid_pages (nd_items nq) then n0\<lparr>nd_parent := l\<rparr> else n0)" using src [OF \<open>?N s = Some n\<close>] by blast
      then show ?thesis using merge_parent_ok [OF pre] merge_left_ok [OF pre] merge_frame [OF pre] by auto
    qed
    obtain n where n: "N root = Some n" "nd_parent n = BP_INVALID_PAGE_NUM" using tree_invD(3) [OF d(1)] by blast
    have "root \<notin> kid_pages (nd_items nq)"
      using a(5,6) n node_okD(1) [OF tree_invD(2) [OF d(1,9)]] by (cases "nd_is_leaf nq") (force simp: BP_INVALID_PAGE_NUM_def)+
    then show "\<exists>n. ?N root = Some n \<and> nd_parent n = BP_INVALID_PAGE_NUM"
      using merge_node_same [OF pre n(1)] n(2) d(23) by auto
    show "sh_lo ?g root = MinB" using tree_invD(4) [OF d(1)] by simp
    have "root \<noteq> l" using n d(8,14) node_okD(1) [OF tree_invD(2) [OF d(1,3)]] by (auto simp: BP_INVALID_PAGE_NUM_def)
    then show "sh_hi ?g root = MaxB" using tree_invD(5) [OF d(1)] d(2) by (simp add: span_hi_plain)
    show "is_child ?N (nd_parent n) s" if s: "?N s = Some n" "s \<noteq> root" for s n
    proof -
      obtain n0 where n0: "N s = Some n0" "s \<noteq> q" and nn: "n = (if s = r then merge_node i m else if s = l then merge_left nl nq
        else if s \<in> kid_pages (nd_items nq) then n0\<lparr>nd_parent := l\<rparr> else n0)" using src [OF s(1)] by blast
      have par: "nd_parent n = (if s \<in> kid_pages (nd_items nq) then l else nd_parent n0)"
        using merge_node_same [OF pre n0] s(1) by auto
      show ?thesis
      proof (cases "s \<in> kid_pages (nd_items nq)")
        case True
        then have "\<not> nd_is_leaf nl" using a(6) d(22) by auto
        then show ?thesis using True par a(2) by (simp add: is_child_kid)
      next
        case False
        have "is_child N (nd_parent n0) s" using tree_invD(7) [OF d(1) n0(1) s(2)] d(2) by simp
        then obtain k where k: "N (nd_parent n0) = Some k" "\<not> nd_is_leaf k" "s \<in> kid_pages (nd_items k)" by (auto simp: is_child_kid)
        have nq: "nd_parent n0 \<noteq> q" using k(1,3) d(9) False by auto
        have "s \<in> kid_pages (remove_at (Suc i) (nd_items m))" if "nd_parent n0 = r"
        proof -
          have "k = m" using k(1) that d(3) by simp
          then obtain x where x: "x \<in> set (nd_items m)" "snd x = ChildPage s" using k(3) by (auto simp: kid_pages_def image_iff)
          then have "x \<noteq> nd_items m ! Suc i" using d(7) n0(2) by auto
          then have "x \<in> set (remove_at (Suc i) (nd_items m))" using x(1) set_remove_at [OF d(5)] by blast
          then show ?thesis using x(2) by (force simp: kid_pages_def)
        qed
        note inr = this
        consider "nd_parent n0 = r" | "nd_parent n0 = l" | "nd_parent n0 \<noteq> r" "nd_parent n0 \<noteq> l" by blast
        then have "is_child ?N (nd_parent n0) s"
        proof cases
          case 1
          then show ?thesis using inr a(1) d(4) by (simp add: is_child_kid)
        next
          case 2
          then have "k = nl" using k(1) d(8) by simp
          then show ?thesis using 2 k a(2) by (simp add: is_child_kid)
        next
          case 3
          obtain k' where "?N (nd_parent n0) = Some k'" "nd_items k' = nd_items k" "nd_is_leaf k' = nd_is_leaf k"
            using a(4) [OF 3 nq] a(5) [of "nd_parent n0"] a(6) k(1)
            by (cases "nd_parent n0 \<in> kid_pages (nd_items nq)") force+
          then show ?thesis using k by (simp add: is_child_kid)
        qed
        then show ?thesis using par False by simp
      qed
    qed
  qed
qed

lemma merge_entries:
  assumes pre: "merge_pre A N root g r m i l nl q nq"
  shows "entries (merge_nodes N r m i l nl q nq) = entries N"
proof -
  note d = merge_preD [OF pre]
  let ?M = "N(r \<mapsto> merge_node i m, l \<mapsto> merge_left nl nq, q := None)"
  have qk: "q \<notin> kid_pages (nd_items nq)" using merge_at(5,6) [OF pre] by blast
  then have "merge_nodes N r m i l nl q nq = reparent l (nd_items nq) ?M"
    by (auto simp: merge_nodes_def reparent_def fun_eq_iff)
  then have "entries (merge_nodes N r m i l nl q nq) = entries ?M" by simp
  moreover have "entries ?M = leaf_keys (merge_left nl nq) \<union> (leaf_keys (merge_node i m) \<union> entries (N(r := None, l := None, q := None)))"
    using entries_split [of ?M l "merge_left nl nq"] entries_split [of "N(r \<mapsto> merge_node i m, l := None, q := None)" r "merge_node i m"] d(11-13)
    by (simp add: fun_upd_twist)
  moreover have "entries N = leaf_keys m \<union> (leaf_keys nl \<union> (leaf_keys nq \<union> entries (N(r := None, l := None, q := None))))"
    using entries_split [of N r m] entries_split [of "N(r := None)" l nl] entries_split [of "N(r := None, l := None)" q nq] d(3,8,9,11-13) by simp
  ultimately show ?thesis using d(4,22) by (auto simp: leaf_keys_def image_Un)
qed


section \<open>Moving items between siblings\<close>

text \<open>The map of nodes after the items of two siblings are divided anew.\<close>

definition rebalanced :: "nodes \<Rightarrow> PageNum \<Rightarrow> IndexNode \<Rightarrow> PageNum \<Rightarrow> IndexNode \<Rightarrow> PageNum \<Rightarrow> IndexNode \<Rightarrow> nodes" where
  "rebalanced N r m l nl q nq = (\<lambda>c. if c = r then Some m else if c = l then Some nl else if c = q then Some nq
     else map_option (\<lambda>n. if c \<in> kid_pages (nd_items nl) then n\<lparr>nd_parent := l\<rparr>
        else if c \<in> kid_pages (nd_items nq) then n\<lparr>nd_parent := q\<rparr> else n) (N c))"

lemma merge_next:
  assumes pre: "merge_pre A N root g r m i l nl q nq" and leaf: "nd_is_leaf nl"
  shows "nd_next_brother nl = q"
proof -
  note d = merge_preD [OF pre]
  have okl: "node_ok A N g l nl" and okq: "node_ok A N g q nq" using tree_invD(2) [OF d(1)] d(8,9) by auto
  have "sh_hi g l \<noteq> MaxB" using d(17,18) node_okD(2) [OF okq] by auto
  then obtain k where k: "N (nd_next_brother nl) = Some k" "nd_is_leaf k" "sh_lo g (nd_next_brother nl) = sh_lo g q"
    using node_okD(4) [OF okl leaf] d(17,18) by (auto simp: leaf_ok_def)
  have "sh_lvl g (nd_next_brother nl) = sh_lvl g q" using leaf_level [OF d(1)] k(1,2) d(9,22) leaf by metis
  moreover have "in_range g (nd_next_brother nl) (sh_lo g q)" "in_range g q (sh_lo g q)"
    using node_okD(2) [OF tree_invD(2) [OF d(1) k(1)]] node_okD(2) [OF okq] k(3) by (auto simp: in_range_def)
  ultimately show ?thesis using level_unique [OF d(1,2)] k(1) d(9) by blast
qed

lemma insert_remove_at: "i < length xs \<Longrightarrow> insert_at i y (remove_at i xs) = xs[i := y]"
  by (simp add: insert_at_def remove_at_def min_def upd_conv_take_nth_drop)

lemma parent_same: "nd_parent n = l \<Longrightarrow> n\<lparr>nd_parent := l\<rparr> = n"
  by auto

lemma kids_disjoint:
  assumes "internal_ok A N g p n" "c \<in> kid_pages (take j (nd_items n))"
  shows "c \<notin> kid_pages (drop j (nd_items n))"
proof
  assume "c \<in> kid_pages (drop j (nd_items n))"
  then obtain u where u: "j + u < nd_size n" "snd (nd_items n ! (j + u)) = ChildPage c" by (auto simp: kid_pages_nth less_diff_conv add.commute)
  obtain t where t: "t < j" "t < nd_size n" "snd (nd_items n ! t) = ChildPage c" using assms(2) by (auto simp: kid_pages_nth)
  show False using child_index_unique [OF assms(1) u(1) t(2) u(2) t(3)] t(1) by simp
qed

lemma rebalance_inv:
  assumes pre: "merge_pre A N root g r m i l nl q nq" and zs: "zs = nd_items nl @ nd_items nq" and j: "0 < j" "j < length zs" and k: "k = fst (zs ! j)"
    and N': "N' = rebalanced N r (m\<lparr>nd_items := (nd_items m)[Suc i := (k, ChildPage q)]\<rparr>) l (nl\<lparr>nd_items := take j zs\<rparr>) q (nq\<lparr>nd_items := drop j zs\<rparr>)"
  shows "\<exists>g'. tree_inv A N' root g' \<and> sh_pend g' = Map.empty" "entries N' = entries N"
proof -
  note d = merge_preD [OF pre] and a = merge_at [OF pre]
  let ?M = "merge_nodes N r m i l nl q nq" and ?g1 = "merge_shape l q g"
  let ?n1 = "nl\<lparr>nd_items := take j zs\<rparr>" and ?n2 = "nq\<lparr>nd_items := drop j zs\<rparr>" and ?b = "item_bound A (zs ! j)"
  let ?S = "split_nodes ?M l ?n1 q ?n2" and ?g2 = "split_shape l q ?b ?g1"
  have sp: "split_pre A ?M root ?g1 l (merge_left nl nq) j q ?n1 ?n2"
    using merge_inv [OF pre] a(2,3) node_okD(1) [OF tree_invD(2) [OF d(1,9)]] d(2,22) j zs merge_next [OF pre]
    by (auto simp: split_pre_def merge_left_def)
  have inv2: "tree_inv A ?S root ?g2" using split_inv [OF sp refl] zs by simp
  have self: "?S l = Some ?n1" "?S q = Some ?n2" using split_self [OF sp] by auto
  have lvl2: "sh_lvl ?g2 r = Suc (sh_lvl ?g2 l)" using d(13,20) d(11) by (simp add: split_shape_def)
  have kz: "kid_pages zs = kid_pages (nd_items (merge_left nl nq))" using zs by simp
  have kt: "kid_pages (take j zs) \<union> kid_pages (drop j zs) = kid_pages zs" using kid_pages_split [of zs j] by simp
  have rk: "r \<notin> kid_pages (drop j zs)"
    using split_kids(5) [OF sp, of r] kt kz d(20) by auto
  have S_r: "?S r = Some (merge_node i m)" using rk a(1) d(12,13) by simp
  let ?m1 = "merge_node i m"
  have ni: "nd_items ?m1 ! i = nd_items m ! i" using nth_remove_at [of "Suc i" "nd_items m" i] d(5) by simp
  have jz: "zs ! j \<in> set zs" using j(2) by simp
  have okl: "node_ok A ?M ?g1 l (merge_left nl nq)" using merge_left_ok [OF pre] .
  have ap: "attach_pre A ?S root ?g2 l q r ?m1 i k ?n2"
    unfolding attach_pre_def using inv2 S_r self d(4,5,6) ni node_okD(3) [OF okl, of "zs ! j"] jz zs k
    by (auto simp: split_shape_def key_bound_def item_bound_def)
  let ?F = "attach_nodes ?S r ?m1 i k q ?n2"
  have node_r: "attach_node i k q ?m1 = m\<lparr>nd_items := (nd_items m)[Suc i := (k, ChildPage q)]\<rparr>"
    using insert_remove_at [OF d(5)] by simp
  have other: "?F c = N' c" if c: "c \<noteq> r" "c \<noteq> l" "c \<noteq> q" for c
  proof -
    have M: "?M c = (if c \<in> kid_pages (nd_items nq) then map_option (nd_parent_update (\<lambda>_. l)) (N c) else N c)"
      using c by (simp add: merge_nodes_def)
    have F: "?F c = (if c \<in> kid_pages (drop j zs) then map_option (nd_parent_update (\<lambda>_. q)) (?M c) else ?M c)" using c by simp
    consider "c \<in> kid_pages (take j zs)" | "c \<notin> kid_pages (take j zs)" "c \<in> kid_pages (drop j zs)" | "c \<notin> kid_pages zs" using kt by blast
    then show ?thesis
    proof cases
      case 1
      have "\<not> nd_is_leaf (merge_left nl nq)" using split_kids(4) [OF sp, of c] 1 kt kz by auto
      then have io: "internal_ok A ?M ?g1 l (merge_left nl nq)" using node_okD(5) [OF okl] by blast
      have nd: "c \<notin> kid_pages (drop j zs)" using kids_disjoint [OF io, of c j] 1 zs by simp
      obtain mm where mm: "?M c = Some mm" "nd_parent mm = l" using split_kids(1) [OF sp, of c] 1 kt kz by auto
      have "?M c = map_option (nd_parent_update (\<lambda>_. l)) (N c)" 
      proof (cases "c \<in> kid_pages (nd_items nq)")
        case False
        then have "N c = Some mm" using M mm(1) by simp
        then show ?thesis using M False parent_same [OF mm(2)] by simp
      qed (use M in simp)
      then show ?thesis using 1 nd F c by (simp add: N' rebalanced_def)
    next
      case 2
      then show ?thesis using F M c by (simp add: N' rebalanced_def option.map_comp comp_def)
    next
      case 3
      then have "c \<notin> kid_pages (take j zs)" "c \<notin> kid_pages (drop j zs)" "c \<notin> kid_pages (nd_items nq)" using kt zs by auto
      then show ?thesis using F M c by (simp add: N' rebalanced_def option.map_ident)
    qed
  qed
  have "?F = N'"
  proof
    fix c
    consider "c = r" | "c = l" | "c = q" | "c \<noteq> r" "c \<noteq> l" "c \<noteq> q" by blast
    then show "?F c = N' c"
      using other node_r self d(11-13,15) parent_same [of nq r] by cases (auto simp: N' rebalanced_def)
  qed
  moreover have "sh_pend (attach_shape l ?g2) = Map.empty" using d(2) by (simp add: split_shape_def)
  ultimately show "\<exists>g'. tree_inv A N' root g' \<and> sh_pend g' = Map.empty" using attach_inv [OF ap] by metis
  show "entries N' = entries N" using \<open>?F = N'\<close> attach_entries [OF ap] split_entries [OF sp] merge_entries [OF pre] by metis
qed


section \<open>A root with one child\<close>

lemma root_drop_inv:
  assumes inv: "tree_inv A N root g" "sh_pend g = Map.empty" and m: "N root = Some m" "\<not> nd_is_leaf m" "nd_items m = [x]" "snd x = ChildPage c" "N c = Some nc"
    and N': "N' = N(c \<mapsto> nc\<lparr>nd_parent := BP_INVALID_PAGE_NUM\<rparr>, root := None)"
  shows "tree_inv A N' c g" "entries N' = entries N"
proof -
  have io: "internal_ok A N g root m" using node_okD(5) [OF tree_invD(2) [OF inv(1) m(1)] m(2)] .
  have c: "nd_parent nc = root" "sh_lvl g root = Suc (sh_lvl g c)" "sh_lo g c = MinB" "sh_hi g c = MaxB"
    using child_okD [OF internal_okD(4) [OF io, of 0], of c] m(3-5) inv(2) tree_invD(4,5) [OF inv(1)] by (auto simp: child_bounds_def span_hi_plain)
  have cr: "c \<noteq> root" using c(2) by auto
  have rp: "nd_parent m = BP_INVALID_PAGE_NUM" using tree_invD(3) [OF inv(1)] m(1) by auto
  have N_at: "N' s = (if s = root then None else if s = c then Some (nc\<lparr>nd_parent := BP_INVALID_PAGE_NUM\<rparr>) else N s)" for s
    by (simp add: N')
  have frame: "node_ok A N' g s n" if s: "N s = Some n" "s \<noteq> root" for s n
  proof (rule node_ok_frame [OF tree_invD(2) [OF inv(1) s(1)]])
    have s2: "2 \<le> s" using node_okD(1) [OF tree_invD(2) [OF inv(1) s(1)]] .
    fix d k assume k: "N d = Some k" "nd_parent k = s"
    have "d \<noteq> c" using k c(1) m(5) s(2) by auto
    moreover have "d \<noteq> root" using k m(1) rp s2 by (auto simp: BP_INVALID_PAGE_NUM_def)
    ultimately show "\<exists>m'. N' d = Some m' \<and> nd_parent m' = s \<and> sh_lo g d = sh_lo g d \<and> span_hi g d = span_hi g d \<and> sh_lvl g d = sh_lvl g d"
      using k N_at by auto
  next
    fix k assume k: "N (nd_next_brother n) = Some k" "nd_is_leaf k"
    then have "nd_next_brother n \<noteq> root" using m(1,2) by auto
    then show "\<exists>m'. N' (nd_next_brother n) = Some m' \<and> nd_is_leaf m' \<and> sh_lo g (nd_next_brother n) = sh_lo g (nd_next_brother n)"
      using k m(5) N_at by (cases "nd_next_brother n = c") auto
  qed simp_all
  show "tree_inv A N' c g"
  proof (rule tree_inv_plainI)
    show "finite (dom N')" using tree_invD(1) [OF inv(1)] by (simp add: N')
    show "node_ok A N' g s n" if "N' s = Some n" for s n
      using that frame [of s n] frame [OF m(5) cr] N_at [of s] by (auto split: if_splits)
    show "\<exists>n. N' c = Some n \<and> nd_parent n = BP_INVALID_PAGE_NUM" using cr N_at by auto
    show "is_child N' (nd_parent n) s" if s: "N' s = Some n" "s \<noteq> c" for s n
    proof -
      have sn: "N s = Some n" "s \<noteq> root" using s N_at [of s] by (auto split: if_splits)
      obtain k where k: "N (nd_parent n) = Some k" "\<not> nd_is_leaf k" "s \<in> kid_pages (nd_items k)"
        using tree_invD(7) [OF inv(1) sn] inv(2) by (auto simp: is_child_kid)
      then have "nd_parent n \<noteq> root" using m(1,3,4) s(2) by auto
      then show ?thesis using k N_at m(5) by (auto simp: is_child_kid)
    qed
  qed (use inv c in auto)
  have "entries N' = leaf_keys nc \<union> entries (N(root := None, c := None))"
    using entries_split [of N' c "nc\<lparr>nd_parent := BP_INVALID_PAGE_NUM\<rparr>"] cr by (simp add: N' leaf_keys_def fun_upd_twist)
  moreover have "entries N = leaf_keys m \<union> (leaf_keys nc \<union> entries (N(root := None, c := None)))"
    using entries_split [of N root m] entries_split [of "N(root := None)" c nc] m(1,5) cr by simp
  ultimately show "entries N' = entries N" using m(2) by (simp add: leaf_keys_def)
qed

end
