(* ===== verification/BplusDelete.thy ===== *)
theory BplusDelete
  imports BplusMerge
begin

text \<open>
  Deletion from the B+-tree. The pages a deletion disposes of stay in the file until the mini
  transaction ends; the tree is the map of the other pages.
\<close>

section \<open>Live pages\<close>

definition live :: "BplusTreeHandler \<Rightarrow> nodes" where
  "live st = without (mx_disposed (bt_mtr st)) (bt_nodes st)"

definition live_step :: "(PageNum \<Rightarrow> int) \<Rightarrow> (lock_target \<Rightarrow> int) \<Rightarrow> BplusTreeHandler \<Rightarrow> nodes \<Rightarrow> PageNum \<Rightarrow> BplusTreeHandler \<Rightarrow> bool" where
  "live_step bp bl st V r st' \<longleftrightarrow> env_ok bp bl st' \<and> live st' = V \<and> bt_header st' = (bt_header st)\<lparr>ih_root_page := r\<rparr> \<and>
     bt_page_count st' \<le> bt_page_count st \<and> bt_max_pages st' = bt_max_pages st"

lemma live_stepD:
  assumes "live_step bp bl st V r st'"
  shows "env_ok bp bl st'" "live st' = V" "bt_header st' = (bt_header st)\<lparr>ih_root_page := r\<rparr>" "bt_page_count st' \<le> bt_page_count st" "bt_max_pages st' = bt_max_pages st"
  using assms by (simp_all add: live_step_def)

lemma liveD: "live st p = Some n \<Longrightarrow> bt_nodes st p = Some n \<and> p \<notin> set (mx_disposed (bt_mtr st))"
  by (auto simp: live_def without_def split: if_splits)

lemma without_upd: "p \<notin> set ds \<Longrightarrow> without ds (N(p \<mapsto> n)) = (without ds N)(p \<mapsto> n)"
  by (auto simp: without_def fun_eq_iff)

lemma without_upd_in: "p \<in> set ds \<Longrightarrow> without ds (N(p \<mapsto> n)) = without ds N"
  by (auto simp: without_def fun_eq_iff)

lemma without_reparent: "without ds (reparent q xs N) = reparent q xs (without ds N)"
  by (auto simp: without_def reparent_def fun_eq_iff)

lemma without_snoc: "without (ds @ [q]) N = (without ds N)(q := None)"
  by (auto simp: without_def fun_eq_iff)

lemma step_live: "step_ok bp bl k st N st' \<Longrightarrow> live st' = without (mx_disposed (bt_mtr st)) N"
  by (simp add: step_ok_def live_def)

lemma live_step_of_step:
  "step_ok bp bl 0 st N st' \<Longrightarrow> V = without (mx_disposed (bt_mtr st)) N \<Longrightarrow> live_step bp bl st V (ih_root_page (bt_header st)) st'"
  by (simp add: live_step_def step_ok_def live_def)

section \<open>Moving items\<close>

lemma kids_exist_append [simp]: "kids_exist N (xs @ ys) \<longleftrightarrow> kids_exist N xs \<and> kids_exist N ys"
  by (auto simp: kids_exist_def)

lemma node_append_ok':
  assumes "env_ok bp bl st" "bt_nodes st p = Some n" "nd_is_leaf n = leaf" "nd_size n + length xs \<le> node_capacity (bt_header st) leaf"
    "if leaf then kid_pages xs = {} else kids_exist (bt_nodes st) xs"
  shows "\<exists>st'. node_append leaf p xs st = Some (SUCCESS, st') \<and>
     step_ok bp bl 0 st (reparent p xs ((bt_nodes st)(p \<mapsto> n\<lparr>nd_items := nd_items n @ xs\<rparr>))) st'"
  using node_append_ok [OF assms(1-4)] assms(5) by (auto simp: reparent_nokids split: if_splits)

lemma node_preappend_ok':
  assumes "env_ok bp bl st" "bt_nodes st p = Some n" "nd_is_leaf n = leaf" "nd_size n + 1 \<le> node_capacity (bt_header st) leaf"
    "if leaf then kid_pages [x] = {} else kids_exist (bt_nodes st) [x]"
  shows "\<exists>st'. node_preappend leaf p x st = Some (SUCCESS, st') \<and>
     step_ok bp bl 0 st (reparent p [x] ((bt_nodes st)(p \<mapsto> n\<lparr>nd_items := x # nd_items n\<rparr>))) st'"
  using node_preappend_ok [OF assms(1-4), of x] assms(5) by (auto simp: reparent_nokids simp del: kid_pages_Cons kids_exist_simps split: if_splits)

lemma move_to_ok:
  assumes e: "env_ok bp bl st" and nq: "bt_nodes st q = Some nq" "nd_is_leaf nq = leaf" and nl: "bt_nodes st l = Some nl" "nd_is_leaf nl = leaf" "l \<noteq> q"
    and cap: "nd_size nl + nd_size nq \<le> node_capacity (bt_header st) leaf" and out: "q \<notin> kid_pages (nd_items nq)" "l \<notin> kid_pages (nd_items nq)"
    and kids: "if leaf then kid_pages (nd_items nq) = {} else kids_exist (bt_nodes st) (nd_items nq)"
  shows "\<exists>st'. move_to leaf q l st = Some (SUCCESS, st') \<and>
     step_ok bp bl 0 st ((reparent l (nd_items nq) ((bt_nodes st)(l \<mapsto> merge_left nl nq)))(q \<mapsto> nq\<lparr>nd_items := []\<rparr>)) st'"
proof -
  let ?N = "bt_nodes st" and ?ys = "nd_items nq" let ?n1 = "nl\<lparr>nd_items := nd_items nl @ ?ys\<rparr>"
  obtain st1 where st1: "node_append leaf l ?ys st = Some (SUCCESS, st1)" and s1: "step_ok bp bl 0 st (reparent l ?ys (?N(l \<mapsto> ?n1))) st1"
    using node_append_ok' [OF e nl(1,2) cap kids] by blast
  note d1 = step_okD [OF s1]
  define nx where "nx = (if leaf then set_next_page l (nd_next_brother nq) st1 else Some st1)"
  obtain st2 where st2: "nx = Some st2" and s2: "step_ok bp bl 0 st1 (reparent l ?ys (?N(l \<mapsto> merge_left nl nq))) st2"
  proof (cases leaf)
    case True
    have "bt_nodes st1 l = Some ?n1" using d1(2) out(2) by simp
    then obtain st2 where "set_next_page l (nd_next_brother nq) st1 = Some st2" "step_ok bp bl 0 st1 ((bt_nodes st1)(l \<mapsto> ?n1\<lparr>nd_next_brother := nd_next_brother nq\<rparr>)) st2"
      using set_next_ok [OF d1(1)] by blast
    moreover have "?n1\<lparr>nd_next_brother := nd_next_brother nq\<rparr> = merge_left nl nq" using True nl(2) by (simp add: merge_left_def)
    ultimately show ?thesis using that [of st2] True d1(2) reparent_upd [OF out(2)] by (simp add: nx_def)
  next
    case False
    then have "merge_left nl nq = ?n1" using nl(2) by (simp add: merge_left_def)
    then show ?thesis using that [of st1] False s1 by (simp add: nx_def step_ok_def)
  qed
  note d2 = step_okD [OF s2]
  have "bt_nodes st2 q = Some nq" using d2(2) out(1) nq(1) nl(3) by simp
  then obtain st3 where st3: "node_remove_items q 0 (nd_size nq) st2 = Some st3" and s3: "step_ok bp bl 0 st2 ((bt_nodes st2)(q \<mapsto> nq\<lparr>nd_items := []\<rparr>)) st3"
    using node_remove_items_ok [OF d2(1), of q nq 0 "nd_size nq"] by auto
  show ?thesis
    using st1 st2 st3 nq(1) step_ok_trans0 [OF step_ok_trans0 [OF s1 s2] s3] d2(2) unfolding nx_def by (simp add: move_to_def)
qed

lemma move_first_ok:
  assumes e: "env_ok bp bl st" and nq: "bt_nodes st q = Some nq" "nd_is_leaf nq = leaf" "nd_items nq = y # ys"
    and nl: "bt_nodes st l = Some nl" "nd_is_leaf nl = leaf" "l \<noteq> q"
    and cap: "nd_size nl + 1 \<le> node_capacity (bt_header st) leaf" and out: "q \<notin> kid_pages [y]"
    and kids: "if leaf then kid_pages [y] = {} else kids_exist (bt_nodes st) [y]"
  shows "\<exists>st'. move_first_to_end leaf q l st = Some (SUCCESS, st') \<and>
     step_ok bp bl 0 st ((reparent l [y] ((bt_nodes st)(l \<mapsto> nl\<lparr>nd_items := nd_items nl @ [y]\<rparr>)))(q \<mapsto> nq\<lparr>nd_items := ys\<rparr>)) st'"
proof -
  let ?N = "bt_nodes st"
  obtain st1 where st1: "node_append leaf l [y] st = Some (SUCCESS, st1)"
    and s1: "step_ok bp bl 0 st (reparent l [y] (?N(l \<mapsto> nl\<lparr>nd_items := nd_items nl @ [y]\<rparr>))) st1"
    using node_append_ok' [OF e nl(1,2), of "[y]"] cap kids by auto
  note d1 = step_okD [OF s1]
  have "bt_nodes st1 q = Some nq" using d1(2) out nq(1) nl(3) by (simp del: kid_pages_Cons)
  then obtain st2 where st2: "node_remove_items q 0 1 st1 = Some st2" and s2: "step_ok bp bl 0 st1 ((bt_nodes st1)(q \<mapsto> nq\<lparr>nd_items := ys\<rparr>)) st2"
    using node_remove_items_ok [OF d1(1), of q nq 0 1] nq(3) by auto
  show ?thesis using st1 st2 nq(1,3) step_ok_trans0 [OF s1 s2] d1(2) by (simp add: move_first_to_end_def)
qed

lemma move_last_ok:
  assumes e: "env_ok bp bl st" and nl: "bt_nodes st l = Some nl" "nd_is_leaf nl = leaf" "nd_items nl = xs @ [x]"
    and nq: "bt_nodes st q = Some nq" "nd_is_leaf nq = leaf" "l \<noteq> q"
    and cap: "nd_size nq + 1 \<le> node_capacity (bt_header st) leaf" and out: "l \<notin> kid_pages [x]"
    and kids: "if leaf then kid_pages [x] = {} else kids_exist (bt_nodes st) [x]"
  shows "\<exists>st'. move_last_to_front leaf l q st = Some (SUCCESS, st') \<and>
     step_ok bp bl 0 st ((reparent q [x] ((bt_nodes st)(q \<mapsto> nq\<lparr>nd_items := x # nd_items nq\<rparr>)))(l \<mapsto> nl\<lparr>nd_items := xs\<rparr>)) st'"
proof -
  let ?N = "bt_nodes st"
  obtain st1 where st1: "node_preappend leaf q x st = Some (SUCCESS, st1)"
    and s1: "step_ok bp bl 0 st (reparent q [x] (?N(q \<mapsto> nq\<lparr>nd_items := x # nd_items nq\<rparr>))) st1"
    using node_preappend_ok' [OF e nq(1,2) cap kids] by blast
  note d1 = step_okD [OF s1]
  have "bt_nodes st1 l = Some nl" using d1(2) out nl(1) nq(3) by (simp del: kid_pages_Cons)
  then obtain st2 where st2: "node_remove_items l (nd_size nl - 1) 1 st1 = Some st2" and s2: "step_ok bp bl 0 st1 ((bt_nodes st1)(l \<mapsto> nl\<lparr>nd_items := xs\<rparr>)) st2"
    using node_remove_items_ok [OF d1(1), of l nl "nd_size nl - 1" 1] nl(3) by auto
  show ?thesis using st1 st2 nl(1,3) step_ok_trans0 [OF s1 s2] d1(2) by (simp add: move_last_to_front_def)
qed


section \<open>Merging and redistributing\<close>

lemma merge_kids:
  assumes "merge_pre A (live st) root g r m i l nl q nq"
  shows "if nd_is_leaf nl then kid_pages (nd_items nl @ nd_items nq) = {} else kids_exist (bt_nodes st) (nd_items nl @ nd_items nq)"
    "c \<in> kid_pages (nd_items nl) \<Longrightarrow> \<exists>k. live st c = Some k \<and> nd_parent k = l \<and> c \<noteq> r \<and> c \<noteq> l \<and> c \<noteq> q"
    "c \<in> kid_pages (nd_items nq) \<Longrightarrow> \<exists>k. live st c = Some k \<and> nd_parent k = q \<and> c \<noteq> r \<and> c \<noteq> l \<and> c \<noteq> q"
proof -
  note d = merge_preD [OF assms]
  have ok: "node_ok A (live st) g l nl" "node_ok A (live st) g q nq" using tree_invD(2) [OF d(1)] d(8,9) by auto
  have lf: "nd_is_leaf nl \<Longrightarrow> kid_pages (nd_items nl) = {}" "nd_is_leaf nl \<Longrightarrow> kid_pages (nd_items nq) = {}"
    using leaf_kids [OF node_okD(4) [OF ok(1)]] leaf_kids [OF node_okD(4) [OF ok(2)]] d(22) by auto
  have kl: "\<exists>k. live st c = Some k \<and> nd_parent k = l \<and> c \<noteq> r \<and> c \<noteq> l \<and> c \<noteq> q" if c: "c \<in> kid_pages (nd_items nl)" for c
  proof -
    have "\<not> nd_is_leaf nl" using lf c by auto
    then obtain k where "live st c = Some k" "nd_parent k = l" "sh_lvl g l = Suc (sh_lvl g c)" "c \<noteq> l"
      using kid_ok [OF node_okD(5) [OF ok(1)] c] by metis
    then show ?thesis using d(20,21) by auto
  qed
  then show "c \<in> kid_pages (nd_items nl) \<Longrightarrow> \<exists>k. live st c = Some k \<and> nd_parent k = l \<and> c \<noteq> r \<and> c \<noteq> l \<and> c \<noteq> q" .
  have kq: "\<exists>k. live st c = Some k \<and> nd_parent k = q \<and> c \<noteq> r \<and> c \<noteq> l \<and> c \<noteq> q" if c: "c \<in> kid_pages (nd_items nq)" for c
    using merge_at(5,6) [OF assms] c by blast
  then show "c \<in> kid_pages (nd_items nq) \<Longrightarrow> \<exists>k. live st c = Some k \<and> nd_parent k = q \<and> c \<noteq> r \<and> c \<noteq> l \<and> c \<noteq> q" .
  show "if nd_is_leaf nl then kid_pages (nd_items nl @ nd_items nq) = {} else kids_exist (bt_nodes st) (nd_items nl @ nd_items nq)"
  proof (cases "nd_is_leaf nl")
    case False
    have io: "internal_ok A (live st) g l nl" "internal_ok A (live st) g q nq" using node_okD(5) [OF ok(1)] node_okD(5) [OF ok(2)] False d(22) by auto
    have "\<exists>c. snd x = ChildPage c \<and> bt_nodes st c \<noteq> None" if x: "x \<in> set (nd_items nl @ nd_items nq)" for x
      using x internal_okD(4) [OF io(1)] internal_okD(4) [OF io(2)] liveD
      by (fastforce simp: in_set_conv_nth child_ok_def)
    then show ?thesis using False by (simp add: kids_exist_def)
  qed (use lf in simp)
qed

lemma coalesce_ok:
  assumes e: "env_ok bp bl st" and pre: "merge_pre A (live st) root g r m i l nl q nq"
    and cap: "nd_size nl + nd_size nq \<le> node_capacity (bt_header st) (nd_is_leaf nl)"
    and roles: "(neighbor = q \<and> p = l \<and> index = 0 \<and> i = 0) \<or> (neighbor = l \<and> p = q \<and> index = Suc i)"
  shows "\<exists>st'. coalesce (nd_is_leaf nl) neighbor p r index st = Some (SUCCESS, st') \<and>
     live_step bp bl st (merge_nodes (live st) r m i l nl q nq) (ih_root_page (bt_header st)) st'"
proof -
  note d = merge_preD [OF pre] and kids = merge_kids [OF pre]
  let ?N = "bt_nodes st" and ?ds = "mx_disposed (bt_mtr st)" and ?leaf = "nd_is_leaf nl"
  have at: "?N r = Some m" "?N l = Some nl" "?N q = Some nq" "r \<notin> set ?ds" "l \<notin> set ?ds" using liveD d(3,8,9) by blast+
  obtain st1 where st1: "internal_remove r (Suc i) st = Some st1" and s1: "step_ok bp bl 0 st (?N(r \<mapsto> merge_node i m)) st1"
    using node_remove_items_ok [OF e at(1), of "Suc i" 1] d(5) by (auto simp: internal_remove_def remove_at_def)
  note d1 = step_okD [OF s1]
  have out: "q \<notin> kid_pages (nd_items nq)" "l \<notin> kid_pages (nd_items nq)" "r \<notin> kid_pages (nd_items nq)" using kids(3) by blast+
  have k1: "if ?leaf then kid_pages (nd_items nq) = {} else kids_exist (bt_nodes st1) (nd_items nq)"
    using kids(1) unfolding d1(2) by (auto intro: kids_exist_upd split: if_splits)
  obtain st2 where st2: "move_to ?leaf q l st1 = Some (SUCCESS, st2)"
    and s2: "step_ok bp bl 0 st1 ((reparent l (nd_items nq) (?N(r \<mapsto> merge_node i m, l \<mapsto> merge_left nl nq)))(q \<mapsto> nq\<lparr>nd_items := []\<rparr>)) st2"
    using move_to_ok [OF d1(1), of q nq ?leaf l nl] d1(2,3) at d(11-13,22) cap out k1 by auto
  note d2 = step_okD [OF s2]
  let ?N2 = "(reparent l (nd_items nq) (?N(r \<mapsto> merge_node i m, l \<mapsto> merge_left nl nq)))(q \<mapsto> nq\<lparr>nd_items := []\<rparr>)"
  have at2: "bt_nodes st2 l = Some (merge_left nl nq)" "bt_nodes st2 q = Some (nq\<lparr>nd_items := []\<rparr>)"
    using d2(2) out d(11) by auto
  define nx where "nx = (if nd_is_leaf (merge_left nl nq) then set_next_page l (nd_next_brother nq) st2 else Some st2)"
  obtain st3 where st3: "nx = Some st3" and s3: "step_ok bp bl 0 st2 ?N2 st3"
  proof (cases ?leaf)
    case True
    obtain st3 where st3: "set_next_page l (nd_next_brother nq) st2 = Some st3"
      and s3: "step_ok bp bl 0 st2 ((bt_nodes st2)(l \<mapsto> (merge_left nl nq)\<lparr>nd_next_brother := nd_next_brother nq\<rparr>)) st3"
      using set_next_ok [OF d2(1) at2(1)] by blast
    have "(merge_left nl nq)\<lparr>nd_next_brother := nd_next_brother nq\<rparr> = merge_left nl nq" using True by (simp add: merge_left_def)
    then have "(bt_nodes st2)(l \<mapsto> (merge_left nl nq)\<lparr>nd_next_brother := nd_next_brother nq\<rparr>) = ?N2" using at2(1) d2(2) by (simp add: fun_upd_idem)
    then show ?thesis using that [of st3] True st3 s3 by (simp add: nx_def)
  next
    case False
    then show ?thesis using that [of st2] s2 by (simp add: nx_def step_ok_def)
  qed
  note d3 = step_okD [OF s3]
  have run: "coalesce ?leaf neighbor p r index st = Some (SUCCESS, memo_dispose_page q st3)"
    using roles st1 st2 at2 st3 unfolding nx_def by (auto simp: coalesce_def Let_def)
  have "live (memo_dispose_page q st3) = (without ?ds ?N2)(q := None)"
    using d3(2,6) d2(6) d1(6) by (simp add: live_def memo_dispose_page_def without_snoc)
  also have "\<dots> = (without ?ds (reparent l (nd_items nq) (?N(r \<mapsto> merge_node i m, l \<mapsto> merge_left nl nq))))(q := None)"
    by (auto simp: without_def fun_eq_iff)
  also have "\<dots> = merge_nodes (live st) r m i l nl q nq"
    using at(4,5) by (simp add: merge_nodes_def without_reparent without_upd live_def)
  finally have lv: "live (memo_dispose_page q st3) = merge_nodes (live st) r m i l nl q nq" .
  have "env_ok bp bl (memo_dispose_page q st3)" using d3(1) by (simp add: memo_dispose_page_def env_ok_def page_exists_def)
  then have "live_step bp bl st (merge_nodes (live st) r m i l nl q nq) (ih_root_page (bt_header st)) (memo_dispose_page q st3)"
    using lv d1 d2 d3 by (simp add: live_step_def memo_dispose_page_def)
  then show ?thesis using run by blast
qed

lemma rebalancedI:
  assumes "N' r = Some m" "N' l = Some nl" "N' q = Some nq" "\<And>c. c \<noteq> r \<Longrightarrow> c \<noteq> l \<Longrightarrow> c \<noteq> q \<Longrightarrow>
     N' c = map_option (\<lambda>n. if c \<in> kid_pages (nd_items nl) then n\<lparr>nd_parent := l\<rparr>
        else if c \<in> kid_pages (nd_items nq) then n\<lparr>nd_parent := q\<rparr> else n) (N c)"
  shows "N' = rebalanced N r m l nl q nq"
  by (rule ext) (use assms in \<open>auto simp: rebalanced_def\<close>)

text \<open>Only the child that moved gets a new parent; the others have the right one.\<close>

lemma moved_kids:
  assumes pre: "merge_pre A (live st) root g r m i l nl q nq" and c: "c \<noteq> r" "c \<noteq> l" "c \<noteq> q"
    and xs: "kid_pages xs \<union> kid_pages ys = kid_pages (nd_items nl) \<union> kid_pages (nd_items nq)" "kid_pages xs \<inter> kid_pages ys = {}"
    and z: "(t = l \<and> kid_pages xs = kid_pages (nd_items nl) \<union> kid_pages [z]) \<or> (t = q \<and> kid_pages ys = kid_pages (nd_items nq) \<union> kid_pages [z])"
  shows "reparent t [z] (live st) c = map_option (\<lambda>n. if c \<in> kid_pages xs then n\<lparr>nd_parent := l\<rparr>
        else if c \<in> kid_pages ys then n\<lparr>nd_parent := q\<rparr> else n) (live st c)"
proof -
  note kids = merge_kids(2,3) [OF pre]
  have same: "live st c = map_option (nd_parent_update (\<lambda>_. l)) (live st c)" if "c \<in> kid_pages (nd_items nl)"
    using kids(1) [OF that] by (auto simp: parent_same)
  have same': "live st c = map_option (nd_parent_update (\<lambda>_. q)) (live st c)" if "c \<in> kid_pages (nd_items nq)"
    using kids(2) [OF that] by (auto simp: parent_same)
  consider "c \<in> kid_pages [z]" | "c \<notin> kid_pages [z]" "c \<in> kid_pages xs" | "c \<notin> kid_pages [z]" "c \<notin> kid_pages xs" "c \<in> kid_pages ys"
    | "c \<notin> kid_pages [z]" "c \<notin> kid_pages xs" "c \<notin> kid_pages ys" by blast
  then show ?thesis
  proof cases
    case 1
    then have "if t = l then c \<in> kid_pages xs else t = q \<and> c \<in> kid_pages ys \<and> c \<notin> kid_pages xs" using z xs merge_preD(11) [OF pre] by auto
    then show ?thesis using 1 by (cases "t = l") (simp_all del: kid_pages_Cons)
  next
    case 2
    then have "c \<in> kid_pages (nd_items nl)" using z xs by blast
    then show ?thesis using 2 same by (simp del: kid_pages_Cons)
  next
    case 3
    then have "c \<in> kid_pages (nd_items nq)" using z xs by blast
    then show ?thesis using 3 same' by (simp del: kid_pages_Cons)
  next
    case 4
    then show ?thesis by (simp del: kid_pages_Cons add: option.map_ident)
  qed
qed

definition redistributed :: "attrs \<Rightarrow> nodes \<Rightarrow> PageNum \<Rightarrow> nodes \<Rightarrow> bool" where
  "redistributed A V root V' \<longleftrightarrow> (\<exists>g. tree_inv A V' root g \<and> sh_pend g = Map.empty) \<and> entries V' = entries V"

lemma merge_disjoint:
  assumes pre: "merge_pre A (live st) root g r m i l nl q nq" and zs: "xs @ ys = nd_items nl @ nd_items nq"
  shows "kid_pages xs \<inter> kid_pages ys = {}"
proof (cases "nd_is_leaf nl")
  case True
  then have "kid_pages (xs @ ys) = {}" using merge_kids(1) [OF pre] zs by simp
  then show ?thesis by simp
next
  case False
  have "internal_ok A (merge_nodes (live st) r m i l nl q nq) (merge_shape l q g) l (merge_left nl nq)" using merge_internal_ok [OF pre False] .
  moreover have "take (length xs) (nd_items (merge_left nl nq)) = xs" "drop (length xs) (nd_items (merge_left nl nq)) = ys" using zs [symmetric] by simp_all
  ultimately show ?thesis using kids_disjoint [of A _ _ l "merge_left nl nq" _ "length xs"] by auto
qed

lemma redistribute_first_ok:
  assumes e: "env_ok bp bl st" and pre: "merge_pre A (live st) root g r m 0 l nl q nq" and nq: "nd_items nq = y # ys" "ys \<noteq> []"
    and cap: "nd_size nl + 1 \<le> node_capacity (bt_header st) (nd_is_leaf nl)"
  shows "\<exists>st' m'. redistribute (nd_is_leaf nl) q l r 0 st = Some (SUCCESS, st') \<and> m' = m\<lparr>nd_items := (nd_items m)[1 := (fst (hd ys), ChildPage q)]\<rparr> \<and>
     live_step bp bl st (rebalanced (live st) r m' l (nl\<lparr>nd_items := nd_items nl @ [y]\<rparr>) q (nq\<lparr>nd_items := ys\<rparr>)) (ih_root_page (bt_header st)) st' \<and>
     redistributed A (live st) root (live st')"
proof -
  note d = merge_preD [OF pre] and kids = merge_kids [OF pre]
  let ?N = "bt_nodes st" and ?ds = "mx_disposed (bt_mtr st)" and ?leaf = "nd_is_leaf nl" and ?k = "fst (hd ys)"
  let ?nl = "nl\<lparr>nd_items := nd_items nl @ [y]\<rparr>" and ?nq = "nq\<lparr>nd_items := ys\<rparr>" and ?m = "m\<lparr>nd_items := (nd_items m)[1 := (?k, ChildPage q)]\<rparr>"
  have at: "?N r = Some m" "?N l = Some nl" "?N q = Some nq" "r \<notin> set ?ds" "l \<notin> set ?ds" "q \<notin> set ?ds" using liveD d(3,8,9) by blast+
  have ky: "kid_pages [y] \<subseteq> kid_pages (nd_items nq)" using nq(1) by auto
  have out: "q \<notin> kid_pages [y]" "l \<notin> kid_pages [y]" "r \<notin> kid_pages [y]" using kids(3) ky by blast+
  have ke: "if ?leaf then kid_pages [y] = {} else kids_exist ?N [y]" using kids(1) nq(1) by (auto simp: kids_exist_def split: if_splits)
  obtain st1 where st1: "move_first_to_end ?leaf q l st = Some (SUCCESS, st1)" and s1: "step_ok bp bl 0 st ((reparent l [y] (?N(l \<mapsto> ?nl)))(q \<mapsto> ?nq)) st1"
    using move_first_ok [OF e at(3) _ nq(1) at(2) refl d(11) cap out(1) ke] d(22) by blast
  note d1 = step_okD [OF s1]
  have k1: "key_at q 0 st1 = Some ?k" using d1(2) nq(2) by (simp add: key_at_def node_key_at_def hd_conv_nth)
  have r1: "bt_nodes st1 r = Some m" using d1(2) at(1) out(3) d(12,13) by (simp del: kid_pages_Cons)
  obtain st2 where st2: "set_key_at r 1 ?k st1 = Some st2" and s2: "step_ok bp bl 0 st1 ((bt_nodes st1)(r \<mapsto> ?m)) st2"
    using set_key_ok [OF d1(1) r1, of 1 ?k] d(5,7) by auto
  have run: "redistribute ?leaf q l r 0 st = Some (SUCCESS, st2)" using st1 k1 st2 by (simp add: redistribute_def)
  let ?N2 = "(reparent l [y] (?N(l \<mapsto> ?nl)))(q \<mapsto> ?nq, r \<mapsto> ?m)"
  have s: "step_ok bp bl 0 st ?N2 st2" using step_ok_trans0 [OF s1 s2] d1(2) by simp
  have zs: "(nd_items nl @ [y]) @ ys = nd_items nl @ nd_items nq" using nq(1) by simp
  have ku: "kid_pages (nd_items nl @ [y]) \<union> kid_pages ys = kid_pages (nd_items nl) \<union> kid_pages (nd_items nq)" using nq(1) by auto
  have "without ?ds ?N2 = rebalanced (live st) r ?m l ?nl q ?nq"
  proof (rule rebalancedI)
    show "without ?ds ?N2 r = Some ?m" "without ?ds ?N2 q = Some ?nq" using at(4,6) d(13) by (auto simp: without_def)
    show "without ?ds ?N2 l = Some ?nl" using at(5) d(11,12) out(2) by (simp add: without_def del: kid_pages_Cons)
    fix c assume c: "c \<noteq> r" "c \<noteq> l" "c \<noteq> q"
    have "without ?ds ?N2 c = reparent l [y] (live st) c" using c by (simp add: without_def live_def reparent_def)
    also have "\<dots> = map_option (\<lambda>n. if c \<in> kid_pages (nd_items nl @ [y]) then n\<lparr>nd_parent := l\<rparr> else if c \<in> kid_pages ys then n\<lparr>nd_parent := q\<rparr> else n) (live st c)"
      using moved_kids [OF pre c ku merge_disjoint [OF pre zs], of l y] by simp
    finally show "without ?ds ?N2 c = map_option (\<lambda>n. if c \<in> kid_pages (nd_items ?nl) then n\<lparr>nd_parent := l\<rparr>
        else if c \<in> kid_pages (nd_items ?nq) then n\<lparr>nd_parent := q\<rparr> else n) (live st c)" by (simp cong: if_cong)
  qed
  then have ls: "live_step bp bl st (rebalanced (live st) r ?m l ?nl q ?nq) (ih_root_page (bt_header st)) st2" using live_step_of_step [OF s] by simp
  have "\<exists>g'. tree_inv A (live st2) root g' \<and> sh_pend g' = Map.empty" "entries (live st2) = entries (live st)"
    using rebalance_inv [OF pre refl, of "Suc (nd_size nl)" ?k "live st2"] live_stepD(2) [OF ls] nq by (auto simp: hd_conv_nth nth_append)
  then show ?thesis using run ls unfolding redistributed_def by blast
qed

lemma redistribute_last_ok:
  assumes e: "env_ok bp bl st" and pre: "merge_pre A (live st) root g r m i l nl q nq" and nl: "nd_items nl = xs @ [x]" "xs \<noteq> []"
    and cap: "nd_size nq + 1 \<le> node_capacity (bt_header st) (nd_is_leaf nl)"
  shows "\<exists>st' m'. redistribute (nd_is_leaf nl) l q r (Suc i) st = Some (SUCCESS, st') \<and> m' = m\<lparr>nd_items := (nd_items m)[Suc i := (fst x, ChildPage q)]\<rparr> \<and>
     live_step bp bl st (rebalanced (live st) r m' l (nl\<lparr>nd_items := xs\<rparr>) q (nq\<lparr>nd_items := x # nd_items nq\<rparr>)) (ih_root_page (bt_header st)) st' \<and>
     redistributed A (live st) root (live st')"
proof -
  note d = merge_preD [OF pre] and kids = merge_kids [OF pre]
  let ?N = "bt_nodes st" and ?ds = "mx_disposed (bt_mtr st)" and ?leaf = "nd_is_leaf nl" and ?k = "fst x"
  let ?nl = "nl\<lparr>nd_items := xs\<rparr>" and ?nq = "nq\<lparr>nd_items := x # nd_items nq\<rparr>" and ?m = "m\<lparr>nd_items := (nd_items m)[Suc i := (?k, ChildPage q)]\<rparr>"
  have at: "?N r = Some m" "?N l = Some nl" "?N q = Some nq" "r \<notin> set ?ds" "l \<notin> set ?ds" "q \<notin> set ?ds" using liveD d(3,8,9) by blast+
  have ky: "kid_pages [x] \<subseteq> kid_pages (nd_items nl)" using nl(1) by auto
  have out: "q \<notin> kid_pages [x]" "l \<notin> kid_pages [x]" "r \<notin> kid_pages [x]" using kids(2) ky by blast+
  have ke: "if ?leaf then kid_pages [x] = {} else kids_exist ?N [x]" using kids(1) nl(1) by (auto simp: kids_exist_def split: if_splits)
  obtain st1 where st1: "move_last_to_front ?leaf l q st = Some (SUCCESS, st1)" and s1: "step_ok bp bl 0 st ((reparent q [x] (?N(q \<mapsto> ?nq)))(l \<mapsto> ?nl)) st1"
    using move_last_ok [OF e at(2) refl nl(1) at(3) _ d(11) cap out(2) ke] d(22) by blast
  note d1 = step_okD [OF s1]
  have k1: "key_at q 0 st1 = Some ?k" using d1(2) d(11) out(1) by (simp add: key_at_def node_key_at_def del: kid_pages_Cons)
  have r1: "bt_nodes st1 r = Some m" using d1(2) at(1) out(3) d(12,13) by (simp del: kid_pages_Cons)
  obtain st2 where st2: "set_key_at r (Suc i) ?k st1 = Some st2" and s2: "step_ok bp bl 0 st1 ((bt_nodes st1)(r \<mapsto> ?m)) st2"
    using set_key_ok [OF d1(1) r1, of "Suc i" ?k] d(5,7) by auto
  have run: "redistribute ?leaf l q r (Suc i) st = Some (SUCCESS, st2)" using st1 k1 st2 by (simp add: redistribute_def)
  let ?N2 = "(reparent q [x] (?N(q \<mapsto> ?nq)))(l \<mapsto> ?nl, r \<mapsto> ?m)"
  have s: "step_ok bp bl 0 st ?N2 st2" using step_ok_trans0 [OF s1 s2] d1(2) by simp
  have zs: "xs @ (x # nd_items nq) = nd_items nl @ nd_items nq" using nl(1) by simp
  have ku: "kid_pages xs \<union> kid_pages (x # nd_items nq) = kid_pages (nd_items nl) \<union> kid_pages (nd_items nq)" using nl(1) by auto
  have "without ?ds ?N2 = rebalanced (live st) r ?m l ?nl q ?nq"
  proof (rule rebalancedI)
    show "without ?ds ?N2 r = Some ?m" "without ?ds ?N2 l = Some ?nl" using at(4,5) d(12) by (auto simp: without_def)
    show "without ?ds ?N2 q = Some ?nq" using at(6) d(11,13) out(1) by (simp add: without_def del: kid_pages_Cons)
    fix c assume c: "c \<noteq> r" "c \<noteq> l" "c \<noteq> q"
    have "without ?ds ?N2 c = reparent q [x] (live st) c" using c by (simp add: without_def live_def reparent_def)
    also have "\<dots> = map_option (\<lambda>n. if c \<in> kid_pages xs then n\<lparr>nd_parent := l\<rparr> else if c \<in> kid_pages (x # nd_items nq) then n\<lparr>nd_parent := q\<rparr> else n) (live st c)"
      using moved_kids [OF pre c ku merge_disjoint [OF pre zs], of q x] by auto
    finally show "without ?ds ?N2 c = map_option (\<lambda>n. if c \<in> kid_pages (nd_items ?nl) then n\<lparr>nd_parent := l\<rparr>
        else if c \<in> kid_pages (nd_items ?nq) then n\<lparr>nd_parent := q\<rparr> else n) (live st c)" by (simp cong: if_cong)
  qed
  then have ls: "live_step bp bl st (rebalanced (live st) r ?m l ?nl q ?nq) (ih_root_page (bt_header st)) st2" using live_step_of_step [OF s] by simp
  have "\<exists>g'. tree_inv A (live st2) root g' \<and> sh_pend g' = Map.empty" "entries (live st2) = entries (live st)"
    using rebalance_inv [OF pre refl, of "length xs" ?k "live st2"] live_stepD(2) [OF ls] nl by (auto simp: nth_append)
  then show ?thesis using run ls unfolding redistributed_def by blast
qed


section \<open>A node that is too small\<close>

definition del_header_ok :: "IndexFileHeader \<Rightarrow> bool" where
  "del_header_ok h \<longleftrightarrow> header_ok h \<and> 6 \<le> ih_internal_max_size h"

definition del_pre :: "IndexFileHeader \<Rightarrow> nodes \<Rightarrow> tree_shape \<Rightarrow> PageNum \<Rightarrow> IndexNode \<Rightarrow> bool" where
  "del_pre h V g p n \<longleftrightarrow> del_header_ok h \<and> tree_inv (ih_attrs h) V (ih_root_page h) g \<and> sh_pend g = Map.empty \<and> V p = Some n \<and>
     (\<forall>s k. V s = Some k \<longrightarrow> s \<noteq> p \<longrightarrow> node_size_ok h (s = ih_root_page h) k) \<and> nd_size n \<le> max_size h n \<and>
     (if p = ih_root_page h then nd_is_leaf n \<or> 1 \<le> nd_size n else max_size h n div 2 - 1 \<le> nd_size n)"

lemma del_preD:
  assumes "del_pre h V g p n"
  shows "header_ok h" "tree_inv (ih_attrs h) V (ih_root_page h) g" "sh_pend g = Map.empty" "V p = Some n"
    "V s = Some k \<Longrightarrow> s \<noteq> p \<Longrightarrow> node_size_ok h (s = ih_root_page h) k" "nd_size n \<le> max_size h n"
    "p = ih_root_page h \<Longrightarrow> nd_is_leaf n \<or> 1 \<le> nd_size n" "p \<noteq> ih_root_page h \<Longrightarrow> max_size h n div 2 - 1 \<le> nd_size n"
    "\<not> nd_is_leaf m \<Longrightarrow> 6 \<le> max_size h m" "del_header_ok h"
  using assms by (auto simp: del_pre_def del_header_ok_def max_size_def split: if_splits)

definition del_done :: "IndexFileHeader \<Rightarrow> index_key set \<Rightarrow> nodes \<Rightarrow> PageNum \<Rightarrow> bool" where
  "del_done h E V r \<longleftrightarrow> (r = BP_INVALID_PAGE_NUM \<and> V = Map.empty \<and> E = {}) \<or> insert_done (ih_attrs h) h E V r"

lemma root_parent:
  assumes "tree_inv A V root g" "sh_pend g = Map.empty" "V p = Some n"
  shows "nd_parent n = BP_INVALID_PAGE_NUM \<longleftrightarrow> p = root"
proof
  assume inv: "nd_parent n = BP_INVALID_PAGE_NUM"
  show "p = root"
  proof (rule ccontr)
    assume "p \<noteq> root"
    then obtain m where "V (nd_parent n) = Some m" using tree_invD(7) [OF assms(1,3)] assms(2) by (auto simp: is_child_kid)
    from node_okD(1) [OF tree_invD(2) [OF assms(1) this]] show False using inv by (simp add: BP_INVALID_PAGE_NUM_def)
  qed
qed (use tree_invD(3) [OF assms(1)] assms(3) in auto)

lemma last_key_range:
  assumes ok: "node_ok A V g p n" and sz: "0 < nd_size n" "nd_is_leaf n \<or> 2 \<le> nd_size n"
  shows "in_range g p (key_bound A (fst (nd_items n ! (nd_size n - 1))))"
proof (cases "nd_is_leaf n")
  case True
  have "nd_items n ! (nd_size n - 1) \<in> set (nd_items n)" using sz(1) by simp
  then show ?thesis using node_okD(4) [OF ok True] by (auto simp: leaf_ok_def in_range_def item_bound_fst)
next
  case False
  have io: "internal_ok A V g p n" using node_okD(5) [OF ok False] .
  let ?i = "nd_size n - 1"
  have i: "?i < nd_size n" "0 < ?i" using sz False by auto
  have "child_bounds A g p n ! ?i = item_bound A (nd_items n ! ?i)" using child_bounds_nth [OF _ internal_okD(1) [OF io], of ?i A g p] i by simp
  then show ?thesis using child_bounds_range [OF io i(1)] by (simp add: in_range_def item_bound_fst)
qed

text \<open>The sibling a small node is merged with.\<close>

lemma neighbor_ok:
  assumes pre: "del_pre h V g p n" and nr: "p \<noteq> ih_root_page h" and small: "nd_size n < min_size h n" and st: "bt_header st = h"
  obtains m i j nb nn l nl q nq i0 where "V (nd_parent n) = Some m" "2 \<le> nd_size m"
    "internal_lookup st (fst (nd_items n ! (nd_size n - 1))) m = Some (i, j)" "internal_value_at m i = Some p"
    "internal_value_at m (if i = 0 then 1 else i - 1) = Some nb" "V nb = Some nn" "nb \<noteq> p" "nb \<noteq> ih_root_page h"
    "merge_pre (ih_attrs h) V (ih_root_page h) g (nd_parent n) m i0 l nl q nq"
    "(i = 0 \<and> i0 = 0 \<and> l = p \<and> nl = n \<and> q = nb \<and> nq = nn) \<or> (i = Suc i0 \<and> l = nb \<and> nl = nn \<and> q = p \<and> nq = n)"
    "sh_lvl g (nd_parent n) = Suc (sh_lvl g p)" "0 < nd_size n"
proof -
  note d = del_preD [OF pre]
  let ?A = "ih_attrs h" and ?r = "nd_parent n" and ?k = "fst (nd_items n ! (nd_size n - 1))" and ?root = "ih_root_page h"
  have "p \<notin> ran (sh_pend g)" using d(3) by simp
  then obtain m i where m: "V ?r = Some m" "\<not> nd_is_leaf m" "internal_ok ?A V g ?r m" "i < nd_size m"
    "snd (nd_items m ! i) = ChildPage p" "sh_lvl g ?r = Suc (sh_lvl g p)" "sh_lo g p = child_bounds ?A g ?r m ! i" "span_hi g p = child_bounds ?A g ?r m ! Suc i"
    using node_has_parent [OF d(2,4) nr] by metis
  have "?r \<noteq> p" using m(6) by auto
  then have sm: "2 \<le> nd_size m" using d(5) [OF m(1)] m(2) d(9) [OF m(2)] by (auto simp: node_size_ok_def split: if_splits)
  have mx: "4 \<le> max_size h n" using header_okD(4) [OF d(1)] .
  have s0: "0 < nd_size n" using d(8) [OF nr] mx by linarith
  have s1: "nd_is_leaf n \<or> 2 \<le> nd_size n"
  proof (cases "nd_is_leaf n")
    case False
    then show ?thesis using d(8) [OF nr] d(9) [OF False] by linarith
  qed simp
  have okp: "node_ok ?A V g p n" using tree_invD(2) [OF d(2,4)] .
  have kr: "in_range g p (key_bound ?A ?k)" using last_key_range [OF okp s0 s1] .
  have kb: "child_bounds ?A g ?r m ! i \<le> key_bound ?A ?k" "key_bound ?A ?k < child_bounds ?A g ?r m ! Suc i"
    using kr m(7,8) d(3) by (auto simp: in_range_def span_hi_plain)
  have rr: "in_range g ?r (key_bound ?A ?k)" using kb child_bounds_range [OF m(3,4)] by (auto simp: in_range_def)
  have km: "\<forall>x\<in>set (nd_items m). key_ok ?A (fst x)" using node_okD(3) [OF tree_invD(2) [OF d(2) m(1)]] by blast
  have kk: "key_ok ?A ?k" using node_okD(3) [OF okp, of "nd_items n ! (nd_size n - 1)"] s0 by simp
  obtain i' j where lk: "internal_lookup st ?k m = Some (i', j)" "i' < nd_size m" "child_bounds ?A g ?r m ! i' \<le> key_bound ?A ?k"
    "key_bound ?A ?k < child_bounds ?A g ?r m ! Suc i'"
    using internal_lookup_ok [OF m(3) km kk _ rr, of st] st by metis
  have ii: "i' = i" using child_bounds_disjoint [OF m(3) lk(2) m(4) lk(3,4) kb] .
  let ?ni = "if i = 0 then 1 else i - 1"
  have ni: "?ni < nd_size m" "?ni \<noteq> i" using sm m(4) by auto
  obtain nb nn where nb: "snd (nd_items m ! ?ni) = ChildPage nb" "V nb = Some nn" "nd_parent nn = ?r"
    using internal_okD(4) [OF m(3) ni(1)] by (auto simp: child_ok_def)
  have np: "nb \<noteq> p" using child_index_unique [OF m(3) ni(1) m(4) nb(1)] m(5) ni(2) by auto
  have nroot: "nb \<noteq> ?root" using root_parent [OF d(2,3) nb(2)] nb(3) node_okD(1) [OF tree_invD(2) [OF d(2) m(1)]] by (auto simp: BP_INVALID_PAGE_NUM_def)
  have val: "internal_value_at m i = Some p" "internal_value_at m ?ni = Some nb"
    using m(4,5) ni(1) nb(1) by (simp_all add: internal_value_at_def)
  show ?thesis
  proof (cases "i = 0")
    case True
    then have "merge_pre ?A V ?root g ?r m 0 p n nb nn" using d(2,3,4) m(1,2,5) nb(1,2) sm by (simp add: merge_pre_def)
    then show ?thesis using that [OF m(1) sm lk(1) [unfolded ii] val nb(2) np nroot, of 0 p n nb nn] True m(6) s0 by simp
  next
    case False
    then have "merge_pre ?A V ?root g ?r m (i - 1) nb nn p n" using d(2,3,4) m(1,2,4,5) nb(1,2) by (simp add: merge_pre_def)
    then show ?thesis using that [OF m(1) sm lk(1) [unfolded ii] val nb(2) np nroot, of "i - 1" nb nn p n] False m(6) s0 by simp
  qed
qed


lemma live_step_refl: "env_ok bp bl st \<Longrightarrow> live_step bp bl st (live st) (ih_root_page (bt_header st)) st"
  by (simp add: live_step_def)

lemma live_step_trans:
  "step_ok bp bl 0 st (bt_nodes st) st1 \<Longrightarrow> live_step bp bl st1 V r st2 \<Longrightarrow> live_step bp bl st V r st2"
  by (auto simp: live_step_def step_ok_def)

lemma step_same_live: "step_ok bp bl 0 st (bt_nodes st) st1 \<Longrightarrow> live st1 = live st"
  by (simp add: step_ok_def live_def)

text \<open>The size is one of a node that needs nothing, too.\<close>

lemma del_pre_done:
  assumes pre: "del_pre h V g p n" and ok: "node_size_ok h (p = ih_root_page h) n"
  shows "del_done h (entries V) V (ih_root_page h)"
proof -
  note d = del_preD [OF pre]
  have "sizes_ok h (ih_root_page h) V" unfolding sizes_ok_def using d(4) d(5) ok by (metis option.inject)
  then show ?thesis using d(2,3) by (auto simp: del_done_def insert_done_def)
qed

lemma root_leaf_only:
  assumes inv: "tree_inv A V root g" "sh_pend g = Map.empty" and n: "V root = Some n" "nd_is_leaf n"
  shows "V = [root \<mapsto> n]"
proof
  fix s
  show "V s = [root \<mapsto> n] s"
  proof (cases "V s")
    case None
    then show ?thesis using n(1) by (cases "s = root") auto
  next
    case (Some k)
    have l0: "sh_lvl g root = 0" using leaf_level [OF inv(1) n(1)] n(2) by simp
    have "sh_lvl g s = sh_lvl g root" using root_top [OF inv(1), of s] domI [of V s, OF Some] l0 by (metis le_zero_eq)
    moreover have "in_range g s (sh_lo g s)" "in_range g root (sh_lo g s)"
      using node_okD(2) [OF tree_invD(2) [OF inv(1) Some]] tree_invD(4,5) [OF inv(1)] inv(2)
      by (auto simp: in_range_def span_hi_plain intro: less_le_trans)
    ultimately have "s = root" using level_unique [OF inv, of s root] Some n(1) by blast
    then show ?thesis using Some n(1) by simp
  qed
qed

lemma adjust_root_ok:
  assumes e: "env_ok bp bl st" and pre: "del_pre (bt_header st) (live st) g p n" and root: "p = ih_root_page (bt_header st)" and small: "nd_size n \<le> 1"
  shows "\<exists>st' V r. adjust_root p st = Some (SUCCESS, st') \<and> live_step bp bl st V r st' \<and> del_done (bt_header st) (entries (live st)) V r"
proof -
  note d = del_preD [OF pre]
  let ?h = "bt_header st" and ?V = "live st" and ?ds = "mx_disposed (bt_mtr st)"
  have np: "bt_nodes st p = Some n" "p \<notin> set ?ds" using liveD [OF d(4)] by auto
  have dispose: "live_step bp bl st (V(p := None)) r (memo_dispose_page p st2)"
    if "tree_step bp bl 0 st1 N r st2" "step_ok bp bl 0 st N st1" "V = without ?ds N" for V N r st1 st2
    using that by (auto simp: live_step_def tree_step_def step_ok_def memo_dispose_page_def live_def without_snoc env_ok_def page_exists_def)
  consider (leaf) "nd_is_leaf n" "0 < nd_size n" | (empty) "nd_is_leaf n" "nd_size n = 0" | (inner) "\<not> nd_is_leaf n" by blast
  then show ?thesis
  proof cases
    case leaf
    then have "node_size_ok ?h (p = ih_root_page ?h) n" using d(6) root by (simp add: node_size_ok_def Suc_le_eq)
    from del_pre_done [OF pre this] have dd: "del_done ?h (entries ?V) ?V (ih_root_page ?h)" .
    have "adjust_root p st = Some (SUCCESS, st)" using np leaf by (simp add: adjust_root_def)
    then show ?thesis using live_step_refl [OF e] dd by blast
  next
    case empty
    have V: "?V = [p \<mapsto> n]" using root_leaf_only [OF d(2,3)] d(4) root empty(1) by simp
    obtain st1 where u: "update_root_page_num_locked BP_INVALID_PAGE_NUM st = Some st1" and s1: "tree_step bp bl 0 st (bt_nodes st) BP_INVALID_PAGE_NUM st1"
      using update_root_ok [OF e] by blast
    have "step_ok bp bl 0 st (bt_nodes st) st" using e by (simp add: step_ok_def)
    from dispose [OF s1 this, of ?V] have ls: "live_step bp bl st (?V(p := None)) BP_INVALID_PAGE_NUM (memo_dispose_page p st1)" by (simp add: live_def)
    have "entries ?V = {}" using V empty by (simp add: entries_def leaf_keys_def)
    then have "del_done ?h (entries ?V) (?V(p := None)) BP_INVALID_PAGE_NUM" using V by (simp add: del_done_def)
    moreover have "adjust_root p st = Some (SUCCESS, memo_dispose_page p st1)" using np empty u by (simp add: adjust_root_def)
    ultimately show ?thesis using ls by blast
  next
    case inner
    then have "nd_size n = 1" using d(7) root small by simp
    then obtain x where x: "nd_items n = [x]" by (auto simp: length_Suc_conv)
    have io: "internal_ok (ih_attrs ?h) ?V g p n" using node_okD(5) [OF tree_invD(2) [OF d(2,4)] inner] .
    obtain c nc where c: "snd x = ChildPage c" "?V c = Some nc" "nd_parent nc = p" using internal_okD(4) [OF io, of 0] x by (auto simp: child_ok_def)
    have cn: "bt_nodes st c = Some nc" "c \<notin> set ?ds" using liveD [OF c(2)] by auto
    let ?nc = "nc\<lparr>nd_parent := BP_INVALID_PAGE_NUM\<rparr>" let ?V' = "?V(c \<mapsto> ?nc, p := None)"
    obtain st1 where g1: "get_page c st = Some (SUCCESS, st1)" and s1: "step_ok bp bl 0 st (bt_nodes st) st1"
      using get_page_ok [OF e, of c] cn by (auto simp: page_exists_def)
    obtain st2 where p2: "set_parent_page_num c BP_INVALID_PAGE_NUM st1 = Some st2" and s2: "step_ok bp bl 0 st1 ((bt_nodes st)(c \<mapsto> ?nc)) st2"
      using set_parent_ok [OF step_okD(1) [OF s1], of c nc BP_INVALID_PAGE_NUM] step_okD(2) [OF s1] cn by auto
    obtain st3 where u: "update_root_page_num_locked c st2 = Some st3" and s3: "tree_step bp bl 0 st2 (bt_nodes st2) c st3"
      using update_root_ok [OF step_okD(1) [OF s2]] by blast
    have s12: "step_ok bp bl 0 st (bt_nodes st2) st2" using step_ok_trans0 [OF s1 s2] step_okD(2) [OF s2] by simp
    have "?V(c \<mapsto> ?nc) = without ?ds (bt_nodes st2)" using step_okD(2) [OF s2] cn(2) by (simp add: live_def without_upd)
    from dispose [OF s3 s12 this] have ls: "live_step bp bl st ?V' c (memo_dispose_page p st3)" .
    have cp: "c \<noteq> p" using kid_ok [OF io, of c] x c(1) by auto
    have inv: "tree_inv (ih_attrs ?h) ?V' c g" "entries ?V' = entries ?V"
      using root_drop_inv [of "ih_attrs ?h" ?V p g n x c nc ?V'] d(2,3,4) inner x c root by auto
    have "node_size_ok ?h (s = c) k" if sk: "?V' s = Some k" for s k
    proof (cases "s = c")
      case True
      have "node_size_ok ?h False nc" using d(5) [OF c(2) cp] cp root by simp
      then have "node_size_ok ?h True nc" by (intro node_size_okI d(1)) (simp_all add: node_size_ok_def)
      then show ?thesis using True sk cp by auto
    next
      case False
      then have "?V s = Some k" "s \<noteq> p" using sk by (auto split: if_splits)
      then show ?thesis using d(5) [of s k] False root by simp
    qed
    then have "del_done ?h (entries ?V) ?V' c" using inv d(3) by (auto simp: del_done_def insert_done_def sizes_ok_def)
    moreover have "adjust_root p st = Some (SUCCESS, memo_dispose_page p st3)"
      using np inner x c(1) g1 p2 u by (simp add: adjust_root_def internal_value_at_def)
    ultimately show ?thesis using ls by blast
  qed
qed


lemma rebalanced_sizes:
  assumes V: "\<And>s k. V s = Some k \<Longrightarrow> s \<noteq> p \<Longrightarrow> node_size_ok h (s = root) k"
    and r: "V r = Some m" "r \<noteq> p" "nd_items m' = (nd_items m)[i := x]" "nd_is_leaf m' = nd_is_leaf m"
    and lq: "node_size_ok h (l = root) nl" "node_size_ok h (q = root) nq" "p = l \<or> p = q"
  shows "sizes_ok h root (rebalanced V r m' l nl q nq)"
  unfolding sizes_ok_def
proof (intro allI impI)
  fix s k assume sk: "rebalanced V r m' l nl q nq s = Some k"
  have "max_size h m' = max_size h m" using r(4) by (simp add: max_size_def)
  then have "node_size_ok h (r = root) m'" using V [OF r(1,2)] r(3,4) by (auto simp: node_size_ok_def split: if_splits)
  moreover have "node_size_ok h (s = root) k" if s: "s \<noteq> r" "s \<noteq> l" "s \<noteq> q"
  proof -
    obtain k0 where "V s = Some k0" "nd_items k = nd_items k0" "nd_is_leaf k = nd_is_leaf k0" using sk s by (auto simp: rebalanced_def split: if_splits)
    then show ?thesis using V [of s k0] s lq(3) by (auto simp: node_size_ok_def max_size_def)
  qed
  ultimately show "node_size_ok h (s = root) k" using sk lq(1,2) by (auto simp: rebalanced_def split: if_splits)
qed

lemma merged_pre:
  assumes pre: "del_pre h V g p n" and mp: "merge_pre (ih_attrs h) V (ih_root_page h) g r m i l nl q nq" and role: "p = l \<and> nl = n \<and> q \<noteq> ih_root_page h \<or> p = q \<and> nq = n"
    and sum: "nd_size nl + nd_size nq \<le> max_size h nl" and h: "h' = h"
  shows "del_pre h' (merge_nodes V r m i l nl q nq) (merge_shape l q g) r (merge_node i m)"
proof -
  note d = del_preD [OF pre] and e = merge_preD [OF mp] and a = merge_at [OF mp]
  let ?V = "merge_nodes V r m i l nl q nq" and ?root = "ih_root_page h"
  have rp: "r \<noteq> p" using role e(12,13) by auto
  have lr: "l \<noteq> ?root" using root_parent [OF e(1,2,8)] e(14) node_okD(1) [OF tree_invD(2) [OF e(1,3)]] by (auto simp: BP_INVALID_PAGE_NUM_def)
  have sl: "node_size_ok h False (merge_left nl nq)"
  proof (rule node_size_okI [OF d(1)])
    have mx: "max_size h nl = max_size h nq" "max_size h (merge_left nl nq) = max_size h nl" using e(22) by (simp_all add: max_size_def)
    then show "nd_size (merge_left nl nq) \<le> max_size h (merge_left nl nq)" using sum by simp
    have "max_size h nl div 2 \<le> nd_size nl \<or> max_size h nl div 2 \<le> nd_size nq"
      using role d(5) [OF e(8)] d(5) [OF e(9)] e(11,23) lr mx by (auto simp: node_size_ok_def)
    then show "max_size h (merge_left nl nq) div 2 \<le> nd_size (merge_left nl nq)" using mx by auto
  qed
  have sizes: "node_size_ok h (s = ?root) k" if sk: "?V s = Some k" "s \<noteq> r" for s k
  proof (cases "s = l")
    case True
    then show ?thesis using a(2) sl lr sk(1) by auto
  next
    case False
    have sq: "s \<noteq> q" using sk(1) a(3) by auto
    obtain k0 where k0: "V s = Some k0" "nd_items k = nd_items k0" "nd_is_leaf k = nd_is_leaf k0"
    proof (cases "s \<in> kid_pages (nd_items nq)")
      case True
      then have "\<not> nd_is_leaf nq" using a(6) by auto
      then show ?thesis using that a(5) [OF _ True] sk(1) by auto
    next
      case nk: False
      then show ?thesis using that [of k] a(4) [OF sk(2) False sq nk] sk(1) by simp
    qed
    then show ?thesis using d(5) [OF k0(1)] role False sq by (auto simp: node_size_ok_def max_size_def)
  qed
  have sm: "node_size_ok h (r = ?root) m" using d(5) [OF e(3) rp] .
  have len: "nd_size (merge_node i m) = nd_size m - 1" "max_size h (merge_node i m) = max_size h m" using e(5) by simp_all
  have "if r = ?root then nd_is_leaf (merge_node i m) \<or> 1 \<le> nd_size (merge_node i m) else max_size h (merge_node i m) div 2 - 1 \<le> nd_size (merge_node i m)"
    using sm e(4,5) len by (auto simp: node_size_ok_def split: if_splits)
  moreover have "nd_size m \<le> max_size h m" using sm by (simp add: node_size_ok_def)
  then have "nd_size (merge_node i m) \<le> max_size h (merge_node i m)" unfolding len by linarith
  ultimately show ?thesis
    unfolding del_pre_def h using d(10) merge_inv [OF mp] e(2) a(1) sizes by simp
qed

lemma small_node_ok:
  assumes e: "env_ok bp bl st" and pre: "del_pre (bt_header st) (live st) g p n" and nr: "p \<noteq> ih_root_page (bt_header st)"
    and small: "nd_size n < min_size (bt_header st) n"
  shows "(\<exists>st'. coalesce_or_redistribute (nd_is_leaf n) p st = Some (SUCCESS, st') \<and> live_step bp bl st (live st') (ih_root_page (bt_header st)) st' \<and>
       del_done (bt_header st) (entries (live st)) (live st') (ih_root_page (bt_header st))) \<or>
     (\<exists>st' g' m. coalesce_or_redistribute (nd_is_leaf n) p st = coalesce_or_redistribute False (nd_parent n) st' \<and>
       live_step bp bl st (live st') (ih_root_page (bt_header st)) st' \<and> entries (live st') = entries (live st) \<and>
       del_pre (bt_header st') (live st') g' (nd_parent n) m \<and> \<not> nd_is_leaf m \<and> sh_lvl g' = sh_lvl g \<and> sh_lvl g (nd_parent n) = Suc (sh_lvl g p) \<and>
       live st (nd_parent n) \<noteq> None)"
proof -
  note d = del_preD [OF pre]
  let ?h = "bt_header st" and ?V = "live st" and ?r = "nd_parent n" and ?root = "ih_root_page (bt_header st)" and ?k = "fst (nd_items n ! (nd_size n - 1))"
  obtain st1 where g1: "get_page ?r st = Some (SUCCESS, st1)" and s1: "step_ok bp bl 0 st (bt_nodes st) st1"
  proof -
    obtain m where "?V ?r = Some m" using neighbor_ok [OF pre nr small refl] by metis
    then show ?thesis using get_page_ok [OF e, of ?r] that liveD by (fastforce simp: page_exists_def)
  qed
  note d1 = step_okD [OF s1]
  obtain m i j nb nn l nl q nq i0 where m: "?V ?r = Some m" "2 \<le> nd_size m" "internal_lookup st1 ?k m = Some (i, j)" "internal_value_at m i = Some p"
    "internal_value_at m (if i = 0 then 1 else i - 1) = Some nb" "?V nb = Some nn" "nb \<noteq> p" "nb \<noteq> ?root"
    and mp: "merge_pre (ih_attrs ?h) ?V ?root g ?r m i0 l nl q nq"
    and roles: "(i = 0 \<and> i0 = 0 \<and> l = p \<and> nl = n \<and> q = nb \<and> nq = nn) \<or> (i = Suc i0 \<and> l = nb \<and> nl = nn \<and> q = p \<and> nq = n)"
    and lv: "sh_lvl g ?r = Suc (sh_lvl g p)" and s0: "0 < nd_size n"
    by (rule neighbor_ok [OF pre nr small d1(3)])
  note mpd = merge_preD [OF mp]
  have nodes: "bt_nodes st p = Some n" "bt_nodes st ?r = Some m" "bt_nodes st nb = Some nn" using liveD d(4) m(1,6) by blast+
  obtain st2 where g2: "get_page nb st1 = Some (SUCCESS, st2)" and s2: "step_ok bp bl 0 st1 (bt_nodes st1) st2"
    using get_page_ok [OF d1(1), of nb] nodes(3) d1(2) by (auto simp: page_exists_def)
  note d2 = step_okD [OF s2]
  obtain st3 where x3: "memo_xlatch (PageLatch nb) st2 = Some st3" and s3: "step_ok bp bl 0 st2 (bt_nodes st2) st3"
    using latch_ok(1) [OF d2(1), of "PageLatch nb"] by auto
  have s: "step_ok bp bl 0 st (bt_nodes st) st3"
    using step_ok_trans0 [OF step_ok_trans0 [OF s1 s2] s3] d2(2) d1(2) by simp
  note d3 = step_okD [OF s]
  have lv3: "live st3 = ?V" using step_same_live [OF s] .
  have leaf: "nd_is_leaf nl = nd_is_leaf n" "nd_is_leaf nn = nd_is_leaf n" using roles mpd(22) by auto
  have mx: "max_size ?h nl = max_size ?h n" "max_size ?h nn = max_size ?h n" using leaf by (simp_all add: max_size_def)
  have nns: "node_size_ok ?h False nn" using d(5) [OF m(6,7)] m(8) by simp
  have cap: "max_size ?h n \<le> node_capacity (bt_header st3) (nd_is_leaf nl)" using header_okD(3) [OF d(1), of n] leaf d3(3) by simp
  have n1: "nd_size n < max_size ?h n - max_size ?h n div 2" using small by (simp add: min_size_def)
  have mp3: "merge_pre (ih_attrs ?h) (live st3) ?root g ?r m i0 l nl q nq" using mp lv3 by simp
  have rp: "?r \<noteq> p" using lv by auto
  have run: "coalesce_or_redistribute (nd_is_leaf n) p st =
     (if nd_size n + nd_size nn > max_size ?h n then redistribute (nd_is_leaf n) nb p ?r i st3
      else Option.bind (coalesce (nd_is_leaf n) nb p ?r i st3) (\<lambda>r3. if OB_FAIL (fst r3) then Some r3 else coalesce_or_redistribute False ?r (snd r3)))"
    using nodes d1(2,3) d2(2) d3(2,3) small s0 root_parent [OF d(2,3,4)] nr g1 m(3-5) g2 x3
    by (simp add: coalesce_or_redistribute.simps [of "nd_is_leaf n" p] Let_def node_key_at_def split del: if_split del: One_nat_def cong: if_cong)
  show ?thesis
  proof (cases "nd_size n + nd_size nn > max_size ?h n")
    case True
    have nn2: "1 < nd_size nn" using True n1 by linarith
    have szs: "node_size_ok ?h False k" if "nd_size k = nd_size n + 1 \<or> nd_size k = nd_size nn - 1" "nd_is_leaf k = nd_is_leaf n" for k
    proof -
      have mk: "max_size ?h k = max_size ?h n" using that(2) by (simp add: max_size_def)
      have b: "max_size ?h n div 2 - 1 \<le> nd_size n" "nd_size nn \<le> max_size ?h n" using d(8) [OF nr] nns mx by (simp_all add: node_size_ok_def)
      show "node_size_ok ?h False k" by (rule node_size_okI [OF d(1)]) (use that(1) mk b True n1 in linarith)+
    qed
    have fin: ?thesis if run': "redistribute (nd_is_leaf n) nb p ?r i st3 = Some (SUCCESS, st')"
      and ls: "live_step bp bl st3 (rebalanced (live st3) ?r m' l ml q mq) (ih_root_page (bt_header st3)) st'"
      and rd: "redistributed (ih_attrs ?h) (live st3) ?root (live st')" and m': "m' = m\<lparr>nd_items := (nd_items m)[t := x]\<rparr>"
      and sz: "node_size_ok ?h False ml" "node_size_ok ?h False mq" for st' m' ml mq t x
    proof -
      have nl: "l \<noteq> ?root" using roles nr m(8) by auto
      have "sizes_ok ?h ?root (rebalanced ?V ?r m' l ml q mq)"
        by (rule rebalanced_sizes [where p = p and m = m and i = t and x = x]) (use d(5) m(1) rp m' sz nl mpd(23) roles in auto)
      then have "del_done ?h (entries ?V) (live st') ?root"
        using rd live_stepD(2) [OF ls] lv3 by (simp add: del_done_def insert_done_def redistributed_def)
      moreover have "live_step bp bl st (live st') ?root st'" using live_step_trans [OF s ls] live_stepD(2) [OF ls] d3(3) by simp
      ultimately show ?thesis using run run' True by auto
    qed
    have n1': "nd_size n + 1 \<le> node_capacity (bt_header st3) (nd_is_leaf nl)" using n1 cap by linarith
    consider (first) "i = 0" "i0 = 0" "l = p" "nl = n" "q = nb" "nq = nn" | (last) "i = Suc i0" "l = nb" "nl = nn" "q = p" "nq = n" using roles by blast
    then show ?thesis
    proof cases
      case first
      obtain y ys where ys: "nd_items nn = y # ys" "ys \<noteq> []" using nn2 by (cases "nd_items nn") auto
      obtain st' m' where r: "redistribute (nd_is_leaf nl) q l ?r 0 st3 = Some (SUCCESS, st')" "m' = m\<lparr>nd_items := (nd_items m)[1 := (fst (hd ys), ChildPage q)]\<rparr>"
        "live_step bp bl st3 (rebalanced (live st3) ?r m' l (nl\<lparr>nd_items := nd_items nl @ [y]\<rparr>) q (nq\<lparr>nd_items := ys\<rparr>)) (ih_root_page (bt_header st3)) st'"
        "redistributed (ih_attrs ?h) (live st3) ?root (live st')"
        using redistribute_first_ok [OF d3(1) mp3 [unfolded first(2)], of y ys] ys first n1' by blast
      show ?thesis by (rule fin [OF _ r(3,4,2)]) (use r(1) first leaf szs ys in auto)
    next
      case last
      obtain xs x where xs: "nd_items nn = xs @ [x]" "xs \<noteq> []" using nn2 by (cases "nd_items nn" rule: rev_cases) auto
      obtain st' m' where r: "redistribute (nd_is_leaf nl) l q ?r (Suc i0) st3 = Some (SUCCESS, st')" "m' = m\<lparr>nd_items := (nd_items m)[Suc i0 := (fst x, ChildPage q)]\<rparr>"
        "live_step bp bl st3 (rebalanced (live st3) ?r m' l (nl\<lparr>nd_items := xs\<rparr>) q (nq\<lparr>nd_items := x # nd_items nq\<rparr>)) (ih_root_page (bt_header st3)) st'"
        "redistributed (ih_attrs ?h) (live st3) ?root (live st')"
        using redistribute_last_ok [OF d3(1) mp3, of xs x] xs last n1' by blast
      show ?thesis by (rule fin [OF _ r(3,4,2)]) (use r(1) last leaf szs xs in auto)
    qed
  next
    case False
    have roles': "(nb = q \<and> p = l \<and> i = 0 \<and> i0 = 0) \<or> (nb = l \<and> p = q \<and> i = Suc i0)" using roles by auto
    have c3: "nd_size nl + nd_size nq \<le> node_capacity (bt_header st3) (nd_is_leaf nl)" using False roles cap by auto
    obtain st4 where c: "coalesce (nd_is_leaf n) nb p ?r i st3 = Some (SUCCESS, st4)"
      and l4: "live_step bp bl st3 (merge_nodes (live st3) ?r m i0 l nl q nq) (ih_root_page (bt_header st3)) st4"
      using coalesce_ok [OF d3(1) mp3 c3 roles'] leaf(1) by auto
    note d4 = live_stepD [OF l4]
    have sum: "nd_size nl + nd_size nq \<le> max_size ?h nl" using False roles mx by auto
    have h4: "bt_header st4 = ?h" using d4(3) d3(3) by simp
    have "del_pre (bt_header st4) (live st4) (merge_shape l q g) ?r (merge_node i0 m)"
      unfolding d4(2) lv3 by (rule merged_pre [OF pre mp _ sum h4]) (use roles m(8) in auto)
    moreover have "entries (live st4) = entries ?V" unfolding d4(2) lv3 by (rule merge_entries [OF mp])
    moreover have "live_step bp bl st (live st4) ?root st4" using live_step_trans [OF s l4] d4(2) d3(3) by simp
    moreover have "coalesce_or_redistribute (nd_is_leaf n) p st = coalesce_or_redistribute False ?r st4" using run False c by simp
    ultimately show ?thesis using mpd(4) lv m(1) by (intro disjI2 exI [of _ st4] exI [of _ "merge_shape l q g"] exI [of _ "merge_node i0 m"]) simp
  qed
qed


lemma coalesce_or_redistribute_ok:
  assumes "env_ok bp bl st" "del_pre (bt_header st) (live st) g p n" "leaf = nd_is_leaf n"
  shows "\<exists>st' V r. coalesce_or_redistribute leaf p st = Some (SUCCESS, st') \<and> live_step bp bl st V r st' \<and>
     del_done (bt_header st) (entries (live st)) V r"
  using assms
proof (induction "sh_lvl g (ih_root_page (bt_header st)) - sh_lvl g p" arbitrary: st g p n leaf rule: less_induct)
  case less
  note e = less.prems(1) and pre = less.prems(2) and leaf = less.prems(3)
  note d = del_preD [OF pre]
  let ?h = "bt_header st" and ?V = "live st" and ?root = "ih_root_page (bt_header st)"
  have np: "bt_nodes st p = Some n" using liveD [OF d(4)] by blast
  have mx: "4 \<le> max_size ?h n" using header_okD(4) [OF d(1)] .
  have stay: ?case if ok: "node_size_ok ?h (p = ?root) n" and run: "coalesce_or_redistribute leaf p st = Some (SUCCESS, st)"
    using live_step_refl [OF e] del_pre_done [OF pre ok] run by blast
  show ?case
  proof (cases "nd_size n < min_size ?h n")
    case False
    then have "max_size ?h n div 2 \<le> nd_size n" by (simp add: min_size_def)
    then have "node_size_ok ?h (p = ?root) n" using d(6) by (intro node_size_okI d(1))
    then show ?thesis using stay False np by (simp add: coalesce_or_redistribute.simps [of leaf p])
  next
    case small: True
    show ?thesis
    proof (cases "p = ?root")
      case True
      have rp: "nd_parent n = BP_INVALID_PAGE_NUM" using root_parent [OF d(2,3,4)] True by simp
      show ?thesis
      proof (cases "nd_size n > 1")
        case big: True
        then have "node_size_ok ?h (p = ?root) n" using d(6) True by (simp add: node_size_ok_def)
        then show ?thesis using stay big np small rp by (simp add: coalesce_or_redistribute.simps [of leaf p] Let_def)
      next
        case False
        then obtain st' V r where a: "adjust_root p st = Some (SUCCESS, st')" "live_step bp bl st V r st'" "del_done ?h (entries ?V) V r"
          using adjust_root_ok [OF e pre True] by auto
        then show ?thesis using np small rp False by (auto simp: coalesce_or_redistribute.simps [of leaf p] Let_def)
      qed
    next
      case False
      from small_node_ok [OF e pre False small] leaf consider
          (redistributed) st' where "coalesce_or_redistribute leaf p st = Some (SUCCESS, st')" "live_step bp bl st (live st') ?root st'"
            "del_done ?h (entries ?V) (live st') ?root"
        | (merged) st' g' m where "coalesce_or_redistribute leaf p st = coalesce_or_redistribute False (nd_parent n) st'"
            "live_step bp bl st (live st') ?root st'" "entries (live st') = entries ?V"
            "del_pre (bt_header st') (live st') g' (nd_parent n) m" "\<not> nd_is_leaf m" "sh_lvl g' = sh_lvl g" "sh_lvl g (nd_parent n) = Suc (sh_lvl g p)"
            "?V (nd_parent n) \<noteq> None" by blast
      then show ?thesis
      proof cases
        case redistributed
        then show ?thesis by blast
      next
        case merged
        note d1 = live_stepD [OF merged(2)]
        have h1: "bt_header st' = ?h" using d1(3) by simp
        have "sh_lvl g (nd_parent n) \<le> sh_lvl g ?root" using root_top [OF d(2), of "nd_parent n"] merged(8) by (simp add: domIff)
        then have "sh_lvl g' (ih_root_page (bt_header st')) - sh_lvl g' (nd_parent n) < sh_lvl g ?root - sh_lvl g p" using merged(6,7) h1 by simp
        from less.hyps [OF this d1(1) merged(4), of False] merged(5) obtain st2 V r where
          ih: "coalesce_or_redistribute False (nd_parent n) st' = Some (SUCCESS, st2)" "live_step bp bl st' V r st2" "del_done ?h (entries ?V) V r"
          unfolding h1 merged(3) by auto
        have "live_step bp bl st V r st2" using ih(2) d1(4,5) h1 by (auto simp: live_step_def)
        then show ?thesis using merged(1) ih(1,3) by auto
      qed
    qed
  qed
qed

section \<open>Deleting an entry\<close>

lemma item_pos_found:
  assumes "sorted_wrt (<) (map (item_bound A) xs)" "key_bound A key \<in> item_bound A ` set xs"
  shows "item_pos A key xs < length xs" "item_bound A (xs ! item_pos A key xs) = key_bound A key"
proof -
  let ?i = "item_pos A key xs"
  obtain t where t: "t < length xs" "item_bound A (xs ! t) = key_bound A key" using assms(2) by (auto simp: in_set_conv_nth)
  have it: "?i \<le> t" using item_pos_less [of t A key xs] t(2) by (metis less_irrefl not_le)
  then show i: "?i < length xs" using t(1) by simp
  have "item_bound A (xs ! ?i) \<le> key_bound A key" using sorted_nth_mono [OF assms(1) it] t i by simp
  then show "item_bound A (xs ! ?i) = key_bound A key" using item_pos_at [OF i] by simp
qed

lemma rank_unique:
  assumes inv: "tree_inv A N root g" "sh_pend g = Map.empty" and k: "k1 \<in> entries N" "k2 \<in> entries N" "key_bound A k1 = key_bound A k2"
  shows "k1 = k2"
proof -
  obtain p n where p: "N p = Some n" "k1 \<in> leaf_keys n" using k(1) by (auto simp: entries_def ran_def)
  obtain q m where q: "N q = Some m" "k2 \<in> leaf_keys m" using k(2) by (auto simp: entries_def ran_def)
  note r1 = leaf_keys_range [OF inv(1) p] and r2 = leaf_keys_range [OF inv(1) q]
  have "sh_lvl g p = sh_lvl g q" using leaf_level [OF inv(1)] p(1) q(1) r1(1) r2(1) by metis
  then have "p = q" using level_unique [OF inv] p(1) q(1) r1(2) r2(2) k(3) by (metis option.distinct(1))
  then have nm: "m = n" using p(1) q(1) by simp
  obtain i where i: "i < nd_size n" "k1 = fst (nd_items n ! i)" using p(2) r1(1) by (auto simp: leaf_keys_def in_set_conv_nth)
  obtain j where j: "j < nd_size n" "k2 = fst (nd_items n ! j)" using q(2) r2(1) nm by (auto simp: leaf_keys_def in_set_conv_nth)
  have "sorted_wrt (<) (map (item_bound A) (nd_items n))" using node_okD(4) [OF tree_invD(2) [OF inv(1) p(1)] r1(1)] by (simp add: leaf_ok_def)
  then have "i = j" using sorted_nth_eq [of "map (item_bound A) (nd_items n)" i j] i j k(3) by (simp add: item_bound_fst)
  then show ?thesis using i j by simp
qed

definition without_key :: "attrs \<Rightarrow> index_key \<Rightarrow> index_key set \<Rightarrow> index_key set" where
  "without_key A k E = {k'\<in>E. key_rank A k' \<noteq> key_rank A k}"

lemma delete_leaf_ok:
  assumes e: "env_ok bp bl st" and ds: "mx_disposed (bt_mtr st) = []" and h: "del_header_ok (bt_header st)" and f: "tree_full (bt_header st) (bt_nodes st) g"
    and n: "bt_nodes st p = Some n" "nd_is_leaf n" and key: "key_ok (ih_attrs (bt_header st)) key"
      "key_bound (ih_attrs (bt_header st)) key \<in> item_bound (ih_attrs (bt_header st)) ` set (nd_items n)"
  shows "\<exists>st' V r. delete_entry_internal p key st = Some (SUCCESS, st') \<and> live_step bp bl st V r st' \<and>
     del_done (bt_header st) (without_key (ih_attrs (bt_header st)) key (entries (bt_nodes st))) V r"
proof -
  let ?h = "bt_header st" and ?N = "bt_nodes st" let ?A = "ih_attrs ?h" and ?root = "ih_root_page ?h"
  note t = tree_fullD [OF f]
  let ?i = "item_pos ?A key (nd_items n)" let ?k = "fst (nd_items n ! ?i)" let ?n' = "n\<lparr>nd_items := remove_at ?i (nd_items n)\<rparr>" let ?N' = "?N(p \<mapsto> ?n')"
  have lo: "leaf_ok ?A ?N g p n" using node_okD(4) [OF tree_invD(2) [OF t(2) n(1)] n(2)] .
  have i: "?i < nd_size n" "item_bound ?A (nd_items n ! ?i) = key_bound ?A key"
    using item_pos_found [OF _ key(2)] lo by (auto simp: leaf_ok_def)
  have lk: "leaf_lookup st key n = Some (?i, True)" using leaf_lookup_ok [OF tree_invD(2) [OF t(2) n(1)] n(2) key(1)] key(2) by simp
  obtain st1 where r1: "node_remove_items p ?i 1 st = Some st1" and s1: "step_ok bp bl 0 st ?N' st1"
    using node_remove_items_ok [OF e n(1), of ?i 1] i(1) by (auto simp: remove_at_def)
  note d1 = step_okD [OF s1]
  have lv1: "live st1 = ?N'" using step_live [OF s1] ds by simp
  have inv: "tree_inv ?A ?N' ?root g" using leaf_remove_inv(1) [OF t(2) n i(1) refl refl] .
  have kE: "?k \<in> entries ?N" using i(1) n entries_split [of ?N p n] by (simp add: leaf_keys_def)
  have kr: "key_rank ?A ?k = key_rank ?A key" using i(2) by (simp add: item_bound_def key_bound_def)
  have "entries ?N' = entries ?N - {?k}" using leaf_remove_entries [OF t(2,3) n i(1) refl] .
  also have "\<dots> = without_key ?A key (entries ?N)"
    using rank_unique [OF t(2,3) _ kE] kr by (auto simp: without_key_def key_bound_def)
  finally have E: "entries ?N' = without_key ?A key (entries ?N)" .
  have sn: "node_size_ok ?h (p = ?root) n" using sizes_okD [OF t(4) n(1)] .
  have len: "nd_size ?n' = nd_size n - 1" "max_size ?h ?n' = max_size ?h n" using i(1) by simp_all
  have "nd_size n \<le> max_size ?h n" using sn by (simp add: node_size_ok_def)
  then have le: "nd_size ?n' \<le> max_size ?h ?n'" unfolding len by linarith
  have lower: "max_size ?h ?n' div 2 - 1 \<le> nd_size ?n'" if "p \<noteq> ?root"
    using sn that unfolding len by (auto simp: node_size_ok_def intro!: diff_le_mono)
  have rest: "node_size_ok ?h (s = ?root) k" if "?N' s = Some k" "s \<noteq> p" for s k using that sizes_okD [OF t(4), of s k] by simp
  have pre: "del_pre ?h ?N' g p ?n'"
    unfolding del_pre_def
  proof (intro conjI allI impI)
    show "if p = ?root then nd_is_leaf ?n' \<or> 1 \<le> nd_size ?n' else max_size ?h ?n' div 2 - 1 \<le> nd_size ?n'" using lower n(2) by simp
  qed (fact h inv t(3) le rest | simp)+
  have pre1: "del_pre (bt_header st1) (live st1) g p ?n'" using pre d1(3) lv1 by simp
  obtain st' V r where c: "coalesce_or_redistribute True p st1 = Some (SUCCESS, st')" "live_step bp bl st1 V r st'"
    "del_done ?h (without_key ?A key (entries ?N)) V r"
    using coalesce_or_redistribute_ok [OF d1(1) pre1, of True] n(2) lv1 E d1(3) by auto
  have p1: "bt_nodes st1 p = Some ?n'" using d1(2) by simp
  have "delete_entry_internal p key st = coalesce_or_redistribute True p st1"
    using n(1) lk r1 p1 by (simp add: delete_entry_internal_def leaf_remove_key_def leaf_remove_def coalesce_or_redistribute.simps [of True p])
  moreover have "live_step bp bl st V r st'" using c(2) d1(3-5) by (auto simp: live_step_def)
  ultimately show ?thesis using c(1,3) by auto
qed

lemma missing_path:
  assumes inv: "index_inv st" and key: "key_ok (ih_attrs (bt_header st)) k" and has: "\<not> has_key st k"
  shows "\<exists>rc p st1. find_leaf OP_DELETE_ENTRY k (mtr_begin st) = Some (rc, p, st1) \<and>
    (rc = EMPTY \<or> rc = SUCCESS \<and> delete_entry_internal p k st1 = Some (RECORD_NOT_EXIST, st1))"
proof (cases "is_empty st")
  case True
  note d = index_invD [OF inv]
  obtain st1 where l: "memo_xlatch RootLock (mtr_begin st) = Some st1" and s: "step_ok no_pins no_locks 0 (mtr_begin st) (bt_nodes st) st1"
    using latch_ok(1) [OF d(5), of RootLock] quietD(3) [OF d(1)] by auto
  have "is_empty st1" using True step_okD(3) [OF s] by (simp add: is_empty_def)
  then show ?thesis using l by (simp add: find_leaf_def find_leaf_internal_def)
next
  case False
  note d = index_invD [OF inv]
  obtain g where f: "tree_full (bt_header st) (bt_nodes st) g" using d(4) [OF False] by blast
  note t = tree_fullD [OF f]
  obtain p st1 n where fl: "find_leaf OP_DELETE_ENTRY k (mtr_begin st) = Some (SUCCESS, p, st1)" and s: "step_ok no_pins no_locks 0 (mtr_begin st) (bt_nodes st) st1"
    and n: "bt_nodes st p = Some n" "nd_is_leaf n" "in_range g p (key_bound (ih_attrs (bt_header st)) k)"
    using find_leaf_ok [OF d(5), of g k OP_DELETE_ENTRY] t(2,3) key quietD(3) [OF d(1)] by auto
  have "key_bound (ih_attrs (bt_header st)) k \<notin> item_bound (ih_attrs (bt_header st)) ` set (nd_items n)"
    using leaf_has_key [OF t(2,3) n] has by (simp add: has_key_bound)
  then have "\<exists>i. leaf_lookup st1 k n = Some (i, False)"
    using leaf_lookup_ok [of st1 "bt_nodes st" g p n k] tree_invD(2) [OF t(2) n(1)] step_okD(2,3) [OF s] n key by simp
  then have "delete_entry_internal p k st1 = Some (RECORD_NOT_EXIST, st1)"
    using step_okD(2) [OF s] n(1) by (auto simp: delete_entry_internal_def leaf_remove_key_def)
  then show ?thesis using fl by blast
qed


lemma delete_entry_ok:
  assumes inv: "index_inv st" and h: "6 \<le> ih_internal_max_size (bt_header st)" and key: "key_ok (ih_attrs (bt_header st)) (u, rid)"
  shows "\<exists>rc st'. delete_entry u rid st = Some (rc, st') \<and> index_inv st' \<and> same_index st st' \<and>
     rc = (if has_key st (u, rid) then SUCCESS else RECORD_NOT_EXIST) \<and>
     entries (bt_nodes st') = without_key (ih_attrs (bt_header st)) (u, rid) (entries (bt_nodes st))"
proof -
  note d = index_invD [OF inv]
  let ?st0 = "mtr_begin st" and ?N = "bt_nodes st" and ?h = "bt_header st" let ?A = "ih_attrs ?h" and ?k = "(u, rid)"
  have mk: "make_key u rid st = Some ?k" using key header_okD(2) [OF d(2)] by (intro make_key_ok) (simp add: key_ok_def)
  have absent: "without_key ?A ?k (entries ?N) = entries ?N" if "\<not> has_key st ?k" using that by (auto simp: without_key_def has_key_def)
  have fail: ?thesis if run: "find_leaf OP_DELETE_ENTRY ?k ?st0 = Some (rc, p, st1)" and s1: "step_ok no_pins no_locks 0 ?st0 ?N st1"
    and rc: "rc = EMPTY \<or> rc = SUCCESS \<and> delete_entry_internal p ?k st1 = Some (RECORD_NOT_EXIST, st1)" and no: "\<not> has_key st ?k" for rc p st1
  proof -
    note d1 = step_okD [OF s1]
    have "mx_entries (bt_mtr st1) = []" using find_leaf_entries [OF run] by simp
    then obtain st2 where m: "mtr_end RECORD_NOT_EXIST st1 = Some st2" and en: "ends_in st1 st2" using mtr_end_ok [OF d1(1)] by blast
    have "delete_entry u rid st = Some (RECORD_NOT_EXIST, st2)" using mk run rc m by (auto simp: delete_entry_def)
    moreover have "bt_nodes st2 = ?N" "bt_header st2 = ?h" "quiet st2" using ends_inD [OF en] d1(2,3,6) by auto
    moreover from this have "index_inv st2" using inv by (simp add: index_inv_def is_empty_def)
    moreover have "same_index st st2" using same_indexI(2) [of st2 st] \<open>bt_header st2 = ?h\<close> by simp
    ultimately show ?thesis using absent [OF no] no by auto
  qed
  show ?thesis
  proof (cases "is_empty st")
    case True
    obtain st1 where l: "memo_xlatch RootLock ?st0 = Some st1" and s1: "step_ok no_pins no_locks 0 ?st0 ?N st1"
      using latch_ok(1) [OF d(5), of RootLock] quietD(3) [OF d(1)] by auto
    have "is_empty st1" using True step_okD(3) [OF s1] by (simp add: is_empty_def)
    then have "find_leaf OP_DELETE_ENTRY ?k ?st0 = Some (EMPTY, BP_INVALID_PAGE_NUM, st1)" using l by (simp add: find_leaf_def find_leaf_internal_def)
    moreover have "\<not> has_key st ?k" using d(3) [OF True] by (simp add: has_key_def entries_def)
    ultimately show ?thesis using fail s1 by blast
  next
    case False
    obtain g where f: "tree_full ?h ?N g" using d(4) [OF False] by blast
    note t = tree_fullD [OF f]
    obtain p st1 n where fl: "find_leaf OP_DELETE_ENTRY ?k ?st0 = Some (SUCCESS, p, st1)" and s1: "step_ok no_pins no_locks 0 ?st0 ?N st1"
      and n: "?N p = Some n" "nd_is_leaf n" "in_range g p (key_bound ?A ?k)"
      using find_leaf_ok [OF d(5), of g ?k OP_DELETE_ENTRY] t(2,3) key quietD(3) [OF d(1)] by auto
    note d1 = step_okD [OF s1]
    have has: "key_bound ?A ?k \<in> item_bound ?A ` set (nd_items n) \<longleftrightarrow> has_key st ?k"
      using leaf_has_key [OF t(2,3) n] by (simp add: has_key_bound)
    show ?thesis
    proof (cases "has_key st ?k")
      case no: False
      have "delete_entry_internal p ?k st1 = Some (RECORD_NOT_EXIST, st1)"
        using missing_path [OF inv key no] fl by auto
      then show ?thesis using fail [OF fl s1] no by blast
    next
      case True
      obtain st2 V r where i: "delete_entry_internal p ?k st1 = Some (SUCCESS, st2)" and l2: "live_step no_pins no_locks st1 V r st2"
        and dd: "del_done ?h (without_key ?A ?k (entries ?N)) V r"
        using delete_leaf_ok [OF d1(1), of g p n ?k] d1(2,3,6) h d(2) f n key has True by (auto simp: del_header_ok_def)
      note d2 = live_stepD [OF l2]
      obtain st3 where m: "mtr_end SUCCESS st2 = Some st3" and en: "ends_in st2 st3" using mtr_end_ok [OF d2(1)] by blast
      have N3: "bt_nodes st3 = V" "bt_header st3 = ?h\<lparr>ih_root_page := r\<rparr>" using ends_inD(2,3) [OF en] d2(2,3) d1(3) by (auto simp: live_def)
      have "index_inv st3 \<and> entries (bt_nodes st3) = without_key ?A ?k (entries ?N)"
      proof (cases "insert_done ?A ?h (without_key ?A ?k (entries ?N)) V r")
        case True
        then show ?thesis using index_invI [OF ends_inD(1) [OF en] N3 True d(2)] by simp
      next
        case False
        then have "r = BP_INVALID_PAGE_NUM" "V = Map.empty" "without_key ?A ?k (entries ?N) = {}" using dd by (auto simp: del_done_def)
        then show ?thesis using N3 ends_inD(1) [OF en] d(2) by (simp add: index_inv_def is_empty_def entries_def)
      qed
      moreover have "delete_entry u rid st = Some (SUCCESS, st3)" using mk fl i m by (simp add: delete_entry_def)
      moreover have "same_index st st3" using same_indexI(1) [OF N3(2)] .
      ultimately show ?thesis using True by auto
    qed
  qed
qed

end
