(* ===== verification/BplusScan.thy ===== *)
theory BplusScan
  imports BplusDelete
begin

text \<open>
  Scanning the B+-tree: from a position in a leaf the scanner returns the record ids of the entries
  that follow, in key order and each once, up to the right bound, and then the end of the scan.
\<close>

definition within :: "attrs \<Rightarrow> index_key option \<Rightarrow> index_key \<Rightarrow> bool" where
  "within A right k \<longleftrightarrow> (case right of None \<Rightarrow> True | Some rk \<Rightarrow> key_rank A k \<le> key_rank A rk)"

text \<open>What is left of the tree at item \<open>i\<close> of leaf \<open>p\<close>.\<close>

definition rest :: "attrs \<Rightarrow> nodes \<Rightarrow> tree_shape \<Rightarrow> PageNum \<Rightarrow> IndexNode \<Rightarrow> nat \<Rightarrow> index_key set" where
  "rest A N g p n i = fst ` set (drop i (nd_items n)) \<union> {k \<in> entries N. sh_hi g p \<le> key_bound A k}"

lemma rest_subset:
  assumes "N p = Some n" "nd_is_leaf n"
  shows "rest A N g p n i \<subseteq> entries N"
proof -
  have "fst ` set (drop i (nd_items n)) \<subseteq> leaf_keys n" using assms(2) by (auto simp: leaf_keys_def dest: in_set_dropD)
  then show ?thesis using entries_split [of N p n, OF assms(1)] by (auto simp: rest_def)
qed

lemma rest_step:
  assumes ok: "leaf_ok A N g p n" and i: "i < nd_size n"
  shows "rest A N g p n i = insert (fst (nd_items n ! i)) (rest A N g p n (Suc i))"
    "k \<in> rest A N g p n (Suc i) \<Longrightarrow> key_bound A (fst (nd_items n ! i)) < key_bound A k"
proof -
  let ?x = "nd_items n ! i"
  have dr: "drop i (nd_items n) = ?x # drop (Suc i) (nd_items n)" using i by (simp add: Cons_nth_drop_Suc)
  then show "rest A N g p n i = insert (fst ?x) (rest A N g p n (Suc i))" by (simp add: rest_def)
  have s: "sorted_wrt (<) (map (item_bound A) (nd_items n))" using ok by (simp add: leaf_ok_def)
  have lt: "item_bound A ?x < sh_hi g p" using ok i by (simp add: leaf_ok_def)
  show "key_bound A (fst ?x) < key_bound A k" if k: "k \<in> rest A N g p n (Suc i)"
  proof (cases "k \<in> fst ` set (drop (Suc i) (nd_items n))")
    case True
    then obtain x where x: "x \<in> set (drop (Suc i) (nd_items n))" "k = fst x" by blast
    then obtain t where t: "t < length (drop (Suc i) (nd_items n))" "drop (Suc i) (nd_items n) ! t = x" using in_set_conv_nth [of x] by blast
    then have "Suc i + t < nd_size n" "k = fst (nd_items n ! (Suc i + t))" using x(2) by auto
    then show ?thesis using sorted_wrt_nth_less [OF s, of i "Suc i + t"] by (simp add: item_bound_fst)
  next
    case False
    then show ?thesis using k lt by (auto simp: rest_def item_bound_fst)
  qed
qed

text \<open>Past the last item the rest is that of the next leaf.\<close>

lemma rest_next:
  assumes f: "tree_full h N g" and n: "N p = Some n" "nd_is_leaf n"
  shows "sh_hi g p = MaxB \<Longrightarrow> nd_next_brother n = BP_INVALID_PAGE_NUM \<and> rest (ih_attrs h) N g p n (nd_size n) = {}"
    "sh_hi g p \<noteq> MaxB \<Longrightarrow> \<exists>m. nd_next_brother n \<noteq> BP_INVALID_PAGE_NUM \<and> N (nd_next_brother n) = Some m \<and> nd_is_leaf m \<and> 0 < nd_size m \<and>
       rest (ih_attrs h) N g p n (nd_size n) = rest (ih_attrs h) N g (nd_next_brother n) m 0"
proof -
  note t = tree_fullD [OF f]
  let ?A = "ih_attrs h"
  have lo: "leaf_ok ?A N g p n" using node_okD(4) [OF tree_invD(2) [OF t(2) n(1)] n(2)] .
  show "nd_next_brother n = BP_INVALID_PAGE_NUM \<and> rest ?A N g p n (nd_size n) = {}" if "sh_hi g p = MaxB"
    using lo that by (auto simp: leaf_ok_def rest_def)
  assume "sh_hi g p \<noteq> MaxB"
  then obtain m where m: "N (nd_next_brother n) = Some m" "nd_is_leaf m" "sh_lo g (nd_next_brother n) = sh_hi g p" using lo by (auto simp: leaf_ok_def)
  let ?q = "nd_next_brother n"
  have okq: "node_ok ?A N g ?q m" using tree_invD(2) [OF t(2) m(1)] .
  have "?q \<noteq> BP_INVALID_PAGE_NUM" using node_okD(1) [OF okq] by (auto simp: BP_INVALID_PAGE_NUM_def)
  moreover have "0 < nd_size m"
    using sizes_okD [OF t(4) m(1)] m(2) header_okD(4) [OF t(1), of m] by (auto simp: node_size_ok_def split: if_splits)
  moreover have "rest ?A N g p n (nd_size n) = rest ?A N g ?q m 0"
  proof (intro equalityI subsetI)
    fix k assume "k \<in> rest ?A N g p n (nd_size n)"
    then have k: "k \<in> entries N" "sh_lo g ?q \<le> key_bound ?A k" using m(3) by (auto simp: rest_def)
    show "k \<in> rest ?A N g ?q m 0"
    proof (cases "sh_hi g ?q \<le> key_bound ?A k")
      case False
      then have "in_range g ?q (key_bound ?A k)" using k(2) by (simp add: in_range_def)
      from leaf_has_key [OF t(2,3) m(1,2) this] k(1) obtain x where x: "x \<in> set (nd_items m)" "key_bound ?A k = item_bound ?A x" by blast
      have "fst x \<in> entries N" using x(1) m(2) entries_split [of N ?q m, OF m(1)] by (auto simp: leaf_keys_def)
      then have "k = fst x" using rank_unique [OF t(2,3) k(1)] x(2) by (simp add: item_bound_fst)
      then show ?thesis using x(1) by (simp add: rest_def)
    qed (use k in \<open>simp add: rest_def\<close>)
  next
    fix k assume k: "k \<in> rest ?A N g ?q m 0"
    have "k \<in> entries N" using k rest_subset [of N ?q m, OF m(1,2)] by blast
    moreover have "sh_hi g p \<le> key_bound ?A k"
    proof (cases "k \<in> fst ` set (nd_items m)")
      case True
      then show ?thesis using node_okD(4) [OF okq m(2)] m(3) by (auto simp: leaf_ok_def item_bound_fst)
    next
      case False
      then have "sh_hi g ?q \<le> key_bound ?A k" using k by (simp add: rest_def)
      then show ?thesis using node_okD(2) [OF okq] m(3) by simp
    qed
    ultimately show "k \<in> rest ?A N g p n (nd_size n)" by (simp add: rest_def)
  qed
  ultimately show "\<exists>m. ?q \<noteq> BP_INVALID_PAGE_NUM \<and> N ?q = Some m \<and> nd_is_leaf m \<and> 0 < nd_size m \<and> rest ?A N g p n (nd_size n) = rest ?A N g ?q m 0"
    using m(1,2) by blast
qed

section \<open>One step of the scanner\<close>

definition scan_at :: "BplusTreeHandler \<Rightarrow> BplusTreeScanner \<Rightarrow> PageNum \<Rightarrow> IndexNode \<Rightarrow> nat \<Rightarrow> bool" where
  "scan_at st sc p n i \<longleftrightarrow> bt_nodes st p = Some n \<and> nd_is_leaf n \<and> i \<le> nd_size n \<and> sc_current_frame sc = Some p \<and> sc_first_emitted sc \<and>
     sc_iter_index sc = int i - 1 \<and> (\<forall>rk. sc_right_key sc = Some rk \<longrightarrow> key_ok (ih_attrs (bt_header st)) rk)"

lemma touch_end_ok:
  assumes n: "bt_nodes st p = Some n" "sc_current_frame sc = Some p" "sc_iter_index sc = int i" "i < nd_size n"
    and keys: "\<forall>rk. sc_right_key sc = Some rk \<longrightarrow> key_ok (ih_attrs (bt_header st)) rk" "key_ok (ih_attrs (bt_header st)) (fst (nd_items n ! i))"
  shows "touch_end sc st = Some (\<not> within (ih_attrs (bt_header st)) (sc_right_key sc) (fst (nd_items n ! i)))"
proof (cases "sc_right_key sc")
  case (Some rk)
  then obtain c where "KeyComparator (ih_attrs (bt_header st)) (fst (nd_items n ! i)) rk = Some c"
    "sgn c = order3 (key_rank (ih_attrs (bt_header st)) (fst (nd_items n ! i))) (key_rank (ih_attrs (bt_header st)) rk)"
    using KeyComparator_rank [OF keys(2)] keys(1) by blast
  then show ?thesis
    using Some n by (auto simp: touch_end_def as_size_def key_at_def node_key_at_def within_def order3_def sgn_if not_le split: if_splits)
qed (simp add: touch_end_def within_def)

lemma fetch_item_ok:
  assumes "bt_nodes st p = Some n" "sc_current_frame sc = Some p" "sc_iter_index sc = int i" "i < nd_size n" "leaf_ok A N g p n"
  shows "fetch_item sc st = Some (snd (fst (nd_items n ! i)))"
proof -
  have "snd (nd_items n ! i) = RecordValue (snd (fst (nd_items n ! i)))" using assms(4,5) by (simp add: leaf_ok_def)
  then show ?thesis using assms(1-4) by (simp add: fetch_item_def as_size_def leaf_value_at_def)
qed

definition scan_result :: "attrs \<Rightarrow> index_key set \<Rightarrow> index_key option \<Rightarrow> index_key list \<Rightarrow> bool" where
  "scan_result A R right ks \<longleftrightarrow> sorted_wrt (<) (map (key_rank A) ks) \<and> set ks = {k \<in> R. within A right k}"

lemma next_entry_at:
  assumes e: "env_ok bp bl st" and f: "tree_full (bt_header st) (bt_nodes st) g" and at: "scan_at st sc p n i" and i: "i < nd_size n"
  shows "\<exists>sc'. next_entry sc st = (if within (ih_attrs (bt_header st)) (sc_right_key sc) (fst (nd_items n ! i))
       then Some (SUCCESS, Some (snd (fst (nd_items n ! i))), sc', st) else Some (RECORD_EOF, None, sc', st)) \<and>
     scan_at st sc' p n (Suc i) \<and> sc_right_key sc' = sc_right_key sc"
proof -
  note t = tree_fullD [OF f]
  have a: "bt_nodes st p = Some n" "nd_is_leaf n" "sc_current_frame sc = Some p" "sc_first_emitted sc" "sc_iter_index sc = int i - 1"
    "\<forall>rk. sc_right_key sc = Some rk \<longrightarrow> key_ok (ih_attrs (bt_header st)) rk" using at by (auto simp: scan_at_def)
  let ?sc = "sc\<lparr>sc_iter_index := sc_iter_index sc + 1\<rparr>"
  have lo: "leaf_ok (ih_attrs (bt_header st)) (bt_nodes st) g p n" using node_okD(4) [OF tree_invD(2) [OF t(2) a(1)] a(2)] .
  have ko: "key_ok (ih_attrs (bt_header st)) (fst (nd_items n ! i))" using node_okD(3) [OF tree_invD(2) [OF t(2) a(1)], of "nd_items n ! i"] i by simp
  have te: "touch_end ?sc st = Some (\<not> within (ih_attrs (bt_header st)) (sc_right_key sc) (fst (nd_items n ! i)))"
    using touch_end_ok [of st p n ?sc i] a i ko by simp
  have fe: "fetch_item ?sc st = Some (snd (fst (nd_items n ! i)))" using fetch_item_ok [of st p n ?sc i, OF _ _ _ i lo] a by simp
  show ?thesis
    by (rule exI [of _ ?sc]) (use a i te fe at in \<open>simp add: next_entry.simps [of sc] scan_at_def Let_def\<close>)
qed

lemma next_entry_ok:
  assumes e: "env_ok bp bl st" and f: "tree_full (bt_header st) (bt_nodes st) g" and at: "scan_at st sc p n i"
    and R: "R = rest (ih_attrs (bt_header st)) (bt_nodes st) g p n i"
  shows "(\<exists>sc' st'. next_entry sc st = Some (RECORD_EOF, None, sc', st') \<and> step_ok bp bl 0 st (bt_nodes st) st' \<and>
        (R = {} \<or> (\<exists>k\<in>R. (\<forall>k'\<in>R. key_rank (ih_attrs (bt_header st)) k \<le> key_rank (ih_attrs (bt_header st)) k') \<and> \<not> within (ih_attrs (bt_header st)) (sc_right_key sc) k))) \<or>
     (\<exists>k sc' st' q m j. next_entry sc st = Some (SUCCESS, Some (snd k), sc', st') \<and> step_ok bp bl 0 st (bt_nodes st) st' \<and> scan_at st' sc' q m j \<and>
        sc_right_key sc' = sc_right_key sc \<and> within (ih_attrs (bt_header st)) (sc_right_key sc) k \<and>
        (let R' = rest (ih_attrs (bt_header st)) (bt_nodes st) g q m j in
         R = insert k R' \<and> (\<forall>k'\<in>R'. key_rank (ih_attrs (bt_header st)) k < key_rank (ih_attrs (bt_header st)) k')))"
proof -
  note t = tree_fullD [OF f]
  let ?A = "ih_attrs (bt_header st)" and ?N = "bt_nodes st"
  have a: "?N p = Some n" "nd_is_leaf n" "sc_current_frame sc = Some p" "sc_first_emitted sc" "sc_iter_index sc = int i - 1" "i \<le> nd_size n"
    "\<forall>rk. sc_right_key sc = Some rk \<longrightarrow> key_ok ?A rk" using at by (auto simp: scan_at_def)
  have direct: ?thesis if s1: "step_ok bp bl 0 st ?N st1" and at1: "scan_at st1 sc1 q m j" and j: "j < nd_size m" and r1: "sc_right_key sc1 = sc_right_key sc"
    and eq: "next_entry sc st = next_entry sc1 st1" and R1: "R = rest ?A ?N g q m j" for st1 sc1 q m j
  proof -
    note d1 = step_okD [OF s1]
    have m: "?N q = Some m" "nd_is_leaf m" using at1 d1(2) by (auto simp: scan_at_def)
    have lo: "leaf_ok ?A ?N g q m" using node_okD(4) [OF tree_invD(2) [OF t(2) m(1)] m(2)] .
    let ?k = "fst (nd_items m ! j)"
    obtain sc' where n: "next_entry sc1 st1 = (if within ?A (sc_right_key sc) ?k then Some (SUCCESS, Some (snd ?k), sc', st1) else Some (RECORD_EOF, None, sc', st1))"
      "scan_at st1 sc' q m (Suc j)" "sc_right_key sc' = sc_right_key sc"
      using next_entry_at [OF d1(1) _ at1 j, of g] f d1(2,3) r1 by auto
    have st: "R = insert ?k (rest ?A ?N g q m (Suc j))" "\<forall>k'\<in>rest ?A ?N g q m (Suc j). key_rank ?A ?k < key_rank ?A k'"
      using rest_step [OF lo j] R1 by (auto simp: key_bound_def)
    show ?thesis
    proof (cases "within ?A (sc_right_key sc) ?k")
      case True
      then show ?thesis using eq n s1 st
        by (intro disjI2 exI [of _ ?k] exI [of _ sc'] exI [of _ st1] exI [of _ q] exI [of _ m] exI [of _ "Suc j"]) (simp add: Let_def)
    next
      case False
      then have "\<exists>k\<in>R. (\<forall>k'\<in>R. key_rank ?A k \<le> key_rank ?A k') \<and> \<not> within ?A (sc_right_key sc) k"
        using st by (intro bexI [of _ ?k]) (auto simp: less_imp_le)
      then show ?thesis using eq n s1 False by (intro disjI1 exI [of _ sc'] exI [of _ st1]) simp
    qed
  qed
  show ?thesis
  proof (cases "i < nd_size n")
    case True
    show ?thesis by (rule direct [OF _ at True refl refl R]) (use e in \<open>simp add: step_ok_def\<close>)
  next
    case False
    then have i: "i = nd_size n" using a(6) by simp
    let ?sc = "sc\<lparr>sc_iter_index := sc_iter_index sc + 1\<rparr>" and ?q = "nd_next_brother n"
    show ?thesis
    proof (cases "sh_hi g p = MaxB")
      case True
      then have "?q = BP_INVALID_PAGE_NUM" "R = {}" using rest_next(1) [OF f a(1,2)] R i by auto
      moreover from this have "next_entry sc st = Some (RECORD_EOF, None, ?sc, st)" using a i by (simp add: next_entry.simps [of sc] Let_def)
      ultimately show ?thesis using e by (intro disjI1 exI [of _ ?sc] exI [of _ st]) (simp add: step_ok_def)
    next
      case ne: False
      then obtain m where q: "?q \<noteq> BP_INVALID_PAGE_NUM" "?N ?q = Some m" "nd_is_leaf m" "0 < nd_size m" "R = rest ?A ?N g ?q m 0"
        using rest_next(2) [OF f a(1,2)] R i by auto
      obtain st1 where g1: "get_page ?q st = Some (SUCCESS, st1)" and s1: "step_ok bp bl 0 st ?N st1" and i1: "mx_items (bt_mtr st1) = mx_items (bt_mtr st) @ [PIN ?q]"
        using get_page_ok [OF e, of ?q] q(2) by (auto simp: page_exists_def)
      note d1 = step_okD [OF s1]
      obtain st2 where l2: "memo_slatch (PageLatch ?q) st1 = Some st2" and s2: "step_ok bp bl 0 st1 ?N st2"
        and i2: "mx_items (bt_mtr st2) = mx_items (bt_mtr st1) @ [SHARED (PageLatch ?q)]"
        using latch_ok(2) [OF d1(1), of "PageLatch ?q"] d1(2) by auto
      note d2 = step_okD [OF s2]
      let ?pt = "length (mx_items (bt_mtr st))"
      obtain st3 where r3: "release_to ?pt st2 = Some st3" and s3: "step_ok bp bl 0 st2 ?N st3"
        using release_to_ok [OF d2(1), of ?pt] i1 i2 d2(2) by auto
      have s: "step_ok bp bl 0 st ?N st3" using step_ok_trans0 [OF step_ok_trans0 [OF s1 s2] s3] .
      let ?sc' = "?sc\<lparr>sc_current_frame := Some ?q, sc_iter_index := - 1\<rparr>"
      have "next_entry sc st = next_entry ?sc' st3" using a i q(1) g1 l2 r3 by (simp add: next_entry.simps [of sc] Let_def)
      moreover have "scan_at st3 ?sc' ?q m 0" using q(2,3) a(4,7) step_okD(2,3) [OF s] by (simp add: scan_at_def)
      ultimately show ?thesis using direct [OF s _ q(4) _ _ q(5), of ?sc'] by simp
    qed
  qed
qed


section \<open>A whole scan\<close>

lemma scan_result_Cons:
  assumes "scan_result A R' right ks" "within A right k" "\<forall>k'\<in>R'. key_rank A k < key_rank A k'"
  shows "scan_result A (insert k R') right (k # ks)"
  using assms by (auto simp: scan_result_def)

lemma scan_result_end:
  assumes "R = {} \<or> (\<exists>k\<in>R. (\<forall>k'\<in>R. key_rank A k \<le> key_rank A k') \<and> \<not> within A right k)"
  shows "scan_result A R right []"
proof -
  have "\<not> within A right k'" if k': "k' \<in> R" for k'
  proof -
    obtain k where k: "key_rank A k \<le> key_rank A k'" "\<not> within A right k" using assms k' by blast
    then show ?thesis by (auto simp: within_def dest: order_trans split: option.splits)
  qed
  then show ?thesis by (auto simp: scan_result_def)
qed

lemma finite_entries: "finite (dom N) \<Longrightarrow> finite (entries N)"
  by (simp add: entries_def leaf_keys_def finite_ran)

lemma scan_all_ok:
  assumes "env_ok bp bl st" "tree_full (bt_header st) (bt_nodes st) g" "scan_at st sc p n i"
  shows "\<exists>ks sc' st'. scan_all rids sc st = Some (RECORD_EOF, rids @ map snd ks, sc', st') \<and> step_ok bp bl 0 st (bt_nodes st) st' \<and>
     scan_result (ih_attrs (bt_header st)) (rest (ih_attrs (bt_header st)) (bt_nodes st) g p n i) (sc_right_key sc) ks"
  using assms
proof (induction "card (rest (ih_attrs (bt_header st)) (bt_nodes st) g p n i)" arbitrary: st sc p n i rids rule: less_induct)
  case less
  note e = less.prems(1) and f = less.prems(2) and at = less.prems(3)
  let ?A = "ih_attrs (bt_header st)" and ?N = "bt_nodes st" let ?R = "rest ?A ?N g p n i"
  from next_entry_ok [OF e f at refl] consider
    (eof) sc' st' where "next_entry sc st = Some (RECORD_EOF, None, sc', st')" "step_ok bp bl 0 st ?N st'"
        "?R = {} \<or> (\<exists>k\<in>?R. (\<forall>k'\<in>?R. key_rank ?A k \<le> key_rank ?A k') \<and> \<not> within ?A (sc_right_key sc) k)"
    | (item) k sc' st' q m j where "next_entry sc st = Some (SUCCESS, Some (snd k), sc', st')" "step_ok bp bl 0 st ?N st'" "scan_at st' sc' q m j"
        "sc_right_key sc' = sc_right_key sc" "within ?A (sc_right_key sc) k" "?R = insert k (rest ?A ?N g q m j)"
        "\<forall>k'\<in>rest ?A ?N g q m j. key_rank ?A k < key_rank ?A k'"
    unfolding Let_def by blast
  then show ?case
  proof cases
    case eof
    then show ?thesis using scan_result_end [OF eof(3)]
      by (intro exI [of _ "[]"] exI [of _ sc'] exI [of _ st']) (simp add: scan_all.simps [of rids])
  next
    case item
    note d = step_okD [OF item(2)]
    let ?R' = "rest ?A ?N g q m j"
    have "finite ?R'" using finite_subset [OF rest_subset finite_entries [OF tree_invD(1) [OF tree_fullD(2) [OF f]]]] item(3) d(2)
      by (auto simp: scan_at_def)
    moreover have "k \<notin> ?R'" using item(7) by blast
    ultimately have "card (rest (ih_attrs (bt_header st')) (bt_nodes st') g q m j) < card ?R" using item(6) d(2,3) by simp
    from less.hyps [OF this d(1) _ item(3), of "rids @ [snd k]"] f d(2,3) obtain ks sc2 st2 where
      ih: "scan_all (rids @ [snd k]) sc' st' = Some (RECORD_EOF, (rids @ [snd k]) @ map snd ks, sc2, st2)" "step_ok bp bl 0 st' ?N st2"
        "scan_result ?A ?R' (sc_right_key sc) ks"
      using item(4) by auto
    have "scan_all rids sc st = Some (RECORD_EOF, rids @ map snd (k # ks), sc2, st2)" using item(1) ih(1) by (simp add: scan_all.simps [of rids sc])
    moreover have "scan_result ?A ?R (sc_right_key sc) (k # ks)" using scan_result_Cons [OF ih(3) item(5,7)] item(6) by simp
    moreover have "step_ok bp bl 0 st ?N st2" using step_ok_trans0 [OF item(2) ih(2)] .
    ultimately show ?thesis by blast
  qed
qed


section \<open>Opening a scan\<close>

lemma rest_from:
  assumes f: "tree_full h N g" and n: "N p = Some n" "nd_is_leaf n" and k: "in_range g p (key_bound (ih_attrs h) lk)"
  shows "rest (ih_attrs h) N g p n (item_pos (ih_attrs h) lk (nd_items n)) = {k \<in> entries N. key_rank (ih_attrs h) lk \<le> key_rank (ih_attrs h) k}"
proof -
  note t = tree_fullD [OF f]
  let ?A = "ih_attrs h" let ?i = "item_pos ?A lk (nd_items n)" and ?b = "key_bound ?A lk"
  have lo: "leaf_ok ?A N g p n" using node_okD(4) [OF tree_invD(2) [OF t(2) n(1)] n(2)] .
  have s: "sorted_wrt (<) (map (item_bound ?A) (nd_items n))" using lo by (simp add: leaf_ok_def)
  have ge: "?b \<le> item_bound ?A x \<longleftrightarrow> x \<in> set (drop ?i (nd_items n))" if x: "x \<in> set (nd_items n)" for x
  proof
    assume b: "?b \<le> item_bound ?A x"
    have "x \<notin> set (take ?i (nd_items n))"
    proof
      assume "x \<in> set (take ?i (nd_items n))"
      then obtain u where "u < ?i" "u < nd_size n" "x = nd_items n ! u" by (auto simp: in_set_conv_nth)
      then show False using item_pos_less [of u ?A lk "nd_items n"] b by simp
    qed
    then show "x \<in> set (drop ?i (nd_items n))" using x by (metis append_take_drop_id Un_iff set_append)
  next
    assume "x \<in> set (drop ?i (nd_items n))"
    then obtain u where "u < length (drop ?i (nd_items n))" "drop ?i (nd_items n) ! u = x" using in_set_conv_nth [of x] by blast
    then have u: "?i + u < nd_size n" "x = nd_items n ! (?i + u)" by auto
    then show "?b \<le> item_bound ?A x" using item_pos_at [of ?A lk "nd_items n"] sorted_nth_mono [OF s, of ?i "?i + u"] by simp
  qed
  have mem: "k \<in> rest ?A N g p n ?i \<longleftrightarrow> k \<in> entries N \<and> ?b \<le> key_bound ?A k" for k
  proof
    assume kr: "k \<in> rest ?A N g p n ?i"
    have "k \<in> entries N" using kr rest_subset [of N p n, OF n] by blast
    moreover have "?b \<le> key_bound ?A k"
    proof (cases "k \<in> fst ` set (drop ?i (nd_items n))")
      case True
      then obtain x where x: "x \<in> set (drop ?i (nd_items n))" "k = fst x" by blast
      then show ?thesis using ge [of x] by (simp add: item_bound_fst in_set_dropD)
    next
      case False
      then show ?thesis using kr k by (auto simp: rest_def in_range_def)
    qed
    ultimately show "k \<in> entries N \<and> ?b \<le> key_bound ?A k" by blast
  next
    assume ke: "k \<in> entries N \<and> ?b \<le> key_bound ?A k"
    show "k \<in> rest ?A N g p n ?i"
    proof (cases "sh_hi g p \<le> key_bound ?A k")
      case False
      have "sh_lo g p \<le> ?b" using k by (simp add: in_range_def)
      also have "\<dots> \<le> key_bound ?A k" using ke by blast
      finally have "in_range g p (key_bound ?A k)" using False by (simp add: in_range_def)
      from leaf_has_key [OF t(2,3) n this] ke obtain x where x: "x \<in> set (nd_items n)" "key_bound ?A k = item_bound ?A x" by blast
      have "fst x \<in> entries N" using x(1) n(2) entries_split [of N p n, OF n(1)] by (auto simp: leaf_keys_def)
      then have "k = fst x" using rank_unique [OF t(2,3), of k "fst x"] ke x(2) by (simp add: item_bound_fst)
      then show ?thesis using ge [OF x(1)] ke x(2) by (simp add: rest_def)
    qed (use ke in \<open>simp add: rest_def\<close>)
  qed
  then have "rest ?A N g p n ?i = {k \<in> entries N. ?b \<le> key_bound ?A k}" by blast
  then show ?thesis by (simp add: key_bound_def)
qed

lemma rest_all:
  assumes f: "tree_full h N g" and n: "N p = Some n" "nd_is_leaf n" "sh_lo g p = MinB"
  shows "rest (ih_attrs h) N g p n 0 = entries N" "0 < nd_size n"
proof -
  note t = tree_fullD [OF f]
  let ?A = "ih_attrs h"
  show "0 < nd_size n" using sizes_okD [OF t(4) n(1)] n(2) header_okD(4) [OF t(1), of n] by (auto simp: node_size_ok_def split: if_splits)
  have "k \<in> rest ?A N g p n 0" if k: "k \<in> entries N" for k
  proof (cases "sh_hi g p \<le> key_bound ?A k")
    case False
    then have "in_range g p (key_bound ?A k)" using n(3) by (simp add: in_range_def)
    from leaf_has_key [OF t(2,3) n(1,2) this] k obtain x where x: "x \<in> set (nd_items n)" "key_bound ?A k = item_bound ?A x" by blast
    have "fst x \<in> entries N" using x(1) n(2) entries_split [of N p n, OF n(1)] by (auto simp: leaf_keys_def)
    then have "k = fst x" using rank_unique [OF t(2,3) k] x(2) by (simp add: item_bound_fst)
    then show ?thesis using x(1) by (simp add: rest_def)
  qed (use k in \<open>simp add: rest_def\<close>)
  then show "rest ?A N g p n 0 = entries N" using rest_subset [of N p n, OF n(1,2)] by blast
qed

text \<open>The key a scan starts from.\<close>

definition scan_left_key :: "(byte list \<times> nat \<times> bool) option \<Rightarrow> BplusTreeHandler \<Rightarrow> index_key option option" where
  "scan_left_key left st = (case left of
     None \<Rightarrow> Some None
   | Some (left_user_key, left_len, left_inclusive) \<Rightarrow> do {
       (k, inclusive) \<leftarrow> fix_key left_user_key left_len True left_inclusive st;
       key \<leftarrow> make_key k (if inclusive then RID_min else RID_max) st;
       Some (Some key) })"

definition from_key :: "attrs \<Rightarrow> index_key option \<Rightarrow> index_key \<Rightarrow> bool" where
  "from_key A left k \<longleftrightarrow> (case left of None \<Rightarrow> True | Some lk \<Rightarrow> key_rank A lk \<le> key_rank A k)"

lemma key_header:
  assumes "bt_header st' = bt_header st"
  shows "fix_key u l b i st' = fix_key u l b i st" "make_key u r st' = make_key u r st" "scan_left_key left st' = scan_left_key left st"
    "scan_right_key right st' = scan_right_key right st" "scan_range_valid left right st' = scan_range_valid left right st"
proof -
  have fu: "fix_user_key u l b st' = fix_user_key u l b st" for u l b using assms by (simp add: fix_user_key_def)
  show f: "fix_key u l b i st' = fix_key u l b i st" for u l b i unfolding fix_key_def fu assms ..
  show m: "make_key u r st' = make_key u r st" for u r unfolding make_key_def assms ..
  show "scan_left_key left st' = scan_left_key left st" "scan_right_key right st' = scan_right_key right st" "scan_range_valid left right st' = scan_range_valid left right st"
    unfolding scan_left_key_def scan_right_key_def scan_range_valid_def f m assms by simp_all
qed

lemma scan_start_ok:
  assumes e: "env_ok bp bl st" and f: "tree_full (bt_header st) (bt_nodes st) g" and lock: "bt_locks st RootLock = 0"
    and lk: "scan_left_key left st = Some lk" "\<forall>k. lk = Some k \<longrightarrow> key_ok (ih_attrs (bt_header st)) k"
    and R: "R = {k \<in> entries (bt_nodes st). from_key (ih_attrs (bt_header st)) lk k}"
  shows "\<exists>start i st'. scan_start left st = Some (SUCCESS, start, i, st') \<and> step_ok bp bl 0 st (bt_nodes st) st' \<and>
     (case start of None \<Rightarrow> R = {} | Some p \<Rightarrow> \<exists>n. bt_nodes st p = Some n \<and> nd_is_leaf n \<and> i < nd_size n \<and>
        R = rest (ih_attrs (bt_header st)) (bt_nodes st) g p n i)"
proof -
  note t = tree_fullD [OF f]
  let ?A = "ih_attrs (bt_header st)" and ?N = "bt_nodes st"
  show ?thesis
  proof (cases left)
    case None
    obtain p st1 n where l: "left_most_page st = Some (SUCCESS, p, st1)" "step_ok bp bl 0 st ?N st1" "?N p = Some n" "nd_is_leaf n" "sh_lo g p = MinB"
      using left_most_ok [OF e t(2,3) lock] by blast
    have "R = rest ?A ?N g p n 0" using rest_all [OF f l(3-5)] R lk(1) None by (simp add: scan_left_key_def from_key_def)
    then show ?thesis using l rest_all(2) [OF f l(3-5)] None
      by (intro exI [of _ "Some p"] exI [of _ 0] exI [of _ st1]) (simp add: scan_start_def)
  next
    case (Some l)
    obtain u len incl where l: "l = (u, len, incl)" by (cases l)
    obtain k inc key where k: "fix_key u len True incl st = Some (k, inc)" "make_key k (if inc then RID_min else RID_max) st = Some key" "lk = Some key"
      using lk(1) Some l by (auto simp: scan_left_key_def bind_eq_Some_conv)
    have ko: "key_ok ?A key" using lk(2) k(3) by simp
    obtain p st1 n where fl: "find_leaf OP_READ key st = Some (SUCCESS, p, st1)" "step_ok bp bl 0 st ?N st1" "?N p = Some n" "nd_is_leaf n"
      "in_range g p (key_bound ?A key)" using find_leaf_ok [OF e t(2,3) ko lock] by blast
    note d1 = step_okD [OF fl(2)]
    let ?i = "item_pos ?A key (nd_items n)"
    have lo: "leaf_lookup st1 key n = Some (?i, key_bound ?A key \<in> item_bound ?A ` set (nd_items n))"
      using leaf_lookup_ok [of st1 ?N g p n key] tree_invD(2) [OF t(2) fl(3)] d1(3) fl(4) ko by simp
    have Rp: "R = rest ?A ?N g p n ?i" using rest_from [OF f fl(3-5)] R k(3) by (simp add: from_key_def)
    have pre: "scan_start left st = (if ?i \<ge> nd_size n then (let next_page = nd_next_brother n in
            if next_page = BP_INVALID_PAGE_NUM then Some (SUCCESS, None, 0, st1)
            else Option.bind (get_page next_page st1) (\<lambda>(rc, st2).
              if OB_FAIL rc then Some (rc, None, 0, st2)
              else Option.bind (memo_slatch (PageLatch next_page) st2) (\<lambda>st3. Some (SUCCESS, Some next_page, 0, st3))))
         else Some (SUCCESS, Some p, ?i, st1))"
      using Some l k fl(1,3) lo d1(2) by (simp add: scan_start_def split del: if_split)
    show ?thesis
    proof (cases "?i < nd_size n")
      case True
      then show ?thesis using pre fl(2-4) Rp by (intro exI [of _ "Some p"] exI [of _ ?i] exI [of _ st1]) simp
    next
      case False
      then have i: "?i = nd_size n" using item_pos_le [of ?A key "nd_items n"] by simp
      show ?thesis
      proof (cases "sh_hi g p = MaxB")
        case True
        then show ?thesis using rest_next(1) [OF f fl(3,4)] pre i Rp fl(2) by (intro exI [of _ None] exI [of _ 0] exI [of _ st1]) simp
      next
        case ne: False
        then obtain m where q: "nd_next_brother n \<noteq> BP_INVALID_PAGE_NUM" "?N (nd_next_brother n) = Some m" "nd_is_leaf m" "0 < nd_size m"
          "R = rest ?A ?N g (nd_next_brother n) m 0" using rest_next(2) [OF f fl(3,4)] Rp i by auto
        let ?q = "nd_next_brother n"
        obtain st2 where g2: "get_page ?q st1 = Some (SUCCESS, st2)" and s2: "step_ok bp bl 0 st1 ?N st2"
          using get_page_ok [OF d1(1), of ?q] q(2) d1(2) by (auto simp: page_exists_def)
        obtain st3 where l3: "memo_slatch (PageLatch ?q) st2 = Some st3" and s3: "step_ok bp bl 0 st2 ?N st3"
          using latch_ok(2) [OF step_okD(1) [OF s2], of "PageLatch ?q"] step_okD(2) [OF s2] by auto
        have "step_ok bp bl 0 st ?N st3" using step_ok_trans0 [OF step_ok_trans0 [OF fl(2) s2] s3] .
        then show ?thesis using pre i q g2 l3 by (intro exI [of _ "Some ?q"] exI [of _ 0] exI [of _ st3]) simp
      qed
    qed
  qed
qed

lemma memo_release_empty:
  assumes "memo_release st = Some st'"
  shows "mx_items (bt_mtr st') = []" "mx_disposed (bt_mtr st') = []"
proof -
  have disp: "bt_mtr s' = bt_mtr s" if "dispose_pages ps s = Some s'" for ps s s'
    using that by (induction ps arbitrary: s) (auto simp: bind_eq_Some_conv pool_dispose_def split: if_splits)
  show "mx_items (bt_mtr st') = []" "mx_disposed (bt_mtr st') = []"
    using assms by (auto simp: memo_release_def release_to_def Let_def bind_eq_Some_conv split: if_splits dest!: disp release_items_mtr)
qed

lemma memo_release_env:
  assumes "env_ok no_pins no_locks st" "mx_disposed (bt_mtr st) = []"
  shows "\<exists>st'. memo_release st = Some st' \<and> env_ok no_pins no_locks st' \<and> bt_nodes st' = bt_nodes st \<and> bt_header st' = bt_header st \<and>
     quiet st' \<and> mx_disposed (bt_mtr st') = []"
proof -
  obtain st' where st': "memo_release st = Some st'" "ends_in st st'" using memo_release_ok [OF assms(1)] by blast
  note m = memo_release_empty [OF st'(1)] and d = ends_inD [OF st'(2)]
  have "env_ok no_pins no_locks st'" using d(1) m(1) by (simp add: quiet_def env_ok_def mtr_begin_def page_exists_def)
  then show ?thesis using st'(1) d m assms(2) by auto
qed

lemma scan_first_ok:
  assumes e: "env_ok bp bl st" and f: "tree_full (bt_header st) (bt_nodes st) g" and n: "bt_nodes st p = Some n" "nd_is_leaf n" "i < nd_size n"
    and sc: "sc_current_frame sc = Some p" "\<not> sc_first_emitted sc" "sc_iter_index sc = int i"
      "\<forall>rk. sc_right_key sc = Some rk \<longrightarrow> key_ok (ih_attrs (bt_header st)) rk" "within (ih_attrs (bt_header st)) (sc_right_key sc) (fst (nd_items n ! i))"
  shows "\<exists>ks sc' st'. scan_all [] sc st = Some (RECORD_EOF, map snd ks, sc', st') \<and> step_ok bp bl 0 st (bt_nodes st) st' \<and>
     scan_result (ih_attrs (bt_header st)) (rest (ih_attrs (bt_header st)) (bt_nodes st) g p n i) (sc_right_key sc) ks"
proof -
  note t = tree_fullD [OF f]
  let ?A = "ih_attrs (bt_header st)" let ?k = "fst (nd_items n ! i)" let ?sc = "sc\<lparr>sc_first_emitted := True\<rparr>"
  have lo: "leaf_ok ?A (bt_nodes st) g p n" using node_okD(4) [OF tree_invD(2) [OF t(2) n(1)] n(2)] .
  have ne: "next_entry sc st = Some (SUCCESS, Some (snd ?k), ?sc, st)"
    using fetch_item_ok [OF n(1) sc(1,3) n(3) lo] sc(1,2) by (simp add: next_entry.simps [of sc])
  have "scan_at st ?sc p n (Suc i)" using n sc by (simp add: scan_at_def)
  then obtain ks sc' st' where s: "scan_all [snd ?k] ?sc st = Some (RECORD_EOF, [snd ?k] @ map snd ks, sc', st')" "step_ok bp bl 0 st (bt_nodes st) st'"
    "scan_result ?A (rest ?A (bt_nodes st) g p n (Suc i)) (sc_right_key sc) ks"
    using scan_all_ok [OF e f, of ?sc p n "Suc i" "[snd ?k]"] by auto
  have "scan_result ?A (rest ?A (bt_nodes st) g p n i) (sc_right_key sc) (?k # ks)"
    using scan_result_Cons [OF s(3) sc(5)] rest_step [OF lo n(3)] by (auto simp: key_bound_def)
  moreover have "scan_all [] sc st = Some (RECORD_EOF, map snd (?k # ks), sc', st')" using ne s(1) by (simp add: scan_all.simps [of "[]"])
  ultimately show ?thesis using s(2) by blast
qed


lemma scan_start_empty:
  assumes e: "env_ok bp bl st" and emp: "is_empty st" and lock: "bt_locks st RootLock = 0" and lk: "scan_left_key left st = Some lk"
  shows "\<exists>i st'. scan_start left st = Some (SUCCESS, None, i, st') \<and> step_ok bp bl 0 st (bt_nodes st) st'"
proof -
  obtain st1 where l: "memo_slatch RootLock st = Some st1" and s1: "step_ok bp bl 0 st (bt_nodes st) st1"
    using latch_ok(2) [OF e, of RootLock] lock by auto
  have "is_empty st1" using emp step_okD(3) [OF s1] by (simp add: is_empty_def)
  then have fl: "find_leaf_internal OP_READ getter st = Some (EMPTY, BP_INVALID_PAGE_NUM, st1)" for getter
    using l by (simp add: find_leaf_internal_def)
  show ?thesis
  proof (cases left)
    case None
    then show ?thesis using fl s1 by (simp add: scan_start_def left_most_page_def)
  next
    case (Some l)
    obtain u len incl where l: "l = (u, len, incl)" by (cases l)
    obtain k inc key where k: "fix_key u len True incl st = Some (k, inc)" "make_key k (if inc then RID_min else RID_max) st = Some key"
      using lk Some l by (auto simp: scan_left_key_def bind_eq_Some_conv)
    then have "scan_start left st = Some (SUCCESS, None, 0, st1)" using Some l fl by (simp add: scan_start_def find_leaf_def split del: if_split)
    then show ?thesis using s1 by blast
  qed
qed

lemma scan_none: "sc_current_frame sc = None \<Longrightarrow> scan_all [] sc st = Some (RECORD_EOF, [], sc, st)"
  by (simp add: scan_all.simps [of "[]"] next_entry.simps [of sc])

lemma open_scan_ok:
  assumes inv: "index_inv st" and valid: "scan_range_valid left right st = Some True"
    and lk: "scan_left_key left st = Some lk" "\<forall>k. lk = Some k \<longrightarrow> key_ok (ih_attrs (bt_header st)) k"
    and rk: "scan_right_key right st = Some rk" "\<forall>k. rk = Some k \<longrightarrow> key_ok (ih_attrs (bt_header st)) k"
  shows "\<exists>sc st1 ks sc' st2. scanner_open left right BplusTreeScanner_new st = Some (SUCCESS, sc, st1) \<and>
     scan_all [] sc st1 = Some (RECORD_EOF, map snd ks, sc', st2) \<and> env_ok no_pins no_locks st2 \<and> bt_nodes st2 = bt_nodes st \<and> bt_header st2 = bt_header st \<and>
     mx_disposed (bt_mtr st2) = [] \<and>
     scan_result (ih_attrs (bt_header st)) {k \<in> entries (bt_nodes st). from_key (ih_attrs (bt_header st)) lk k} rk ks"
proof -
  note d = index_invD [OF inv]
  let ?st0 = "mtr_begin st" and ?N = "bt_nodes st" and ?A = "ih_attrs (bt_header st)" and ?sc = "BplusTreeScanner_new\<lparr>sc_inited := True\<rparr>"
  let ?R = "{k \<in> entries ?N. from_key ?A lk k}"
  have lock: "bt_locks ?st0 RootLock = 0" using quietD(3) [OF d(1)] by simp
  have k0: "scan_left_key left ?st0 = Some lk" "scan_range_valid left right ?st0 = Some True" using key_header [of ?st0 st] lk(1) valid by auto
  have sc0: "BplusTreeScanner_new\<lparr>sc_inited := True, sc_first_emitted := False\<rparr> = ?sc" by (simp add: BplusTreeScanner_new_def)
  have opn: "scanner_open left right BplusTreeScanner_new st = Option.bind (scan_start left ?st0) (\<lambda>(rc, start, index, st1). case start of
        None \<Rightarrow> Option.bind (memo_release st1) (\<lambda>st2. Some (rc, ?sc\<lparr>sc_current_frame := None\<rparr>, st2))
      | Some p \<Rightarrow> Option.bind (scan_right_key right st1) (\<lambda>right_key.
          let sc1 = ?sc\<lparr>sc_current_frame := Some p, sc_iter_index := int index, sc_right_key := right_key\<rparr> in
          Option.bind (touch_end sc1 st1) (\<lambda>at_end. Option.bind (memo_release st1) (\<lambda>st2.
            Some (SUCCESS, if at_end then sc1\<lparr>sc_current_frame := None\<rparr> else sc1, st2)))))"
  proof -
    have "\<not> sc_inited BplusTreeScanner_new" by (simp add: BplusTreeScanner_new_def)
    then show ?thesis unfolding scanner_open_def sc0 Let_def using k0(2) by simp
  qed
  have none: ?thesis if st1: "scan_start left ?st0 = Some (SUCCESS, None, i, st1)" "step_ok no_pins no_locks 0 ?st0 ?N st1" "?R = {}" for i st1
  proof -
    note d1 = step_okD [OF st1(2)]
    obtain st2 where r: "memo_release st1 = Some st2" "env_ok no_pins no_locks st2" "bt_nodes st2 = ?N" "bt_header st2 = bt_header st" "mx_disposed (bt_mtr st2) = []"
      using memo_release_env [OF d1(1)] d1(2,3,6) by auto
    show ?thesis
      by (rule exI [of _ "?sc\<lparr>sc_current_frame := None\<rparr>"], rule exI [of _ st2], rule exI [of _ "[]"], rule exI [of _ "?sc\<lparr>sc_current_frame := None\<rparr>"], rule exI [of _ st2])
        (use opn st1(1) r scan_result_end [OF disjI1 [OF st1(3)], of ?A rk] scan_none [of "?sc\<lparr>sc_current_frame := None\<rparr>" st2] in simp)
  qed
  show ?thesis
  proof (cases "is_empty st")
    case True
    then have "entries ?N = {}" using d(3) by (simp add: entries_def)
    then show ?thesis using none scan_start_empty [OF d(5) _ lock k0(1)] True by auto
  next
    case False
    obtain g where f: "tree_full (bt_header st) ?N g" using d(4) [OF False] by blast
    obtain start i st1 where ss: "scan_start left ?st0 = Some (SUCCESS, start, i, st1)" and s1: "step_ok no_pins no_locks 0 ?st0 ?N st1"
      and at: "case start of None \<Rightarrow> ?R = {} | Some p \<Rightarrow> \<exists>n. ?N p = Some n \<and> nd_is_leaf n \<and> i < nd_size n \<and> ?R = rest ?A ?N g p n i"
      using scan_start_ok [OF d(5), of g left lk ?R, unfolded mtr_begin_simps, OF f lock [unfolded mtr_begin_simps] k0(1) lk(2) refl] by blast
    show ?thesis
    proof (cases start)
      case None
      then show ?thesis using none [of i st1] ss s1 at by simp
    next
      case (Some p)
      note d1 = step_okD [OF s1]
      obtain n where n: "?N p = Some n" "nd_is_leaf n" "i < nd_size n" "?R = rest ?A ?N g p n i" using at Some by auto
      obtain st2 where r: "memo_release st1 = Some st2" "env_ok no_pins no_locks st2" "bt_nodes st2 = ?N" "bt_header st2 = bt_header st" "mx_disposed (bt_mtr st2) = []"
        using memo_release_env [OF d1(1)] d1(2,3,6) by auto
      let ?sc1 = "?sc\<lparr>sc_current_frame := Some p, sc_iter_index := int i, sc_right_key := rk\<rparr>" and ?k = "fst (nd_items n ! i)"
      have rk1: "scan_right_key right st1 = Some rk" using key_header(4) [of st1 st] d1(3) rk(1) by simp
      have okn: "node_ok ?A ?N g p n" using tree_invD(2) [OF tree_fullD(2) [OF f] n(1)] .
      have ko: "key_ok ?A ?k" using node_okD(3) [OF okn, of "nd_items n ! i"] n(3) by simp
      have te: "touch_end ?sc1 st1 = Some (\<not> within ?A rk ?k)" using touch_end_ok [of st1 p n ?sc1 i] n(1,3) d1(2,3) rk(2) ko by simp
      have o2: "scanner_open left right BplusTreeScanner_new st = Some (SUCCESS, if \<not> within ?A rk ?k then ?sc1\<lparr>sc_current_frame := None\<rparr> else ?sc1, st2)"
        using opn ss Some rk1 te r(1) by (simp add: Let_def)
      show ?thesis
      proof (cases "within ?A rk ?k")
        case True
        obtain ks sc' st3 where sa: "scan_all [] ?sc1 st2 = Some (RECORD_EOF, map snd ks, sc', st3)" "step_ok no_pins no_locks 0 st2 ?N st3"
          "scan_result ?A ?R rk ks"
          using scan_first_ok [OF r(2), of g p n i ?sc1] f r(3,4) n rk(2) True by (auto simp: BplusTreeScanner_new_def)
        show ?thesis
          by (rule exI [of _ ?sc1], rule exI [of _ st2], rule exI [of _ ks], rule exI [of _ sc'], rule exI [of _ st3])
            (use o2 True sa step_okD [OF sa(2)] r(4,5) in simp)
      next
        case out: False
        have "scan_result ?A ?R rk []"
        proof (rule scan_result_end, intro disjI2 bexI [of _ ?k] conjI ballI)
          have lo: "leaf_ok ?A ?N g p n" using node_okD(4) [OF okn n(2)] .
          show "?k \<in> ?R" using rest_step(1) [OF lo n(3)] n(4) by simp
          show "key_rank ?A ?k \<le> key_rank ?A k'" if "k' \<in> ?R" for k'
          proof (cases "k' = ?k")
            case False
            then have "k' \<in> rest ?A ?N g p n (Suc i)" using that rest_step(1) [OF lo n(3)] n(4) by blast
            from rest_step(2) [OF lo n(3) this] show ?thesis by (simp add: key_bound_def less_imp_le)
          qed simp
        qed (fact out)
        then show ?thesis
          by - (rule exI [of _ "?sc1\<lparr>sc_current_frame := None\<rparr>"], rule exI [of _ st2], rule exI [of _ "[]"], rule exI [of _ "?sc1\<lparr>sc_current_frame := None\<rparr>"], rule exI [of _ st2],
            use o2 out r scan_none [of "?sc1\<lparr>sc_current_frame := None\<rparr>" st2] in simp)
      qed
    qed
  qed
qed

lemma scan_result_distinct: "scan_result A R right ks \<Longrightarrow> distinct ks"
proof -
  assume "scan_result A R right ks"
  then have "sorted_wrt (<) (map (key_rank A) ks)" by (simp add: scan_result_def)
  then have "distinct (map (key_rank A) ks)" by (simp add: strict_sorted_iff)
  then show "distinct ks" by (simp add: distinct_map)
qed

end
