(* ===== verification/BplusContract.thy ===== *)
theory BplusContract
  imports BplusScan
begin

text \<open>
  What the B+-tree promises: an ordered set of keys with insertion, deletion and range scans. The
  interface is a locale whose client runs any sequence of operations; the model of the code is an
  instance of it. The last section has the cases in which the code does not keep the promise.
\<close>

section \<open>The interface of an ordered index\<close>

datatype 'k index_op = Insert 'k | Delete 'k

text \<open>The specification: keys of the same rank are the same key.\<close>

definition has_rank :: "('k \<Rightarrow> 'r) \<Rightarrow> 'k \<Rightarrow> 'k set \<Rightarrow> bool" where
  "has_rank rank k E \<longleftrightarrow> (\<exists>k'\<in>E. rank k' = rank k)"

fun spec_op :: "('k \<Rightarrow> 'r) \<Rightarrow> 'k index_op \<Rightarrow> 'k set \<Rightarrow> RC \<times> 'k set" where
  "spec_op rank (Insert k) E = (if has_rank rank k E then (RECORD_DUPLICATE_KEY, E) else (SUCCESS, insert k E))"
| "spec_op rank (Delete k) E = (if has_rank rank k E then SUCCESS else RECORD_NOT_EXIST, {k'\<in>E. rank k' \<noteq> rank k})"

fun index_run :: "('k \<Rightarrow> 'r) \<Rightarrow> 'k index_op list \<Rightarrow> 'k set \<Rightarrow> RC list \<times> 'k set" where
  "index_run rank [] E = ([], E)"
| "index_run rank (x # xs) E = (case spec_op rank x E of (rc, E1) \<Rightarrow> case index_run rank xs E1 of (rcs, E2) \<Rightarrow> (rc # rcs, E2))"

definition index_spec :: "('k \<Rightarrow> 'r) \<Rightarrow> 'k index_op \<Rightarrow> 'k set \<Rightarrow> RC \<Rightarrow> 'k set \<Rightarrow> bool" where
  "index_spec rank x E rc E' \<longleftrightarrow> (rc, E') = spec_op rank x E"

lemma spec_run_index: "spec_run (index_spec rank) xs E rcs E' \<longleftrightarrow> (rcs, E') = index_run rank xs E"
  by (induction xs arbitrary: E rcs) (auto simp: index_spec_def split: prod.splits)

locale ordered_index = refining_machine step inv ready keys "index_spec rank"
  for step :: "'k index_op \<Rightarrow> 's \<Rightarrow> (RC \<times> 's) option" and inv :: "'s \<Rightarrow> bool" and ready :: "'k index_op \<Rightarrow> 's \<Rightarrow> bool"
    and keys :: "'s \<Rightarrow> 'k set" and rank :: "'k \<Rightarrow> 'r"
begin

lemma run_index:
  "inv s \<Longrightarrow> allowed_run step ready xs s \<Longrightarrow> \<exists>rcs s'. run_ops step xs s = Some (rcs, s') \<and> inv s' \<and> (rcs, keys s') = index_run rank xs (keys s)"
  using run_refines [of s xs] by (simp add: spec_run_index)

text \<open>Keys that a sequence does not delete stay.\<close>

lemma run_keeps:
  assumes "inv s" "allowed_run step ready xs s" "k \<in> keys s" "\<forall>k'. Delete k' \<in> set xs \<longrightarrow> rank k' \<noteq> rank k"
  shows "\<exists>rcs s'. run_ops step xs s = Some (rcs, s') \<and> k \<in> keys s'"
proof -
  have "k \<in> snd (index_run rank xs E)" if "k \<in> E" "\<forall>k'. Delete k' \<in> set xs \<longrightarrow> rank k' \<noteq> rank k" for E xs
    using that
  proof (induction xs arbitrary: E)
    case (Cons x xs)
    have "k \<in> snd (spec_op rank x E)" using Cons.prems by (cases x) auto
    then show ?case using Cons.IH [of "snd (spec_op rank x E)"] Cons.prems(2) by (auto split: prod.splits)
  qed simp
  then show ?thesis using run_index [OF assms(1,2)] assms(3,4) by (metis snd_conv)
qed

end

section \<open>The B+-tree is an ordered index\<close>

definition bplus_step :: "index_key index_op \<Rightarrow> BplusTreeHandler \<Rightarrow> (RC \<times> BplusTreeHandler) option" where
  "bplus_step x st = (case x of Insert k \<Rightarrow> insert_entry (fst k) (snd k) False st | Delete k \<Rightarrow> delete_entry (fst k) (snd k) st)"

text \<open>An operation is ready when its key fits the attributes and the file can still double.\<close>

definition bplus_ready :: "attrs \<Rightarrow> index_key index_op \<Rightarrow> BplusTreeHandler \<Rightarrow> bool" where
  "bplus_ready A x st \<longleftrightarrow> (case x of Insert k \<Rightarrow> key_ok A k \<and> 2 * bt_page_count st \<le> bt_max_pages st | Delete k \<Rightarrow> key_ok A k)"

definition bplus_keys :: "BplusTreeHandler \<Rightarrow> index_key set" where
  "bplus_keys st = entries (bt_nodes st)"

definition bplus_inv :: "attrs \<Rightarrow> BplusTreeHandler \<Rightarrow> bool" where
  "bplus_inv A st \<longleftrightarrow> index_inv st \<and> ih_attrs (bt_header st) = A \<and> ih_unique (bt_header st) \<noteq> 1 \<and> 6 \<le> ih_internal_max_size (bt_header st)"

lemma room_enough:
  assumes "quiet st" "2 * bt_page_count st \<le> bt_max_pages st"
  shows "bt_page_count st + card (dom (bt_nodes st)) + 1 \<le> bt_max_pages st" "bt_page_count st + 1 \<le> bt_max_pages st"
proof -
  have q: "env_ok no_pins no_locks (mtr_begin st)" using assms(1) by (simp add: quiet_def)
  have "dom (bt_nodes st) \<subseteq> {2..<int (bt_page_count st)}" using env_okD(3) [OF q] by auto
  then have "card (dom (bt_nodes st)) \<le> card {2..<int (bt_page_count st)}" by (intro card_mono) auto
  also have "\<dots> = bt_page_count st - 2" by simp
  finally show "bt_page_count st + card (dom (bt_nodes st)) + 1 \<le> bt_max_pages st" "bt_page_count st + 1 \<le> bt_max_pages st"
    using assms(2) env_okD(2) [OF q] by auto
qed


lemma bplus_step_ok:
  assumes "bplus_inv A st" "bplus_ready A x st"
  shows "\<exists>rc st'. bplus_step x st = Some (rc, st') \<and> bplus_inv A st' \<and> (rc, bplus_keys st') = spec_op (key_rank A) x (bplus_keys st)"
proof -
  have inv: "index_inv st" "ih_attrs (bt_header st) = A" "ih_unique (bt_header st) \<noteq> 1" "6 \<le> ih_internal_max_size (bt_header st)"
    using assms(1) by (simp_all add: bplus_inv_def)
  have keep: "bplus_inv A st'" if "index_inv st'" "same_index st st'" for st'
    using that(1) same_indexD [OF that(2)] inv by (simp add: bplus_inv_def)
  have hk: "has_key st k \<longleftrightarrow> has_rank (key_rank A) k (bplus_keys st)" for k
    using inv(2) by (simp add: has_key_def has_rank_def bplus_keys_def)
  show ?thesis
  proof (cases x)
    case (Insert k)
    obtain u rid where k: "k = (u, rid)" by (cases k)
    have ok: "key_ok (ih_attrs (bt_header st)) (u, rid)" and room: "2 * bt_page_count st \<le> bt_max_pages st"
      using assms(2) Insert k inv(2) by (simp_all add: bplus_ready_def)
    note room = room_enough [OF index_invD(1) [OF inv(1)] room]
    show ?thesis
    proof (cases "is_empty st")
      case True
      then have "entries (bt_nodes st) = {}" using index_invD(3) [OF inv(1)] by (simp add: entries_def)
      then show ?thesis using insert_empty_ok [OF inv(1) True ok room(2), of False] keep Insert k
        by (auto simp: bplus_step_def bplus_keys_def has_rank_def)
    next
      case False
      obtain rc st' where st': "insert_entry u rid False st = Some (rc, st')" "index_inv st'" "same_index st st'"
        "if has_key st (u, rid) then rc = RECORD_DUPLICATE_KEY \<and> entries (bt_nodes st') = entries (bt_nodes st)
         else rc = SUCCESS \<and> entries (bt_nodes st') = insert (u, rid) (entries (bt_nodes st))"
        using insert_tree_ok [OF inv(1) False ok room(1), of False] inv(3) by blast
      show ?thesis
        by (rule exI [of _ rc], rule exI [of _ st']) (use st' keep Insert k hk in \<open>auto simp: bplus_step_def bplus_keys_def split: if_splits\<close>)
    qed
  next
    case (Delete k)
    obtain u rid where k: "k = (u, rid)" by (cases k)
    have ok: "key_ok (ih_attrs (bt_header st)) (u, rid)" using assms(2) Delete k inv(2) by (simp add: bplus_ready_def)
    obtain rc st' where st': "delete_entry u rid st = Some (rc, st')" "index_inv st'" "same_index st st'"
      "rc = (if has_key st (u, rid) then SUCCESS else RECORD_NOT_EXIST)" "entries (bt_nodes st') = without_key A (u, rid) (entries (bt_nodes st))"
      using delete_entry_ok [OF inv(1,4) ok] inv(2) by blast
    show ?thesis
      by (rule exI [of _ rc], rule exI [of _ st']) (use st' keep Delete k hk in \<open>auto simp: bplus_step_def bplus_keys_def without_key_def\<close>)
  qed
qed

interpretation bplus: ordered_index bplus_step "bplus_inv A" "bplus_ready A" bplus_keys "key_rank A" for A
proof
  fix s x rc s'
  assume inv: "bplus_inv A s" "bplus_ready A x s"
  note ok = bplus_step_ok [OF inv]
  show "\<exists>rc s'. bplus_step x s = Some (rc, s')" using ok by blast
  show "bplus_step x s = Some (rc, s') \<Longrightarrow> bplus_inv A s'" using ok by auto
  show "bplus_step x s = Some (rc, s') \<Longrightarrow> index_spec (key_rank A) x (bplus_keys s) rc (bplus_keys s')" using ok by (auto simp: index_spec_def)
qed

section \<open>A new index\<close>

definition new_pool :: "nat \<Rightarrow> BplusTreeHandler" where
  "new_pool max_pages = \<lparr>bt_header = index_header [] 0 0 0, bt_header_page = index_header [] 0 0 0, bt_header_dirty = False, bt_nodes = Map.empty,
     bt_page_count = 1, bt_max_pages = max_pages, bt_faults = [], bt_pins = (\<lambda>_. 0), bt_locks = (\<lambda>_. 0), bt_wal = [], bt_mtr = MiniTransaction_new\<rparr>"

definition new_index :: "attrs \<Rightarrow> int \<Rightarrow> int \<Rightarrow> int \<Rightarrow> nat \<Rightarrow> BplusTreeHandler" where
  "new_index A unique internal_max leaf_max max_pages = (new_pool max_pages)\<lparr>bt_header := index_header A unique internal_max leaf_max,
     bt_header_page := index_header A unique internal_max leaf_max, bt_page_count := 2\<rparr>"


lemma key_capacity:
  "node_capacity (index_header A unique i l) leaf = (if leaf then calc_leaf_page_capacity (sum_list (map snd A)) else calc_internal_page_capacity (sum_list (map snd A)))"
  by (simp add: node_capacity_def index_header_def calc_leaf_page_capacity_def calc_internal_page_capacity_def Let_def)

text \<open>Sizes that a page has room for: those given, or the largest.\<close>

definition index_sizes_ok :: "attrs \<Rightarrow> int \<Rightarrow> int \<Rightarrow> bool" where
  "index_sizes_ok A i l \<longleftrightarrow> list_all ordered_attr A \<and>
     (let total = sum_list (map snd A) in
      6 \<le> calc_internal_page_capacity total \<and> 4 \<le> calc_leaf_page_capacity total \<and>
      (i < 0 \<or> 6 \<le> i \<and> i \<le> int (calc_internal_page_capacity total)) \<and> (l < 0 \<or> 4 \<le> l \<and> l \<le> int (calc_leaf_page_capacity total)))"

lemma new_index_inv:
  assumes "index_sizes_ok A i l"
  shows "index_inv (new_index A unique i l m)" "bplus_keys (new_index A unique i l m) = {}" "is_empty (new_index A unique i l m)"
    "unique \<noteq> 1 \<Longrightarrow> bplus_inv A (new_index A unique i l m)"
proof -
  let ?s = "new_index A unique i l m" and ?h = "index_header A unique i l"
  have f: "bt_header ?s = ?h" "bt_nodes ?s = Map.empty" "bt_page_count ?s = 2" "bt_faults ?s = []" "bt_pins ?s = (\<lambda>_. 0)" "bt_locks ?s = (\<lambda>_. 0)"
    by (simp_all add: new_index_def new_pool_def)
  have "header_ok ?h" using assms unfolding header_ok_def key_capacity by (auto simp: index_sizes_ok_def index_header_def Let_def)
  moreover have "quiet ?s" using f by (simp add: quiet_def env_ok_def mtr_begin_def MiniTransaction_new_def)
  moreover show "is_empty ?s" using f by (simp add: is_empty_def index_header_def Let_def)
  ultimately show "index_inv ?s" using f by (simp add: index_inv_def)
  then show "bplus_inv A ?s" if "unique \<noteq> 1" using that assms f(1)
    by (auto simp: bplus_inv_def index_header_def index_sizes_ok_def Let_def)
  show "bplus_keys ?s = {}" using f(2) by (simp add: bplus_keys_def entries_def)
qed

section \<open>What holds in every state\<close>

lemma index_quiet:
  assumes "index_inv st"
  shows "bt_pins st p = 0" "bt_locks st t = 0" "bt_faults st = []"
  using quietD [OF index_invD(1) [OF assms]] index_invD(5) [OF assms] by (auto simp: env_ok_def mtr_begin_def MiniTransaction_new_def)

lemma index_node_sizes:
  assumes "index_inv st" "bt_nodes st p = Some n"
  shows "nd_size n \<le> max_size (bt_header st) n" "max_size (bt_header st) n \<le> node_capacity (bt_header st) (nd_is_leaf n)"
    "p \<noteq> ih_root_page (bt_header st) \<Longrightarrow> max_size (bt_header st) n div 2 \<le> nd_size n" "0 < nd_size n"
proof -
  have "\<not> is_empty st" using assms index_invD(3) [OF assms(1)] by auto
  then obtain g where f: "tree_full (bt_header st) (bt_nodes st) g" using index_invD(4) [OF assms(1)] by blast
  note t = tree_fullD [OF f]
  have s: "node_size_ok (bt_header st) (p = ih_root_page (bt_header st)) n" using sizes_okD [OF t(4) assms(2)] .
  show "nd_size n \<le> max_size (bt_header st) n" "p \<noteq> ih_root_page (bt_header st) \<Longrightarrow> max_size (bt_header st) n div 2 \<le> nd_size n"
    using s by (auto simp: node_size_ok_def)
  show "max_size (bt_header st) n \<le> node_capacity (bt_header st) (nd_is_leaf n)" using header_okD(3) [OF t(1)] .
  show "0 < nd_size n" using s header_okD(4) [OF t(1), of n] by (auto simp: node_size_ok_def split: if_splits)
qed


section \<open>Ranges of user keys\<close>

text \<open>A bound of a scan: a user key, its length and whether it is inside. The length counts for
  character keys only; those must fill the attributes, for the code asserts that they contain no NUL.\<close>

type_synonym scan_bound = "(byte list \<times> nat \<times> bool) option"

definition bound_ok :: "attrs \<Rightarrow> scan_bound \<Rightarrow> bool" where
  "bound_ok A b \<longleftrightarrow> (case b of None \<Rightarrow> True | Some (u, len, incl) \<Rightarrow>
     length u = sum_list (map snd A) \<and> A \<noteq> [] \<and> (fst (hd A) = CHARS \<longrightarrow> len = length u \<and> 0 \<notin> set u))"

definition after_left :: "attrs \<Rightarrow> scan_bound \<Rightarrow> index_key \<Rightarrow> bool" where
  "after_left A b k \<longleftrightarrow> (case b of None \<Rightarrow> True | Some (u, len, incl) \<Rightarrow>
     if incl then attrs_rank A u \<le> attrs_rank A (fst k) else attrs_rank A u < attrs_rank A (fst k))"

definition before_right :: "attrs \<Rightarrow> scan_bound \<Rightarrow> index_key \<Rightarrow> bool" where
  "before_right A b k \<longleftrightarrow> (case b of None \<Rightarrow> True | Some (u, len, incl) \<Rightarrow>
     if incl then attrs_rank A (fst k) \<le> attrs_rank A u else attrs_rank A (fst k) < attrs_rank A u)"

definition range_ok :: "attrs \<Rightarrow> scan_bound \<Rightarrow> scan_bound \<Rightarrow> bool" where
  "range_ok A left right \<longleftrightarrow> (case (left, right) of
     (Some (l, _, li), Some (r, _, ri)) \<Rightarrow> attrs_rank A l < attrs_rank A r \<or> attrs_rank A l = attrs_rank A r \<and> li \<and> ri
   | _ \<Rightarrow> True)"

text \<open>The two record ids that no record has.\<close>

definition rid_inner :: "RID \<Rightarrow> bool" where
  "rid_inner r \<longleftrightarrow> rid_range r \<and> r \<noteq> RID_min \<and> r \<noteq> RID_max"

lemma rid_extremes: "rid_range RID_min" "rid_range RID_max"
  by (simp_all add: rid_range_def RID_min_def RID_max_def RID_def INT32_MAX_def)

lemma rank_le:
  assumes "rid_range r"
  shows "key_rank A (u, RID_min) \<le> key_rank A (v, r) \<longleftrightarrow> attrs_rank A u \<le> attrs_rank A v"
    "key_rank A (v, r) \<le> key_rank A (u, RID_max) \<longleftrightarrow> attrs_rank A v \<le> attrs_rank A u"
  using assms by (auto simp: key_rank_def rid_range_def RID_min_def RID_max_def RID_def less_eq_prod_def)

lemma rank_less:
  assumes "rid_inner r"
  shows "key_rank A (u, RID_max) \<le> key_rank A (v, r) \<longleftrightarrow> attrs_rank A u < attrs_rank A v"
    "key_rank A (v, r) \<le> key_rank A (u, RID_min) \<longleftrightarrow> attrs_rank A v < attrs_rank A u"
  using assms by (cases r; force simp: key_rank_def rid_inner_def rid_range_def RID_min_def RID_max_def RID_def less_eq_prod_def)+


lemma fix_key_plain:
  assumes "bound_ok (ih_attrs (bt_header st)) (Some (u, len, incl))" "header_ok (bt_header st)"
  shows "fix_key u len g incl st = Some (u, incl)" "make_key u r st = Some (u, r)"
proof -
  have l: "length u = ih_total_attr_length (bt_header st)" using assms header_okD(2) [OF assms(2)] by (simp add: bound_ok_def)
  then show "make_key u r st = Some (u, r)" by (rule make_key_ok)
  show "fix_key u len g incl st = Some (u, incl)"
  proof (cases "fst (hd (ih_attrs (bt_header st))) = CHARS")
    case True
    then have len: "0 \<notin> set u" "len = length u" using assms(1) by (simp_all add: bound_ok_def)
    have "takeWhile (\<lambda>c. c \<noteq> 0) u = u" unfolding takeWhile_eq_all_conv using len(1) by metis
    then have "\<not> \<not> len \<le> length (takeWhile (\<lambda>c. c \<noteq> 0) u)" using len(2) by (simp only: not_not)
    then have "fix_user_key u len g st = Some (u, False)" using l len(2) unfolding fix_user_key_def Let_def by (simp only: if_False) (simp add: mem_read_def)
    then show ?thesis using True assms(1) by (cases "ih_attrs (bt_header st)") (simp_all add: bound_ok_def fix_key_def mem_get_def)
  next
    case False
    then show ?thesis using assms(1) by (cases "ih_attrs (bt_header st)") (simp_all add: bound_ok_def fix_key_def mem_get_def)
  qed
qed

definition left_key :: "scan_bound \<Rightarrow> index_key option" where
  "left_key b = map_option (\<lambda>(u, len, incl). (u, if incl then RID_min else RID_max)) b"

definition right_key :: "scan_bound \<Rightarrow> index_key option" where
  "right_key b = map_option (\<lambda>(u, len, incl). (u, if incl then RID_max else RID_min)) b"

lemma scan_keys:
  assumes "bound_ok (ih_attrs (bt_header st)) b" "header_ok (bt_header st)"
  shows "scan_left_key b st = Some (left_key b)" "scan_right_key b st = Some (right_key b)"
    "left_key b = Some k \<Longrightarrow> key_ok (ih_attrs (bt_header st)) k" "right_key b = Some k \<Longrightarrow> key_ok (ih_attrs (bt_header st)) k"
proof (atomize (full), cases b)
  case (Some x)
  obtain u len incl where x: "x = (u, len, incl)" by (cases x)
  note f = fix_key_plain [OF assms(1) [unfolded Some x] assms(2)]
  show "(scan_left_key b st = Some (left_key b) \<and> scan_right_key b st = Some (right_key b)) \<and>
      (left_key b = Some k \<longrightarrow> key_ok (ih_attrs (bt_header st)) k) \<and> (right_key b = Some k \<longrightarrow> key_ok (ih_attrs (bt_header st)) k)"
    using assms(1) f rid_extremes header_okD(1) [OF assms(2)]
    by (auto simp: Some x scan_left_key_def scan_right_key_def left_key_def right_key_def key_ok_def bound_ok_def)
qed (simp_all add: scan_left_key_def scan_right_key_def left_key_def right_key_def)

lemma scan_range_iff:
  assumes "bound_ok (ih_attrs (bt_header st)) left" "bound_ok (ih_attrs (bt_header st)) right" "header_ok (bt_header st)"
  shows "scan_range_valid left right st = Some (range_ok (ih_attrs (bt_header st)) left right)"
proof -
  have "AttrComparator (ih_attrs (bt_header st)) l r = Some (order3 (attrs_rank (ih_attrs (bt_header st)) l) (attrs_rank (ih_attrs (bt_header st)) r))"
    if "left = Some (l, x)" "right = Some (r, y)" for l r x y
    using that assms(1,2) header_okD(1) [OF assms(3)] by (intro AttrComparator_rank) (auto simp: bound_ok_def)
  then show ?thesis by (auto simp: scan_range_valid_def range_ok_def split: option.splits)
qed

lemma from_within:
  assumes "rid_inner (snd k)"
  shows "from_key A (left_key b) k \<longleftrightarrow> after_left A b k" "within A (right_key b) k \<longleftrightarrow> before_right A b k"
proof -
  obtain v r where k: "k = (v, r)" "rid_inner r" "rid_range r" using assms by (cases k) (auto simp: rid_inner_def)
  show "from_key A (left_key b) k \<longleftrightarrow> after_left A b k" "within A (right_key b) k \<longleftrightarrow> before_right A b k"
    using rank_le [OF k(3)] rank_less [OF k(2)]
    by (auto simp: k(1) from_key_def within_def left_key_def right_key_def after_left_def before_right_def split: option.splits)
qed

lemma index_entries_ok: "index_inv st \<Longrightarrow> k \<in> entries (bt_nodes st) \<Longrightarrow> key_ok (ih_attrs (bt_header st)) k"
proof -
  assume a: "index_inv st" "k \<in> entries (bt_nodes st)"
  have "\<not> is_empty st" using a index_invD(3) [OF a(1)] by (auto simp: entries_def)
  then obtain g where "tree_full (bt_header st) (bt_nodes st) g" using index_invD(4) [OF a(1)] by blast
  then show ?thesis using entries_ok [OF tree_fullD(2) a(2)] by blast
qed

lemma scan_ok:
  assumes inv: "index_inv st" and A: "A = ih_attrs (bt_header st)" and b: "bound_ok A left" "bound_ok A right" "range_ok A left right"
    and rids: "\<forall>k\<in>entries (bt_nodes st). rid_inner (snd k)"
  shows "\<exists>ks sc st1 sc' st2. scanner_open left right BplusTreeScanner_new st = Some (SUCCESS, sc, st1) \<and>
     scan_all [] sc st1 = Some (RECORD_EOF, map snd ks, sc', st2) \<and> bt_nodes st2 = bt_nodes st \<and>
     sorted_wrt (<) (map (key_rank A) ks) \<and> set ks = {k \<in> entries (bt_nodes st). after_left A left k \<and> before_right A right k}"
proof -
  note h = index_invD(2) [OF inv] and b = b [unfolded A]
  obtain sc st1 ks sc' st2 where s: "scanner_open left right BplusTreeScanner_new st = Some (SUCCESS, sc, st1)"
    "scan_all [] sc st1 = Some (RECORD_EOF, map snd ks, sc', st2)" "bt_nodes st2 = bt_nodes st"
    "scan_result A {k \<in> entries (bt_nodes st). from_key A (left_key left) k} (right_key right) ks"
    using open_scan_ok [OF inv, of left right "left_key left" "right_key right"] scan_range_iff [OF b(1,2) h] b(3)
      scan_keys [OF b(1) h] scan_keys [OF b(2) h] unfolding A by auto
  have "set ks = {k \<in> entries (bt_nodes st). after_left A left k \<and> before_right A right k}"
    using s(4) rids by (auto simp: scan_result_def from_within)
  moreover have "sorted_wrt (<) (map (key_rank A) ks)" using s(4) by (simp add: scan_result_def)
  ultimately show ?thesis using s(1-3) by blast
qed

lemma get_entry_ok:
  assumes inv: "index_inv st" and A: "A = ih_attrs (bt_header st)" and b: "bound_ok A (Some (u, len, True))"
  shows "\<exists>ks st'. get_entry u len st = Some (SUCCESS, map snd ks, st') \<and> index_inv st' \<and> bt_nodes st' = bt_nodes st \<and>
     sorted_wrt (<) (map (key_rank A) ks) \<and> set ks = {k \<in> entries (bt_nodes st). attrs_rank A (fst k) = attrs_rank A u}"
proof -
  let ?b = "Some (u, len, True)"
  note h = index_invD(2) [OF inv] and b = b [unfolded A]
  have ra: "range_ok (ih_attrs (bt_header st)) ?b ?b" by (simp add: range_ok_def)
  obtain sc st1 ks sc' st2 where s: "scanner_open ?b ?b BplusTreeScanner_new st = Some (SUCCESS, sc, st1)"
    "scan_all [] sc st1 = Some (RECORD_EOF, map snd ks, sc', st2)" "env_ok no_pins no_locks st2" "bt_nodes st2 = bt_nodes st"
    "bt_header st2 = bt_header st" "mx_disposed (bt_mtr st2) = []"
    "scan_result A {k \<in> entries (bt_nodes st). from_key A (left_key ?b) k} (right_key ?b) ks"
    using open_scan_ok [OF inv, of ?b ?b "left_key ?b" "right_key ?b"] scan_range_iff [OF b b h] ra scan_keys [OF b h] unfolding A by auto
  obtain st3 where r: "memo_release st2 = Some st3" "bt_nodes st3 = bt_nodes st" "bt_header st3 = bt_header st" "quiet st3"
    using memo_release_env [OF s(3,6)] s(4,5) by auto
  have "set ks = {k \<in> entries (bt_nodes st). attrs_rank A (fst k) = attrs_rank A u}"
  proof (intro set_eqI)
    fix k :: index_key
    obtain v r where k: "k = (v, r)" by (cases k)
    have "rid_range r" if "k \<in> entries (bt_nodes st)" using index_entries_ok [OF inv that] k by (simp add: key_ok_def)
    from rank_le [OF this] show "k \<in> set ks \<longleftrightarrow> k \<in> {k \<in> entries (bt_nodes st). attrs_rank A (fst k) = attrs_rank A u}"
      using s(7) by (auto simp: k scan_result_def from_key_def within_def left_key_def right_key_def)
  qed
  moreover have "sorted_wrt (<) (map (key_rank A) ks)" using s(7) by (simp add: scan_result_def)
  moreover have "get_entry u len st = Some (SUCCESS, map snd ks, st3)" using s(1,2) r(1) by (simp add: get_entry_def)
  moreover have "index_inv st3" using inv r(2-4) by (simp add: index_inv_def is_empty_def)
  ultimately show ?thesis using r(2) by blast
qed


section \<open>Example\<close>

definition ints :: attrs where "ints = [(INTS, 4)]"

definition ex_index :: BplusTreeHandler where
  "ex_index = new_index ints 0 (- 1) (- 1) 100"

lemma ints_sizes: "index_sizes_ok ints (- 1) (- 1)"
  by (simp add: index_sizes_ok_def ints_def ordered_attr_def calc_internal_page_capacity_def calc_leaf_page_capacity_def BP_PAGE_DATA_SIZE_value)

lemma ex_index_inv: "bplus_inv ints ex_index" "index_inv ex_index" "bplus_keys ex_index = {}" "ih_attrs (bt_header ex_index) = ints"
  "entries (bt_nodes ex_index) = {}"
  using new_index_inv [OF ints_sizes] by (simp_all add: ex_index_def new_index_def index_header_def Let_def bplus_keys_def)

lemma ex_key_ok: "length u = 4 \<Longrightarrow> 0 \<le> p \<Longrightarrow> p < 100 \<Longrightarrow> 0 \<le> s \<Longrightarrow> s < 100 \<Longrightarrow> key_ok ints (u, RID p s)"
  by (simp add: key_ok_def ints_def ordered_attr_def rid_range_def RID_def INT32_MAX_def)

definition ex_ops :: "index_key index_op list" where
  "ex_ops = [Insert ([1, 0, 0, 0], RID 1 1), Delete ([2, 0, 0, 0], RID 1 1), Delete ([1, 0, 0, 0], RID 1 1)]"

lemma ex_ops_ready: "allowed_run bplus_step (bplus_ready ints) ex_ops ex_index"
proof -
  have "2 * bt_page_count ex_index \<le> bt_max_pages ex_index" by (simp add: ex_index_def new_index_def new_pool_def)
  then show ?thesis by (auto simp: ex_ops_def bplus_ready_def ex_key_ok split: option.splits)
qed

lemma ex_ranks: "key_rank ints ([1, 0, 0, 0], r) \<noteq> key_rank ints ([2, 0, 0, 0], r')"
  by (simp add: key_rank_def ints_def attr_rank_def dec32_def to_int32_def)

section \<open>Properties\<close>



text \<open>
  C4. Refinement: any sequence of insertions and deletions of keys on an index that is not unique
  behaves as on a set of keys compared by the attributes and the record id. An insertion of a key
  the set has is refused as a duplicate, a deletion of a key it does not have reports that, and no
  assertion of the code fails, whatever splits, merges and moves between nodes the sequence causes.
  Each insertion finds room in the file to double it.\<close>

theorem bplus_tree_refines:
  assumes "bplus_inv A st" "allowed_run bplus_step (bplus_ready A) xs st"
  shows "\<exists>rcs st'. run_ops bplus_step xs st = Some (rcs, st') \<and> bplus_inv A st' \<and>
     (rcs, bplus_keys st') = index_run (key_rank A) xs (bplus_keys st)"
  by (rule bplus.run_index [OF assms])

theorem bplus_tree_refines_witness:
  "\<exists>st'. run_ops bplus_step ex_ops ex_index = Some ([SUCCESS, RECORD_NOT_EXIST, SUCCESS], st') \<and> bplus_keys st' = {}"
proof -
  have "index_run (key_rank ints) ex_ops (bplus_keys ex_index) = ([SUCCESS, RECORD_NOT_EXIST, SUCCESS], {})"
    using ex_ranks by (auto simp: ex_ops_def ex_index_inv(3) has_rank_def)
  then show ?thesis using bplus_tree_refines [OF ex_index_inv(1) ex_ops_ready] by auto
qed

text \<open>
  C14. Bounds: after any such sequence every node fits its page, holds at most the maximum of its
  kind and, unless it is the root, at least half of it.\<close>

theorem bplus_node_bounds:
  assumes "bplus_inv A st" "allowed_run bplus_step (bplus_ready A) xs st"
  shows "\<exists>rcs st'. run_ops bplus_step xs st = Some (rcs, st') \<and> (\<forall>p n. bt_nodes st' p = Some n \<longrightarrow>
     nd_size n \<le> max_size (bt_header st') n \<and> 0 < nd_size n \<and>
     (p \<noteq> ih_root_page (bt_header st') \<longrightarrow> max_size (bt_header st') n div 2 \<le> nd_size n) \<and>
     (if nd_is_leaf n then 16 + nd_size n * (ih_key_length (bt_header st') + 8) else 12 + nd_size n * (ih_key_length (bt_header st') + 4)) \<le> BP_PAGE_DATA_SIZE)"
proof -
  obtain rcs st' where s: "run_ops bplus_step xs st = Some (rcs, st')" "index_inv st'"
    using bplus.run_index [OF assms] by (auto simp: bplus_inv_def)
  have fits: "n * b \<le> (d :: nat)" if "n \<le> d div b" for b d n
    using le_trans [OF mult_le_mono1 [OF that, of b] div_times_less_eq_dividend] .
  have "(if nd_is_leaf n then 16 + nd_size n * (ih_key_length (bt_header st') + 8) else 12 + nd_size n * (ih_key_length (bt_header st') + 4)) \<le> BP_PAGE_DATA_SIZE"
    if "nd_size n \<le> node_capacity (bt_header st') (nd_is_leaf n)" for n
    using that fits [of "nd_size n"] by (auto simp: node_capacity_def BP_PAGE_DATA_SIZE_value split: if_splits)
  then show ?thesis using s index_node_sizes [OF s(2)] le_trans by (intro exI conjI allI impI) blast+
qed

theorem bplus_node_bounds_witness:
  "\<exists>rcs st'. run_ops bplus_step ex_ops ex_index = Some (rcs, st') \<and> (\<forall>p n. bt_nodes st' p = Some n \<longrightarrow> nd_size n \<le> max_size (bt_header st') n)"
  using bplus_node_bounds [OF ex_index_inv(1) ex_ops_ready] by blast

text \<open>
  C15. Nothing is left behind: when the operations of such a sequence have returned no page is
  pinned, no latch and not the root lock is held, and the next operation starts as the first did.\<close>

theorem bplus_no_leaks:
  assumes "bplus_inv A st" "allowed_run bplus_step (bplus_ready A) xs st"
  shows "\<exists>rcs st'. run_ops bplus_step xs st = Some (rcs, st') \<and> (\<forall>p. bt_pins st' p = 0) \<and> (\<forall>t. bt_locks st' t = 0)"
  using bplus.run_index [OF assms] index_quiet by (auto simp: bplus_inv_def)

theorem bplus_no_leaks_witness:
  "\<exists>rcs st'. run_ops bplus_step ex_ops ex_index = Some (rcs, st') \<and> (\<forall>p. bt_pins st' p = 0) \<and> (\<forall>t. bt_locks st' t = 0)"
  using bplus_no_leaks [OF ex_index_inv(1) ex_ops_ready] .


text \<open>
  C9. A scan with bounds returns exactly the record ids of the entries within them, each once and in
  the order of the keys, then the end of the scan, and leaves the tree as it was. The bounds are
  user keys of the attributes' length; record ids are other than the least and the greatest one,
  which the code takes for bounds.\<close>

theorem bplus_scan:
  assumes "index_inv st" "A = ih_attrs (bt_header st)" "bound_ok A left" "bound_ok A right" "range_ok A left right"
    and "\<forall>k\<in>entries (bt_nodes st). rid_inner (snd k)"
  shows "\<exists>ks sc st1 sc' st2. scanner_open left right BplusTreeScanner_new st = Some (SUCCESS, sc, st1) \<and>
     scan_all [] sc st1 = Some (RECORD_EOF, map snd ks, sc', st2) \<and> bt_nodes st2 = bt_nodes st \<and>
     sorted_wrt (<) (map (key_rank A) ks) \<and> set ks = {k \<in> entries (bt_nodes st). after_left A left k \<and> before_right A right k}"
  by (rule scan_ok [OF assms])

theorem bplus_scan_witness:
  "\<exists>st ks sc st1 sc' st2. (insert_entry [1, 0, 0, 0] (RID 1 1) False ex_index = Some (SUCCESS, st) \<and>
     scanner_open (Some ([0, 0, 0, 0], 4, False)) (Some ([1, 0, 0, 0], 4, True)) BplusTreeScanner_new st = Some (SUCCESS, sc, st1)) \<and>
     scan_all [] sc st1 = Some (RECORD_EOF, map snd ks, sc', st2) \<and> set ks = {([1, 0, 0, 0] :: byte list, RID 1 1)}"
proof -
  let ?k = "([1, 0, 0, 0], RID 1 1) :: index_key"
  have "bt_page_count ex_index + 1 \<le> bt_max_pages ex_index" "is_empty ex_index"
    using new_index_inv(3) [OF ints_sizes] by (simp_all add: ex_index_def new_index_def new_pool_def)
  then obtain st where st: "insert_entry [1, 0, 0, 0] (RID 1 1) False ex_index = Some (SUCCESS, st)" "index_inv st" "entries (bt_nodes st) = {?k}"
    "ints = ih_attrs (bt_header st)"
    using insert_empty_ok [OF ex_index_inv(2), of "[1, 0, 0, 0]" "RID 1 1" False] ex_index_inv(4) ex_key_ok by (auto dest: same_indexD)
  have rk: "attrs_rank ints [0, 0, 0, 0] = [[0]]" "attrs_rank ints [1, 0, 0, 0] = [[1]]"
    by (simp_all add: ints_def attr_rank_def dec32_def to_int32_def)
  then have ks: "{k \<in> entries (bt_nodes st). after_left ints (Some ([0, 0, 0, 0], 4, False)) k \<and> before_right ints (Some ([1, 0, 0, 0], 4, True)) k} = {?k}"
    by (auto simp: st(3) after_left_def before_right_def)
  have "bound_ok ints (Some ([0, 0, 0, 0], 4, False))" "bound_ok ints (Some ([1, 0, 0, 0], 4, True))"
    "range_ok ints (Some ([0, 0, 0, 0], 4, False)) (Some ([1, 0, 0, 0], 4, True))" "\<forall>k\<in>entries (bt_nodes st). rid_inner (snd k)"
    using rk st(3) by (simp_all add: bound_ok_def range_ok_def rid_inner_def rid_range_def RID_def RID_min_def RID_max_def INT32_MAX_def) (simp_all add: ints_def)
  from bplus_scan [OF st(2,4) this] obtain ks sc st1 sc' st2
    where s: "scanner_open (Some ([0, 0, 0, 0], 4, False)) (Some ([1, 0, 0, 0], 4, True)) BplusTreeScanner_new st = Some (SUCCESS, sc, st1)"
      "scan_all [] sc st1 = Some (RECORD_EOF, map snd ks, sc', st2)" "set ks = {?k}" unfolding ks by blast
  show ?thesis by (intro exI conjI) (fact st(1), fact s(1), fact s(2), fact s(3))
qed

text \<open>
  C24. Looking a user key up returns the record ids of exactly the entries with these attributes, in
  their order, and changes nothing; for character keys the length given is that of the attributes.\<close>

theorem bplus_get_entry:
  assumes "index_inv st" "A = ih_attrs (bt_header st)" "bound_ok A (Some (u, len, True))"
  shows "\<exists>ks st'. get_entry u len st = Some (SUCCESS, map snd ks, st') \<and> index_inv st' \<and> bt_nodes st' = bt_nodes st \<and>
     sorted_wrt (<) (map (key_rank A) ks) \<and> set ks = {k \<in> entries (bt_nodes st). attrs_rank A (fst k) = attrs_rank A u}"
  by (rule get_entry_ok [OF assms])

theorem bplus_get_entry_witness:
  "\<exists>st'. get_entry [1, 0, 0, 0] 4 ex_index = Some (SUCCESS, [], st') \<and> index_inv st'"
  using bplus_get_entry [OF ex_index_inv(2) ex_index_inv(4) [symmetric], of "[1, 0, 0, 0]" 4] ex_index_inv(5)
  by (auto simp: bound_ok_def ints_def)

text \<open>
  C25. An update of an entry is refused when the new key is already there, and otherwise leaves the
  new key in the place of the old one; when the old one was not there the new one stays and the
  result says so.\<close>

theorem bplus_update_entry:
  assumes "bplus_inv A st" "key_ok A (old, rid)" "key_ok A (new, rid)" "2 * bt_page_count st \<le> bt_max_pages st"
  shows "\<exists>rc st'. update_entry old new rid False st = Some (rc, st') \<and> bplus_inv A st' \<and>
     (if has_rank (key_rank A) (new, rid) (bplus_keys st) then rc = RECORD_DUPLICATE_KEY \<and> bplus_keys st' = bplus_keys st
      else (rc, bplus_keys st') = spec_op (key_rank A) (Delete (old, rid)) (insert (new, rid) (bplus_keys st)))"
proof -
  obtain rc st1 where s1: "bplus_step (Insert (new, rid)) st = Some (rc, st1)" "bplus_inv A st1"
    "(rc, bplus_keys st1) = spec_op (key_rank A) (Insert (new, rid)) (bplus_keys st)"
    using bplus_step_ok [of A st "Insert (new, rid)"] assms by (auto simp: bplus_ready_def)
  obtain rc2 st2 where s2: "bplus_step (Delete (old, rid)) st1 = Some (rc2, st2)" "bplus_inv A st2"
    "(rc2, bplus_keys st2) = spec_op (key_rank A) (Delete (old, rid)) (bplus_keys st1)"
    using bplus_step_ok [of A st1 "Delete (old, rid)"] s1(2) assms(2) by (auto simp: bplus_ready_def)
  show ?thesis
  proof (cases "has_rank (key_rank A) (new, rid) (bplus_keys st)")
    case True
    then show ?thesis using s1 by (auto simp: update_entry_def bplus_step_def)
  next
    case False
    then show ?thesis using s1 s2 by (auto simp: update_entry_def bplus_step_def simp del: spec_op.simps(2))
  qed
qed

theorem bplus_update_entry_witness:
  "\<exists>st'. update_entry [2, 0, 0, 0] [1, 0, 0, 0] (RID 1 1) False ex_index = Some (RECORD_NOT_EXIST, st') \<and> bplus_keys st' = {([1, 0, 0, 0], RID 1 1)}"
proof -
  have "2 * bt_page_count ex_index \<le> bt_max_pages ex_index" by (simp add: ex_index_def new_index_def new_pool_def)
  then show ?thesis
    using bplus_update_entry [OF ex_index_inv(1), of "[2, 0, 0, 0]" "RID 1 1" "[1, 0, 0, 0]"] ex_key_ok ex_ranks [of "RID 1 1" "RID 1 1"]
    by (auto simp: ex_index_inv(3) has_rank_def)
qed

section \<open>Undoing a mini transaction\<close>

lemma rollback_entries_stops: "e \<in> set es \<Longrightarrow> (\<And>st. entry_rollback e st = None) \<Longrightarrow> rollback_entries es st = None"
  by (induction es arbitrary: st) (auto split: bind_splits)

text \<open>
  C29. A mini transaction that has removed items from a node, as every split, merge and deletion has,
  cannot be rolled back: undoing the removal copies the items through the null pointer of the base
  class's node handler. An operation that fails after a removal stops the program.\<close>

theorem removal_not_undone:
  assumes "NodeRemove p index items \<in> set (mx_entries (bt_mtr st))" "items \<noteq> []" "OB_FAIL rc"
  shows "mtr_end rc st = None"
proof -
  have "entry_rollback (NodeRemove p index items) st' = None" for st'
    using assms(2) by (cases "bt_nodes st' p") (simp_all add: entry_rollback_def base_insert_items_def)
  then have "mtr_rollback st = None" using rollback_entries_stops [of "NodeRemove p index items"] assms(1) by (simp add: mtr_rollback_def)
  then show ?thesis using assms(3) by (simp add: mtr_end_def OB_FAIL_iff)
qed

theorem removal_not_undone_witness:
  "mtr_end BUFFERPOOL_NOBUF (mtr_update (mx_entries_update (\<lambda>es. es @ [NodeRemove 2 0 [(([], RID 1 1), RecordValue (RID 1 1))]])) ex_index) = None"
  by (rule removal_not_undone [of 2 0 "[(([], RID 1 1), RecordValue (RID 1 1))]"]) (simp_all add: OB_FAIL_def)

end
