(* ===== verification/BplusValidate.thy ===== *)
theory BplusValidate
  imports BplusContract
begin

text \<open>
  The checks of \<open>validate_tree\<close> accept every tree that the operations build: each node against its
  neighbours, its parent and its children, and the chain of the leaves. The depth of the recursion
  is at most the logarithm of the number of entries.
\<close>

section \<open>Single checks\<close>

lemma key_cmp_bound:
  assumes "key_ok A k1" "key_ok A k2"
  obtains c where "KeyComparator A k1 k2 = Some c" "c < 0 \<longleftrightarrow> key_bound A k1 < key_bound A k2"
proof -
  obtain r where r: "KeyComparator A k1 k2 = Some r" "sgn r = order3 (key_rank A k1) (key_rank A k2)" using KeyComparator_rank [OF assms] .
  have "r < 0 \<longleftrightarrow> sgn r < 0" by (simp add: sgn_if)
  then show thesis using that r by (simp add: key_bound_def)
qed

lemma keys_ordered_ok:
  "\<forall>k\<in>set ks. key_ok (ih_attrs (bt_header st)) k \<Longrightarrow> sorted_wrt (<) (map (key_bound (ih_attrs (bt_header st))) ks) \<Longrightarrow> keys_ordered st ks = Some True"
proof (induction st ks rule: keys_ordered.induct)
  case (1 st k1 k2 ks)
  obtain c where c: "key_cmp st k1 k2 = Some c" "c < 0 \<longleftrightarrow> key_bound (ih_attrs (bt_header st)) k1 < key_bound (ih_attrs (bt_header st)) k2"
    using key_cmp_bound [of "ih_attrs (bt_header st)" k1 k2] 1(2) by auto
  then have "\<not> c \<ge> 0" using 1(3) by auto
  then show ?case using 1 c(1) by simp
qed simp_all

lemma items_ordered:
  assumes "\<And>x. x \<in> set xs \<Longrightarrow> key_ok (ih_attrs (bt_header st)) (fst x)" "sorted_wrt (<) (map (item_bound (ih_attrs (bt_header st))) xs)"
  shows "keys_ordered st (map fst xs) = Some True"
proof (rule keys_ordered_ok)
  have "map (key_bound (ih_attrs (bt_header st))) (map fst xs) = map (item_bound (ih_attrs (bt_header st))) xs" by (simp add: item_bound_fst)
  then show "sorted_wrt (<) (map (key_bound (ih_attrs (bt_header st))) (map fst xs))" using assms(2) by (simp only:)
  show "\<forall>k\<in>set (map fst xs). key_ok (ih_attrs (bt_header st)) k" using assms(1) by auto
qed

lemma pin_unpin:
  assumes "env_ok bp bl st" "page_exists p st"
  obtains st1 where "pool_pin p st = Some (SUCCESS, st1)" "pool_unpin p st1 = Some st" "bt_nodes st1 = bt_nodes st" "bt_header st1 = bt_header st"
proof -
  let ?st1 = "st\<lparr>bt_pins := (bt_pins st)(p := bt_pins st p + 1)\<rparr>"
  have "0 \<le> bt_pins st p" using env_okD(4,6) [OF assms(1), of p] by simp
  then have "pool_unpin p ?st1 = Some st" by (simp add: pool_unpin_def)
  moreover have "pool_pin p st = Some (SUCCESS, ?st1)" using assms env_okD(1) [OF assms(1)] by (simp add: pool_pin_def pool_outcome_def)
  ultimately show thesis using that [of ?st1] by simp
qed

lemma value_index_from_ok:
  "i < length xs \<Longrightarrow> snd (xs ! i) = ChildPage c \<Longrightarrow> \<forall>j<i. snd (xs ! j) \<noteq> ChildPage c \<Longrightarrow> value_index_from k c xs = Some (k + i)"
proof (induction xs arbitrary: i k)
  case (Cons x xs)
  show ?case
  proof (cases i)
    case (Suc j)
    have "snd x \<noteq> ChildPage c" using Cons.prems(3) Suc by force
    moreover have "value_index_from (k + 1) c xs = Some (k + 1 + j)" using Cons.prems Suc by (intro Cons.IH) force+
    ultimately show ?thesis using Suc by simp
  qed (use Cons.prems in simp)
qed simp

lemma value_index_ok:
  assumes "internal_ok A N g p n" "i < nd_size n" "snd (nd_items n ! i) = ChildPage c"
  shows "value_index c n = int i"
proof -
  have "snd (nd_items n ! j) \<noteq> ChildPage c" if "j < i" for j using child_index_unique [OF assms(1), of j i] assms(2,3) that by auto
  then show ?thesis using value_index_from_ok [OF assms(2,3), of 0] by (simp add: value_index_def)
qed

lemma validate_in_parent_ok:
  assumes e: "env_ok bp bl st" and f: "tree_full (bt_header st) (bt_nodes st) g" and n: "bt_nodes st p = Some n" and first: "first < nd_size n"
    and low: "sh_lo g p \<le> item_bound (ih_attrs (bt_header st)) (nd_items n ! first)"
    and high: "item_bound (ih_attrs (bt_header st)) (nd_items n ! (nd_size n - 1)) < sh_hi g p"
  shows "validate_in_parent first p n st = Some (True, st)"
proof (cases "nd_parent n = BP_INVALID_PAGE_NUM")
  case False
  note t = tree_fullD [OF f]
  let ?A = "ih_attrs (bt_header st)" and ?q = "nd_parent n"
  have "p \<noteq> ih_root_page (bt_header st)" using root_parent [OF t(2,3) n] False by simp
  moreover have "p \<notin> ran (sh_pend g)" using t(3) by simp
  ultimately obtain m i where m: "bt_nodes st ?q = Some m" "internal_ok ?A (bt_nodes st) g ?q m" "i < nd_size m" "snd (nd_items m ! i) = ChildPage p"
    "sh_lo g p = child_bounds ?A g ?q m ! i" "span_hi g p = child_bounds ?A g ?q m ! Suc i" "nd_items m \<noteq> []"
    using node_has_parent [OF t(2) n] internal_okD(1) by metis
  obtain st1 where s1: "pool_pin ?q st = Some (SUCCESS, st1)" "pool_unpin ?q st1 = Some st" "bt_nodes st1 = bt_nodes st" "bt_header st1 = bt_header st"
    using pin_unpin [OF e, of ?q] m(1) by (auto simp: page_exists_def)
  have kn: "key_ok ?A (fst (nd_items n ! j))" if "j < nd_size n" for j using node_okD(3) [OF tree_invD(2) [OF t(2) n]] that by simp
  have km: "key_ok ?A (fst (nd_items m ! j))" if "j < nd_size m" for j using node_okD(3) [OF tree_invD(2) [OF t(2) m(1)]] that by simp
  have vi: "value_index p m = int i" using value_index_ok [OF m(2-4)] .
  have lo: "\<exists>c. key_cmp st1 (fst (nd_items n ! first)) (fst (nd_items m ! i)) = Some c \<and> \<not> c < 0" if "i \<noteq> 0"
  proof -
    obtain c where c: "key_cmp st1 (fst (nd_items n ! first)) (fst (nd_items m ! i)) = Some c"
      "c < 0 \<longleftrightarrow> key_bound ?A (fst (nd_items n ! first)) < key_bound ?A (fst (nd_items m ! i))"
      using key_cmp_bound [OF kn [OF first] km [OF m(3)]] s1(4) by auto
    have "sh_lo g p = item_bound ?A (nd_items m ! i)" using m(5) child_bounds_nth [of i m ?A g ?q] m(3,7) that by simp
    then show ?thesis using c low by (auto simp: item_bound_fst)
  qed
  have hi: "\<exists>c. key_cmp st1 (fst (nd_items n ! (nd_size n - Suc 0))) (fst (nd_items m ! Suc i)) = Some c \<and> \<not> c \<ge> 0" if "i < nd_size m - 1"
  proof -
    have i: "Suc i < nd_size m" "nd_size n - 1 < nd_size n" using that first by simp_all
    obtain c where c: "key_cmp st1 (fst (nd_items n ! (nd_size n - 1))) (fst (nd_items m ! Suc i)) = Some c"
      "c < 0 \<longleftrightarrow> key_bound ?A (fst (nd_items n ! (nd_size n - 1))) < key_bound ?A (fst (nd_items m ! Suc i))"
      using key_cmp_bound [OF kn [OF i(2)] km [OF i(1)]] s1(4) by auto
    have "sh_hi g p = item_bound ?A (nd_items m ! Suc i)"
      using m(6) child_bounds_nth [of "Suc i" m ?A g ?q] m(7) i(1) t(3) by (simp add: span_hi_def)
    then show ?thesis using c high by (auto simp: item_bound_fst)
  qed
  show ?thesis
    using s1(1-3) False m(1,3) vi lo hi first
    by (auto simp: validate_in_parent_def node_key_at_def Let_def)
qed (simp add: validate_in_parent_def)


lemma node_validate_ok:
  assumes f: "tree_full h N g" and n: "N p = Some n"
  shows "node_validate n"
  using root_parent [OF tree_fullD(2,3) [OF f] n] sizes_okD [OF tree_fullD(4) [OF f] n]
  by (auto simp: node_validate_def node_size_ok_def split: if_splits)

lemma leaf_validate_ok:
  assumes e: "env_ok bp bl st" and f: "tree_full (bt_header st) (bt_nodes st) g" and n: "bt_nodes st p = Some n" "nd_is_leaf n"
  shows "leaf_validate p n st = Some (True, st)"
proof -
  note t = tree_fullD [OF f]
  let ?A = "ih_attrs (bt_header st)"
  have ok: "node_ok ?A (bt_nodes st) g p n" using tree_invD(2) [OF t(2) n(1)] .
  have lo: "leaf_ok ?A (bt_nodes st) g p n" using node_okD(4) [OF ok n(2)] .
  have sz: "0 < nd_size n" using sizes_okD [OF t(4) n(1)] header_okD(4) [OF t(1), of n] n(2) by (auto simp: node_size_ok_def split: if_splits)
  have "keys_ordered st (map fst (nd_items n)) = Some True"
    using lo by (intro items_ordered node_okD(3) [OF ok]) (simp_all add: leaf_ok_def)
  moreover have "validate_in_parent 0 p n st = Some (True, st)" using lo sz by (intro validate_in_parent_ok [OF e f n(1)]) (auto simp: leaf_ok_def)
  ultimately show ?thesis using node_validate_ok [OF f n(1)] by (simp add: leaf_validate_def)
qed

lemma validate_children_ok:
  assumes e: "env_ok bp bl st" and kids: "\<forall>x\<in>set xs. \<exists>c m. snd x = ChildPage c \<and> bt_nodes st c = Some m \<and> nd_parent m = p"
  shows "validate_children p xs st = Some (True, st)"
  using kids
proof (induction xs)
  case (Cons x xs)
  obtain c m where c: "snd x = ChildPage c" "bt_nodes st c = Some m" "nd_parent m = p" using Cons.prems by auto
  obtain st1 where s1: "pool_pin c st = Some (SUCCESS, st1)" "pool_unpin c st1 = Some st" "bt_nodes st1 = bt_nodes st"
    using pin_unpin [OF e, of c] c(2) by (auto simp: page_exists_def)
  show ?case using Cons c s1 by simp
qed simp

lemma internal_validate_ok:
  assumes e: "env_ok bp bl st" and f: "tree_full (bt_header st) (bt_nodes st) g" and n: "bt_nodes st p = Some n" "\<not> nd_is_leaf n"
  shows "internal_validate p n st = Some (True, st)"
proof -
  note t = tree_fullD [OF f]
  let ?A = "ih_attrs (bt_header st)"
  have ok: "node_ok ?A (bt_nodes st) g p n" using tree_invD(2) [OF t(2) n(1)] .
  have io: "internal_ok ?A (bt_nodes st) g p n" using node_okD(5) [OF ok n(2)] .
  have sz: "2 \<le> nd_size n" using sizes_okD [OF t(4) n(1)] header_okD(4) [OF t(1), of n] n(2) by (auto simp: node_size_ok_def split: if_splits)
  have s: "sorted_wrt (<) (sh_lo g p # map (item_bound ?A) (tl (nd_items n)) @ [sh_hi g p])" using internal_okD(3) [OF io] by (simp add: child_bounds_def)
  have tl: "i < nd_size n \<Longrightarrow> 0 < i \<Longrightarrow> nd_items n ! i \<in> set (tl (nd_items n))" for i by (cases "nd_items n"; cases i) auto
  have "keys_ordered st (map fst (drop 1 (nd_items n))) = Some True"
  proof (intro items_ordered node_okD(3) [OF ok])
    show "sorted_wrt (<) (map (item_bound ?A) (drop 1 (nd_items n)))" using s by (simp add: drop_Suc sorted_wrt_append)
  qed (rule in_set_dropD)
  moreover have "validate_children p (nd_items n) st = Some (True, st)"
  proof (rule validate_children_ok [OF e], intro ballI)
    fix x assume "x \<in> set (nd_items n)"
    then obtain i where "i < nd_size n" "x = nd_items n ! i" by (auto simp: in_set_conv_nth)
    then show "\<exists>c m. snd x = ChildPage c \<and> bt_nodes st c = Some m \<and> nd_parent m = p" using internal_okD(4) [OF io, of i] by (auto simp: child_ok_def)
  qed
  moreover have "validate_in_parent 1 p n st = Some (True, st)"
    using s tl [of 1] tl [of "nd_size n - 1"] sz by (intro validate_in_parent_ok [OF e f n(1)]) (auto simp: sorted_wrt_append less_imp_le)
  ultimately show ?thesis using node_validate_ok [OF f n(1)] by (simp add: internal_validate_def)
qed

section \<open>The recursion\<close>

text \<open>A part of the validation: it accepts, and only adds pins to the memo.\<close>

definition accepts :: "BplusTreeHandler \<Rightarrow> (bool \<times> BplusTreeHandler) option \<Rightarrow> bool" where
  "accepts st r \<longleftrightarrow> (\<exists>st'. r = Some (True, st') \<and> step_ok no_pins no_locks 0 st (bt_nodes st) st' \<and> bt_locks st' = bt_locks st)"

lemma acceptsI: "env_ok no_pins no_locks st \<Longrightarrow> accepts st (Some (True, st))"
  by (simp add: accepts_def step_ok_def)

lemma get_page_locks: "get_page p st = Some (rc, st') \<Longrightarrow> bt_locks st' = bt_locks st"
  by (auto simp: get_page_def pool_pin_def pool_outcome_def memo_push_def bind_eq_Some_conv split: list.splits if_splits)

lemma validate_nodes_ok:
  assumes node: "\<And>c m st. env_ok no_pins no_locks st \<Longrightarrow> bt_nodes st = N \<Longrightarrow> bt_header st = h \<Longrightarrow> N c = Some m \<Longrightarrow> sh_lvl g c < depth \<Longrightarrow>
      accepts st (validate_node_recursive depth c st)"
    and e: "env_ok no_pins no_locks st" "bt_nodes st = N" "bt_header st = h" and kids: "\<forall>x\<in>set xs. \<exists>c m. snd x = ChildPage c \<and> N c = Some m \<and> sh_lvl g c < depth"
  shows "accepts st (validate_nodes depth xs st)"
  using e kids
proof (induction xs arbitrary: st)
  case (Cons x xs)
  obtain c m where c: "snd x = ChildPage c" "N c = Some m" "sh_lvl g c < depth" using Cons.prems(4) by auto
  obtain st1 where g1: "get_page c st = Some (SUCCESS, st1)" and s1: "step_ok no_pins no_locks 0 st N st1"
    using get_page_ok [OF Cons.prems(1), of c] c(2) Cons.prems(2) by (auto simp: page_exists_def)
  note d1 = step_okD [OF s1]
  obtain st2 where r: "validate_node_recursive depth c st1 = Some (True, st2)" "step_ok no_pins no_locks 0 st1 N st2" "bt_locks st2 = bt_locks st1"
    using node [OF d1(1,2) _ c(2,3)] d1(2,3) Cons.prems(3) by (auto simp: accepts_def)
  note d2 = step_okD [OF r(2)]
  obtain st3 where v: "validate_nodes depth xs st2 = Some (True, st3)" "step_ok no_pins no_locks 0 st2 N st3" "bt_locks st3 = bt_locks st2"
    using Cons.IH [OF d2(1,2)] d1(3) d2(2,3) Cons.prems(3,4) by (auto simp: accepts_def)
  have "step_ok no_pins no_locks 0 st N st3" using step_ok_trans0 [OF step_ok_trans0 [OF s1 r(2)] v(2)] .
  then show ?case using c(1) g1 r v get_page_locks [OF g1] Cons.prems(2) by (simp add: accepts_def)
qed (simp add: acceptsI)

lemma validate_recursive_ok:
  "env_ok no_pins no_locks st \<Longrightarrow> tree_full (bt_header st) (bt_nodes st) g \<Longrightarrow> bt_nodes st p = Some n \<Longrightarrow> sh_lvl g p < depth \<Longrightarrow>
     accepts st (validate_node_recursive depth p st)"
proof (induction depth arbitrary: st p n)
  case (Suc depth)
  note t = tree_fullD [OF Suc.prems(2)]
  show ?case
  proof (cases "nd_is_leaf n")
    case True
    then show ?thesis using leaf_validate_ok [OF Suc.prems(1-3) True] acceptsI [OF Suc.prems(1)] Suc.prems(3) by simp
  next
    case False
    have io: "internal_ok (ih_attrs (bt_header st)) (bt_nodes st) g p n" using node_okD(5) [OF tree_invD(2) [OF t(2) Suc.prems(3)] False] .
    have "accepts st (validate_nodes depth (nd_items n) st)"
    proof (rule validate_nodes_ok [of "bt_nodes st" "bt_header st" g])
      show "\<forall>x\<in>set (nd_items n). \<exists>c m. snd x = ChildPage c \<and> bt_nodes st c = Some m \<and> sh_lvl g c < depth"
      proof
        fix x assume "x \<in> set (nd_items n)"
        then obtain i where "i < nd_size n" "x = nd_items n ! i" by (auto simp: in_set_conv_nth)
        then show "\<exists>c m. snd x = ChildPage c \<and> bt_nodes st c = Some m \<and> sh_lvl g c < depth"
          using internal_okD(4) [OF io] Suc.prems(4) by (fastforce simp: child_ok_def)
      qed
    qed (use Suc in auto)
    then show ?thesis using internal_validate_ok [OF Suc.prems(1-3) False] Suc.prems(3) False by simp
  qed
qed simp


section \<open>The chain of leaves\<close>

lemma rest_shrinks:
  assumes ok: "leaf_ok A N g p n" and fin: "finite (dom N)" and n: "N p = Some n" "nd_is_leaf n" "0 < nd_size n"
  shows "card (rest A N g p n (nd_size n)) < card (rest A N g p n 0)"
proof (rule psubset_card_mono)
  show "finite (rest A N g p n 0)" using finite_subset [OF rest_subset [of N p n, OF n(1,2)] finite_entries [OF fin]] .
  have "rest A N g p n (nd_size n) \<subseteq> rest A N g p n 0" by (auto simp: rest_def)
  moreover have "fst (nd_items n ! 0) \<in> rest A N g p n 0" using n(3) by (simp add: rest_def)
  moreover have "fst (nd_items n ! 0) \<notin> rest A N g p n (nd_size n)" using ok n(3) by (auto simp: rest_def leaf_ok_def item_bound_fst not_le dest: bspec [of _ _ "nd_items n ! 0"])
  ultimately show "rest A N g p n (nd_size n) \<subset> rest A N g p n 0" by blast
qed

lemma validate_link_ok:
  "env_ok no_pins no_locks st \<Longrightarrow> tree_full (bt_header st) (bt_nodes st) g \<Longrightarrow> bt_nodes st p = Some n \<Longrightarrow> nd_is_leaf n \<Longrightarrow>
     accepts st (validate_link_loop (fst (nd_items n ! (nd_size n - 1))) (nd_next_brother n) st)"
proof (induction "card (rest (ih_attrs (bt_header st)) (bt_nodes st) g p n (nd_size n))" arbitrary: p n st rule: less_induct)
  case less
  note t = tree_fullD [OF less.prems(2)]
  let ?A = "ih_attrs (bt_header st)" and ?N = "bt_nodes st" and ?q = "nd_next_brother n" and ?k = "fst (nd_items n ! (nd_size n - 1))"
  have lo: "leaf_ok ?A ?N g p n" using node_okD(4) [OF tree_invD(2) [OF t(2) less.prems(3)] less.prems(4)] .
  show ?case
  proof (cases "sh_hi g p = MaxB")
    case True
    then show ?thesis using rest_next(1) [OF less.prems(2-4)] acceptsI [OF less.prems(1)] by (simp add: validate_link_loop.simps [of "fst (nd_items n ! (nd_size n - Suc 0))"])
  next
    case False
    obtain m where m: "?q \<noteq> BP_INVALID_PAGE_NUM" "?N ?q = Some m" "nd_is_leaf m" "0 < nd_size m" "rest ?A ?N g p n (nd_size n) = rest ?A ?N g ?q m 0"
      using rest_next(2) [OF less.prems(2-4) False] by blast
    have sq: "sh_lo g ?q = sh_hi g p" using lo False m(2) by (auto simp: leaf_ok_def)
    have okq: "node_ok ?A ?N g ?q m" using tree_invD(2) [OF t(2) m(2)] .
    have lq: "leaf_ok ?A ?N g ?q m" using node_okD(4) [OF okq m(3)] .
    obtain st1 where g1: "get_page ?q st = Some (SUCCESS, st1)" and s1: "step_ok no_pins no_locks 0 st ?N st1"
      using get_page_ok [OF less.prems(1), of ?q] m(2) by (auto simp: page_exists_def)
    note d1 = step_okD [OF s1]
    have n0: "nd_size n - 1 < nd_size n"
      using sizes_okD [OF t(4) less.prems(3)] header_okD(4) [OF t(1), of n] less.prems(4) by (auto simp: node_size_ok_def split: if_splits)
    have ks: "key_ok ?A ?k" "key_ok ?A (fst (nd_items m ! 0))"
      using node_okD(3) [OF tree_invD(2) [OF t(2) less.prems(3)]] node_okD(3) [OF okq] n0 m(4) by simp_all
    obtain c where c: "key_cmp st1 ?k (fst (nd_items m ! 0)) = Some c" "c < 0 \<longleftrightarrow> key_bound ?A ?k < key_bound ?A (fst (nd_items m ! 0))"
      using key_cmp_bound [OF ks] d1(3) by auto
    have "key_bound ?A ?k < sh_hi g p" "sh_lo g ?q \<le> key_bound ?A (fst (nd_items m ! 0))"
      using lo lq n0 m(4) by (auto simp: leaf_ok_def item_bound_fst)
    then have cn: "\<not> c \<ge> 0" using c(2) sq by (simp add: not_le)
    have "accepts st1 (validate_link_loop (fst (nd_items m ! (nd_size m - 1))) (nd_next_brother m) st1)"
      using less.hyps [of st1 ?q m] rest_shrinks [OF lq tree_invD(1) [OF t(2)] m(2-4)] d1(1-3) m(2,3,5) less.prems(2) by simp
    then obtain st2 where r: "validate_link_loop (fst (nd_items m ! (nd_size m - 1))) (nd_next_brother m) st1 = Some (True, st2)"
      "step_ok no_pins no_locks 0 st1 ?N st2" "bt_locks st2 = bt_locks st1" using d1(2) by (auto simp: accepts_def)
    have "validate_link_loop ?k ?q st = Some (True, st2)"
      using m(1,2,4) g1 d1(2) c(1) cn r(1) by (simp add: validate_link_loop.simps [of "fst (nd_items n ! (nd_size n - Suc 0))"] node_key_at_def)
    then show ?thesis using step_ok_trans0 [OF s1 r(2)] r(3) get_page_locks [OF g1] by (simp add: accepts_def)
  qed
qed

section \<open>The height of the tree\<close>

lemma height_entries:
  assumes f: "tree_full h N g"
  shows "N p = Some n \<Longrightarrow> 2 ^ sh_lvl g p \<le> card {k \<in> entries N. in_range g p (key_bound (ih_attrs h) k)}"
proof (induction "sh_lvl g p" arbitrary: p n)
  note t = tree_fullD [OF f]
  let ?A = "ih_attrs h" let ?S = "\<lambda>p. {k \<in> entries N. in_range g p (key_bound ?A k)}"
  have fin: "finite (?S p)" for p using finite_entries [OF tree_invD(1) [OF t(2)]] by simp
  have sz: "(if nd_is_leaf n then 1 else 2) \<le> nd_size n" if "N p = Some n" for p n
    using sizes_okD [OF t(4) that] header_okD(4) [OF t(1), of n] by (auto simp: node_size_ok_def split: if_splits)
  {
    case 0
    have l: "nd_is_leaf n" using leaf_level [OF t(2) 0(2)] 0(1) by simp
    then have "0 < nd_size n" using sz [OF 0(2)] by (simp only: if_True)
    then have "fst (nd_items n ! 0) \<in> leaf_keys n" using l by (simp add: leaf_keys_def)
    then have "fst (nd_items n ! 0) \<in> ?S p" using leaf_keys_range(2) [OF t(2) 0(2)] entries_split [of N p n, OF 0(2)] by auto
    then have "0 < card (?S p)" using fin card_gt_0_iff by blast
    then show ?case using 0(1) by simp
  next
    case (Suc l)
    have nl: "\<not> nd_is_leaf n" using leaf_level [OF t(2) Suc(3)] Suc(2) by simp
    have io: "internal_ok ?A N g p n" using node_okD(5) [OF tree_invD(2) [OF t(2) Suc(3)] nl] .
    have two: "2 \<le> nd_size n" using sz [OF Suc(3)] nl by simp
    have child: "\<exists>c m. N c = Some m \<and> 2 ^ l \<le> card (?S c) \<and> ?S c \<subseteq> ?S p \<and>
        (\<forall>k\<in>?S c. child_bounds ?A g p n ! i \<le> key_bound ?A k \<and> key_bound ?A k < child_bounds ?A g p n ! Suc i)" if i: "i < nd_size n" for i
    proof -
      obtain c m where c: "N c = Some m" "sh_lvl g p = Suc (sh_lvl g c)" "sh_lo g c = child_bounds ?A g p n ! i" "sh_hi g c = child_bounds ?A g p n ! Suc i"
        using internal_okD(4) [OF io i] t(3) by (auto simp: child_ok_def span_hi_def)
      have "2 ^ l \<le> card (?S c)" using Suc(1) [of c m] Suc(2) c(1,2) by simp
      moreover have "?S c \<subseteq> ?S p" using child_bounds_range [OF io i] c(3,4) by (auto simp: in_range_def)
      moreover have "\<forall>k\<in>?S c. child_bounds ?A g p n ! i \<le> key_bound ?A k \<and> key_bound ?A k < child_bounds ?A g p n ! Suc i"
        using c(3,4) by (simp add: in_range_def)
      ultimately show ?thesis using c(1) by blast
    qed
    have i2: "0 < nd_size n" "1 < nd_size n" using two by linarith+
    obtain a where a: "2 ^ l \<le> card (?S a)" "?S a \<subseteq> ?S p" "\<forall>k\<in>?S a. child_bounds ?A g p n ! 0 \<le> key_bound ?A k \<and> key_bound ?A k < child_bounds ?A g p n ! Suc 0"
      using child [OF i2(1)] by blast
    obtain b where b: "2 ^ l \<le> card (?S b)" "?S b \<subseteq> ?S p" "\<forall>k\<in>?S b. child_bounds ?A g p n ! 1 \<le> key_bound ?A k \<and> key_bound ?A k < child_bounds ?A g p n ! Suc 1"
      using child [OF i2(2)] by blast
    have "?S a \<inter> ?S b = {}"
    proof (intro equals0I)
      fix k assume "k \<in> ?S a \<inter> ?S b"
      then have k: "k \<in> ?S a" "k \<in> ?S b" by blast+
      note ka = bspec [OF a(3) k(1)] and kb = bspec [OF b(3) k(2)]
      show False using child_bounds_disjoint [OF io i2, of "key_bound ?A k"] ka kb by simp
    qed
    then have "card (?S a \<union> ?S b) = card (?S a) + card (?S b)" using fin by (intro card_Un_disjoint) auto
    moreover have "card (?S a \<union> ?S b) \<le> card (?S p)" using a(2) b(2) fin by (intro card_mono) auto
    ultimately show ?case using a(1) b(1) Suc(2) [symmetric] by simp
  }
qed

lemma tree_height:
  assumes f: "tree_full h N g"
  shows "2 ^ sh_lvl g (ih_root_page h) \<le> card (entries N)"
proof -
  note t = tree_fullD [OF f]
  obtain n where n: "N (ih_root_page h) = Some n" using tree_invD(3) [OF t(2)] by auto
  have "card {k \<in> entries N. in_range g (ih_root_page h) (key_bound (ih_attrs h) k)} \<le> card (entries N)"
    using finite_entries [OF tree_invD(1) [OF t(2)]] by (intro card_mono) auto
  then show ?thesis using height_entries [OF f n] by simp
qed


section \<open>The whole validation\<close>

lemma validate_tree_ok:
  assumes inv: "index_inv st" and depth: "card (entries (bt_nodes st)) < 2 ^ depth"
  shows "\<exists>st'. validate_tree depth st = Some (True, st') \<and> index_inv st' \<and> bt_nodes st' = bt_nodes st"
proof (cases "is_empty st")
  case False
  note d = index_invD [OF inv]
  let ?st0 = "mtr_begin st" and ?N = "bt_nodes st" and ?r = "ih_root_page (bt_header st)"
  obtain g where f: "tree_full (bt_header st) ?N g" using d(4) [OF False] by blast
  note t = tree_fullD [OF f]
  obtain n where n: "?N ?r = Some n" using tree_invD(3) [OF t(2)] by auto
  have "(2::nat) ^ sh_lvl g ?r < 2 ^ depth" using tree_height [OF f] depth by linarith
  then have lvl: "sh_lvl g ?r < depth" by (rule power_less_imp_less_exp [rotated]) simp
  obtain st1 where g1: "get_page ?r ?st0 = Some (SUCCESS, st1)" and s1: "step_ok no_pins no_locks 0 ?st0 ?N st1"
    using get_page_ok [OF d(5), of ?r] n by (auto simp: page_exists_def)
  note d1 = step_okD [OF s1]
  have "accepts st1 (validate_node_recursive depth ?r st1)"
    using validate_recursive_ok [OF d1(1), of g ?r n depth] f n lvl d1(2,3) by simp
  then obtain st2 where r2: "validate_node_recursive depth ?r st1 = Some (True, st2)" and s2: "step_ok no_pins no_locks 0 st1 ?N st2"
    and l2: "bt_locks st2 = bt_locks st1" using d1(2) by (auto simp: accepts_def)
  note d2 = step_okD [OF s2]
  have h2: "bt_header st2 = bt_header st" using d1(3) d2(3) by simp
  have "bt_locks st2 RootLock = 0" using l2 get_page_locks [OF g1] quietD(3) [OF d(1)] by simp
  then obtain q st3 m where q: "left_most_page st2 = Some (SUCCESS, q, st3)" and s3: "step_ok no_pins no_locks 0 st2 ?N st3"
    and m: "?N q = Some m" "nd_is_leaf m" "sh_lo g q = MinB"
    using left_most_ok [OF d2(1), of g] t(2,3) h2 d2(2) by auto
  note d3 = step_okD [OF s3]
  have h3: "bt_header st3 = bt_header st" using h2 d3(3) by simp
  have m0: "0 < nd_size m" using rest_all(2) [OF f m] .
  have "accepts st3 (validate_link_loop (fst (nd_items m ! (nd_size m - 1))) (nd_next_brother m) st3)"
    using validate_link_ok [OF d3(1), of g q m] f m h3 d3(2) by simp
  then obtain st4 where r4: "validate_link_loop (fst (nd_items m ! (nd_size m - 1))) (nd_next_brother m) st3 = Some (True, st4)"
    and s4: "step_ok no_pins no_locks 0 st3 ?N st4" using d3(2) by (auto simp: accepts_def)
  note d4 = step_okD [OF s4]
  have "validate_leaf_link st2 = Some (True, st4)"
    using False h2 q m(1) d3(2) m0 r4 by (simp add: validate_leaf_link_def is_empty_def node_key_at_def)
  moreover obtain st5 where m5: "mtr_end SUCCESS st4 = Some st5" and en: "ends_in st4 st5" using mtr_end_ok [OF d4(1)] by blast
  ultimately have "validate_tree depth st = Some (True, st5)" using False g1 d1(3) r2 by (simp add: validate_tree_def)
  moreover have "bt_nodes st5 = ?N" "bt_header st5 = bt_header st" "quiet st5"
    using ends_inD [OF en] d4(2,3,6) h3 d3(6) d2(6) d1(6) by auto
  moreover from this have "index_inv st5" using inv by (simp add: index_inv_def is_empty_def)
  ultimately show ?thesis by blast
qed (use inv in \<open>simp add: validate_tree_def\<close>)

text \<open>
  C13. After any sequence of insertions and deletions the code's own check of the tree succeeds: keys
  in order in every node and against the parent, parents of all children, the chain of leaves. It
  returns, with a recursion at most as deep as the logarithm of the number of entries, and leaves
  the index as it was.\<close>

theorem bplus_validates:
  assumes "bplus_inv A st" "allowed_run bplus_step (bplus_ready A) xs st"
  shows "\<exists>rcs st'. run_ops bplus_step xs st = Some (rcs, st') \<and> (\<forall>depth. card (bplus_keys st') < 2 ^ depth \<longrightarrow>
     (\<exists>st''. validate_tree depth st' = Some (True, st'') \<and> index_inv st'' \<and> bplus_keys st'' = bplus_keys st'))"
proof -
  obtain rcs st' where s: "run_ops bplus_step xs st = Some (rcs, st')" "index_inv st'"
    using bplus.run_index [OF assms] by (auto simp: bplus_inv_def)
  have "\<exists>st''. validate_tree depth st' = Some (True, st'') \<and> index_inv st'' \<and> bplus_keys st'' = bplus_keys st'"
    if "card (bplus_keys st') < 2 ^ depth" for depth
    using validate_tree_ok [OF s(2), of depth] that unfolding bplus_keys_def by metis
  then show ?thesis using s(1) by blast
qed

theorem bplus_validates_witness:
  "\<exists>rcs st' st''. run_ops bplus_step ex_ops ex_index = Some (rcs, st') \<and> validate_tree 1 st' = Some (True, st'')"
proof -
  obtain rcs st' where r: "run_ops bplus_step ex_ops ex_index = Some (rcs, st')" and v: "\<And>depth. card (bplus_keys st') < 2 ^ depth \<Longrightarrow>
     \<exists>st''. validate_tree depth st' = Some (True, st'')"
    using bplus_validates [OF ex_index_inv(1) ex_ops_ready] by blast
  have "bplus_keys st' = {}"
    using bplus.run_index [OF ex_index_inv(1) ex_ops_ready] r ex_ranks by (auto simp: ex_ops_def ex_index_inv(3) has_rank_def)
  then show ?thesis using r v [of 1] by simp
qed

end
