(* ===== verification/BplusUnique.thy ===== *)
theory BplusUnique
  imports BplusValidate
begin

text \<open>
  The check for duplicates of a unique index. When the first entry of the user key is the first
  entry of its leaf, the search for the key with the least record id ends in the leaf before; the
  check goes on to the next page but compares the first key of the leaf it has left. The page it
  went on to stays pinned.
\<close>

lemma memo_release_pins:
  assumes "env_ok bp bl st" "mx_disposed (bt_mtr st) = []"
  shows "\<exists>st'. memo_release st = Some st' \<and> step_ok bp bl 0 st (bt_nodes st) st' \<and> mx_items (bt_mtr st') = []"
proof -
  obtain st1 where r: "release_to (length (mx_items (bt_mtr st))) st = Some st1" and s: "step_ok bp bl 0 st (bt_nodes st) st1"
    and i: "mx_items (bt_mtr st1) = []" using release_to_ok [OF assms(1), of "length (mx_items (bt_mtr st))"] by auto
  have "mx_disposed (bt_mtr st1) = []" using step_okD(6) [OF s] assms(2) by simp
  then have "memo_release st = Some (mtr_update (mx_disposed_update (\<lambda>_. [])) st1)" using r by (simp add: memo_release_def)
  moreover have "env_ok bp bl (mtr_update (mx_disposed_update (\<lambda>_. [])) st1)" using step_okD(1) [OF s] by (simp add: env_ok_def page_exists_def)
  then have "step_ok bp bl 0 st (bt_nodes st) (mtr_update (mx_disposed_update (\<lambda>_. [])) st1)"
    using s assms(2) by (simp add: step_ok_def)
  ultimately show ?thesis using i by auto
qed

lemma mtr_end_pins:
  assumes "env_ok bp bl st" "mx_disposed (bt_mtr st) = []"
  shows "\<exists>st'. mtr_end SUCCESS st = Some st' \<and> step_ok bp bl 0 st (bt_nodes st) st' \<and> mx_items (bt_mtr st') = []"
proof -
  have c: "env_ok bp bl (mtr_commit (mtr_commit st))" using commit_ok(1) assms(1) by blast
  obtain st' where "memo_release (mtr_commit (mtr_commit st)) = Some st'" "step_ok bp bl 0 (mtr_commit (mtr_commit st)) (bt_nodes st) st'" "mx_items (bt_mtr st') = []"
    using memo_release_pins [OF c] assms(2) by (auto simp: commit_ok)
  then show ?thesis by (auto simp: mtr_end_def step_ok_def commit_ok)
qed

text \<open>The check itself, on the state in which the insertion starts.\<close>

lemma try_insert_missed:
  assumes q: "quiet st" and f: "tree_full (bt_header st) (bt_nodes st) g" and n: "bt_nodes st p = Some n" "nd_is_leaf n"
    and key: "key_ok (ih_attrs (bt_header st)) (u, RID_min)" "in_range g p (key_bound (ih_attrs (bt_header st)) (u, RID_min))"
    and past: "\<forall>x\<in>set (nd_items n). item_bound (ih_attrs (bt_header st)) x < key_bound (ih_attrs (bt_header st)) (u, RID_min)"
    and next_leaf: "nd_next_brother n \<noteq> BP_INVALID_PAGE_NUM" and other: "0 < nd_size n" "fst (fst (nd_items n ! 0)) \<noteq> u"
  shows "\<exists>st'. try_insert_entry u (mtr_begin st) = Some (SUCCESS, st') \<and>
     step_ok (no_pins(nd_next_brother n := 1)) no_locks 0 (mtr_begin st) (bt_nodes st) st' \<and> bt_mtr st' = MiniTransaction_new"
proof -
  note t = tree_fullD [OF f]
  let ?st0 = "mtr_begin st" and ?N = "bt_nodes st" and ?A = "ih_attrs (bt_header st)" and ?k = "(u, RID_min)" and ?q = "nd_next_brother n"
  let ?bp = "no_pins(?q := 1)"
  have e: "env_ok no_pins no_locks ?st0" using q by (simp add: quiet_def)
  have mk: "make_key u RID_min ?st0 = Some ?k" using key(1) header_okD(2) [OF t(1)] by (intro make_key_ok) (simp add: key_ok_def)
  have mm: "mtr_begin ?st0 = ?st0" by (simp add: mtr_begin_def)
  obtain p' st1 n' where fl: "find_leaf OP_INSERT_ENTRY ?k ?st0 = Some (SUCCESS, p', st1)" and s1: "step_ok no_pins no_locks 0 ?st0 ?N st1"
    and n': "?N p' = Some n'" "nd_is_leaf n'" "in_range g p' (key_bound ?A ?k)"
    using find_leaf_ok [OF e, of g ?k OP_INSERT_ENTRY] t(2,3) key(1) quietD(3) [OF q] by auto
  note d1 = step_okD [OF s1]
  have pp: "p' = p" using level_unique [OF t(2,3), of p' p "key_bound ?A ?k"] leaf_level [OF t(2)] n n' key(2) by simp
  have nn: "n' = n" using n(1) n'(1) pp by simp
  have "item_pos ?A ?k (nd_items n) = nd_size n" using past by (simp add: item_pos_def takeWhile_eq_all_conv [THEN iffD2])
  then have lk: "\<exists>b. leaf_lookup st1 ?k n = Some (nd_size n, b)"
    using leaf_lookup_ok [of st1 ?N g p n ?k] tree_invD(2) [OF t(2) n(1)] d1(3) n(2) key(1) by simp
  have lo: "leaf_ok ?A ?N g p n" using node_okD(4) [OF tree_invD(2) [OF t(2) n(1)] n(2)] .
  then obtain m where m: "?N ?q = Some m" using next_leaf by (auto simp: leaf_ok_def split: if_splits)
  let ?st2 = "st1\<lparr>bt_pins := (bt_pins st1)(?q := bt_pins st1 ?q + 1)\<rparr>"
  have pin: "pool_pin ?q st1 = Some (SUCCESS, ?st2)"
    using env_okD(1) [OF d1(1)] m d1(2) by (simp add: pool_pin_def pool_outcome_def page_exists_def)
  have e2: "env_ok ?bp no_locks ?st2" using d1(1,2) m by (auto simp: env_ok_def page_exists_def)
  obtain st3 where m3: "mtr_end SUCCESS ?st2 = Some st3" and s3: "step_ok ?bp no_locks 0 ?st2 ?N st3" and i3: "mx_items (bt_mtr st3) = []"
    using mtr_end_pins [OF e2] d1(2,6) by auto
  have "try_insert_entry u ?st0 = Some (SUCCESS, st3\<lparr>bt_mtr := MiniTransaction_new\<rparr>)"
    using mk mm fl pp lk d1(2) n(1) next_leaf pin other m3
    by (auto simp: try_insert_entry_def node_key_at_def mtr_begin_def)
  moreover have "step_ok ?bp no_locks 0 ?st0 ?N (st3\<lparr>bt_mtr := MiniTransaction_new\<rparr>)"
    using s3 i3 d1 m by (auto simp: step_ok_def env_ok_def page_exists_def MiniTransaction_new_def)
  ultimately show ?thesis by auto
qed

lemma unique_missed:
  assumes inv: "index_inv st" and f: "tree_full (bt_header st) (bt_nodes st) g" and n: "bt_nodes st p = Some n" "nd_is_leaf n"
    and key: "key_ok (ih_attrs (bt_header st)) (u, RID_min)" "in_range g p (key_bound (ih_attrs (bt_header st)) (u, RID_min))"
    and past: "\<forall>x\<in>set (nd_items n). item_bound (ih_attrs (bt_header st)) x < key_bound (ih_attrs (bt_header st)) (u, RID_min)"
    and next_leaf: "nd_next_brother n \<noteq> BP_INVALID_PAGE_NUM" and other: "0 < nd_size n" "fst (fst (nd_items n ! 0)) \<noteq> u"
    and new: "key_ok (ih_attrs (bt_header st)) (u, rid)" "\<not> has_key st (u, rid)" and ne: "\<not> is_empty st" and uni: "ih_unique (bt_header st) = 1"
    and room: "bt_page_count st + card (dom (bt_nodes st)) + 1 \<le> bt_max_pages st"
  shows "\<exists>st'. insert_entry u rid False st = Some (SUCCESS, st') \<and> entries (bt_nodes st') = insert (u, rid) (entries (bt_nodes st)) \<and>
     bt_pins st' (nd_next_brother n) = 1"
proof -
  note t = tree_fullD [OF f]
  let ?st0 = "mtr_begin st" and ?N = "bt_nodes st" and ?A = "ih_attrs (bt_header st)" and ?k = "(u, rid)" and ?q = "nd_next_brother n"
  let ?bp = "no_pins(?q := 1)"
  obtain st1 where t1: "try_insert_entry u ?st0 = Some (SUCCESS, st1)" and s1: "step_ok ?bp no_locks 0 ?st0 ?N st1" and m1: "bt_mtr st1 = MiniTransaction_new"
    using try_insert_missed [OF index_invD(1) [OF inv] f n key past next_leaf other] by blast
  note d1 = step_okD [OF s1]
  have mk: "make_key u rid st = Some ?k" using new(1) header_okD(2) [OF t(1)] by (intro make_key_ok) (simp add: key_ok_def)
  have "bt_locks st1 RootLock = 0" using env_okD(5) [OF d1(1), of RootLock] m1 by (simp add: MiniTransaction_new_def)
  then obtain r st2 m where fl: "find_leaf OP_INSERT_ENTRY ?k st1 = Some (SUCCESS, r, st2)" and s2: "step_ok ?bp no_locks 0 st1 ?N st2"
    and m: "?N r = Some m" "nd_is_leaf m" "in_range g r (key_bound ?A ?k)"
    using find_leaf_ok [OF d1(1), of g ?k OP_INSERT_ENTRY] t(2,3) d1(2,3) new(1) by auto
  note d2 = step_okD [OF s2]
  have nf: "key_bound ?A ?k \<notin> item_bound ?A ` set (nd_items m)" using leaf_has_key [OF t(2,3) m] new(2) by (simp add: has_key_bound)
  have r: "bt_page_count st2 + (sh_lvl g (ih_root_page (bt_header st)) + 2) \<le> bt_max_pages st2"
    using room d1(4,5) d2(4,5) level_card [OF t(2)] by simp
  have h2: "bt_header st2 = bt_header st" using d1(3) d2(3) by simp
  obtain st3 N r' k where i: "insert_entry_into_leaf_node r ?k rid st2 = Some (SUCCESS, st3)" and s3: "tree_step ?bp no_locks k st2 N r' st3"
    and fin: "insert_done ?A (bt_header st) (insert ?k (entries ?N)) N r'"
    using insert_leaf_ok [OF d2(1), of g r m ?k rid] h2 d2(2) f m new(1) nf r by auto
  note d3 = tree_stepD [OF s3]
  have "mx_disposed (bt_mtr st3) = []" using d3(6) d2(6) m1 by (simp add: MiniTransaction_new_def)
  then obtain st4 where m4: "mtr_end SUCCESS st3 = Some st4" and s4: "step_ok ?bp no_locks 0 st3 N st4" and i4: "mx_items (bt_mtr st4) = []"
    using mtr_end_pins [OF d3(1)] d3(2) by auto
  have N: "entries N = insert ?k (entries ?N)" using fin by (auto simp: insert_done_def)
  have "insert_entry u rid False st = Some (SUCCESS, st4)" using mk ne uni t1 fl i m4 by (simp add: insert_entry_def Let_def)
  moreover have "bt_pins st4 ?q = 1" using env_okD(4) [OF step_okD(1) [OF s4], of ?q] i4 by simp
  ultimately show ?thesis using step_okD(2) [OF s4] N by auto
qed


section \<open>A unique index with two leaves\<close>

definition ukey :: "byte \<Rightarrow> int \<Rightarrow> index_key" where
  "ukey b s = ([b, 0, 0, 0], RID 1 s)"

definition uitem :: "byte \<Rightarrow> int \<Rightarrow> item" where
  "uitem b s = (ukey b s, RecordValue (RID 1 s))"

definition uheader :: IndexFileHeader where
  "uheader = (index_header ints 1 6 4)\<lparr>ih_root_page := 4\<rparr>"

definition uleft :: IndexNode where
  "uleft = \<lparr>nd_is_leaf = True, nd_parent = 4, nd_next_brother = 3, nd_items = [uitem 1 1, uitem 2 2]\<rparr>"

definition uright :: IndexNode where
  "uright = \<lparr>nd_is_leaf = True, nd_parent = 4, nd_next_brother = BP_INVALID_PAGE_NUM, nd_items = [uitem 3 3, uitem 4 4, uitem 5 5]\<rparr>"

definition uroot :: IndexNode where
  "uroot = \<lparr>nd_is_leaf = False, nd_parent = BP_INVALID_PAGE_NUM, nd_next_brother = 0,
     nd_items = [(zero_key uheader, ChildPage 2), (ukey 3 3, ChildPage 3)]\<rparr>"

definition unodes :: nodes where
  "unodes = [2 \<mapsto> uleft, 3 \<mapsto> uright, 4 \<mapsto> uroot]"

definition uindex :: BplusTreeHandler where
  "uindex = (new_pool 100)\<lparr>bt_header := uheader, bt_header_page := uheader, bt_nodes := unodes, bt_page_count := 5\<rparr>"

definition ushape :: tree_shape where
  "ushape = \<lparr>sh_lo = (\<lambda>p. if p = 3 then key_bound ints (ukey 3 3) else MinB), sh_hi = (\<lambda>p. if p = 2 then key_bound ints (ukey 3 3) else MaxB),
     sh_lvl = (\<lambda>p. if p = 4 then 1 else 0), sh_pend = Map.empty\<rparr>"

lemma uitem_simps [simp]: "fst (uitem b s) = ukey b s" "snd (uitem b s) = RecordValue (RID 1 s)" "snd (ukey b s) = RID 1 s"
  by (simp_all add: uitem_def ukey_def)

lemma ukey_ok: "0 \<le> s \<Longrightarrow> s < 100 \<Longrightarrow> key_ok ints (ukey b s)"
  by (simp add: ukey_def ex_key_ok)

lemma ukey_bound: "key_bound ints (ukey b s) = At ([[uint b]], 1, s)"
proof -
  have "0 \<le> uint b" "uint b < 256" using uint_lt2p [of b] by simp_all
  then show ?thesis by (simp add: key_bound_def key_rank_def ukey_def ints_def attr_rank_def dec32_def to_int32_def RID_def)
qed

lemma uitem_bound: "item_bound ints (uitem b s) = At ([[uint b]], 1, s)"
  by (simp add: item_bound_fst uitem_def ukey_bound)

lemma uheader_ok: "header_ok uheader" "ih_attrs uheader = ints" "ih_root_page uheader = 4" "ih_unique uheader = 1"
  by (simp_all add: header_ok_def uheader_def index_header_def Let_def ints_def ordered_attr_def node_capacity_def BP_PAGE_DATA_SIZE_value)

lemma unodes_cases: "unodes p = Some n \<Longrightarrow> p = 2 \<and> n = uleft \<or> p = 3 \<and> n = uright \<or> p = 4 \<and> n = uroot"
  by (auto simp: unodes_def split: if_splits)

lemma ushape_simps: "sh_lo ushape 2 = MinB" "sh_hi ushape 2 = At ([[3]], 1, 3)" "sh_lo ushape 3 = At ([[3]], 1, 3)" "sh_hi ushape 3 = MaxB"
  "sh_lo ushape 4 = MinB" "sh_hi ushape 4 = MaxB" "sh_lvl ushape 2 = 0" "sh_lvl ushape 3 = 0" "sh_lvl ushape 4 = 1" "sh_pend ushape = Map.empty"
  "span_hi ushape p = sh_hi ushape p"
  by (simp_all add: ushape_def ukey_bound span_hi_def)

lemma zero_bound: "key_ok ints (zero_key uheader)"
  using key_ok_zero [OF uheader_ok(1)] uheader_ok(2) by simp

lemma unode_ok: "unodes p = Some n \<Longrightarrow> node_ok ints unodes ushape p n"
proof -
  have N: "unodes 2 = Some uleft" "unodes 3 = Some uright" "unodes 4 = Some uroot" by (simp_all add: unodes_def)
  have "node_ok ints unodes ushape 2 uleft" "node_ok ints unodes ushape 3 uright"
    using N by (auto simp: node_ok_def leaf_ok_def uleft_def uright_def ushape_simps uitem_bound BP_INVALID_PAGE_NUM_def ukey_ok)
  moreover have "node_ok ints unodes ushape 4 uroot"
    using N by (auto simp: node_ok_def internal_ok_def uroot_def ushape_simps child_bounds_def item_bound_fst ukey_bound zero_bound ukey_ok
      child_ok_def nth_Cons less_Suc_eq uleft_def uright_def split: nat.splits)
  moreover assume "unodes p = Some n"
  ultimately show ?thesis using unodes_cases by blast
qed

lemma utree_full: "tree_full uheader unodes ushape"
proof -
  have N: "unodes 2 = Some uleft" "unodes 3 = Some uright" "unodes 4 = Some uroot" by (simp_all add: unodes_def)
  have "tree_inv ints unodes 4 ushape"
  proof (rule tree_invI)
    show "finite (dom unodes)" by (simp add: unodes_def)
    show "\<exists>n. unodes 4 = Some n \<and> nd_parent n = BP_INVALID_PAGE_NUM" using N(3) by (simp add: uroot_def)
    show "is_child unodes (nd_parent n) p" if "unodes p = Some n" "p \<noteq> 4" for p n
      using unodes_cases [OF that(1)] that(2) N(3) by (auto simp: is_child_def uleft_def uright_def uroot_def)
  qed (simp_all add: unode_ok ushape_simps)
  moreover have "sizes_ok uheader 4 unodes"
    using unodes_cases by (fastforce simp: sizes_ok_def node_size_ok_def max_size_def uleft_def uright_def uroot_def uheader_def index_header_def Let_def)
  ultimately show ?thesis using uheader_ok by (simp add: tree_full_def ushape_simps)
qed

lemma uindex_inv: "index_inv uindex" "\<not> is_empty uindex" "bt_nodes uindex = unodes" "bt_header uindex = uheader"
proof -
  show f: "bt_nodes uindex = unodes" "bt_header uindex = uheader" by (simp_all add: uindex_def)
  show e: "\<not> is_empty uindex" using f uheader_ok(3) by (simp add: is_empty_def BP_INVALID_PAGE_NUM_def)
  have "quiet uindex" using unodes_cases
    by (auto simp: quiet_def env_ok_def mtr_begin_def MiniTransaction_new_def uindex_def new_pool_def dest!: unodes_cases)
  then show "index_inv uindex" using e f utree_full uheader_ok(1) by (auto simp: index_inv_def)
qed

lemma uentries: "entries unodes = {ukey 1 1, ukey 2 2, ukey 3 3, ukey 4 4, ukey 5 5}"
proof -
  have "ran unodes = {uleft, uright, uroot}" by (simp add: unodes_def insert_commute)
  then show ?thesis by (simp add: entries_def leaf_keys_def uleft_def uright_def uroot_def) blast
qed

text \<open>
  C28. A unique index accepts a second record with the same key: there is an index in order, with the
  unique flag, that has an entry for the user key, and \<open>insert_entry\<close> of that user key with another
  record id succeeds and adds it. The page of the entry stays pinned for good.\<close>

theorem unique_index_duplicate:
  "\<exists>st st' u rid rid' q. index_inv st \<and> ih_unique (bt_header st) = 1 \<and> (u, rid) \<in> entries (bt_nodes st) \<and> rid \<noteq> rid' \<and>
     insert_entry u rid' False st = Some (SUCCESS, st') \<and> {(u, rid), (u, rid')} \<subseteq> entries (bt_nodes st') \<and> bt_pins st' q = 1"
proof -
  let ?u = "[3, 0, 0, 0] :: byte list"
  have k: "?u = fst (ukey 3 s)" for s by (simp add: ukey_def)
  have km: "(?u, RID_min) = ([3, 0, 0, 0], RID 0 0)" by (simp add: RID_min_def)
  have kb: "key_bound ints (?u, RID_min) = At ([[3]], 0, 0)"
    by (simp add: key_bound_def key_rank_def ints_def attr_rank_def dec32_def to_int32_def RID_def RID_min_def)
  have kn: "(?u, RID 1 9) = ukey 3 9" by (simp add: ukey_def)
  have nk: "\<not> has_key uindex (ukey 3 9)"
    unfolding has_key_bound uindex_inv uheader_ok(2) uentries by (simp add: ukey_bound)
  have "\<exists>st'. insert_entry ?u (RID 1 9) False uindex = Some (SUCCESS, st') \<and> entries (bt_nodes st') = insert (?u, RID 1 9) (entries (bt_nodes uindex)) \<and>
      bt_pins st' (nd_next_brother uleft) = 1"
  proof (rule unique_missed [OF uindex_inv(1), of ushape 2 uleft], unfold uindex_inv uheader_ok kb)
    show "tree_full uheader unodes ushape" by (rule utree_full)
    show "key_ok ints (?u, RID_min)" unfolding km by (rule ex_key_ok) simp_all
    show "in_range ushape 2 (At ([[3]], 0, 0))" by (simp add: in_range_def ushape_simps)
    show "\<forall>x\<in>set (nd_items uleft). item_bound ints x < At ([[3]], 0, 0)" by (simp add: uleft_def uitem_bound)
    show "bt_page_count uindex + card (dom unodes) + 1 \<le> bt_max_pages uindex" by (simp add: uindex_def new_pool_def unodes_def)
    show "key_ok ints (?u, RID 1 9)" "\<not> has_key uindex (?u, RID 1 9)" using kn nk ukey_ok by simp_all
  qed (simp_all add: unodes_def uleft_def BP_INVALID_PAGE_NUM_def uitem_def ukey_def uindex_inv)
  then obtain st' where "insert_entry ?u (RID 1 9) False uindex = Some (SUCCESS, st')" "entries (bt_nodes st') = insert (?u, RID 1 9) (entries unodes)"
    "bt_pins st' 3 = 1" using uindex_inv(3) by (auto simp: uleft_def)
  moreover have "(?u, RID 1 3) \<in> entries unodes" "RID 1 3 \<noteq> RID 1 9" by (simp_all add: uentries ukey_def RID_def)
  ultimately show ?thesis using uindex_inv(1,3,4) uheader_ok(4) by (intro exI [of _ uindex] exI [of _ st'] exI [of _ ?u]) auto
qed

end
