(* ===== verification/BplusLog.thy ===== *)
theory BplusLog
  imports BplusTree
begin

text \<open>
  The log records of the B+-tree as bytes (\<open>lang/serializer.cpp\<close>, \<open>bplus_tree_log_entry.cpp\<close>,
  \<open>bplus_tree_log.cpp\<close>): how the entries of a mini transaction are written into one record and how a
  replay reads them back and redoes them on the pages whose LSN is older.

  A buffer is the list of the bytes that are left. An entry that has been read carries its page and
  the bytes of its key or items, which only the redo takes apart, with the lengths of the tree's
  header and, for items, the kind of the node. The undo information is not in the log.
\<close>

section \<open>Serializer and deserializer\<close>

definition write_int32 :: "int \<Rightarrow> byte list \<Rightarrow> byte list" where
  "write_int32 x buffer = buffer @ enc32 x"

definition read_bytes :: "nat \<Rightarrow> byte list \<Rightarrow> (byte list \<times> byte list) option" where
  "read_bytes n buffer = (if n > length buffer then None else Some (take n buffer, drop n buffer))"

definition read_int32 :: "byte list \<Rightarrow> (int \<times> byte list) option" where
  "read_int32 buffer = map_option (apfst dec32) (read_bytes 4 buffer)"

section \<open>Writing\<close>

definition enc_key :: "index_key \<Rightarrow> byte list" where
  "enc_key k = fst k @ enc32 (page_num (snd k)) @ enc32 (slot_num (snd k))"

definition enc_item :: "item \<Rightarrow> byte list" where
  "enc_item x = enc_key (fst x) @ (case snd x of RecordValue r \<Rightarrow> enc32 (page_num r) @ enc32 (slot_num r) | ChildPage c \<Rightarrow> enc32 c)"

fun operation_index :: "LogEntryHandler \<Rightarrow> int" where
  "operation_index (UpdateRootPage root old) = 1"
| "operation_index (SetParentPage p parent old) = 2"
| "operation_index (LeafInitEmpty p) = 3"
| "operation_index (LeafSetNextPage p next_page old) = 4"
| "operation_index (InternalInitEmpty p) = 5"
| "operation_index (InternalCreateNewRoot p first_page_num key child) = 6"
| "operation_index (InternalUpdateKey p index key old) = 7"
| "operation_index (NodeInsert p index items) = 8"
| "operation_index (NodeRemove p index items) = 9"

fun entry_page :: "LogEntryHandler \<Rightarrow> PageNum" where
  "entry_page (UpdateRootPage root old) = FIRST_INDEX_PAGE"
| "entry_page (SetParentPage p parent old) = p"
| "entry_page (LeafInitEmpty p) = p"
| "entry_page (LeafSetNextPage p next_page old) = p"
| "entry_page (InternalInitEmpty p) = p"
| "entry_page (InternalCreateNewRoot p first_page_num key child) = p"
| "entry_page (InternalUpdateKey p index key old) = p"
| "entry_page (NodeInsert p index items) = p"
| "entry_page (NodeRemove p index items) = p"

definition items_body :: "nat \<Rightarrow> item list \<Rightarrow> byte list" where
  "items_body index items = (let bs = concat (map enc_item items) in
     enc32 (int index) @ enc32 (int (length items)) @ enc32 (int (length bs)) @ bs)"

fun serialize_body :: "LogEntryHandler \<Rightarrow> byte list" where
  "serialize_body (UpdateRootPage root old) = enc32 root"
| "serialize_body (SetParentPage p parent old) = enc32 parent"
| "serialize_body (LeafInitEmpty p) = []"
| "serialize_body (LeafSetNextPage p next_page old) = enc32 next_page"
| "serialize_body (InternalInitEmpty p) = []"
| "serialize_body (InternalCreateNewRoot p first_page_num key child) =
     enc32 first_page_num @ enc32 child @ enc32 (int (length (enc_key key))) @ enc_key key"
| "serialize_body (InternalUpdateKey p index key old) = enc32 (int index) @ enc32 (int (length (enc_key key))) @ enc_key key"
| "serialize_body (NodeInsert p index items) = items_body index items"
| "serialize_body (NodeRemove p index items) = items_body index items"

definition serialize :: "LogEntryHandler \<Rightarrow> byte list \<Rightarrow> byte list" where
  "serialize e buffer = write_int32 (entry_page e) (write_int32 (operation_index e) buffer) @ serialize_body e"

text \<open>The record that \<open>commit\<close> appends to the log.\<close>

definition commit_record :: "int \<Rightarrow> LogEntryHandler list \<Rightarrow> byte list" where
  "commit_record buffer_pool_id es = foldl (\<lambda>buffer e. serialize e buffer) (write_int32 buffer_pool_id []) es"

section \<open>Reading\<close>

datatype buffer_entry =
    BufInitHeaderPage PageNum "byte list"
  | BufUpdateRootPage PageNum PageNum
  | BufSetParentPage PageNum PageNum
  | BufLeafInitEmpty PageNum
  | BufLeafSetNextPage PageNum PageNum
  | BufInternalInitEmpty PageNum
  | BufInternalCreateNewRoot PageNum PageNum PageNum "byte list"
  | BufInternalUpdateKey PageNum int "byte list"
  | BufNode PageNum bool int int "byte list"  \<comment> \<open>insertion or removal, index, number and bytes of the items\<close>

fun buffer_page :: "buffer_entry \<Rightarrow> PageNum" where
  "buffer_page (BufInitHeaderPage p bs) = p"
| "buffer_page (BufUpdateRootPage p root) = p"
| "buffer_page (BufSetParentPage p parent) = p"
| "buffer_page (BufLeafInitEmpty p) = p"
| "buffer_page (BufLeafSetNextPage p next_page) = p"
| "buffer_page (BufInternalInitEmpty p) = p"
| "buffer_page (BufInternalCreateNewRoot p first_page_num child key) = p"
| "buffer_page (BufInternalUpdateKey p index key) = p"
| "buffer_page (BufNode p ins index item_num items) = p"

text \<open>Reading a vector of a given number of bytes: a negative number cannot be allocated.\<close>

definition read_vector :: "int \<Rightarrow> byte list \<Rightarrow> (byte list \<times> byte list) option option" where
  "read_vector n buffer = do { k \<leftarrow> as_size n; Some (read_bytes k buffer) }"

definition IndexFileHeader_SIZE :: nat where "IndexFileHeader_SIZE = 188"

text \<open>\<open>deserialize\<close> of each kind of entry: its result, the entry and what is left.\<close>

definition read_field :: "(int \<Rightarrow> buffer_entry) \<Rightarrow> byte list \<Rightarrow> RC \<times> buffer_entry option \<times> byte list" where
  "read_field f buffer = (case read_int32 buffer of None \<Rightarrow> (INTERNAL, None, buffer) | Some (x, rest) \<Rightarrow> (SUCCESS, Some (f x), rest))"

definition read_sized :: "(byte list \<Rightarrow> buffer_entry) \<Rightarrow> byte list \<Rightarrow> (RC \<times> buffer_entry option \<times> byte list) option" where
  "read_sized f buffer = (case read_int32 buffer of
     None \<Rightarrow> Some (INTERNAL, None, buffer)
   | Some (n, rest) \<Rightarrow> do {
       r \<leftarrow> read_vector n rest;
       Some (case r of None \<Rightarrow> (INTERNAL, None, rest) | Some (bs, rest) \<Rightarrow> (SUCCESS, Some (f bs), rest)) })"

definition read_then :: "(int \<Rightarrow> byte list \<Rightarrow> (RC \<times> buffer_entry option \<times> byte list) option) \<Rightarrow> byte list \<Rightarrow>
    (RC \<times> buffer_entry option \<times> byte list) option" where
  "read_then f buffer = (case read_int32 buffer of None \<Rightarrow> Some (INTERNAL, None, buffer) | Some (x, rest) \<Rightarrow> f x rest)"

definition deserialize :: "int \<Rightarrow> PageNum \<Rightarrow> byte list \<Rightarrow> (RC \<times> buffer_entry option \<times> byte list) option" where
  "deserialize type p buffer =
     (if type = 0 then Some (case read_bytes IndexFileHeader_SIZE buffer of
          None \<Rightarrow> (INTERNAL, None, buffer) | Some (bs, rest) \<Rightarrow> (SUCCESS, Some (BufInitHeaderPage p bs), rest))
      else if type = 1 then Some (read_field (BufUpdateRootPage p) buffer)
      else if type = 2 then Some (read_field (BufSetParentPage p) buffer)
      else if type = 3 then Some (SUCCESS, Some (BufLeafInitEmpty p), buffer)
      else if type = 4 then Some (read_field (BufLeafSetNextPage p) buffer)
      else if type = 5 then Some (SUCCESS, Some (BufInternalInitEmpty p), buffer)
      else if type = 6 then read_then (\<lambda>first. read_then (\<lambda>child. read_sized (BufInternalCreateNewRoot p first child))) buffer
      else if type = 7 then read_then (\<lambda>index. read_sized (BufInternalUpdateKey p index)) buffer
      else read_then (\<lambda>index. read_then (\<lambda>item_num. read_sized (BufNode p (type = 8) index item_num))) buffer)"

text \<open>\<open>from_buffer\<close> with the function that gets the page's frame.\<close>

definition from_buffer :: "(PageNum \<Rightarrow> 's \<Rightarrow> (RC \<times> 's) option) \<Rightarrow> byte list \<Rightarrow> 's \<Rightarrow> (RC \<times> buffer_entry option \<times> byte list \<times> 's) option" where
  "from_buffer frame_getter buffer st = (case read_int32 buffer of
     None \<Rightarrow> Some (INVALID_ARGUMENT, None, buffer, st)
   | Some (type, rest) \<Rightarrow>
       if type < 0 \<or> type \<ge> 10 then Some (INVALID_ARGUMENT, None, rest, st)
       else (case read_int32 rest of
         None \<Rightarrow> Some (INVALID_ARGUMENT, None, rest, st)
       | Some (p, rest) \<Rightarrow> do {
           (rc, st1) \<leftarrow> frame_getter p st;
           if OB_FAIL rc then Some (rc, None, rest, st1)
           else do {
             (rc, e, rest) \<leftarrow> deserialize type p rest;
             Some (rc, e, rest, st1) } }))"

text \<open>The loop of \<open>log_entry_to_string\<close>, which reads the entries without their pages.\<close>

partial_function (option) read_entries_loop :: "byte list \<Rightarrow> buffer_entry list \<Rightarrow> (RC \<times> buffer_entry list) option" where
  "read_entries_loop buffer es =
     (if buffer = [] then Some (SUCCESS, es)
      else Option.bind (from_buffer (\<lambda>_ st. Some (SUCCESS, st)) buffer ()) (\<lambda>(rc, e, rest, _).
        if rc \<noteq> SUCCESS then Some (rc, es)
        else Option.bind e (\<lambda>e. read_entries_loop rest (es @ [e]))))"

definition log_record_entries :: "byte list \<Rightarrow> (RC \<times> int \<times> buffer_entry list) option" where
  "log_record_entries payload = (case read_int32 payload of
     None \<Rightarrow> Some (IOERR_READ, - 1, [])
   | Some (buffer_pool_id, rest) \<Rightarrow> do { (rc, es) \<leftarrow> read_entries_loop rest []; Some (rc, buffer_pool_id, es) })"

section \<open>Redo\<close>

definition dec_key :: "nat \<Rightarrow> byte list \<Rightarrow> index_key option" where
  "dec_key attr_length bs = do {
     u \<leftarrow> mem_read bs 0 attr_length;
     page \<leftarrow> get32 bs attr_length;
     slot \<leftarrow> get32 bs (attr_length + 4);
     Some (u, RID page slot) }"

fun dec_items :: "bool \<Rightarrow> nat \<Rightarrow> nat \<Rightarrow> byte list \<Rightarrow> item list option" where
  "dec_items leaf attr_length 0 bs = Some []"
| "dec_items leaf attr_length (Suc num) bs = do {
     k \<leftarrow> dec_key attr_length bs;
     v \<leftarrow> (if leaf then do { page \<leftarrow> get32 bs (attr_length + 8); slot \<leftarrow> get32 bs (attr_length + 12); Some (RecordValue (RID page slot)) }
          else map_option ChildPage (get32 bs (attr_length + 8)));
     xs \<leftarrow> dec_items leaf attr_length num (drop (attr_length + (if leaf then 16 else 12)) bs);
     Some ((k, v) # xs) }"

definition attr_type_of :: "int \<Rightarrow> AttrType" where
  "attr_type_of n = (if 0 \<le> n \<and> n < 12
     then [UNDEFINED, CHARS, INTS, FLOATS, BOOLEANS, VECTORS, DATES, NULLS, TEXTS, HIGH_VECTORS, VALUESLISTS, MAXTYPE] ! nat n
     else UNDEFINED)"

text \<open>The fields of \<open>IndexFileHeader\<close> in memory order, the two arrays having 20 elements.\<close>

definition dec_header :: "byte list \<Rightarrow> IndexFileHeader option" where
  "dec_header bs = (let f = (\<lambda>i. field32 bs (4 * i)) in do {
     num \<leftarrow> as_size (f 46);
     internal_max_size \<leftarrow> as_size (f 1);
     leaf_max_size \<leftarrow> as_size (f 2);
     total \<leftarrow> as_size (f 45);
     key_length \<leftarrow> as_size (f 23);
     assert_that (num \<le> 20 \<and> length bs = IndexFileHeader_SIZE \<and> (\<forall>i\<in>set [0..<num]. f (3 + i) \<ge> 0));
     Some \<lparr>ih_root_page = f 0, ih_internal_max_size = internal_max_size, ih_leaf_max_size = leaf_max_size,
       ih_attrs = map (\<lambda>i. (attr_type_of (f (24 + i)), nat (f (3 + i)))) [0..<num],
       ih_total_attr_length = total, ih_key_length = key_length, ih_unique = f 44\<rparr> })"

definition recover_init_header_page :: "byte list \<Rightarrow> BplusTreeHandler \<Rightarrow> BplusTreeHandler option" where
  "recover_init_header_page bs st = do {
     h \<leftarrow> dec_header bs;
     Some (st\<lparr>bt_header_page := h, bt_header := h, bt_header_dirty := False\<rparr>) }"

fun buffer_redo :: "buffer_entry \<Rightarrow> BplusTreeHandler \<Rightarrow> BplusTreeHandler option" where
  "buffer_redo (BufInitHeaderPage p bs) st = recover_init_header_page bs st"
| "buffer_redo (BufUpdateRootPage p root) st = update_root_page_num_locked root st"
| "buffer_redo (BufSetParentPage p parent) st = set_parent_page_num p parent st"
| "buffer_redo (BufLeafInitEmpty p) st = Some (leaf_init_empty p st)"
| "buffer_redo (BufLeafSetNextPage p next_page) st = set_next_page p next_page st"
| "buffer_redo (BufInternalInitEmpty p) st = internal_init_empty p st"
| "buffer_redo (BufInternalCreateNewRoot p first_page_num child bs) st = do {
     key \<leftarrow> dec_key (ih_total_attr_length (bt_header st)) bs;
     create_new_root p first_page_num key child st }"
| "buffer_redo (BufInternalUpdateKey p index bs) st = do {
     key \<leftarrow> dec_key (ih_total_attr_length (bt_header st)) bs;
     i \<leftarrow> as_size index;
     set_key_at p i key st }"
| "buffer_redo (BufNode p ins index item_num bs) st = do {
     n \<leftarrow> bt_nodes st p;
     i \<leftarrow> as_size index;
     num \<leftarrow> as_size item_num;
     if ins then do {
       items \<leftarrow> dec_items (nd_is_leaf n) (ih_total_attr_length (bt_header st)) num bs;
       recover_insert_items p i items st }
     else recover_remove_items p i num st }"

text \<open>\<open>__redo\<close>: the pages of the entries are pinned as they are read; entries of pages that are as new
  as the record are skipped. The pages that were changed are stamped and unpinned at the end, if
  nothing failed.\<close>

partial_function (option) redo_loop ::
    "LSN \<Rightarrow> (PageNum \<Rightarrow> LSN) \<Rightarrow> byte list \<Rightarrow> PageNum list \<Rightarrow> BplusTreeHandler \<Rightarrow> (RC \<times> PageNum list \<times> BplusTreeHandler) option" where
  "redo_loop lsn page_lsn buffer frames st =
     (if buffer = [] then Some (SUCCESS, frames, st)
      else Option.bind (from_buffer pool_pin buffer st) (\<lambda>(rc, e, rest, st1).
        if OB_FAIL rc then Some (rc, frames, st1)
        else Option.bind e (\<lambda>e.
          if page_lsn (buffer_page e) \<ge> lsn then
            Option.bind (pool_unpin (buffer_page e) st1) (\<lambda>st2. redo_loop lsn page_lsn rest frames st2)
          else Option.bind (buffer_redo e st1) (\<lambda>st2. redo_loop lsn page_lsn rest (frames @ [buffer_page e]) st2))))"

fun unpin_pages :: "PageNum list \<Rightarrow> BplusTreeHandler \<Rightarrow> BplusTreeHandler option" where
  "unpin_pages [] st = Some st"
| "unpin_pages (p # ps) st = do { st1 \<leftarrow> pool_unpin p st; unpin_pages ps st1 }"

definition logger_redo_buffer :: "LSN \<Rightarrow> (PageNum \<Rightarrow> LSN) \<Rightarrow> byte list \<Rightarrow> BplusTreeHandler \<Rightarrow> (RC \<times> (PageNum \<Rightarrow> LSN) \<times> BplusTreeHandler) option" where
  "logger_redo_buffer lsn page_lsn buffer st = do {
     (rc, frames, st1) \<leftarrow> redo_loop lsn page_lsn buffer [] (mtr_update (mx_need_log_update (\<lambda>_. False)) st);
     (page_lsn1, st2) \<leftarrow>
       (if OB_SUCC rc then do { st2 \<leftarrow> unpin_pages frames st1; Some ((\<lambda>p. if p \<in> set frames then lsn else page_lsn p), st2) }
        else Some (page_lsn, st1));
     Some (SUCCESS, page_lsn1, mtr_update (mx_need_log_update (\<lambda>_. True)) st2) }"

text \<open>\<open>redo\<close> of a record on the pages of its pool, with a new tree handler.\<close>

definition logger_redo :: "(int \<Rightarrow> RC) \<Rightarrow> LSN \<Rightarrow> (PageNum \<Rightarrow> LSN) \<Rightarrow> byte list \<Rightarrow> BplusTreeHandler \<Rightarrow>
    (RC \<times> (PageNum \<Rightarrow> LSN) \<times> BplusTreeHandler) option" where
  "logger_redo get_buffer_pool lsn page_lsn payload st = (case read_int32 payload of
     None \<Rightarrow> Some (IOERR_READ, page_lsn, st)
   | Some (buffer_pool_id, buffer) \<Rightarrow>
       if OB_FAIL (get_buffer_pool buffer_pool_id) then Some (get_buffer_pool buffer_pool_id, page_lsn, st)
       else (case tree_open st of (rc, st1) \<Rightarrow>
         if OB_FAIL rc then Some (rc, page_lsn, st1)
         else do {
           (rc, page_lsn1, st2) \<leftarrow> logger_redo_buffer lsn page_lsn buffer (mtr_begin st1);
           assert_that (mx_entries (bt_mtr st2) = []);
           st3 \<leftarrow> memo_release st2;
           Some (rc, page_lsn1, st3) }))"


section \<open>Reading what was written\<close>

definition key_fits :: "nat \<Rightarrow> index_key \<Rightarrow> bool" where
  "key_fits attr_length k \<longleftrightarrow> length (fst k) = attr_length \<and> int32_range (page_num (snd k)) \<and> int32_range (slot_num (snd k))"

definition item_fits :: "bool \<Rightarrow> nat \<Rightarrow> item \<Rightarrow> bool" where
  "item_fits leaf attr_length x \<longleftrightarrow> key_fits attr_length (fst x) \<and> (case snd x of
     RecordValue r \<Rightarrow> leaf \<and> int32_range (page_num r) \<and> int32_range (slot_num r) | ChildPage c \<Rightarrow> \<not> leaf \<and> int32_range c)"

definition items_fit :: "nat \<Rightarrow> nat \<Rightarrow> item list \<Rightarrow> bool" where
  "items_fit attr_length index items \<longleftrightarrow> int32_range (int index) \<and> int32_range (int (length items * (attr_length + 16))) \<and>
     (\<exists>leaf. \<forall>x\<in>set items. item_fits leaf attr_length x)"

text \<open>An entry whose numbers fit their fields and whose keys have the length of the attributes.\<close>

fun entry_fits :: "nat \<Rightarrow> LogEntryHandler \<Rightarrow> bool" where
  "entry_fits a (UpdateRootPage root old) \<longleftrightarrow> int32_range root"
| "entry_fits a (SetParentPage p parent old) \<longleftrightarrow> int32_range p \<and> int32_range parent"
| "entry_fits a (LeafInitEmpty p) \<longleftrightarrow> int32_range p"
| "entry_fits a (LeafSetNextPage p next_page old) \<longleftrightarrow> int32_range p \<and> int32_range next_page"
| "entry_fits a (InternalInitEmpty p) \<longleftrightarrow> int32_range p"
| "entry_fits a (InternalCreateNewRoot p first_page_num key child) \<longleftrightarrow>
     int32_range p \<and> int32_range first_page_num \<and> int32_range child \<and> key_fits a key \<and> int32_range (int (a + 8))"
| "entry_fits a (InternalUpdateKey p index key old) \<longleftrightarrow> int32_range p \<and> int32_range (int index) \<and> key_fits a key \<and> int32_range (int (a + 8))"
| "entry_fits a (NodeInsert p index items) \<longleftrightarrow> int32_range p \<and> items_fit a index items"
| "entry_fits a (NodeRemove p index items) \<longleftrightarrow> int32_range p \<and> items_fit a index items"

fun to_buffer :: "LogEntryHandler \<Rightarrow> buffer_entry" where
  "to_buffer (UpdateRootPage root old) = BufUpdateRootPage FIRST_INDEX_PAGE root"
| "to_buffer (SetParentPage p parent old) = BufSetParentPage p parent"
| "to_buffer (LeafInitEmpty p) = BufLeafInitEmpty p"
| "to_buffer (LeafSetNextPage p next_page old) = BufLeafSetNextPage p next_page"
| "to_buffer (InternalInitEmpty p) = BufInternalInitEmpty p"
| "to_buffer (InternalCreateNewRoot p first_page_num key child) = BufInternalCreateNewRoot p first_page_num child (enc_key key)"
| "to_buffer (InternalUpdateKey p index key old) = BufInternalUpdateKey p (int index) (enc_key key)"
| "to_buffer (NodeInsert p index items) = BufNode p True (int index) (int (length items)) (concat (map enc_item items))"
| "to_buffer (NodeRemove p index items) = BufNode p False (int index) (int (length items)) (concat (map enc_item items))"

lemma buffer_page_to_buffer [simp]: "buffer_page (to_buffer e) = entry_page e"
  by (cases e) simp_all

lemma read_int32_enc [simp]: "int32_range x \<Longrightarrow> read_int32 (enc32 x @ rest) = Some (x, rest)"
  by (simp add: read_int32_def read_bytes_def dec32_enc32)

lemma read_vector_append [simp]: "read_vector (int (length bs)) (bs @ rest) = Some (Some (bs, rest))"
  by (simp add: read_vector_def read_bytes_def)

lemma read_sized_enc: "int32_range (int (length bs)) \<Longrightarrow> read_sized f (enc32 (int (length bs)) @ bs @ rest) = Some (SUCCESS, Some (f bs), rest)"
  by (simp add: read_sized_def)

lemma read_then_enc: "int32_range x \<Longrightarrow> read_then f (enc32 x @ rest) = f x rest"
  by (simp add: read_then_def)

lemma length_enc_key [simp]: "length (enc_key k) = length (fst k) + 8"
  by (simp add: enc_key_def)

lemma enc_item_length: "item_fits leaf a x \<Longrightarrow> length (enc_item x) = a + (if leaf then 16 else 12)"
  by (auto simp: enc_item_def item_fits_def key_fits_def split: item_value.splits)

lemma items_length:
  assumes "\<forall>x\<in>set items. item_fits leaf a x"
  shows "length (concat (map enc_item items)) = length items * (a + (if leaf then 16 else 12))"
  using assms by (induction items) (simp_all add: enc_item_length)

lemma items_fit_length:
  assumes "items_fit a index items"
  shows "int32_range (int (length (concat (map enc_item items))))" "int32_range (int (length items))"
proof -
  obtain leaf where l: "\<forall>x\<in>set items. item_fits leaf a x" using assms by (auto simp: items_fit_def)
  have "length (concat (map enc_item items)) \<le> length items * (a + 16)" unfolding items_length [OF l] by simp
  moreover have "length items \<le> length items * (a + 16)" by simp
  moreover have "int32_range (int (length items * (a + 16)))" using assms by (simp add: items_fit_def)
  ultimately show "int32_range (int (length (concat (map enc_item items))))" "int32_range (int (length items))"
    unfolding int32_range_def by linarith+
qed

lemma deserialize_items:
  assumes "items_fit a index items"
  shows "read_then (\<lambda>index. read_then (\<lambda>item_num. read_sized (BufNode p ins index item_num))) (items_body index items @ rest) =
    Some (SUCCESS, Some (BufNode p ins (int index) (int (length items)) (concat (map enc_item items))), rest)"
  using assms items_fit_length [OF assms]
  by (simp add: items_body_def Let_def read_then_enc read_sized_enc items_fit_def)

lemma read_sized_key:
  assumes "key_fits a k" "int32_range (int (a + 8))"
  shows "read_sized f (enc32 (int (length (enc_key k))) @ enc_key k @ rest) = Some (SUCCESS, Some (f (enc_key k)), rest)"
  by (rule read_sized_enc) (use assms in \<open>simp add: key_fits_def\<close>)

lemma deserialize_body:
  assumes "entry_fits a e"
  shows "deserialize (operation_index e) (entry_page e) (serialize_body e @ rest) = Some (SUCCESS, Some (to_buffer e), rest)"
  using assms
  by (cases e) (simp_all del: length_enc_key add: deserialize_def read_field_def read_then_enc read_sized_key [of a] deserialize_items [of a])

lemma operation_index_range: "0 < operation_index e" "operation_index e < 10"
  by (cases e; simp)+

lemma serialize_append: "serialize e buffer = buffer @ enc32 (operation_index e) @ enc32 (entry_page e) @ serialize_body e"
  by (simp add: serialize_def write_int32_def)

lemma entry_page_range: "entry_fits a e \<Longrightarrow> int32_range (entry_page e)"
  by (cases e) (simp_all add: FIRST_INDEX_PAGE_def int32_range_def)

lemma from_buffer_serialize:
  assumes e: "entry_fits a e" and g: "frame_getter (entry_page e) st = Some (SUCCESS, st1)"
  shows "from_buffer frame_getter (serialize e [] @ rest) st = Some (SUCCESS, Some (to_buffer e), rest, st1)"
proof -
  have "int32_range (operation_index e)" using operation_index_range [of e] by (simp add: int32_range_def)
  then show ?thesis
    using operation_index_range [of e] entry_page_range [OF e] g deserialize_body [OF e, of rest]
    by (simp add: from_buffer_def serialize_append not_less less_imp_le)
qed

lemma commit_record_eq: "commit_record buffer_pool_id es = enc32 buffer_pool_id @ concat (map (\<lambda>e. serialize e []) es)"
proof -
  have "foldl (\<lambda>buffer e. serialize e buffer) b es = b @ concat (map (\<lambda>e. serialize e []) es)" for b
    by (induction es arbitrary: b) (simp_all add: serialize_append)
  then show ?thesis by (simp add: commit_record_def write_int32_def)
qed

lemma serialize_nonempty [simp]: "serialize e b \<noteq> []"
  by (simp add: serialize_append enc32_def)

lemma read_entries_all:
  "\<forall>e\<in>set es. entry_fits a e \<Longrightarrow> read_entries_loop (concat (map (\<lambda>e. serialize e []) es)) acc = Some (SUCCESS, acc @ map to_buffer es)"
proof (induction es arbitrary: acc)
  case (Cons e es)
  then show ?case
    using from_buffer_serialize [of a e "\<lambda>_ st. Some (SUCCESS, st)" "()" "()" "concat (map (\<lambda>e. serialize e []) es)"]
    by (simp add: read_entries_loop.simps [of "serialize e [] @ _"])
qed (simp add: read_entries_loop.simps)

lemma dec_enc_key: "key_fits a k \<Longrightarrow> dec_key a (enc_key k @ rest) = Some k"
  by (cases k) (simp add: dec_key_def enc_key_def key_fits_def mem_read_def get32_def dec32_enc32 RID_def)

lemma dec_enc_items: "\<forall>x\<in>set items. item_fits leaf a x \<Longrightarrow> dec_items leaf a (length items) (concat (map enc_item items) @ rest) = Some items"
proof (induction items)
  case (Cons x items)
  obtain k v where x: "x = (k, v)" by (cases x)
  have f: "item_fits leaf a x" "key_fits a k" using Cons.prems x by (simp_all add: item_fits_def)
  have k: "dec_key a (enc_key k @ bs) = Some k" for bs using dec_enc_key [OF f(2)] .
  have lk: "length (enc_key k) = a + 8" using f(2) by (simp add: key_fits_def)
  show ?case
  proof (cases v)
    case (RecordValue r)
    have "leaf" "int32_range (page_num r)" "int32_range (slot_num r)" using f(1) x RecordValue by (simp_all add: item_fits_def)
    then show ?thesis using Cons k lk x RecordValue by (simp add: enc_item_def get32_def mem_read_def dec32_enc32 RID_def)
  next
    case (ChildPage c)
    have "\<not> leaf" "int32_range c" using f(1) x ChildPage by (simp_all add: item_fits_def)
    then show ?thesis using Cons k lk x ChildPage by (simp add: enc_item_def get32_def mem_read_def dec32_enc32)
  qed
qed simp


section \<open>Replaying a record\<close>

text \<open>Pins taken on top of those of a state.\<close>

definition plus_pins :: "PageNum list \<Rightarrow> BplusTreeHandler \<Rightarrow> BplusTreeHandler" where
  "plus_pins ps st = st\<lparr>bt_pins := \<lambda>p. bt_pins st p + int (count_list ps p)\<rparr>"

lemma plus_pins_simps [simp]: "bt_nodes (plus_pins ps st) = bt_nodes st" "bt_header (plus_pins ps st) = bt_header st"
  "bt_faults (plus_pins ps st) = bt_faults st" "bt_mtr (plus_pins ps st) = bt_mtr st" "plus_pins [] st = st"
  "page_exists p (plus_pins ps st) = page_exists p st" "bt_header_page (plus_pins ps st) = bt_header_page st"
  "bt_locks (plus_pins ps st) = bt_locks st"
  by (simp_all add: plus_pins_def page_exists_def)

lemma plus_pins_plus: "plus_pins ps (plus_pins qs st) = plus_pins (ps @ qs) st"
  by (simp add: plus_pins_def fun_eq_iff add.assoc add.commute)

lemma pool_pin_plus: "bt_faults st = [] \<Longrightarrow> page_exists p st \<Longrightarrow> pool_pin p st = Some (SUCCESS, plus_pins [p] st)"
  by (auto simp: pool_pin_def pool_outcome_def plus_pins_def fun_eq_iff)

lemma unpin_pages_plus: "\<forall>p. 0 \<le> bt_pins st p \<Longrightarrow> unpin_pages ps (plus_pins ps st) = Some st"
proof (induction ps)
  case (Cons p ps)
  have "pool_unpin p (plus_pins (p # ps) st) = Some (plus_pins ps st)"
    using Cons.prems [THEN spec, of p] by (auto simp: pool_unpin_def plus_pins_def fun_eq_iff)
  then show ?case using Cons by simp
qed simp

lemma entry_redo_plus: "entry_redo e (plus_pins ps st) = map_option (plus_pins ps) (entry_redo e st)"
proof -
  have [simp]: "set_node p n (plus_pins ps s) = plus_pins ps (set_node p n s)" "append_log_entry e' (plus_pins ps s) = plus_pins ps (append_log_entry e' s)"
    for p n s e' by (simp_all add: set_node_def plus_pins_def append_log_entry_def)
  show ?thesis
  proof (cases e)
    case (UpdateRootPage root old)
    have "update_root_page_num_locked root (plus_pins ps st) = map_option (plus_pins ps) (update_root_page_num_locked root st)"
      by (auto simp: update_root_page_num_locked_def get_page_def pool_pin_def pool_outcome_def memo_push_def memo_xlatch_def take_lock_def
        append_log_entry_def plus_pins_def fun_eq_iff page_exists_def split: list.splits)
    then show ?thesis using UpdateRootPage by (simp add: entry_redo_def)
  qed (auto simp: entry_redo_def set_parent_page_num_def set_next_page_def leaf_init_empty_def internal_init_empty_def create_new_root_def
      set_key_at_def recover_insert_items_def recover_remove_items_def split: Option.bind_splits)
qed


text \<open>Entries that a replay can read back and apply: their numbers fit, their pages exist, and inserted
  items are of the kind of their node.\<close>

definition entry_ready :: "nat \<Rightarrow> LogEntryHandler \<Rightarrow> BplusTreeHandler \<Rightarrow> bool" where
  "entry_ready a e st \<longleftrightarrow> page_exists (entry_page e) st \<and> entry_fits a e \<and>
     (case e of NodeInsert p index items \<Rightarrow>
        (case bt_nodes st p of Some n \<Rightarrow> (\<forall>x\<in>set items. item_fits (nd_is_leaf n) a x) | None \<Rightarrow> True)
      | LeafInitEmpty p \<Rightarrow> bt_nodes st p \<noteq> None
      | _ \<Rightarrow> True)"

fun redoable :: "nat \<Rightarrow> (LogEntryHandler \<Rightarrow> bool) \<Rightarrow> LogEntryHandler list \<Rightarrow> BplusTreeHandler \<Rightarrow> bool" where
  "redoable a old [] st \<longleftrightarrow> True"
| "redoable a old (e # es) st \<longleftrightarrow> page_exists (entry_page e) st \<and> entry_fits a e \<and>
     (if old e then entry_ready a e st \<and> (case entry_redo e st of Some st1 \<Rightarrow> redoable a old es st1 | None \<Rightarrow> True)
      else redoable a old es st)"

lemma entry_ready_plus [simp]: "entry_ready a e (plus_pins ps st) = entry_ready a e st"
  by (simp add: entry_ready_def split: LogEntryHandler.split)

lemma redoable_plus [simp]: "redoable a old es (plus_pins ps st) = redoable a old es st"
  by (induction es arbitrary: st) (auto simp: entry_redo_plus split: option.splits)

lemma redo_entries_plus: "redo_entries es (plus_pins ps st) = map_option (plus_pins ps) (redo_entries es st)"
  by (induction es arbitrary: st) (auto simp: entry_redo_plus split: Option.bind_splits)

lemma buffer_redo_entry:
  assumes "entry_ready a e st" "a = ih_total_attr_length (bt_header st)"
  shows "buffer_redo (to_buffer e) st = entry_redo e st"
proof (cases e)
  case (NodeInsert p index items)
  show ?thesis
  proof (cases "bt_nodes st p")
    case None
    then show ?thesis using NodeInsert by (simp add: entry_redo_def recover_insert_items_def)
  next
    case (Some n)
    then have "\<forall>x\<in>set items. item_fits (nd_is_leaf n) a x" using assms(1) NodeInsert by (simp add: entry_ready_def)
    from dec_enc_items [OF this, of "[]"] show ?thesis using NodeInsert Some assms(2) by (simp add: entry_redo_def as_size_def)
  qed
next
  case (NodeRemove p index items)
  then show ?thesis by (cases "bt_nodes st p") (simp_all add: entry_redo_def as_size_def recover_remove_items_def)
next
  case (InternalCreateNewRoot p first_page_num key child)
  then show ?thesis using assms dec_enc_key [of a key "[]"] by (simp add: entry_redo_def entry_ready_def)
next
  case (InternalUpdateKey p index key old)
  then show ?thesis using assms dec_enc_key [of a key "[]"] by (simp add: entry_redo_def entry_ready_def as_size_def)
qed (simp_all add: entry_redo_def)

lemma entry_redo_keeps:
  assumes "entry_redo e st = Some st1"
  shows "ih_total_attr_length (bt_header st1) = ih_total_attr_length (bt_header st)" "bt_faults st = [] \<Longrightarrow> bt_faults st1 = []"
    "mx_need_log (bt_mtr st1) = mx_need_log (bt_mtr st)" "mx_disposed (bt_mtr st1) = mx_disposed (bt_mtr st)"
    "\<not> mx_need_log (bt_mtr st) \<Longrightarrow> mx_entries (bt_mtr st1) = mx_entries (bt_mtr st)"
    "\<forall>p. 0 \<le> bt_pins st p \<Longrightarrow> 0 \<le> bt_pins st1 p"
proof -
  have "ih_total_attr_length (bt_header st1) = ih_total_attr_length (bt_header st) \<and> (bt_faults st = [] \<longrightarrow> bt_faults st1 = []) \<and>
    mx_need_log (bt_mtr st1) = mx_need_log (bt_mtr st) \<and> mx_disposed (bt_mtr st1) = mx_disposed (bt_mtr st) \<and>
    (\<not> mx_need_log (bt_mtr st) \<longrightarrow> mx_entries (bt_mtr st1) = mx_entries (bt_mtr st)) \<and> bt_pins st p \<le> bt_pins st1 p" for p
    using assms
    by (cases e) (auto simp: entry_redo_def set_parent_page_num_def set_next_page_def leaf_init_empty_def internal_init_empty_def
      create_new_root_def set_key_at_def recover_insert_items_def recover_remove_items_def set_node_def append_log_entry_def
      update_root_page_num_locked_def get_page_def pool_pin_def pool_outcome_def memo_push_def memo_xlatch_def take_lock_def
      split: Option.bind_splits if_splits list.splits)
  then show "ih_total_attr_length (bt_header st1) = ih_total_attr_length (bt_header st)" "bt_faults st = [] \<Longrightarrow> bt_faults st1 = []"
    "mx_need_log (bt_mtr st1) = mx_need_log (bt_mtr st)" "mx_disposed (bt_mtr st1) = mx_disposed (bt_mtr st)"
    "\<not> mx_need_log (bt_mtr st) \<Longrightarrow> mx_entries (bt_mtr st1) = mx_entries (bt_mtr st)"
    "\<forall>p. 0 \<le> bt_pins st p \<Longrightarrow> 0 \<le> bt_pins st1 p"
    using order_trans by blast+
qed

text \<open>The loop over a record redoes the entries whose pages are older, and holds a pin for each of them.\<close>

lemma redo_loop_replays:
  assumes "redoable a old es st" "a = ih_total_attr_length (bt_header st)" "bt_faults st = []" "\<forall>p. 0 \<le> bt_pins st p"
    "\<And>e. old e \<longleftrightarrow> page_lsn (entry_page e) < lsn" "redo_entries (filter old es) st = Some st'"
  shows "redo_loop lsn page_lsn (concat (map (\<lambda>e. serialize e []) es)) frames st =
    Some (SUCCESS, frames @ map entry_page (filter old es), plus_pins (map entry_page (filter old es)) st')"
  using assms
proof (induction es arbitrary: st st' frames)
  case Nil
  then show ?case by (simp add: redo_loop.simps)
next
  case (Cons e es)
  have ex: "page_exists (entry_page e) st" "entry_fits a e" using Cons.prems(1) by simp_all
  let ?rest = "concat (map (\<lambda>e. serialize e []) es)" and ?p = "plus_pins [entry_page e]"
  have fb: "from_buffer pool_pin (serialize e [] @ ?rest) st = Some (SUCCESS, Some (to_buffer e), ?rest, ?p st)"
    by (rule from_buffer_serialize [of a e pool_pin st, OF ex(2) pool_pin_plus [OF Cons.prems(3) ex(1)]])
  show ?case
  proof (cases "old e")
    case False
    have "pool_unpin (entry_page e) (?p st) = Some st"
      using unpin_pages_plus [of st "[entry_page e]"] Cons.prems(4) by (auto simp: bind_eq_Some_conv)
    moreover have "\<not> page_lsn (entry_page e) < lsn" using Cons.prems(5) [of e] False by simp
    moreover have "redo_loop lsn page_lsn ?rest frames st =
      Some (SUCCESS, frames @ map entry_page (filter old es), plus_pins (map entry_page (filter old es)) st')"
      by (rule Cons.IH) (use Cons.prems False in simp_all)
    ultimately show ?thesis using fb False by (simp add: redo_loop.simps [of lsn page_lsn "serialize e [] @ _"])
  next
    case True
    obtain st1 where r: "entry_redo e st = Some st1" "redoable a old es st1" "redo_entries (filter old es) st1 = Some st'" and g: "entry_ready a e st"
      using Cons.prems(1,6) True by (auto simp: bind_eq_Some_conv)
    note k = entry_redo_keeps [OF r(1)]
    have br: "buffer_redo (to_buffer e) (?p st) = Some (?p st1)"
      using buffer_redo_entry [of a e "?p st"] g Cons.prems(2) r(1) by (simp add: entry_redo_plus)
    have "redo_loop lsn page_lsn ?rest (frames @ [entry_page e]) (?p st1) =
      Some (SUCCESS, (frames @ [entry_page e]) @ map entry_page (filter old es), plus_pins (map entry_page (filter old es)) (?p st'))"
    proof (rule Cons.IH)
      show "\<forall>p. 0 \<le> bt_pins (?p st1) p" using k(6) [OF Cons.prems(4)] by (simp add: plus_pins_def)
      show "old e' \<longleftrightarrow> page_lsn (entry_page e') < lsn" for e' by (rule Cons.prems(5))
    qed (use r k(1,2) Cons.prems(2,3) in \<open>simp_all add: redo_entries_plus\<close>)
    moreover have "plus_pins (map entry_page (filter old es)) (?p st') = plus_pins (map entry_page (filter old (e # es))) st'"
      using True by (simp add: plus_pins_plus) (simp add: plus_pins_def fun_eq_iff)
    ultimately show ?thesis
      using fb br True Cons.prems(5) [of e] by (simp add: redo_loop.simps [of lsn page_lsn "serialize e [] @ _"])
  qed
qed

section \<open>Properties\<close>

text \<open>
  C30. Reading back the record that a commit wrote succeeds and finds the id of the buffer pool and the
  entries in their order, nothing being left; and wherever an entry's page and kind of items
  are right, redoing the entry that was read is redoing the entry that was written, keys and items
  included.\<close>

theorem bplus_log_roundtrip:
  assumes "\<forall>e\<in>set es. entry_fits a e" "int32_range buffer_pool_id"
  shows "log_record_entries (commit_record buffer_pool_id es) = Some (SUCCESS, buffer_pool_id, map to_buffer es) \<and>
    (\<forall>e\<in>set es. \<forall>st. entry_ready a e st \<and> a = ih_total_attr_length (bt_header st) \<longrightarrow> buffer_redo (to_buffer e) st = entry_redo e st)"
proof
  show "log_record_entries (commit_record buffer_pool_id es) = Some (SUCCESS, buffer_pool_id, map to_buffer es)"
    using assms(2) read_entries_all [OF assms(1), of "[]"] by (simp add: log_record_entries_def commit_record_eq)
qed (use buffer_redo_entry in blast)

definition ex_entries :: "LogEntryHandler list" where
  "ex_entries =
    [InternalInitEmpty 4,
     InternalCreateNewRoot 4 2 ([5, 0, 0, 0], RID 1 5) 3,
     SetParentPage 2 4 (- 1),
     NodeInsert 3 1 [(([7, 0, 0, 0], RID 1 7), RecordValue (RID 1 7))],
     UpdateRootPage 4 2]"

lemma ex_entries_fit: "\<forall>e\<in>set ex_entries. entry_fits 4 e"
proof -
  have "items_fit 4 1 [(([7, 0, 0, 0], RID 1 7), RecordValue (RID 1 7))]"
    unfolding items_fit_def by (intro conjI exI [of _ True]) (simp_all add: item_fits_def key_fits_def int32_range_def RID_def)
  then show ?thesis by (simp add: ex_entries_def key_fits_def int32_range_def RID_def)
qed

theorem bplus_log_roundtrip_witness:
  "log_record_entries (commit_record 3 ex_entries) = Some (SUCCESS, 3, map to_buffer ex_entries)"
  using bplus_log_roundtrip [of ex_entries 4 3] ex_entries_fit by (simp add: int32_range_def)

end
