(* ===== verification/BplusRecovery.thy ===== *)
theory BplusRecovery
  imports BplusLog BplusContract
begin

text \<open>
  Recovery of the B+-tree index from its log. Every operation logs what it does to the pages: a
  relation between states says that the entries noted between them, redone page by page, lead from
  the one to the other. It holds for each change of a node and composes, so it holds for whole
  operations. Redoing entries on a page does not look at other pages, which is why a replay
  may skip a page that is newer than the record and redo the others.
\<close>

section \<open>Operations that only read\<close>

definition reads :: "BplusTreeHandler \<Rightarrow> BplusTreeHandler \<Rightarrow> bool" where
  "reads st st' \<longleftrightarrow> bt_nodes st' = bt_nodes st \<and> bt_header st' = bt_header st \<and> bt_header_page st' = bt_header_page st \<and>
     bt_page_count st' = bt_page_count st \<and> bt_wal st' = bt_wal st \<and> mx_entries (bt_mtr st') = mx_entries (bt_mtr st) \<and>
     mx_need_log (bt_mtr st') = mx_need_log (bt_mtr st) \<and> mx_disposed (bt_mtr st') = mx_disposed (bt_mtr st)"

lemma reads_refl [simp]: "reads st st"
  by (simp add: reads_def)

lemma reads_trans [trans]: "reads st st1 \<Longrightarrow> reads st1 st2 \<Longrightarrow> reads st st2"
  by (simp add: reads_def)

lemma reads_memo_push: "reads st (memo_push x st)"
  by (simp add: reads_def memo_push_def)

lemma reads_pool:
  "pool_outcome st = (rc, st1) \<Longrightarrow> reads st st1"
  "pool_pin p st = Some (rc, st1) \<Longrightarrow> reads st st1"
  "pool_unpin p st = Some st1 \<Longrightarrow> reads st st1"
  "get_page p st = Some (rc, st1) \<Longrightarrow> reads st st1"
  "take_lock t st = Some st1 \<Longrightarrow> reads st st1"
  "drop_lock t st = Some st1 \<Longrightarrow> reads st st1"
  "memo_xlatch t st = Some st1 \<Longrightarrow> reads st st1"
  "memo_slatch t st = Some st1 \<Longrightarrow> reads st st1"
  "release_item x st = Some st1 \<Longrightarrow> reads st st1"
  by (auto simp: reads_def pool_outcome_def pool_pin_def pool_unpin_def get_page_def take_lock_def drop_lock_def memo_xlatch_def
    memo_slatch_def memo_push_def release_item_def split: list.splits if_splits Option.bind_splits LatchMemoItem.splits)

lemma reads_release_items: "release_items xs st = Some st1 \<Longrightarrow> reads st st1"
  by (induction xs arbitrary: st) (auto intro: reads_pool(9) reads_trans split: Option.bind_splits)

lemma reads_release_to: "release_to k st = Some st1 \<Longrightarrow> reads st st1"
  using reads_release_items by (fastforce simp: release_to_def Let_def reads_def split: Option.bind_splits if_splits)

lemma reads_crabing:
  assumes "crabing_protocal_fetch_page op p r st = Some (rc, st1)"
  shows "reads st st1"
  using assms
  by (auto simp: crabing_protocal_fetch_page_def Let_def split: Option.bind_splits if_splits
    dest!: reads_pool(4,7,8) reads_release_to; blast intro: reads_trans)

lemma reads_find_leaf_loop:
  assumes "find_leaf_loop op g p st = Some r"
  shows "reads st (snd (snd r))"
proof (rule find_leaf_loop.raw_induct [where P = "\<lambda>op g p st r. reads st (snd (snd r))", OF _ assms])
  fix loop :: "BplusTreeOperationType \<Rightarrow> (BplusTreeHandler \<Rightarrow> IndexNode \<Rightarrow> PageNum option) \<Rightarrow> PageNum \<Rightarrow> BplusTreeHandler \<Rightarrow> (RC \<times> PageNum \<times> BplusTreeHandler) option"
    and op g p st r
  assume IH: "\<And>op g p st r. loop op g p st = Some r \<Longrightarrow> reads st (snd (snd r))"
  assume "Option.bind (bt_nodes st p) (\<lambda>n.
       if nd_is_leaf n then Some (SUCCESS, p, st)
       else Option.bind (g st n) (\<lambda>next_page_id.
         Option.bind (crabing_protocal_fetch_page op next_page_id False st) (\<lambda>r.
           if OB_FAIL (fst r) then Some (fst r, p, snd r)
           else loop op g next_page_id (snd r)))) = Some r"
  then show "reads st (snd (snd r))"
    by (auto split: Option.bind_splits if_splits dest!: reads_crabing IH; blast intro: reads_trans)
qed

lemma reads_find_leaf_internal:
  assumes "find_leaf_internal op g st = Some (rc, q, st1)"
  shows "reads st st1"
  using assms
  by (auto simp: find_leaf_internal_def Let_def split: Option.bind_splits if_splits
    dest!: reads_pool(7,8) reads_crabing reads_find_leaf_loop; blast intro: reads_trans)

lemma reads_find_leaf: "find_leaf op key st = Some (rc, q, st1) \<Longrightarrow> reads st st1"
  unfolding find_leaf_def by (rule reads_find_leaf_internal)

section \<open>Entries by page\<close>

text \<open>Nodes that agree in what the code reads of them: inner nodes have no next page. A page the tree
  does not use may hold anything.\<close>

definition node_like :: "IndexNode \<Rightarrow> IndexNode \<Rightarrow> bool" where
  "node_like m n \<longleftrightarrow> nd_is_leaf m = nd_is_leaf n \<and> nd_parent m = nd_parent n \<and> nd_items m = nd_items n \<and>
     (nd_is_leaf n \<longrightarrow> nd_next_brother m = nd_next_brother n)"

definition holds :: "IndexNode \<Rightarrow> IndexNode option \<Rightarrow> bool" where
  "holds m x \<longleftrightarrow> (case x of None \<Rightarrow> True | Some n \<Rightarrow> node_like m n)"

lemma holds_simps [simp]: "holds m None" "holds m (Some n) = node_like m n"
  by (simp_all add: holds_def)

text \<open>What redoing an entry does to the node of its page.\<close>

definition node_redo :: "IndexFileHeader \<Rightarrow> LogEntryHandler \<Rightarrow> IndexNode \<Rightarrow> IndexNode option" where
  "node_redo h e m = (case e of
     UpdateRootPage root old \<Rightarrow> Some m
   | SetParentPage p parent old \<Rightarrow> Some (m\<lparr>nd_parent := parent\<rparr>)
   | LeafSetNextPage p next_page old \<Rightarrow> Some (m\<lparr>nd_next_brother := next_page\<rparr>)
   | InternalUpdateKey p i key old \<Rightarrow> map_option (\<lambda>x. m\<lparr>nd_items := (nd_items m)[i := (key, snd x)]\<rparr>) (mem_get (nd_items m) i)
   | NodeInsert p i xs \<Rightarrow>
       if i \<le> nd_size m \<and> nd_size m + length xs \<le> node_capacity h (nd_is_leaf m) \<and> (\<forall>x\<in>set xs. item_kind (nd_is_leaf m) x)
       then Some (m\<lparr>nd_items := take i (nd_items m) @ xs @ drop i (nd_items m)\<rparr>) else None
   | NodeRemove p i xs \<Rightarrow>
       if i + length xs \<le> nd_size m then Some (m\<lparr>nd_items := take i (nd_items m) @ drop (i + length xs) (nd_items m)\<rparr>) else None
   | LeafInitEmpty p \<Rightarrow>
       Some \<lparr>nd_is_leaf = True, nd_parent = BP_INVALID_PAGE_NUM, nd_next_brother = BP_INVALID_PAGE_NUM, nd_items = []\<rparr>
   | InternalInitEmpty p \<Rightarrow> Some (m\<lparr>nd_is_leaf := False, nd_parent := BP_INVALID_PAGE_NUM, nd_items := []\<rparr>)
   | InternalCreateNewRoot p q key c \<Rightarrow>
       if nd_items m = [] \<and> 2 \<le> node_capacity h False
       then Some (m\<lparr>nd_items := [(zero_key h, ChildPage q), (key, ChildPage c)]\<rparr>) else None)"

fun page_redo :: "IndexFileHeader \<Rightarrow> LogEntryHandler list \<Rightarrow> IndexNode \<Rightarrow> IndexNode option" where
  "page_redo h [] m = Some m"
| "page_redo h (e # es) m = Option.bind (node_redo h e m) (page_redo h es)"

lemma page_redo_Nil [simp]: "page_redo h [] = Some"
  by (simp add: fun_eq_iff)

definition on_page :: "PageNum \<Rightarrow> LogEntryHandler \<Rightarrow> bool" where
  "on_page p e \<longleftrightarrow> (case e of UpdateRootPage root old \<Rightarrow> False | _ \<Rightarrow> entry_page e = p)"

definition root_redo :: "LogEntryHandler list \<Rightarrow> IndexFileHeader \<Rightarrow> IndexFileHeader" where
  "root_redo es h = fold (\<lambda>e h. case e of UpdateRootPage root old \<Rightarrow> h\<lparr>ih_root_page := root\<rparr> | _ \<Rightarrow> h) es h"

lemma root_redo_simps [simp]: "root_redo [] h = h" "root_redo (es @ fs) h = root_redo fs (root_redo es h)"
  "root_redo (UpdateRootPage root old # es) h = root_redo es (h\<lparr>ih_root_page := root\<rparr>)"
  by (simp_all add: root_redo_def)

text \<open>The header but for the root page.\<close>

abbreviation rootless :: "IndexFileHeader \<Rightarrow> IndexFileHeader" where
  "rootless h \<equiv> h\<lparr>ih_root_page := 0\<rparr>"

lemma rootless_capacity: "rootless h = rootless h' \<Longrightarrow> node_capacity h = node_capacity h'"
  "rootless h = rootless h' \<Longrightarrow> zero_key h = zero_key h'" "rootless h = rootless h' \<Longrightarrow> ih_total_attr_length h = ih_total_attr_length h'"
  by (cases h; cases h'; simp add: node_capacity_def zero_key_def fun_eq_iff)+

lemma rootless_redo: "rootless h = rootless h' \<Longrightarrow> node_redo h = node_redo h'" "rootless h = rootless h' \<Longrightarrow> page_redo h es m = page_redo h' es m"
proof -
  show *: "node_redo h = node_redo h'" if "rootless h = rootless h'"
  proof (intro ext)
    fix e m show "node_redo h e m = node_redo h' e m"
      using rootless_capacity [OF that] by (cases e) (simp_all add: node_redo_def)
  qed
  show "page_redo h es m = page_redo h' es m" if "rootless h = rootless h'"
    using * [OF that] by (induction es arbitrary: m) (simp_all split: Option.bind_split)
qed

lemma rootless_root [simp]: "rootless (root_redo es h) = rootless h" "rootless (h\<lparr>ih_root_page := r\<rparr>) = rootless h"
  by (induction es arbitrary: h) (auto simp: root_redo_def split: LogEntryHandler.splits)

lemma page_redo_append: "page_redo h (es @ fs) m = Option.bind (page_redo h es m) (page_redo h fs)"
  by (induction es arbitrary: m) (simp_all split: Option.bind_split)

section \<open>Operations with their log entries\<close>

definition numbered :: "BplusTreeHandler \<Rightarrow> bool" where
  "numbered st \<longleftrightarrow> 2 \<le> bt_page_count st \<and> (\<forall>p\<in>dom (bt_nodes st). 2 \<le> p \<and> p < int (bt_page_count st))"

text \<open>Redoing the entries on the pages from before gives the pages from after, page by page.\<close>

definition replays :: "LogEntryHandler list \<Rightarrow> BplusTreeHandler \<Rightarrow> BplusTreeHandler \<Rightarrow> bool" where
  "replays es st st' \<longleftrightarrow>
     (\<forall>p m. holds m (bt_nodes st p) \<longrightarrow> (\<exists>m'. page_redo (bt_header st) (filter (on_page p) es) m = Some m' \<and> holds m' (bt_nodes st' p))) \<and>
     bt_header st' = root_redo es (bt_header st) \<and> bt_header_page st' = root_redo es (bt_header_page st) \<and>
     (\<forall>e\<in>set es. entry_page e = FIRST_INDEX_PAGE \<and> \<not> on_page FIRST_INDEX_PAGE e \<or> 2 \<le> entry_page e \<and> entry_page e < int (bt_page_count st'))"

definition logged :: "BplusTreeHandler \<Rightarrow> BplusTreeHandler \<Rightarrow> bool" where
  "logged st st' \<longleftrightarrow> mx_need_log (bt_mtr st') = mx_need_log (bt_mtr st) \<and> bt_wal st' = bt_wal st \<and>
     bt_page_count st \<le> bt_page_count st' \<and>
     (mx_need_log (bt_mtr st) \<and> numbered st \<longrightarrow>
        numbered st' \<and> (\<exists>es. mx_entries (bt_mtr st') = mx_entries (bt_mtr st) @ es \<and> replays es st st'))"

lemma replays_trans:
  assumes "replays es st st1" "replays fs st1 st2" "bt_page_count st1 \<le> bt_page_count st2"
  shows "replays (es @ fs) st st2"
proof -
  have h: "rootless (bt_header st1) = rootless (bt_header st)" using assms(1) by (simp add: replays_def)
  have "\<exists>m'. page_redo (bt_header st) (filter (on_page p) (es @ fs)) m = Some m' \<and> holds m' (bt_nodes st2 p)"
    if m: "holds m (bt_nodes st p)" for p m
  proof -
    obtain m1 where m1: "page_redo (bt_header st) (filter (on_page p) es) m = Some m1" "holds m1 (bt_nodes st1 p)"
      using assms(1) m unfolding replays_def by blast
    then obtain m2 where "page_redo (bt_header st1) (filter (on_page p) fs) m1 = Some m2" "holds m2 (bt_nodes st2 p)"
      using assms(2) unfolding replays_def by blast
    then show ?thesis using m1 rootless_redo(2) [OF h] by (simp add: page_redo_append)
  qed
  moreover have "\<forall>e\<in>set (es @ fs). entry_page e = FIRST_INDEX_PAGE \<and> \<not> on_page FIRST_INDEX_PAGE e \<or> 2 \<le> entry_page e \<and> entry_page e < int (bt_page_count st2)"
    using assms by (fastforce simp: replays_def)
  ultimately show ?thesis using assms(1,2) by (simp add: replays_def)
qed

lemma logged_trans [trans]:
  assumes "logged st st1" "logged st1 st2"
  shows "logged st st2"
proof -
  have "numbered st2 \<and> (\<exists>es. mx_entries (bt_mtr st2) = mx_entries (bt_mtr st) @ es \<and> replays es st st2)"
    if nl: "mx_need_log (bt_mtr st)" "numbered st"
  proof -
    obtain es where 1: "mx_need_log (bt_mtr st1)" "numbered st1" "mx_entries (bt_mtr st1) = mx_entries (bt_mtr st) @ es" "replays es st st1"
      using assms(1) nl by (auto simp: logged_def)
    obtain fs where "numbered st2" "mx_entries (bt_mtr st2) = mx_entries (bt_mtr st1) @ fs" "replays fs st1 st2"
      using assms(2) 1 by (auto simp: logged_def)
    then show ?thesis using 1 replays_trans assms(2) by (auto simp: logged_def)
  qed
  then show ?thesis using assms by (auto simp: logged_def)
qed

lemma replays_Nil: "bt_nodes st' = bt_nodes st \<Longrightarrow> bt_header st' = bt_header st \<Longrightarrow> bt_header_page st' = bt_header_page st \<Longrightarrow> replays [] st st'"
  by (simp add: replays_def)

lemma logged_reads: "reads st st' \<Longrightarrow> logged st st'"
  using replays_Nil [of st' st] by (auto simp: logged_def reads_def numbered_def)

lemma logged_refl [simp]: "logged st st"
  by (simp add: logged_reads)

lemma reads_dispose: "logged st (memo_dispose_page p st)"
  using replays_Nil [of "memo_dispose_page p st" st] by (auto simp: logged_def memo_dispose_page_def numbered_def)

text \<open>A change of one node with its entry.\<close>

lemma logged_set_node:
  assumes r: "\<And>m. node_like m n \<Longrightarrow> \<exists>m'. node_redo (bt_header st) e m = Some m' \<and> node_like m' n'"
    and n: "bt_nodes st p = Some n" and e: "\<And>q. on_page q e \<longleftrightarrow> q = p" "entry_page e = p" "\<And>h. root_redo [e] h = h"
  shows "logged st (set_node p n' (append_log_entry e st))"
proof -
  have "replays [e] st (set_node p n' (append_log_entry e st))" if "numbered st"
    using that r n e by (auto simp: replays_def numbered_def set_node_def append_log_entry_def)
  then show ?thesis using n by (auto simp: logged_def set_node_def append_log_entry_def numbered_def)
qed

lemma node_entry_simps [simp]:
  "on_page q (SetParentPage p x old) \<longleftrightarrow> q = p" "on_page q (LeafSetNextPage p x old) \<longleftrightarrow> q = p" "on_page q (InternalUpdateKey p i k k0) \<longleftrightarrow> q = p"
  "on_page q (NodeInsert p i xs) \<longleftrightarrow> q = p" "on_page q (NodeRemove p i xs) \<longleftrightarrow> q = p" "on_page q (LeafInitEmpty p) \<longleftrightarrow> q = p"
  "on_page q (InternalInitEmpty p) \<longleftrightarrow> q = p" "on_page q (InternalCreateNewRoot p f k c) \<longleftrightarrow> q = p" "\<not> on_page q (UpdateRootPage root old)"
  by (auto simp: on_page_def)

lemma root_redo_node: "on_page p e \<Longrightarrow> root_redo [e] h = h"
  by (cases e) (simp_all add: root_redo_def)

lemma logged_node:
  "set_parent_page_num p x st = Some st' \<Longrightarrow> logged st st'"
  "set_next_page p x st = Some st' \<Longrightarrow> logged st st'"
  "set_key_at p i k st = Some st' \<Longrightarrow> logged st st'"
  "create_new_root p q k c st = Some st' \<Longrightarrow> logged st st'"
  by (auto simp: set_parent_page_num_def set_next_page_def set_key_at_def create_new_root_def node_redo_def node_like_def root_redo_node [of p]
    split: Option.bind_splits if_splits intro!: logged_set_node)

lemma logged_items:
  "node_insert_items p i xs st = Some st' \<Longrightarrow> logged st st'"
  "node_remove_items p i k st = Some st' \<Longrightarrow> logged st st'"
proof -
  assume "node_insert_items p i xs st = Some st'"
  then obtain n where "bt_nodes st p = Some n" "i \<le> nd_size n" "nd_size n + length xs \<le> node_capacity (bt_header st) (nd_is_leaf n)"
    "\<forall>x\<in>set xs. item_kind (nd_is_leaf n) x" "st' = set_node p (n\<lparr>nd_items := take i (nd_items n) @ xs @ drop i (nd_items n)\<rparr>) (append_log_entry (NodeInsert p i xs) st)"
    by (auto simp: node_insert_items_def recover_insert_items_def split: Option.bind_splits if_splits)
  then show "logged st st'"
    by (auto simp: node_redo_def node_like_def root_redo_node [of p] intro!: logged_set_node)
next
  assume "node_remove_items p i k st = Some st'"
  then obtain n where "bt_nodes st p = Some n" "i + k \<le> nd_size n"
    "st' = set_node p (n\<lparr>nd_items := take i (nd_items n) @ drop (i + k) (nd_items n)\<rparr>)
      (append_log_entry (NodeRemove p i (take k (drop i (nd_items n)))) st)"
    by (auto simp: node_remove_items_def recover_remove_items_def split: Option.bind_splits if_splits)
  moreover have "min (nd_size n - i) k = k" if "i + k \<le> nd_size n" for n :: IndexNode
    by (rule min_absorb2) (use that in linarith)
  ultimately show "logged st st'"
    by (auto simp: node_redo_def node_like_def root_redo_node [of p] simp del: drop_drop drop_append take_append intro!: logged_set_node)
qed

lemma logged_update_root:
  assumes "update_root_page_num_locked root st = Some st'"
  shows "logged st st'"
proof -
  obtain st0 st1 where "get_page FIRST_INDEX_PAGE st = Some (SUCCESS, st0)" "memo_xlatch (PageLatch FIRST_INDEX_PAGE) st0 = Some st1"
    and st': "st' = (append_log_entry (UpdateRootPage root (ih_root_page (bt_header_page st1))) st1)
      \<lparr>bt_header_page := (bt_header_page st1)\<lparr>ih_root_page := root\<rparr>, bt_header := (bt_header st1)\<lparr>ih_root_page := root\<rparr>, bt_header_dirty := True\<rparr>"
    using assms by (auto simp: update_root_page_num_locked_def Let_def append_log_entry_def split: Option.bind_splits if_splits)
  then have r: "reads st st1" using reads_pool(4,7) reads_trans by blast
  have "replays [UpdateRootPage root (ih_root_page (bt_header_page st1))] st1 st'"
    by (auto simp: replays_def st' append_log_entry_def)
  then have "logged st1 st'" by (auto simp: logged_def st' append_log_entry_def numbered_def)
  then show ?thesis using logged_reads [OF r] logged_trans by blast
qed

text \<open>A page that is allocated and initialised. Until then its contents are not known, so the two steps
  are taken together.\<close>

lemma logged_new_node:
  assumes a: "pool_allocate st = (SUCCESS, p, st1)" and r: "reads st1 st2" and i: "node_init_empty leaf p st2 = Some st3"
  shows "logged st st3"
proof -
  obtain st0 k where o: "pool_outcome st = (SUCCESS, st0)" "free_page st0 = Some k" "p = int k" and
    st1: "st1 = st0\<lparr>bt_nodes := (bt_nodes st0)(int k \<mapsto> blank_node), bt_page_count := max (k + 1) (bt_page_count st0),
      bt_pins := (bt_pins st0)(int k := bt_pins st0 (int k) + 1)\<rparr>"
    using a by (auto simp: pool_allocate_def split: prod.splits if_splits option.splits)
  have r0: "reads st st0" by (rule reads_pool(1) [OF o(1)])
  have k: "2 \<le> k" if "2 \<le> bt_page_count st"
    using o(2) r0 that by (auto simp: free_page_def find_Some_iff reads_def nth_append split: option.splits if_splits)
  define e where "e = (if leaf then LeafInitEmpty p else InternalInitEmpty p)"
  obtain n' where st3: "st3 = set_node p n' (append_log_entry e st2)" and n': "n' = (if leaf
      then \<lparr>nd_is_leaf = True, nd_parent = BP_INVALID_PAGE_NUM, nd_next_brother = BP_INVALID_PAGE_NUM, nd_items = []\<rparr>
      else blank_node\<lparr>nd_is_leaf := False, nd_parent := BP_INVALID_PAGE_NUM, nd_items := []\<rparr>)"
    using i r o(3) by (auto simp: node_init_empty_def leaf_init_empty_def internal_init_empty_def e_def st1 reads_def split: if_splits)
  have eq: "bt_nodes st2 = (bt_nodes st)(p \<mapsto> blank_node)" "bt_header st2 = bt_header st" "bt_header_page st2 = bt_header_page st"
    "bt_page_count st2 = max (k + 1) (bt_page_count st)" "bt_wal st2 = bt_wal st" "mx_entries (bt_mtr st2) = mx_entries (bt_mtr st)"
    "mx_need_log (bt_mtr st2) = mx_need_log (bt_mtr st)"
    using r r0 o(3) by (simp_all add: reads_def st1)
  have e: "on_page q e \<longleftrightarrow> q = p" "entry_page e = p" for q by (simp_all add: e_def)
  have "\<exists>m'. node_redo (bt_header st) e m = Some m' \<and> node_like m' n'" for m
    by (simp add: e_def node_redo_def node_like_def n')
  then have "replays [e] st st3" if "2 \<le> bt_page_count st"
    using k [OF that] o(3) eq e by (auto simp: replays_def st3 set_node_def append_log_entry_def root_redo_node [of p])
  moreover have "numbered st3" if "numbered st"
    using that eq(1,4) k o(3) by (auto simp: numbered_def st3 set_node_def append_log_entry_def of_nat_max less_max_iff_disj simp del: of_nat_Suc)
  moreover have "bt_wal st3 = bt_wal st" "bt_page_count st \<le> bt_page_count st3" "mx_need_log (bt_mtr st3) = mx_need_log (bt_mtr st)"
    "mx_need_log (bt_mtr st) \<Longrightarrow> mx_entries (bt_mtr st3) = mx_entries (bt_mtr st) @ [e]"
    using eq by (simp_all add: st3 set_node_def append_log_entry_def)
  moreover have "2 \<le> bt_page_count st" if "numbered st" using that by (simp add: numbered_def)
  ultimately show ?thesis by (auto simp: logged_def)
qed

lemma reads_no_page: "pool_allocate st = (rc, p, st1) \<Longrightarrow> rc \<noteq> SUCCESS \<Longrightarrow> reads st st1"
  by (auto simp: pool_allocate_def split: prod.splits if_splits option.splits dest!: reads_pool(1))


lemmas logged_pool = reads_pool(2-8) [THEN logged_reads]

lemma logged_leaf:
  "leaf_insert p i k r st = Some st' \<Longrightarrow> logged st st'"
  "leaf_remove p i st = Some st' \<Longrightarrow> logged st st'"
  "leaf_remove_key p k st = Some (c, st') \<Longrightarrow> logged st st'"
  "leaf_append p xs st = Some st' \<Longrightarrow> logged st st'"
  by (auto simp: leaf_insert_def leaf_remove_def leaf_remove_key_def leaf_append_def split: Option.bind_splits if_splits dest: logged_items)

lemma logged_internal:
  "internal_insert p k c st = Some st' \<Longrightarrow> logged st st'"
  "internal_remove p i st = Some st' \<Longrightarrow> logged st st'"
  by (auto simp: internal_insert_def internal_remove_def split: Option.bind_splits if_splits dest: logged_items)

lemma logged_set_parents: "set_parents p xs st = Some (rc, st') \<Longrightarrow> logged st st'"
proof (induction xs arbitrary: st)
  case (Cons x xs)
  from Cons.prems show ?case
    by (auto split: Option.bind_splits if_splits item_value.splits dest!: logged_pool(3) logged_node(1) Cons.IH; blast intro: logged_trans)
qed simp

lemma logged_internal_items:
  "internal_insert_items p i xs st = Some (rc, st') \<Longrightarrow> logged st st'"
  "internal_append p xs st = Some (rc, st') \<Longrightarrow> logged st st'"
  by (auto simp: internal_insert_items_def internal_append_def split: Option.bind_splits dest!: logged_items(1) logged_set_parents intro: logged_trans)

lemma logged_node_append:
  "node_append leaf p xs st = Some (rc, st') \<Longrightarrow> logged st st'"
  "node_preappend leaf p x st = Some (rc, st') \<Longrightarrow> logged st st'"
  by (auto simp: node_append_def node_preappend_def split: Option.bind_splits if_splits dest!: logged_items(1) logged_leaf(4) logged_internal_items)

lemma logged_move:
  "move_half_to leaf p q st = Some (rc, st') \<Longrightarrow> logged st st'"
  "move_first_to_end leaf p q st = Some (rc, st') \<Longrightarrow> logged st st'"
  "move_last_to_front leaf p q st = Some (rc, st') \<Longrightarrow> logged st st'"
  "move_to leaf p q st = Some (rc, st') \<Longrightarrow> logged st st'"
  by (auto simp: move_half_to_def move_first_to_end_def move_last_to_front_def move_to_def Let_def split: Option.bind_splits if_splits
    dest!: logged_node_append logged_items(2) logged_node(2); blast intro: logged_trans)+

lemma logged_memo_allocate:
  assumes "memo_allocate_page st = Some (SUCCESS, p, st1)" "reads st1 st2" "node_init_empty leaf p st2 = Some st3"
  shows "logged st st3"
proof -
  obtain st0 where "pool_allocate st = (SUCCESS, p, st0)" "reads st0 st1"
    using assms(1) reads_memo_push by (auto simp: memo_allocate_page_def split: prod.splits if_splits Option.bind_splits)
  then show ?thesis using logged_new_node assms(2,3) reads_trans by blast
qed

lemma reads_memo_no_page: "memo_allocate_page st = Some (rc, p, st1) \<Longrightarrow> rc \<noteq> SUCCESS \<Longrightarrow> reads st st1"
  by (auto simp: memo_allocate_page_def split: prod.splits if_splits Option.bind_splits dest!: reads_no_page)

lemma logged_split_node:
  assumes "split_node leaf p st = Some (rc, q, st')"
  shows "logged st st'"
proof -
  obtain rc1 st1 where a: "memo_allocate_page st = Some (rc1, q, st1)" using assms by (auto simp: split_node_def split: Option.bind_splits if_splits)
  show ?thesis
  proof (cases "rc1 = SUCCESS")
    case False
    then show ?thesis using assms a logged_reads [OF reads_memo_no_page [OF a]] by (simp add: split_node_def)
  next
    case True
    then obtain st2 st3 y st4 rc5 where "memo_xlatch (PageLatch q) st1 = Some st2" "node_init_empty leaf q st2 = Some st3"
      "set_parent_page_num q y st3 = Some st4" "move_half_to leaf p q st4 = Some (rc5, st')"
      using assms a by (auto simp: split_node_def split: Option.bind_splits)
    then have "logged st st3" "logged st3 st4" "logged st4 st'"
      using logged_memo_allocate [of st q st1 st2 leaf st3] a True by (simp_all add: reads_pool(7) logged_node(1) logged_move(1))
    then show ?thesis using logged_trans by blast
  qed
qed

lemma logged_insert_new_root:
  assumes "insert_new_root p q key st = Some (rc, st')"
  shows "logged st st'"
proof -
  obtain rc1 root st1 where a: "pool_allocate st = (rc1, root, st1)" by (cases "pool_allocate st") auto
  show ?thesis
  proof (cases "rc1 = SUCCESS")
    case False
    then show ?thesis using assms a logged_reads [OF reads_no_page [OF a]] by (simp add: insert_new_root_def)
  next
    case True
    then obtain st2 st3 st4 st5 st6 st7 st8 where s: "internal_init_empty root st1 = Some st2" "create_new_root root p key q st2 = Some st3"
      "set_parent_page_num p root st3 = Some st4" "set_parent_page_num q root st4 = Some st5" "take_lock (PageLatch root) st5 = Some st6"
      "update_root_page_num_locked root st6 = Some st7" "drop_lock (PageLatch root) st7 = Some st8" "pool_unpin root st8 = Some st'"
      using assms a by (auto simp: insert_new_root_def split: Option.bind_splits)
    have "logged st st2" using logged_new_node [of st root st1 st1 False st2] a True s(1) by (simp add: node_init_empty_def)
    also have "logged st2 st3" by (rule logged_node(4) [OF s(2)])
    also have "logged st3 st4" by (rule logged_node(1) [OF s(3)])
    also have "logged st4 st5" by (rule logged_node(1) [OF s(4)])
    also have "logged st5 st6" by (rule logged_pool(4) [OF s(5)])
    also have "logged st6 st7" by (rule logged_update_root [OF s(6)])
    also have "logged st7 st8" by (rule logged_pool(5) [OF s(7)])
    also have "logged st8 st'" by (rule logged_pool(2) [OF s(8)])
    finally show ?thesis .
  qed
qed

lemma logged_into_parent:
  assumes "insert_entry_into_parent p q key st = Some r"
  shows "logged st (snd r)"
proof (rule insert_entry_into_parent.raw_induct [where P = "\<lambda>p q key st r. logged st (snd r)", OF _ assms])
  fix loop :: "PageNum \<Rightarrow> PageNum \<Rightarrow> index_key \<Rightarrow> BplusTreeHandler \<Rightarrow> (RC \<times> BplusTreeHandler) option" and p q key st r
  assume IH: "\<And>p q key st r. loop p q key st = Some r \<Longrightarrow> logged st (snd r)"
  assume run: "Option.bind (bt_nodes st p) (\<lambda>n.
       let parent = nd_parent n in
       if parent = BP_INVALID_PAGE_NUM then insert_new_root p q key st
       else Option.bind (get_page parent st) (\<lambda>r1.
         let st1 = snd r1 in
         if OB_FAIL (fst r1) then Some r1
         else Option.bind (bt_nodes st1 parent) (\<lambda>pn.
           if nd_size pn < max_size (bt_header st1) pn then
             Option.bind (internal_insert parent key q st1) (\<lambda>st2.
             Option.bind (set_parent_page_num q parent st2) (\<lambda>st3. Some (SUCCESS, st3)))
           else Option.bind (split_node False parent st1) (\<lambda>r2.
             let new_parent = fst (snd r2); st2 = snd (snd r2) in
             if OB_FAIL (fst r2) then Some (fst r2, st2)
             else Option.bind (key_at new_parent 0 st2) (\<lambda>k0.
               Option.bind (key_cmp st2 key k0) (\<lambda>c.
               let target = (if c > 0 then new_parent else parent) in
               Option.bind (internal_insert target key q st2) (\<lambda>st3.
               Option.bind (set_parent_page_num q target st3) (\<lambda>st4.
               Option.bind (key_at new_parent 0 st4) (\<lambda>k0.
                 loop parent new_parent k0 st4))))))))) = Some r"
  obtain n where n: "bt_nodes st p = Some n" using run by (auto simp: bind_eq_Some_conv)
  show "logged st (snd r)"
  proof (cases "nd_parent n = BP_INVALID_PAGE_NUM")
    case True
    then show ?thesis using run n logged_insert_new_root [of p q key st "fst r" "snd r"] by simp
  next
    case False
    then obtain rc st1 where g: "get_page (nd_parent n) st = Some (rc, st1)" using run n by (auto simp: Let_def bind_eq_Some_conv)
    note l1 = logged_pool(3) [OF g]
    show ?thesis
    proof (cases "rc = SUCCESS")
      case False
      then show ?thesis using run n g l1 \<open>nd_parent n \<noteq> BP_INVALID_PAGE_NUM\<close> by auto
    next
      case True
      then obtain pn where pn: "bt_nodes st1 (nd_parent n) = Some pn" using run n g False by (auto simp: Let_def bind_eq_Some_conv)
      show ?thesis
      proof (cases "nd_size pn < max_size (bt_header st1) pn")
        case True
        then obtain st2 st3 where "internal_insert (nd_parent n) key q st1 = Some st2" "set_parent_page_num q (nd_parent n) st2 = Some st3" "r = (SUCCESS, st3)"
          using run n g False \<open>rc = SUCCESS\<close> pn by (auto simp: Let_def bind_eq_Some_conv)
        then show ?thesis using l1 logged_internal(1) [of "nd_parent n" key q st1 st2] logged_node(1) [of q "nd_parent n" st2 st3]
          by (auto intro: logged_trans)
      next
        case big: False
        then obtain rc2 q2 st2 where sp: "split_node False (nd_parent n) st1 = Some (rc2, q2, st2)"
          using run n g False \<open>rc = SUCCESS\<close> pn by (auto simp: Let_def bind_eq_Some_conv)
        have l2: "logged st st2" using l1 logged_split_node [OF sp] by (rule logged_trans)
        show ?thesis
        proof (cases "rc2 = SUCCESS")
          case False
          then show ?thesis using run n g \<open>nd_parent n \<noteq> _\<close> \<open>rc = SUCCESS\<close> pn big sp l2 by auto
        next
          case True
          obtain t k1 st3 st4 where "internal_insert t key q st2 = Some st3" "set_parent_page_num q t st3 = Some st4"
            "loop (nd_parent n) q2 k1 st4 = Some r"
            using run n g False \<open>rc = SUCCESS\<close> pn big sp True by (simp add: Let_def bind_eq_Some_conv del: split_paired_Ex) blast
          then show ?thesis using l2 logged_internal(1) [of t key q st2 st3] logged_node(1) [of q t st3 st4] IH [of "nd_parent n" q2 k1 st4 r]
            by (auto intro: logged_trans)
        qed
      qed
    qed
  qed
qed


lemma logged_into_leaf:
  assumes "insert_entry_into_leaf_node p key rid st = Some (rc, st')"
  shows "logged st st'"
proof -
  obtain n i ex where n: "bt_nodes st p = Some n" "leaf_lookup st key n = Some (i, ex)"
    using assms by (auto simp: insert_entry_into_leaf_node_def bind_eq_Some_conv)
  consider "ex" | "\<not> ex" "nd_size n < max_size (bt_header st) n" | "\<not> ex" "\<not> nd_size n < max_size (bt_header st) n" by blast
  then show ?thesis
  proof cases
    case 1
    then show ?thesis using assms n by (simp add: insert_entry_into_leaf_node_def)
  next
    case 2
    then show ?thesis using assms n by (auto simp: insert_entry_into_leaf_node_def bind_eq_Some_conv dest: logged_leaf(1))
  next
    case 3
    then obtain rc1 q st1 where sp: "split_node True p st = Some (rc1, q, st1)"
      using assms n by (auto simp: insert_entry_into_leaf_node_def bind_eq_Some_conv split: if_splits)
    note l1 = logged_split_node [OF sp]
    show ?thesis
    proof (cases "rc1 = SUCCESS")
      case False
      then show ?thesis using assms n 3 sp l1 by (simp add: insert_entry_into_leaf_node_def)
    next
      case True
      obtain n1 where n1: "bt_nodes st1 p = Some n1"
        using assms n 3 sp True by (auto simp: insert_entry_into_leaf_node_def bind_eq_Some_conv)
      obtain st2 st3 st4 t j st5 k where s: "set_next_page q (nd_next_brother n1) st1 = Some st2" "set_parent_page_num q (nd_parent n1) st2 = Some st3"
        "set_next_page p q st3 = Some st4" "leaf_insert t j key rid st4 = Some st5" "insert_entry_into_parent p q k st5 = Some (rc, st')"
        using assms n 3 sp True n1
        by (simp add: insert_entry_into_leaf_node_def bind_eq_Some_conv del: split_paired_Ex) (auto split: if_splits)
      note l1
      also have "logged st1 st2" by (rule logged_node(2) [OF s(1)])
      also have "logged st2 st3" by (rule logged_node(1) [OF s(2)])
      also have "logged st3 st4" by (rule logged_node(2) [OF s(3)])
      also have "logged st4 st5" by (rule logged_leaf(1) [OF s(4)])
      also have "logged st5 st'" using logged_into_parent [OF s(5)] by simp
      finally show ?thesis .
    qed
  qed
qed

lemma logged_new_tree:
  assumes "create_new_tree key rid st = Some (rc, st')"
  shows "logged st st'"
proof (cases "ih_root_page (bt_header st) = BP_INVALID_PAGE_NUM")
  case False
  then show ?thesis using assms by (simp add: create_new_tree_def)
next
  case root: True
  then obtain rc1 p st1 where a: "memo_allocate_page st = Some (rc1, p, st1)" using assms by (auto simp: create_new_tree_def bind_eq_Some_conv)
  show ?thesis
  proof (cases "rc1 = SUCCESS")
    case False
    then show ?thesis using assms root a logged_reads [OF reads_memo_no_page [OF a]] by (simp add: create_new_tree_def)
  next
    case True
    then obtain st2 where s: "leaf_insert p 0 key rid (leaf_init_empty p st1) = Some st2" "update_root_page_num_locked p st2 = Some st'"
      using assms root a by (auto simp: create_new_tree_def bind_eq_Some_conv)
    have "logged st (leaf_init_empty p st1)"
      using logged_memo_allocate [of st p st1 st1 True] a True by (simp add: node_init_empty_def)
    also have "logged (leaf_init_empty p st1) st2" by (rule logged_leaf(1) [OF s(1)])
    also have "logged st2 st'" by (rule logged_update_root [OF s(2)])
    finally show ?thesis .
  qed
qed

lemma logged_adjust_root:
  assumes "adjust_root p st = Some (rc, st')"
  shows "logged st st'"
proof -
  obtain n where n: "bt_nodes st p = Some n" using assms by (auto simp: adjust_root_def bind_eq_Some_conv)
  show ?thesis
  proof (cases "nd_is_leaf n \<and> nd_size n > 0")
    case True
    then show ?thesis using assms n by (simp add: adjust_root_def)
  next
    case False
    then obtain rc1 root st1 where s: "(if nd_is_leaf n then Some (SUCCESS, BP_INVALID_PAGE_NUM, st)
          else do {
            child \<leftarrow> internal_value_at n 0;
            (rc, st1) \<leftarrow> get_page child st;
            if OB_FAIL rc then Some (rc, child, st1)
            else do { st2 \<leftarrow> set_parent_page_num child BP_INVALID_PAGE_NUM st1; Some (SUCCESS, child, st2) } }) = Some (rc1, root, st1)"
      using assms n by (auto simp: adjust_root_def bind_eq_Some_conv)
    then have l1: "logged st st1"
      by (auto simp: bind_eq_Some_conv split: if_splits dest!: logged_pool(3) logged_node(1) intro: logged_trans)
    show ?thesis
    proof (cases "rc1 = SUCCESS")
      case True
      then obtain st2 where "update_root_page_num_locked root st1 = Some st2" "st' = memo_dispose_page p st2"
        using assms n False s by (auto simp: adjust_root_def bind_eq_Some_conv)
      then show ?thesis using l1 logged_update_root [of root st1 st2] reads_dispose [of st2 p] by (auto intro: logged_trans)
    qed (use assms n False s l1 in \<open>auto simp: adjust_root_def split: if_splits\<close>)
  qed
qed

lemma logged_coalesce:
  assumes "coalesce leaf nb p parent index st = Some (rc, st')"
  shows "logged st st'"
proof -
  let ?left = "if index = 0 then p else nb" and ?right = "if index = 0 then nb else p"
  obtain st1 where s1: "internal_remove parent (if index = 0 then 1 else index) st = Some st1"
    using assms by (auto simp: coalesce_def Let_def bind_eq_Some_conv)
  obtain rc2 st2 where s2: "move_to leaf ?right ?left st1 = Some (rc2, st2)"
    using assms s1 by (auto simp: coalesce_def Let_def bind_eq_Some_conv)
  have l: "logged st st2" using logged_internal(2) [OF s1] logged_move(4) [OF s2] by (rule logged_trans)
  show ?thesis
  proof (cases "rc2 = SUCCESS")
    case False
    then show ?thesis using assms s1 s2 l by (simp add: coalesce_def Let_def)
  next
    case True
    obtain nl nr where nodes: "bt_nodes st2 ?left = Some nl" "bt_nodes st2 ?right = Some nr"
      using assms s1 s2 True by (simp add: coalesce_def Let_def) (auto simp: bind_eq_Some_conv)
    obtain st3 where st3: "(if nd_is_leaf nl then set_next_page ?left (nd_next_brother nr) st2 else Some st2) = Some st3"
      "st' = memo_dispose_page ?right st3"
      using assms s1 s2 True nodes by (simp add: coalesce_def Let_def) (auto simp: bind_eq_Some_conv)
    have "logged st2 st3" using st3(1) logged_node(2) [of ?left "nd_next_brother nr" st2 st3] by (auto split: if_splits)
    then show ?thesis using l st3(2) reads_dispose [of st3 ?right] logged_trans by blast
  qed
qed

lemma logged_redistribute:
  assumes "redistribute leaf nb p parent index st = Some (rc, st')"
  shows "logged st st'"
  using assms by (auto simp: redistribute_def bind_eq_Some_conv split: if_splits dest!: logged_move(2,3) logged_node(3) intro: logged_trans)


lemma logged_rebalance:
  assumes "coalesce_or_redistribute leaf p st = Some r"
  shows "logged st (snd r)"
proof (rule coalesce_or_redistribute.raw_induct [where P = "\<lambda>leaf p st r. logged st (snd r)", OF _ assms])
  fix loop :: "bool \<Rightarrow> PageNum \<Rightarrow> BplusTreeHandler \<Rightarrow> (RC \<times> BplusTreeHandler) option" and leaf p st r
  assume IH: "\<And>leaf p st r. loop leaf p st = Some r \<Longrightarrow> logged st (snd r)"
  assume run: "Option.bind (bt_nodes st p) (\<lambda>n.
       if nd_size n \<ge> min_size (bt_header st) n then Some (SUCCESS, st)
       else let parent = nd_parent n in
         if parent = BP_INVALID_PAGE_NUM then
           (if nd_size n > 1 then Some (SUCCESS, st)
            else Option.bind (adjust_root p st) (\<lambda>r. Some (SUCCESS, snd r)))
         else Option.bind (get_page parent st) (\<lambda>r1.
           let st1 = snd r1 in
           if OB_FAIL (fst r1) then Some r1
           else Option.bind (bt_nodes st1 parent) (\<lambda>pn.
             Option.bind (if nd_size n > 0 then node_key_at n (nd_size n - 1) else None) (\<lambda>k.
             Option.bind (internal_lookup st1 k pn) (\<lambda>i.
             let index = fst i in
             Option.bind (internal_value_at pn index) (\<lambda>v.
             if v \<noteq> p then None
             else Option.bind (internal_value_at pn (if index = 0 then 1 else index - 1)) (\<lambda>neighbor.
             Option.bind (get_page neighbor st1) (\<lambda>r2.
             if OB_FAIL (fst r2) then Some r2
             else Option.bind (memo_xlatch (PageLatch neighbor) (snd r2)) (\<lambda>st2.
             Option.bind (bt_nodes st2 neighbor) (\<lambda>nn.
             if nd_size n + nd_size nn > max_size (bt_header st2) n then
               redistribute leaf neighbor p parent index st2
             else Option.bind (coalesce leaf neighbor p parent index st2) (\<lambda>r3.
               if OB_FAIL (fst r3) then Some r3
               else loop False parent (snd r3)))))))))))) = Some r"
  obtain n where n: "bt_nodes st p = Some n" using run by (auto simp: bind_eq_Some_conv)
  consider "nd_size n \<ge> min_size (bt_header st) n" | "\<not> nd_size n \<ge> min_size (bt_header st) n" "nd_parent n = BP_INVALID_PAGE_NUM"
    | "\<not> nd_size n \<ge> min_size (bt_header st) n" "nd_parent n \<noteq> BP_INVALID_PAGE_NUM" by blast
  then show "logged st (snd r)"
  proof cases
    case 1
    then show ?thesis using run n by auto
  next
    case 2
    then show ?thesis using run n by (auto simp: bind_eq_Some_conv split: if_splits dest!: logged_adjust_root)
  next
    case 3
    obtain rc st1 where g: "get_page (nd_parent n) st = Some (rc, st1)" using run n 3 by (auto simp: Let_def bind_eq_Some_conv)
    note l1 = logged_pool(3) [OF g]
    show ?thesis
    proof (cases "rc = SUCCESS")
      case False
      then show ?thesis using run n g l1 3 by auto
    next
      case ok: True
      obtain pn where pn: "bt_nodes st1 (nd_parent n) = Some pn" using run n 3 g ok by (auto simp: Let_def bind_eq_Some_conv)
      obtain k where k: "(if nd_size n > 0 then node_key_at n (nd_size n - 1) else None) = Some k"
        using run n 3 g ok pn by (auto simp: Let_def bind_eq_Some_conv)
      obtain i where i: "internal_lookup st1 k pn = Some i" using run n 3 g ok pn k by (auto simp: Let_def bind_eq_Some_conv)
      define index where "index = fst i"
      have v: "internal_value_at pn index = Some p" using run n 3 g ok pn k i by (auto simp: Let_def index_def bind_eq_Some_conv split: if_splits)
      have r1: "Option.bind (internal_value_at pn (if index = 0 then 1 else index - 1)) (\<lambda>neighbor.
             Option.bind (get_page neighbor st1) (\<lambda>r2.
             if OB_FAIL (fst r2) then Some r2
             else Option.bind (memo_xlatch (PageLatch neighbor) (snd r2)) (\<lambda>st2.
             Option.bind (bt_nodes st2 neighbor) (\<lambda>nn.
             if nd_size n + nd_size nn > max_size (bt_header st2) n then
               redistribute leaf neighbor p (nd_parent n) index st2
             else Option.bind (coalesce leaf neighbor p (nd_parent n) index st2) (\<lambda>r3.
               if OB_FAIL (fst r3) then Some r3
               else loop False (nd_parent n) (snd r3)))))) = Some r"
        using run n 3 g ok pn k i v unfolding index_def by (simp add: Let_def split del: if_split)
      obtain neighbor where nb: "internal_value_at pn (if index = 0 then 1 else index - 1) = Some neighbor"
        using r1 by (cases "internal_value_at pn (if index = 0 then 1 else index - 1)") auto
      obtain rc2 st2 where g2: "get_page neighbor st1 = Some (rc2, st2)"
        using r1 nb by (cases "get_page neighbor st1") auto
      have rest: "(if OB_FAIL rc2 then Some (rc2, st2)
             else Option.bind (memo_xlatch (PageLatch neighbor) st2) (\<lambda>st2.
             Option.bind (bt_nodes st2 neighbor) (\<lambda>nn.
             if nd_size n + nd_size nn > max_size (bt_header st2) n then
               redistribute leaf neighbor p (nd_parent n) index st2
             else Option.bind (coalesce leaf neighbor p (nd_parent n) index st2) (\<lambda>r3.
               if OB_FAIL (fst r3) then Some r3
               else loop False (nd_parent n) (snd r3))))) = Some r"
        using r1 unfolding nb by (simp add: g2 split del: if_split cong: if_cong)
      have l2: "logged st st2" using l1 logged_pool(3) [OF g2] by (rule logged_trans)
      show ?thesis
      proof (cases "rc2 = SUCCESS")
        case False
        then show ?thesis using rest l2 by auto
      next
        case True
        obtain st3 nn where s3: "memo_xlatch (PageLatch neighbor) st2 = Some st3" "bt_nodes st3 neighbor = Some nn"
          using rest True by (auto simp: bind_eq_Some_conv)
        have l3: "logged st st3" using l2 logged_pool(6) [OF s3(1)] by (rule logged_trans)
        show ?thesis
        proof (cases "nd_size n + nd_size nn > max_size (bt_header st3) n")
          case True
          then show ?thesis using rest s3 l3 \<open>rc2 = SUCCESS\<close> logged_redistribute [of leaf neighbor p "nd_parent n" index st3 "fst r" "snd r"]
            by (auto intro: logged_trans)
        next
          case False
          then obtain rc4 st4 where s4: "coalesce leaf neighbor p (nd_parent n) index st3 = Some (rc4, st4)"
            using rest s3 \<open>rc2 = SUCCESS\<close> by (auto simp: bind_eq_Some_conv)
          have s5: "r = (rc4, st4) \<or> loop False (nd_parent n) st4 = Some r"
            using rest s3 s4 False \<open>rc2 = SUCCESS\<close> by (auto split: if_splits)
          have l4: "logged st st4" using l3 logged_coalesce [OF s4] by (rule logged_trans)
          then show ?thesis using s5 IH [of False "nd_parent n" st4 r] by (auto intro: logged_trans)
        qed
      qed
    qed
  qed
qed

lemma logged_delete:
  assumes "delete_entry_internal p key st = Some (rc, st')"
  shows "logged st st'"
proof -
  obtain c st1 where s: "leaf_remove_key p key st = Some (c, st1)" using assms by (auto simp: delete_entry_internal_def bind_eq_Some_conv)
  have "logged st1 st'"
    using assms s by (auto simp: delete_entry_internal_def bind_eq_Some_conv split: if_splits dest!: logged_rebalance)
  with logged_leaf(3) [OF s] show ?thesis by (rule logged_trans)
qed


section \<open>What an operation leaves in the log\<close>

text \<open>After an operation the log has one record more, or none when no page was changed.\<close>

definition commits :: "BplusTreeHandler \<Rightarrow> BplusTreeHandler \<Rightarrow> bool" where
  "commits st st' \<longleftrightarrow> bt_page_count st \<le> bt_page_count st' \<and>
     (\<exists>es. bt_wal st' = bt_wal st @ (if es = [] then [] else [es]) \<and> replays es st st')"

lemma release_end:
  assumes "memo_release st = Some st'"
  shows "bt_header st' = bt_header st" "bt_header_page st' = bt_header_page st" "bt_page_count st' = bt_page_count st" "bt_wal st' = bt_wal st"
    "bt_nodes st' \<subseteq>\<^sub>m bt_nodes st" "mx_disposed (bt_mtr st) = [] \<Longrightarrow> bt_nodes st' = bt_nodes st"
    "mx_entries (bt_mtr st') = mx_entries (bt_mtr st)" "mx_need_log (bt_mtr st') = mx_need_log (bt_mtr st)" "mx_disposed (bt_mtr st') = []"
proof -
  obtain st1 st2 where r: "release_to (length (mx_items (bt_mtr st))) st = Some st1" "dispose_pages (mx_disposed (bt_mtr st1)) st1 = Some st2"
    and st': "st' = mtr_update (mx_disposed_update (\<lambda>_. [])) st2"
    using assms by (auto simp: memo_release_def bind_eq_Some_conv)
  have d: "bt_header b = bt_header a \<and> bt_header_page b = bt_header_page a \<and> bt_page_count b = bt_page_count a \<and> bt_wal b = bt_wal a \<and>
      bt_nodes b \<subseteq>\<^sub>m bt_nodes a \<and> bt_mtr b = bt_mtr a \<and> (ps = [] \<longrightarrow> b = a)" if "dispose_pages ps a = Some b" for ps a b
    using that
  proof (induction ps arbitrary: a)
    case (Cons p ps)
    then obtain c where c: "pool_dispose p a = Some c" "dispose_pages ps c = Some b" by (auto simp: bind_eq_Some_conv)
    then have "bt_nodes c \<subseteq>\<^sub>m bt_nodes a" by (auto simp: pool_dispose_def map_le_def split: if_splits)
    then show ?case using Cons.IH [OF c(2)] c(1) map_le_trans by (auto simp: pool_dispose_def split: if_splits)
  qed simp
  note d = d [OF r(2)]
  have s: "reads st st1" by (rule reads_release_to [OF r(1)])
  show "bt_header st' = bt_header st" "bt_header_page st' = bt_header_page st" "bt_page_count st' = bt_page_count st" "bt_wal st' = bt_wal st"
    "bt_nodes st' \<subseteq>\<^sub>m bt_nodes st" "mx_entries (bt_mtr st') = mx_entries (bt_mtr st)" "mx_need_log (bt_mtr st') = mx_need_log (bt_mtr st)"
    "mx_disposed (bt_mtr st') = []"
    using d s st' by (auto simp: reads_def)
  show "bt_nodes st' = bt_nodes st" if "mx_disposed (bt_mtr st) = []" using that d s st' by (simp add: reads_def)
qed

lemma mtr_end_empty:
  assumes "mtr_end rc st = Some st'" "mx_entries (bt_mtr st) = []" "mx_disposed (bt_mtr st) = []" "mx_need_log (bt_mtr st)"
  shows "reads st st'"
  using assms release_end by (fastforce simp: mtr_end_def mtr_commit_def mtr_rollback_def reads_def bind_eq_Some_conv split: if_splits)

lemma reads_commits: "reads st st' \<Longrightarrow> commits st st'"
  using replays_Nil [of st' st] by (auto simp: commits_def reads_def intro!: exI [of _ "[]"])

lemma mtr_end_commits:
  assumes l: "logged st st1" and m: "mtr_end SUCCESS st1 = Some st'"
    and b: "mx_entries (bt_mtr st) = []" "mx_need_log (bt_mtr st)" "numbered st"
  shows "commits st st'"
proof -
  obtain es where es: "mx_entries (bt_mtr st1) = es" "replays es st st1" using l b by (auto simp: logged_def)
  have r: "memo_release (mtr_commit st1) = Some st'" using m by (simp add: mtr_end_def mtr_commit_def split: if_splits)
  note e = release_end(1-5) [OF r]
  have c: "bt_wal (mtr_commit st1) = bt_wal st1 @ (if es = [] then [] else [es])" "bt_nodes (mtr_commit st1) = bt_nodes st1"
    "bt_header (mtr_commit st1) = bt_header st1" "bt_header_page (mtr_commit st1) = bt_header_page st1" "bt_page_count (mtr_commit st1) = bt_page_count st1"
    using es(1) by (auto simp: mtr_commit_def)
  have "holds n (bt_nodes st' p)" if "holds n (bt_nodes st1 p)" for n p
    using that e(5) c(2) by (cases "bt_nodes st' p") (auto simp: map_le_def dom_def)
  then have "replays es st st'" using es(2) e(1-3) c(3-5) unfolding replays_def by simp blast
  then show ?thesis using e c l by (auto simp: commits_def logged_def)
qed

lemma reads_find_leaf_begin:
  "find_leaf op k (mtr_begin st) = Some (rc, p, st1) \<Longrightarrow> mx_entries (bt_mtr st1) = [] \<and> mx_disposed (bt_mtr st1) = [] \<and> mx_need_log (bt_mtr st1)"
  using reads_find_leaf [of op k "mtr_begin st" rc p st1] by (simp add: reads_def)

lemma reads_begin: "reads (mtr_begin st) st' \<Longrightarrow> bt_nodes st' = bt_nodes st \<and> bt_header st' = bt_header st \<and> bt_header_page st' = bt_header_page st \<and>
     bt_page_count st' = bt_page_count st \<and> bt_wal st' = bt_wal st"
  by (simp add: reads_def mtr_begin_def)

lemma commits_begin: "commits (mtr_begin st) st' = commits st st'"
  by (simp add: commits_def replays_def mtr_begin_def)

lemma env_numbered: "env_ok bp bl st \<Longrightarrow> numbered st"
  by (auto simp: numbered_def env_ok_def)

lemma index_numbered: "index_inv st \<Longrightarrow> numbered st"
  using env_numbered [OF index_invD(5)] by (simp add: numbered_def)

lemma commits_refused:
  assumes "find_leaf op k (mtr_begin st) = Some (rc1, p, st1)" "mtr_end rc st1 = Some st'"
  shows "commits st st'"
proof -
  have "reads st1 st'" using mtr_end_empty [OF assms(2)] reads_find_leaf_begin [OF assms(1)] by blast
  with reads_find_leaf [OF assms(1)] have "reads (mtr_begin st) st'" by (rule reads_trans)
  then show ?thesis using reads_commits commits_begin by blast
qed

lemma insert_commits:
  assumes inv: "index_inv st" and key: "key_ok (ih_attrs (bt_header st)) (u, rid)" and nu: "ih_unique (bt_header st) \<noteq> 1"
    and room: "2 * bt_page_count st \<le> bt_max_pages st" and run: "insert_entry u rid False st = Some (rc, st')"
  shows "commits st st'"
proof -
  have start: "mx_entries (bt_mtr (mtr_begin st)) = []" "mx_need_log (bt_mtr (mtr_begin st))" "numbered (mtr_begin st)"
    using index_numbered [OF inv] by (simp_all add: numbered_def)
  have mk: "make_key u rid st = Some (u, rid)"
    using key header_okD(2) [OF index_invD(2) [OF inv]] by (intro make_key_ok) (simp add: key_ok_def)
  note room = room_enough [OF index_invD(1) [OF inv] room]
  show ?thesis
  proof (cases "is_empty st")
    case True
    obtain st1 st2 st3 where s: "take_lock RootLock (mtr_begin st) = Some st1" "create_new_tree (u, rid) rid st1 = Some (rc, st2)"
      "drop_lock RootLock st2 = Some st3" "mtr_end rc st3 = Some st'"
      using run mk True by (auto simp: insert_entry_def Let_def bind_eq_Some_conv)
    have "rc = SUCCESS" using insert_empty_ok [OF inv True key room(2), of False] run by auto
    have "logged (mtr_begin st) st1" by (rule logged_pool(4) [OF s(1)])
    also have "logged st1 st2" by (rule logged_new_tree [OF s(2)])
    also have "logged st2 st3" by (rule logged_pool(5) [OF s(3)])
    finally show ?thesis using mtr_end_commits [OF _ _ start] s(4) \<open>rc = SUCCESS\<close> commits_begin by blast
  next
    case False
    obtain rc1 p st1 where fl: "find_leaf OP_INSERT_ENTRY (u, rid) (mtr_begin st) = Some (rc1, p, st1)"
      using run mk False nu by (auto simp: insert_entry_def Let_def bind_eq_Some_conv)
    obtain rc2 st2 where i: "(if OB_FAIL rc1 then Some (rc1, st1) else insert_entry_into_leaf_node p (u, rid) rid st1) = Some (rc2, st2)"
      using run mk False nu fl by (auto simp: insert_entry_def Let_def bind_eq_Some_conv)
    have m: "mtr_end rc2 st2 = Some st'" "rc = rc2" using run mk False nu fl i by (auto simp: insert_entry_def Let_def bind_eq_Some_conv)
    have ok: "if has_key st (u, rid) then rc = RECORD_DUPLICATE_KEY else rc = SUCCESS"
      using insert_tree_ok [OF inv False key room(1), of False] nu run by (auto split: if_splits)
    show ?thesis
    proof (cases "has_key st (u, rid)")
      case True
      then have "st2 = st1" using duplicate_path [OF inv False key True] fl i by auto
      then show ?thesis using commits_refused [OF fl] m by blast
    next
      case False
      then have "rc2 = SUCCESS" using ok m by simp
      then have "logged st1 st2" using i by (auto split: if_splits intro: logged_into_leaf)
      with logged_reads [OF reads_find_leaf [OF fl]] have "logged (mtr_begin st) st2" by (rule logged_trans)
      then show ?thesis using mtr_end_commits [OF _ _ start] m \<open>rc2 = SUCCESS\<close> commits_begin by blast
    qed
  qed
qed

lemma delete_commits:
  assumes inv: "index_inv st" and key: "key_ok (ih_attrs (bt_header st)) (u, rid)" and h: "6 \<le> ih_internal_max_size (bt_header st)"
    and run: "delete_entry u rid st = Some (rc, st')"
  shows "commits st st'"
proof -
  have start: "mx_entries (bt_mtr (mtr_begin st)) = []" "mx_need_log (bt_mtr (mtr_begin st))" "numbered (mtr_begin st)"
    using index_numbered [OF inv] by (simp_all add: numbered_def)
  have mk: "make_key u rid st = Some (u, rid)"
    using key header_okD(2) [OF index_invD(2) [OF inv]] by (intro make_key_ok) (simp add: key_ok_def)
  obtain rc1 p st1 where fl: "find_leaf OP_DELETE_ENTRY (u, rid) (mtr_begin st) = Some (rc1, p, st1)"
    using run mk by (auto simp: delete_entry_def bind_eq_Some_conv)
  obtain rc2 st2 where i: "(if rc1 = EMPTY then Some (RECORD_NOT_EXIST, st1) else if OB_FAIL rc1 then Some (rc1, st1)
       else delete_entry_internal p (u, rid) st1) = Some (rc2, st2)"
    using run mk fl by (auto simp: delete_entry_def bind_eq_Some_conv)
  have m: "mtr_end rc2 st2 = Some st'" "rc = rc2" using run mk fl i by (auto simp: delete_entry_def bind_eq_Some_conv)
  have ok: "rc = (if has_key st (u, rid) then SUCCESS else RECORD_NOT_EXIST)" using delete_entry_ok [OF inv h key] run by auto
  show ?thesis
  proof (cases "has_key st (u, rid)")
    case False
    then have "st2 = st1" using missing_path [OF inv key False] fl i by auto
    then show ?thesis using commits_refused [OF fl] m by blast
  next
    case True
    then have "rc2 = SUCCESS" using ok m by simp
    then have "logged st1 st2" using i by (auto split: if_splits intro: logged_delete)
    with logged_reads [OF reads_find_leaf [OF fl]] have "logged (mtr_begin st) st2" by (rule logged_trans)
    then show ?thesis using mtr_end_commits [OF _ _ start] m \<open>rc2 = SUCCESS\<close> commits_begin by blast
  qed
qed

lemma step_commits:
  assumes "bplus_inv A st" "bplus_ready A x st" "bplus_step x st = Some (rc, st')"
  shows "commits st st'"
  using assms insert_commits [of st _ _ rc st'] delete_commits [of st _ _ rc st']
  by (cases x) (auto simp: bplus_inv_def bplus_ready_def bplus_step_def)


section \<open>Replaying records\<close>

text \<open>The handler that a replay opens on the pages of a file.\<close>

definition restarted :: "BplusTreeHandler \<Rightarrow> BplusTreeHandler" where
  "restarted w = mtr_update (mx_need_log_update (\<lambda>_. False)) (mtr_begin (w\<lparr>bt_header := bt_header_page w, bt_header_dirty := False\<rparr>))"

lemma restarted_simps [simp]: "bt_nodes (restarted w) = bt_nodes w" "bt_header (restarted w) = bt_header_page w"
  "bt_header_page (restarted w) = bt_header_page w" "bt_page_count (restarted w) = bt_page_count w" "bt_faults (restarted w) = bt_faults w"
  "mx_entries (bt_mtr (restarted w)) = []" "mx_disposed (bt_mtr (restarted w)) = []" "\<not> mx_need_log (bt_mtr (restarted w))"
  by (simp_all add: restarted_def mtr_begin_def MiniTransaction_new_def)

lemma restarted_env: "quiet w \<Longrightarrow> env_ok no_pins no_locks (restarted w)"
  by (auto simp: quiet_def restarted_def env_ok_def mtr_begin_def page_exists_def)

lemma entry_redo_env:
  assumes g: "entry_ready a e w" and r: "entry_redo e w = Some w1" and v: "env_ok bp bl w"
  shows "env_ok bp bl w1"
proof -
  have node: "env_ok bp bl (set_node p n (append_log_entry e' w))" "env_ok bp bl (set_node p n w)" if "bt_nodes w p = Some m" for p n m e'
    using step_okD(1) [OF step_set_node(1) [OF v]] step_okD(1) [OF step_set_node(2) [OF v]] that by blast+
  show ?thesis
  proof (cases e)
    case (UpdateRootPage root old)
    obtain v1 v2 where s: "get_page FIRST_INDEX_PAGE w = Some (SUCCESS, v1)" "memo_xlatch (PageLatch FIRST_INDEX_PAGE) v1 = Some v2"
      and w1: "w1 = (append_log_entry (UpdateRootPage root (ih_root_page (bt_header_page v2))) v2)
        \<lparr>bt_header_page := (bt_header_page v2)\<lparr>ih_root_page := root\<rparr>, bt_header := (bt_header v2)\<lparr>ih_root_page := root\<rparr>, bt_header_dirty := True\<rparr>"
      using r UpdateRootPage by (auto simp: entry_redo_def update_root_page_num_locked_def Let_def append_log_entry_def split: Option.bind_splits if_splits)
    have "env_ok bp bl v1" using get_page_ok [OF v, of FIRST_INDEX_PAGE] s(1) by (auto simp: page_exists_def dest: step_okD(1))
    then have "env_ok bp bl v2" using latch_ok(1) [of bp bl v1 "PageLatch FIRST_INDEX_PAGE"] s(2) by (auto dest: step_okD(1))
    then show ?thesis by (auto simp: w1 env_ok_def append_log_entry_def page_exists_def)
  next
    case (LeafInitEmpty p)
    then show ?thesis using g r node by (auto simp: entry_ready_def entry_redo_def leaf_init_empty_def)
  qed (use r node in \<open>auto simp: entry_redo_def set_parent_page_num_def set_next_page_def internal_init_empty_def create_new_root_def
      set_key_at_def recover_insert_items_def recover_remove_items_def split: Option.bind_splits if_splits\<close>)
qed

lemma entry_redo_synced:
  "entry_redo e w = Some w1 \<Longrightarrow> bt_header w = bt_header_page w \<Longrightarrow> bt_header w1 = bt_header_page w1"
  by (cases e) (auto simp: entry_redo_def set_parent_page_num_def set_next_page_def leaf_init_empty_def internal_init_empty_def
      create_new_root_def set_key_at_def recover_insert_items_def recover_remove_items_def set_node_def append_log_entry_def
      update_root_page_num_locked_def get_page_def pool_pin_def pool_outcome_def memo_push_def memo_xlatch_def take_lock_def
      split: Option.bind_splits if_splits list.splits)

lemma redo_entries_keeps:
  assumes "redo_entries (filter old es) w = Some w1" "redoable a old es w" "env_ok bp bl w" "bt_header w = bt_header_page w" "\<not> mx_need_log (bt_mtr w)"
  shows "env_ok bp bl w1 \<and> bt_header w1 = bt_header_page w1 \<and> \<not> mx_need_log (bt_mtr w1) \<and> mx_entries (bt_mtr w1) = mx_entries (bt_mtr w) \<and>
    mx_disposed (bt_mtr w1) = mx_disposed (bt_mtr w)"
  using assms
proof (induction es arbitrary: w)
  case (Cons e es)
  show ?case
  proof (cases "old e")
    case True
    then obtain v where v: "entry_redo e w = Some v" "redo_entries (filter old es) v = Some w1" "entry_ready a e w" "redoable a old es v"
      using Cons.prems(1,2) by (auto simp: bind_eq_Some_conv)
    note k = entry_redo_keeps [OF v(1)]
    show ?thesis
      using Cons.IH [OF v(2,4) entry_redo_env [OF v(3,1) Cons.prems(3)] entry_redo_synced [OF v(1) Cons.prems(4)]] k Cons.prems(5) by simp
  qed (use Cons in simp)
qed simp

lemma logger_redo_commits:
  assumes q: "quiet w" and old: "\<And>e. old e \<longleftrightarrow> page_lsn (entry_page e) < lsn" and run: "redo_entries (filter old es) (restarted w) = Some w1"
    and g: "redoable (ih_total_attr_length (bt_header_page w)) old es (restarted w)"
    and bp: "get_buffer_pool buffer_pool_id = SUCCESS" "int32_range buffer_pool_id"
  shows "\<exists>w'. logger_redo get_buffer_pool lsn page_lsn (commit_record buffer_pool_id es) w =
      Some (SUCCESS, (\<lambda>p. if p \<in> entry_page ` set (filter old es) then lsn else page_lsn p), w') \<and>
    quiet w' \<and> bt_nodes w' = bt_nodes w1 \<and> bt_header_page w' = bt_header_page w1"
proof -
  let ?open = "w\<lparr>bt_header := bt_header_page w, bt_header_dirty := False\<rparr>" and ?lsns = "\<lambda>p. if p \<in> entry_page ` set (filter old es) then lsn else page_lsn p"
  note k = redo_entries_keeps [OF run g restarted_env [OF q]]
  then have e1: "env_ok no_pins no_locks w1" and k1: "mx_entries (bt_mtr w1) = []" "mx_disposed (bt_mtr w1) = []" by simp_all
  have "\<forall>p. 0 \<le> bt_pins (restarted w) p" using env_okD(4) [OF restarted_env [OF q]] by simp
  then have loop: "redo_loop lsn page_lsn (concat (map (\<lambda>e. serialize e []) es)) [] (restarted w) =
      Some (SUCCESS, map entry_page (filter old es), plus_pins (map entry_page (filter old es)) w1)"
    using redo_loop_replays [OF g _ _ _ old run, of "[]"] quietD(1) [OF q] by simp
  have "\<forall>p. 0 \<le> bt_pins w1 p" using env_okD(4) [OF e1] by simp
  note unpin = unpin_pages_plus [OF this, of "map entry_page (filter old es)"]
  let ?w2 = "mtr_update (mx_need_log_update (\<lambda>_. True)) w1"
  have buf: "logger_redo_buffer lsn page_lsn (concat (map (\<lambda>e. serialize e []) es)) (mtr_begin ?open) = Some (SUCCESS, ?lsns, ?w2)"
    using loop unpin by (simp add: logger_redo_buffer_def restarted_def)
  have "env_ok no_pins no_locks ?w2" using e1 by (auto simp: env_ok_def page_exists_def)
  then obtain w3 where r: "memo_release ?w2 = Some w3" and en: "ends_in ?w2 w3" using memo_release_ok by blast
  have "tree_open w = (SUCCESS, ?open)" using quietD(1) [OF q] by (simp add: tree_open_def pool_outcome_def)
  then have "logger_redo get_buffer_pool lsn page_lsn (commit_record buffer_pool_id es) w = Some (SUCCESS, ?lsns, w3)"
    using bp buf r k1(1) by (simp add: logger_redo_def commit_record_eq)
  then show ?thesis using ends_inD(1,2) [OF en] release_end(2) [OF r] k1(2) by simp
qed

text \<open>Redoing the entries page by page.\<close>

definition redoing :: "BplusTreeHandler \<Rightarrow> bool" where
  "redoing w \<longleftrightarrow> bt_faults w = [] \<and> \<not> mx_need_log (bt_mtr w)"

lemma entry_redo_node:
  assumes "redoing w" "on_page p e" "bt_nodes w p = Some m"
  shows "entry_redo e w = map_option (\<lambda>m'. set_node p m' w) (node_redo (bt_header w) e m)"
proof -
  have [simp]: "append_log_entry e' w = w" for e' using assms(1) by (simp add: redoing_def append_log_entry_def)
  show ?thesis
    using assms(2,3)
    by (cases e) (auto simp: on_page_def entry_redo_def node_redo_def set_parent_page_num_def set_next_page_def leaf_init_empty_def
      internal_init_empty_def create_new_root_def set_key_at_def recover_insert_items_def recover_remove_items_def split: Option.bind_splits)
qed

lemma entry_redo_root:
  assumes "redoing w" "e = UpdateRootPage root old"
  shows "\<exists>w1. entry_redo e w = Some w1 \<and> redoing w1 \<and> bt_nodes w1 = bt_nodes w \<and> bt_header w1 = (bt_header w)\<lparr>ih_root_page := root\<rparr> \<and>
    bt_header_page w1 = (bt_header_page w)\<lparr>ih_root_page := root\<rparr>"
  using assms
  by (auto simp: entry_redo_def update_root_page_num_locked_def get_page_def pool_pin_def pool_outcome_def redoing_def page_exists_def
    memo_push_def memo_xlatch_def take_lock_def append_log_entry_def)

lemma not_on_page: "(\<And>p. \<not> on_page p e) \<Longrightarrow> \<exists>root old. e = UpdateRootPage root old"
  by (cases e) (auto simp: on_page_def)

lemma redo_entries_pages:
  assumes "redoing w" "\<And>e p. e \<in> set es \<Longrightarrow> on_page p e \<Longrightarrow> bt_nodes w p \<noteq> None"
    "\<And>p m. bt_nodes w p = Some m \<Longrightarrow> page_redo (bt_header w) (filter (on_page p) es) m \<noteq> None"
  shows "\<exists>w1. redo_entries es w = Some w1 \<and>
    (\<forall>p. bt_nodes w1 p = Option.bind (bt_nodes w p) (page_redo (bt_header w) (filter (on_page p) es))) \<and>
    bt_header_page w1 = root_redo es (bt_header_page w)"
  using assms
proof (induction es arbitrary: w)
  case Nil
  then show ?case by simp
next
  case (Cons e es)
  show ?case
  proof (cases "\<exists>q. on_page q e")
    case False
    then obtain root old where e: "e = UpdateRootPage root old" using not_on_page by blast
    obtain w1 where w1: "entry_redo e w = Some w1" "redoing w1" "bt_nodes w1 = bt_nodes w" "bt_header w1 = (bt_header w)\<lparr>ih_root_page := root\<rparr>"
      "bt_header_page w1 = (bt_header_page w)\<lparr>ih_root_page := root\<rparr>"
      using entry_redo_root [OF Cons.prems(1) e] by blast
    have same: "page_redo (bt_header w1) fs = page_redo (bt_header w) fs" for fs
      by (rule ext, rule rootless_redo(2)) (simp add: w1(4))
    have "\<exists>w2. redo_entries es w1 = Some w2 \<and> (\<forall>p. bt_nodes w2 p = Option.bind (bt_nodes w1 p) (page_redo (bt_header w1) (filter (on_page p) es))) \<and>
      bt_header_page w2 = root_redo es (bt_header_page w1)"
      by (rule Cons.IH) (use w1(2,3) Cons.prems(2,3) False same in \<open>auto simp: e\<close>)
    then show ?thesis using w1 False same by (auto simp: e)
  next
    case True
    then obtain q where q: "on_page q e" ..
    then have on: "on_page p e \<longleftrightarrow> p = q" for p by (auto simp: on_page_def split: LogEntryHandler.splits)
    obtain m where m: "bt_nodes w q = Some m" using Cons.prems(2) q by fastforce
    obtain m' where m': "node_redo (bt_header w) e m = Some m'" using Cons.prems(3) [OF m] q by (auto simp: bind_eq_Some_conv)
    let ?w1 = "set_node q m' w"
    have r: "entry_redo e w = Some ?w1" using entry_redo_node [OF Cons.prems(1) q m] m' by simp
    have n1: "bt_nodes ?w1 = (bt_nodes w)(q \<mapsto> m')" "bt_header ?w1 = bt_header w" "bt_header_page ?w1 = bt_header_page w" "redoing ?w1"
      using Cons.prems(1) by (simp_all add: set_node_def redoing_def)
    have "\<exists>w2. redo_entries es ?w1 = Some w2 \<and> (\<forall>p. bt_nodes w2 p = Option.bind (bt_nodes ?w1 p) (page_redo (bt_header ?w1) (filter (on_page p) es))) \<and>
      bt_header_page w2 = root_redo es (bt_header_page ?w1)"
    proof (rule Cons.IH [OF n1(4)])
      show "bt_nodes ?w1 p \<noteq> None" if "e' \<in> set es" "on_page p e'" for e' p using Cons.prems(2) [of e' p] that n1(1) by auto
      show "page_redo (bt_header ?w1) (filter (on_page p) es) m1 \<noteq> None" if "bt_nodes ?w1 p = Some m1" for p m1
        using that Cons.prems(3) [of p] m m' on by (auto simp: n1 split: if_splits)
    qed
    then show ?thesis using r n1 m m' on root_redo_node [OF q]
      by (auto simp: root_redo_def)
  qed
qed


section \<open>Recovery\<close>

text \<open>Replaying one record of a log, with the LSNs of the pages, as \<open>BplusTreeLogReplayer::replay\<close> does.\<close>

definition replay_record :: "(int \<Rightarrow> RC) \<Rightarrow> int \<Rightarrow> LSN \<times> LogEntryHandler list \<Rightarrow> (PageNum \<Rightarrow> LSN) \<times> BplusTreeHandler \<Rightarrow>
    (RC \<times> (PageNum \<Rightarrow> LSN) \<times> BplusTreeHandler) option" where
  "replay_record get_buffer_pool buffer_pool_id = (\<lambda>(lsn, es) (page_lsn, w).
     logger_redo get_buffer_pool lsn page_lsn (commit_record buffer_pool_id es) w)"

text \<open>
  Entries that are redone can be read back: their pages are there, and as redoing one stops at items
  of the wrong kind, items that are redone have the kind of their node.
\<close>

lemma entry_redo_dom: "entry_redo e w = Some w1 \<Longrightarrow> bt_nodes w p \<noteq> None \<Longrightarrow> bt_nodes w1 p \<noteq> None"
  by (cases e) (auto simp: entry_redo_def set_parent_page_num_def set_next_page_def leaf_init_empty_def internal_init_empty_def
      create_new_root_def set_key_at_def recover_insert_items_def recover_remove_items_def set_node_def append_log_entry_def
      update_root_page_num_locked_def get_page_def pool_pin_def pool_outcome_def memo_push_def memo_xlatch_def take_lock_def
      split: Option.bind_splits if_splits list.splits)

lemma item_kind_fits: "item_fits leaf a x \<Longrightarrow> item_kind leaf' x \<Longrightarrow> item_fits leaf' a x"
  by (cases x) (auto simp: item_fits_def split: item_value.splits)

lemma entry_ready_redo:
  assumes "entry_fits a e" "page_exists (entry_page e) w" "\<And>p. e = LeafInitEmpty p \<Longrightarrow> bt_nodes w p \<noteq> None" "entry_redo e w = Some w1"
  shows "entry_ready a e w"
proof (cases e)
  case (NodeInsert p i items)
  then obtain n where n: "bt_nodes w p = Some n" "\<forall>x\<in>set items. item_kind (nd_is_leaf n) x"
    using assms(4) by (auto simp: entry_redo_def recover_insert_items_def split: Option.bind_splits if_splits)
  obtain leaf where "\<forall>x\<in>set items. item_fits leaf a x" using assms(1) NodeInsert by (auto simp: items_fit_def)
  then have "\<forall>x\<in>set items. item_fits (nd_is_leaf n) a x" using n(2) item_kind_fits by blast
  then show ?thesis using assms(1,2) n(1) NodeInsert by (simp add: entry_ready_def)
qed (use assms(1-3) in \<open>simp_all add: entry_ready_def\<close>)

lemma redoable_fits:
  assumes "\<forall>e\<in>set es. entry_fits a e \<and> page_exists (entry_page e) w \<and> (\<forall>p. e = LeafInitEmpty p \<longrightarrow> bt_nodes w p \<noteq> None)"
    "redo_entries (filter old es) w = Some w1"
  shows "redoable a old es w"
  using assms
proof (induction es arbitrary: w)
  case (Cons e es)
  show ?case
  proof (cases "old e")
    case True
    then obtain v where v: "entry_redo e w = Some v" "redo_entries (filter old es) v = Some w1"
      using Cons.prems(2) by (auto simp: bind_eq_Some_conv)
    have "\<forall>e\<in>set es. entry_fits a e \<and> page_exists (entry_page e) v \<and> (\<forall>p. e = LeafInitEmpty p \<longrightarrow> bt_nodes v p \<noteq> None)"
      using Cons.prems(1) entry_redo_dom [OF v(1)] by (auto simp: page_exists_def)
    from Cons.IH [OF this v(2)] show ?thesis
      using Cons.prems(1) True v(1) entry_ready_redo [of a e w v] by simp
  qed (use Cons in simp)
qed simp

text \<open>A page that was written to disk after some of the operations: it is as they left it, and its LSN
  is not below those of their records and below those of the records to come.\<close>

definition page_after :: "BplusTreeHandler \<Rightarrow> BplusTreeHandler \<Rightarrow> LSN list \<Rightarrow> LSN \<Rightarrow> BplusTreeHandler \<Rightarrow> PageNum \<Rightarrow> bool" where
  "page_after st s lsns lsn w p \<longleftrightarrow>
     (let r = length (bt_wal s) - length (bt_wal st) in (\<forall>l\<in>set (take r lsns). l \<le> lsn) \<and> (\<forall>l\<in>set (drop r lsns). lsn < l)) \<and>
     (if p = FIRST_INDEX_PAGE then bt_header_page w = bt_header_page s else \<forall>m. bt_nodes w p = Some m \<longrightarrow> holds m (bt_nodes s p))"

definition flushed :: "index_key index_op list \<Rightarrow> BplusTreeHandler \<Rightarrow> LSN list \<Rightarrow> (PageNum \<Rightarrow> LSN) \<Rightarrow> BplusTreeHandler \<Rightarrow> bool" where
  "flushed xs st lsns page_lsn w \<longleftrightarrow>
     (\<forall>p. \<exists>j rcs s. run_ops bplus_step (take j xs) st = Some (rcs, s) \<and> page_after st s lsns (page_lsn p) w p)"

text \<open>The pages of a state are in another one, which may have more.\<close>

definition has_pages :: "BplusTreeHandler \<Rightarrow> BplusTreeHandler \<Rightarrow> bool" where
  "has_pages w st \<longleftrightarrow> bt_header_page w = bt_header_page st \<and>
     (\<forall>p n. bt_nodes st p = Some n \<longrightarrow> (\<exists>m. bt_nodes w p = Some m \<and> node_like m n))"

definition covers :: "nat \<Rightarrow> BplusTreeHandler \<Rightarrow> bool" where
  "covers k w \<longleftrightarrow> (\<forall>p. 2 \<le> p \<and> p < int k \<longrightarrow> bt_nodes w p \<noteq> None)"

lemma run_commits:
  assumes "bplus_inv A st" "allowed_run bplus_step (bplus_ready A) xs st" "run_ops bplus_step xs st = Some (rcs, st')"
  shows "bt_page_count st \<le> bt_page_count st' \<and> (\<exists>recs. bt_wal st' = bt_wal st @ recs) \<and> rootless (bt_header_page st') = rootless (bt_header_page st)"
  using assms
proof (induction xs arbitrary: st rcs)
  case (Cons x xs)
  obtain rc st1 where s: "bplus_step x st = Some (rc, st1)" "bplus_inv A st1" using bplus_step_ok [of A st x] Cons.prems(1,2) by auto
  obtain rcs1 where r: "run_ops bplus_step xs st1 = Some (rcs1, st')" using Cons.prems(3) s(1) by (auto simp: bind_eq_Some_conv)
  have "commits st st1" using step_commits Cons.prems(1,2) s(1) by auto
  then have c: "bt_page_count st \<le> bt_page_count st1" "\<exists>recs. bt_wal st1 = bt_wal st @ recs" "rootless (bt_header_page st1) = rootless (bt_header_page st)"
    by (auto simp: commits_def replays_def)
  have "bt_page_count st1 \<le> bt_page_count st' \<and> (\<exists>recs. bt_wal st' = bt_wal st1 @ recs) \<and> rootless (bt_header_page st') = rootless (bt_header_page st1)"
    by (rule Cons.IH [OF s(2) _ r]) (use Cons.prems(2) s(1) in simp)
  then show ?case using c by auto
qed simp

lemma filter_on_old:
  assumes "\<And>e. old e \<longleftrightarrow> page_lsn (entry_page e) < lsn"
  shows "filter (on_page p) (filter old es) = (if page_lsn p < lsn then filter (on_page p) es else [])"
proof -
  have "entry_page e = p" if "on_page p e" for e using that by (simp add: on_page_def split: LogEntryHandler.splits)
  then show ?thesis by (induction es) (auto simp: assms)
qed

lemma root_redo_old:
  assumes "\<And>e. old e \<longleftrightarrow> page_lsn (entry_page e) < lsn"
  shows "root_redo (filter old es) h = (if page_lsn FIRST_INDEX_PAGE < lsn then root_redo es h else h)"
proof -
  have *: "root_redo (e # es) h = root_redo es (root_redo [e] h)" for e es h by (simp add: root_redo_def)
  have "root_redo [e] h = (if page_lsn FIRST_INDEX_PAGE < lsn then root_redo [e] h else h)" if "old e" for e h
    using that assms [of e] by (cases e) (simp_all add: root_redo_def)
  moreover have "root_redo [e] h = h" if "\<not> old e" "page_lsn FIRST_INDEX_PAGE < lsn" for e h
    using that assms [of e] by (cases e) (simp_all add: root_redo_def)
  ultimately show ?thesis
    by (induction es arbitrary: h) (simp, metis * filter.simps(2))
qed


text \<open>One record: pages that are older than it become as after the operation, the others stay.\<close>

lemma replay_one:
  assumes rep: "replays es st st1" and q: "quiet w" and g: "\<forall>e\<in>set es. entry_fits (ih_total_attr_length (bt_header_page w)) e"
    and bp: "get_buffer_pool buffer_pool_id = SUCCESS" "int32_range buffer_pool_id"
    and h: "rootless (bt_header_page w) = rootless (bt_header st)" and cov: "covers (bt_page_count st1) w"
    and root: "page_lsn FIRST_INDEX_PAGE < l \<Longrightarrow> bt_header_page w = bt_header_page st"
    and pages: "\<And>p m. page_lsn p < l \<Longrightarrow> bt_nodes w p = Some m \<Longrightarrow> holds m (bt_nodes st p)"
  shows "\<exists>lsns w'. replay_record get_buffer_pool buffer_pool_id (l, es) (page_lsn, w) = Some (SUCCESS, lsns, w') \<and> quiet w' \<and>
    dom (bt_nodes w') = dom (bt_nodes w) \<and> rootless (bt_header_page w') = rootless (bt_header_page w) \<and>
    bt_header_page w' = (if page_lsn FIRST_INDEX_PAGE < l then bt_header_page st1 else bt_header_page w) \<and>
    (\<forall>p. if page_lsn p < l then (lsns p = l \<or> lsns p = page_lsn p) \<and> (\<forall>m. bt_nodes w' p = Some m \<longrightarrow> holds m (bt_nodes st1 p))
       else lsns p = page_lsn p \<and> bt_nodes w' p = bt_nodes w p)"
proof -
  define old where "old = (\<lambda>e. page_lsn (entry_page e) < l)"
  have old: "old e \<longleftrightarrow> page_lsn (entry_page e) < l" for e by (simp add: old_def)
  note on = filter_on_old [of old page_lsn l, OF old] and ro = root_redo_old [of old page_lsn l, OF old]
  have same: "page_redo (bt_header_page w) = page_redo (bt_header st)"
    using rootless_redo(2) [OF h] by (simp add: fun_eq_iff)
  have ok: "\<exists>m'. page_redo (bt_header st) (filter (on_page p) (filter old es)) m = Some m' \<and>
      (if page_lsn p < l then holds m' (bt_nodes st1 p) else m' = m)" if "bt_nodes w p = Some m" for p m
    using rep pages [OF _ that] unfolding on replays_def by auto
  have ex: "bt_nodes w p \<noteq> None" if "e \<in> set (filter old es)" "on_page p e" for e p
  proof -
    have p: "entry_page e = p" using that(2) by (simp add: on_page_def split: LogEntryHandler.splits)
    then have "2 \<le> p \<and> p < int (bt_page_count st1)" using rep that by (auto simp: replays_def)
    then show ?thesis using cov by (simp add: covers_def)
  qed
  have rd: "redoing (restarted w)" using quietD(1) [OF q] by (simp add: redoing_def)
  obtain w1 where w1: "redo_entries (filter old es) (restarted w) = Some w1"
    "\<And>p. bt_nodes w1 p = Option.bind (bt_nodes w p) (page_redo (bt_header st) (filter (on_page p) (filter old es)))"
    "bt_header_page w1 = root_redo (filter old es) (bt_header_page w)"
    using redo_entries_pages [OF rd, of "filter old es"] ex ok same by fastforce
  have "page_exists (entry_page e) (restarted w) \<and> (\<forall>p. e = LeafInitEmpty p \<longrightarrow> bt_nodes (restarted w) p \<noteq> None)" if "e \<in> set es" for e
  proof -
    have "entry_page e = FIRST_INDEX_PAGE \<and> \<not> on_page FIRST_INDEX_PAGE e \<or> bt_nodes w (entry_page e) \<noteq> None"
      using rep that cov by (auto simp: replays_def covers_def)
    then show ?thesis by (cases e) (auto simp: page_exists_def)
  qed
  then have gr: "redoable (ih_total_attr_length (bt_header_page w)) old es (restarted w)"
    using redoable_fits [OF _ w1(1)] g by blast
  obtain w' where w': "logger_redo get_buffer_pool l page_lsn (commit_record buffer_pool_id es) w =
      Some (SUCCESS, (\<lambda>p. if p \<in> entry_page ` set (filter old es) then l else page_lsn p), w')"
    "quiet w'" "bt_nodes w' = bt_nodes w1" "bt_header_page w' = bt_header_page w1"
    using logger_redo_commits [of w old page_lsn l es w1 get_buffer_pool buffer_pool_id, OF q old w1(1) gr bp] by blast
  let ?lsns = "\<lambda>p. if p \<in> entry_page ` set (filter old es) then l else page_lsn p"
  have a: "dom (bt_nodes w') = dom (bt_nodes w)" using ok by (fastforce simp: w'(3) w1(2) bind_eq_Some_conv)
  have b: "bt_header_page w' = (if page_lsn FIRST_INDEX_PAGE < l then bt_header_page st1 else bt_header_page w)"
    using rep root by (simp add: w'(4) w1(3) ro replays_def)
  have c: "if page_lsn p < l then (?lsns p = l \<or> ?lsns p = page_lsn p) \<and> (\<forall>m. bt_nodes w' p = Some m \<longrightarrow> holds m (bt_nodes st1 p))
       else ?lsns p = page_lsn p \<and> bt_nodes w' p = bt_nodes w p" for p
  proof (cases "page_lsn p < l")
    case True
    then show ?thesis using ok [of p] by (auto simp: w'(3) w1(2) bind_eq_Some_conv)
  next
    case False
    then have "p \<notin> entry_page ` set (filter old es)" by (auto simp: old_def)
    moreover have "bt_nodes w1 p = bt_nodes w p" unfolding w1(2) on using False by simp
    ultimately show ?thesis using False by (simp add: w'(3))
  qed
  have d: "rootless (bt_header_page w') = rootless (bt_header_page w)" by (simp add: w'(4) w1(3))
  have r: "replay_record get_buffer_pool buffer_pool_id (l, es) (page_lsn, w) = Some (SUCCESS, ?lsns, w')"
    using w'(1) by (simp add: replay_record_def)
  show ?thesis by (rule exI [of _ ?lsns], rule exI [of _ w'], intro conjI allI) (rule r w'(2) a d b c)+
qed


lemma allowed_run_take: "allowed_run step ok xs s \<Longrightarrow> allowed_run step ok (take j xs) s"
proof (induction xs arbitrary: s j)
  case (Cons x xs)
  then show ?case by (cases j) (auto split: option.splits)
qed simp

text \<open>A page written before the first operation of a run, or after it.\<close>

lemma flushed_Cons:
  assumes f: "flushed (x # xs) st lsns page_lsn w" and s: "bplus_step x st = Some (rc, st1)"
    and inv: "bplus_inv A st1" "allowed_run bplus_step (bplus_ready A) xs st1"
  shows "page_after st st lsns (page_lsn p) w p \<or>
    (\<exists>j rcs s. run_ops bplus_step (take j xs) st1 = Some (rcs, s) \<and> page_after st s lsns (page_lsn p) w p \<and> (\<exists>recs. bt_wal s = bt_wal st1 @ recs))"
proof -
  obtain j rcs s where j: "run_ops bplus_step (take j (x # xs)) st = Some (rcs, s)" "page_after st s lsns (page_lsn p) w p"
    using f unfolding flushed_def by blast
  show ?thesis
  proof (cases j)
    case 0
    then show ?thesis using j by simp
  next
    case (Suc i)
    then obtain rcs1 where r: "run_ops bplus_step (take i xs) st1 = Some (rcs1, s)" using j(1) s by (auto simp: bind_eq_Some_conv)
    then show ?thesis using j(2) run_commits [OF inv(1) allowed_run_take [OF inv(2)] r] by blast
  qed
qed

lemma recovery_run:
  assumes "bplus_inv A st" "allowed_run bplus_step (bplus_ready A) xs st" "run_ops bplus_step xs st = Some (rcs, st')"
    "bt_wal st' = bt_wal st @ recs" "length lsns = length recs" "sorted_wrt (<) lsns" "quiet w" "flushed xs st lsns page_lsn w"
    "covers (bt_page_count st') w" "bt_header_page st = bt_header st" "rootless (bt_header_page w) = rootless (bt_header st)"
    "\<forall>es\<in>set recs. \<forall>e\<in>set es. entry_fits (ih_total_attr_length (bt_header st)) e"
    and bp: "get_buffer_pool buffer_pool_id = SUCCESS" "int32_range buffer_pool_id"
  shows "\<exists>page_lsn' w'. run_ops (replay_record get_buffer_pool buffer_pool_id) (zip lsns recs) (page_lsn, w) =
      Some (replicate (length recs) SUCCESS, page_lsn', w') \<and> quiet w' \<and> has_pages w' st'"
  using assms(1-12)
proof (induction xs arbitrary: st rcs recs lsns page_lsn w)
  case Nil
  then have st: "st' = st" "recs = []" by simp_all
  have v: "page_after st st lsns (page_lsn p) w p" for p using Nil.prems(8) by (auto simp: flushed_def)
  have "\<exists>m. bt_nodes w p = Some m \<and> node_like m n" if n: "bt_nodes st p = Some n" for p n
  proof -
    have "2 \<le> p" "p < int (bt_page_count st)"
      using index_numbered [of st] Nil.prems(1) n by (auto simp: bplus_inv_def numbered_def)
    then obtain m where "bt_nodes w p = Some m" using Nil.prems(9) st(1) by (auto simp: covers_def)
    then show ?thesis using v [of p] n \<open>2 \<le> p\<close> by (auto simp: page_after_def FIRST_INDEX_PAGE_def)
  qed
  then show ?case using st Nil.prems(7) v [of FIRST_INDEX_PAGE] by (auto simp: has_pages_def page_after_def)
next
  case (Cons x xs)
  obtain rc st1 where s: "bplus_step x st = Some (rc, st1)" "bplus_inv A st1" using bplus_step_ok [of A st x] Cons.prems(1,2) by auto
  have al: "allowed_run bplus_step (bplus_ready A) xs st1" using Cons.prems(2) s(1) by simp
  obtain rcs1 where r: "run_ops bplus_step xs st1 = Some (rcs1, st')" using Cons.prems(3) s(1) by (auto simp: bind_eq_Some_conv)
  obtain recs1 where rest: "bt_wal st' = bt_wal st1 @ recs1" and pc: "bt_page_count st1 \<le> bt_page_count st'"
    using run_commits [OF s(2) al r] by blast
  have "commits st st1" using step_commits Cons.prems(1,2) s(1) by auto
  then obtain es where es: "bt_wal st1 = bt_wal st @ (if es = [] then [] else [es])" "replays es st st1" by (auto simp: commits_def)
  have sync: "bt_header_page st1 = bt_header st1" and hd: "rootless (bt_header st1) = rootless (bt_header st)"
    using es(2) Cons.prems(10) by (simp_all add: replays_def)
  note fl = flushed_Cons [OF Cons.prems(8) s(1,2) al]
  have num: "bt_nodes w p \<noteq> None \<Longrightarrow> p \<noteq> FIRST_INDEX_PAGE" if "quiet w" for p and w :: BplusTreeHandler
    using bspec [of "dom (bt_nodes w)" "\<lambda>p. 2 \<le> p \<and> p < int (bt_page_count w)" p] env_numbered [OF restarted_env [OF that]]
    by (auto simp: numbered_def FIRST_INDEX_PAGE_def dom_def)
  show ?case
  proof (cases "es = []")
    case True
    then have recs: "recs1 = recs" "bt_wal st1 = bt_wal st" using rest es(1) Cons.prems(4) by simp_all
    have "holds m (bt_nodes st1 p)" if "holds m (bt_nodes st p)" for m p using es(2) that True by (auto simp: replays_def)
    then have young: "page_after st1 st1 lsns (page_lsn p) w p" if "page_after st st lsns (page_lsn p) w p" for p
      using that es(2) True by (auto simp: page_after_def replays_def)
    have "page_after st1 = page_after st" using recs(2) by (simp add: page_after_def fun_eq_iff)
    then have "\<exists>j rcs s. run_ops bplus_step (take j xs) st1 = Some (rcs, s) \<and> page_after st1 s lsns (page_lsn p) w p" for p
      using fl [of p] young [of p] by (auto intro: exI [of _ 0])
    then have "flushed xs st1 lsns page_lsn w" by (simp add: flushed_def)
    note IH = Cons.IH [OF s(2) al r _ Cons.prems(5,6,7) this Cons.prems(9) sync]
    have "\<forall>es\<in>set recs. \<forall>e\<in>set es. entry_fits (ih_total_attr_length (bt_header st1)) e"
      using Cons.prems(12) rootless_capacity(3) [OF hd] by simp
    with IH show ?thesis using recs rest Cons.prems(11) hd by simp
  next
    case False
    then have recs: "recs = es # recs1" "bt_wal st1 = bt_wal st @ [es]" using rest es(1) Cons.prems(4) by simp_all
    obtain l lsns1 where lsns: "lsns = l # lsns1" "length lsns1 = length recs1" using Cons.prems(5) recs(1) by (cases lsns) auto
    have srt: "sorted_wrt (<) lsns1" "\<forall>l'\<in>set lsns1. l < l'" using Cons.prems(6) lsns(1) by simp_all
    have young: "page_after st st lsns (page_lsn p) w p" if "page_lsn p < l" for p
      using fl [of p] that recs(2) lsns(1) by (auto simp: page_after_def Let_def)
    have after: "\<exists>j rcs s. run_ops bplus_step (take j xs) st1 = Some (rcs, s) \<and> page_after st1 s lsns1 (page_lsn p) w p" if "\<not> page_lsn p < l" for p
      using fl [of p] that recs(2) lsns(1) by (fastforce simp: page_after_def Let_def)
    have "\<exists>page_lsn1 w1. replay_record get_buffer_pool buffer_pool_id (l, es) (page_lsn, w) = Some (SUCCESS, page_lsn1, w1) \<and> quiet w1 \<and>
      dom (bt_nodes w1) = dom (bt_nodes w) \<and> rootless (bt_header_page w1) = rootless (bt_header_page w) \<and>
      bt_header_page w1 = (if page_lsn FIRST_INDEX_PAGE < l then bt_header_page st1 else bt_header_page w) \<and>
      (\<forall>p. if page_lsn p < l then (page_lsn1 p = l \<or> page_lsn1 p = page_lsn p) \<and> (\<forall>m. bt_nodes w1 p = Some m \<longrightarrow> holds m (bt_nodes st1 p))
         else page_lsn1 p = page_lsn p \<and> bt_nodes w1 p = bt_nodes w p)"
    proof (rule replay_one [of es st st1 w get_buffer_pool buffer_pool_id page_lsn l, OF es(2) Cons.prems(7) _ bp Cons.prems(11)])
      show "\<forall>e\<in>set es. entry_fits (ih_total_attr_length (bt_header_page w)) e"
        using Cons.prems(11,12) recs(1) rootless_capacity(3) [of "bt_header_page w" "bt_header st"] by simp
      show "covers (bt_page_count st1) w" using Cons.prems(9) pc by (auto simp: covers_def)
      show "bt_header_page w = bt_header_page st" if "page_lsn FIRST_INDEX_PAGE < l" using young [OF that] by (simp add: page_after_def)
      show "holds m (bt_nodes st p)" if "page_lsn p < l" "bt_nodes w p = Some m" for p m
        using young [OF that(1)] that(2) num [OF Cons.prems(7), of p] by (auto simp: page_after_def)
    qed
    then obtain page_lsn1 w1 where w1: "replay_record get_buffer_pool buffer_pool_id (l, es) (page_lsn, w) = Some (SUCCESS, page_lsn1, w1)" "quiet w1"
      "dom (bt_nodes w1) = dom (bt_nodes w)" "rootless (bt_header_page w1) = rootless (bt_header_page w)"
      "bt_header_page w1 = (if page_lsn FIRST_INDEX_PAGE < l then bt_header_page st1 else bt_header_page w)"
      "\<And>p. if page_lsn p < l then (page_lsn1 p = l \<or> page_lsn1 p = page_lsn p) \<and> (\<forall>m. bt_nodes w1 p = Some m \<longrightarrow> holds m (bt_nodes st1 p))
         else page_lsn1 p = page_lsn p \<and> bt_nodes w1 p = bt_nodes w p" by blast
    have fl1: "flushed xs st1 lsns1 page_lsn1 w1"
      unfolding flushed_def
    proof
      fix p
      show "\<exists>j rcs s. run_ops bplus_step (take j xs) st1 = Some (rcs, s) \<and> page_after st1 s lsns1 (page_lsn1 p) w1 p"
      proof (cases "page_lsn p < l")
        case True
        then have "page_after st1 st1 lsns1 (page_lsn1 p) w1 p" using w1(5) w1(6) [of p] srt(2) by (fastforce simp: page_after_def)
        then show ?thesis by (intro exI [of _ 0]) simp
      next
        case False
        then have "page_after st1 s lsns1 (page_lsn1 p) w1 p = page_after st1 s lsns1 (page_lsn p) w p" for s
          using w1(5) w1(6) [of p] by (cases "p = FIRST_INDEX_PAGE") (simp_all add: page_after_def)
        then show ?thesis using after [OF False] by simp
      qed
    qed
    have cov: "covers (bt_page_count st') w1" using Cons.prems(9) w1(3) by (auto simp: covers_def)
    have al1: "\<forall>es\<in>set recs1. \<forall>e\<in>set es. entry_fits (ih_total_attr_length (bt_header st1)) e"
      using Cons.prems(12) recs(1) rootless_capacity(3) [OF hd] by simp
    have "\<exists>page_lsn' w'. run_ops (replay_record get_buffer_pool buffer_pool_id) (zip lsns1 recs1) (page_lsn1, w1) =
      Some (replicate (length recs1) SUCCESS, page_lsn', w') \<and> quiet w' \<and> has_pages w' st'"
      by (rule Cons.IH [OF s(2) al r rest lsns(2) srt(1) w1(2) fl1 cov sync _ al1]) (use w1(4) Cons.prems(11) hd in simp)
    then show ?thesis using w1(1) lsns(1) recs(1) by auto
  qed
qed


section \<open>Properties\<close>

text \<open>
  C5. Recovery: after any sequence of insertions and deletions, replaying the records it wrote to the log,
  byte by byte, on a file whose pages were written at any moments of the sequence, each at its own, gives
  the header and the nodes the sequence ended with. A page counts as written at a moment by its LSN:
  entries of records up to that LSN are skipped on it and later ones are redone. Every entry that is
  redone is of a page that is there and its items are of the kind of their node, which the replay
  decides anew from the page; that the numbers of the entries fit their 32 bits is assumed.
  The replay works on the pages in memory: no page is evicted while it runs. The code would lose
  the redone changes of such a page, for it does not mark its frame dirty.\<close>

theorem bplus_recovery:
  assumes "bplus_inv A st" "bt_header_page st = bt_header st" "allowed_run bplus_step (bplus_ready A) xs st"
    "run_ops bplus_step xs st = Some (rcs, st')" "bt_wal st' = bt_wal st @ recs"
    and "length lsns = length recs" "sorted_wrt (<) lsns"
    and "quiet w" "flushed xs st lsns page_lsn w" "covers (bt_page_count st') w"
    and "get_buffer_pool buffer_pool_id = SUCCESS" "int32_range buffer_pool_id"
    and "\<forall>es\<in>set recs. \<forall>e\<in>set es. entry_fits (ih_total_attr_length (bt_header st)) e"
  shows "\<exists>page_lsn' w'. run_ops (replay_record get_buffer_pool buffer_pool_id) (zip lsns recs) (page_lsn, w) =
      Some (replicate (length recs) SUCCESS, page_lsn', w') \<and> quiet w' \<and> has_pages w' st'"
proof -
  obtain j rcs0 s where j: "run_ops bplus_step (take j xs) st = Some (rcs0, s)" "page_after st s lsns (page_lsn FIRST_INDEX_PAGE) w FIRST_INDEX_PAGE"
    using assms(9) unfolding flushed_def by blast
  have "rootless (bt_header_page s) = rootless (bt_header st)" using run_commits [OF assms(1) allowed_run_take [OF assms(3)] j(1)] assms(2) by simp
  then have "rootless (bt_header_page w) = rootless (bt_header st)" using j(2) by (simp add: page_after_def)
  then show ?thesis by (rule recovery_run [where st = st and recs = recs and get_buffer_pool = get_buffer_pool and buffer_pool_id = buffer_pool_id, OF assms(1,3-10) assms(2) _ assms(13,11,12)])
qed

definition ex_node :: IndexNode where
  "ex_node = \<lparr>nd_is_leaf = True, nd_parent = BP_INVALID_PAGE_NUM, nd_next_brother = BP_INVALID_PAGE_NUM,
     nd_items = [(([1, 0, 0, 0], RID 1 1), RecordValue (RID 1 1))]\<rparr>"

definition ex_record :: "LogEntryHandler list" where
  "ex_record = [LeafInitEmpty 2, NodeInsert 2 0 (nd_items ex_node), UpdateRootPage 2 BP_INVALID_PAGE_NUM]"

lemma ex_insert:
  "\<exists>st1. bplus_step (Insert ([1, 0, 0, 0], RID 1 1)) ex_index = Some (SUCCESS, st1) \<and> bt_wal st1 = [ex_record] \<and> bt_page_count st1 = 3 \<and>
     bt_nodes st1 = [2 \<mapsto> ex_node] \<and> bt_header_page st1 = (bt_header ex_index)\<lparr>ih_root_page := 2\<rparr>"
  by (simp add: bplus_step_def insert_entry_def ex_index_def new_index_def new_pool_def make_key_def mem_read_def index_header_def ints_def Let_def
    is_empty_def mtr_begin_def MiniTransaction_new_def take_lock_def create_new_tree_def memo_allocate_page_def pool_allocate_def pool_outcome_def
    free_page_def memo_push_def leaf_insert_def node_insert_items_def recover_insert_items_def leaf_init_empty_def set_node_def append_log_entry_def
    update_root_page_num_locked_def get_page_def pool_pin_def page_exists_def memo_xlatch_def drop_lock_def mtr_end_def mtr_commit_def
    memo_release_def release_to_def release_item_def pool_unpin_def FIRST_INDEX_PAGE_def ex_record_def ex_node_def node_capacity_def
    BP_PAGE_DATA_SIZE_value BP_INVALID_PAGE_NUM_def OB_FAIL_def OB_SUCC_def fun_eq_iff)


text \<open>The page of the new leaf was written after the insertion, the header was not.\<close>

definition ex_disk :: BplusTreeHandler where
  "ex_disk = ex_index\<lparr>bt_nodes := [2 \<mapsto> ex_node], bt_page_count := 3\<rparr>"

definition ex_lsns :: "PageNum \<Rightarrow> LSN" where
  "ex_lsns = (\<lambda>p. if p = 2 then 5 else 0)"

lemma ex_record_fits: "\<forall>e\<in>set ex_record. entry_fits (ih_total_attr_length (bt_header ex_index)) e"
proof -
  have "items_fit 4 0 (nd_items ex_node)"
    unfolding items_fit_def by (intro conjI exI [of _ True]) (simp_all add: ex_node_def item_fits_def key_fits_def int32_range_def RID_def)
  then show ?thesis
    by (simp add: ex_record_def int32_range_def ex_index_def new_index_def index_header_def ints_def Let_def)
qed

theorem bplus_recovery_witness:
  "\<exists>page_lsn' w'. run_ops (replay_record (\<lambda>_. SUCCESS) 3) [(5, ex_record)] (ex_lsns, ex_disk) = Some ([SUCCESS], page_lsn', w') \<and>
     ih_root_page (bt_header_page w') = 2 \<and> (\<exists>m. bt_nodes w' 2 = Some m \<and> node_like m ex_node)"
proof -
  let ?x = "Insert ([1, 0, 0, 0], RID 1 1) :: index_key index_op"
  obtain st1 where s: "bplus_step ?x ex_index = Some (SUCCESS, st1)" "bt_wal st1 = [ex_record]" "bt_page_count st1 = 3" "bt_nodes st1 = [2 \<mapsto> ex_node]"
    "bt_header_page st1 = (bt_header ex_index)\<lparr>ih_root_page := 2\<rparr>" using ex_insert by blast
  have ex: "bt_wal ex_index = []" "bt_header_page ex_index = bt_header ex_index" "bt_nodes ex_index = Map.empty"
    by (simp_all add: ex_index_def new_index_def new_pool_def)
  have fl: "flushed [?x] ex_index [5] ex_lsns ex_disk"
    unfolding flushed_def
  proof
    fix p
    show "\<exists>j rcs s. run_ops bplus_step (take j [?x]) ex_index = Some (rcs, s) \<and> page_after ex_index s [5] (ex_lsns p) ex_disk p"
    proof (cases "p = 2")
      case True
      then have "run_ops bplus_step (take 1 [?x]) ex_index = Some ([SUCCESS], st1) \<and> page_after ex_index st1 [5] (ex_lsns p) ex_disk p"
        using s ex by (simp add: page_after_def ex_lsns_def FIRST_INDEX_PAGE_def ex_disk_def node_like_def)
      then show ?thesis by blast
    next
      case False
      then have "run_ops bplus_step (take 0 [?x]) ex_index = Some ([], ex_index) \<and> page_after ex_index ex_index [5] (ex_lsns p) ex_disk p"
        using ex by (simp add: page_after_def ex_lsns_def ex_disk_def)
      then show ?thesis by blast
    qed
  qed
  have q: "quiet ex_disk"
    by (auto simp: quiet_def env_ok_def mtr_begin_def MiniTransaction_new_def ex_disk_def ex_index_def new_index_def new_pool_def split: if_splits)
  have cov: "covers (bt_page_count st1) ex_disk" by (auto simp: covers_def s(3) ex_disk_def)
  have al: "allowed_run bplus_step (bplus_ready ints) [?x] ex_index"
    using s(1) by (simp add: bplus_ready_def ex_key_ok ex_index_def new_index_def new_pool_def)
  have run: "run_ops bplus_step [?x] ex_index = Some ([SUCCESS], st1)" using s(1) by simp
  obtain page_lsn' w' where "run_ops (replay_record (\<lambda>_. SUCCESS) 3) (zip [5] [ex_record]) (ex_lsns, ex_disk) =
      Some (replicate (length [ex_record]) SUCCESS, page_lsn', w')" "has_pages w' st1"
    using bplus_recovery [OF ex_index_inv(1) ex(2) al run, of "[ex_record]" "[5]" ex_disk ex_lsns "\<lambda>_. SUCCESS" 3] s(2) ex(1) q fl cov ex_record_fits
    by (auto simp: int32_range_def)
  then show ?thesis using s(4,5) by (auto simp: has_pages_def)
qed

end
