(* ===== verification/Spec2Isabelle.thy ===== *)
theory Spec2Isabelle
  imports RecordFileInv RingBuffer LruCache MvccInv BplusUnique BplusRecovery
begin

text \<open>
  Verification of the storage engine of \<open>observer\<close>, the database server under \<open>src/src/observer\<close>,
  with the parts of \<open>src/deps/common\<close> that it rests on.

  \<^bold>\<open>The program.\<close> A table's records are in a record file, which is a file of pages in the buffer pool;
  its indexes are B+-trees, each in a file of pages of its own. Transactions mark records with their
  ids and decide which records a reader sees. Every change of pages is first noted in the commit
  log, which a thread writes to its files, and the buffer pool waits for the log before it writes a
  page. A client's rows leave through the buffered writer and its ring buffer.

  \<^bold>\<open>Conventions.\<close> A class is a record of its fields, an operation a function from its arguments and the
  state to its result and the new state. Return codes are values of \<open>RC\<close> (theory \<open>Base\<close>,
  \<open>common/rc.h\<close>); every early return of the code is a branch. The type \<open>option\<close> around a result
  is the process stopping or not returning: a failed \<open>ASSERT\<close>, an access outside an array or
  through a null pointer, \<open>exit\<close>, an endless loop. A loop that need not end is a
  \<^theory_text>\<open>partial_function\<close>, so that its returning is part of what is proved. Integers that wrap are
  kept in range by \<open>to_int32\<close> or are machine words; pages and log payloads are lists of bytes.

  \<^bold>\<open>Theories and components\<close>, in the order in which they build on each other:

  \<^item> \<open>Base\<close>, \<open>Bytes\<close>: return codes, outcomes, byte memory, structures in memory.
  \<^item> \<open>Bitmap\<close> (\<open>lang/bitmap.cpp\<close>), \<open>Crc\<close> (\<open>math/crc.cpp\<close>).
  \<^item> \<open>Clog\<close> (\<open>storage/clog/\<close>): entries, the buffer, log files as bytes, \<open>DiskLogHandler\<close> and its thread.
    Each of the two writes of an entry may fail after any part of it. Appends and flush passes
    interleave as steps of an inductive relation, with a flag for failed writes that left bytes
    behind; nothing appended is lost, the thread drains the buffer, a restart continues, \<open>wait_lsn\<close>
    means the entry is in the files, and what torn entries do to a restart and to an iteration.
  \<^item> \<open>Frames\<close>, \<open>RecordLog\<close>, \<open>RecordPage\<close>: frames with pins and latches, the log records of the record
    manager, and row pages as bytes, refined by a map from slots to records.
  \<^item> \<open>BufferPool\<close>, \<open>BufferPoolInv\<close>, \<open>PageAlloc\<close> (\<open>storage/buffer/\<close>): the pool with eviction, the double
    write buffer and page allocation; what a page of a pool holds is a map that eviction and write-back keep,
    whichever frames of other pools are taken; the changes of those are lost when they are dirty.
    A page is written without its log entry once the log has stopped; allocation is a set that the
    log rebuilds.
  \<^item> \<open>RecordFile\<close>, \<open>RecordFileInv\<close> (\<open>storage/record/\<close>): page handlers, \<open>RecordFileHandler\<close> and the
    scanner over the buffer pool, refined by a map from record ids to records.
  \<^item> \<open>LruCache\<close> (\<open>lang/lru_cache.h\<close>): the linked nodes on a heap that implement the list of
    entries the frame manager is modelled with.
  \<^item> \<open>MvccTrx\<close>, \<open>MvccInv\<close> (\<open>storage/trx/\<close>): transactions over tables as maps; deletes, commit,
    rollback, what a reader sees while others run, and the cases the code misses. Inserts store
    nothing in a table, as in the code, so the records are those the tables held before.
  \<^item> \<open>RingBuffer\<close> (\<open>net/ring_buffer.cpp\<close>, \<open>net/buffered_writer.cpp\<close>): a bounded queue of bytes and the
    writer that delivers a response through it.
  \<^item> \<open>KeyOrder\<close> (\<open>lang/lower_bound.h\<close>, \<open>lang/comparator.cpp\<close>, the comparators of
    \<open>storage/index/bplus_tree.h\<close>): binary search against a linear one, keys against their rank.
  \<^item> \<open>BplusTree\<close> (\<open>storage/index/bplus_tree.cpp\<close>, \<open>latch_memo.cpp\<close>, \<open>bplus_tree_log.cpp\<close>,
    \<open>bplus_tree_log_entry.cpp\<close>): nodes, search with latch crabbing, insertion, deletion, scanning,
    creation, validation, mini transactions. The tree sees the buffer pool as pages that can be
    pinned, allocated and disposed of, each call of which may fail; that the pool itself keeps the
    pages is the subject of \<open>BufferPoolInv\<close>. The map of pages leaves out which frames are marked
    dirty: the tree's code forgets some of these marks (in merging, in promoting a child to the root and
    in replaying the log), and what an eviction then loses the theorems on the tree do not show.
  \<^item> \<open>BplusShape\<close>, \<open>BplusMerge\<close>: the invariant of the tree on pages and how splitting, attaching, merging
    and balancing keep it, without the code. \<open>BplusOps\<close>, \<open>BplusInsert\<close>, \<open>BplusDelete\<close>,
    \<open>BplusIndex\<close>, \<open>BplusScan\<close>: that each operation of the code returns, makes this change and leaves no
    pin or latch. \<open>BplusContract\<close>: the interface of an ordered index as a locale, the tree as its
    instance, and what follows for sequences of operations. \<open>BplusValidate\<close>: \<open>validate_tree\<close> accepts the
    tree; its height. \<open>BplusUnique\<close>: the unique index that is not.
  \<^item> \<open>BplusLog\<close> (\<open>lang/serializer.cpp\<close>, \<open>bplus_tree_log_entry.cpp\<close>, \<open>bplus_tree_log.cpp\<close>): the tree's log
    records as bytes, how they are read back, and their replay on the pages that are older.
    \<open>BplusRecovery\<close>: replaying the log of any sequence of operations on pages written to disk at
    different times gives the tree the sequence ended with.

  \<^bold>\<open>Interfaces.\<close> A locale states what a client may rely on and is interpreted on the model of the code
  that provides it. \<open>safe_machine\<close> (theory \<open>Base\<close>) has operations that return and keep an invariant;
  \<open>refining_machine\<close> extends it by an abstract machine that every operation is a step of, and is
  interpreted on record pages, the buffer pool, record files, transactions, the ring buffer and the LRU
  cache; \<open>ordered_index\<close> (theory \<open>BplusContract\<close>) extends that by the set of keys of an index, and is
  interpreted on \<open>insert_entry\<close> and \<open>delete_entry\<close> of the B+-tree.

  \<^bold>\<open>Bounds.\<close> The theorems on the B+-tree take integer, date and character attributes, for whose keys the
  comparison is an order (\<open>key_ok\<close>); node maxima of at least 4 for leaves and, for deletions, 6 for
  internal nodes, below which the code's own assertion can fail on negative keys; and a file that
  an insertion may double, so that no split runs out of pages. Unless \<open>bt_faults\<close> says otherwise
  the buffer pool's calls succeed, and it does not in these theorems. The depth given to
  \<open>validate_tree\<close> is enough when two to its power exceeds the number of entries, because a tree of
  height \<open>h\<close> has at least \<open>2 ^ h\<close> entries. Recovery assumes that the numbers in the log's entries fit
  32 bits, and that no page is evicted during the replay. The bounds of the other components are in the texts
  of their theorems.

  \<^bold>\<open>Not modelled.\<close> Threads other than the log's: latches and locks are counted and checked, but one
  client uses a tree or a pool at a time, as in the default build without \<open>CONCURRENCY\<close>. PAX pages beyond
  what the code has written. Table and database catalogues, the index wrappers that cut keys out
  of records, the vector index, large text columns, views, the SQL parser (generated), the query
  layer, the network servers, and the utilities for logging, configuration and threads: they are
  above or beside the storage engine. Third-party code under \<open>deps/3rd\<close>, tests and benchmarks.
\<close>

end
